(* ===== verification/Base.thy ===== *)
theory Base
  imports Main "HOL-Library.Word"
begin

text \<open>
  Prelude of the development: the machine types of \<^verbatim>\<open>core/os/predefines.h\<close> as words, bytes and
  C characters, little-endian loads and stores, and the generic list and word lemmas that
  the component theories share.

  The model is the 64-bit little-endian build (\<^verbatim>\<open>PLATFORM_64BIT\<close>, x86): \<^verbatim>\<open>SIZE_T\<close> is 64 bits wide,
  \<^verbatim>\<open>char\<close> is signed, and a multi-byte load reads the least significant byte first. The
  release build is modelled: \<^verbatim>\<open>ASSERT(x)\<close> expands to nothing.
\<close>

unbundle bit_operations_syntax

named_theorems c_char \<open>evaluation of C character constants\<close>
named_theorems le_simps \<open>little-endian loads and stores\<close>

section \<open>Machine types\<close>

type_synonym byte = "8 word"
type_synonym u16 = "16 word"
type_synonym u32 = "32 word"
type_synonym u64 = "64 word"
type_synonym bytes = "byte list"

text \<open>A C character constant as the byte it denotes, and a C string literal without its
  terminating zero.\<close>

definition ch :: "char \<Rightarrow> byte" where
  "ch c = of_char c"

definition lit :: "string \<Rightarrow> bytes" where
  "lit s = map ch s"

lemma lit_Nil [simp, c_char]: "lit [] = []"
  by (simp add: lit_def)

lemma lit_Cons [simp, c_char]: "lit (c # s) = ch c # lit s"
  by (simp add: lit_def)

lemma length_lit [simp]: "length (lit s) = length s"
  by (simp add: lit_def)

lemma ch_Char [simp, c_char]: "ch (Char b0 b1 b2 b3 b4 b5 b6 b7) =
    word_of_int (horner_sum of_bool 2 [b0, b1, b2, b3, b4, b5, b6, b7])"
  by (simp add: ch_def of_char_Char)

text \<open>\<^verbatim>\<open>char\<close> is signed: promotion to \<^verbatim>\<open>int\<close> is \<open>sint\<close>; promotion of a \<^verbatim>\<open>BYTE\<close> is \<open>uint\<close>.\<close>

abbreviation c_int :: "byte \<Rightarrow> int" where
  "c_int b \<equiv> sint b"

text \<open>The value of a result of \<^verbatim>\<open>int\<close> arithmetic, or of a cast to \<^verbatim>\<open>int\<close>, which wraps at 32 bits.\<close>

definition int32 :: "int \<Rightarrow> int" where
  "int32 z = signed_take_bit 31 z"

lemma int32_id: "- (2 ^ 31) \<le> z \<Longrightarrow> z < 2 ^ 31 \<Longrightarrow> int32 z = z"
  by (simp add: int32_def signed_take_bit_int_eq_self)

section \<open>Little-endian memory\<close>

text \<open>\<open>le_store n w\<close> is the \<open>n\<close> bytes a store of the low \<open>n\<close> bytes of \<open>w\<close> writes;
  \<open>le_load bs\<close> is the word a load of the bytes \<open>bs\<close> reads.\<close>

fun le_store :: "nat \<Rightarrow> 'a::len word \<Rightarrow> bytes" where
  "le_store 0 w = []"
| "le_store (Suc n) w = ucast w # le_store n (drop_bit 8 w)"

fun le_load :: "bytes \<Rightarrow> 'a::len word" where
  "le_load [] = 0"
| "le_load (b # bs) = ucast b OR push_bit 8 (le_load bs)"

lemma length_le_store [simp, le_simps]: "length (le_store n w) = n"
  by (induction n arbitrary: w) auto

lemma bit_le_load:
  "bit (le_load bs :: 'a::len word) i \<longleftrightarrow>
     i < LENGTH('a) \<and> i div 8 < length bs \<and> bit (bs ! (i div 8)) (i mod 8)"
proof (induction bs arbitrary: i)
  case Nil
  then show ?case by simp
next
  case (Cons b bs)
  show ?case
  proof (cases "i < 8")
    case True
    then show ?thesis by (auto simp: bit_simps)
  next
    case False
    then obtain j where j: "i = j + 8"
      by (metis add.commute le_add_diff_inverse not_less)
    then have "\<not> bit b i" using bit_imp_le_length [of b i] by auto
    moreover have "(j + 8) div 8 = Suc (j div 8)" by simp
    ultimately show ?thesis using j Cons.IH [of j] by (auto simp: bit_simps)
  qed
qed

lemma nth_le_store: "i < n \<Longrightarrow> le_store n w ! i = ucast (drop_bit (8 * i) w)"
proof (induction n arbitrary: w i)
  case 0
  then show ?case by simp
next
  case (Suc n)
  then show ?case by (cases i) (auto simp: add.commute)
qed

lemma le_load_store [le_simps]:
  "LENGTH('a) \<le> 8 * n \<Longrightarrow> le_load (le_store n w) = (w :: 'a::len word)"
proof (rule bit_eqI)
  fix i
  assume n: "LENGTH('a) \<le> 8 * n"
  have "8 * (i div 8) + i mod 8 = i" for i :: nat by simp
  then show "bit (le_load (le_store n w) :: 'a word) i = bit w i" if "possible_bit TYPE('a word) i"
    using n that by (auto simp: bit_le_load nth_le_store bit_simps)
qed

section \<open>Words\<close>

lemma unat_and_mask: "unat (x AND mask n) = unat x mod 2 ^ n"
proof -
  have "unat (take_bit n x) = take_bit n (unat x)" by (rule unsigned_take_bit_eq)
  also have "\<dots> = unat x mod 2 ^ n" by (simp only: take_bit_eq_mod)
  finally show ?thesis by (simp only: take_bit_eq_mask)
qed

lemma sint_small: "unat (x :: 'a::len word) < 2 ^ (LENGTH('a) - 1) \<Longrightarrow> sint x = int (unat x)"
proof -
  assume "unat x < 2 ^ (LENGTH('a) - 1)"
  then have "int (unat x) < int (2 ^ (LENGTH('a) - 1))" by (simp only: of_nat_less_iff)
  then have "uint x < 2 ^ (LENGTH('a) - 1)" by (simp only: uint_nat of_nat_power of_nat_numeral)
  then have "sint x = uint x" unfolding sint_uint
    by (intro signed_take_bit_int_eq_self) (simp_all add: order_trans [of _ 0])
  then show ?thesis by simp
qed

lemma unat_drop_bit_div: "unat (drop_bit n x) = unat x div 2 ^ n"
proof -
  have "unat (drop_bit n x) = drop_bit n (unat x)" by (rule unat_drop_bit_eq)
  also have "\<dots> = unat x div 2 ^ n" by (simp only: drop_bit_eq_div)
  finally show ?thesis .
qed

lemma unat_word_of_nat: "n < 2 ^ LENGTH('a) \<Longrightarrow> unat (word_of_nat n :: 'a::len word) = n"
  by (simp add: unat_of_nat)

lemma eq_word_of_nat: "unat (w :: 'a::len word) = n \<Longrightarrow> w = word_of_nat n"
  by auto

text \<open>A statement about all bytes, by evaluation.\<close>

lemma all_bytes: "(\<forall>c :: byte. P c) \<longleftrightarrow> list_all P (map word_of_nat [0..<256])"
proof -
  have "c \<in> set (map word_of_nat [0..<256])" for c :: byte
  proof -
    have "unat c < 256" using unsigned_less [of c] by simp
    then show ?thesis unfolding set_map by (intro image_eqI [of _ _ "unat c"]) auto
  qed
  then show ?thesis unfolding list_all_iff by blast
qed

text \<open>Bytes bit by bit.\<close>

lemma byte_eqI:
  assumes "bit (a :: byte) 0 = bit b 0" "bit a 1 = bit b 1" "bit a 2 = bit b 2" "bit a 3 = bit b 3"
    "bit a 4 = bit b 4" "bit a 5 = bit b 5" "bit a 6 = bit b 6" "bit a 7 = bit b 7"
  shows "a = b"
proof (rule bit_eqI)
  fix n assume "possible_bit TYPE(byte) n"
  then have "n < 8" by simp
  then have "n \<in> {0, 1, 2, 3, 4, 5, 6, 7}" by auto
  then show "bit a n = bit b n" using assms by auto
qed

lemma byte_bit_ge [simp]: "8 \<le> n \<Longrightarrow> \<not> bit (a :: byte) n"
  using bit_imp_le_length [of a n] by auto

lemma unat_lt_take_bit: "take_bit k v = v \<Longrightarrow> unat (v :: 'a::len word) < 2 ^ k"
  by (metis unsigned_take_bit_eq take_bit_nat_less_exp)

section \<open>Lists\<close>

lemma list_update_append_mid: "(xs @ y # ys)[length xs := z] = xs @ z # ys"
  by (induction xs) auto

lemma take_Suc_update: "i < length xs \<Longrightarrow> take (Suc i) (xs[i := x]) = take i xs @ [x]"
  by (simp add: take_Suc_conv_app_nth)

text \<open>Writing a run of elements over the elements at an offset: \<^verbatim>\<open>memcpy\<close> into a buffer.\<close>

definition write_at :: "nat \<Rightarrow> 'a list \<Rightarrow> 'a list \<Rightarrow> 'a list" where
  "write_at off xs buf = take off buf @ xs @ drop (off + length xs) buf"

lemma length_write_at [simp]:
  "off + length xs \<le> length buf \<Longrightarrow> length (write_at off xs buf) = length buf"
  by (simp add: write_at_def)

lemma take_write_at [simp]:
  "off + length xs \<le> length buf \<Longrightarrow> take (off + length xs) (write_at off xs buf) = take off buf @ xs"
  by (simp add: write_at_def)

lemma write_at_Nil [simp]: "write_at off [] buf = buf"
  by (simp add: write_at_def)

lemma nth_write_at:
  "off + length xs \<le> length buf \<Longrightarrow> i < length buf \<Longrightarrow>
   write_at off xs buf ! i = (if off \<le> i \<and> i < off + length xs then xs ! (i - off) else buf ! i)"
  by (auto simp: write_at_def nth_append)

lemma le_store_load: "length bs \<le> 8 \<Longrightarrow> le_store (length bs) (le_load bs :: u64) = bs"
proof (rule nth_equalityI)
  assume l: "length bs \<le> 8"
  show "le_store (length bs) (le_load bs :: u64) ! i = bs ! i"
    if "i < length (le_store (length bs) (le_load bs :: u64))" for i
  proof (rule bit_eqI)
    fix n assume "possible_bit TYPE(byte) n"
    then show "bit (le_store (length bs) (le_load bs :: u64) ! i) n = bit (bs ! i) n"
      using that l by (auto simp: nth_le_store bit_simps bit_le_load)
  qed
qed simp

lemma le_store_const:
  assumes "\<And>i. i < k \<Longrightarrow> ucast (drop_bit (8 * i) w) = b"
  shows "le_store k w = replicate k b"
  by (rule nth_equalityI) (simp_all add: nth_le_store assms)

lemma le_store_zero [simp]: "le_store k (0 :: 'a::len word) = replicate k 0"
  by (rule le_store_const) simp

lemma le_store_ones: "k \<le> 8 \<Longrightarrow> le_store k (- 1 :: u64) = replicate k (- 1)"
proof (rule le_store_const, rule bit_eqI)
  fix i n assume "k \<le> 8" "i < k" "possible_bit TYPE(byte) n"
  then show "bit (ucast (drop_bit (8 * i) (- 1 :: u64)) :: byte) n = bit (- 1 :: byte) n"
    by (simp add: bit_simps)
qed

lemma write_at_append:
  "p + length xs + length ys \<le> length mem \<Longrightarrow> q = p + length xs \<Longrightarrow>
   write_at q ys (write_at p xs mem) = write_at p (xs @ ys) mem"
  by (simp add: write_at_def ac_simps)

lemma take_add_drop: "take k (drop s xs) @ take l (drop (s + k) xs) = take (k + l) (drop s xs)"
  by (simp add: take_add add.commute)

text \<open>A left-to-right comparison as \<^verbatim>\<open>memcmp\<close> makes it, on unsigned bytes: negative, zero or
  positive as the first differing byte is smaller or larger.\<close>

fun memcmp :: "bytes \<Rightarrow> bytes \<Rightarrow> int" where
  "memcmp (a # as) (b # bs) = (if a < b then - 1 else if b < a then 1 else memcmp as bs)"
| "memcmp _ _ = 0"

lemma memcmp_eq_0: "length xs = length ys \<Longrightarrow> memcmp xs ys = 0 \<longleftrightarrow> xs = ys"
  by (induction xs ys rule: memcmp.induct) auto

end
