(* ===== verification/Bits.thy ===== *)
theory Bits
  imports Base
begin

text \<open>
  The scalar and bit primitives of \<^verbatim>\<open>core/rt/runtime_base.h\<close>: range tests, \<^verbatim>\<open>PopCount\<close>,
  \<^verbatim>\<open>MaxPower2Within\<close>, \<^verbatim>\<open>BitSmudgeRight\<close>, \<^verbatim>\<open>CopyBits\<close>, the 8-byte round-up used by the allocators,
  and the counting wrappers around the compiler's bit-scan builtins.
\<close>

unbundle bit_operations_syntax

section \<open>Definitions\<close>

subsection \<open>Comparisons and ranges\<close>

(*@ core/rt/runtime_base.h 297-303 rt::max *)
definition rt_max :: "'a::linorder \<Rightarrow> 'a \<Rightarrow> 'a" where
  "rt_max x y = (if x < y then y else x)"

(*@ core/rt/runtime_base.h 305-311 rt::min *)
definition rt_min :: "'a::linorder \<Rightarrow> 'a \<Rightarrow> 'a" where
  "rt_min x y = (if x > y then y else x)"

(*@ core/rt/runtime_base.h 321-325 rt::IsInRange_OO *)
definition IsInRange_OO :: "'a::linorder \<Rightarrow> 'a \<Rightarrow> 'a \<Rightarrow> bool" where
  "IsInRange_OO var min_v max_v \<longleftrightarrow> var > min_v \<and> var < max_v"

(*@ core/rt/runtime_base.h 327-331 rt::IsInRange_CC *)
definition IsInRange_CC :: "'a::linorder \<Rightarrow> 'a \<Rightarrow> 'a \<Rightarrow> bool" where
  "IsInRange_CC var min_v max_v \<longleftrightarrow> var \<ge> min_v \<and> var \<le> max_v"

(*@ core/rt/runtime_base.h 333-337 rt::IsInRange_CO *)
definition IsInRange_CO :: "'a::linorder \<Rightarrow> 'a \<Rightarrow> 'a \<Rightarrow> bool" where
  "IsInRange_CO var min_v max_v \<longleftrightarrow> var \<ge> min_v \<and> var < max_v"

(*@ core/rt/runtime_base.h 339-343 rt::IsInRange_OC *)
definition IsInRange_OC :: "'a::linorder \<Rightarrow> 'a \<Rightarrow> 'a \<Rightarrow> bool" where
  "IsInRange_OC var min_v max_v \<longleftrightarrow> var > min_v \<and> var \<le> max_v"

subsection \<open>PopCount\<close>

(*@ core/rt/runtime_base.h 372-372 rt::_details::m1 *)
definition popcount_m1 :: u64 where "popcount_m1 = 0x5555555555555555"
(*@ core/rt/runtime_base.h 373-373 rt::_details::m2 *)
definition popcount_m2 :: u64 where "popcount_m2 = 0x3333333333333333"
(*@ core/rt/runtime_base.h 374-374 rt::_details::m4 *)
definition popcount_m4 :: u64 where "popcount_m4 = 0x0f0f0f0f0f0f0f0f"

(*@ core/rt/runtime_base.h 377-385 rt::PopCount *)
definition PopCount :: "u64 \<Rightarrow> int" where
  "PopCount x =
    (let x = x - (drop_bit 1 x AND popcount_m1);
         x = (x AND popcount_m2) + (drop_bit 2 x AND popcount_m2);
         x = (x + drop_bit 4 x) AND popcount_m4;
         x = x + drop_bit 8 x;
         x = x + drop_bit 16 x;
         x = x + drop_bit 32 x
     in uint (x AND 0x7f))"

subsection \<open>Powers of two and smudging\<close>

text \<open>\<^verbatim>\<open>MaxPower2Within\<close> keeps its result in a \<^verbatim>\<open>UINT\<close> whatever the type \<open>T\<close> of its argument. The
  loop runs until the argument is 1; the caller has excluded 0, on which it would not end.\<close>

(*@ core/rt/runtime_base.h 788-795 rt::MaxPower2Within *)
function MaxPower2Within_loop :: "u32 \<Rightarrow> 'a::len word \<Rightarrow> u32" where
  "MaxPower2Within_loop ret within =
     (if within = 1 \<or> within = 0 then ret
      else MaxPower2Within_loop (push_bit 1 ret) (drop_bit 1 within))"
  by pat_completeness auto
termination
proof (relation "measure (\<lambda>(ret, within). unat within)")
  fix within :: "'a word"
  assume "\<not> (within = 1 \<or> within = 0)"
  then have "0 < unat within" by (simp add: unat_gt_0)
  then have "unat within div 2 < unat within" by simp
  moreover have "unat (drop_bit 1 within) = unat within div 2"
    by (metis drop_bit_eq_div power_one_right unat_drop_bit_eq)
  ultimately show "((push_bit 1 ret, drop_bit 1 within), (ret, within)) \<in> measure (\<lambda>(ret, within). unat within)"
    for ret :: u32 by (simp only: in_measure prod.case)
qed simp

declare MaxPower2Within_loop.simps [simp del]

(*@ core/rt/runtime_base.h 783-799 rt::MaxPower2Within *)
definition MaxPower2Within :: "'a::len word \<Rightarrow> 'a word" where
  "MaxPower2Within within = (if within \<noteq> 0 then ucast (MaxPower2Within_loop 1 within) else 0)"

(*@ core/rt/runtime_base.h 916-920 rt::BitSmudgeRight(WORD) *)
definition BitSmudgeRight_WORD :: "u16 \<Rightarrow> u16" where
  "BitSmudgeRight_WORD x =
    (let r = (ucast x :: u32) OR drop_bit 1 (ucast x);
         r = r OR drop_bit 2 r; r = r OR drop_bit 4 r; r = r OR drop_bit 8 r
     in ucast r)"

(*@ core/rt/runtime_base.h 921-925 rt::BitSmudgeRight(UINT) *)
definition BitSmudgeRight_UINT :: "u32 \<Rightarrow> u32" where
  "BitSmudgeRight_UINT x =
    (let r = x OR drop_bit 1 x;
         r = r OR drop_bit 2 r; r = r OR drop_bit 4 r; r = r OR drop_bit 8 r; r = r OR drop_bit 16 r
     in r)"

text \<open>The 64-bit overload casts its result to \<^verbatim>\<open>WORD\<close> before returning it.\<close>

(*@ core/rt/runtime_base.h 926-930 rt::BitSmudgeRight(ULONGLONG) *)
definition BitSmudgeRight_ULONGLONG :: "u64 \<Rightarrow> u64" where
  "BitSmudgeRight_ULONGLONG x =
    (let r = x OR drop_bit 1 x;
         r = r OR drop_bit 2 r; r = r OR drop_bit 4 r; r = r OR drop_bit 8 r; r = r OR drop_bit 16 r;
         r = r OR drop_bit 32 r
     in ucast (ucast r :: u16))"

(*@ core/rt/runtime_base.h 905-910 rt::CopyBits *)
definition CopyBits :: "'a::len word \<Rightarrow> 'a word \<Rightarrow> 'a word \<Rightarrow> 'a word" where
  "CopyBits x val bmask = (x AND NOT bmask) OR val"

text \<open>The macro \<^verbatim>\<open>_EnlargeTo32AL(num)\<close>.\<close>

(*@ core/rt/runtime_base.h 768-768 _EnlargeTo32AL *)
definition EnlargeTo32AL :: "u64 \<Rightarrow> u64" where
  "EnlargeTo32AL num = (num + 0x7) AND NOT 0x7"

subsection \<open>Bit-scan wrappers\<close>

text \<open>What the compiler documents of \<^verbatim>\<open>__builtin_clz\<close>, \<^verbatim>\<open>__builtin_ctz\<close> and \<^verbatim>\<open>__builtin_popcount\<close>: the
  number of zero bits above the highest set bit, the number below the lowest set bit, and
  the number of set bits.\<close>

definition bits_of :: "'a::len word \<Rightarrow> bool list" where
  "bits_of w = map (bit w) [0..<LENGTH('a)]"

definition builtin_clz :: "'a::len word \<Rightarrow> nat" where
  "builtin_clz w = length (takeWhile Not (rev (bits_of w)))"

definition builtin_ctz :: "'a::len word \<Rightarrow> nat" where
  "builtin_ctz w = length (takeWhile Not (bits_of w))"

definition builtin_popcount :: "'a::len word \<Rightarrow> nat" where
  "builtin_popcount w = length (filter id (bits_of w))"

(*@ core/rt/runtime_base.h 993-993 rt::LeadingZeroBits(WORD) *)
definition LeadingZeroBits_WORD :: "u16 \<Rightarrow> nat" where
  "LeadingZeroBits_WORD x = (if x = 0 then 16 else builtin_clz (ucast x :: u32) - 16)"

(*@ core/rt/runtime_base.h 994-994 rt::LeadingZeroBits(DWORD) *)
definition LeadingZeroBits_DWORD :: "u32 \<Rightarrow> nat" where
  "LeadingZeroBits_DWORD x = (if x = 0 then 32 else builtin_clz x)"

(*@ core/rt/runtime_base.h 995-995 rt::LeadingZeroBits(ULONGLONG) *)
definition LeadingZeroBits_ULONGLONG :: "u64 \<Rightarrow> nat" where
  "LeadingZeroBits_ULONGLONG x = (if x = 0 then 64 else builtin_clz x)"

(*@ core/rt/runtime_base.h 1009-1009 rt::TrailingZeroBits(WORD) *)
definition TrailingZeroBits_WORD :: "u16 \<Rightarrow> nat" where
  "TrailingZeroBits_WORD x = (if x = 0 then 16 else builtin_ctz (ucast x :: u32))"

(*@ core/rt/runtime_base.h 1010-1010 rt::TrailingZeroBits(DWORD) *)
definition TrailingZeroBits_DWORD :: "u32 \<Rightarrow> nat" where
  "TrailingZeroBits_DWORD x = (if x = 0 then 32 else builtin_ctz x)"

(*@ core/rt/runtime_base.h 1011-1011 rt::TrailingZeroBits(ULONGLONG) *)
definition TrailingZeroBits_ULONGLONG :: "u64 \<Rightarrow> nat" where
  "TrailingZeroBits_ULONGLONG x = (if x = 0 then 64 else builtin_ctz x)"

(*@ core/rt/runtime_base.h 1025-1025 rt::NonzeroBits(WORD) *)
definition NonzeroBits_WORD :: "u16 \<Rightarrow> nat" where
  "NonzeroBits_WORD x = builtin_popcount (ucast x :: u32)"

(*@ core/rt/runtime_base.h 1026-1026 rt::NonzeroBits(DWORD) *)
definition NonzeroBits_DWORD :: "u32 \<Rightarrow> nat" where
  "NonzeroBits_DWORD x = builtin_popcount x"

(*@ core/rt/runtime_base.h 1027-1027 rt::NonzeroBits(ULONGLONG) *)
definition NonzeroBits_ULONGLONG :: "u64 \<Rightarrow> nat" where
  "NonzeroBits_ULONGLONG x = builtin_popcount x"

section \<open>PopCount counts the set bits\<close>

text \<open>\<open>radix k ds\<close> is the number with the \<open>k\<close>-bit digits \<open>ds\<close>, least significant first. The
  parallel additions of \<^verbatim>\<open>PopCount\<close> work on the digits of such a number without carries.\<close>

fun radix :: "nat \<Rightarrow> nat list \<Rightarrow> nat" where
  "radix k [] = 0"
| "radix k (d # ds) = d + 2 ^ k * radix k ds"

lemma radix_less: "\<forall>d\<in>set ds. d < 2 ^ k \<Longrightarrow> radix k ds < 2 ^ (k * length ds)"
proof (induction ds)
  case (Cons d ds)
  then have d: "d < 2 ^ k" and r: "Suc (radix k ds) \<le> 2 ^ (k * length ds)" by auto
  have "d + 2 ^ k * radix k ds < 2 ^ k * Suc (radix k ds)" using d by simp
  also have "\<dots> \<le> 2 ^ k * 2 ^ (k * length ds)" using r by (intro mult_left_mono) auto
  also have "\<dots> = 2 ^ (k * length (d # ds))" by (simp add: power_add)
  finally show ?case by (simp only: radix.simps)
qed simp

lemma radix_exists: "x < 2 ^ (k * n) \<Longrightarrow> \<exists>ds. length ds = n \<and> (\<forall>d\<in>set ds. d < 2 ^ k) \<and> radix k ds = x"
proof (induction n arbitrary: x)
  case (Suc n)
  have "x div 2 ^ k < 2 ^ (k * n)"
    using Suc.prems by (simp add: less_mult_imp_div_less power_add mult.commute)
  then obtain ds where "length ds = n" "\<forall>d\<in>set ds. d < 2 ^ k" "radix k ds = x div 2 ^ k"
    using Suc.IH by blast
  then show ?case by (intro exI [of _ "x mod 2 ^ k # ds"]) auto
qed simp

lemma bit_radix_Cons:
  assumes "d < 2 ^ k"
  shows "bit (radix k (d # ds)) i \<longleftrightarrow> (if i < k then bit d i else bit (radix k ds) (i - k))"
proof (cases "i < k")
  case True
  then obtain j where k: "k = i + Suc j" by (metis less_iff_Suc_add add_Suc_right)
  have "radix k (d # ds) = d + (2 * 2 ^ j * radix k ds) * 2 ^ i"
    using k by (simp add: power_add)
  then have "radix k (d # ds) div 2 ^ i = 2 * 2 ^ j * radix k ds + d div 2 ^ i"
    by (metis div_mult_self1 power_not_zero zero_neq_numeral)
  then show ?thesis using True by (simp add: bit_iff_odd)
next
  case False
  then obtain j where i: "i = k + j" by (metis le_Suc_ex not_less)
  have "radix k (d # ds) div 2 ^ k = radix k ds" using assms by simp
  then have "radix k (d # ds) div 2 ^ i = radix k ds div 2 ^ j"
    by (simp only: i power_add div_mult2_eq)
  then show ?thesis using False i by (simp add: bit_iff_odd)
qed

lemma radix_shift_and:
  assumes "length ds = length ms" and "\<forall>d\<in>set ds. d < 2 ^ k" and "\<forall>m\<in>set ms. m < 2 ^ (k - j)" and "j \<le> k"
  shows "drop_bit j (radix k ds) AND radix k ms = radix k (map2 (\<lambda>d m. drop_bit j d AND m) ds ms)"
  using assms(1-3)
proof (induction ds ms rule: list_induct2)
  case (Cons d ds m ms)
  have m: "m < 2 ^ (k - j)" and d: "d < 2 ^ k" using Cons.prems by auto
  have m': "m < 2 ^ k" by (rule order.strict_trans2 [OF m]) (simp add: power_increasing)
  have a: "drop_bit j d AND m < 2 ^ k"
    using m' by (metis and_nat_def le_less_trans AND_upper2 nat_int_comparison(2) of_nat_0_le_iff of_nat_and_eq)
  have IH: "drop_bit j (radix k ds) AND radix k ms = radix k (map2 (\<lambda>d m. drop_bit j d AND m) ds ms)"
    using Cons by simp
  have nb: "\<not> bit m i" if "k - j \<le> i" for i
    using m that by (metis bit_take_bit_iff not_less take_bit_nat_eq_self_iff)
  show ?case
  proof (rule bit_eqI)
    fix i
    have "bit (drop_bit j (radix k (d # ds)) AND radix k (m # ms)) i \<longleftrightarrow>
      (if i < k then bit d (i + j) \<and> bit m i else bit (drop_bit j (radix k ds) AND radix k ms) (i - k))"
      unfolding bit_and_iff bit_drop_bit_eq comp_def bit_radix_Cons [OF d] bit_radix_Cons [OF m']
      using nb [of i] assms(4) by (auto simp: ac_simps)
    also have "\<dots> \<longleftrightarrow> bit (radix k (map2 (\<lambda>d m. drop_bit j d AND m) (d # ds) (m # ms))) i"
      unfolding list.map zip_Cons_Cons prod.case bit_radix_Cons [OF a] IH
      by (auto simp: bit_and_iff bit_drop_bit_eq ac_simps)
    finally show "bit (drop_bit j (radix k (d # ds)) AND radix k (m # ms)) i \<longleftrightarrow>
      bit (radix k (map2 (\<lambda>d m. drop_bit j d AND m) (d # ds) (m # ms))) i" .
  qed
qed simp

lemma radix_and:
  "length ds = length ms \<Longrightarrow> \<forall>d\<in>set ds. d < 2 ^ k \<Longrightarrow> \<forall>m\<in>set ms. m < 2 ^ k \<Longrightarrow>
   radix k ds AND radix k ms = radix k (map2 (AND) ds ms)"
  using radix_shift_and [of ds ms k 0] by simp

lemma radix_add: "length ds = length es \<Longrightarrow> radix k ds + radix k es = radix k (map2 (+) ds es)"
proof (induction ds es rule: list_induct2)
  case (Cons d ds e es)
  have "2 ^ k * radix k ds + 2 ^ k * radix k es = 2 ^ k * radix k (map2 (+) ds es)"
    by (simp flip: Cons.IH add: add_mult_distrib2)
  then show ?case by simp
qed simp

lemma radix_diff:
  "list_all2 (\<le>) es ds \<Longrightarrow> radix k es \<le> radix k ds \<and> radix k ds - radix k es = radix k (map2 (-) ds es)"
proof (induction es ds rule: list_all2_induct)
  case (Cons e es d ds)
  then have "2 ^ k * radix k es \<le> 2 ^ k * radix k ds" by simp
  moreover have "2 ^ k * radix k ds - 2 ^ k * radix k es = 2 ^ k * radix k (map2 (-) ds es)"
    using Cons by (simp flip: diff_mult_distrib2)
  ultimately show ?case using Cons(1)
    unfolding radix.simps list.map zip_Cons_Cons prod.case by linarith
qed simp

lemma radix_drop:
  assumes "\<forall>d\<in>set ds. d < 2 ^ k"
  shows "drop_bit (k * m) (radix k ds) = radix k (drop m ds)"
  using assms
proof (induction m arbitrary: ds)
  case (Suc m)
  show ?case
  proof (cases ds)
    case (Cons d es)
    then have "drop_bit k (radix k ds) = radix k es" using Suc.prems by (simp add: drop_bit_eq_div)
    then have "drop_bit (k * m) (drop_bit k (radix k ds)) = radix k (drop m es)"
      using Suc Cons by simp
    then show ?thesis using Cons by (simp add: drop_bit_drop_bit add.commute)
  qed simp
qed simp

lemma radix_popcount:
  assumes "\<forall>d\<in>set ds. d < 2 ^ k"
  shows "length (filter (bit (radix k ds)) [0..<k * length ds]) =
    sum_list (map (\<lambda>d. length (filter (bit d) [0..<k])) ds)"
  using assms
proof (induction ds)
  case (Cons d ds)
  have d: "d < 2 ^ k" using Cons.prems by simp
  have u: "[0..<k * length (d # ds)] = [0..<k] @ map (\<lambda>i. i + k) [0..<k * length ds]"
    using upt_add_eq_append [of 0 k "k * length ds"] map_add_upt [of k "k * length ds"]
    by (simp add: add.commute [of k])
  have "filter (bit (radix k (d # ds))) [0..<k] = filter (bit d) [0..<k]"
    by (rule filter_cong) (auto simp: bit_radix_Cons [OF d] simp del: radix.simps)
  moreover have "filter (bit (radix k (d # ds))) (map (\<lambda>i. i + k) [0..<k * length ds]) =
      map (\<lambda>i. i + k) (filter (bit (radix k ds)) [0..<k * length ds])"
    by (simp add: filter_map o_def bit_radix_Cons [OF d] del: radix.simps)
  ultimately show ?case using Cons unfolding u by (simp del: radix.simps)
qed simp

definition nibble_pop :: "nat \<Rightarrow> nat" where
  "nibble_pop n = length (filter (bit n) [0..<4])"

lemma nibble_step:
  assumes "n < 16"
  shows "let y = n - (drop_bit 1 n AND 5) in drop_bit 1 n AND 5 \<le> n \<and> y < 16 \<and>
    (y AND 3) + (drop_bit 2 y AND 3) = nibble_pop n \<and> nibble_pop n \<le> 4"
proof -
  have "n \<in> set [0,1,2,3,4,5,6,7,8,9,10,11,12,13,14,15]"
    using assms unfolding list.set insert_iff empty_iff by arith
  moreover have "\<forall>n\<in>set [0,1,2,3,4,5,6,7,8,9,10,11,12,13,14,15]. let y = n - (drop_bit 1 n AND 5) in drop_bit 1 n AND 5 \<le> n \<and> y < 16 \<and>
    (y AND 3) + (drop_bit 2 y AND 3) = nibble_pop n \<and> nibble_pop n \<le> 4"
    by code_simp
  ultimately show ?thesis by blast
qed

lemma popcount_masks:
  "unat popcount_m1 = radix 4 (replicate 16 5)"
  "unat popcount_m2 = radix 4 (replicate 16 3)"
  "unat popcount_m4 = radix 4 [15,0,15,0,15,0,15,0,15,0,15,0,15,0,15,0]"
proof -
  have r: "replicate 16 n = [n,n,n,n,n,n,n,n,n,n,n,n,n,n,n,n]" for n :: nat by code_simp
  show "unat popcount_m1 = radix 4 (replicate 16 5)" unfolding r by (simp add: popcount_m1_def)
  show "unat popcount_m2 = radix 4 (replicate 16 3)" unfolding r by (simp add: popcount_m2_def)
  show "unat popcount_m4 = radix 4 [15,0,15,0,15,0,15,0,15,0,15,0,15,0,15,0]"
    by (simp add: popcount_m4_def)
qed

lemma unat_add_radix:
  assumes "unat (x :: u64) = radix k ds" "unat y = radix k es" "length ds = length es"
    "\<forall>d\<in>set (map2 (+) ds es). d < 2 ^ k" "k * length ds \<le> 64"
  shows "unat (x + y) = radix k (map2 (+) ds es)"
proof -
  have "radix k (map2 (+) ds es) < 2 ^ (k * length ds)"
    using radix_less [OF assms(4)] assms(3) by simp
  also have "\<dots> \<le> 2 ^ 64" using assms(5) by (rule power_increasing) simp
  finally have "unat x + unat y < 2 ^ 64" using assms by (simp add: radix_add)
  then show ?thesis using assms by (simp add: unat_word_ariths radix_add)
qed

lemma unat_sub_radix:
  assumes "unat (x :: u64) = radix k ds" "unat y = radix k es" "list_all2 (\<le>) es ds"
  shows "unat (x - y) = radix k (map2 (-) ds es)"
  using radix_diff [OF assms(3), of k] assms by (simp add: unat_sub word_le_nat_alt)

lemma map2_replicate: "length xs = n \<Longrightarrow> map2 f xs (replicate n c) = map (\<lambda>x. f x c) xs"
  by (induction xs arbitrary: n) auto

lemma map2_map_self: "map2 f xs (map g xs) = map (\<lambda>x. f x (g x)) xs"
  by (induction xs) auto

lemma popcount_nibbles:
  fixes x :: u64
  assumes x: "unat x = radix 4 ns" and len: "length ns = 16" and ns: "\<forall>n\<in>set ns. n < 16"
  defines "y \<equiv> x - (drop_bit 1 x AND popcount_m1)"
  shows "unat ((y AND popcount_m2) + (drop_bit 2 y AND popcount_m2)) = radix 4 (map nibble_pop ns)"
proof -
  let ?f = "\<lambda>n::nat. n - (drop_bit 1 n AND 5)"
  have step: "drop_bit 1 n AND 5 \<le> n" "?f n < 16" "(?f n AND 3) + (drop_bit 2 (?f n) AND 3) = nibble_pop n"
    "nibble_pop n < 16" if "n \<in> set ns" for n
    using nibble_step [of n] ns that by (auto simp: Let_def)
  have "unat (drop_bit 1 x AND popcount_m1) = radix 4 (map (\<lambda>n. drop_bit 1 n AND 5) ns)"
    unfolding unsigned_and_eq unat_drop_bit_eq x popcount_masks
    by (subst radix_shift_and) (use ns len in \<open>auto simp: map2_replicate\<close>)
  then have y: "unat y = radix 4 (map ?f ns)"
    unfolding y_def by (subst unat_sub_radix [OF x])
      (use step(1) in \<open>auto simp: list_all2_conv_all_nth map2_map_self\<close>)
  have 1: "unat (y AND popcount_m2) = radix 4 (map (\<lambda>n. ?f n AND 3) ns)"
    unfolding unsigned_and_eq y popcount_masks
    by (subst radix_and) (use step(2) len in \<open>auto simp: map2_replicate o_def\<close>)
  have 2: "unat (drop_bit 2 y AND popcount_m2) = radix 4 (map (\<lambda>n. drop_bit 2 (?f n) AND 3) ns)"
    unfolding unsigned_and_eq unat_drop_bit_eq y popcount_masks
    by (subst radix_shift_and) (use step(2) len in \<open>auto simp: map2_replicate o_def\<close>)
  show ?thesis
    by (subst unat_add_radix [OF 1 2]) (use step(3,4) len in \<open>auto simp: zip_map_map zip_same_conv_map intro!: arg_cong [where f = "radix 4"]\<close>)
qed

lemma popcount_bytes:
  fixes x :: u64
  assumes x: "unat x = radix 4 [c0,c1,c2,c3,c4,c5,c6,c7,c8,c9,c10,c11,c12,c13,c14,c15]"
    and c: "\<forall>c\<in>set [c0,c1,c2,c3,c4,c5,c6,c7,c8,c9,c10,c11,c12,c13,c14,c15]. c \<le> 4"
  shows "unat ((x + drop_bit 4 x) AND popcount_m4) =
    radix 8 [c0 + c1, c2 + c3, c4 + c5, c6 + c7, c8 + c9, c10 + c11, c12 + c13, c14 + c15]"
proof -
  have "unat (drop_bit 4 x) = radix 4 (drop 1 [c0,c1,c2,c3,c4,c5,c6,c7,c8,c9,c10,c11,c12,c13,c14,c15])"
    unfolding unat_drop_bit_eq x using c by (subst radix_drop [of _ 4 1, simplified]) auto
  then have d: "unat (drop_bit 4 x) = radix 4 [c1,c2,c3,c4,c5,c6,c7,c8,c9,c10,c11,c12,c13,c14,c15,0]"
    by simp
  have s: "unat (x + drop_bit 4 x) = radix 4 [c0+c1,c1+c2,c2+c3,c3+c4,c4+c5,c5+c6,c6+c7,c7+c8,
      c8+c9,c9+c10,c10+c11,c11+c12,c12+c13,c13+c14,c14+c15,c15]"
    by (subst unat_add_radix [OF x d]) (use c in auto)
  have a: "n AND 15 = n" if "n \<le> 8" for n :: nat
  proof -
    have "n AND 15 = take_bit 4 n" by (simp add: take_bit_eq_mask mask_eq_exp_minus_1)
    then show ?thesis using that by (simp add: take_bit_nat_eq_self)
  qed
  show ?thesis unfolding unsigned_and_eq s popcount_masks
    by (subst radix_and) (use c in \<open>auto simp: a\<close>)
qed

lemma radix_Cons_8: "radix 8 (d # ds) = d + 256 * radix 8 ds"
  by simp

lemma popcount_fold:
  fixes x :: u64
  assumes x: "unat x = radix 8 [a,b,c,d,e,f,g,h]" and s: "\<forall>n\<in>set [a,b,c,d,e,f,g,h]. n \<le> 8"
  shows "let x = x + drop_bit 8 x; x = x + drop_bit 16 x; x = x + drop_bit 32 x in
    unat (x AND 0x7f) = a + b + c + d + e + f + g + h"
proof -
  define x1 where "x1 = x + drop_bit 8 x"
  define x2 where "x2 = x1 + drop_bit 16 x1"
  define x3 where "x3 = x2 + drop_bit 32 x2"
  have "unat (drop_bit 8 x) = radix 8 [b,c,d,e,f,g,h,0]"
    unfolding unat_drop_bit_eq x using s by (subst radix_drop [of _ 8 1, simplified]) auto
  from unat_add_radix [OF x this]
  have 1: "unat x1 = radix 8 [a+b,b+c,c+d,d+e,e+f,f+g,g+h,h]" using s by (simp add: x1_def)
  have "unat (drop_bit 16 x1) = radix 8 [c+d,d+e,e+f,f+g,g+h,h,0,0]"
    unfolding unat_drop_bit_eq 1 using s by (subst radix_drop [of _ 8 2, simplified]) auto
  note y2 = this
  have "unat x2 = radix 8 (map2 (+) [a+b,b+c,c+d,d+e,e+f,f+g,g+h,h] [c+d,d+e,e+f,f+g,g+h,h,0,0])"
    unfolding x2_def by (rule unat_add_radix [OF 1 y2]) (use s in simp_all)
  then have 2: "unat x2 = radix 8 [a+b+(c+d),b+c+(d+e),c+d+(e+f),d+e+(f+g),e+f+(g+h),f+g+h,g+h,h]"
    unfolding zip_Cons_Cons list.map prod.case by simp
  have "unat (drop_bit 32 x2) = radix 8 [e+f+(g+h),f+g+h,g+h,h,0,0,0,0]"
    unfolding unat_drop_bit_eq 2 using s by (subst radix_drop [of _ 8 4, simplified]) auto
  note y = this
  have "unat x3 = radix 8 (map2 (+) [a+b+(c+d),b+c+(d+e),c+d+(e+f),d+e+(f+g),e+f+(g+h),f+g+h,g+h,h]
      [e+f+(g+h),f+g+h,g+h,h,0,0,0,0])"
    unfolding x3_def by (rule unat_add_radix [OF 2 y]) (use s in simp_all)
  then have 3: "\<exists>r. unat x3 = (a+b+(c+d)+(e+f+(g+h))) + 256 * r"
    unfolding zip_Cons_Cons list.map prod.case by (metis radix_Cons_8)
  have "unat (x3 AND 0x7f) = unat (take_bit 7 x3)"
    by (simp add: take_bit_eq_mask mask_eq_exp_minus_1)
  also have "\<dots> = unat x3 mod 128" unfolding unsigned_take_bit_eq by (simp add: take_bit_eq_mod)
  also have "\<dots> = a+b+c+d+e+f+g+h"
  proof -
    obtain r where r: "unat x3 = (a+b+(c+d)+(e+f+(g+h))) + 256 * r" using 3 by blast
    have "a+b+(c+d)+(e+f+(g+h)) \<le> 64" using s by simp
    then have "(a+b+(c+d)+(e+f+(g+h))) mod 128 = a+b+(c+d)+(e+f+(g+h))" by simp
    moreover have "(n + 256 * r) mod 128 = n mod 128" for n :: nat
      using mod_mult_self2 [of n 128 "2 * r"] by simp
    ultimately have "unat x3 mod 128 = a+b+(c+d)+(e+f+(g+h))" unfolding r by metis
    then show ?thesis by (simp only: add.assoc)
  qed
  finally show ?thesis by (simp add: x1_def x2_def x3_def Let_def)
qed

lemma PopCount_eq: "PopCount x = int (builtin_popcount x)"
proof -
  have "unat x < 2 ^ (4 * 16)" using unsigned_less [of x] by simp
  then obtain ns where len: "length ns = 16" and ns: "\<forall>n\<in>set ns. n < 16" and x: "unat x = radix 4 ns"
    using radix_exists [of "unat x" 4 16] by auto
  define y where "y = x - (drop_bit 1 x AND popcount_m1)"
  define z where "z = (y AND popcount_m2) + (drop_bit 2 y AND popcount_m2)"
  have z: "unat z = radix 4 (map nibble_pop ns)"
    unfolding z_def y_def by (rule popcount_nibbles [OF x len ns])
  have p: "nibble_pop n \<le> 4" if "n \<in> set ns" for n
    using nibble_step [of n] ns that by (auto simp: Let_def)
  have b: "bit x = bit (radix 4 ns)"
    by (simp add: fun_eq_iff bit_unsigned_iff flip: x)
  have count: "builtin_popcount x = sum_list (map nibble_pop ns)"
    using radix_popcount [of ns 4] ns len
    by (simp add: builtin_popcount_def bits_of_def filter_map o_def b nibble_pop_def [abs_def])
  obtain c0 c1 c2 c3 c4 c5 c6 c7 c8 c9 c10 c11 c12 c13 c14 c15 where
    c: "map nibble_pop ns = [c0,c1,c2,c3,c4,c5,c6,c7,c8,c9,c10,c11,c12,c13,c14,c15]"
    using len by (auto simp: numeral_eq_Suc length_Suc_conv)
  have le: "\<forall>c\<in>set (map nibble_pop ns). c \<le> 4" using p by simp
  note w = popcount_bytes [OF z [unfolded c] le [unfolded c]]
  have "\<forall>n\<in>set [c0 + c1, c2 + c3, c4 + c5, c6 + c7, c8 + c9, c10 + c11, c12 + c13, c14 + c15]. n \<le> 8"
    using le unfolding c by simp
  from popcount_fold [OF w this] have "PopCount x = int (sum_list (map nibble_pop ns))"
    unfolding PopCount_def y_def z_def c Let_def 
    by (simp add: uint_nat ac_simps)
  then show ?thesis using count by simp
qed

section \<open>Smudging and powers of two\<close>

text \<open>\<open>smudged k x r\<close>: bit \<open>n\<close> of \<open>r\<close> is the disjunction of the \<open>k\<close> bits of \<open>x\<close> from \<open>n\<close> upwards.\<close>

definition smudged :: "nat \<Rightarrow> 'a::len word \<Rightarrow> 'a word \<Rightarrow> bool" where
  "smudged k x r \<longleftrightarrow> (\<forall>n. bit r n \<longleftrightarrow> (\<exists>m\<ge>n. m < n + k \<and> bit x m))"

lemma smudged_1: "smudged 1 x x"
  by (auto simp: smudged_def less_Suc_eq_le dest: le_antisym)

lemma smudged_step: "smudged k x r \<Longrightarrow> smudged (2 * k) x (r OR drop_bit k r)"
  unfolding smudged_def bit_or_iff bit_drop_bit_eq o_def
proof (intro allI iffI; elim exE conjE disjE)
  fix n m
  assume r: "\<forall>n. bit r n = (\<exists>m\<ge>n. m < n + k \<and> bit x m)" and m: "n \<le> m" "m < n + 2 * k" "bit x m"
  show "bit r n \<or> bit r (k + n)"
  proof (cases "m < n + k")
    case True
    then show ?thesis using m r by blast
  next
    case False
    then have "k + n \<le> m" "m < k + n + k" using m by linarith+
    then show ?thesis using m r by blast
  qed
next
  fix n
  assume r: "\<forall>n. bit r n = (\<exists>m\<ge>n. m < n + k \<and> bit x m)" and b: "bit r n"
  then obtain m where "m \<ge> n" "m < n + k" "bit x m" by blast
  then show "\<exists>m\<ge>n. m < n + 2 * k \<and> bit x m" by (intro exI [of _ m]) linarith
next
  fix n
  assume r: "\<forall>n. bit r n = (\<exists>m\<ge>n. m < n + k \<and> bit x m)" and b: "bit r (k + n)"
  then obtain m where "m \<ge> k + n" "m < k + n + k" "bit x m" by blast
  then show "\<exists>m\<ge>n. m < n + 2 * k \<and> bit x m" by (intro exI [of _ m]) linarith
qed

lemma smudged_all: "smudged k x r \<Longrightarrow> LENGTH('a) \<le> k \<Longrightarrow> bit r n \<longleftrightarrow> (\<exists>m\<ge>n. bit (x::'a::len word) m)"
  unfolding smudged_def by (meson bit_imp_le_length le_trans less_le_trans trans_le_add2)

lemma smudged_32: "smudged 32 x (BitSmudgeRight_UINT x)"
proof -
  have "smudged 2 x (x OR drop_bit 1 x)" using smudged_step [OF smudged_1 [of x]] by simp
  note smudged_step [OF smudged_step [OF smudged_step [OF smudged_step [OF this]]]]
  then show ?thesis by (simp add: BitSmudgeRight_UINT_def Let_def)
qed

lemma bit_BitSmudgeRight_UINT: "bit (BitSmudgeRight_UINT x) n \<longleftrightarrow> (\<exists>m\<ge>n. bit x m)"
  by (rule smudged_all [OF smudged_32]) simp

lemma bit_BitSmudgeRight_WORD: "bit (BitSmudgeRight_WORD x) n \<longleftrightarrow> (\<exists>m\<ge>n. bit x m)"
proof -
  have "smudged 2 (ucast x) ((ucast x :: u32) OR drop_bit 1 (ucast x))" using smudged_step [OF smudged_1 [of "ucast x"]] by simp
  note smudged_step [OF smudged_step [OF smudged_step [OF this]]]
  then have "bit (BitSmudgeRight_WORD x) n \<longleftrightarrow> n < 16 \<and> (\<exists>m\<ge>n. m < n + 16 \<and> bit (ucast x :: u32) m)"
    by (simp add: BitSmudgeRight_WORD_def Let_def smudged_def bit_simps)
  then show ?thesis using bit_imp_le_length [of x] by (fastforce simp: bit_simps)
qed

lemma word_log2: "x \<noteq> 0 \<Longrightarrow> \<exists>k. bit (x::'a::len word) k \<and> (\<forall>m>k. \<not> bit x m)"
proof -
  assume "x \<noteq> 0"
  then obtain n where n: "bit x n" by (auto simp: bit_eq_iff)
  have fin: "finite {k. bit x k}" by (rule finite_subset [of _ "{..<LENGTH('a)}"]) (auto dest: bit_imp_le_length)
  then have "bit x (Max {k. bit x k})" using Max_in [OF fin] n by blast
  moreover have "\<not> bit x m" if "m > Max {k. bit x k}" for m
    using that Max_ge [OF fin, of m] by (metis mem_Collect_eq not_less)
  ultimately show ?thesis by blast
qed

lemma word_log2_bounds:
  assumes "bit (x::'a::len word) k" "\<forall>m>k. \<not> bit x m"
  shows "2 ^ k \<le> unat x" "unat x < 2 ^ Suc k"
proof -
  have "x = take_bit (Suc k) x"
    by (rule bit_eqI) (metis assms(2) bit_take_bit_iff not_less_eq)
  then show "unat x < 2 ^ Suc k"
    by (metis take_bit_nat_less_exp unsigned_take_bit_eq)
  have "\<not> unat x < 2 ^ k"
  proof
    assume "unat x < 2 ^ k"
    then have "take_bit k (unat x) = unat x" by (simp add: take_bit_nat_eq_self)
    then have "bit (unat x) k \<longleftrightarrow> False" by (metis bit_take_bit_iff less_irrefl)
    then show False using assms(1) by (simp add: bit_unsigned_iff)
  qed
  then show "2 ^ k \<le> unat x" by simp
qed

lemma MaxPower2Within_loop_eq:
  "bit x k \<Longrightarrow> \<forall>m>k. \<not> bit x m \<Longrightarrow> MaxPower2Within_loop ret x = push_bit k ret"
proof (induction ret x arbitrary: k rule: MaxPower2Within_loop.induct)
  case (1 ret x)
  show ?case
  proof (cases k)
    case 0
    then have "x = 1" using "1.prems" by (intro bit_eqI) (auto simp: bit_1_iff dest: gr0I)
    then show ?thesis using 0 by (simp add: MaxPower2Within_loop.simps)
  next
    case (Suc j)
    have nz: "\<not> (x = 1 \<or> x = 0)" using "1.prems"(1) Suc by (auto simp: bit_1_iff)
    have "MaxPower2Within_loop (push_bit 1 ret) (drop_bit 1 x) = push_bit j (push_bit 1 ret)"
      by (rule "1.IH" [OF nz]) (use "1.prems" Suc in \<open>auto simp: bit_drop_bit_eq\<close>)
    then show ?thesis using nz Suc by (subst MaxPower2Within_loop.simps) simp
  qed
qed

lemma MaxPower2Within_u32:
  fixes x :: u32
  assumes "bit x k" "\<forall>m>k. \<not> bit x m"
  shows "MaxPower2Within x = 2 ^ k"
proof -
  have "x \<noteq> 0" using assms(1) by auto
  then show ?thesis using MaxPower2Within_loop_eq [OF assms] by (simp add: MaxPower2Within_def push_bit_eq_mult)
qed
lemma smudge_mask:
  assumes "bit (x::u32) k" "\<forall>m>k. \<not> bit x m"
  shows "BitSmudgeRight_UINT x = mask (Suc k)"
proof (rule bit_eqI)
  fix n
  assume "possible_bit TYPE(u32) n"
  then show "bit (BitSmudgeRight_UINT x) n = bit (mask (Suc k) :: u32) n"
    unfolding bit_BitSmudgeRight_UINT using assms
    by (auto simp: bit_mask_iff less_Suc_eq_le) (metis not_less order_trans)
qed

lemma LeadingZero_ucast: "builtin_clz (ucast (x::u16) :: u32) = 16 + builtin_clz x"
proof -
  have "bits_of (ucast x :: u32) = bits_of x @ replicate 16 False"
    by (rule nth_equalityI) (auto simp: bits_of_def nth_append bit_simps dest: bit_imp_le_length)
  then show ?thesis by (simp add: builtin_clz_def takeWhile_append)
qed

lemma EnlargeTo32AL_eq: "unat num \<le> 2 ^ 64 - 8 \<Longrightarrow> unat (EnlargeTo32AL num) = (unat num + 7) div 8 * 8"
proof -
  assume n: "unat num \<le> 2 ^ 64 - 8"
  have "EnlargeTo32AL num = (num + 7) AND NOT (mask 3)"
    by (simp add: EnlargeTo32AL_def mask_eq_exp_minus_1)
  also have "\<dots> = push_bit 3 (drop_bit 3 (num + 7))"
    by (rule bit_eqI) (auto simp: bit_simps not_less)
  finally have "EnlargeTo32AL num = push_bit 3 (drop_bit 3 (num + 7))" .
  then have "unat (EnlargeTo32AL num) = take_bit 64 (push_bit 3 (drop_bit 3 (unat (num + 7))))"
    by (simp add: unsigned_push_bit_eq unat_drop_bit_eq del: push_bit_numeral_minus_1)
  also have "unat (num + 7) = unat num + 7" using n by (simp add: unat_word_ariths)
  also have "push_bit 3 (drop_bit 3 (unat num + 7)) = (unat num + 7) div 8 * 8"
    by (simp add: push_bit_eq_mult drop_bit_eq_div)
  also have "take_bit 64 ((unat num + 7) div 8 * 8) = (unat num + 7) div 8 * 8"
    by (rule take_bit_nat_eq_self, rule le_less_trans [OF div_times_less_eq_dividend]) (use n in simp)
  finally show ?thesis .
qed

section \<open>Properties\<close>

text \<open>C35: the parallel additions of \<open>PopCount\<close> compute the number of set bits of every 64-bit
  value, the number \<open>NonzeroBits\<close> obtains from the compiler builtin.\<close>

theorem PopCount_NonzeroBits: "PopCount x = int (NonzeroBits_ULONGLONG x)"
  by (simp add: PopCount_eq NonzeroBits_ULONGLONG_def)

text \<open>for a nonzero 32-bit value, \<open>MaxPower2Within\<close> is the power of two \<open>2 ^ k\<close> with
  \<open>2 ^ k \<le> x < 2 ^ (k + 1)\<close>, and \<open>BitSmudgeRight\<close> is twice that power, less one (so for an
  exact power of two \<open>x\<close> it is \<open>2 x - 1\<close>, not \<open>x - 1\<close>).\<close>

theorem MaxPower2Within_BitSmudgeRight:
  fixes x :: u32
  assumes "x \<noteq> 0"
  shows "\<exists>k. MaxPower2Within x = 2 ^ k \<and> 2 ^ k \<le> unat x \<and> unat x < 2 ^ Suc k \<and>
    BitSmudgeRight_UINT x = 2 * MaxPower2Within x - 1"
proof -
  from word_log2 [OF assms] obtain k where k: "bit x k" "\<forall>m>k. \<not> bit x m" by blast
  then show ?thesis using word_log2_bounds [OF k]
    by (intro exI [of _ k]) (simp add: MaxPower2Within_u32 smudge_mask mask_eq_exp_minus_1)
qed

theorem MaxPower2Within_BitSmudgeRight_witness:
  "\<exists>k. MaxPower2Within (16 :: u32) = 2 ^ k \<and> 2 ^ k \<le> unat (16 :: u32) \<and> unat (16 :: u32) < 2 ^ Suc k \<and>
    BitSmudgeRight_UINT 16 = 2 * MaxPower2Within 16 - 1"
  by (rule MaxPower2Within_BitSmudgeRight) simp

text \<open>\<open>_EnlargeTo32AL\<close> rounds a size up to a multiple of 8, for every size that the
  addition does not wrap.\<close>

theorem EnlargeTo32AL_rounds_up:
  assumes "unat num \<le> 2 ^ 64 - 8"
  shows "8 dvd unat (EnlargeTo32AL num) \<and> unat num \<le> unat (EnlargeTo32AL num) \<and>
    unat (EnlargeTo32AL num) < unat num + 8"
  unfolding EnlargeTo32AL_eq [OF assms] by (intro conjI dvd_triv_right) linarith+

theorem EnlargeTo32AL_rounds_up_witness:
  "8 dvd unat (EnlargeTo32AL 13) \<and> unat (13 :: u64) \<le> unat (EnlargeTo32AL 13) \<and>
    unat (EnlargeTo32AL 13) < unat (13 :: u64) + 8"
  by (rule EnlargeTo32AL_rounds_up) simp

end
