(* ===== verification/Pod.thy ===== *)
theory Pod
  imports Base
begin

text \<open>
  Byte-level object primitives of \<^verbatim>\<open>core/rt/runtime_base.h\<close>: the unrolled fills and copies of plain
  objects (\<^verbatim>\<open>Zero\<close>, \<^verbatim>\<open>Void\<close>, \<^verbatim>\<open>Copy\<close>, \<^verbatim>\<open>CopyByteTo\<close>), byte-order reversal and \<^verbatim>\<open>Swap\<close>. Memory is a list of
  bytes and a pointer is an offset into it; a routine that is given two objects takes two
  memories, so source and destination do not overlap, as in the code's uses.
\<close>

unbundle bit_operations_syntax

section \<open>Definitions\<close>

text \<open>A store of the low \<open>k\<close> bytes of a value at an address, and a load of \<open>k\<close> bytes.\<close>

definition store :: "nat \<Rightarrow> nat \<Rightarrow> u64 \<Rightarrow> bytes \<Rightarrow> bytes" where
  "store k p w mem = write_at p (le_store k w) mem"

definition load :: "nat \<Rightarrow> nat \<Rightarrow> bytes \<Rightarrow> u64" where
  "load k p mem = le_load (take k (drop p mem))"

subsection \<open>Fills\<close>

(*@ core/rt/runtime_base.h 515-529 rt::_details::_PodFill *)
fun PodFill :: "nat \<Rightarrow> u64 \<Rightarrow> nat \<Rightarrow> bytes \<Rightarrow> bytes" where
  "PodFill n v p mem =
    (if n = 0 then mem
     else if n = 1 then store 1 p v mem
     else if n = 2 then store 2 p v mem
     else if n = 3 then store 1 (p + 2) v (store 2 p v mem)
     else if n = 4 then store 4 p v mem
     else if n = 5 then store 1 (p + 4) v (store 4 p v mem)
     else if n = 6 then store 2 (p + 4) v (store 4 p v mem)
     else if n = 7 then store 1 (p + 4 + 2) v (store 2 (p + 4) v (store 4 p v mem))
     else PodFill (n - 8) v (p + 8) (store 8 p v mem))"

declare PodFill.simps [simp del]

(*@ core/rt/runtime_base.h 533-535 rt::Zero *)
definition Zero_obj :: "bytes \<Rightarrow> bytes" where
  "Zero_obj obj = PodFill (length obj) 0 0 obj"

(*@ core/rt/runtime_base.h 534-536 rt::Void *)
definition Void_obj :: "bytes \<Rightarrow> bytes" where
  "Void_obj obj = PodFill (length obj) (- 1) 0 obj"

text \<open>The run-time sized overloads: a loop of 8-byte stores and a switch on the remainder.\<close>

(*@ core/rt/runtime_base.h 538-554 rt::Zero(LPVOID,SIZE_T) *)
fun Zero_mem :: "nat \<Rightarrow> nat \<Rightarrow> bytes \<Rightarrow> bytes" where
  "Zero_mem p sz mem =
    (if sz \<ge> 8 then Zero_mem (p + 8) (sz - 8) (store 8 p 0 mem)
     else if sz = 0 then mem else PodFill sz 0 p mem)"

(*@ core/rt/runtime_base.h 556-572 rt::Void(LPVOID,SIZE_T) *)
fun Void_mem :: "nat \<Rightarrow> nat \<Rightarrow> bytes \<Rightarrow> bytes" where
  "Void_mem p sz mem =
    (if sz \<ge> 8 then Void_mem (p + 8) (sz - 8) (store 8 p (- 1) mem)
     else if sz = 0 then mem else PodFill sz (- 1) p mem)"

declare Zero_mem.simps [simp del] Void_mem.simps [simp del]

subsection \<open>Copies\<close>

(*@ core/rt/runtime_base.h 577-591 rt::_details::_PodCopy *)
fun PodCopy :: "nat \<Rightarrow> nat \<Rightarrow> bytes \<Rightarrow> nat \<Rightarrow> bytes \<Rightarrow> bytes" where
  "PodCopy n p mem s src =
    (if n = 0 then mem
     else if n = 1 then store 1 p (load 1 s src) mem
     else if n = 2 then store 2 p (load 2 s src) mem
     else if n = 3 then store 1 (p + 2) (load 1 (s + 2) src) (store 2 p (load 2 s src) mem)
     else if n = 4 then store 4 p (load 4 s src) mem
     else if n = 5 then store 1 (p + 4) (load 1 (s + 4) src) (store 4 p (load 4 s src) mem)
     else if n = 6 then store 2 (p + 4) (load 2 (s + 4) src) (store 4 p (load 4 s src) mem)
     else if n = 7 then store 1 (p + 4 + 2) (load 1 (s + 4 + 2) src)
       (store 2 (p + 4) (load 2 (s + 4) src) (store 4 p (load 4 s src) mem))
     else PodCopy (n - 8) (p + 8) (store 8 p (load 8 s src) mem) (s + 8) src)"

declare PodCopy.simps [simp del]

(*@ core/rt/runtime_base.h 595-598 rt::Copy *)
definition Copy_obj :: "bytes \<Rightarrow> bytes \<Rightarrow> bytes" where
  "Copy_obj obj from = PodCopy (length obj) 0 obj 0 from"

text \<open>\<^verbatim>\<open>_CopyByteTo<sz>\<close> picks the widest block of 8, 4, 2, 1 bytes up to 128 bytes and \<^verbatim>\<open>memcpy\<close> beyond.\<close>

(*@ core/rt/runtime_base.h 857-883 rt::_details::_CopyByteTo *)
fun CopyByteTo_at :: "nat \<Rightarrow> nat \<Rightarrow> bytes \<Rightarrow> nat \<Rightarrow> bytes \<Rightarrow> bytes" where
  "CopyByteTo_at sz f from t to =
    (if \<not> sz \<le> 128 then write_at t (take sz (drop f from)) to
     else if sz \<ge> 8 then CopyByteTo_at (sz - 8) (f + 8) from (t + 8) (store 8 t (load 8 f from) to)
     else if sz \<ge> 4 then CopyByteTo_at (sz - 4) (f + 4) from (t + 4) (store 4 t (load 4 f from) to)
     else if sz \<ge> 2 then CopyByteTo_at (sz - 2) (f + 2) from (t + 2) (store 2 t (load 2 f from) to)
     else if sz = 1 then store 1 t (load 1 f from) to
     else to)"

declare CopyByteTo_at.simps [simp del]

(*@ core/rt/runtime_base.h 897-904 rt::CopyByteTo *)
definition CopyByteTo :: "bytes \<Rightarrow> bytes \<Rightarrow> bytes" where
  "CopyByteTo from to = CopyByteTo_at (length to) 0 from 0 to"

subsection \<open>Byte order\<close>

(*@ core/rt/runtime_base.h 817-827 rt::_details::_SwitchByteOrder *)
fun SwitchByteOrder_at :: "nat \<Rightarrow> nat \<Rightarrow> bytes \<Rightarrow> bytes" where
  "SwitchByteOrder_at sz p mem =
    (if sz \<le> 1 then mem
     else SwitchByteOrder_at (sz - 2) (p + 1) (mem[p := mem ! (p + sz - 1), p + sz - 1 := mem ! p]))"

declare SwitchByteOrder_at.simps [simp del]

(*@ core/rt/runtime_base.h 833-836 rt::SwitchByteOrder *)
definition SwitchByteOrder :: "bytes \<Rightarrow> bytes" where
  "SwitchByteOrder x = SwitchByteOrder_at (length x) 0 x"

(*@ core/rt/runtime_base.h 837-842 rt::ConvertByteOrder *)
definition ConvertByteOrder :: "bytes \<Rightarrow> bytes" where
  "ConvertByteOrder x = (let out = x in SwitchByteOrder_at (length x) 0 out)"

text \<open>The source pointer walks down from the last byte; \<open>f\<close> is one past it.\<close>

(*@ core/rt/runtime_base.h 849-855 rt::_details::_SwitchByteOrderTo *)
fun SwitchByteOrderTo_at :: "nat \<Rightarrow> nat \<Rightarrow> bytes \<Rightarrow> nat \<Rightarrow> bytes \<Rightarrow> bytes" where
  "SwitchByteOrderTo_at 0 f from t to = to"
| "SwitchByteOrderTo_at (Suc sz) f from t to =
    SwitchByteOrderTo_at sz (f - 1) from (t + 1) (to[t := from ! (f - 1)])"

(*@ core/rt/runtime_base.h 889-896 rt::SwitchByteOrderTo *)
definition SwitchByteOrderTo :: "bytes \<Rightarrow> bytes \<Rightarrow> bytes" where
  "SwitchByteOrderTo from to = SwitchByteOrderTo_at (length to) (length from) from 0 to"

text \<open>What the compiler documents of \<^verbatim>\<open>__builtin_bswap16/32/64\<close>: the bytes of the value in reverse.\<close>

(*@ core/rt/runtime_base.h 1041-1043 rt::ByteOrderSwap *)
definition ByteOrderSwap :: "nat \<Rightarrow> u64 \<Rightarrow> u64" where
  "ByteOrderSwap k x = le_load (rev (le_store k x))"

subsection \<open>Swap\<close>

(*@ core/rt/runtime_base.h 941-951 rt::_details::_Exchange_32AL *)
fun Exchange_32AL :: "nat \<Rightarrow> nat \<Rightarrow> bytes \<times> bytes \<Rightarrow> bytes \<times> bytes" where
  "Exchange_32AL 0 p ab = ab"
| "Exchange_32AL (Suc len) p (a, b) =
    (let t = load 4 p a in Exchange_32AL len (p + 4) (store 4 p (load 4 p b) a, store 4 p t b))"

(*@ core/rt/runtime_base.h 958-974 rt::Swap *)
definition Swap_obj :: "bytes \<times> bytes \<Rightarrow> bytes \<times> bytes" where
  "Swap_obj ab =
    (let sz = length (fst ab);
         ab = Exchange_32AL (sz div 4) 0 ab;
         ab = (if sz mod 2 = 1
               then let t = load 1 (sz - 1) (fst ab) in
                 (store 1 (sz - 1) (load 1 (sz - 1) (snd ab)) (fst ab), store 1 (sz - 1) t (snd ab))
               else ab);
         w = 2 * (sz div 2 - 1)
     in if sz div 2 mod 2 = 1
        then let t = load 2 w (fst ab) in
          (store 2 w (load 2 w (snd ab)) (fst ab), store 2 w t (snd ab))
        else ab)"

section \<open>The unrolled routines are whole-object operations\<close>

lemma store_load:
  "k \<le> 8 \<Longrightarrow> s + k \<le> length src \<Longrightarrow> store k p (load k s src) mem = write_at p (take k (drop s src)) mem"
  using le_store_load [of "take k (drop s src)"] by (simp add: store_def load_def)

lemma replicate_8: "8 \<le> n \<Longrightarrow> replicate n x = replicate 8 x @ replicate (n - 8) x"
  by (simp flip: replicate_add)

lemma PodFill_const:
  assumes v: "\<And>k. k \<le> 8 \<Longrightarrow> le_store k v = replicate k b"
  shows "p + n \<le> length mem \<Longrightarrow> PodFill n v p mem = write_at p (replicate n b) mem"
proof (induction n arbitrary: p mem rule: less_induct)
  case (less n)
  show ?case
  proof (cases "n \<ge> 8")
    case True
    then show ?thesis using less
      by (subst PodFill.simps) (simp add: v store_def write_at_append replicate_8 [of n])
  next
    case False
    then consider "n = 0" | "n = 1" | "n = 2" | "n = 3" | "n = 4" | "n = 5" | "n = 6" | "n = 7" by linarith
    then show ?thesis
      by cases (subst PodFill.simps; use less.prems in \<open>simp add: v store_def write_at_append numeral_eq_Suc del: le_store.simps\<close>)+
  qed
qed

lemma PodCopy_eq:
  "p + n \<le> length mem \<Longrightarrow> s + n \<le> length src \<Longrightarrow>
   PodCopy n p mem s src = write_at p (take n (drop s src)) mem"
proof (induction n arbitrary: p mem s rule: less_induct)
  case (less n)
  show ?case
  proof (cases "n \<ge> 8")
    case True
    then have t: "take n (drop s src) = take 8 (drop s src) @ take (n - 8) (drop (s + 8) src)"
      using take_add_drop [of 8 s src "n - 8"] by simp
    from True show ?thesis using less
      by (subst PodCopy.simps) (simp add: store_load write_at_append t)
  next
    case False
    then consider "n = 0" | "n = 1" | "n = 2" | "n = 3" | "n = 4" | "n = 5" | "n = 6" | "n = 7" by linarith
    moreover note take_add_drop [of 2 s src 1, symmetric] take_add_drop [of 4 s src 1, symmetric]
      take_add_drop [of 4 s src 2, symmetric] take_add_drop [of 4 s src 3, symmetric]
      take_add_drop [of 2 "s + 4" src 1, symmetric]
    ultimately show ?thesis
      by cases (subst PodCopy.simps; use less.prems in \<open>simp add: store_load write_at_append add.assoc\<close>)+
  qed
qed

lemma CopyByteTo_at_eq:
  "t + sz \<le> length to \<Longrightarrow> f + sz \<le> length from \<Longrightarrow>
   CopyByteTo_at sz f from t to = write_at t (take sz (drop f from)) to"
proof (induction sz f "from" t to rule: CopyByteTo_at.induct)
  case (1 sz f "from" t to)
  have t: "k \<le> sz \<Longrightarrow> take k (drop f from) @ take (sz - k) (drop (f + k) from) = take sz (drop f from)" for k
    using take_add_drop [of k f "from" "sz - k"] by simp
  consider "sz > 128" | "8 \<le> sz" "sz \<le> 128" | "4 \<le> sz" "sz < 8" | "2 \<le> sz" "sz < 4" | "sz = 1" | "sz = 0" by linarith
  then show ?case
    by cases (subst CopyByteTo_at.simps; use "1" t [of 2] in \<open>simp add: store_load write_at_append t\<close>)+
qed

lemma Zero_mem_eq: "p + n \<le> length mem \<Longrightarrow> Zero_mem p n mem = write_at p (replicate n 0) mem"
proof (induction p n mem rule: Zero_mem.induct)
  case (1 p n mem)
  then show ?case
    by (subst Zero_mem.simps) (auto simp: store_def write_at_append replicate_8 [of n] PodFill_const)
qed

lemma Void_mem_eq: "p + n \<le> length mem \<Longrightarrow> Void_mem p n mem = write_at p (replicate n (- 1)) mem"
proof (induction p n mem rule: Void_mem.induct)
  case (1 p n mem)
  then show ?case
    by (subst Void_mem.simps) (auto simp: store_def write_at_append replicate_8 [of n] PodFill_const le_store_ones)
qed

lemma SwitchByteOrder_at_eq:
  "length xs = p \<Longrightarrow> length ys = sz \<Longrightarrow> SwitchByteOrder_at sz p (xs @ ys @ zs) = xs @ rev ys @ zs"
proof (induction sz arbitrary: p xs ys zs rule: less_induct)
  case (less sz)
  show ?case
  proof (cases "sz \<le> 1")
    case True
    then have "rev ys = ys" using less.prems by (cases ys) auto
    then show ?thesis using True by (subst SwitchByteOrder_at.simps) simp
  next
    case False
    then obtain a m b where ys: "ys = a # m @ [b]"
      using less.prems by (cases ys; cases "tl ys" rule: rev_cases) auto
    have "(xs @ ys @ zs)[p := (xs @ ys @ zs) ! (p + sz - 1), p + sz - 1 := (xs @ ys @ zs) ! p] =
      (xs @ [b]) @ m @ (a # zs)"
      using less.prems unfolding ys by (auto simp: nth_append list_update_append nth_Cons')
    then show ?thesis using less.IH [of "sz - 2" "xs @ [b]" "p + 1" m "a # zs"] False less.prems ys
      by (subst SwitchByteOrder_at.simps) simp
  qed
qed

lemma SwitchByteOrderTo_at_eq:
  "sz \<le> f \<Longrightarrow> f \<le> length from \<Longrightarrow> t + sz \<le> length to \<Longrightarrow>
   SwitchByteOrderTo_at sz f from t to = write_at t (rev (take sz (drop (f - sz) from))) to"
proof (induction sz arbitrary: f t to)
  case 0
  then show ?case by simp
next
  case (Suc sz)
  have "rev (take (Suc sz) (drop (f - Suc sz) from)) = from ! (f - 1) # rev (take sz (drop (f - 1 - sz) from))"
    using Suc.prems by (simp add: take_Suc_conv_app_nth)
  moreover have "to[t := b] = write_at t [b] to" if "t < length to" for t b and to :: bytes
    using that by (simp add: write_at_def upd_conv_take_nth_drop)
  ultimately show ?case using Suc by (simp add: write_at_append)
qed

text \<open>\<open>swapped S a b (x, y)\<close>: the pair \<open>(x, y)\<close> is \<open>(a, b)\<close> with the bytes at the positions of \<open>S\<close>
  exchanged.\<close>

definition swapped :: "nat set \<Rightarrow> bytes \<Rightarrow> bytes \<Rightarrow> bytes \<times> bytes \<Rightarrow> bool" where
  "swapped S a b xy \<longleftrightarrow> length (fst xy) = length a \<and> length (snd xy) = length a \<and>
     (\<forall>i<length a. fst xy ! i = (if i \<in> S then b ! i else a ! i) \<and> snd xy ! i = (if i \<in> S then a ! i else b ! i))"

lemma swapped_block:
  assumes "swapped S a b (x, y)" "k \<le> 8" "p + k \<le> length a" "\<forall>i. p \<le> i \<and> i < p + k \<longrightarrow> i \<notin> S"
  shows "swapped (S \<union> {p..<p + k}) a b (store k p (load k p y) x, store k p (load k p x) y)"
  using assms unfolding swapped_def by (auto simp: store_load nth_write_at)

lemma swapped_Exchange:
  "swapped S a b xy \<Longrightarrow> p + 4 * n \<le> length a \<Longrightarrow> \<forall>i. p \<le> i \<longrightarrow> i \<notin> S \<Longrightarrow>
   swapped (S \<union> {p..<p + 4 * n}) a b (Exchange_32AL n p xy)"
proof (induction n arbitrary: p xy S)
  case 0
  then show ?case by simp
next
  case (Suc n)
  obtain x y where xy: "xy = (x, y)" by fastforce
  have "swapped (S \<union> {p..<p + 4}) a b (store 4 p (load 4 p y) x, store 4 p (load 4 p x) y)"
    by (rule swapped_block) (use Suc.prems xy in auto)
  from Suc.IH [OF this, of "p + 4"] Suc.prems
  have "swapped (S \<union> {p..<p + 4} \<union> {p + 4..<p + 4 + 4 * n}) a b (Exchange_32AL (Suc n) p xy)"
    by (simp add: xy Let_def)
  moreover have "{p..<p + 4} \<union> {p + 4..<p + 4 + 4 * n} = {p..<p + 4 * Suc n}" by auto
  ultimately show ?case by (simp only: Un_assoc)
qed

lemma swapped_all: "swapped S a b xy \<Longrightarrow> {..<length a} \<subseteq> S \<Longrightarrow> length a = length b \<Longrightarrow> xy = (b, a)"
  unfolding swapped_def by (auto simp: prod_eq_iff intro!: nth_equalityI)

lemma Swap_obj_eq:
  assumes l: "length a = length b"
  shows "Swap_obj (a, b) = (b, a)"
proof -
  define q where "q = length a div 4"
  obtain x y where xy: "Exchange_32AL q 0 (a, b) = (x, y)" by fastforce
  have ex: "swapped {0..<4 * q} a b (x, y)"
    using swapped_Exchange [of "{}" a b "(a, b)" 0 q] l xy by (simp add: swapped_def q_def)
  consider "length a = 4 * q" | "length a = 4 * q + 1" | "length a = 4 * q + 2" | "length a = 4 * q + 3"
    unfolding q_def by linarith
  then show ?thesis
  proof cases
    case 1
    then have n: "length a div 4 = q" "length a mod 2 = 0" "length a div 2 mod 2 = 0" by presburger+
    have "(x, y) = (b, a)" by (rule swapped_all [OF ex _ l]) (use 1 in auto)
    then show ?thesis using xy by (simp add: Swap_obj_def Let_def n)
  next
    case 2
    then have n: "length a div 4 = q" "length a mod 2 = 1" "length a div 2 mod 2 = 0" "length a - 1 = 4 * q"
      by presburger+
    have "swapped ({0..<4 * q} \<union> {4 * q..<4 * q + 1}) a b
        (store 1 (4 * q) (load 1 (4 * q) y) x, store 1 (4 * q) (load 1 (4 * q) x) y)"
      by (rule swapped_block [OF ex]) (use 2 in auto)
    then have "(store 1 (4 * q) (load 1 (4 * q) y) x, store 1 (4 * q) (load 1 (4 * q) x) y) = (b, a)"
      by (rule swapped_all [OF _ _ l]) (use 2 in auto)
    then show ?thesis using xy by (simp add: Swap_obj_def Let_def n del: One_nat_def)
  next
    case 3
    then have n: "length a div 4 = q" "length a mod 2 = 0" "length a div 2 mod 2 = 1" "2 * (length a div 2 - 1) = 4 * q"
      by presburger+
    have "swapped ({0..<4 * q} \<union> {4 * q..<4 * q + 2}) a b
        (store 2 (4 * q) (load 2 (4 * q) y) x, store 2 (4 * q) (load 2 (4 * q) x) y)"
      by (rule swapped_block [OF ex]) (use 3 in auto)
    then have "(store 2 (4 * q) (load 2 (4 * q) y) x, store 2 (4 * q) (load 2 (4 * q) x) y) = (b, a)"
      by (rule swapped_all [OF _ _ l]) (use 3 in auto)
    then show ?thesis using xy by (simp add: Swap_obj_def Let_def n del: One_nat_def)
  next
    case 4
    then have n: "length a div 4 = q" "length a mod 2 = 1" "length a div 2 mod 2 = 1" "2 * (length a div 2 - 1) = 4 * q"
      "length a - 1 = 4 * q + 2" by presburger+
    let ?x = "store 1 (4 * q + 2) (load 1 (4 * q + 2) y) x" and ?y = "store 1 (4 * q + 2) (load 1 (4 * q + 2) x) y"
    have "swapped ({0..<4 * q} \<union> {4 * q + 2..<4 * q + 2 + 1}) a b (?x, ?y)"
      by (rule swapped_block [OF ex]) (use 4 in auto)
    then have "swapped ({0..<4 * q} \<union> {4 * q + 2..<4 * q + 2 + 1} \<union> {4 * q..<4 * q + 2}) a b
        (store 2 (4 * q) (load 2 (4 * q) ?y) ?x, store 2 (4 * q) (load 2 (4 * q) ?x) ?y)"
      by (rule swapped_block) (use 4 in auto)
    then have "(store 2 (4 * q) (load 2 (4 * q) ?y) ?x, store 2 (4 * q) (load 2 (4 * q) ?x) ?y) = (b, a)"
      by (rule swapped_all [OF _ _ l]) (use 4 in auto)
    then show ?thesis using xy by (simp add: Swap_obj_def Let_def n del: One_nat_def)
  qed
qed

lemma SwitchByteOrder_rev: "SwitchByteOrder xs = rev xs"
  using SwitchByteOrder_at_eq [of "[]" 0 xs "length xs" "[]"] by (simp add: SwitchByteOrder_def)

lemma write_at_all: "length xs = length mem \<Longrightarrow> write_at 0 xs mem = xs"
  by (simp add: write_at_def)

section \<open>Properties\<close>

text \<open>\<open>Copy\<close> and \<open>CopyByteTo\<close>, each unrolled into stores of 8, 4, 2 and 1 bytes, leave in the
  destination exactly the bytes of a source object of the same size; \<open>Zero\<close> and \<open>Void\<close> leave
  all-zero and all-one bytes, and the run-time sized overloads agree with the unrolled ones.\<close>

theorem Pod_fill_copy:
  assumes "length from = length obj"
  shows "Copy_obj obj from = from \<and> CopyByteTo from obj = from \<and>
    Zero_obj obj = replicate (length obj) 0 \<and> Zero_mem 0 (length obj) obj = Zero_obj obj \<and>
    Void_obj obj = replicate (length obj) 255 \<and> Void_mem 0 (length obj) obj = Void_obj obj"
proof -
  have "Copy_obj obj from = from" "CopyByteTo from obj = from"
    using assms by (simp_all add: Copy_obj_def CopyByteTo_def PodCopy_eq CopyByteTo_at_eq write_at_all)
  moreover have "Zero_obj obj = replicate (length obj) 0"
    by (simp add: Zero_obj_def PodFill_const [where b = 0] write_at_all)
  moreover have "Void_obj obj = replicate (length obj) (- 1)"
    by (simp add: Void_obj_def PodFill_const [where b = "- 1"] le_store_ones write_at_all)
  ultimately show ?thesis by (simp add: Zero_mem_eq Void_mem_eq write_at_all)
qed

theorem Pod_fill_copy_witness:
  "Copy_obj [1,2,3,4,5,6,7,8,9,10,11] [11,10,9,8,7,6,5,4,3,2,1] = [11,10,9,8,7,6,5,4,3,2,1]"
  using Pod_fill_copy [of "[11,10,9,8,7,6,5,4,3,2,1]" "[1,2,3,4,5,6,7,8,9,10,11]"] by simp

text \<open>\<open>Swap\<close> on two objects of the same size (dword exchanges, then the odd byte, then the odd
  word) exchanges them, whatever the size.\<close>

theorem Swap_exchanges: "length a = length b \<Longrightarrow> Swap_obj (a, b) = (b, a)"
  by (rule Swap_obj_eq)

theorem Swap_exchanges_witness:
  "Swap_obj ([1,2,3,4,5,6,7], [8,9,10,11,12,13,14]) = ([8,9,10,11,12,13,14], [1,2,3,4,5,6,7])"
  by (rule Swap_exchanges) simp

text \<open>C40: in-place reversal, reversal into another object and the compiler's byte swap agree on
  every stored integer of at most 8 bytes, and reversing twice restores the object.\<close>

theorem SwitchByteOrder_bswap:
  assumes "k \<le> 8" "length to = k"
  shows "SwitchByteOrder (le_store k x) = le_store k (ByteOrderSwap k x) \<and>
    SwitchByteOrderTo (le_store k x) to = SwitchByteOrder (le_store k x) \<and>
    ConvertByteOrder (SwitchByteOrder (le_store k x)) = le_store k x"
proof -
  have "le_store k (ByteOrderSwap k x) = rev (le_store k x)"
    using le_store_load [of "rev (le_store k x)"] assms(1) by (simp add: ByteOrderSwap_def)
  moreover have "SwitchByteOrderTo (le_store k x) to = rev (le_store k x)"
    using assms(2) by (simp add: SwitchByteOrderTo_def SwitchByteOrderTo_at_eq write_at_all)
  moreover have "ConvertByteOrder = SwitchByteOrder"
    by (rule ext) (simp add: ConvertByteOrder_def SwitchByteOrder_def)
  ultimately show ?thesis by (simp add: SwitchByteOrder_rev)
qed

theorem SwitchByteOrder_bswap_witness:
  "SwitchByteOrder (le_store 4 (0x01020304 :: u64)) = le_store 4 (ByteOrderSwap 4 0x01020304)"
  by (rule SwitchByteOrder_bswap [of 4 "[0,0,0,0]" "0x01020304", THEN conjunct1]) simp_all

end
