(* ===== verification/Hashing.thy ===== *)
theory Hashing
  imports Pod
begin

text \<open>
  The hash functions and the pseudo-random generator of \<^verbatim>\<open>core/rt/runtime_base.h\<close>: xxHash, the FNV
  hash used by the hash containers, and \<^verbatim>\<open>Randomizer\<close>. Inputs are byte memories; a load past the
  end of a memory is possible in the model, so that it can be shown to have no influence.
\<close>

unbundle bit_operations_syntax

section \<open>Definitions\<close>

subsection \<open>xxHash\<close>

(*@ core/rt/runtime_base.h 392-392 rt::_details::PRIME1 *)
definition PRIME1 :: u32 where "PRIME1 = 2654435761"
(*@ core/rt/runtime_base.h 393-393 rt::_details::PRIME2 *)
definition PRIME2 :: u32 where "PRIME2 = 2246822519"
(*@ core/rt/runtime_base.h 394-394 rt::_details::PRIME3 *)
definition PRIME3 :: u32 where "PRIME3 = 3266489917"
(*@ core/rt/runtime_base.h 395-395 rt::_details::PRIME4 *)
definition PRIME4 :: u32 where "PRIME4 = 668265263"
(*@ core/rt/runtime_base.h 396-396 rt::_details::PRIME5 *)
definition PRIME5 :: u32 where "PRIME5 = 0x165667b1"

definition rotl32 :: "u32 \<Rightarrow> nat \<Rightarrow> u32" where
  "rotl32 x n = push_bit n x OR drop_bit (32 - n) x"

definition load32 :: "nat \<Rightarrow> bytes \<Rightarrow> u32" where
  "load32 p mem = ucast (load 4 p mem)"

(*@ core/rt/runtime_base.h 405-410 rt::_details::xxHash_small *)
function xxHash_small_words :: "bytes \<Rightarrow> nat \<Rightarrow> nat \<Rightarrow> u32 \<Rightarrow> u32 \<Rightarrow> nat \<times> u32 \<times> u32" where
  "xxHash_small_words key len p idx crc =
    (if p + 4 < len then
       let crc = crc + (load32 p key + idx); idx = idx + 1;
           crc = crc + rotl32 crc 17 * PRIME4;
           crc = crc * PRIME1
       in xxHash_small_words key len (p + 4) idx crc
     else (p, idx, crc))"
  by pat_completeness auto
termination by (relation "measure (\<lambda>(key, len, p, idx, crc). len - p)") auto

(*@ core/rt/runtime_base.h 411-415 rt::_details::xxHash_small *)
function xxHash_small_bytes :: "bytes \<Rightarrow> nat \<Rightarrow> nat \<Rightarrow> u32 \<Rightarrow> u32 \<Rightarrow> u32" where
  "xxHash_small_bytes key len p idx crc =
    (if p < len then
       let crc = crc + (ucast (key ! p) + idx); idx = idx + 1; crc = crc * PRIME1
       in xxHash_small_bytes key len (p + 1) idx crc
     else crc)"
  by pat_completeness auto
termination by (relation "measure (\<lambda>(key, len, p, idx, crc). len - p)") auto

declare xxHash_small_words.simps [simp del] xxHash_small_bytes.simps [simp del]

(*@ core/rt/runtime_base.h 399-423 rt::_details::xxHash_small *)
definition xxHash_small :: "bytes \<Rightarrow> nat \<Rightarrow> u32 \<Rightarrow> u32" where
  "xxHash_small key len seed =
    (let (p, idx, crc) = xxHash_small_words key len 0 (seed + PRIME1) PRIME5;
         crc = xxHash_small_bytes key len p idx crc;
         crc = crc + of_nat len;
         crc = crc XOR drop_bit 15 crc; crc = crc * PRIME2;
         crc = crc XOR drop_bit 13 crc; crc = crc * PRIME3;
         crc = crc XOR drop_bit 16 crc
     in crc)"

type_synonym lanes = "u32 \<times> u32 \<times> u32 \<times> u32"

(*@ core/rt/runtime_base.h 437-442 rt::xxHash *)
function xxHash_loop :: "bytes \<Rightarrow> nat \<Rightarrow> nat \<Rightarrow> lanes \<Rightarrow> lanes" where
  "xxHash_loop input len p (v1, v2, v3, v4) =
    (if p + 16 < len then
       xxHash_loop input len (p + 16)
         (rotl32 v1 13 + load32 p input, rotl32 v2 11 + load32 (p + 4) input,
          rotl32 v3 17 + load32 (p + 8) input, rotl32 v4 19 + load32 (p + 12) input)
     else (v1, v2, v3, v4))"
  by pat_completeness auto
termination by (relation "measure (\<lambda>(input, len, p, v). len - p)") auto

(*@ core/rt/runtime_base.h 474-480 rt::xxHashStrong *)
function xxHashStrong_loop :: "bytes \<Rightarrow> nat \<Rightarrow> nat \<Rightarrow> lanes \<Rightarrow> lanes" where
  "xxHashStrong_loop input len p (v1, v2, v3, v4) =
    (if p + 16 < len then
       xxHashStrong_loop input len (p + 16)
         ((v1 + rotl32 v1 13) * PRIME1 + load32 p input, (v2 + rotl32 v2 11) * PRIME1 + load32 (p + 4) input,
          (v3 + rotl32 v3 17) * PRIME1 + load32 (p + 8) input, (v4 + rotl32 v4 19) * PRIME1 + load32 (p + 12) input)
     else (v1, v2, v3, v4))"
  by pat_completeness auto
termination by (relation "measure (\<lambda>(input, len, p, v). len - p)") auto

declare xxHash_loop.simps [simp del] xxHashStrong_loop.simps [simp del]

(*@ core/rt/runtime_base.h 444-458 rt::xxHash *)
definition xxHash_final :: "bytes \<Rightarrow> nat \<Rightarrow> lanes \<Rightarrow> u32" where
  "xxHash_final input len v =
    (let (v1, v2, v3, v4) = v;
         v1 = v1 + rotl32 v1 17; v2 = v2 + rotl32 v2 19; v3 = v3 + rotl32 v3 13; v4 = v4 + rotl32 v4 11;
         v1 = v1 * PRIME1; v2 = v2 * PRIME1; v3 = v3 * PRIME1; v4 = v4 * PRIME1;
         v1 = v1 + load32 (len - 16) input; v2 = v2 + load32 (len - 16 + 4) input;
         v3 = v3 + load32 (len - 16 + 8) input; v4 = v4 + load32 (len - 16 + 12) input;
         v1 = v1 * PRIME2; v2 = v2 * PRIME2; v3 = v3 * PRIME2; v4 = v4 * PRIME2;
         v1 = v1 + rotl32 v1 11; v2 = v2 + rotl32 v2 17; v3 = v3 + rotl32 v3 19; v4 = v4 + rotl32 v4 13;
         v1 = v1 * PRIME3; v2 = v2 * PRIME3; v3 = v3 * PRIME3; v4 = v4 * PRIME3;
         crc = v1 + rotl32 v2 3 + rotl32 v3 6 + rotl32 v4 9;
         crc = crc XOR drop_bit 11 crc;
         crc = crc + (PRIME4 + of_nat len) * PRIME1;
         crc = crc XOR drop_bit 15 crc;
         crc = crc * PRIME2;
         crc = crc XOR drop_bit 13 crc
     in crc)"

(*@ core/rt/runtime_base.h 431-434 rt::xxHash *)
definition xxHash_seed :: "nat \<Rightarrow> u32 \<Rightarrow> lanes" where
  "xxHash_seed len seed =
    (let v1 = seed + PRIME1; v2 = v1 * PRIME2 + of_nat len; v3 = v2 * PRIME3; v4 = v3 * PRIME4
     in (v1, v2, v3, v4))"

(*@ core/rt/runtime_base.h 426-461 rt::xxHash *)
definition xxHash :: "bytes \<Rightarrow> nat \<Rightarrow> u32 \<Rightarrow> u32" where
  "xxHash input len seed =
    (if len < 16 then xxHash_small input len seed
     else xxHash_final input len (xxHash_loop input len 0 (xxHash_seed len seed)))"

(*@ core/rt/runtime_base.h 463-497 rt::xxHashStrong *)
definition xxHashStrong :: "bytes \<Rightarrow> nat \<Rightarrow> u32 \<Rightarrow> u32" where
  "xxHashStrong input len seed =
    (if len < 16 then xxHash_small input len seed
     else xxHash_final input len (xxHashStrong_loop input len 0 (xxHash_seed len seed)))"

subsection \<open>FNV\<close>

(*@ core/rt/runtime_base.h 604-604 rt::_details::_HashInit *)
definition HashInit :: u64 where "HashInit = 14695981039346656037"

(*@ core/rt/runtime_base.h 605-605 rt::_details::_HashKernel *)
definition HashKernel :: "u64 \<Rightarrow> u64 \<Rightarrow> u64" where
  "HashKernel new_data prev_val = 1099511628211 * (prev_val XOR new_data)"

text \<open>The 3-byte case reads 4 bytes and the 5, 6 and 7-byte cases read 8, past the object, and
  mask what does not belong to it.\<close>

(*@ core/rt/runtime_base.h 611-623 rt::_details::_HashValueFix *)
fun HashValueFix :: "nat \<Rightarrow> bytes \<Rightarrow> nat \<Rightarrow> u64 \<Rightarrow> u64" where
  "HashValueFix n mem p prev_val =
    (if n = 0 then prev_val
     else if n = 1 then HashKernel (load 1 p mem) prev_val
     else if n = 2 then HashKernel (load 2 p mem) prev_val
     else if n = 3 then HashKernel (0xffffff AND load 4 p mem) prev_val
     else if n = 4 then HashKernel (load 4 p mem) prev_val
     else if n = 5 then HashKernel (0xffffffffff AND load 8 p mem) prev_val
     else if n = 6 then HashKernel (0xffffffffffff AND load 8 p mem) prev_val
     else if n = 7 then HashKernel (0xffffffffffffff AND load 8 p mem) prev_val
     else HashValueFix (n - 8) mem (p + 8) (HashKernel (load 8 p mem) prev_val))"

(*@ core/rt/runtime_base.h 625-640 rt::_details::_HashValue *)
fun HashValue :: "bytes \<Rightarrow> nat \<Rightarrow> nat \<Rightarrow> u64 \<Rightarrow> u64" where
  "HashValue mem p sz val =
    (if sz \<ge> 8 then HashValue mem (p + 8) (sz - 8) (HashKernel (load 8 p mem) val)
     else HashValueFix sz mem p val)"

declare HashValueFix.simps [simp del] HashValue.simps [simp del]

(*@ core/rt/runtime_base.h 656-659 rt::_details::_HashValuePod *)
definition HashValuePod :: "bytes \<Rightarrow> u64 \<Rightarrow> u64" where
  "HashValuePod obj val = HashValueFix (length obj) obj 0 val"

(*@ core/rt/runtime_base.h 660-672 rt::_details::hash_compare_str *)
definition hash_compare_str :: "bytes \<Rightarrow> u64" where
  "hash_compare_str key = HashValue key 0 (length key) HashInit"

(*@ core/rt/runtime_base.h 674-683 rt::_details::hash_compare_fix *)
definition hash_compare_fix :: "bytes \<Rightarrow> u64" where
  "hash_compare_fix key = HashValueFix (length key) key 0 HashInit"

(*@ core/rt/runtime_base.h 684-685 rt::_details::hash_compare_fix *)
definition hash_less_fix :: "bytes \<Rightarrow> bytes \<Rightarrow> bool" where
  "hash_less_fix k1 k2 \<longleftrightarrow> memcmp k1 k2 < 0"

subsection \<open>Randomizer\<close>

(*@ core/rt/runtime_base.h 1222-1224 rt::Randomizer *)
record Randomizer =
  m_z :: u32
  m_w :: u32

(*@ core/rt/runtime_base.h 1226-1230 rt::Randomizer::Randomizer *)
definition Randomizer_init :: "u32 \<Rightarrow> Randomizer" where
  "Randomizer_init seed =
    (let seed = (if seed = 0 \<or> seed = 0x464fffff \<or> seed * seed = 0x9068ffff then seed + 0x52897528 else seed)
     in \<lparr> m_z = seed * seed, m_w = seed \<rparr>)"

(*@ core/rt/runtime_base.h 1231-1235 rt::Randomizer::GetNext *)
definition GetNext :: "Randomizer \<Rightarrow> u32 \<times> Randomizer" where
  "GetNext r =
    (let z = 36969 * (m_z r AND 65535) + drop_bit 16 (m_z r);
         w = 18000 * (m_w r AND 65535) + drop_bit 16 (m_w r)
     in (push_bit 16 z + w, \<lparr> m_z = z, m_w = w \<rparr>))"

(*@ core/rt/runtime_base.h 1240-1243 rt::Randomizer::Randomize *)
fun Randomize_words :: "nat \<Rightarrow> nat \<Rightarrow> Randomizer \<Rightarrow> bytes \<Rightarrow> Randomizer \<times> bytes" where
  "Randomize_words 0 p r mem = (r, mem)"
| "Randomize_words (Suc n) p r mem =
    (let (x, r) = GetNext r in Randomize_words n (p + 4) r (store 4 p (ucast x) mem))"

(*@ core/rt/runtime_base.h 1236-1252 rt::Randomizer::Randomize *)
definition Randomize :: "Randomizer \<Rightarrow> bytes \<Rightarrow> Randomizer \<times> bytes" where
  "Randomize r mem =
    (let sz = length mem; (r, mem) = Randomize_words (sz div 4) 0 r mem
     in if sz mod 4 \<noteq> 0
        then let (x, r) = GetNext r; num = le_store 4 x; t = sz - sz mod 4
             in (r, write_at t (take (sz - t) num) mem)
        else (r, mem))"

section \<open>The hashes read their input only\<close>

lemma load_prefix: "p + k \<le> length xs \<Longrightarrow> load k p (xs @ ys) = load k p xs"
  by (simp add: load_def)

lemma load32_prefix: "p + 4 \<le> length xs \<Longrightarrow> load32 p (xs @ ys) = load32 p xs"
  by (simp add: load32_def load_prefix)

lemma xxHash_small_words_prefix:
  "n \<le> length xs \<Longrightarrow> xxHash_small_words (xs @ ys) n p idx crc = xxHash_small_words xs n p idx crc"
proof (induction xs n p idx crc rule: xxHash_small_words.induct)
  case (1 key len p idx crc)
  show ?case
  proof (cases "p + 4 < len")
    case True
    then show ?thesis
      using "1.IH" [OF True refl refl refl refl] "1.prems"
      by (subst (1 2) xxHash_small_words.simps) (auto simp: Let_def load32_prefix)
  next
    case False
    then show ?thesis by (subst (1 2) xxHash_small_words.simps) simp
  qed
qed

lemma xxHash_small_bytes_prefix:
  "n \<le> length xs \<Longrightarrow> xxHash_small_bytes (xs @ ys) n p idx crc = xxHash_small_bytes xs n p idx crc"
proof (induction xs n p idx crc rule: xxHash_small_bytes.induct)
  case (1 key len p idx crc)
  then show ?case
    by (subst (1 2) xxHash_small_bytes.simps) (auto simp: Let_def nth_append)
qed

lemma xxHash_small_prefix: "xxHash_small (xs @ ys) (length xs) seed = xxHash_small xs (length xs) seed"
  by (simp add: xxHash_small_def xxHash_small_words_prefix xxHash_small_bytes_prefix split: prod.split)

lemma xxHash_loop_prefix: "n \<le> length xs \<Longrightarrow> xxHash_loop (xs @ ys) n p v = xxHash_loop xs n p v"
proof (induction xs n p v rule: xxHash_loop.induct)
  case (1 input len p v1 v2 v3 v4)
  then show ?case
    by (subst (1 2) xxHash_loop.simps) (auto simp: load32_prefix)
qed

lemma xxHashStrong_loop_prefix: "n \<le> length xs \<Longrightarrow> xxHashStrong_loop (xs @ ys) n p v = xxHashStrong_loop xs n p v"
proof (induction xs n p v rule: xxHashStrong_loop.induct)
  case (1 input len p v1 v2 v3 v4)
  then show ?case
    by (subst (1 2) xxHashStrong_loop.simps) (auto simp: load32_prefix)
qed

lemma xxHash_final_prefix:
  "16 \<le> length xs \<Longrightarrow> xxHash_final (xs @ ys) (length xs) v = xxHash_final xs (length xs) v"
proof -
  assume "16 \<le> length xs"
  then have "load32 (length xs - 16) (xs @ ys) = load32 (length xs - 16) xs"
    "load32 (length xs - 16 + 4) (xs @ ys) = load32 (length xs - 16 + 4) xs"
    "load32 (length xs - 16 + 8) (xs @ ys) = load32 (length xs - 16 + 8) xs"
    "load32 (length xs - 16 + 12) (xs @ ys) = load32 (length xs - 16 + 12) xs"
    by (auto intro!: load32_prefix)
  then show ?thesis by (simp only: xxHash_final_def)
qed

lemma load_and_mask:
  "k \<le> j \<Longrightarrow> k \<le> 8 \<Longrightarrow> mask (8 * k) AND load j p mem = load k p mem"
  by (rule bit_eqI) (auto simp: load_def bit_simps bit_le_load less_mult_imp_div_less div_less_iff_less_mult mult.commute)

lemma load_and_consts:
  "0xffffff AND load 4 p mem = load 3 p mem"
  "0xffffffffff AND load 8 p mem = load 5 p mem"
  "0xffffffffffff AND load 8 p mem = load 6 p mem"
  "0xffffffffffffff AND load 8 p mem = load 7 p mem"
  using load_and_mask [of 3 4 p mem] load_and_mask [of 5 8 p mem] load_and_mask [of 6 8 p mem]
    load_and_mask [of 7 8 p mem] by (simp_all add: mask_eq_exp_minus_1)

lemma HashValueFix_small: "n < 8 \<Longrightarrow> HashValueFix n mem p v = (if n = 0 then v else HashKernel (load n p mem) v)"
proof -
  assume "n < 8"
  then consider "n = 0" | "n = 1" | "n = 2" | "n = 3" | "n = 4" | "n = 5" | "n = 6" | "n = 7" by linarith
  then show ?thesis by cases (simp_all add: HashValueFix.simps load_and_consts)
qed

lemma HashValueFix_eq_HashValue: "HashValueFix n mem p v = HashValue mem p n v"
proof (induction n mem p v rule: HashValueFix.induct)
  case (1 n mem p v)
  then show ?case
    by (cases "n < 8") (subst HashValue.simps, simp, subst HashValueFix.simps, subst HashValue.simps, simp)
qed

text \<open>The reference: the input cut into 8-byte pieces, the last one shorter.\<close>

fun chunks8 :: "bytes \<Rightarrow> bytes list" where
  "chunks8 xs = (if xs = [] then [] else take 8 xs # chunks8 (drop 8 xs))"
declare chunks8.simps [simp del]

lemma HashValue_chunks:
  "p + n \<le> length mem \<Longrightarrow> HashValue mem p n v =
     foldl (\<lambda>v c. HashKernel (le_load c) v) v (chunks8 (take n (drop p mem)))"
proof (induction mem p n v rule: HashValue.induct)
  case (1 mem p sz v)
  show ?case
  proof (cases "sz \<ge> 8")
    case True
    then have "chunks8 (take sz (drop p mem)) = take 8 (drop p mem) # chunks8 (take (sz - 8) (drop (p + 8) mem))"
      using "1.prems" by (subst chunks8.simps) (auto simp: min_def drop_take add.commute)
    then show ?thesis using True "1" by (subst HashValue.simps) (simp add: load_def)
  next
    case False
    then have "chunks8 (take sz (drop p mem)) = (if sz = 0 then [] else [take sz (drop p mem)])"
      using "1.prems" by (subst chunks8.simps, subst chunks8.simps) auto
    then show ?thesis using False by (subst HashValue.simps) (simp add: HashValueFix_small load_def)
  qed
qed

lemma mwc_step:
  fixes x k :: u32
  assumes "unat k < 2 ^ 16"
  shows "unat (k * (x AND 65535) + drop_bit 16 x) = unat k * (unat x mod 65536) + unat x div 65536"
proof -
  have lo: "unat (x AND 65535) = unat x mod 65536"
    using unat_and_mask [of x 16] by (simp add: mask_eq_exp_minus_1)
  have hi: "unat (drop_bit 16 x) = unat x div 65536" using unat_drop_bit_div [of 16 x] by simp
  have "unat k * (unat x mod 65536) \<le> (2 ^ 16 - 1) * (65536 - 1)"
    by (rule mult_mono) (use assms in auto)
  moreover have "unat x div 65536 < 65536" using unsigned_less [of x] by (simp add: div_less_iff_less_mult)
  ultimately have b: "unat k * (unat x mod 65536) + unat x div 65536 < 2 ^ 32" by simp
  then show ?thesis by (simp add: unat_word_ariths lo hi)
qed

lemma GetNext_state:
  "unat (m_w (snd (GetNext r))) = 18000 * (unat (m_w r) mod 65536) + unat (m_w r) div 65536"
  "unat (m_z (snd (GetNext r))) = 36969 * (unat (m_z r) mod 65536) + unat (m_z r) div 65536"
  using mwc_step [of 18000 "m_w r"] mwc_step [of 36969 "m_z r"] by (simp_all add: GetNext_def Let_def)

lemma GetNext_m_w_nonzero: "m_w r \<noteq> 0 \<Longrightarrow> m_w (snd (GetNext r)) \<noteq> 0"
proof
  assume "m_w r \<noteq> 0" "m_w (snd (GetNext r)) = 0"
  then have "18000 * (unat (m_w r) mod 65536) + unat (m_w r) div 65536 = 0"
    using GetNext_state(1) [of r] by (metis unsigned_0)
  then have "unat (m_w r) mod 65536 = 0" "unat (m_w r) div 65536 = 0" by simp_all
  then have "unat (m_w r) = 0" by (metis div_mult_mod_eq mult_0 add_0)
  then show False using \<open>m_w r \<noteq> 0\<close> by (simp add: unat_eq_zero)
qed

lemma Randomizer_init_m_w: "m_w (Randomizer_init seed) \<noteq> 0"
proof -
  have "seed * seed \<noteq> 0x9068ffff" for seed :: u32
  proof
    assume "seed * seed = 0x9068ffff"
    then have "unat (seed * seed) = 2422800383" by simp
    then have "unat seed * unat seed mod 2 ^ 32 = 2422800383" by (simp add: unat_word_ariths)
    then have "(unat seed * unat seed) mod 2 ^ 32 mod 8 = 7" by simp
    then have "(unat seed * unat seed) mod 8 = 7" by (subst (asm) mod_mod_cancel) simp_all
    then have "(unat seed mod 8) * (unat seed mod 8) mod 8 = 7" by (simp add: mod_mult_eq)
    moreover have "unat seed mod 8 \<in> {0, 1, 2, 3, 4, 5, 6, 7}" by auto
    ultimately show False by auto
  qed
  then show ?thesis by (auto simp: Randomizer_init_def Let_def)
qed

section \<open>Properties\<close>

text \<open>the FNV hash of a memory block is the fold of the kernel over the 8-byte pieces of the
  block, the last piece zero-extended. What follows the block in memory has no influence,
  although the unrolled cases of 3, 5, 6 and 7 bytes read past its end; the unrolled hash and
  the loop agree at every size.\<close>

theorem HashValue_chunks_only:
  "HashValue (xs @ ys) 0 (length xs) v = foldl (\<lambda>v c. HashKernel (le_load c) v) v (chunks8 xs) \<and>
   HashValueFix (length xs) (xs @ ys) 0 v = HashValue (xs @ ys) 0 (length xs) v"
  using HashValue_chunks [of 0 "length xs" "xs @ ys" v] by (simp add: HashValueFix_eq_HashValue)

text \<open>\<open>xxHash\<close> and \<open>xxHashStrong\<close> of a block depend on the bytes of the block only: every 4-byte
  load of the word loops and of the 16-byte tail stays inside it.\<close>

theorem xxHash_block_only:
  "xxHash (xs @ ys) (length xs) seed = xxHash xs (length xs) seed \<and>
   xxHashStrong (xs @ ys) (length xs) seed = xxHashStrong xs (length xs) seed"
  by (simp add: xxHash_def xxHashStrong_def xxHash_small_prefix xxHash_loop_prefix xxHashStrong_loop_prefix
      xxHash_final_prefix)

text \<open>one step of \<open>Randomizer\<close> computes both multiply-with-carry recurrences without wrap-around,
  and from every seed the second component never reaches its absorbing state 0.\<close>

theorem Randomizer_recurrence:
  "unat (m_z (snd (GetNext r))) = 36969 * (unat (m_z r) mod 65536) + unat (m_z r) div 65536 \<and>
   unat (m_w (snd (GetNext r))) = 18000 * (unat (m_w r) mod 65536) + unat (m_w r) div 65536 \<and>
   m_w (((snd \<circ> GetNext) ^^ n) (Randomizer_init seed)) \<noteq> 0"
  using Randomizer_init_m_w GetNext_m_w_nonzero by (induction n) (auto simp: GetNext_state)

end
