(* ===== verification/Search.thy ===== *)
theory Search
  imports Base
begin

text \<open>
  Ordered search of \<^verbatim>\<open>core/rt/runtime_base.h\<close>: \<^verbatim>\<open>LowerBound\<close> and \<^verbatim>\<open>BinarySearch\<close> over anything with
  \<^verbatim>\<open>operator []\<close>, by a key and the key's \<^verbatim>\<open>operator <\<close>. What the callers must provide of that operator is
  the locale \<open>strict_weak_order\<close>. Also the two small stateful helpers of the same file,
  \<^verbatim>\<open>FrequencyDivision\<close> and \<^verbatim>\<open>ObjectPlaceHolder\<close>.
\<close>

unbundle bit_operations_syntax

section \<open>Definitions\<close>

subsection \<open>Binary search\<close>

(*@ core/rt/runtime_base.h 1075-1084 rt::_details::_LowerBound *)
function LowerBound_loop :: "('k \<Rightarrow> 'k \<Rightarrow> bool) \<Rightarrow> ('a \<Rightarrow> 'k) \<Rightarrow> 'a list \<Rightarrow> 'k \<Rightarrow> nat \<Rightarrow> nat \<Rightarrow> nat" where
  "LowerBound_loop lt Key arr key L ret =
    (if L + 1 < ret then
       let mid = (L + ret) div 2 in
       if lt (Key (arr ! mid)) key then LowerBound_loop lt Key arr key mid ret
       else LowerBound_loop lt Key arr key L mid
     else ret)"
  by pat_completeness auto
termination by (relation "measure (\<lambda>(lt, Key, arr, key, L, ret). ret - L)") auto

declare LowerBound_loop.simps [simp del]

(*@ core/rt/runtime_base.h 1068-1085 rt::_details::_LowerBound *)
definition LowerBound_key :: "('k \<Rightarrow> 'k \<Rightarrow> bool) \<Rightarrow> ('a \<Rightarrow> 'k) \<Rightarrow> 'a list \<Rightarrow> 'k \<Rightarrow> nat" where
  "LowerBound_key lt Key arr key =
    (let len = length arr in
     if len = 0 \<or> \<not> lt (Key (arr ! 0)) key then 0
     else if \<not> lt (Key (arr ! (len - 1))) key then LowerBound_loop lt Key arr key 0 (len - 1)
     else len)"

(*@ core/rt/runtime_base.h 1087-1093 rt::_details::_BinarySearch *)
definition BinarySearch_key :: "('k \<Rightarrow> 'k \<Rightarrow> bool) \<Rightarrow> ('a \<Rightarrow> 'k) \<Rightarrow> 'a list \<Rightarrow> 'k \<Rightarrow> nat" where
  "BinarySearch_key lt Key arr key =
    (let r = LowerBound_key lt Key arr key in
     if r < length arr \<and> lt key (Key (arr ! r)) then length arr else r)"

(*@ core/rt/runtime_base.h 1095-1097 rt::_details::_TrivialGetKey *)
definition TrivialGetKey :: "'a \<Rightarrow> 'a" where
  "TrivialGetKey x = x"

(*@ core/rt/runtime_base.h 1111-1114 rt::LowerBound *)
definition LowerBound :: "('a \<Rightarrow> 'a \<Rightarrow> bool) \<Rightarrow> 'a list \<Rightarrow> 'a \<Rightarrow> nat" where
  "LowerBound lt arr key = LowerBound_key lt TrivialGetKey arr key"

(*@ core/rt/runtime_base.h 1116-1119 rt::BinarySearch *)
definition BinarySearch :: "('a \<Rightarrow> 'a \<Rightarrow> bool) \<Rightarrow> 'a list \<Rightarrow> 'a \<Rightarrow> nat" where
  "BinarySearch lt arr key = BinarySearch_key lt TrivialGetKey arr key"

subsection \<open>FrequencyDivision\<close>

text \<open>\<^verbatim>\<open>_TickOffset\<close> is a signed 32-bit integer with -1 for "not aligned yet"; \<^verbatim>\<open>tick-_TickOffset\<close> is
  unsigned. An interval of 0 divides by zero: \<open>Inl\<close>.\<close>

datatype div_error = DivideByZero

(*@ core/rt/runtime_base.h 1156-1157 rt::FrequencyDivision *)
record FrequencyDivision =
  TickOffset :: "32 word"
  Interval :: u32

(*@ core/rt/runtime_base.h 1159-1160 rt::FrequencyDivision::Reset *)
definition FD_Reset :: "u32 \<Rightarrow> FrequencyDivision" where
  "FD_Reset init_interval = \<lparr> TickOffset = - 1, Interval = init_interval \<rparr>"

(*@ core/rt/runtime_base.h 1161-1161 rt::FrequencyDivision::SetInterval *)
definition FD_SetInterval :: "u32 \<Rightarrow> FrequencyDivision \<Rightarrow> FrequencyDivision" where
  "FD_SetInterval interval fd = fd\<lparr> Interval := interval \<rparr>"

(*@ core/rt/runtime_base.h 1164-1164 rt::FrequencyDivision::Hit *)
definition FD_phase :: "FrequencyDivision \<Rightarrow> u32 \<Rightarrow> div_error + bool" where
  "FD_phase fd tick =
    (if Interval fd = 0 then Inl DivideByZero
     else Inr ((tick - TickOffset fd) mod Interval fd = 0))"

(*@ core/rt/runtime_base.h 1162-1174 rt::FrequencyDivision::Hit *)
definition FD_Hit :: "FrequencyDivision \<Rightarrow> u32 \<Rightarrow> bool \<Rightarrow> div_error + bool \<times> FrequencyDivision" where
  "FD_Hit fd tick no_phase_align =
    (if no_phase_align then map_sum id (\<lambda>b. (b, fd)) (FD_phase fd tick)
     else if sint (TickOffset fd) < 0 then Inr (True, fd\<lparr> TickOffset := tick \<rparr>)
     else map_sum id (\<lambda>b. (b, fd)) (FD_phase fd tick))"

subsection \<open>ObjectPlaceHolder\<close>

text \<open>Storage for one object and a flag. The constructors and the destructor of the held type are
  counted, so that an object that is constructed over without being destroyed shows.\<close>

(*@ core/rt/runtime_base.h 1177-1181 rt::ObjectPlaceHolder *)
record 'a ObjectPlaceHolder =
  Place :: "'a option"
  bInit :: bool
  ctors :: nat
  dtors :: nat

(*@ core/rt/runtime_base.h 1185-1185 rt::ObjectPlaceHolder::ObjectPlaceHolder *)
definition OPH_new :: "'a ObjectPlaceHolder" where
  "OPH_new = \<lparr> Place = None, bInit = False, ctors = 0, dtors = 0 \<rparr>"

text \<open>\<^verbatim>\<open>new (_Place) T(x); _bInit = true\<close>.\<close>

(*@ core/rt/runtime_base.h 1186-1186 rt::ObjectPlaceHolder::ObjectPlaceHolder(const T&) *)
definition OPH_construct :: "'a \<Rightarrow> 'a ObjectPlaceHolder \<Rightarrow> 'a ObjectPlaceHolder" where
  "OPH_construct x h = h\<lparr> Place := Some x, bInit := True, ctors := ctors h + 1 \<rparr>"

(*@ core/rt/runtime_base.h 1192-1193 rt::ObjectPlaceHolder::Term *)
definition OPH_Term :: "'a ObjectPlaceHolder \<Rightarrow> 'a ObjectPlaceHolder" where
  "OPH_Term h = (if bInit h then h\<lparr> bInit := False, Place := None, dtors := dtors h + 1 \<rparr> else h)"

(*@ core/rt/runtime_base.h 1182-1182 rt::ObjectPlaceHolder::_Copy *)
definition OPH_Copy :: "'a ObjectPlaceHolder \<Rightarrow> 'a ObjectPlaceHolder \<Rightarrow> 'a ObjectPlaceHolder" where
  "OPH_Copy x h =
    (case (bInit x, Place x) of (True, Some v) \<Rightarrow> OPH_construct v h | _ \<Rightarrow> h\<lparr> bInit := False \<rparr>)"

(*@ core/rt/runtime_base.h 1189-1189 rt::ObjectPlaceHolder::operator=(const T&) *)
definition OPH_assign :: "'a \<Rightarrow> 'a ObjectPlaceHolder \<Rightarrow> 'a ObjectPlaceHolder" where
  "OPH_assign x h = OPH_construct x (OPH_Term h)"

(*@ core/rt/runtime_base.h 1190-1190 rt::ObjectPlaceHolder::operator= *)
definition OPH_assign_holder :: "'a ObjectPlaceHolder \<Rightarrow> 'a ObjectPlaceHolder \<Rightarrow> 'a ObjectPlaceHolder" where
  "OPH_assign_holder x h = OPH_Copy x (OPH_Term h)"

(*@ core/rt/runtime_base.h 1195-1202 rt::ObjectPlaceHolder::Init *)
definition OPH_Init :: "'a \<Rightarrow> 'a ObjectPlaceHolder \<Rightarrow> 'a ObjectPlaceHolder" where
  "OPH_Init x h = OPH_construct x h"

(*@ core/rt/runtime_base.h 1196-1204 rt::ObjectPlaceHolder::Reinit *)
definition OPH_Reinit :: "'a \<Rightarrow> 'a ObjectPlaceHolder \<Rightarrow> 'a ObjectPlaceHolder" where
  "OPH_Reinit x h = OPH_construct x (OPH_Term h)"

section \<open>Ordered search\<close>

text \<open>What \<^verbatim>\<open>operator <\<close> of the keys has to be: a strict weak order.\<close>

locale strict_weak_order =
  fixes lt :: "'k \<Rightarrow> 'k \<Rightarrow> bool"
  assumes irrefl: "\<not> lt x x"
    and trans: "lt x y \<Longrightarrow> lt y z \<Longrightarrow> lt x z"
    and neg_trans: "\<not> lt x y \<Longrightarrow> \<not> lt y z \<Longrightarrow> \<not> lt x z"
begin

lemma asym: "lt x y \<Longrightarrow> \<not> lt y x"
  using irrefl trans by blast

lemma less_le_trans: "lt x y \<Longrightarrow> \<not> lt z y \<Longrightarrow> lt x z"
  using neg_trans by blast

lemma le_less_trans: "\<not> lt y x \<Longrightarrow> lt y z \<Longrightarrow> lt x z"
  using neg_trans by blast

lemma LowerBound_loop_spec:
  assumes s: "sorted_wrt (\<lambda>x y. \<not> lt (Key y) (Key x)) arr"
  shows "L < ret \<Longrightarrow> ret < length arr \<Longrightarrow> lt (Key (arr ! L)) key \<Longrightarrow> \<not> lt (Key (arr ! ret)) key \<Longrightarrow>
   r = LowerBound_loop lt Key arr key L ret \<Longrightarrow>
   0 < r \<and> r < length arr \<and> lt (Key (arr ! (r - 1))) key \<and> \<not> lt (Key (arr ! r)) key"
proof (induction "ret - L" arbitrary: L ret rule: less_induct)
  case less
  show ?case
  proof (cases "L + 1 < ret")
    case True
    define mid where "mid = (L + ret) div 2"
    have m: "L < mid" "mid < ret" using True by (auto simp: mid_def)
    show ?thesis
    proof (cases "lt (Key (arr ! mid)) key")
      case True
      then show ?thesis using less m \<open>L + 1 < ret\<close>
        by (intro less.hyps [of ret mid]) (auto simp: LowerBound_loop.simps [of lt Key arr key L ret] mid_def [symmetric] Let_def)
    next
      case False
      then show ?thesis using less m \<open>L + 1 < ret\<close>
        by (intro less.hyps [of mid L]) (auto simp: LowerBound_loop.simps [of lt Key arr key L ret] mid_def [symmetric] Let_def)
    qed
  next
    case False
    then have "L = ret - 1" "r = ret" using less.prems by (auto simp: LowerBound_loop.simps [of lt Key arr key L ret])
    then show ?thesis using less.prems by auto
  qed
qed

text \<open>The position splits the array: everything before it is less than the key, nothing from it on.\<close>

lemma LowerBound_key_split:
  assumes s: "sorted_wrt (\<lambda>x y. \<not> lt (Key y) (Key x)) arr" and r: "r = LowerBound_key lt Key arr key"
  shows "r \<le> length arr \<and> (\<forall>i<r. lt (Key (arr ! i)) key) \<and> (\<forall>i<length arr. r \<le> i \<longrightarrow> \<not> lt (Key (arr ! i)) key)"
proof -
  have mono: "i \<le> j \<Longrightarrow> j < length arr \<Longrightarrow> \<not> lt (Key (arr ! j)) (Key (arr ! i))" for i j
    using s irrefl by (cases "i = j") (auto simp: sorted_wrt_iff_nth_less)
  have up: "lt (Key (arr ! j)) key \<Longrightarrow> i \<le> j \<Longrightarrow> j < length arr \<Longrightarrow> lt (Key (arr ! i)) key" for i j
    using mono le_less_trans by blast
  have down: "\<not> lt (Key (arr ! i)) key \<Longrightarrow> i \<le> j \<Longrightarrow> j < length arr \<Longrightarrow> \<not> lt (Key (arr ! j)) key" for i j
    using up by blast
  consider "arr = [] \<or> \<not> lt (Key (arr ! 0)) key"
    | "arr \<noteq> []" "lt (Key (arr ! (length arr - 1))) key"
    | "arr \<noteq> []" "lt (Key (arr ! 0)) key" "\<not> lt (Key (arr ! (length arr - 1))) key" by blast
  then show ?thesis
  proof cases
    case 1
    then show ?thesis using r down [of 0] by (auto simp: LowerBound_key_def)
  next
    case 2
    then have "r = length arr" using r up [of "length arr - 1" 0] by (simp add: LowerBound_key_def Let_def)
    then show ?thesis using 2 up by auto
  next
    case 3
    then have "length arr > 1" by (cases arr; cases "tl arr") auto
    then have "0 < r \<and> r < length arr \<and> lt (Key (arr ! (r - 1))) key \<and> \<not> lt (Key (arr ! r)) key"
      using LowerBound_loop_spec [OF s, of 0 "length arr - 1" key r] 3 r by (simp add: LowerBound_key_def Let_def)
    note r3 = this
    have "lt (Key (arr ! i)) key" if "i < r" for i
      using up [of "r - 1" i] r3 that by auto
    moreover have "\<not> lt (Key (arr ! i)) key" if "r \<le> i" "i < length arr" for i
      using down [of r i] r3 that by auto
    ultimately show ?thesis using r3 by auto
  qed
qed

text \<open>The search finds the first equivalent key if there is one, and the length otherwise.\<close>

lemma BinarySearch_key_spec:
  assumes s: "sorted_wrt (\<lambda>x y. \<not> lt (Key y) (Key x)) arr"
    and r: "r = BinarySearch_key lt Key arr key"
  shows "if \<exists>i<length arr. \<not> lt (Key (arr ! i)) key \<and> \<not> lt key (Key (arr ! i))
     then r < length arr \<and> \<not> lt (Key (arr ! r)) key \<and> \<not> lt key (Key (arr ! r)) \<and> (\<forall>i<r. lt (Key (arr ! i)) key)
     else r = length arr"
proof -
  define l where "l = LowerBound_key lt Key arr key"
  note sp = LowerBound_key_split [OF s l_def]
  have mono: "i \<le> j \<Longrightarrow> j < length arr \<Longrightarrow> \<not> lt (Key (arr ! j)) (Key (arr ! i))" for i j
    using s irrefl by (cases "i = j") (auto simp: sorted_wrt_iff_nth_less)
  show ?thesis
  proof (cases "l < length arr \<and> \<not> lt key (Key (arr ! l))")
    case True
    then have "r = l" using r by (auto simp: BinarySearch_key_def l_def Let_def)
    then show ?thesis using True sp by auto
  next
    case False
    then have "r = length arr" using r sp by (auto simp: BinarySearch_key_def l_def Let_def)
    moreover have "lt key (Key (arr ! i))" if "i < length arr" "\<not> lt (Key (arr ! i)) key" for i
    proof -
      have "l \<le> i" using sp that by (meson not_le)
      then have "lt key (Key (arr ! l))" using False that by auto
      then show ?thesis using less_le_trans mono [OF \<open>l \<le> i\<close> that(1)] by blast
    qed
    ultimately show ?thesis by auto
  qed
qed

end

text \<open>The built-in \<^verbatim>\<open><\<close> of the arithmetic types.\<close>

interpretation arith: strict_weak_order "(<) :: 'a::linorder \<Rightarrow> 'a \<Rightarrow> bool"
  by unfold_locales auto

section \<open>The helpers\<close>

text \<open>At most one object is alive, and the flag says whether it is.\<close>

definition OPH_inv :: "'a ObjectPlaceHolder \<Rightarrow> bool" where
  "OPH_inv h \<longleftrightarrow> bInit h = (Place h \<noteq> None) \<and> ctors h = dtors h + (if bInit h then 1 else 0)"

lemma OPH_inv_Term: "OPH_inv h \<Longrightarrow> OPH_inv (OPH_Term h) \<and> \<not> bInit (OPH_Term h)"
  by (auto simp: OPH_inv_def OPH_Term_def)

lemma OPH_inv_construct: "OPH_inv h \<Longrightarrow> \<not> bInit h \<Longrightarrow> OPH_inv (OPH_construct x h)"
  by (auto simp: OPH_inv_def OPH_construct_def)

lemma OPH_inv_Copy: "OPH_inv h \<Longrightarrow> \<not> bInit h \<Longrightarrow> OPH_inv (OPH_Copy x h)"
  by (auto simp: OPH_Copy_def OPH_inv_construct split: bool.split option.split) (auto simp: OPH_inv_def)

section \<open>Properties\<close>

text \<open>C25: on an array sorted by a strict weak order of its keys, \<open>LowerBound\<close> returns the position
  that has every smaller key before it and no smaller key from it on.\<close>

theorem LowerBound_splits:
  assumes "strict_weak_order lt" "sorted_wrt (\<lambda>x y. \<not> lt (Key y) (Key x)) arr"
  shows "LowerBound_key lt Key arr key \<le> length arr \<and>
    (\<forall>i<LowerBound_key lt Key arr key. lt (Key (arr ! i)) key) \<and>
    (\<forall>i<length arr. LowerBound_key lt Key arr key \<le> i \<longrightarrow> \<not> lt (Key (arr ! i)) key)"
  by (rule strict_weak_order.LowerBound_key_split [OF assms refl])

theorem LowerBound_splits_witness: "LowerBound_key (<) id [1, 3, 3, 5] (3 :: nat) = 1"
proof -
  let ?arr = "[1, 3, 3, 5 :: nat]"
  let ?b = "LowerBound_key (<) id ?arr 3"
  have b: "\<forall>i<?b. id (?arr ! i) < 3" "\<forall>i<length ?arr. ?b \<le> i \<longrightarrow> \<not> id (?arr ! i) < 3"
    using LowerBound_splits [OF arith.strict_weak_order_axioms, of id ?arr 3] by simp_all
  have "?b \<noteq> 0" using b(2) by (metis id_apply le_zero_eq length_greater_0_conv list.simps(3) nth_Cons_0 one_less_numeral_iff semiring_norm(77))
  moreover have "\<not> 1 < ?b" using b(1) by fastforce
  ultimately show ?thesis by linarith
qed

text \<open>on a sorted array \<open>BinarySearch\<close> returns the first element whose key is equivalent to the
  one searched for, and the length of the array exactly when there is none.\<close>

theorem BinarySearch_first:
  assumes "strict_weak_order lt" "sorted_wrt (\<lambda>x y. \<not> lt y x) arr" "r = BinarySearch lt arr key"
  shows "if \<exists>i<length arr. \<not> lt (arr ! i) key \<and> \<not> lt key (arr ! i)
    then r < length arr \<and> \<not> lt (arr ! r) key \<and> \<not> lt key (arr ! r) \<and> (\<forall>i<r. lt (arr ! i) key)
    else r = length arr"
  using strict_weak_order.BinarySearch_key_spec [OF assms(1), of TrivialGetKey arr r key] assms(2,3)
  unfolding BinarySearch_def TrivialGetKey_def by blast

lemma ex_less_4: "(\<exists>i<Suc (Suc (Suc (Suc 0))). P i) \<longleftrightarrow> P 0 \<or> P 1 \<or> P 2 \<or> P 3"
  by (auto simp: numeral_eq_Suc less_Suc_eq)

theorem BinarySearch_first_witness: "BinarySearch (<) [1, 3, 3, 5 :: nat] 4 = 4"
  using BinarySearch_first [OF arith.strict_weak_order_axioms _ refl, of "[1, 3, 3, 5 :: nat]" 4]
  by (simp add: ex_less_4)

text \<open>once \<open>Hit\<close> has been aligned at a tick below \<open>2 ^ 31\<close>, later calls leave the state alone and hit
  exactly at the ticks that are a multiple of the interval away from it, modulo \<open>2 ^ 32\<close>.\<close>

theorem FrequencyDivision_hits:
  assumes "n \<noteq> 0" "unat t0 < 2 ^ 31" "fd = FD_Reset n"
  shows "\<exists>fd'. FD_Hit fd t0 False = Inr (True, fd') \<and>
    (\<forall>t. FD_Hit fd' t False = Inr (unat (t - t0) mod unat n = 0, fd'))"
proof -
  have "\<not> sint t0 < 0" using sint_small [of t0] assms(2) by simp
  then show ?thesis using assms(1,3)
    by (auto simp: FD_Hit_def FD_phase_def FD_Reset_def unat_mod_distrib simp flip: unat_eq_zero)
qed

theorem FrequencyDivision_hits_witness:
  "\<exists>fd'. FD_Hit (FD_Reset 10) 7 False = Inr (True, fd') \<and>
    (\<forall>t. FD_Hit fd' t False = Inr (unat (t - 7) mod unat (10 :: u32) = 0, fd'))"
  by (rule FrequencyDivision_hits) simp_all

text \<open>every operation of \<open>ObjectPlaceHolder\<close> keeps the construction and destruction counts
  balanced: whatever is constructed is destroyed before the place is used again. \<open>Init\<close> requires
  an empty place, which the code asserts.\<close>

theorem ObjectPlaceHolder_balanced:
  "OPH_inv OPH_new \<and>
   (OPH_inv h \<longrightarrow> OPH_inv (OPH_Term h) \<and> OPH_inv (OPH_assign x h) \<and> OPH_inv (OPH_Reinit x h) \<and>
      OPH_inv (OPH_assign_holder g h) \<and> (\<not> bInit h \<longrightarrow> OPH_inv (OPH_Init x h)))"
  using OPH_inv_Term [of h] OPH_inv_construct [of h x] OPH_inv_construct [of "OPH_Term h" x] OPH_inv_Copy [of "OPH_Term h" g]
  by (auto simp: OPH_assign_def OPH_Reinit_def OPH_assign_holder_def OPH_Init_def) (simp add: OPH_inv_def OPH_new_def)

theorem ObjectPlaceHolder_balanced_witness:
  "OPH_inv (OPH_assign 5 (OPH_new :: nat ObjectPlaceHolder))"
  using ObjectPlaceHolder_balanced [of "OPH_new :: nat ObjectPlaceHolder" 5] by blast

end
