(* ===== verification/BufferRef.thy ===== *)
theory BufferRef
  imports Search Hashing "HOL-Library.Multiset"
begin

text \<open>
  \<^verbatim>\<open>rt::Buffer_Ref\<close> of \<^verbatim>\<open>core/rt/buffer_type.h\<close>, the non-owning view (\<^verbatim>\<open>_p\<close>, \<^verbatim>\<open>_len\<close>) that all buffers derive
  from. A view is the list of the elements it shows; the operations that write through the
  view return the new list. An access outside the view is \<open>None\<close>. The element type's \<^verbatim>\<open>operator <\<close> is
  the parameter \<open>lt\<close>.
\<close>

section \<open>Definitions\<close>

subsection \<open>Access and comparison\<close>

(*@ core/rt/buffer_type.h 81-82 rt::Buffer_Ref::First *)
definition BR_First :: "'a list \<Rightarrow> 'a option" where
  "BR_First xs = (case xs of [] \<Rightarrow> None | x # _ \<Rightarrow> Some x)"

(*@ core/rt/buffer_type.h 83-84 rt::Buffer_Ref::Last *)
definition BR_Last :: "'a list \<Rightarrow> 'a option" where
  "BR_Last xs = (if xs = [] then None else Some (xs ! (length xs - 1)))"

(*@ core/rt/buffer_type.h 102-105 rt::Buffer_Ref::operator[] *)
definition BR_at :: "'a list \<Rightarrow> nat \<Rightarrow> 'a option" where
  "BR_at xs i = (if i < length xs then Some (xs ! i) else None)"

(*@ core/rt/buffer_type.h 94-97 rt::Buffer_Ref::GetSub *)
definition BR_GetSub :: "'a list \<Rightarrow> nat \<Rightarrow> nat \<Rightarrow> 'a list option" where
  "BR_GetSub xs start sz = (if start + sz \<le> length xs then Some (take sz (drop start xs)) else None)"

(*@ core/rt/buffer_type.h 98-101 rt::Buffer_Ref::Set *)
fun BR_Set :: "'a \<Rightarrow> 'a list \<Rightarrow> 'a list" where
  "BR_Set x [] = []"
| "BR_Set x (_ # ps) = x # BR_Set x ps"

(*@ core/rt/buffer_type.h 106-113 rt::Buffer_Ref::operator== *)
fun BR_eq_loop :: "'a list \<Rightarrow> 'a list \<Rightarrow> bool" where
  "BR_eq_loop (p # ps) (x # xs) = (if p = x then BR_eq_loop ps xs else False)"
| "BR_eq_loop _ _ = True"

(*@ core/rt/buffer_type.h 106-113 rt::Buffer_Ref::operator== *)
definition BR_eq :: "'a list \<Rightarrow> 'a list \<Rightarrow> bool" where
  "BR_eq p x = (if length x \<noteq> length p then False else BR_eq_loop p x)"

(*@ core/rt/buffer_type.h 114-119 rt::Buffer_Ref::operator!= *)
fun BR_ne_loop :: "'a list \<Rightarrow> 'a list \<Rightarrow> bool" where
  "BR_ne_loop (p # ps) (x # xs) = (if p \<noteq> x then True else BR_ne_loop ps xs)"
| "BR_ne_loop _ _ = False"

(*@ core/rt/buffer_type.h 114-119 rt::Buffer_Ref::operator!= *)
definition BR_ne :: "'a list \<Rightarrow> 'a list \<Rightarrow> bool" where
  "BR_ne p x = (if length x \<noteq> length p then True else BR_ne_loop p x)"

(*@ core/rt/buffer_type.h 120-124 rt::Buffer_Ref::SearchItem *)
fun SearchItem_from :: "nat \<Rightarrow> 'a list \<Rightarrow> 'a \<Rightarrow> int" where
  "SearchItem_from i [] x = - 1"
| "SearchItem_from i (p # ps) x = (if p = x then int i else SearchItem_from (i + 1) ps x)"

(*@ core/rt/buffer_type.h 120-124 rt::Buffer_Ref::SearchItem *)
definition BR_SearchItem :: "'a list \<Rightarrow> 'a \<Rightarrow> int" where
  "BR_SearchItem p x = SearchItem_from 0 p x"

(*@ core/rt/buffer_type.h 284-289 rt::Buffer_Ref::Find *)
definition BR_Find :: "'a list \<Rightarrow> 'a \<Rightarrow> int" where
  "BR_Find p v = SearchItem_from 0 p v"

text \<open>The running maximum and its index; \<open>i\<close> is the index of the head of the rest.\<close>

(*@ core/rt/buffer_type.h 131-137 rt::Buffer_Ref::Max *)
fun Max_loop :: "('a \<Rightarrow> 'a \<Rightarrow> bool) \<Rightarrow> 'a \<Rightarrow> int \<Rightarrow> nat \<Rightarrow> 'a list \<Rightarrow> 'a \<times> int" where
  "Max_loop lt mp m i [] = (mp, m)"
| "Max_loop lt mp m i (p # ps) =
    (if lt mp p then Max_loop lt p (int i) (i + 1) ps else Max_loop lt mp m (i + 1) ps)"

(*@ core/rt/buffer_type.h 131-137 rt::Buffer_Ref::Max *)
definition BR_Max :: "('a \<Rightarrow> 'a \<Rightarrow> bool) \<Rightarrow> 'a list \<Rightarrow> int" where
  "BR_Max lt xs = (case xs of [] \<Rightarrow> - 1 | p # ps \<Rightarrow> snd (Max_loop lt p 0 1 ps))"

(*@ core/rt/buffer_type.h 125-130 rt::Buffer_Ref::MaxValue *)
definition BR_MaxValue :: "('a \<Rightarrow> 'a \<Rightarrow> bool) \<Rightarrow> 'a list \<Rightarrow> 'a option" where
  "BR_MaxValue lt xs = (case xs of [] \<Rightarrow> None | p # ps \<Rightarrow> Some (fst (Max_loop lt p 0 1 ps)))"

(*@ core/rt/buffer_type.h 144-150 rt::Buffer_Ref::Min *)
fun Min_loop :: "('a \<Rightarrow> 'a \<Rightarrow> bool) \<Rightarrow> 'a \<Rightarrow> int \<Rightarrow> nat \<Rightarrow> 'a list \<Rightarrow> 'a \<times> int" where
  "Min_loop lt mp m i [] = (mp, m)"
| "Min_loop lt mp m i (p # ps) =
    (if lt p mp then Min_loop lt p (int i) (i + 1) ps else Min_loop lt mp m (i + 1) ps)"

(*@ core/rt/buffer_type.h 144-150 rt::Buffer_Ref::Min *)
definition BR_Min :: "('a \<Rightarrow> 'a \<Rightarrow> bool) \<Rightarrow> 'a list \<Rightarrow> int" where
  "BR_Min lt xs = (case xs of [] \<Rightarrow> - 1 | p # ps \<Rightarrow> snd (Min_loop lt p 0 1 ps))"

(*@ core/rt/buffer_type.h 138-143 rt::Buffer_Ref::MinValue *)
definition BR_MinValue :: "('a \<Rightarrow> 'a \<Rightarrow> bool) \<Rightarrow> 'a list \<Rightarrow> 'a option" where
  "BR_MinValue lt xs = (case xs of [] \<Rightarrow> None | p # ps \<Rightarrow> Some (fst (Min_loop lt p 0 1 ps)))"

text \<open>\<^verbatim>\<open>SearchSortedItem\<close> calls \<^verbatim>\<open>std::find\<close> (the first equal element, else the end) and \<^verbatim>\<open>SearchLowerbound\<close>
  calls \<^verbatim>\<open>std::lower_bound\<close> (on a partitioned range, the end of the smaller elements).\<close>

(*@ core/rt/buffer_type.h 151-153 rt::Buffer_Ref::SearchSortedItem *)
definition SearchSortedItem :: "'a list \<Rightarrow> 'a \<Rightarrow> nat" where
  "SearchSortedItem xs x = length (takeWhile (\<lambda>y. y \<noteq> x) xs)"

(*@ core/rt/buffer_type.h 154-156 rt::Buffer_Ref::SearchLowerbound *)
definition SearchLowerbound :: "('a \<Rightarrow> 'a \<Rightarrow> bool) \<Rightarrow> 'a list \<Rightarrow> 'a \<Rightarrow> nat" where
  "SearchLowerbound lt xs x = length (takeWhile (\<lambda>y. lt y x) xs)"

(*@ core/rt/buffer_type.h 159-169 rt::Buffer_Ref::CopyFrom *)
fun BR_CopyFrom :: "'a list \<Rightarrow> 'a list \<Rightarrow> 'a list option" where
  "BR_CopyFrom [] x = Some []"
| "BR_CopyFrom (_ # ps) (x # xs) = map_option ((#) x) (BR_CopyFrom ps xs)"
| "BR_CopyFrom (_ # _) [] = None"

(*@ core/rt/buffer_type.h 170-174 rt::Buffer_Ref::CopyTo *)
fun BR_CopyTo :: "'a list \<Rightarrow> 'a list \<Rightarrow> 'a list option" where
  "BR_CopyTo [] x = Some x"
| "BR_CopyTo (p # ps) (_ # xs) = map_option ((#) p) (BR_CopyTo ps xs)"
| "BR_CopyTo (_ # _) [] = None"

subsection \<open>Sorting and shuffling\<close>

(*@ core/rt/buffer_type.h 177-181 rt::Buffer_Ref::Sort::_comp::compare *)
definition sort_compare :: "('a \<Rightarrow> 'a \<Rightarrow> bool) \<Rightarrow> 'a \<Rightarrow> 'a \<Rightarrow> int" where
  "sort_compare lt a b = (if lt a b then - 1 else if lt b a then 1 else 0)"

(*@ core/rt/buffer_type.h 186-190 rt::Buffer_Ref::SortDesc::_comp::compare *)
definition sort_compare_desc :: "('a \<Rightarrow> 'a \<Rightarrow> bool) \<Rightarrow> 'a \<Rightarrow> 'a \<Rightarrow> int" where
  "sort_compare_desc lt a b = (if lt a b then 1 else if lt b a then - 1 else 0)"

text \<open>The C library's \<^verbatim>\<open>qsort\<close>: some permutation in which no element compares greater than a later
  one. The model inserts one element after the other.\<close>

fun qsort_insert :: "('a \<Rightarrow> 'a \<Rightarrow> int) \<Rightarrow> 'a \<Rightarrow> 'a list \<Rightarrow> 'a list" where
  "qsort_insert cmp x [] = [x]"
| "qsort_insert cmp x (y # ys) = (if cmp x y > 0 then y # qsort_insert cmp x ys else x # y # ys)"

definition qsort :: "('a \<Rightarrow> 'a \<Rightarrow> int) \<Rightarrow> 'a list \<Rightarrow> 'a list" where
  "qsort cmp xs = foldr (qsort_insert cmp) xs []"

(*@ core/rt/buffer_type.h 175-197 rt::Buffer_Ref::Sort *)
definition BR_Sort :: "('a \<Rightarrow> 'a \<Rightarrow> bool) \<Rightarrow> 'a list \<Rightarrow> 'a list" where
  "BR_Sort lt xs = qsort (sort_compare lt) xs"

(*@ core/rt/buffer_type.h 184-197 rt::Buffer_Ref::SortDesc *)
definition BR_SortDesc :: "('a \<Rightarrow> 'a \<Rightarrow> bool) \<Rightarrow> 'a list \<Rightarrow> 'a list" where
  "BR_SortDesc lt xs = qsort (sort_compare_desc lt) xs"

text \<open>\<^verbatim>\<open>rt::Swap\<close> of two elements of the view.\<close>

definition swap_elems :: "'a list \<Rightarrow> nat \<Rightarrow> nat \<Rightarrow> 'a list" where
  "swap_elems xs i j = xs[i := xs ! j, j := xs ! i]"

(*@ core/rt/buffer_type.h 201-202 rt::Buffer_Ref::Shuffle *)
function Shuffle_loop :: "Randomizer \<Rightarrow> nat \<Rightarrow> 'a list \<Rightarrow> 'a list" where
  "Shuffle_loop rng i xs =
    (if i < length xs - 1 then
       let (x, rng) = GetNext rng in
       Shuffle_loop rng (i + 1) (swap_elems xs i (i + unat x mod (length xs - i)))
     else xs)"
  by pat_completeness auto
termination by (relation "measure (\<lambda>(rng, i, xs). length xs - i)") (auto simp: swap_elems_def)

declare Shuffle_loop.simps [simp del]

(*@ core/rt/buffer_type.h 198-204 rt::Buffer_Ref::Shuffle *)
definition BR_Shuffle :: "u32 \<Rightarrow> 'a list \<Rightarrow> 'a list" where
  "BR_Shuffle seed xs = (if xs \<noteq> [] then Shuffle_loop (Randomizer_init seed) 0 xs else xs)"

text \<open>\<^verbatim>\<open>SortedPush\<close>: the pointer \<^verbatim>\<open>p\<close> of the loop is the index \<open>q - 1\<close>, one before the slot to fill.\<close>

(*@ core/rt/buffer_type.h 209-214 rt::Buffer_Ref::SortedPush *)
fun SortedPush_loop :: "('a \<Rightarrow> 'a \<Rightarrow> bool) \<Rightarrow> 'a \<Rightarrow> 'a list \<Rightarrow> nat \<Rightarrow> 'a list \<times> nat" where
  "SortedPush_loop lt x xs 0 = (xs, 0)"
| "SortedPush_loop lt x xs (Suc p) =
    (if lt x (xs ! p) then SortedPush_loop lt x (xs[p + 1 := xs ! p]) p else (xs, Suc p))"

(*@ core/rt/buffer_type.h 205-217 rt::Buffer_Ref::SortedPush *)
definition BR_SortedPush :: "('a \<Rightarrow> 'a \<Rightarrow> bool) \<Rightarrow> 'a list \<Rightarrow> 'a \<Rightarrow> int \<times> 'a list" where
  "BR_SortedPush lt xs x =
    (if xs = [] \<or> lt (xs ! (length xs - 1)) x then (- 1, xs)
     else let (ys, q) = SortedPush_loop lt x xs (length xs - 1) in (int q, ys[q := x]))"

subsection \<open>Selection\<close>

text \<open>Hoare's selection with the indices as the code has them. The scan runs while
  \<^verbatim>\<open>j <= r - 1\<close> in unsigned 64-bit arithmetic: for \<open>r = 0\<close> the bound is the largest \<^verbatim>\<open>SIZE_T\<close>. Reading or
  swapping outside the array is \<open>None\<close>.\<close>

(*@ core/rt/buffer_type.h 223-227 rt::Buffer_Ref::FindTopKth::_Find::partition *)
function partition_loop :: "('a \<Rightarrow> 'a \<Rightarrow> bool) \<Rightarrow> 'a \<Rightarrow> nat \<Rightarrow> 'a list \<Rightarrow> nat \<Rightarrow> nat \<Rightarrow> ('a list \<times> nat) option" where
  "partition_loop lt x bound arr i j =
    (if j \<le> bound then
       if j < length arr then
         if lt x (arr ! j) then partition_loop lt x bound arr i (j + 1)
         else partition_loop lt x bound (swap_elems arr i j) (i + 1) (j + 1)
       else None
     else Some (arr, i))"
  by pat_completeness auto
termination by (relation "measure (\<lambda>(lt, x, bound, arr, i, j). length arr - j)") (auto simp: swap_elems_def)

declare partition_loop.simps [simp del]

(*@ core/rt/buffer_type.h 220-230 rt::Buffer_Ref::FindTopKth::_Find::partition *)
definition kth_partition :: "('a \<Rightarrow> 'a \<Rightarrow> bool) \<Rightarrow> 'a list \<Rightarrow> nat \<Rightarrow> nat \<Rightarrow> ('a list \<times> nat) option" where
  "kth_partition lt arr l r =
    (if r < length arr then
       case partition_loop lt (arr ! r) (if r = 0 then 2 ^ 64 - 1 else r - 1) arr l l of
         None \<Rightarrow> None
       | Some (arr, i) \<Rightarrow> Some (swap_elems arr i r, i)
     else None)"

text \<open>\<^verbatim>\<open>r - l + 1\<close> and \<^verbatim>\<open>k-pos+l-1\<close> are written so that no intermediate value wraps.\<close>

(*@ core/rt/buffer_type.h 231-242 rt::Buffer_Ref::FindTopKth::_Find::kth *)
partial_function (option) kth :: "('a \<Rightarrow> 'a \<Rightarrow> bool) \<Rightarrow> 'a list \<Rightarrow> nat \<Rightarrow> nat \<Rightarrow> nat \<Rightarrow> ('a \<times> 'a list) option" where
  "kth lt arr l r k =
    (if k > 0 \<and> k \<le> r + 1 - l then
       case kth_partition lt arr l r of
         None \<Rightarrow> None
       | Some (arr, pos) \<Rightarrow>
           if pos - l = k - 1 then Some (arr ! pos, arr)
           else if pos - l > k - 1 then kth lt arr l (pos - 1) k
           else kth lt arr (pos + 1) r (k + l - pos - 1)
     else case arr of [] \<Rightarrow> None | a # _ \<Rightarrow> Some (a, arr))"

(*@ core/rt/buffer_type.h 218-247 rt::Buffer_Ref::FindTopKth *)
definition FindTopKth :: "('a \<Rightarrow> 'a \<Rightarrow> bool) \<Rightarrow> 'a list \<Rightarrow> nat \<Rightarrow> ('a \<times> 'a list) option" where
  "FindTopKth lt xs k = (if xs = [] then None else kth lt xs 0 (length xs - 1) k)"

subsection \<open>Random bits and visitors\<close>

(*@ core/rt/buffer_type.h 248-263 rt::Buffer_Ref::RandomBits *)
definition BR_RandomBits :: "u32 \<Rightarrow> bytes \<Rightarrow> bytes" where
  "BR_RandomBits seed mem =
    (let int_size = length mem div 4;
         (rng, mem) = Randomize_words int_size 0 (Randomizer_init seed) mem;
         i = int_size * 4
     in if length mem > i
        then let (last, rng) = GetNext rng in write_at i (take (length mem - i) (le_store 4 last)) mem
        else mem)"

text \<open>A visitor may change the element and its own captured state; it stops the walk by returning
  false, and \<^verbatim>\<open>ForEach\<close> returns how many elements were visited.\<close>

(*@ core/rt/buffer_type.h 264-283 rt::Buffer_Ref::ForEach *)
fun ForEach_loop :: "('a \<Rightarrow> nat \<Rightarrow> nat \<Rightarrow> 's \<Rightarrow> bool \<times> 'a \<times> 's) \<Rightarrow> nat \<Rightarrow> nat \<Rightarrow> 'a list \<Rightarrow> 's \<Rightarrow> nat \<times> 'a list \<times> 's" where
  "ForEach_loop v tot i [] s = (i, [], s)"
| "ForEach_loop v tot i (p # ps) s =
    (let (go, p, s) = v p i tot s in
     if \<not> go then (i + 1, p # ps, s)
     else let (n, ps, s) = ForEach_loop v tot (i + 1) ps s in (n, p # ps, s))"

(*@ core/rt/buffer_type.h 264-283 rt::Buffer_Ref::ForEach *)
definition BR_ForEach :: "('a \<Rightarrow> nat \<Rightarrow> nat \<Rightarrow> 's \<Rightarrow> bool \<times> 'a \<times> 's) \<Rightarrow> 'a list \<Rightarrow> 's \<Rightarrow> nat \<times> 'a list \<times> 's" where
  "BR_ForEach v xs s = ForEach_loop v (length xs) 0 xs s"

section \<open>Selection, sorted insertion, extremes\<close>

lemma length_swap_elems [simp]: "length (swap_elems xs i j) = length xs"
  by (simp add: swap_elems_def)

lemma nth_swap_elems:
  "i < length xs \<Longrightarrow> j < length xs \<Longrightarrow> swap_elems xs i j ! m = xs ! (if m = i then j else if m = j then i else m)"
  by (auto simp: swap_elems_def nth_list_update)

lemma mset_swap_elems: "i < length xs \<Longrightarrow> j < length xs \<Longrightarrow> mset (swap_elems xs i j) = mset xs"
  by (simp add: swap_elems_def mset_swap)

text \<open>\<open>ranged l r xs ys\<close>: \<open>ys\<close> rearranges the elements at the positions from \<open>l\<close> below \<open>r\<close> of \<open>xs\<close>.\<close>

definition ranged :: "nat \<Rightarrow> nat \<Rightarrow> 'a list \<Rightarrow> 'a list \<Rightarrow> bool" where
  "ranged l r xs ys \<longleftrightarrow> mset ys = mset xs \<and> (\<forall>m. m < l \<or> r \<le> m \<longrightarrow> ys ! m = xs ! m) \<and>
     (\<forall>m. l \<le> m \<and> m < r \<longrightarrow> (\<exists>c. l \<le> c \<and> c < r \<and> ys ! m = xs ! c))"

lemma ranged_refl: "ranged l r xs xs"
  by (auto simp: ranged_def)

lemma ranged_trans: "ranged l r xs ys \<Longrightarrow> ranged l r ys zs \<Longrightarrow> ranged l r xs zs"
  unfolding ranged_def by (metis)

lemma ranged_swap:
  "l \<le> i \<Longrightarrow> i < r \<Longrightarrow> l \<le> j \<Longrightarrow> j < r \<Longrightarrow> r \<le> length xs \<Longrightarrow> ranged l r xs (swap_elems xs i j)"
  unfolding ranged_def by (auto simp: nth_swap_elems mset_swap_elems)

lemma ranged_mono: "ranged l r xs ys \<Longrightarrow> r \<le> r' \<Longrightarrow> ranged l r' xs ys"
  unfolding ranged_def by (meson not_le order_trans less_le_trans)

lemma ranged_length: "ranged l r xs ys \<Longrightarrow> length ys = length xs"
  unfolding ranged_def by (metis size_mset)

lemma ranged_source:
  "ranged l r xs ys \<Longrightarrow> \<exists>c. ys ! m = xs ! c \<and> (if l \<le> m \<and> m < r then l \<le> c \<and> c < r else c = m)"
  unfolding ranged_def by (metis not_le)

definition partitioned :: "('a \<Rightarrow> 'a \<Rightarrow> bool) \<Rightarrow> 'a \<Rightarrow> nat \<Rightarrow> nat \<Rightarrow> 'a list \<Rightarrow> 'a list \<Rightarrow> nat \<Rightarrow> bool" where
  "partitioned lt x l r arr a i \<longleftrightarrow> ranged l r arr a \<and> l \<le> i \<and> i \<le> r \<and>
     (\<forall>m. l \<le> m \<and> m < i \<longrightarrow> \<not> lt x (a ! m)) \<and> (\<forall>m. i \<le> m \<and> m < r \<longrightarrow> lt x (a ! m))"

lemma partition_loop_spec:
  "\<lbrakk>0 < r; r < length arr; l \<le> i; i \<le> j; j \<le> r;
    \<And>m. l \<le> m \<Longrightarrow> m < i \<Longrightarrow> \<not> lt x (arr ! m); \<And>m. i \<le> m \<Longrightarrow> m < j \<Longrightarrow> lt x (arr ! m)\<rbrakk> \<Longrightarrow>
   \<exists>arr' i'. partition_loop lt x (r - 1) arr i j = Some (arr', i') \<and> partitioned lt x l r arr arr' i'"
proof (induction "r - j" arbitrary: arr i j)
  case 0
  then show ?case by (subst partition_loop.simps) (auto simp: partitioned_def ranged_refl)
next
  case (Suc d)
  then have j: "j < r" "j < length arr" by auto
  show ?case
  proof (cases "lt x (arr ! j)")
    case True
    have "\<exists>arr' i'. partition_loop lt x (r - 1) arr i (j + 1) = Some (arr', i') \<and> partitioned lt x l r arr arr' i'"
      by (rule Suc.hyps) (use Suc.hyps(2) Suc.prems j True in \<open>auto simp: less_Suc_eq\<close>)
    then show ?thesis using True j by (subst partition_loop.simps) auto
  next
    case False
    let ?s = "swap_elems arr i j"
    have "\<exists>arr' i'. partition_loop lt x (r - 1) ?s (i + 1) (j + 1) = Some (arr', i') \<and> partitioned lt x l r ?s arr' i'"
      by (rule Suc.hyps) (use Suc.hyps(2) Suc.prems j False in \<open>auto simp: less_Suc_eq nth_swap_elems\<close>)
    moreover have "ranged l r arr ?s" by (rule ranged_swap) (use Suc.prems j in auto)
    ultimately show ?thesis using False j ranged_trans [of l r arr ?s]
      by (subst partition_loop.simps) (fastforce simp: partitioned_def)
  qed
qed

lemma kth_partition_spec:
  assumes "0 < r" "r < length arr" "l \<le> r"
  shows "\<exists>a i. kth_partition lt arr l r = Some (a, i) \<and> ranged l (Suc r) arr a \<and> l \<le> i \<and> i \<le> r \<and>
    (\<forall>m. l \<le> m \<and> m < i \<longrightarrow> \<not> lt (a ! i) (a ! m)) \<and> (\<forall>m. i < m \<and> m \<le> r \<longrightarrow> lt (a ! i) (a ! m))"
proof -
  define x where "x = arr ! r"
  obtain a i where a: "partition_loop lt x (r - 1) arr l l = Some (a, i)" and p: "partitioned lt x l r arr a i"
    using partition_loop_spec [of r arr l l l lt x] assms by (metis leD order_refl)
  from p have rg: "ranged l r arr a" by (simp add: partitioned_def)
  have len: "length a = length arr" by (rule ranged_length [OF rg])
  have ar: "a ! r = x" using rg by (simp add: ranged_def x_def)
  have i: "l \<le> i" "i \<le> r" using p by (auto simp: partitioned_def)
  have "ranged l (Suc r) arr (swap_elems a i r)"
    by (rule ranged_trans [OF ranged_mono [OF rg] ranged_swap]) (use i len assms in auto)
  moreover have "kth_partition lt arr l r = Some (swap_elems a i r, i)"
    using assms a by (simp add: kth_partition_def x_def)
  ultimately show ?thesis using p ar len assms by (auto simp: nth_swap_elems partitioned_def)
qed

text \<open>Everything before position \<open>b\<close> is at most everything from \<open>b\<close> on.\<close>

definition splits :: "('a \<Rightarrow> 'a \<Rightarrow> bool) \<Rightarrow> nat \<Rightarrow> 'a list \<Rightarrow> bool" where
  "splits lt b xs \<longleftrightarrow> (\<forall>i j. i < b \<longrightarrow> b \<le> j \<longrightarrow> j < length xs \<longrightarrow> \<not> lt (xs ! j) (xs ! i))"

lemma splits_ranged:
  assumes s: "splits lt b xs" and r: "ranged l r xs ys" and b: "b \<le> l \<or> r \<le> b" "r \<le> length xs"
  shows "splits lt b ys"
  unfolding splits_def
proof (intro allI impI)
  fix i j
  assume ij: "i < b" "b \<le> j" "j < length ys"
  obtain i' where i': "ys ! i = xs ! i'" "if l \<le> i \<and> i < r then l \<le> i' \<and> i' < r else i' = i"
    using ranged_source [OF r, of i] by auto
  obtain j' where j': "ys ! j = xs ! j'" "if l \<le> j \<and> j < r then l \<le> j' \<and> j' < r else j' = j"
    using ranged_source [OF r, of j] by auto
  have "i' < b" "b \<le> j'" "j' < length xs"
    using i'(2) j'(2) ij b ranged_length [OF r] by (auto split: if_splits)
  then show "\<not> lt (ys ! j) (ys ! i)" using s i'(1) j'(1) by (simp add: splits_def)
qed

context strict_weak_order
begin

lemma kth_spec:
  "\<lbrakk>l \<le> K; K \<le> r; r < length arr; 0 < K; splits lt l arr; splits lt (Suc r) arr; k = K + 1 - l\<rbrakk> \<Longrightarrow>
   \<exists>a. kth lt arr l r k = Some (a ! K, a) \<and> mset a = mset arr \<and> splits lt K a \<and> splits lt (Suc K) a"
proof (induction "r - l" arbitrary: arr l r k rule: less_induct)
  case less
  then have k: "k > 0 \<and> k \<le> r + 1 - l" by auto
  obtain a pos where a: "kth_partition lt arr l r = Some (a, pos)" and rg: "ranged l (Suc r) arr a"
    and pos: "l \<le> pos" "pos \<le> r" and lo: "\<forall>m. l \<le> m \<and> m < pos \<longrightarrow> \<not> lt (a ! pos) (a ! m)"
    and hi: "\<forall>m. pos < m \<and> m \<le> r \<longrightarrow> lt (a ! pos) (a ! m)"
    using kth_partition_spec [of r arr l lt] less.prems by auto
  have len: "length a = length arr" and ms: "mset a = mset arr"
    using rg ranged_length by (auto simp: ranged_def)
  have out: "splits lt l a" "splits lt (Suc r) a"
    using splits_ranged [OF less.prems(5) rg] splits_ranged [OF less.prems(6) rg] less.prems(3) by auto
  have inner: "\<not> lt (a ! j) (a ! i)" if "l \<le> i" "i \<le> pos" "pos \<le> j" "j \<le> r" for i j
    using that lo hi irrefl trans [of "a ! pos" "a ! j" "a ! i"] asym by (metis le_neq_implies_less)
  have all: "\<not> lt (a ! j) (a ! i)" if "i \<le> pos" "pos \<le> j" "j < length a" for i j
  proof -
    consider "i < l" | "r < j" | "l \<le> i" "j \<le> r" by linarith
    then show ?thesis
      by cases (use out pos that inner in \<open>auto simp: splits_def\<close>)
  qed
  have sp: "splits lt pos a" "splits lt (Suc pos) a"
    using all by (auto simp: splits_def)
  note unfold = kth.simps [of lt arr l r k]
  consider "pos = K" | "pos > K" | "pos < K" by linarith
  then show ?case
  proof cases
    case 1
    then show ?thesis using unfold a k ms sp less.prems pos by auto
  next
    case 2
    then have "\<exists>b. kth lt a l (pos - 1) k = Some (b ! K, b) \<and> mset b = mset a \<and> splits lt K b \<and> splits lt (Suc K) b"
      by (intro less.hyps) (use less.prems pos out sp len in auto)
    then show ?thesis using unfold a k ms 2 less.prems pos by auto
  next
    case 3
    then have "\<exists>b. kth lt a (pos + 1) r (k + l - pos - 1) = Some (b ! K, b) \<and> mset b = mset a \<and> splits lt K b \<and> splits lt (Suc K) b"
      by (intro less.hyps) (use less.prems pos out sp len in auto)
    then show ?thesis using unfold a k ms 3 less.prems pos by auto
  qed
qed

lemma FindTopKth_splits:
  assumes "2 \<le> k" "k \<le> length xs"
  shows "\<exists>a. FindTopKth lt xs k = Some (a ! (k - 1), a) \<and> mset a = mset xs \<and>
    splits lt (k - 1) a \<and> splits lt k a"
proof -
  have "\<exists>a. kth lt xs 0 (length xs - 1) k = Some (a ! (k - 1), a) \<and> mset a = mset xs \<and>
      splits lt (k - 1) a \<and> splits lt (Suc (k - 1)) a"
    by (rule kth_spec) (use assms in \<open>auto simp: splits_def\<close>)
  then show ?thesis using assms by (auto simp: FindTopKth_def)
qed

end

lemma in_set_take_nth: "x \<in> set (take K a) \<Longrightarrow> \<exists>i<K. x = a ! i"
  unfolding in_set_conv_nth by auto

lemma in_set_drop_nth: "x \<in> set (drop K a) \<Longrightarrow> \<exists>i\<ge>K. i < length a \<and> x = a ! i"
proof -
  assume "x \<in> set (drop K a)"
  then obtain i where "i < length a - K" "x = a ! (K + i)" by (auto simp: in_set_conv_nth)
  then show ?thesis by (intro exI [of _ "K + i"]) auto
qed

lemma splits_nth_sort:
  fixes a :: "'a::linorder list"
  assumes "splits (<) K a" "splits (<) (Suc K) a" "K < length a"
  shows "a ! K = sort a ! K"
proof -
  have "sort a = sort (take K a) @ a ! K # sort (drop (Suc K) a)"
  proof (rule properties_for_sort)
    show "mset (sort (take K a) @ a ! K # sort (drop (Suc K) a)) = mset a"
      using id_take_nth_drop [OF assms(3)] by (metis mset_append mset_sort mset.simps(2))
    have "x \<le> y" if xK: "x \<in> set (take K a)" and yK: "y = a ! K \<or> y \<in> set (drop (Suc K) a)" for x y
    proof -
      obtain i where i: "i < K" "x = a ! i" using in_set_take_nth [OF xK] by blast
      obtain j where "K \<le> j" "j < length a" "y = a ! j"
        using yK assms(3) in_set_drop_nth [of y "Suc K" a] by (metis Suc_leD order_refl)
      then show ?thesis using assms(1) i by (auto simp: splits_def not_less)
    qed
    moreover have "a ! K \<le> y" if yK: "y \<in> set (drop (Suc K) a)" for y
    proof -
      obtain j where "Suc K \<le> j" "j < length a" "y = a ! j"
        using in_set_drop_nth [OF yK] by blast
      then show ?thesis using assms(2) by (auto simp: splits_def not_less)
    qed
    ultimately show "sorted (sort (take K a) @ a ! K # sort (drop (Suc K) a))"
      by (auto simp: sorted_append)
  qed
  then show ?thesis using assms(3) by (simp add: nth_append)
qed

lemma partition_loop_out_of_bounds:
  "length arr \<le> bound \<Longrightarrow> j \<le> length arr \<Longrightarrow> partition_loop lt x bound arr i j = None"
proof (induction lt x bound arr i j rule: partition_loop.induct)
  case (1 lt x bound arr i j)
  then show ?case by (subst partition_loop.simps) (auto simp: not_le)
qed

lemma SortedPush_loop_spec:
  "\<lbrakk>SortedPush_loop lt x xs p = (ys, q); p < length xs\<rbrakk> \<Longrightarrow>
   q \<le> p \<and> ys[q := x] = take q xs @ x # drop q (take p xs) @ drop (p + 1) xs \<and>
   (\<forall>i. q \<le> i \<and> i < p \<longrightarrow> lt x (xs ! i)) \<and> (0 < q \<longrightarrow> \<not> lt x (xs ! (q - 1)))"
proof (induction lt x xs p arbitrary: ys q rule: SortedPush_loop.induct)
  case (1 lt x xs)
  then show ?case by (cases xs) auto
next
  case (2 lt x xs p)
  show ?case
  proof (cases "lt x (xs ! p)")
    case True
    let ?xs = "xs[p + 1 := xs ! p]"
    have ih: "q \<le> p \<and> ys[q := x] = take q ?xs @ x # drop q (take p ?xs) @ drop (p + 1) ?xs \<and>
      (\<forall>i. q \<le> i \<and> i < p \<longrightarrow> lt x (?xs ! i)) \<and> (0 < q \<longrightarrow> \<not> lt x (?xs ! (q - 1)))"
      by (rule "2.IH" [OF True]) (use "2.prems" True in auto)
    have "drop (p + 1) ?xs = xs ! p # drop (p + 2) xs"
      using "2.prems"(2) by (simp add: Cons_nth_drop_Suc [symmetric])
    moreover have "drop q (take (Suc p) xs) = drop q (take p xs) @ [xs ! p]"
      using ih "2.prems"(2) by (simp add: take_Suc_conv_app_nth)
    ultimately show ?thesis using ih True by (auto simp: less_Suc_eq)
  next
    case False
    then show ?thesis using "2.prems" by (auto simp: upd_conv_take_nth_drop)
  qed
qed

lemma mset_Shuffle_loop: "mset (Shuffle_loop rng i xs) = mset xs"
proof (induction rng i xs rule: Shuffle_loop.induct)
  case (1 rng i xs)
  have "i + unat x mod (length xs - i) < length xs" if "i < length xs - 1" for x :: u32
    using that mod_less_divisor [of "length xs - i" "unat x"] by linarith
  with 1 show ?case
    by (subst Shuffle_loop.simps) (auto split: prod.split simp: mset_swap_elems)
qed

lemma BR_eq_loop_iff: "length xs = length ys \<Longrightarrow> BR_eq_loop xs ys \<longleftrightarrow> xs = ys"
  by (induction xs ys rule: BR_eq_loop.induct) auto

lemma BR_ne_loop_iff: "length xs = length ys \<Longrightarrow> BR_ne_loop xs ys \<longleftrightarrow> xs \<noteq> ys"
  by (induction xs ys rule: BR_ne_loop.induct) auto

lemma SearchItem_from_eq:
  "SearchItem_from i xs x = (if x \<in> set xs then int (i + length (takeWhile (\<lambda>y. y \<noteq> x) xs)) else - 1)"
  by (induction i xs x rule: SearchItem_from.induct) auto

text \<open>\<open>first_max lt xs n m\<close>: \<open>m\<close> is the first position of a maximum of the first \<open>n\<close> elements.\<close>

definition first_max :: "('a \<Rightarrow> 'a \<Rightarrow> bool) \<Rightarrow> 'a list \<Rightarrow> nat \<Rightarrow> nat \<Rightarrow> bool" where
  "first_max lt xs n m \<longleftrightarrow> m < n \<and> (\<forall>i<n. \<not> lt (xs ! m) (xs ! i)) \<and> (\<forall>i<m. lt (xs ! i) (xs ! m))"

context strict_weak_order
begin

lemma first_max_Suc:
  "first_max lt xs n m \<Longrightarrow> first_max lt xs (Suc n) (if lt (xs ! m) (xs ! n) then n else m)"
proof (cases "lt (xs ! m) (xs ! n)")
  case True
  assume f: "first_max lt xs n m"
  have "\<not> lt (xs ! n) (xs ! i)" if "i < Suc n" for i
    using that True f trans [OF True] irrefl by (auto simp: first_max_def less_Suc_eq)
  moreover have "lt (xs ! i) (xs ! n)" if "i < n" for i
    using that True f le_less_trans by (auto simp: first_max_def)
  ultimately show ?thesis using True by (simp add: first_max_def)
next
  case False
  assume "first_max lt xs n m"
  then show ?thesis using False by (auto simp: first_max_def less_Suc_eq)
qed

lemma Max_loop_spec:
  "first_max lt xs i m \<Longrightarrow> i \<le> length xs \<Longrightarrow> ps = drop i xs \<Longrightarrow>
   \<exists>k. Max_loop lt (xs ! m) (int m) i ps = (xs ! k, int k) \<and> first_max lt xs (length xs) k"
proof (induction ps arbitrary: i m)
  case Nil
  then show ?case by auto
next
  case (Cons p ps)
  then have i: "i < length xs" by (metis drop_all list.distinct(1) not_le)
  then have "p # ps = xs ! i # drop (Suc i) xs" using Cons.prems(3) by (simp add: Cons_nth_drop_Suc)
  then have p: "p = xs ! i" and ps: "ps = drop (Suc i) xs" by auto
  have "\<exists>k. Max_loop lt (xs ! (if lt (xs ! m) (xs ! i) then i else m)) (int (if lt (xs ! m) (xs ! i) then i else m)) (Suc i) ps =
      (xs ! k, int k) \<and> first_max lt xs (length xs) k"
    by (rule Cons.IH [OF first_max_Suc [OF Cons.prems(1)]]) (use i ps in auto)
  then show ?case by (auto simp: p)
qed

lemma Max_spec: "xs \<noteq> [] \<Longrightarrow>
   \<exists>k. BR_Max lt xs = int k \<and> BR_MaxValue lt xs = Some (xs ! k) \<and> first_max lt xs (length xs) k"
proof -
  assume "xs \<noteq> []"
  then obtain p ps where xs: "xs = p # ps" by (cases xs) auto
  have "first_max lt xs 1 0" by (simp add: first_max_def irrefl)
  then have "\<exists>k. Max_loop lt (xs ! 0) (int 0) 1 ps = (xs ! k, int k) \<and> first_max lt xs (length xs) k"
    by (rule Max_loop_spec) (simp_all add: xs)
  then obtain k where k: "Max_loop lt p 0 1 ps = (xs ! k, int k)" "first_max lt xs (length xs) k"
    by (auto simp: xs)
  then have "BR_Max lt xs = int k" "BR_MaxValue lt xs = Some (xs ! k)"
    unfolding BR_Max_def BR_MaxValue_def xs by simp_all
  with k(2) show ?thesis by blast
qed

lemma dual: "strict_weak_order (\<lambda>x y. lt y x)"
proof
  show "\<not> lt x x" for x by (rule irrefl)
  show "lt z x" if "lt y x" "lt z y" for x y z by (rule trans [OF that(2,1)])
  show "\<not> lt z x" if "\<not> lt y x" "\<not> lt z y" for x y z by (rule neg_trans [OF that(2,1)])
qed

end

lemma Min_loop_Max_loop: "Min_loop lt = Max_loop (\<lambda>x y. lt y x)"
proof (intro ext)
  show "Min_loop lt mp m i ps = Max_loop (\<lambda>x y. lt y x) mp m i ps" for mp m i ps
    by (induction lt mp m i ps rule: Min_loop.induct) auto
qed

lemma Min_Max: "BR_Min lt = BR_Max (\<lambda>x y. lt y x)" "BR_MinValue lt = BR_MaxValue (\<lambda>x y. lt y x)"
  by (auto simp: fun_eq_iff BR_Min_def BR_Max_def BR_MinValue_def BR_MaxValue_def Min_loop_Max_loop split: list.split)

lemma mset_qsort: "mset (qsort cmp xs) = mset xs"
proof -
  have "mset (qsort_insert cmp x ys) = add_mset x (mset ys)" for x ys
    by (induction ys) auto
  then show ?thesis unfolding qsort_def by (induction xs) auto
qed

lemma qsort_insert_sorted:
  assumes "strict_weak_order lt"
  shows "sorted_wrt (\<lambda>x y. \<not> lt y x) ys \<Longrightarrow> sorted_wrt (\<lambda>x y. \<not> lt y x) (qsort_insert (sort_compare lt) x ys)"
proof (induction ys)
  case (Cons y ys)
  have set: "set (qsort_insert (sort_compare lt) x ys) = insert x (set ys)"
    by (induction ys) auto
  have gt: "sort_compare lt x y > 0 \<longleftrightarrow> lt y x"
    using strict_weak_order.asym [OF assms, of x y] by (auto simp: sort_compare_def)
  show ?case
  proof (cases "lt y x")
    case True
    then have "\<not> lt x y" by (rule strict_weak_order.asym [OF assms])
    then show ?thesis using Cons True by (simp add: gt set)
  next
    case False
    then have "\<not> lt z x" if "z \<in> set ys" for z
      using strict_weak_order.neg_trans [OF assms _ False, of z] Cons.prems that by simp
    then show ?thesis using Cons False by (simp add: gt)
  qed
qed simp

lemma BR_Sort_sorted: "strict_weak_order lt \<Longrightarrow> sorted_wrt (\<lambda>x y. \<not> lt y x) (BR_Sort lt xs) \<and> mset (BR_Sort lt xs) = mset xs"
  unfolding BR_Sort_def mset_qsort unfolding qsort_def by (induction xs) (auto simp: qsort_insert_sorted)

section \<open>Properties\<close>

text \<open>C9: for \<open>2 \<le> k \<le> n\<close>, \<open>FindTopKth\<close> (quick-select in place) terminates without leaving the array,
  returns the \<open>k\<close>-th smallest element, and only rearranges the array.\<close>

theorem FindTopKth_selects:
  fixes xs :: "'a::linorder list"
  assumes "2 \<le> k" "k \<le> length xs"
  shows "\<exists>ys. FindTopKth (<) xs k = Some (sort xs ! (k - 1), ys) \<and> mset ys = mset xs"
proof -
  obtain a where a: "FindTopKth (<) xs k = Some (a ! (k - 1), a)" "mset a = mset xs"
    "splits (<) (k - 1) a" "splits (<) k a"
    using arith.FindTopKth_splits [OF assms] by blast
  have "a ! (k - 1) = sort a ! (k - 1)"
    by (rule splits_nth_sort) (use a(3,4) assms mset_eq_length [OF a(2)] in auto)
  also have "sort a = sort xs" using a(2) by (metis mset_sort properties_for_sort sorted_sort)
  finally show ?thesis using a by auto
qed

theorem FindTopKth_selects_witness:
  "\<exists>ys. FindTopKth (<) [5, 1, 4, 1 :: nat] 3 = Some (sort [5, 1, 4, 1] ! (3 - 1), ys) \<and> mset ys = mset [5, 1, 4, 1]"
  by (rule FindTopKth_selects) simp_all

text \<open>with \<open>k = 1\<close> on a one-element array the scan bound \<^verbatim>\<open>r - 1\<close> wraps around to the largest
  \<^verbatim>\<open>SIZE_T\<close>, and \<open>FindTopKth\<close> reads past the end of the array instead of returning its element.\<close>

theorem FindTopKth_single_out_of_bounds: "FindTopKth lt [x] 1 = None"
proof -
  have "kth_partition lt [x] 0 0 = None"
    using partition_loop_out_of_bounds [of "[x]" "2 ^ 64 - 1" 0 lt x 0] by (simp add: kth_partition_def)
  then show ?thesis by (simp add: FindTopKth_def kth.simps [of lt "[x]"])
qed

text \<open>pushing into a full sorted view drops its last element: the result is sorted, holds the new
  element at the returned position after every element that is not greater, and differs from
  the old contents by exactly the new element and the dropped one. A larger element than the
  last is refused with -1.\<close>

theorem BR_SortedPush_sorted:
  fixes xs :: "'a::linorder list"
  assumes "sorted xs" "xs \<noteq> []" "BR_SortedPush (<) xs x = (r, ys)"
  shows "if last xs < x then r = - 1 \<and> ys = xs
    else 0 \<le> r \<and> sorted ys \<and> nat r < length ys \<and> ys ! nat r = x \<and>
      ys = takeWhile (\<lambda>y. y \<le> x) (butlast xs) @ x # dropWhile (\<lambda>y. y \<le> x) (butlast xs)"
proof (cases "last xs < x")
  case True
  then show ?thesis using assms by (auto simp: BR_SortedPush_def last_conv_nth)
next
  case False
  obtain zs q where z: "SortedPush_loop (<) x xs (length xs - 1) = (zs, q)" by fastforce
  then have r: "r = int q" "ys = zs[q := x]"
    using assms False by (auto simp: BR_SortedPush_def last_conv_nth)
  note sp = SortedPush_loop_spec [OF z]
  have b: "butlast xs = take (length xs - 1) xs" by (simp add: butlast_conv_take)
  have q: "q \<le> length xs - 1" and ys: "ys = take q (butlast xs) @ x # drop q (butlast xs)"
    and hi: "\<forall>i. q \<le> i \<and> i < length xs - 1 \<longrightarrow> x < xs ! i" and lo: "0 < q \<longrightarrow> \<not> x < xs ! (q - 1)"
    using sp r assms(2) by (auto simp: b min_def)
  have sb: "sorted (butlast xs)" using assms(1) by (simp add: sorted_butlast)
  have low: "butlast xs ! i \<le> x" if "i < q" for i
  proof -
    have "xs ! i \<le> xs ! (q - 1)" using assms(1) that q by (intro sorted_nth_mono) auto
    then show ?thesis using lo that q by (auto simp: nth_butlast not_less)
  qed
  have "takeWhile (\<lambda>y. y \<le> x) (butlast xs) = take q (butlast xs)"
    by (rule takeWhile_eq_take_P_nth) (use low hi q in \<open>auto simp: nth_butlast not_le\<close>)
  moreover from this have "dropWhile (\<lambda>y. y \<le> x) (butlast xs) = drop q (butlast xs)"
    using q by (simp add: dropWhile_eq_drop min_def)
  moreover have "sorted ys"
  proof -
    have "y \<le> x" if "y \<in> set (take q (butlast xs))" for y using in_set_take_nth [OF that] low by auto
    moreover have "x \<le> y" if "y \<in> set (drop q (butlast xs))" for y
      using in_set_drop_nth [OF that] hi by (auto simp: nth_butlast less_imp_le)
    ultimately show ?thesis unfolding ys
      using sb by (auto simp: sorted_append sorted_wrt_take sorted_wrt_drop intro: order_trans)
  qed
  ultimately show ?thesis using ys r q False by (auto simp: nth_append min_def)
qed

theorem BR_SortedPush_sorted_witness:
  "BR_SortedPush (<) [1, 4, 6 :: nat] 5 = (2, [1, 4, 5]) \<and> sorted [1, 4, 5 :: nat]"
proof -
  have "BR_SortedPush (<) [1, 4, 6 :: nat] 5 = (2, [1, 4, 5])" by (simp add: BR_SortedPush_def numeral_eq_Suc)
  with BR_SortedPush_sorted [OF _ _ this] show ?thesis by simp
qed

text \<open>\<open>Max\<close> and \<open>Min\<close> of a non-empty view return the first position of a greatest and of a least
  element, and \<open>MaxValue\<close> and \<open>MinValue\<close> the element there.\<close>

theorem BR_Max_Min_first:
  assumes "strict_weak_order lt" "xs \<noteq> []"
  shows "(\<exists>m. BR_Max lt xs = int m \<and> BR_MaxValue lt xs = Some (xs ! m) \<and> first_max lt xs (length xs) m) \<and>
    (\<exists>m. BR_Min lt xs = int m \<and> BR_MinValue lt xs = Some (xs ! m) \<and> first_max (\<lambda>x y. lt y x) xs (length xs) m)"
  unfolding Min_Max
  using strict_weak_order.Max_spec [OF assms(1) assms(2)]
    strict_weak_order.Max_spec [OF strict_weak_order.dual [OF assms(1)] assms(2)] by blast

theorem BR_Max_Min_first_witness:
  "\<exists>m. BR_Max (<) [3, 7, 7 :: nat] = int m \<and> BR_MaxValue (<) [3, 7, 7] = Some ([3, 7, 7 :: nat] ! m) \<and>
     first_max (<) [3, 7, 7 :: nat] (length [3, 7, 7 :: nat]) m"
  by (rule BR_Max_Min_first [OF arith.strict_weak_order_axioms, THEN conjunct1]) simp

text \<open>\<open>Shuffle\<close> only rearranges the view, for every seed.\<close>

theorem BR_Shuffle_permutes: "mset (BR_Shuffle seed xs) = mset xs"
  by (simp add: BR_Shuffle_def mset_Shuffle_loop)

text \<open>the two comparison operators of views decide equality of their contents, \<open>SearchItem\<close>
  and \<open>Find\<close> return the first position of an element, or -1 exactly when it does not occur.\<close>

theorem BR_compare_search:
  "BR_eq xs ys = (xs = ys) \<and> BR_ne xs ys = (xs \<noteq> ys) \<and> BR_Find xs x = BR_SearchItem xs x \<and>
   BR_SearchItem xs x = (if x \<in> set xs then int (length (takeWhile (\<lambda>y. y \<noteq> x) xs)) else - 1)"
  by (auto simp: BR_eq_def BR_ne_def BR_eq_loop_iff BR_ne_loop_iff BR_Find_def BR_SearchItem_def SearchItem_from_eq)

end
