(* ===== verification/Buffers.thy ===== *)
theory Buffers
  imports BufferRef "HOL-Library.Monad_Syntax"
begin

text \<open>
  The owning buffers of \<^verbatim>\<open>core/rt/buffer_type.h\<close>: \<^verbatim>\<open>rt::Buffer\<close> (exact size) and \<^verbatim>\<open>rt::BufferEx\<close> (reserved
  space, a dynamic array). The allocation behind \<^verbatim>\<open>_p\<close> is a list of cells; a cell is \<open>Some x\<close> while it
  holds the object \<open>x\<close> and \<open>None\<close> while it holds raw memory (never constructed, or destroyed). A null
  pointer is the empty allocation. An access outside the allocation makes an operation \<open>None\<close>.

  The allocator is a parameter of the operations that allocate: \<open>alloc n\<close> tells whether a request
  for \<open>n\<close> elements succeeds during that call. \<^verbatim>\<open>VERIFY\<close> only logs in the code, so a failed allocation does
  not stop the operation that checks it with \<^verbatim>\<open>VERIFY\<close>. Element counts are natural numbers: a byte
  size that would overflow \<^verbatim>\<open>SIZE_T\<close> cannot be allocated. An argument passed by reference is taken by
  value, so it must not alias the buffer.
\<close>

section \<open>Definitions\<close>

subsection \<open>Construction of elements\<close>

text \<open>Whether \<^verbatim>\<open>t_Val\<close> is plain data (its constructor and destructor do nothing) or a class with a
  default-constructed value.\<close>

(*@ core/rt/buffer_type.h 44-58 rt::_details::_xtor *)
datatype 'a xtor = POD | NonPOD 'a

(*@ core/rt/buffer_type.h 46-54 rt::_details::_xtor::ctor *)
fun xt_ctor :: "'a xtor \<Rightarrow> 'a option \<Rightarrow> 'a option" where
  "xt_ctor POD c = c"
| "xt_ctor (NonPOD d) c = Some d"

(*@ core/rt/buffer_type.h 49-57 rt::_details::_xtor::dtor *)
fun xt_dtor :: "'a xtor \<Rightarrow> 'a option \<Rightarrow> 'a option" where
  "xt_dtor POD c = c"
| "xt_dtor (NonPOD d) c = None"

(*@ core/rt/buffer_type.h 62-70 rt::Buffer_Ref *)
record 'a Buffer =
  cells :: "'a option list"
  len :: nat

(*@ core/rt/buffer_type.h 394-419 rt::BufferEx *)
record 'a BufferEx = "'a Buffer" +
  len_reserved :: nat

text \<open>The elements a buffer shows.\<close>

definition view :: "('a, 'z) Buffer_scheme \<Rightarrow> 'a option list" where
  "view b = take (len b) (cells b)"

text \<open>One cell, a range of cells, \<^verbatim>\<open>memmove\<close> inside the allocation and \<^verbatim>\<open>memcpy\<close> into a fresh one.\<close>

definition set_cell :: "nat \<Rightarrow> 'a option \<Rightarrow> ('a, 'z) Buffer_scheme \<Rightarrow> ('a, 'z) Buffer_scheme option" where
  "set_cell i c b = (if i < length (cells b) then Some (b\<lparr> cells := (cells b)[i := c] \<rparr>) else None)"

definition map_cells :: "('a option \<Rightarrow> 'a option) \<Rightarrow> nat \<Rightarrow> nat \<Rightarrow> ('a, 'z) Buffer_scheme \<Rightarrow> ('a, 'z) Buffer_scheme option" where
  "map_cells f i j b =
    (if j \<le> length (cells b) \<or> j \<le> i then Some (b\<lparr> cells := write_at i (map f (take (j - i) (drop i (cells b)))) (cells b) \<rparr>)
     else None)"

definition write_cells :: "nat \<Rightarrow> 'a option list \<Rightarrow> ('a, 'z) Buffer_scheme \<Rightarrow> ('a, 'z) Buffer_scheme option" where
  "write_cells i cs b =
    (if i + length cs \<le> length (cells b) \<or> cs = [] then Some (b\<lparr> cells := write_at i cs (cells b) \<rparr>) else None)"

definition move_cells :: "nat \<Rightarrow> nat \<Rightarrow> nat \<Rightarrow> ('a, 'z) Buffer_scheme \<Rightarrow> ('a, 'z) Buffer_scheme option" where
  "move_cells dst src n b =
    (if n = 0 then Some b
     else if dst + n \<le> length (cells b) \<and> src + n \<le> length (cells b)
     then Some (b\<lparr> cells := write_at dst (take n (drop src (cells b))) (cells b) \<rparr>) else None)"

definition realloc_cells :: "nat \<Rightarrow> nat \<Rightarrow> 'a option list \<Rightarrow> 'a option list option" where
  "realloc_cells n keep cs =
    (if keep \<le> length cs \<and> keep \<le> n then Some (write_at 0 (take keep cs) (replicate n None)) else None)"

subsection \<open>Buffer\<close>

(*@ core/rt/buffer_type.h 310-310 rt::Buffer::Buffer *)
definition Buffer_new :: "'a Buffer" where
  "Buffer_new = \<lparr> cells = [], len = 0 \<rparr>"

text \<open>\<^verbatim>\<open>__SafeFree\<close> destroys and frees, but leaves \<^verbatim>\<open>_len\<close> to the caller.\<close>

(*@ core/rt/buffer_type.h 298-302 rt::Buffer::__SafeFree *)
definition SafeFree :: "('a, 'z) Buffer_scheme \<Rightarrow> ('a, 'z) Buffer_scheme" where
  "SafeFree b = b\<lparr> cells := [] \<rparr>"

(*@ core/rt/buffer_type.h 315-327 rt::Buffer::operator= *)
definition Buffer_assign :: "(nat \<Rightarrow> bool) \<Rightarrow> 'a xtor \<Rightarrow> 'a list \<Rightarrow> ('a, 'z) Buffer_scheme \<Rightarrow> ('a, 'z) Buffer_scheme option" where
  "Buffer_assign alloc t x b =
    do { b \<leftarrow> map_cells (xt_dtor t) 0 (len b) b;
         let b = (if len b \<ge> length x then b\<lparr> len := length x \<rparr>
                  else b\<lparr> cells := if alloc (length x) then replicate (length x) None else [], len := length x \<rparr>);
         write_cells 0 (map Some x) b }"

(*@ core/rt/buffer_type.h 329-349 rt::Buffer::SetSize *)
definition Buffer_SetSize :: "(nat \<Rightarrow> bool) \<Rightarrow> 'a xtor \<Rightarrow> nat \<Rightarrow> ('a, 'z) Buffer_scheme \<Rightarrow> bool \<times> ('a, 'z) Buffer_scheme" where
  "Buffer_SetSize alloc t co b =
    (if co = len b then (True, if co = 0 then SafeFree b else b)
     else let b = (SafeFree b)\<lparr> len := co \<rparr> in
       if co \<noteq> 0 then
         if alloc co then (True, b\<lparr> cells := map (xt_ctor t) (replicate co None) \<rparr>)
         else (False, b\<lparr> len := 0 \<rparr>)
       else (True, b))"

(*@ core/rt/buffer_type.h 367-375 rt::Buffer::ShrinkSize *)
definition ShrinkSize :: "'a xtor \<Rightarrow> nat \<Rightarrow> ('a, 'z) Buffer_scheme \<Rightarrow> ('a, 'z) Buffer_scheme option" where
  "ShrinkSize t new_size b =
    (if new_size = len b then Some b
     else if new_size < len b then
       do { b \<leftarrow> map_cells (xt_dtor t) new_size (len b) b; Some (b\<lparr> len := new_size \<rparr>) }
     else Some b)"

(*@ core/rt/buffer_type.h 350-366 rt::Buffer::ChangeSize *)
definition Buffer_ChangeSize :: "(nat \<Rightarrow> bool) \<Rightarrow> 'a xtor \<Rightarrow> nat \<Rightarrow> ('a, 'z) Buffer_scheme \<Rightarrow> (bool \<times> ('a, 'z) Buffer_scheme) option" where
  "Buffer_ChangeSize alloc t new_size b =
    (if new_size \<le> len b then map_option (Pair True) (ShrinkSize t new_size b)
     else if alloc new_size then
       do { cs \<leftarrow> realloc_cells new_size (len b) (cells b);
            b \<leftarrow> map_cells (xt_ctor t) (len b) new_size (b\<lparr> cells := cs \<rparr>);
            Some (True, b\<lparr> len := new_size \<rparr>) }
     else Some (False, b))"

(*@ core/rt/buffer_type.h 376-376 rt::Buffer::Detach *)
definition Detach :: "('a, 'z) Buffer_scheme \<Rightarrow> 'a option list \<times> ('a, 'z) Buffer_scheme" where
  "Detach b = (cells b, b\<lparr> cells := [], len := 0 \<rparr>)"

(*@ core/rt/buffer_type.h 378-386 rt::Buffer::Remove *)
fun Remove_loop :: "'a xtor \<Rightarrow> 'a \<Rightarrow> nat \<Rightarrow> nat \<Rightarrow> nat \<Rightarrow> 'a option list \<Rightarrow> 'a option list \<times> nat" where
  "Remove_loop t v 0 i opn cs = (cs, opn)"
| "Remove_loop t v (Suc n) i opn cs =
    (if cs ! i \<noteq> Some v
     then Remove_loop t v n (i + 1) (opn + 1)
            (if i \<noteq> opn then cs[opn := cs ! i] else cs)
     else Remove_loop t v n (i + 1) opn cs)"

(*@ core/rt/buffer_type.h 377-390 rt::Buffer::Remove *)
definition Buffer_Remove :: "'a xtor \<Rightarrow> 'a \<Rightarrow> ('a, 'z) Buffer_scheme \<Rightarrow> nat \<times> ('a, 'z) Buffer_scheme" where
  "Buffer_Remove t v b =
    (let (cs, opn) = Remove_loop t v (len b) 0 0 (cells b) in (len b - opn, b\<lparr> cells := cs, len := opn \<rparr>))"

subsection \<open>BufferEx\<close>

(*@ core/rt/buffer_type.h 435-435 rt::BufferEx::BufferEx *)
definition BufferEx_new :: "'a BufferEx" where
  "BufferEx_new = \<lparr> cells = [], len = 0, len_reserved = 0 \<rparr>"

(*@ core/rt/buffer_type.h 398-416 rt::BufferEx::_add_entry *)
definition add_entry :: "(nat \<Rightarrow> bool) \<Rightarrow> nat \<Rightarrow> 'a BufferEx \<Rightarrow> (bool \<times> 'a BufferEx) option" where
  "add_entry alloc co b =
    (if len b + co \<le> len_reserved b then Some (True, b\<lparr> len := len b + co \<rparr>)
     else
       let n = max (max 4 (len b + co)) (len_reserved b * 2);
           n = (if alloc n then n else len b + co)
       in if alloc n then
            do { cs \<leftarrow> realloc_cells n (len b) (cells b);
                 Some (True, b\<lparr> cells := cs, len_reserved := n, len := len b + co \<rparr>) }
          else Some (False, b))"

(*@ core/rt/buffer_type.h 421-434 rt::BufferEx::operator= *)
definition BufferEx_assign :: "(nat \<Rightarrow> bool) \<Rightarrow> 'a xtor \<Rightarrow> 'a list \<Rightarrow> 'a BufferEx \<Rightarrow> 'a BufferEx option" where
  "BufferEx_assign alloc t x b =
    do { b \<leftarrow> ShrinkSize t 0 b;
         let b = b\<lparr> len := length x \<rparr>;
         let b = (if len b \<le> len_reserved b then b
                  else b\<lparr> cells := if alloc (len b) then replicate (len b) None else [], len_reserved := len b \<rparr>);
         write_cells 0 (map Some x) b }"

(*@ core/rt/buffer_type.h 436-439 rt::BufferEx::SetSize *)
definition BufferEx_SetSize :: "(nat \<Rightarrow> bool) \<Rightarrow> 'a xtor \<Rightarrow> nat \<Rightarrow> 'a BufferEx \<Rightarrow> bool \<times> 'a BufferEx" where
  "BufferEx_SetSize alloc t co b =
    (let (ok, b) = Buffer_SetSize alloc t co b in
     if ok then (True, b\<lparr> len_reserved := len b \<rparr>) else (False, b\<lparr> len_reserved := 0 \<rparr>))"

(*@ core/rt/buffer_type.h 441-441 rt::BufferEx::Clear *)
definition BufferEx_Clear :: "'a xtor \<Rightarrow> 'a BufferEx \<Rightarrow> bool \<times> 'a BufferEx" where
  "BufferEx_Clear t b = BufferEx_SetSize (\<lambda>_. False) t 0 b"

text \<open>Both failing allocations leave the enlarged \<^verbatim>\<open>_len_reserved\<close> behind.\<close>

(*@ core/rt/buffer_type.h 442-465 rt::BufferEx::ChangeSize *)
definition BufferEx_ChangeSize ::
  "(nat \<Rightarrow> bool) \<Rightarrow> 'a xtor \<Rightarrow> nat \<Rightarrow> bool \<Rightarrow> 'a BufferEx \<Rightarrow> (bool \<times> 'a BufferEx) option" where
  "BufferEx_ChangeSize alloc t new_size keep_old_data b =
    (if new_size = len b then Some (True, b)
     else if new_size < len b then map_option (Pair True) (ShrinkSize t new_size b)
     else
       let finish = (\<lambda>b. do { b \<leftarrow> map_cells (xt_ctor t) (len b) new_size b; Some (True, b\<lparr> len := new_size \<rparr>) })
       in if new_size \<le> len_reserved b then finish b
          else let n = max new_size (len_reserved b * 2); n = (if alloc n then n else new_size);
                   b = b\<lparr> len_reserved := n \<rparr>
            in if alloc n then
                 do { cs \<leftarrow> realloc_cells n (if keep_old_data then len b else 0) (cells b);
                      finish (b\<lparr> cells := cs \<rparr>) }
               else Some (False, b))"

(*@ core/rt/buffer_type.h 473-479 rt::BufferEx::push_front(const T&) *)
definition push_front :: "(nat \<Rightarrow> bool) \<Rightarrow> 'a \<Rightarrow> 'a BufferEx \<Rightarrow> 'a BufferEx option" where
  "push_front alloc x b =
    do { (_, b) \<leftarrow> add_entry alloc 1 b;
         if len b = 0 then None
         else do { b \<leftarrow> move_cells 1 0 (len b - 1) b; set_cell 0 (Some x) b } }"

(*@ core/rt/buffer_type.h 467-472 rt::BufferEx::push_front() *)
definition push_front_default :: "(nat \<Rightarrow> bool) \<Rightarrow> 'a xtor \<Rightarrow> 'a BufferEx \<Rightarrow> 'a BufferEx option" where
  "push_front_default alloc t b =
    do { (_, b) \<leftarrow> add_entry alloc 1 b;
         if len b = 0 then None
         else do { b \<leftarrow> move_cells 1 0 (len b - 1) b; map_cells (xt_ctor t) 0 1 b } }"

(*@ core/rt/buffer_type.h 480-487 rt::BufferEx::push_front(ptr,SIZE_T) *)
definition push_front_array :: "(nat \<Rightarrow> bool) \<Rightarrow> 'a list \<Rightarrow> 'a BufferEx \<Rightarrow> 'a BufferEx option" where
  "push_front_array alloc xs b =
    (if length xs = 0 then Some b
     else let sz = len b in
       do { (_, b) \<leftarrow> add_entry alloc (length xs) b;
            b \<leftarrow> move_cells (length xs) 0 sz b;
            write_cells 0 (map Some xs) b })"

(*@ core/rt/buffer_type.h 488-495 rt::BufferEx::push_front(const T&,SIZE_T) *)
definition push_front_n :: "(nat \<Rightarrow> bool) \<Rightarrow> 'a \<Rightarrow> nat \<Rightarrow> 'a BufferEx \<Rightarrow> 'a BufferEx option" where
  "push_front_n alloc x cnt b = push_front_array alloc (replicate cnt x) b"

(*@ core/rt/buffer_type.h 496-504 rt::BufferEx::push_both *)
definition push_both :: "(nat \<Rightarrow> bool) \<Rightarrow> 'a xtor \<Rightarrow> 'a \<Rightarrow> nat \<Rightarrow> nat \<Rightarrow> 'a BufferEx \<Rightarrow> 'a BufferEx option" where
  "push_both alloc t x front_count back_count b =
    (if front_count + back_count = 0 then Some b
     else let sz = len b in
       do { (_, b) \<leftarrow> BufferEx_ChangeSize alloc t (sz + front_count + back_count) True b;
            b \<leftarrow> move_cells front_count 0 sz b;
            b \<leftarrow> write_cells 0 (replicate front_count (Some x)) b;
            write_cells (sz + front_count) (replicate (len b - (sz + front_count)) (Some x)) b })"

(*@ core/rt/buffer_type.h 510-514 rt::BufferEx::push_back(const t_Val&) *)
definition push_back :: "(nat \<Rightarrow> bool) \<Rightarrow> 'a \<Rightarrow> 'a BufferEx \<Rightarrow> 'a BufferEx option" where
  "push_back alloc x b =
    do { (_, b) \<leftarrow> add_entry alloc 1 b;
         if len b = 0 then None else set_cell (len b - 1) (Some x) b }"

(*@ core/rt/buffer_type.h 505-509 rt::BufferEx::push_back() *)
definition push_back_default :: "(nat \<Rightarrow> bool) \<Rightarrow> 'a xtor \<Rightarrow> 'a BufferEx \<Rightarrow> 'a BufferEx option" where
  "push_back_default alloc t b =
    do { (_, b) \<leftarrow> add_entry alloc 1 b;
         if len b = 0 then None else map_cells (xt_ctor t) (len b - 1) (len b) b }"

(*@ core/rt/buffer_type.h 515-521 rt::BufferEx::push_back(ptr,SIZE_T) *)
definition push_back_array :: "(nat \<Rightarrow> bool) \<Rightarrow> 'a list \<Rightarrow> 'a BufferEx \<Rightarrow> 'a BufferEx option" where
  "push_back_array alloc xs b =
    (let sz = len b in
     do { (_, b) \<leftarrow> add_entry alloc (length xs) b;
          write_cells sz (map Some (take (len b - sz) xs)) b })"

(*@ core/rt/buffer_type.h 522-528 rt::BufferEx::push_back(const T&,SIZE_T) *)
definition push_back_n_copies :: "(nat \<Rightarrow> bool) \<Rightarrow> 'a \<Rightarrow> nat \<Rightarrow> 'a BufferEx \<Rightarrow> 'a BufferEx option" where
  "push_back_n_copies alloc x cnt b = push_back_array alloc (replicate cnt x) b"

(*@ core/rt/buffer_type.h 529-533 rt::BufferEx::push_back_n *)
definition push_back_n :: "(nat \<Rightarrow> bool) \<Rightarrow> 'a xtor \<Rightarrow> nat \<Rightarrow> 'a BufferEx \<Rightarrow> (nat option \<times> 'a BufferEx) option" where
  "push_back_n alloc t cnt b =
    (let sz = len b in
     do { (ok, b) \<leftarrow> BufferEx_ChangeSize alloc t (sz + cnt) True b; Some (if ok then Some sz else None, b) })"

(*@ core/rt/buffer_type.h 542-548 rt::BufferEx::erase(SIZE_T) *)
definition erase :: "'a xtor \<Rightarrow> nat \<Rightarrow> 'a BufferEx \<Rightarrow> 'a BufferEx option" where
  "erase t index b =
    (if len b \<le> index then None
     else do { b \<leftarrow> map_cells (xt_dtor t) index (index + 1) b;
               let b = b\<lparr> len := len b - 1 \<rparr>;
               move_cells index (index + 1) (len b - index) b })"

text \<open>The range overload erases its end index, too; the pointer overload passes its arguments on,
  although its comment says that the end is kept.\<close>

(*@ core/rt/buffer_type.h 549-557 rt::BufferEx::erase(SIZE_T,SIZE_T) *)
definition erase_range :: "'a xtor \<Rightarrow> nat \<Rightarrow> nat \<Rightarrow> 'a BufferEx \<Rightarrow> 'a BufferEx option" where
  "erase_range t index_begin index_end b =
    (if len b \<le> index_end \<or> index_end < index_begin then None
     else let index_end = index_end + 1 in
       do { b \<leftarrow> map_cells (xt_dtor t) index_begin index_end b;
            b \<leftarrow> move_cells index_begin index_end (len b - index_end) b;
            Some (b\<lparr> len := len b - (index_end - index_begin) \<rparr>) })"

(*@ core/rt/buffer_type.h 539-541 rt::BufferEx::erase(ptr,ptr) *)
definition erase_ptrs :: "'a xtor \<Rightarrow> nat \<Rightarrow> nat \<Rightarrow> 'a BufferEx \<Rightarrow> 'a BufferEx option" where
  "erase_ptrs t begin_p end_p b = erase_range t begin_p end_p b"

(*@ core/rt/buffer_type.h 558-561 rt::BufferEx::pop_back *)
definition pop_back :: "'a xtor \<Rightarrow> 'a BufferEx \<Rightarrow> 'a BufferEx option" where
  "pop_back t b =
    (if len b = 0 then None
     else let b = b\<lparr> len := len b - 1 \<rparr> in map_cells (xt_dtor t) (len b) (len b + 1) b)"

(*@ core/rt/buffer_type.h 562-566 rt::BufferEx::pop_front *)
definition pop_front :: "'a xtor \<Rightarrow> 'a BufferEx \<Rightarrow> 'a BufferEx option" where
  "pop_front t b =
    (if len b = 0 then None
     else let b = b\<lparr> len := len b - 1 \<rparr> in
       do { b \<leftarrow> map_cells (xt_dtor t) 0 1 b; move_cells 0 1 (len b) b })"

(*@ core/rt/buffer_type.h 567-577 rt::BufferEx::compact_memory *)
definition compact_memory :: "(nat \<Rightarrow> bool) \<Rightarrow> 'a BufferEx \<Rightarrow> 'a BufferEx option" where
  "compact_memory alloc b =
    (if len b < len_reserved b then
       if alloc (len b) then
         do { cs \<leftarrow> realloc_cells (len b) (len b) (cells b); Some (b\<lparr> cells := cs, len_reserved := len b \<rparr>) }
       else Some b
     else Some b)"

(*@ core/rt/buffer_type.h 578-590 rt::BufferEx::reserve *)
definition reserve :: "(nat \<Rightarrow> bool) \<Rightarrow> nat \<Rightarrow> 'a BufferEx \<Rightarrow> (bool \<times> 'a BufferEx) option" where
  "reserve alloc co b =
    (if co > len_reserved b then
       if alloc co then
         do { cs \<leftarrow> realloc_cells co (len b) (cells b); Some (True, b\<lparr> cells := cs, len_reserved := co \<rparr>) }
       else Some (False, b)
     else Some (True, b))"

(*@ core/rt/buffer_type.h 597-604 rt::BufferEx::insert(SIZE_T) *)
definition insert_default :: "(nat \<Rightarrow> bool) \<Rightarrow> 'a xtor \<Rightarrow> nat \<Rightarrow> 'a BufferEx \<Rightarrow> 'a BufferEx option" where
  "insert_default alloc t index b =
    do { (_, b) \<leftarrow> add_entry alloc 1 b;
         if len b = 0 then None
         else if index < len b - 1 then
           do { b \<leftarrow> move_cells (index + 1) index (len b - index - 1) b; map_cells (xt_ctor t) index (index + 1) b }
         else Some b }"

(*@ core/rt/buffer_type.h 605-614 rt::BufferEx::insert(SIZE_T,SIZE_T) *)
definition insert_n :: "(nat \<Rightarrow> bool) \<Rightarrow> 'a xtor \<Rightarrow> nat \<Rightarrow> nat \<Rightarrow> 'a BufferEx \<Rightarrow> (bool \<times> 'a BufferEx) option" where
  "insert_n alloc t index cnt b =
    do { (ok, b) \<leftarrow> reserve alloc (len b + cnt) b;
         if ok then
           do { b \<leftarrow> move_cells (index + cnt) index (len b - index) b;
                b \<leftarrow> map_cells (xt_ctor t) index (index + cnt) b;
                Some (True, b\<lparr> len := len b + cnt \<rparr>) }
         else Some (False, b) }"

(*@ core/rt/buffer_type.h 615-624 rt::BufferEx::insert(SIZE_T,SIZE_T,const t_Val&) *)
definition insert_copies :: "(nat \<Rightarrow> bool) \<Rightarrow> nat \<Rightarrow> nat \<Rightarrow> 'a \<Rightarrow> 'a BufferEx \<Rightarrow> (bool \<times> 'a BufferEx) option" where
  "insert_copies alloc index cnt x b =
    do { (ok, b) \<leftarrow> reserve alloc (len b + cnt) b;
         if ok then
           do { b \<leftarrow> move_cells (index + cnt) index (len b - index) b;
                b \<leftarrow> write_cells index (replicate cnt (Some x)) b;
                Some (True, b\<lparr> len := len b + cnt \<rparr>) }
         else Some (False, b) }"

text \<open>The scan of \<^verbatim>\<open>SortedPush\<close> has no lower bound of its own; running below the first element is
  \<open>None\<close>, and so is reading a cell without an object.\<close>

(*@ core/rt/buffer_type.h 634-639 rt::BufferEx::SortedPush *)
fun BufferEx_SortedPush_loop :: "('a \<Rightarrow> 'a \<Rightarrow> bool) \<Rightarrow> 'a \<Rightarrow> 'a option list \<Rightarrow> nat \<Rightarrow> ('a option list \<times> nat) option" where
  "BufferEx_SortedPush_loop lt x cs 0 = None"
| "BufferEx_SortedPush_loop lt x cs (Suc p) =
    (case cs ! p of
       None \<Rightarrow> None
     | Some y \<Rightarrow> if lt x y then BufferEx_SortedPush_loop lt x (cs[p + 1 := cs ! p]) p else Some (cs, Suc p))"

(*@ core/rt/buffer_type.h 625-642 rt::BufferEx::SortedPush *)
definition BufferEx_SortedPush ::
  "(nat \<Rightarrow> bool) \<Rightarrow> ('a \<Rightarrow> 'a \<Rightarrow> bool) \<Rightarrow> 'a \<Rightarrow> 'a BufferEx \<Rightarrow> (int \<times> 'a BufferEx) option" where
  "BufferEx_SortedPush alloc lt x b =
    (if len b = 0 \<or> (\<exists>y \<in> set_option (cells b ! 0). lt x y)
     then map_option (Pair 0) (push_front alloc x b)
     else do { (ok, b) \<leftarrow> (if len_reserved b = len b then reserve alloc (len b * 2 + 1) b else Some (True, b));
               if \<not> ok then Some (- 1, b)
               else let b = b\<lparr> len := len b + 1 \<rparr> in
                 do { (cs, q) \<leftarrow> BufferEx_SortedPush_loop lt x (cells b) (len b - 1);
                      b \<leftarrow> set_cell q (Some x) (b\<lparr> cells := cs \<rparr>);
                      Some (int q, b) } })"

(*@ core/rt/buffer_type.h 643-646 rt::BufferEx::Include *)
definition Include :: "(nat \<Rightarrow> bool) \<Rightarrow> 'a \<Rightarrow> 'a BufferEx \<Rightarrow> (bool \<times> 'a BufferEx) option" where
  "Include alloc x b =
    (if BR_Find (view b) (Some x) = - 1 then map_option (Pair True) (push_back alloc x b)
     else Some (False, b))"

section \<open>The operations on the shown elements\<close>

text \<open>The invariant of \<^verbatim>\<open>BufferEx\<close>: the shown elements fit the reserved space, and the reserved space is
  really allocated.\<close>

definition BufferEx_inv :: "'a BufferEx \<Rightarrow> bool" where
  "BufferEx_inv b \<longleftrightarrow> len b \<le> len_reserved b \<and> len_reserved b \<le> length (cells b)"

lemma view_length [simp]: "BufferEx_inv b \<Longrightarrow> length (view b) = len b"
  by (simp add: BufferEx_inv_def view_def)

lemma view_update: "view (b\<lparr> cells := cs, len := n \<rparr>) = take n cs"
  by (simp add: view_def)

lemma take_write_at_0: "k \<le> length xs \<Longrightarrow> take k (write_at 0 xs ys) = take k xs"
  by (simp add: write_at_def)

lemma realloc_cells_Some:
  "k \<le> length cs \<Longrightarrow> k \<le> n \<Longrightarrow> \<exists>cs'. realloc_cells n k cs = Some cs' \<and> length cs' = n \<and> take k cs' = take k cs"
  by (auto simp: realloc_cells_def take_write_at_0)

lemma add_entry_cases:
  assumes "BufferEx_inv b"
  shows "(\<exists>b'. add_entry alloc co b = Some (True, b') \<and> BufferEx_inv b' \<and> len b' = len b + co \<and>
            take (len b) (cells b') = view b \<and> (len b + co \<le> len_reserved b \<longrightarrow> cells b' = cells b)) \<or>
    (add_entry alloc co b = Some (False, b) \<and> len_reserved b < len b + co \<and> \<not> alloc (len b + co))"
proof (cases "len b + co \<le> len_reserved b")
  case True
  then show ?thesis using assms by (simp add: add_entry_def BufferEx_inv_def view_def)
next
  case False
  define m where "m = max (max 4 (len b + co)) (len_reserved b * 2)"
  define n where "n = (if alloc m then m else len b + co)"
  have n: "len b + co \<le> n" by (auto simp: n_def m_def)
  have e: "add_entry alloc co b = (if alloc n then do { cs \<leftarrow> realloc_cells n (len b) (cells b);
      Some (True, b\<lparr> cells := cs, len_reserved := n, len := len b + co \<rparr>) } else Some (False, b))"
    using False by (simp only: add_entry_def Let_def m_def n_def if_False)
  show ?thesis
  proof (cases "alloc n")
    case True
    then show ?thesis using e n False realloc_cells_Some [of "len b" "cells b" n] assms
      by (auto simp: BufferEx_inv_def view_def)
  next
    case False
    then show ?thesis using e \<open>\<not> len b + co \<le> len_reserved b\<close> by (auto simp: n_def split: if_splits)
  qed
qed

lemma add_entry_ok:
  assumes "BufferEx_inv b" "alloc (len b + co)"
  obtains b' where "add_entry alloc co b = Some (True, b')" "BufferEx_inv b'" "len b' = len b + co"
    "take (len b) (cells b') = view b"
  using add_entry_cases [OF assms(1), of alloc co] assms(2) by blast

lemma push_back_spec:
  assumes "BufferEx_inv b" "alloc (len b + 1)"
  shows "\<exists>b'. push_back alloc x b = Some b' \<and> BufferEx_inv b' \<and> view b' = view b @ [Some x]"
proof -
  obtain c where c: "add_entry alloc 1 b = Some (True, c)" "BufferEx_inv c" "len c = len b + 1"
    "take (len b) (cells c) = view b"
    by (rule add_entry_ok [where alloc = alloc and co = 1, OF assms])
  then show ?thesis
    by (auto simp: push_back_def set_cell_def BufferEx_inv_def view_def take_Suc_update)
qed

lemma push_back_array_spec:
  assumes "BufferEx_inv b" "alloc (len b + length xs)"
  shows "\<exists>b'. push_back_array alloc xs b = Some b' \<and> BufferEx_inv b' \<and> view b' = view b @ map Some xs"
proof -
  obtain c where c: "add_entry alloc (length xs) b = Some (True, c)" "BufferEx_inv c" "len c = len b + length xs"
    "take (len b) (cells c) = view b"
    by (rule add_entry_ok [where alloc = alloc and co = "length xs", OF assms])
  then show ?thesis
    using take_write_at [of "len b" "map Some xs" "cells c"]
    by (auto simp: push_back_array_def write_cells_def BufferEx_inv_def view_def)
qed

lemma push_front_spec:
  assumes "BufferEx_inv b" "alloc (len b + 1)"
  shows "\<exists>b'. push_front alloc x b = Some b' \<and> BufferEx_inv b' \<and> view b' = Some x # view b"
proof -
  obtain c where c: "add_entry alloc 1 b = Some (True, c)" "BufferEx_inv c" "len c = len b + 1"
    "take (len b) (cells c) = view b"
    by (rule add_entry_ok [where alloc = alloc and co = 1, OF assms])
  show ?thesis
  proof (cases "len b = 0")
    case True
    then show ?thesis using c
      by (auto simp: push_front_def move_cells_def set_cell_def BufferEx_inv_def view_def take_Suc_update)
  next
    case False
    have "take (Suc (len b)) ((write_at (Suc 0) (take (len b) (cells c)) (cells c))[0 := Some x]) = Some x # take (len b) (cells c)"
      using c(2,3) by (cases "cells c") (auto simp: write_at_def BufferEx_inv_def)
    then show ?thesis using c False
      by (auto simp: push_front_def move_cells_def set_cell_def BufferEx_inv_def view_def)
  qed
qed

lemma move_cells_Some:
  "dst + n \<le> length (cells b) \<Longrightarrow> src + n \<le> length (cells b) \<Longrightarrow>
   move_cells dst src n b = Some (b\<lparr> cells := write_at dst (take n (drop src (cells b))) (cells b) \<rparr>)"
  by (simp add: move_cells_def)

lemma map_cells_1: "i < length (cells b) \<Longrightarrow> map_cells f i (i + 1) b = Some (b\<lparr> cells := (cells b)[i := f (cells b ! i)] \<rparr>)"
  by (simp add: map_cells_def write_at_def upd_conv_take_nth_drop take_Suc_conv_app_nth hd_drop_conv_nth take_Suc)

lemma pop_back_spec:
  assumes "BufferEx_inv b" "view b \<noteq> []"
  shows "\<exists>b'. pop_back t b = Some b' \<and> BufferEx_inv b' \<and> view b' = butlast (view b)"
proof -
  have l: "0 < len b" "len b \<le> length (cells b)" using assms by (auto simp: BufferEx_inv_def view_def)
  then have "pop_back t b = Some (b\<lparr> len := len b - 1, cells := (cells b)[len b - 1 := xt_dtor t (cells b ! (len b - 1))] \<rparr>)"
    using map_cells_1 [of "len b - 1" "b\<lparr> len := len b - 1 \<rparr>" "xt_dtor t"] by (simp add: pop_back_def Let_def)
  then show ?thesis using assms l by (auto simp: BufferEx_inv_def view_def butlast_take)
qed

lemma shift_left:
  assumes "i \<le> j" "j \<le> n" "n \<le> length cs" "w = write_at i (take (n - j) (drop j cs)) cs"
  shows "length w = length cs" "take (n - (j - i)) w = take i cs @ drop j (take n cs)"
proof -
  have l: "length (take (n - j) (drop j cs)) = n - j" using assms by simp
  then show "length w = length cs" unfolding assms(4) using assms by (intro length_write_at) simp
  have "take (i + length (take (n - j) (drop j cs))) w = take i cs @ take (n - j) (drop j cs)"
    unfolding assms(4) using assms l by (intro take_write_at) simp
  moreover have "i + length (take (n - j) (drop j cs)) = n - (j - i)" using assms l by simp
  ultimately show "take (n - (j - i)) w = take i cs @ drop j (take n cs)" by (simp only: drop_take)
qed

lemma shift_right:
  assumes "p \<le> n" "n + k \<le> length cs" "length ys = k" "w = write_at (p + k) (take (n - p) (drop p cs)) cs"
  shows "length w = length cs" "take (n + k) (write_at p ys w) = take p cs @ ys @ drop p (take n cs)"
    "length (write_at p ys w) = length cs"
proof -
  have l: "length (take (n - p) (drop p cs)) = n - p" using assms by simp
  show lw: "length w = length cs" unfolding assms(4) using assms l by (intro length_write_at) simp
  then show "length (write_at p ys w) = length cs" using assms by (subst length_write_at) auto
  have w: "w = take (p + k) cs @ take (n - p) (drop p cs) @ drop (n + k) cs"
    using assms l by (simp add: write_at_def add.commute)
  have "write_at p ys w = take p cs @ ys @ take (n - p) (drop p cs) @ drop (n + k) cs"
    unfolding w write_at_def using assms by simp
  moreover have "length (take p cs @ ys @ take (n - p) (drop p cs)) = n + k" using assms by simp
  ultimately have "take (n + k) (write_at p ys w) = take p cs @ ys @ take (n - p) (drop p cs)"
    by (metis append.assoc append_eq_conv_conj)
  then show "take (n + k) (write_at p ys w) = take p cs @ ys @ drop p (take n cs)"
    by (simp only: drop_take)
qed

lemma erase_range_spec:
  assumes "BufferEx_inv b" "i \<le> j" "j < len b"
  shows "\<exists>b'. erase_range t i j b = Some b' \<and> BufferEx_inv b' \<and> view b' = take i (view b) @ drop (j + 1) (view b)"
proof -
  have l: "len b \<le> length (cells b)" using assms by (auto simp: BufferEx_inv_def)
  define cs where "cs = write_at i (map (xt_dtor t) (take (Suc j - i) (drop i (cells b)))) (cells b)"
  have lc: "length cs = length (cells b)" using assms l by (simp add: cs_def)
  have d: "drop (Suc j) cs = drop (Suc j) (cells b)" "take i cs = take i (cells b)"
    using assms l by (simp_all add: cs_def write_at_def)
  define w where "w = write_at i (take (len b - Suc j) (drop (Suc j) cs)) cs"
  note s = shift_left [of i "Suc j" "len b" cs w]
  have "erase_range t i j b = do { b \<leftarrow> move_cells i (j + 1) (len b - (j + 1)) (b\<lparr> cells := cs \<rparr>);
      Some (b\<lparr> len := len b - (j + 1 - i) \<rparr>) }"
    using assms l by (simp add: erase_range_def map_cells_def cs_def Let_def)
  also have "\<dots> = Some (b\<lparr> cells := w, len := len b - (Suc j - i) \<rparr>)"
    by (subst move_cells_Some) (use assms l lc in \<open>auto simp: w_def\<close>)
  finally show ?thesis using s assms l lc d
    by (auto simp: BufferEx_inv_def view_def w_def drop_take)
qed

lemma erase_spec:
  assumes "BufferEx_inv b" "i < len b"
  shows "\<exists>b'. erase t i b = Some b' \<and> BufferEx_inv b' \<and> view b' = take i (view b) @ drop (i + 1) (view b)"
proof -
  have "erase t i b = erase_range t i i b"
    using assms by (cases b) (auto simp: erase_def erase_range_def map_cells_def move_cells_def BufferEx_inv_def Let_def split: if_splits)
  then show ?thesis using erase_range_spec [of b i i t] assms by simp
qed

lemma pop_front_spec:
  assumes "BufferEx_inv b" "view b \<noteq> []"
  shows "\<exists>b'. pop_front t b = Some b' \<and> BufferEx_inv b' \<and> view b' = tl (view b)"
proof -
  have l: "0 < len b" "cells b \<noteq> []" using assms by (auto simp: view_def)
  have "pop_front t b = erase t 0 b"
    using l assms(1) map_cells_1 [of 0 b "xt_dtor t"] map_cells_1 [of 0 "b\<lparr> len := len b - 1 \<rparr>" "xt_dtor t"]
    by (cases b) (auto simp: pop_front_def erase_def BufferEx_inv_def Let_def)
  then show ?thesis using erase_spec [OF assms(1) l(1), of t] by (simp add: drop_Suc)
qed

lemma reserve_cases:
  assumes "BufferEx_inv b"
  shows "(\<exists>b'. reserve alloc co b = Some (True, b') \<and> BufferEx_inv b' \<and> view b' = view b \<and> len b' = len b \<and>
      co \<le> len_reserved b' \<and> len_reserved b \<le> len_reserved b') \<or>
    reserve alloc co b = Some (False, b) \<and> len_reserved b < co \<and> \<not> alloc co"
proof (cases "len_reserved b < co \<and> alloc co")
  case True
  then obtain cs where "realloc_cells co (len b) (cells b) = Some cs" "length cs = co" "take (len b) cs = take (len b) (cells b)"
    using realloc_cells_Some [of "len b" "cells b" co] assms by (auto simp: BufferEx_inv_def)
  then show ?thesis using True assms by (simp add: reserve_def BufferEx_inv_def view_def)
next
  case False
  then show ?thesis using assms by (auto simp: reserve_def)
qed

lemma insert_copies_spec:
  assumes "BufferEx_inv b" "i \<le> len b" "alloc (len b + n)"
  shows "\<exists>b'. insert_copies alloc i n x b = Some (True, b') \<and> BufferEx_inv b' \<and>
    view b' = take i (view b) @ replicate n (Some x) @ drop i (view b)"
proof -
  obtain c where c: "reserve alloc (len b + n) b = Some (True, c)" "BufferEx_inv c" "view c = view b" "len c = len b"
    "len b + n \<le> len_reserved c"
    using reserve_cases [OF assms(1), of alloc "len b + n"] assms(3) by auto
  define w where "w = write_at (i + n) (take (len b - i) (drop i (cells c))) (cells c)"
  have l: "len b + n \<le> length (cells c)" using c by (simp add: BufferEx_inv_def)
  note s = shift_right [OF assms(2) l, of "replicate n (Some x)" w, OF _ w_def]
  have "move_cells (i + n) i (len b - i) c = Some (c\<lparr> cells := w \<rparr>)"
    by (subst move_cells_Some) (use assms l in \<open>auto simp: w_def\<close>)
  moreover have "write_cells i (replicate n (Some x)) (c\<lparr> cells := w \<rparr>) = Some (c\<lparr> cells := write_at i (replicate n (Some x)) w \<rparr>)"
    using s(1) l assms(2) by (simp add: write_cells_def)
  ultimately have "insert_copies alloc i n x b = Some (True, c\<lparr> cells := write_at i (replicate n (Some x)) w, len := len b + n \<rparr>)"
    using c by (simp add: insert_copies_def)
  moreover have "take i (cells c) = take i (view b)" 
    unfolding c(3) [symmetric] using assms(2) c(4) by (simp add: view_def min_def)
  moreover have "take (len b) (cells c) = view b" unfolding c(3) [symmetric] using c(4) by (simp add: view_def)
  ultimately show ?thesis using s c(2,4,5) by (simp add: BufferEx_inv_def view_update)
qed

lemma ShrinkSize_spec:
  assumes "BufferEx_inv b" "n \<le> len b"
  shows "\<exists>b'. ShrinkSize t n b = Some b' \<and> BufferEx_inv b' \<and> view b' = take n (view b) \<and> len b' = n \<and>
    len_reserved b' = len_reserved b"
proof (cases "n = len b")
  case True
  then show ?thesis using assms by (simp add: ShrinkSize_def view_def)
next
  case False
  have l: "len b \<le> length (cells b)" using assms by (simp add: BufferEx_inv_def)
  define w where "w = write_at n (map (xt_dtor t) (take (len b - n) (drop n (cells b)))) (cells b)"
  have "length w = length (cells b)" "take n w = take n (cells b)"
    using assms(2) l by (simp_all add: w_def write_at_def)
  moreover have "ShrinkSize t n b = Some (b\<lparr> cells := w, len := n \<rparr>)"
    using False assms(2) l by (simp add: ShrinkSize_def map_cells_def w_def)
  ultimately show ?thesis using assms by (auto simp: BufferEx_inv_def view_def min_def)
qed

lemma ChangeSize_finish:
  assumes "len b \<le> n" "n \<le> length (cells b)"
  shows "\<exists>cs. map_cells (xt_ctor t) (len b) n b = Some (b\<lparr> cells := cs \<rparr>) \<and> length cs = length (cells b) \<and>
    take (len b) cs = take (len b) (cells b) \<and>
    (\<forall>d. t = NonPOD d \<longrightarrow> take n cs = take (len b) (cells b) @ replicate (n - len b) (Some d))"
proof -
  let ?ys = "map (xt_ctor t) (take (n - len b) (drop (len b) (cells b)))"
  have l: "length ?ys = n - len b" using assms by simp
  have "?ys = replicate (n - len b) (Some d)" if "t = NonPOD d" for d
    using l by (intro replicate_eqI) (auto simp: that)
  moreover have "take n (write_at (len b) ?ys (cells b)) = take (len b) (cells b) @ ?ys"
    using take_write_at [of "len b" ?ys "cells b"] assms l by simp
  ultimately show ?thesis using assms by (auto simp: map_cells_def write_at_def)
qed

lemma ChangeSize_spec:
  assumes "BufferEx_inv b" "alloc n \<or> n \<le> len_reserved b"
  shows "\<exists>b'. BufferEx_ChangeSize alloc t n True b = Some (True, b') \<and> BufferEx_inv b' \<and> len b' = n \<and>
    take (len b) (view b') = take n (view b) \<and>
    (\<forall>d. t = NonPOD d \<longrightarrow> view b' = take n (view b) @ replicate (n - len b) (Some d))"
proof -
  consider "n = len b" | "n < len b" | "len b < n" "n \<le> len_reserved b" | "len b < n" "len_reserved b < n" by linarith
  then show ?thesis
  proof cases
    case 1
    then show ?thesis using assms by (simp add: BufferEx_ChangeSize_def view_def)
  next
    case 2
    then show ?thesis using ShrinkSize_spec [OF assms(1), of n t] by (auto simp: BufferEx_ChangeSize_def)
  next
    case 3
    have "n \<le> length (cells b)" using assms(1) 3 by (simp add: BufferEx_inv_def)
    then obtain cs where "map_cells (xt_ctor t) (len b) n b = Some (b\<lparr> cells := cs \<rparr>)" "length cs = length (cells b)"
      "take (len b) cs = take (len b) (cells b)"
      "\<forall>d. t = NonPOD d \<longrightarrow> take n cs = take (len b) (cells b) @ replicate (n - len b) (Some d)"
      using ChangeSize_finish [of b n t] 3 by auto
    then show ?thesis using 3 assms by (simp add: BufferEx_ChangeSize_def BufferEx_inv_def view_def min_def)
  next
    case 4
    define m where "m = max n (len_reserved b * 2)"
    define k where "k = (if alloc m then m else n)"
    have k: "n \<le> k" "alloc k" using assms(2) 4 by (auto simp: k_def m_def)
    obtain cs where cs: "realloc_cells k (len b) (cells b) = Some cs" "length cs = k" "take (len b) cs = take (len b) (cells b)"
      using realloc_cells_Some [of "len b" "cells b" k] assms(1) k 4 by (auto simp: BufferEx_inv_def)
    obtain ds where ds: "map_cells (xt_ctor t) (len b) n (b\<lparr> len_reserved := k, cells := cs \<rparr>) = Some (b\<lparr> len_reserved := k, cells := ds \<rparr>)"
      "length ds = k" "take (len b) ds = take (len b) (cells b)"
      "\<forall>d. t = NonPOD d \<longrightarrow> take n ds = take (len b) (cells b) @ replicate (n - len b) (Some d)"
      using ChangeSize_finish [of "b\<lparr> len_reserved := k, cells := cs \<rparr>" n t] 4 cs k by auto
    have "BufferEx_ChangeSize alloc t n True b = Some (True, b\<lparr> len_reserved := k, cells := ds, len := n \<rparr>)"
      using 4 k cs ds by (simp add: BufferEx_ChangeSize_def Let_def flip: m_def k_def)
    then show ?thesis using ds 4 k by (simp add: BufferEx_inv_def view_def min_def)
  qed
qed

lemma ChangeSize_failed:
  assumes "len_reserved b < n" "len b < n" "\<not> alloc n" "\<not> alloc (max n (len_reserved b * 2))"
  shows "BufferEx_ChangeSize alloc t n keep b = Some (False, b\<lparr> len_reserved := n \<rparr>)"
  using assms by (simp add: BufferEx_ChangeSize_def Let_def)

lemma BufferEx_SortedPush_loop_spec:
  "\<lbrakk>p < length cs; 0 < p; \<forall>i<p. cs ! i \<noteq> None; \<not> lt x (the (cs ! 0))\<rbrakk> \<Longrightarrow>
   \<exists>ds q. BufferEx_SortedPush_loop lt x cs p = Some (ds, q) \<and> 0 < q \<and> q \<le> p \<and> length ds = length cs \<and>
     ds[q := Some x] = take q cs @ Some x # drop q (take p cs) @ drop (p + 1) cs \<and>
     (\<forall>i. q \<le> i \<and> i < p \<longrightarrow> lt x (the (cs ! i))) \<and> \<not> lt x (the (cs ! (q - 1)))"
proof (induction lt x cs p rule: BufferEx_SortedPush_loop.induct)
  case (1 lt x cs)
  then show ?case by simp
next
  case (2 lt x cs p)
  obtain y where y: "cs ! p = Some y" using "2.prems"(3) by auto
  show ?case
  proof (cases "lt x y")
    case True
    then have p: "0 < p" using "2.prems"(4) y by (cases p) auto
    let ?cs = "cs[p + 1 := cs ! p]"
    obtain ds q where ih: "BufferEx_SortedPush_loop lt x ?cs p = Some (ds, q)" "0 < q" "q \<le> p" "length ds = length ?cs"
      "ds[q := Some x] = take q ?cs @ Some x # drop q (take p ?cs) @ drop (p + 1) ?cs"
      "\<forall>i. q \<le> i \<and> i < p \<longrightarrow> lt x (the (?cs ! i))" "\<not> lt x (the (?cs ! (q - 1)))"
      using "2.IH" [OF y True] "2.prems" p by auto
    have "drop (p + 1) ?cs = cs ! p # drop (p + 2) cs"
      using "2.prems"(1) by (simp add: Cons_nth_drop_Suc [symmetric])
    moreover have "drop q (take (Suc p) cs) = drop q (take p cs) @ [cs ! p]"
      using ih(3) "2.prems"(1) by (simp add: take_Suc_conv_app_nth)
    ultimately have e: "ds[q := Some x] = take q cs @ Some x # drop q (take (Suc p) cs) @ drop (Suc p + 1) cs"
      using ih(3,5) by simp
    have hi: "\<forall>i. q \<le> i \<and> i < Suc p \<longrightarrow> lt x (the (cs ! i))" and lo: "\<not> lt x (the (cs ! (q - 1)))"
      using ih(2,3,6,7) True y by (auto simp: less_Suc_eq)
    have "BufferEx_SortedPush_loop lt x cs (Suc p) = Some (ds, q)" using True y ih(1) by simp
    then show ?thesis using e hi lo ih(2,3,4) by auto
  next
    case False
    then show ?thesis using "2.prems" y by (auto simp: upd_conv_take_nth_drop)
  qed
qed

lemma split_at_upper:
  fixes xs :: "'a::linorder list"
  assumes "sorted xs" "q \<le> length xs" "\<forall>i. q \<le> i \<and> i < length xs \<longrightarrow> x < xs ! i" "0 < q \<longrightarrow> \<not> x < xs ! (q - 1)"
  shows "takeWhile (\<lambda>y. y \<le> x) xs = take q xs" "dropWhile (\<lambda>y. y \<le> x) xs = drop q xs"
proof -
  have low: "xs ! i \<le> x" if "i < q" for i
  proof -
    have "xs ! i \<le> xs ! (q - 1)" using assms(1,2) that by (intro sorted_nth_mono) auto
    then show ?thesis using assms(4) that by auto
  qed
  show t: "takeWhile (\<lambda>y. y \<le> x) xs = take q xs"
    by (rule takeWhile_eq_take_P_nth) (use low assms(2,3) in \<open>auto simp: not_le\<close>)
  show "dropWhile (\<lambda>y. y \<le> x) xs = drop q xs" using assms(2) by (simp add: dropWhile_eq_drop t min_def)
qed

lemma BufferEx_SortedPush_spec:
  fixes xs :: "'a::linorder list"
  assumes inv: "BufferEx_inv b" and xs: "view b = map Some xs" "sorted xs" and al: "\<And>n. alloc n"
  shows "\<exists>b'. BufferEx_SortedPush alloc (<) x b = Some (int (length (takeWhile (\<lambda>y. y \<le> x) xs)), b') \<and> BufferEx_inv b' \<and>
    view b' = map Some (takeWhile (\<lambda>y. y \<le> x) xs @ x # dropWhile (\<lambda>y. y \<le> x) xs)"
proof -
  have n: "len b = length xs" using view_length [OF inv] xs(1) by simp
  have cell: "cells b ! i = Some (xs ! i)" if "i < length xs" for i
  proof -
    have "view b ! i = cells b ! i" using that n by (simp add: view_def)
    then show ?thesis using that xs(1) by simp
  qed
  show ?thesis
  proof (cases "xs = [] \<or> x < xs ! 0")
    case True
    then have "takeWhile (\<lambda>y. y \<le> x) xs = []" "dropWhile (\<lambda>y. y \<le> x) xs = xs" by (cases xs; auto)+
    moreover have "BufferEx_SortedPush alloc (<) x b = map_option (Pair 0) (push_front alloc x b)"
      using True n cell [of 0] by (auto simp: BufferEx_SortedPush_def)
    ultimately show ?thesis using push_front_spec [OF inv al, where x = x] xs(1) by auto
  next
    case False
    define r where "r = (if len_reserved b = len b then reserve alloc (len b * 2 + 1) b else Some (True, b))"
    have "\<exists>c. r = Some (True, c) \<and> BufferEx_inv c \<and> view c = view b \<and> len c = len b \<and> len b < len_reserved c"
      using reserve_cases [OF inv, of alloc "len b * 2 + 1"] al inv by (auto simp: r_def BufferEx_inv_def)
    then obtain c where c: "r = Some (True, c)" "BufferEx_inv c" "view c = view b" "len c = len b" "len b < len_reserved c"
      by blast
    then have lc: "len b < length (cells c)" by (simp add: BufferEx_inv_def)
    have ccell: "cells c ! i = Some (xs ! i)" if "i < length xs" for i
      using that c(3,4) n xs(1) by (metis nth_map nth_take view_def)
    obtain ds q where d: "BufferEx_SortedPush_loop (<) x (cells c) (length xs) = Some (ds, q)" "0 < q" "q \<le> length xs"
      "length ds = length (cells c)"
      "ds[q := Some x] = take q (cells c) @ Some x # drop q (take (length xs) (cells c)) @ drop (length xs + 1) (cells c)"
      "\<forall>i. q \<le> i \<and> i < length xs \<longrightarrow> x < the (cells c ! i)" "\<not> x < the (cells c ! (q - 1))"
      using BufferEx_SortedPush_loop_spec [of "length xs" "cells c" "(<)" x] False lc n ccell by fastforce
    have tw: "takeWhile (\<lambda>y. y \<le> x) xs = take q xs" "dropWhile (\<lambda>y. y \<le> x) xs = drop q xs"
      by (rule split_at_upper [OF xs(2)]; use d ccell in auto)+
    have vc: "take (length xs) (cells c) = map Some xs" using c(3,4) n xs(1) by (simp add: view_def)
    then have "take q (cells c) = map Some (take q xs)"
      using d(3) by (metis min.absorb1 take_map take_take)
    then have v: "take (Suc (length xs)) (ds[q := Some x]) = map Some (take q xs @ x # drop q xs)"
      using d(3) by (simp add: d(5) vc drop_map Suc_diff_le)
    have "BufferEx_SortedPush alloc (<) x b = Some (int q, c\<lparr> len := Suc (length xs), cells := ds[q := Some x] \<rparr>)"
    proof -
      have cond: "\<not> (len b = 0 \<or> (\<exists>y\<in>set_option (cells b ! 0). x < y))" using False n cell [of 0] by auto
      show ?thesis
        unfolding BufferEx_SortedPush_def if_not_P [OF cond] r_def [symmetric]
        using c(1,4) d(1,3,4) lc n by (simp add: set_cell_def Let_def)
    qed
    then show ?thesis using v tw d(3,4) c n lc by (auto simp: BufferEx_inv_def view_def)
  qed
qed

lemma Remove_loop_POD:
  "\<lbrakk>opn \<le> i; i + n \<le> length cs\<rbrakk> \<Longrightarrow> Remove_loop POD v n i opn cs = (ds, m) \<Longrightarrow>
   length ds = length cs \<and> opn \<le> m \<and> m \<le> i + n \<and>
   take m ds = take opn cs @ filter (\<lambda>c. c \<noteq> Some v) (take n (drop i cs))"
proof (induction n arbitrary: i opn cs)
  case 0
  then show ?case by simp
next
  case (Suc n)
  have d: "take (Suc n) (drop i cs) = cs ! i # take n (drop (Suc i) cs)"
    using Suc.prems by (simp add: take_Suc_conv_app_nth Cons_nth_drop_Suc [symmetric])
  show ?case
  proof (cases "cs ! i = Some v")
    case True
    then show ?thesis using Suc.IH [of opn "Suc i" cs] Suc.prems d by simp
  next
    case False
    define es where "es = (if i \<noteq> opn then cs[opn := cs ! i] else cs)"
    have es: "length es = length cs" "take (Suc opn) es = take opn cs @ [cs ! i]" "drop (Suc i) es = drop (Suc i) cs"
      using Suc.prems by (auto simp: es_def take_Suc_update take_Suc_conv_app_nth)
    have "length ds = length es \<and> Suc opn \<le> m \<and> m \<le> Suc i + n \<and>
        take m ds = take (Suc opn) es @ filter (\<lambda>c. c \<noteq> Some v) (take n (drop (Suc i) es))"
      using Suc.IH [of "Suc opn" "Suc i" es] Suc.prems False es(1) by (simp add: es_def)
    then show ?thesis using es d False by simp
  qed
qed

section \<open>The dynamic array interface\<close>

text \<open>Running an operation for each element of a list, and a number of times.\<close>

fun for_all :: "('c \<Rightarrow> 'b \<Rightarrow> 'b option) \<Rightarrow> 'c list \<Rightarrow> 'b \<Rightarrow> 'b option" where
  "for_all f [] b = Some b"
| "for_all f (x # xs) b = Option.bind (f x b) (for_all f xs)"

fun times :: "nat \<Rightarrow> ('b \<Rightarrow> 'b option) \<Rightarrow> 'b \<Rightarrow> 'b option" where
  "times 0 f b = Some b"
| "times (Suc n) f b = Option.bind (f b) (times n f)"

text \<open>What users of a growable sequence rely on when allocation succeeds: each operation returns,
  keeps the invariant and acts on the shown elements as on a list.\<close>

locale dynamic_array =
  fixes inv :: "'b \<Rightarrow> bool" and seq :: "'b \<Rightarrow> 'c list"
    and add_last :: "'c \<Rightarrow> 'b \<Rightarrow> 'b option" and add_first :: "'c \<Rightarrow> 'b \<Rightarrow> 'b option"
    and del_last :: "'b \<Rightarrow> 'b option" and del_first :: "'b \<Rightarrow> 'b option"
  assumes add_last: "inv b \<Longrightarrow> \<exists>b'. add_last x b = Some b' \<and> inv b' \<and> seq b' = seq b @ [x]"
    and add_first: "inv b \<Longrightarrow> \<exists>b'. add_first x b = Some b' \<and> inv b' \<and> seq b' = x # seq b"
    and del_last: "inv b \<Longrightarrow> seq b \<noteq> [] \<Longrightarrow> \<exists>b'. del_last b = Some b' \<and> inv b' \<and> seq b' = butlast (seq b)"
    and del_first: "inv b \<Longrightarrow> seq b \<noteq> [] \<Longrightarrow> \<exists>b'. del_first b = Some b' \<and> inv b' \<and> seq b' = tl (seq b)"
begin

lemma for_all_add_last: "inv b \<Longrightarrow> \<exists>b'. for_all add_last xs b = Some b' \<and> inv b' \<and> seq b' = seq b @ xs"
proof (induction xs arbitrary: b)
  case (Cons x xs)
  obtain c where c: "add_last x b = Some c" "inv c" "seq c = seq b @ [x]" using add_last [OF Cons.prems] by blast
  then show ?case using Cons.IH [OF c(2)] by auto
qed simp

lemma for_all_add_first: "inv b \<Longrightarrow> \<exists>b'. for_all add_first xs b = Some b' \<and> inv b' \<and> seq b' = rev xs @ seq b"
proof (induction xs arbitrary: b)
  case (Cons x xs)
  obtain c where c: "add_first x b = Some c" "inv c" "seq c = x # seq b" using add_first [OF Cons.prems] by blast
  then show ?case using Cons.IH [OF c(2)] by auto
qed simp

lemma times_del_first:
  "inv b \<Longrightarrow> n \<le> length (seq b) \<Longrightarrow> \<exists>b'. times n del_first b = Some b' \<and> inv b' \<and> seq b' = drop n (seq b)"
proof (induction n arbitrary: b)
  case (Suc n)
  then obtain c where c: "del_first b = Some c" "inv c" "seq c = tl (seq b)"
    using del_first [OF Suc.prems(1)] by (cases "seq b") auto
  moreover have "n \<le> length (seq c)" using c(3) Suc.prems(2) by simp
  ultimately show ?case using Suc.IH [OF c(2)] by (auto simp: drop_Suc)
qed simp

lemma times_del_last:
  "inv b \<Longrightarrow> n \<le> length (seq b) \<Longrightarrow>
   \<exists>b'. times n del_last b = Some b' \<and> inv b' \<and> seq b' = take (length (seq b) - n) (seq b)"
proof (induction n arbitrary: b)
  case (Suc n)
  then obtain c where c: "del_last b = Some c" "inv c" "seq c = butlast (seq b)"
    using del_last [OF Suc.prems(1)] by (cases "seq b") auto
  moreover have "n \<le> length (seq c)" using c(3) Suc.prems(2) by simp
  ultimately show ?case using Suc.IH [OF c(2)] by (auto simp: butlast_conv_take min_def)
qed simp

text \<open>Used as a queue, the array hands out what was there and then what was added, in order.\<close>

lemma fifo:
  assumes "inv b"
  shows "\<exists>b'. Option.bind (for_all add_last xs b) (times (length (seq b)) del_first) = Some b' \<and> inv b' \<and> seq b' = xs"
proof -
  obtain c where c: "for_all add_last xs b = Some c" "inv c" "seq c = seq b @ xs"
    using for_all_add_last [OF assms] by blast
  then show ?thesis using times_del_first [OF c(2), of "length (seq b)"] by auto
qed

text \<open>Used as a stack from either end, it returns to what it was.\<close>

lemma lifo:
  assumes "inv b"
  shows "\<exists>b'. Option.bind (for_all add_last xs b) (times (length xs) del_last) = Some b' \<and> inv b' \<and> seq b' = seq b"
    and "\<exists>b'. Option.bind (for_all add_first xs b) (times (length xs) del_first) = Some b' \<and> inv b' \<and> seq b' = seq b"
proof -
  obtain c where c: "for_all add_last xs b = Some c" "inv c" "seq c = seq b @ xs"
    using for_all_add_last [OF assms] by blast
  then show "\<exists>b'. Option.bind (for_all add_last xs b) (times (length xs) del_last) = Some b' \<and> inv b' \<and> seq b' = seq b"
    using times_del_last [OF c(2), of "length xs"] by auto
  obtain d where d: "for_all add_first xs b = Some d" "inv d" "seq d = rev xs @ seq b"
    using for_all_add_first [OF assms] by blast
  then show "\<exists>b'. Option.bind (for_all add_first xs b) (times (length xs) del_first) = Some b' \<and> inv b' \<and> seq b' = seq b"
    using times_del_first [OF d(2), of "length xs"] by auto
qed

end

text \<open>A \<^verbatim>\<open>BufferEx\<close> all of whose shown cells hold objects, and those objects.\<close>

definition live :: "'a BufferEx \<Rightarrow> bool" where
  "live b \<longleftrightarrow> BufferEx_inv b \<and> None \<notin> set (view b)"

definition elems :: "'a BufferEx \<Rightarrow> 'a list" where
  "elems b = map the (view b)"

lemma live_iff: "live b \<longleftrightarrow> BufferEx_inv b \<and> view b = map Some (elems b)"
proof -
  have "None \<notin> set cs \<longleftrightarrow> cs = map Some (map the cs)" for cs :: "'a option list"
    by (induction cs) auto
  then show ?thesis unfolding live_def elems_def by blast
qed

lemma liveI: "BufferEx_inv b \<Longrightarrow> view b = map Some xs \<Longrightarrow> live b \<and> elems b = xs"
  by (auto simp: live_def elems_def o_def)

lemma live_len: "live b \<Longrightarrow> len b = length (elems b)"
  unfolding live_iff by (metis length_map view_length)

lemma live_push_back:
  assumes "live b" "alloc (len b + 1)"
  shows "\<exists>b'. push_back alloc x b = Some b' \<and> live b' \<and> elems b' = elems b @ [x]"
proof -
  obtain c where c: "push_back alloc x b = Some c" "BufferEx_inv c" "view c = view b @ [Some x]"
    using push_back_spec [where alloc = alloc and x = x, OF _ assms(2)] assms(1) by (auto simp: live_iff)
  moreover have "view c = map Some (elems b @ [x])" using c(3) assms(1) by (simp add: live_iff)
  ultimately show ?thesis using liveI by blast
qed

lemma live_push_front:
  assumes "live b" "alloc (len b + 1)"
  shows "\<exists>b'. push_front alloc x b = Some b' \<and> live b' \<and> elems b' = x # elems b"
proof -
  obtain c where c: "push_front alloc x b = Some c" "BufferEx_inv c" "view c = Some x # view b"
    using push_front_spec [where alloc = alloc and x = x, OF _ assms(2)] assms(1) by (auto simp: live_iff)
  moreover have "view c = map Some (x # elems b)" using c(3) assms(1) by (simp add: live_iff)
  ultimately show ?thesis using liveI by blast
qed

lemma live_pop_back:
  assumes "live b" "elems b \<noteq> []"
  shows "\<exists>b'. pop_back t b = Some b' \<and> live b' \<and> elems b' = butlast (elems b)"
proof -
  obtain c where c: "pop_back t b = Some c" "BufferEx_inv c" "view c = butlast (view b)"
    using pop_back_spec [of b t] assms by (auto simp: live_iff)
  moreover have "view c = map Some (butlast (elems b))" using c(3) assms(1) by (simp add: live_iff map_butlast)
  ultimately show ?thesis using liveI by blast
qed

lemma live_erase_range:
  assumes "live b" "i \<le> j" "j < length (elems b)"
  shows "\<exists>b'. erase_range t i j b = Some b' \<and> live b' \<and> elems b' = take i (elems b) @ drop (j + 1) (elems b)"
proof -
  obtain c where c: "erase_range t i j b = Some c" "BufferEx_inv c" "view c = take i (view b) @ drop (j + 1) (view b)"
    using erase_range_spec [of b i j t] assms live_len [OF assms(1)] by (auto simp: live_iff)
  moreover have "view c = map Some (take i (elems b) @ drop (j + 1) (elems b))"
    using c(3) assms(1) by (simp add: live_iff take_map drop_map)
  ultimately show ?thesis using liveI by blast
qed

lemma live_erase:
  assumes "live b" "i < length (elems b)"
  shows "\<exists>b'. erase t i b = Some b' \<and> live b' \<and> elems b' = take i (elems b) @ drop (i + 1) (elems b)"
proof -
  obtain c where c: "erase t i b = Some c" "BufferEx_inv c" "view c = take i (view b) @ drop (i + 1) (view b)"
    using erase_spec [of b i t] assms live_len [OF assms(1)] by (auto simp: live_iff)
  moreover have "view c = map Some (take i (elems b) @ drop (i + 1) (elems b))"
    using c(3) assms(1) by (simp add: live_iff take_map drop_map)
  ultimately show ?thesis using liveI by blast
qed

lemma live_pop_front:
  assumes "live b" "elems b \<noteq> []"
  shows "\<exists>b'. pop_front t b = Some b' \<and> live b' \<and> elems b' = tl (elems b)"
proof -
  obtain c where c: "pop_front t b = Some c" "BufferEx_inv c" "view c = tl (view b)"
    using pop_front_spec [of b t] assms by (auto simp: live_iff)
  moreover have "view c = map Some (tl (elems b))" using c(3) assms(1) by (simp add: live_iff map_tl)
  ultimately show ?thesis using liveI by blast
qed

lemma live_insert_copies:
  assumes "live b" "i \<le> length (elems b)" "alloc (len b + n)"
  shows "\<exists>b'. insert_copies alloc i n x b = Some (True, b') \<and> live b' \<and>
    elems b' = take i (elems b) @ replicate n x @ drop i (elems b)"
proof -
  obtain c where c: "insert_copies alloc i n x b = Some (True, c)" "BufferEx_inv c"
    "view c = take i (view b) @ replicate n (Some x) @ drop i (view b)"
    using insert_copies_spec [where alloc = alloc and x = x and i = i and n = n, OF _ _ assms(3)] assms(1,2) live_len [OF assms(1)]
    by (auto simp: live_iff)
  moreover have "view c = map Some (take i (elems b) @ replicate n x @ drop i (elems b))"
    using c(3) assms(1) by (simp add: live_iff take_map drop_map)
  ultimately show ?thesis using liveI by blast
qed

interpretation bufex: dynamic_array live elems "push_back (\<lambda>_. True)" "push_front (\<lambda>_. True)" "pop_back t" "pop_front t"
  for t :: "'a xtor"
  by unfold_locales (auto intro: live_push_back live_push_front live_pop_back live_pop_front)

text \<open>The operations that open a gap: the tail is moved up and the gap is filled.\<close>

lemma gap_fill:
  assumes "BufferEx_inv c" "i \<le> n" "n + length ys \<le> length (cells c)"
  shows "\<exists>cs. Option.bind (move_cells (i + length ys) i (n - i) c) (write_cells i ys) = Some (c\<lparr> cells := cs \<rparr>) \<and>
    length cs = length (cells c) \<and> take (n + length ys) cs = take i (cells c) @ ys @ drop i (take n (cells c))"
proof -
  define w where "w = write_at (i + length ys) (take (n - i) (drop i (cells c))) (cells c)"
  note s = shift_right [OF assms(2,3) refl w_def]
  have "move_cells (i + length ys) i (n - i) c = Some (c\<lparr> cells := w \<rparr>)"
    by (subst move_cells_Some) (use assms in \<open>auto simp: w_def\<close>)
  moreover have "write_cells i ys (c\<lparr> cells := w \<rparr>) = Some (c\<lparr> cells := write_at i ys w \<rparr>)"
    using s(1) assms by (simp add: write_cells_def)
  ultimately show ?thesis using s by (intro exI [of _ "write_at i ys w"]) simp
qed

lemma map_cells_NonPOD:
  assumes "i + k \<le> length (cells b)"
  shows "map_cells (xt_ctor (NonPOD d)) i (i + k) b = write_cells i (replicate k (Some d)) b"
proof -
  have "map (xt_ctor (NonPOD d)) (take k (drop i (cells b))) = replicate k (Some d)"
    using assms by (intro replicate_eqI) auto
  then show ?thesis using assms by (simp add: map_cells_def write_cells_def)
qed

lemma move_cells_ok:
  assumes "dst + n \<le> length (cells b)" "src + n \<le> length (cells b)"
  obtains e where "move_cells dst src n b = Some e" "length (cells e) = length (cells b)"
  using move_cells_Some [OF assms] assms by simp

lemma live_Some:
  "\<exists>b'. r = Some b' \<and> BufferEx_inv b' \<and> view b' = map Some xs \<Longrightarrow> \<exists>b'. r = Some b' \<and> live b' \<and> elems b' = xs"
  using liveI by blast

lemma live_push_front_array:
  assumes "live b" "alloc (len b + length xs)"
  shows "\<exists>b'. push_front_array alloc xs b = Some b' \<and> live b' \<and> elems b' = xs @ elems b"
proof (cases "xs = []")
  case False
  have b: "BufferEx_inv b" "view b = map Some (elems b)" using assms(1) by (auto simp: live_iff)
  obtain c where c: "add_entry alloc (length xs) b = Some (True, c)" "BufferEx_inv c" "len c = len b + length xs"
    "take (len b) (cells c) = view b"
    by (rule add_entry_ok [where alloc = alloc and co = "length xs", OF b(1) assms(2)])
  obtain cs where cs: "Option.bind (move_cells (0 + length xs) 0 (len b) c) (write_cells 0 (map Some xs)) = Some (c\<lparr> cells := cs \<rparr>)"
    "length cs = length (cells c)" "take (len b + length xs) cs = map Some xs @ view b"
    using gap_fill [OF c(2), of 0 "len b" "map Some xs"] c(2-4) by (auto simp: BufferEx_inv_def)
  have "push_front_array alloc xs b = Some (c\<lparr> cells := cs \<rparr>)"
    using False c(1) cs(1) by (simp add: push_front_array_def Let_def)
  then show ?thesis using c(2,3) cs(2,3) b(2) by (intro live_Some) (simp add: BufferEx_inv_def view_def)
qed (use assms in \<open>simp add: push_front_array_def\<close>)

lemma live_push_back_array:
  assumes "live b" "alloc (len b + length xs)"
  shows "\<exists>b'. push_back_array alloc xs b = Some b' \<and> live b' \<and> elems b' = elems b @ xs"
  using push_back_array_spec [where alloc = alloc and xs = xs, OF _ assms(2)] assms(1)
  by (intro live_Some) (auto simp: live_iff)

lemma live_push_both:
  assumes "live b" "alloc (len b + p + q)"
  shows "\<exists>b'. push_both alloc t x p q b = Some b' \<and> live b' \<and> elems b' = replicate p x @ elems b @ replicate q x"
proof (cases "p + q = 0")
  case False
  have b: "BufferEx_inv b" "view b = map Some (elems b)" using assms(1) by (auto simp: live_iff)
  obtain c where c: "BufferEx_ChangeSize alloc t (len b + p + q) True b = Some (True, c)" "BufferEx_inv c"
    "len c = len b + p + q" "take (len b) (view c) = view b"
    using ChangeSize_spec [OF b(1), of alloc "len b + p + q" t] assms(2) b(1) by (auto simp: BufferEx_inv_def view_def)
  then have v: "take (len b) (cells c) = view b" by (simp add: view_def min_def)
  obtain cs where cs: "Option.bind (move_cells (0 + p) 0 (len b) c) (write_cells 0 (replicate p (Some x))) = Some (c\<lparr> cells := cs \<rparr>)"
    "length cs = length (cells c)" "take (len b + p) cs = replicate p (Some x) @ view b"
    using gap_fill [OF c(2), of 0 "len b" "replicate p (Some x)"] c(2,3) v by (auto simp: BufferEx_inv_def)
  have l: "len b + p + q \<le> length cs" using c(2,3) cs(2) by (simp add: BufferEx_inv_def)
  define ds where "ds = write_at (len b + p) (replicate q (Some x)) cs"
  have ds: "length ds = length cs" "take (len b + p + q) ds = replicate p (Some x) @ view b @ replicate q (Some x)"
    using take_write_at [of "len b + p" "replicate q (Some x)" cs] l cs(3) by (simp_all add: ds_def)
  from cs(1) obtain e where "move_cells p 0 (len b) c = Some e" "write_cells 0 (replicate p (Some x)) e = Some (c\<lparr> cells := cs \<rparr>)"
    by (auto simp: bind_eq_Some_conv)
  then have "push_both alloc t x p q b = Some (c\<lparr> cells := ds \<rparr>)"
    using False c(1,3) l by (auto simp: push_both_def Let_def write_cells_def [of "len b + p"] ds_def)
  then show ?thesis using c(2,3) cs(2) ds b(2) by (intro live_Some) (simp add: BufferEx_inv_def view_def)
qed (use assms in \<open>simp add: push_both_def\<close>)

text \<open>For a class, the operations that construct by default put its default value.\<close>

lemma push_back_default_NonPOD:
  assumes "BufferEx_inv b" "alloc (len b + 1)"
  shows "push_back_default alloc (NonPOD d) b = push_back alloc d b"
proof -
  obtain c where c: "add_entry alloc 1 b = Some (True, c)" "BufferEx_inv c" "len c = len b + 1"
    by (rule add_entry_ok [where alloc = alloc and co = 1, OF assms])
  then show ?thesis using map_cells_1 [of "len b" c "xt_ctor (NonPOD d)"]
    by (simp add: push_back_default_def push_back_def set_cell_def BufferEx_inv_def)
qed

lemma push_front_default_NonPOD:
  assumes "BufferEx_inv b" "alloc (len b + 1)"
  shows "push_front_default alloc (NonPOD d) b = push_front alloc d b"
proof -
  obtain c where c: "add_entry alloc 1 b = Some (True, c)" "BufferEx_inv c" "len c = len b + 1"
    by (rule add_entry_ok [where alloc = alloc and co = 1, OF assms])
  obtain e where e: "move_cells 1 0 (len b) c = Some e" "length (cells e) = length (cells c)"
    by (rule move_cells_ok [of 1 "len b" c 0]) (use c in \<open>auto simp: BufferEx_inv_def\<close>)
  have "0 < length (cells e)" using c(2,3) e(2) by (auto simp: BufferEx_inv_def)
  then have "map_cells (xt_ctor (NonPOD d)) 0 1 e = set_cell 0 (Some d) e"
    using map_cells_1 [of 0 e "xt_ctor (NonPOD d)"] by (simp add: set_cell_def)
  then show ?thesis using c e(1) by (auto simp: push_front_default_def push_front_def)
qed

lemma insert_n_NonPOD:
  assumes "BufferEx_inv b" "alloc (len b + n)" "i \<le> len b"
  shows "insert_n alloc (NonPOD d) i n b = insert_copies alloc i n d b"
proof -
  obtain c where c: "reserve alloc (len b + n) b = Some (True, c)" "BufferEx_inv c" "len c = len b" "len b + n \<le> len_reserved c"
    using reserve_cases [OF assms(1), of alloc "len b + n"] assms(2) by auto
  moreover obtain e where "move_cells (i + n) i (len b - i) c = Some e" "length (cells e) = length (cells c)"
    by (rule move_cells_ok [of "i + n" "len b - i" c i]) (use c assms(3) in \<open>auto simp: BufferEx_inv_def\<close>)
  ultimately show ?thesis using assms(3)
    by (auto simp: insert_n_def insert_copies_def map_cells_NonPOD BufferEx_inv_def)
qed

lemma live_insert_default:
  assumes "live b" "alloc (len b + 1)" "i < length (elems b)"
  shows "\<exists>b'. insert_default alloc (NonPOD d) i b = Some b' \<and> live b' \<and> elems b' = take i (elems b) @ d # drop i (elems b)"
proof -
  have b: "BufferEx_inv b" "view b = map Some (elems b)" "len b = length (elems b)"
    using assms(1) live_len by (auto simp: live_iff)
  obtain c where c: "add_entry alloc 1 b = Some (True, c)" "BufferEx_inv c" "len c = len b + 1"
    "take (len b) (cells c) = view b"
    by (rule add_entry_ok [where alloc = alloc and co = 1, OF b(1) assms(2)])
  obtain cs where cs: "Option.bind (move_cells (i + 1) i (len b - i) c) (write_cells i [Some d]) = Some (c\<lparr> cells := cs \<rparr>)"
    "length cs = length (cells c)" "take (len b + 1) cs = take i (cells c) @ Some d # drop i (take (len b) (cells c))"
    using gap_fill [OF c(2), of i "len b" "[Some d]"] c(2,3) assms(3) b(3) by (auto simp: BufferEx_inv_def)
  obtain e where m: "move_cells (i + 1) i (len b - i) c = Some e" "length (cells e) = length (cells c)"
    by (rule move_cells_ok [of "i + 1" "len b - i" c i]) (use c assms(3) b(3) in \<open>auto simp: BufferEx_inv_def\<close>)
  then have "i + 1 \<le> length (cells e)" using c(2,3) assms(3) b(3) by (simp add: BufferEx_inv_def)
  have "insert_default alloc (NonPOD d) i b = Some (c\<lparr> cells := cs \<rparr>)"
    using c(1,3) cs(1) m \<open>i + 1 \<le> length (cells e)\<close> assms(3) b(3) by (auto simp: insert_default_def map_cells_NonPOD [of i 1, simplified])
  moreover have "take i (cells c) = take i (view b)" using c(4) assms(3) b(3) by (metis less_imp_le_nat min.absorb1 take_take)
  then have "take (len b + 1) cs = map Some (take i (elems b) @ d # drop i (elems b))"
    using cs(3) c(4) b(2) by (simp add: take_map drop_map)
  ultimately show ?thesis using c(2,3) cs(2)
    by (intro live_Some) (simp add: BufferEx_inv_def view_def)
qed

lemma live_ChangeSize:
  assumes "live b" "alloc n"
  shows "\<exists>b'. BufferEx_ChangeSize alloc (NonPOD d) n True b = Some (True, b') \<and> live b' \<and>
    elems b' = take n (elems b) @ replicate (n - length (elems b)) d"
proof -
  have b: "BufferEx_inv b" "view b = map Some (elems b)" "len b = length (elems b)"
    using assms(1) live_len by (auto simp: live_iff)
  obtain c where c: "BufferEx_ChangeSize alloc (NonPOD d) n True b = Some (True, c)" "BufferEx_inv c"
    "view c = take n (view b) @ replicate (n - len b) (Some d)"
    using ChangeSize_spec [OF b(1), of alloc n "NonPOD d"] assms(2) by auto
  then have "view c = map Some (take n (elems b) @ replicate (n - length (elems b)) d)"
    using b(2,3) by (simp add: take_map)
  then show ?thesis using c(1) liveI [OF c(2)] by blast
qed

lemma live_push_back_n:
  assumes "live b" "alloc (len b + n)"
  shows "\<exists>b'. push_back_n alloc (NonPOD d) n b = Some (Some (len b), b') \<and> live b' \<and> elems b' = elems b @ replicate n d"
  using live_ChangeSize [where alloc = alloc and d = d, OF assms] live_len [OF assms(1)] by (auto simp: push_back_n_def Let_def)

lemma BufferEx_assign_spec:
  assumes "BufferEx_inv b" "alloc (length xs)"
  shows "\<exists>b'. BufferEx_assign alloc t xs b = Some b' \<and> BufferEx_inv b' \<and> view b' = map Some xs"
proof -
  obtain c where c: "ShrinkSize t 0 b = Some c" "BufferEx_inv c" "len c = 0" "len_reserved c = len_reserved b"
    using ShrinkSize_spec [OF assms(1), of 0 t] by auto
  define d where "d = (if length xs \<le> len_reserved b then c\<lparr> len := length xs \<rparr>
    else c\<lparr> len := length xs, cells := replicate (length xs) None, len_reserved := length xs \<rparr>)"
  have d: "len d = length xs" "length xs \<le> len_reserved d" "len_reserved d \<le> length (cells d)"
    using c by (auto simp: d_def BufferEx_inv_def)
  have "BufferEx_assign alloc t xs b = Some (d\<lparr> cells := write_at 0 (map Some xs) (cells d) \<rparr>)"
    using c assms(2) d by (auto simp: BufferEx_assign_def write_cells_def d_def Let_def)
  then show ?thesis using d by (auto simp: BufferEx_inv_def view_def take_write_at_0)
qed

lemma Buffer_assign_spec:
  assumes "len b \<le> length (cells b)" "alloc (length xs)"
  shows "\<exists>b'. Buffer_assign alloc t xs b = Some b' \<and> len b' \<le> length (cells b') \<and> view b' = map Some xs"
proof -
  define c where "c = b\<lparr> cells := write_at 0 (map (xt_dtor t) (take (len b) (cells b))) (cells b) \<rparr>"
  have c: "map_cells (xt_dtor t) 0 (len b) b = Some c" "len c = len b" "length (cells c) = length (cells b)"
    using assms(1) by (simp_all add: map_cells_def c_def)
  define d where "d = (if len b \<ge> length xs then c\<lparr> len := length xs \<rparr>
    else c\<lparr> cells := replicate (length xs) None, len := length xs \<rparr>)"
  have d: "len d = length xs" "length xs \<le> length (cells d)" using c assms(1) by (auto simp: d_def)
  have "Buffer_assign alloc t xs b = Some (d\<lparr> cells := write_at 0 (map Some xs) (cells d) \<rparr>)"
    using c assms(2) d by (auto simp: Buffer_assign_def write_cells_def d_def Let_def)
  then show ?thesis using d by (auto simp: view_def take_write_at_0)
qed

section \<open>Properties\<close>

text \<open>\<open>insert(index)\<close> constructs its element only when it moves others up: at the end it lengthens the
  buffer and leaves raw memory as its last element, where \<open>push_back()\<close> constructs one.\<close>

theorem insert_default_end:
  assumes "live b" "alloc (max 4 (len b * 2))" "len_reserved b = len b"
  shows "\<exists>b'. insert_default alloc (NonPOD d) (len b) b = Some b' \<and> view b' = map Some (elems b) @ [None]"
proof -
  have b: "len b \<le> length (cells b)" "view b = map Some (elems b)" using assms(1) by (auto simp: live_iff BufferEx_inv_def)
  define n where "n = max (max 4 (len b + 1)) (len b * 2)"
  have n: "len b + 1 \<le> n" "n = max 4 (len b * 2)" by (auto simp: n_def)
  have "add_entry alloc 1 b = do { cs \<leftarrow> realloc_cells n (len b) (cells b);
      Some (True, b\<lparr> cells := cs, len_reserved := n, len := len b + 1 \<rparr>) }"
    unfolding add_entry_def Let_def assms(3) n_def [symmetric] using assms(2) n(2) by simp
  also have "\<dots> = Some (True, b\<lparr> cells := write_at 0 (take (len b) (cells b)) (replicate n None), len_reserved := n, len := len b + 1 \<rparr>)"
    using b(1) n(1) by (simp add: realloc_cells_def)
  finally have a: "add_entry alloc 1 b = \<dots>" .
  have "take (len b + 1) (write_at 0 (take (len b) (cells b)) (replicate n None)) = take (len b) (cells b) @ [None]"
    using b(1) n(1) by (simp add: write_at_def drop_replicate take_replicate)
  then show ?thesis using a b(2) by (simp add: insert_default_def view_def)
qed

text \<open>C2: when the allocation it may need succeeds, each of these operations on a \<open>BufferEx\<close> whose elements
  are all constructed returns without leaving its allocation, keeps that invariant, and edits the element
  sequence as its name says: \<open>push_back\<close>, \<open>push_front\<close>, the array and repeat-count forms of both and \<open>push_both\<close> on
  every buffer, \<open>pop_back\<close> and \<open>pop_front\<close> on a non-empty one, \<open>erase\<close> of an element or of a range of elements,
  \<open>insert\<close> of copies anywhere up to the end. For a class with default value \<open>d\<close> the operations without a value
  put \<open>d\<close>: \<open>push_back\<close>, \<open>push_front\<close>, \<open>push_back_n\<close>, \<open>ChangeSize\<close>, \<open>insert(index,count)\<close> up to the end, and \<open>insert(index)\<close>
  before an existing element only.\<close>

theorem BufferEx_edits_list:
  assumes "live b" "\<And>n. alloc n"
  shows "(\<exists>b'. push_back alloc x b = Some b' \<and> live b' \<and> elems b' = elems b @ [x]) \<and>
    (\<exists>b'. push_front alloc x b = Some b' \<and> live b' \<and> elems b' = x # elems b) \<and>
    (\<exists>b'. push_back_array alloc xs b = Some b' \<and> live b' \<and> elems b' = elems b @ xs) \<and>
    (\<exists>b'. push_front_array alloc xs b = Some b' \<and> live b' \<and> elems b' = xs @ elems b) \<and>
    (\<exists>b'. push_back_n_copies alloc x n b = Some b' \<and> live b' \<and> elems b' = elems b @ replicate n x) \<and>
    (\<exists>b'. push_front_n alloc x n b = Some b' \<and> live b' \<and> elems b' = replicate n x @ elems b) \<and>
    (\<exists>b'. push_both alloc t x m n b = Some b' \<and> live b' \<and> elems b' = replicate m x @ elems b @ replicate n x) \<and>
    (elems b \<noteq> [] \<longrightarrow>
      (\<exists>b'. pop_back t b = Some b' \<and> live b' \<and>
        elems b' = butlast (elems b))) \<and>
    (elems b \<noteq> [] \<longrightarrow>
      (\<exists>b'. pop_front t b = Some b' \<and> live b' \<and>
        elems b' = tl (elems b))) \<and>
    (i < length (elems b) \<longrightarrow>
      (\<exists>b'. erase t i b = Some b' \<and> live b' \<and>
        elems b' = take i (elems b) @ drop (i + 1) (elems b))) \<and>
    (i \<le> j \<and> j < length (elems b) \<longrightarrow>
      (\<exists>b'. erase_range t i j b = Some b' \<and> live b' \<and>
        elems b' = take i (elems b) @ drop (j + 1) (elems b))) \<and>
    (i \<le> length (elems b) \<longrightarrow>
      (\<exists>b'. insert_copies alloc i n x b = Some (True, b') \<and> live b' \<and>
        elems b' = take i (elems b) @ replicate n x @ drop i (elems b))) \<and>
    (\<exists>b'. push_back_default alloc (NonPOD d) b = Some b' \<and> live b' \<and> elems b' = elems b @ [d]) \<and>
    (\<exists>b'. push_front_default alloc (NonPOD d) b = Some b' \<and> live b' \<and> elems b' = d # elems b) \<and>
    (\<exists>b'. push_back_n alloc (NonPOD d) n b = Some (Some (len b), b') \<and> live b' \<and>
        elems b' = elems b @ replicate n d) \<and>
    (\<exists>b'. BufferEx_ChangeSize alloc (NonPOD d) n True b = Some (True, b') \<and> live b' \<and>
        elems b' = take n (elems b) @ replicate (n - length (elems b)) d) \<and>
    (i \<le> length (elems b) \<longrightarrow>
      (\<exists>b'. insert_n alloc (NonPOD d) i n b = Some (True, b') \<and> live b' \<and>
        elems b' = take i (elems b) @ replicate n d @ drop i (elems b))) \<and>
    (i < length (elems b) \<longrightarrow>
      (\<exists>b'. insert_default alloc (NonPOD d) i b = Some b' \<and> live b' \<and>
        elems b' = take i (elems b) @ d # drop i (elems b)))"
proof (intro conjI impI)
  show "\<exists>b'. push_back_n_copies alloc x n b = Some b' \<and> live b' \<and> elems b' = elems b @ replicate n x"
    unfolding push_back_n_copies_def by (rule live_push_back_array) (use assms in auto)
  show "\<exists>b'. push_front_n alloc x n b = Some b' \<and> live b' \<and> elems b' = replicate n x @ elems b"
    unfolding push_front_n_def by (rule live_push_front_array) (use assms in auto)
  have inv: "BufferEx_inv b" using assms(1) by (simp add: live_iff)
  show "\<exists>b'. push_back_default alloc (NonPOD d) b = Some b' \<and> live b' \<and> elems b' = elems b @ [d]"
    unfolding push_back_default_NonPOD [where alloc = alloc, OF inv assms(2)] by (rule live_push_back) (use assms in auto)
  show "\<exists>b'. push_front_default alloc (NonPOD d) b = Some b' \<and> live b' \<and> elems b' = d # elems b"
    unfolding push_front_default_NonPOD [where alloc = alloc, OF inv assms(2)] by (rule live_push_front) (use assms in auto)
  show "\<exists>b'. erase t i b = Some b' \<and> live b' \<and> elems b' = take i (elems b) @ drop (i + 1) (elems b)"
    if "i < length (elems b)" by (rule live_erase [OF assms(1) that])
  show "\<exists>b'. erase_range t i j b = Some b' \<and> live b' \<and> elems b' = take i (elems b) @ drop (j + 1) (elems b)"
    if "i \<le> j \<and> j < length (elems b)" using live_erase_range [OF assms(1)] that by blast
  show "\<exists>b'. insert_n alloc (NonPOD d) i n b = Some (True, b') \<and> live b' \<and>
      elems b' = take i (elems b) @ replicate n d @ drop i (elems b)" if "i \<le> length (elems b)"
    using live_insert_copies [where alloc = alloc and b = b and i = i and n = n and x = d] insert_n_NonPOD [where alloc = alloc and i = i and n = n and d = d, OF inv assms(2)]
      that assms live_len [OF assms(1)] by auto
qed (use assms in \<open>auto intro: live_push_back live_push_front live_push_back_array live_push_front_array live_push_both
  live_pop_back live_pop_front live_insert_copies live_push_back_n live_ChangeSize live_insert_default\<close>)

theorem BufferEx_edits_list_witness:
  "let b = \<lparr> cells = [Some 1, Some 2, None], len = 2, len_reserved = 3 \<rparr> :: int BufferEx
   in (\<exists>b'. erase_range POD 0 1 b = Some b' \<and> live b' \<and> elems b' = []) \<and>
      (\<exists>b'. push_both (\<lambda>_. True) POD 7 1 1 b = Some b' \<and> live b' \<and> elems b' = [7, 1, 2, 7]) \<and>
      (\<exists>b'. insert_default (\<lambda>_. True) (NonPOD 9) 1 b = Some b' \<and> live b' \<and> elems b' = [1, 9, 2])"
proof -
  let ?b = "\<lparr> cells = [Some 1, Some 2, None], len = 2, len_reserved = 3 \<rparr> :: int BufferEx"
  have l: "live ?b" and e: "elems ?b = [1, 2]"
    by (simp_all add: live_def elems_def view_def BufferEx_inv_def)
  show ?thesis
    using BufferEx_edits_list [OF l, where alloc = "\<lambda>_. True" and t = POD and i = 0 and j = 1]
      BufferEx_edits_list [OF l, where alloc = "\<lambda>_. True" and t = POD and x = 7 and m = 1 and n = 1]
      BufferEx_edits_list [OF l, where alloc = "\<lambda>_. True" and d = 9 and i = 1]
    by (simp add: e)
qed

text \<open>a \<open>BufferEx\<close> used as a queue hands out the elements in the order they were added, and used as
  a stack from either end it returns to the contents it had.\<close>

theorem BufferEx_queue_stack:
  assumes "live b"
  shows "(\<exists>b'. Option.bind (for_all (push_back (\<lambda>_. True)) xs b) (times (length (elems b)) (pop_front t)) = Some b' \<and>
       live b' \<and> elems b' = xs) \<and>
    (\<exists>b'. Option.bind (for_all (push_back (\<lambda>_. True)) xs b) (times (length xs) (pop_back t)) = Some b' \<and>
       live b' \<and> elems b' = elems b) \<and>
    (\<exists>b'. Option.bind (for_all (push_front (\<lambda>_. True)) xs b) (times (length xs) (pop_front t)) = Some b' \<and>
       live b' \<and> elems b' = elems b)"
  using bufex.fifo [OF assms] bufex.lifo [OF assms] by blast

theorem BufferEx_queue_stack_witness:
  "\<exists>b'. Option.bind (for_all (push_back (\<lambda>_. True)) [1, 2, 3] (BufferEx_new :: nat BufferEx)) (times (length [1, 2, 3 :: nat]) (pop_back POD)) = Some b' \<and>
     live b' \<and> elems b' = elems (BufferEx_new :: nat BufferEx)"
  by (rule BufferEx_queue_stack [THEN conjunct2, THEN conjunct1])
    (simp add: live_def view_def BufferEx_inv_def BufferEx_new_def)

text \<open>\<open>SortedPush\<close> inserts into a sorted \<open>BufferEx\<close> after every element that is not greater, returns
  that position, and never scans below the first element.\<close>

theorem BufferEx_SortedPush_inserts:
  fixes x :: "'a::linorder"
  assumes "live b" "sorted (elems b)" "\<And>n. alloc n"
  shows "\<exists>b'. BufferEx_SortedPush alloc (<) x b = Some (int (length (takeWhile (\<lambda>y. y \<le> x) (elems b))), b') \<and> live b' \<and>
    elems b' = takeWhile (\<lambda>y. y \<le> x) (elems b) @ x # dropWhile (\<lambda>y. y \<le> x) (elems b)"
proof -
  obtain c where c: "BufferEx_SortedPush alloc (<) x b = Some (int (length (takeWhile (\<lambda>y. y \<le> x) (elems b))), c)"
    "BufferEx_inv c" "view c = map Some (takeWhile (\<lambda>y. y \<le> x) (elems b) @ x # dropWhile (\<lambda>y. y \<le> x) (elems b))"
    using BufferEx_SortedPush_spec [of b "elems b" alloc x] assms unfolding live_iff by blast
  then show ?thesis using liveI [OF c(2,3)] by blast
qed

theorem BufferEx_SortedPush_inserts_witness:
  "let b = \<lparr> cells = [Some 1, Some 5], len = 2, len_reserved = 2 \<rparr> :: nat BufferEx
   in \<exists>b'. BufferEx_SortedPush (\<lambda>_. True) (<) 3 b = Some (int (length (takeWhile (\<lambda>y. y \<le> 3) (elems b))), b') \<and> live b' \<and>
    elems b' = takeWhile (\<lambda>y. y \<le> 3) (elems b) @ 3 # dropWhile (\<lambda>y. y \<le> 3) (elems b)"
  unfolding Let_def
  by (rule BufferEx_SortedPush_inserts) (simp_all add: live_def elems_def view_def BufferEx_inv_def)

text \<open>assignment from a view copies its elements, whatever the buffer held before, for both kinds
  of buffer.\<close>

theorem Buffer_assign_copies:
  assumes "len a \<le> length (cells a)" "BufferEx_inv b" "alloc (length xs)"
  shows "(\<exists>a'. Buffer_assign alloc t xs a = Some a' \<and> len a' \<le> length (cells a') \<and> view a' = map Some xs) \<and>
    (\<exists>b'. BufferEx_assign alloc t xs b = Some b' \<and> BufferEx_inv b' \<and> view b' = map Some xs)"
  using Buffer_assign_spec [where alloc = alloc and xs = xs, OF assms(1,3)]
    BufferEx_assign_spec [where alloc = alloc and xs = xs, OF assms(2,3)] by blast

theorem Buffer_assign_copies_witness:
  "\<exists>a'. Buffer_assign (\<lambda>_. True) POD [7, 8] (Buffer_new :: nat Buffer) = Some a' \<and> len a' \<le> length (cells a') \<and> view a' = map Some [7, 8]"
  by (rule Buffer_assign_copies [where b = BufferEx_new, THEN conjunct1])
    (simp_all add: Buffer_new_def BufferEx_new_def BufferEx_inv_def)

text \<open>\<open>Remove\<close> on plain elements keeps exactly the elements different from its argument, in order,
  and returns how many it removed.\<close>

theorem Buffer_Remove_filters:
  assumes "len b \<le> length (cells b)" "Buffer_Remove POD v b = (k, b')"
  shows "view b' = filter (\<lambda>c. c \<noteq> Some v) (view b) \<and> len b' \<le> length (cells b') \<and> k + len b' = len b"
proof -
  obtain cs m where l: "Remove_loop POD v (len b) 0 0 (cells b) = (cs, m)" by fastforce
  have "length cs = length (cells b)" "m \<le> len b" "take m cs = filter (\<lambda>c. c \<noteq> Some v) (take (len b) (cells b))"
    using Remove_loop_POD [OF _ _ l] assms(1) by auto
  then show ?thesis using l assms by (auto simp: Buffer_Remove_def view_def)
qed

theorem Buffer_Remove_filters_witness:
  "view (snd (Buffer_Remove POD 1 \<lparr> cells = [Some 1, Some 2, Some 1 :: nat option], len = 3 \<rparr>)) = [Some 2]"
  using Buffer_Remove_filters [of "\<lparr> cells = [Some 1, Some 2, Some 1 :: nat option], len = 3 \<rparr>" 1
      "fst (Buffer_Remove POD 1 \<lparr> cells = [Some 1, Some 2, Some 1 :: nat option], len = 3 \<rparr>)"
      "snd (Buffer_Remove POD 1 \<lparr> cells = [Some 1, Some 2, Some 1 :: nat option], len = 3 \<rparr>)"]
  by (simp add: view_def)

text \<open>C37: what a failed allocation does. \<open>push_back\<close> into a full buffer overwrites the last element
  instead of failing, and a failed \<open>ChangeSize\<close> returns false but records the reserve it did not
  get, so the invariant is lost whenever it asks for more than is allocated.\<close>

theorem BufferEx_allocation_failure:
  assumes "BufferEx_inv b" "len b = len_reserved b" "0 < len b" "length (cells b) < n" "\<And>m. \<not> alloc m"
  shows "(\<exists>b'. push_back alloc x b = Some b' \<and> view b' = butlast (view b) @ [Some x]) \<and>
    (\<exists>b'. BufferEx_ChangeSize alloc t n keep b = Some (False, b') \<and> view b' = view b \<and> \<not> BufferEx_inv b')"
proof
  have "add_entry alloc 1 b = Some (False, b)"
    using assms by (simp add: add_entry_def)
  then have "push_back alloc x b = Some (b\<lparr> cells := (cells b)[len b - 1 := Some x] \<rparr>)"
    using assms by (simp add: push_back_def set_cell_def BufferEx_inv_def)
  moreover have "take (len b) ((cells b)[len b - 1 := Some x]) = butlast (take (len b) (cells b)) @ [Some x]"
    using assms take_Suc_update [of "len b - 1" "cells b" "Some x"] by (simp add: BufferEx_inv_def butlast_take)
  ultimately show "\<exists>b'. push_back alloc x b = Some b' \<and> view b' = butlast (view b) @ [Some x]"
    by (auto simp: view_def)
  have "BufferEx_ChangeSize alloc t n keep b = Some (False, b\<lparr> len_reserved := n \<rparr>)"
    by (rule ChangeSize_failed) (use assms in \<open>auto simp: BufferEx_inv_def\<close>)
  then show "\<exists>b'. BufferEx_ChangeSize alloc t n keep b = Some (False, b') \<and> view b' = view b \<and> \<not> BufferEx_inv b'"
    using assms(4) by (auto simp: view_def BufferEx_inv_def)
qed

theorem BufferEx_allocation_failure_witness:
  "let b = \<lparr> cells = [Some 1], len = 1, len_reserved = 1 \<rparr> :: nat BufferEx
   in \<exists>b'. push_back (\<lambda>_. False) 9 b = Some b' \<and> view b' = butlast (view b) @ [Some 9]"
  unfolding Let_def
  by (rule BufferEx_allocation_failure [where n = 2, THEN conjunct1]) (simp_all add: BufferEx_inv_def)

end
