(* ===== verification/CircularBuf.thy ===== *)
theory CircularBuf
  imports Bits
begin

text \<open>
  \<^verbatim>\<open>rt::CircularBuffer\<close> of \<^verbatim>\<open>core/rt/buffer_type.h\<close>: a ring of variable-size blocks in one allocation, each
  preceded by a 24-byte header that links to the next block.

  The allocation is a memory of 8-byte cells, a map from byte offsets to the \<^verbatim>\<open>SIZE_T\<close> stored there: every offset
  \<^verbatim>\<open>Push\<close> hands out is a multiple of 8, and the three fields of a header are the cells at its offset, 8 and 16
  bytes behind it. Headers, payloads and what is left of popped blocks share that memory, so a store
  through a pointer to a block that is gone hits whatever lies there now. That no two live blocks
  share a cell is part of the invariant proved here.

  Sizes are natural numbers with the 64-bit wrap-around written out. \<^verbatim>\<open>SetSize\<close> only asserts that its
  allocation succeeded; the model is the buffer after a successful allocation, with whatever the
  allocated memory holds.
\<close>

section \<open>Definitions\<close>

(*@ core/rt/buffer_type.h 960-967 rt::CircularBuffer::_BlockHeader *)
record BlockHeader =
  Next :: nat
  PayloadSize :: nat
  PayloadLength :: nat

(*@ core/rt/buffer_type.h 974-979 rt::CircularBuffer *)
record CircularBuffer =
  mem :: "nat \<Rightarrow> nat"
  BufferSize :: nat
  Back :: nat
  NewBlock :: nat
  pLastBlock :: "nat option"

definition INFINITE :: nat where "INFINITE = 0xFFFFFFFF"

text \<open>\<^verbatim>\<open>sizeof(_BlockHeader)\<close>, and addition of \<^verbatim>\<open>SIZE_T\<close> values.\<close>

definition header_size :: nat where "header_size = 24"

definition size_add :: "nat \<Rightarrow> nat \<Rightarrow> nat" where
  "size_add a b = (a + b) mod 2 ^ 64"

text \<open>The header stored at an offset, and storing one.\<close>

definition header_at :: "(nat \<Rightarrow> nat) \<Rightarrow> nat \<Rightarrow> BlockHeader" where
  "header_at m p = \<lparr> Next = m p, PayloadSize = m (p + 8), PayloadLength = m (p + 16) \<rparr>"

definition put_header :: "nat \<Rightarrow> BlockHeader \<Rightarrow> (nat \<Rightarrow> nat) \<Rightarrow> nat \<Rightarrow> nat" where
  "put_header p h m = m(p := Next h, p + 8 := PayloadSize h, p + 16 := PayloadLength h)"

text \<open>The first argument is the memory the allocation returns.\<close>

(*@ core/rt/buffer_type.h 981-999 rt::CircularBuffer::SetSize *)
definition CB_SetSize :: "(nat \<Rightarrow> nat) \<Rightarrow> nat \<Rightarrow> CircularBuffer" where
  "CB_SetSize m sz = \<lparr> mem = m, BufferSize = sz, Back = 0, NewBlock = 0, pLastBlock = None \<rparr>"

text \<open>\<open>None\<close> is the null pointer; otherwise the offset of the block whose payload is returned.\<close>

(*@ core/rt/buffer_type.h 1003-1014 rt::CircularBuffer::Push *)
definition CB_place :: "nat \<Rightarrow> CircularBuffer \<Rightarrow> (nat \<times> nat) option" where
  "CB_place block_size b =
    (if (size_add block_size (NewBlock b) < BufferSize b \<and> NewBlock b \<ge> Back b) \<or>
        (size_add block_size (NewBlock b) < Back b \<and> NewBlock b < Back b)
     then Some (NewBlock b, size_add (NewBlock b) block_size)
     else if NewBlock b \<ge> Back b \<and> Back b > block_size then Some (0, block_size)
     else None)"

(*@ core/rt/buffer_type.h 1000-1023 rt::CircularBuffer::Push *)
definition CB_Push :: "nat \<Rightarrow> CircularBuffer \<Rightarrow> nat option \<times> CircularBuffer" where
  "CB_Push size_max b =
    (let size_max = unat (EnlargeTo32AL (of_nat size_max));
         block_size = size_add size_max header_size
     in case CB_place block_size b of
          None \<Rightarrow> (None, b)
        | Some (p, new_block) \<Rightarrow>
            let m = put_header p \<lparr> Next = INFINITE, PayloadSize = size_max, PayloadLength = 0 \<rparr> (mem b);
                m = (case pLastBlock b of None \<Rightarrow> m | Some l \<Rightarrow> m(l := p))
            in (Some p, b\<lparr> mem := m, NewBlock := new_block, pLastBlock := Some p \<rparr>))"

(*@ core/rt/buffer_type.h 1024-1039 rt::CircularBuffer::Pop *)
definition CB_Pop :: "CircularBuffer \<Rightarrow> CircularBuffer" where
  "CB_Pop b =
    (if Back b \<noteq> NewBlock b then
       if pLastBlock b = Some (Back b) then b\<lparr> pLastBlock := None, NewBlock := 0, Back := 0 \<rparr>
       else b\<lparr> Back := Next (header_at (mem b) (Back b)) \<rparr>
     else b)"

text \<open>The argument is the block's offset, the payload pointer less the header. The store goes through
  whatever block that is or was.\<close>

(*@ core/rt/buffer_type.h 1040-1046 rt::CircularBuffer::SetBlockSize *)
definition CB_SetBlockSize :: "nat \<Rightarrow> nat \<Rightarrow> CircularBuffer \<Rightarrow> CircularBuffer" where
  "CB_SetBlockSize p finalized b =
    b\<lparr> mem := (mem b)(p + 16 := finalized) \<rparr>"

(*@ core/rt/buffer_type.h 1047-1055 rt::CircularBuffer::Peek *)
definition CB_Peek :: "CircularBuffer \<Rightarrow> nat option" where
  "CB_Peek b =
    (if Back b \<noteq> NewBlock b \<and> PayloadLength (header_at (mem b) (Back b)) > 0 then Some (Back b) else None)"

section \<open>The invariant\<close>

text \<open>The blocks in the order they were pushed: offset, payload size, payload length.\<close>

type_synonym entry = "nat \<times> nat \<times> nat"

fun entry_end :: "entry \<Rightarrow> nat" where
  "entry_end (off, sz, l) = off + sz + header_size"

text \<open>\<open>chain s es e\<close>: the blocks \<open>es\<close> lie one after the other from \<open>s\<close> to \<open>e\<close>.\<close>

fun chain :: "nat \<Rightarrow> entry list \<Rightarrow> nat \<Rightarrow> bool" where
  "chain s [] e \<longleftrightarrow> s = e"
| "chain s ((off, sz, l) # es) e \<longleftrightarrow> off = s \<and> chain (s + sz + header_size) es e"

text \<open>Each header describes its block and links to the next; the last links to \<^verbatim>\<open>INFINITE\<close>.\<close>

fun linked :: "(nat \<Rightarrow> nat) \<Rightarrow> entry list \<Rightarrow> bool" where
  "linked m [] \<longleftrightarrow> True"
| "linked m [(off, sz, l)] \<longleftrightarrow> header_at m off = \<lparr> Next = INFINITE, PayloadSize = sz, PayloadLength = l \<rparr>"
| "linked m ((off, sz, l) # (off', sz', l') # es) \<longleftrightarrow>
    header_at m off = \<lparr> Next = off', PayloadSize = sz, PayloadLength = l \<rparr> \<and> linked m ((off', sz', l') # es)"

text \<open>The blocks lie in one run, or in a run at the end of the buffer and one from its start.\<close>

definition laid_out :: "nat \<Rightarrow> nat \<Rightarrow> nat \<Rightarrow> entry list \<Rightarrow> bool" where
  "laid_out back new sz es \<longleftrightarrow> chain back es new \<and> new < sz \<or>
    (\<exists>hi lo t. es = hi @ lo \<and> hi \<noteq> [] \<and> lo \<noteq> [] \<and> chain back hi t \<and> t < sz \<and> chain 0 lo new \<and> new < back)"

definition ring :: "CircularBuffer \<Rightarrow> entry list \<Rightarrow> bool" where
  "ring b es \<longleftrightarrow> linked (mem b) es \<and> distinct (map fst es) \<and> BufferSize b < 2 ^ 63 \<and>
    (if es = [] then Back b = 0 \<and> NewBlock b = 0 \<and> pLastBlock b = None
     else pLastBlock b = Some (fst (last es)) \<and> laid_out (Back b) (NewBlock b) (BufferSize b) es)"

text \<open>Two blocks, header and payload, that share no byte.\<close>

definition apart :: "entry \<Rightarrow> entry \<Rightarrow> bool" where
  "apart x y \<longleftrightarrow> entry_end x \<le> fst y \<or> entry_end y \<le> fst x"

lemma chain_append: "chain s (es @ fs) e \<longleftrightarrow> (\<exists>m. chain s es m \<and> chain m fs e)"
  by (induction es arbitrary: s) (auto split: prod.splits)

lemma chain_bounds: "chain s es e \<Longrightarrow> s \<le> e \<and> (\<forall>x\<in>set es. s \<le> fst x \<and> entry_end x \<le> e)"
proof (induction es arbitrary: s)
  case (Cons x es)
  obtain off sz l where x: "x = (off, sz, l)" by (cases x)
  from Cons.prems have c: "off = s" "chain (s + sz + header_size) es e" by (auto simp: x)
  have "s + sz + header_size \<le> e \<and> (\<forall>x\<in>set es. s + sz + header_size \<le> fst x \<and> entry_end x \<le> e)"
    by (rule Cons.IH [OF c(2)])
  then show ?case using c(1) by (auto simp: x)
qed simp

lemma chain_less: "chain s es e \<Longrightarrow> es \<noteq> [] \<Longrightarrow> s + header_size \<le> e \<and> fst (hd es) = s"
  by (cases es) (auto dest: chain_bounds split: prod.splits)

lemma chain_disjoint: "chain s es e \<Longrightarrow> sorted_wrt (\<lambda>x y. entry_end x \<le> fst y) es"
proof (induction es arbitrary: s)
  case (Cons x es)
  obtain off sz l where x: "x = (off, sz, l)" by (cases x)
  with Cons.prems have c: "off = s" "chain (s + sz + header_size) es e" by auto
  then show ?case using Cons.IH [OF c(2)] chain_bounds [OF c(2)] by (auto simp: x)
qed simp

lemma laid_out_apart: "laid_out back new sz es \<Longrightarrow> sorted_wrt apart es"
  unfolding laid_out_def
proof (elim disjE exE conjE)
  fix hi lo t
  assume w: "es = hi @ lo" "chain back hi t" "chain 0 lo new" "new < back"
  have "apart x y" if "x \<in> set hi" "y \<in> set lo" for x y
    using chain_bounds [OF w(2)] chain_bounds [OF w(3)] that w(4) unfolding apart_def by fastforce
  moreover have "sorted_wrt apart hi" "sorted_wrt apart lo"
    by (rule sorted_wrt_mono_rel [OF _ chain_disjoint [OF w(2)]], simp add: apart_def)
      (rule sorted_wrt_mono_rel [OF _ chain_disjoint [OF w(3)]], simp add: apart_def)
  ultimately show ?thesis unfolding w(1) by (simp add: sorted_wrt_append)
next
  assume "chain back es new"
  then show ?thesis by (intro sorted_wrt_mono_rel [OF _ chain_disjoint]) (auto simp: apart_def)
qed

lemma apart_header: "apart x y \<Longrightarrow> fst x + header_size \<le> fst y \<or> fst y + header_size \<le> fst x"
  by (cases x; cases y) (auto simp: apart_def)

lemma apart_distinct: "sorted_wrt apart es \<Longrightarrow> distinct (map fst es)"
proof (induction es)
  case (Cons x es)
  then have "fst y \<noteq> fst x" if "y \<in> set es" for y
    using apart_header [of x y] that by (auto simp: header_size_def)
  then have "fst x \<notin> fst ` set es" by (metis imageE)
  then show ?case using Cons by simp
qed simp

lemma linked_tl: "linked m (e # es) \<Longrightarrow> linked m es"
  by (cases es; cases e) auto

lemma linked_suffix: "linked m (pre @ es) \<Longrightarrow> linked m es"
  by (induction pre) (auto dest: linked_tl)

lemma linked_hd: "linked m ((off, sz, l) # es) \<Longrightarrow>
   header_at m off = \<lparr> Next = (case es of [] \<Rightarrow> INFINITE | e # _ \<Rightarrow> fst e), PayloadSize = sz, PayloadLength = l \<rparr>"
  by (cases es) auto

lemma header_at_frame: "(\<And>a. p \<le> a \<Longrightarrow> a < p + header_size \<Longrightarrow> m' a = m a) \<Longrightarrow> header_at m' p = header_at m p"
  by (simp add: header_at_def header_size_def)

lemma linked_frame:
  "linked m es \<Longrightarrow> (\<And>x a. x \<in> set es \<Longrightarrow> fst x \<le> a \<Longrightarrow> a < fst x + header_size \<Longrightarrow> m' a = m a) \<Longrightarrow> linked m' es"
proof (induction m es rule: linked.induct)
  case (2 m off sz l)
  then show ?case using header_at_frame [of off m' m] by simp
next
  case (3 m off sz l off' sz' l' es)
  have "header_at m' off = header_at m off" by (rule header_at_frame) (rule "3.prems"(2) [of "(off, sz, l)"], simp_all)
  moreover have "linked m' ((off', sz', l') # es)" by (rule "3.IH") (use "3.prems" in auto)
  ultimately show ?case using "3.prems"(1) by simp
qed simp

lemma linked_snoc:
  "linked m es \<Longrightarrow> es \<noteq> [] \<Longrightarrow> sorted_wrt apart (es @ [(p, sz, k)]) \<Longrightarrow>
   linked ((put_header p \<lparr> Next = INFINITE, PayloadSize = sz, PayloadLength = k \<rparr> m)(fst (last es) := p)) (es @ [(p, sz, k)])"
proof (induction m es rule: linked.induct)
  case (2 m off s n)
  then show ?case by (auto simp: header_at_def put_header_def apart_def header_size_def)
next
  case (3 m off s n off' s' n' es)
  let ?m = "(put_header p \<lparr> Next = INFINITE, PayloadSize = sz, PayloadLength = k \<rparr> m)(fst (last ((off', s', n') # es)) := p)"
  have p: "off + header_size \<le> p \<or> p + header_size \<le> off"
    using "3.prems"(3) apart_header [of "(off, s, n)" "(p, sz, k)"] by simp
  have "last ((off', s', n') # es) \<in> set ((off', s', n') # es)" by (rule last_in_set) simp
  then have "apart (off, s, n) (last ((off', s', n') # es))" using "3.prems"(3) by auto
  then have l: "off + header_size \<le> fst (last ((off', s', n') # es)) \<or> fst (last ((off', s', n') # es)) + header_size \<le> off"
    using apart_header by fastforce
  have "header_at ?m off = header_at m off"
    by (rule header_at_frame) (use p l in \<open>auto simp: put_header_def header_size_def\<close>)
  then show ?case using "3.IH" "3.prems" by (simp del: fun_upd_apply)
qed simp

text \<open>The block size \<^verbatim>\<open>Push\<close> computes for a request that is not near the top of the address space.\<close>

definition payload :: "nat \<Rightarrow> nat" where
  "payload n = unat (EnlargeTo32AL (of_nat n))"

lemma payload_bounds:
  assumes "n < 2 ^ 62"
  shows "n \<le> payload n" "payload n < n + 8" "8 dvd payload n" "payload n + header_size < 2 ^ 63"
    "size_add (payload n) header_size = payload n + header_size"
proof -
  have u: "unat (of_nat n :: u64) = n" using assms by (simp add: unat_of_nat)
  have eq: "payload n = (n + 7) div 8 * 8"
    unfolding payload_def using EnlargeTo32AL_eq [of "of_nat n"] assms u by simp
  show a: "n \<le> payload n" unfolding eq by linarith
  show b: "payload n < n + 8" unfolding eq by linarith
  show "8 dvd payload n" unfolding eq by simp
  show c: "payload n + header_size < 2 ^ 63" using b assms by (simp add: header_size_def)
  then show "size_add (payload n) header_size = payload n + header_size" by (simp add: size_add_def)
qed

lemma size_add_small: "a < 2 ^ 63 \<Longrightarrow> b < 2 ^ 63 \<Longrightarrow> size_add a b = a + b"
  by (simp add: size_add_def)

lemma ring_Nil: "ring b [] \<Longrightarrow> Back b = 0 \<and> NewBlock b = 0 \<and> pLastBlock b = None"
  by (simp add: ring_def)

text \<open>Where the blocks of a non-empty ring lie.\<close>

lemma ring_layout:
  assumes "ring b es" "es \<noteq> []"
  obtains (straight) "chain (Back b) es (NewBlock b)" "NewBlock b < BufferSize b" "Back b < NewBlock b"
  | (wrapped) hi lo t where "es = hi @ lo" "hi \<noteq> []" "lo \<noteq> []" "chain (Back b) hi t" "t < BufferSize b"
      "chain 0 lo (NewBlock b)" "NewBlock b < Back b" "Back b < t"
proof -
  from assms consider "chain (Back b) es (NewBlock b)" "NewBlock b < BufferSize b"
    | hi lo t where "es = hi @ lo" "hi \<noteq> []" "lo \<noteq> []" "chain (Back b) hi t" "t < BufferSize b"
      "chain 0 lo (NewBlock b)" "NewBlock b < Back b"
    by (auto simp: ring_def laid_out_def)
  then show thesis
  proof cases
    case 1
    then show ?thesis using straight chain_less [OF 1(1) assms(2)] by (auto simp: header_size_def)
  next
    case 2
    then show ?thesis using wrapped [OF 2] chain_less [OF 2(4,2)] by (auto simp: header_size_def)
  qed
qed

lemma ring_Back_NewBlock: "ring b es \<Longrightarrow> Back b = NewBlock b \<longleftrightarrow> es = []"
  by (cases "es = []") (auto dest: ring_Nil elim: ring_layout)

lemma ring_hd: "ring b (e # es) \<Longrightarrow> fst e = Back b"
  by (erule ring_layout) (auto dest!: chain_less simp: hd_append Cons_eq_append_conv split: if_splits)

lemma ring_Pop:
  assumes "ring b (e # es)"
  shows "ring (CB_Pop b) es"
proof -
  obtain off sz l where e: "e = (off, sz, l)" by (cases e)
  have ne: "Back b \<noteq> NewBlock b" using ring_Back_NewBlock [OF assms] by simp
  have off: "off = Back b" using ring_hd [OF assms] e by simp
  have d: "distinct (map fst (e # es))" and lk: "linked (mem b) (e # es)"
    and last: "pLastBlock b = Some (fst (last (e # es)))" and bs: "BufferSize b < 2 ^ 63" using assms by (auto simp: ring_def)
  show ?thesis
  proof (cases es)
    case Nil
    then show ?thesis using ne last off e bs by (simp add: CB_Pop_def ring_def)
  next
    case (Cons f fs)
    have "last (e # es) \<in> set es" using Cons by auto
    then have "fst (last (e # es)) \<noteq> Back b" using d off e by (auto simp: image_iff)
    moreover have "header_at (mem b) (Back b) = \<lparr> Next = fst f, PayloadSize = sz, PayloadLength = l \<rparr>"
      using linked_hd [of "mem b" off sz l es] lk Cons off e by simp
    ultimately have p: "CB_Pop b = b\<lparr> Back := fst f \<rparr>" using ne last by (simp add: CB_Pop_def)
    have lay: "laid_out (fst f) (NewBlock b) (BufferSize b) es"
      using assms
    proof (rule ring_layout)
      assume "chain (Back b) (e # es) (NewBlock b)" "NewBlock b < BufferSize b"
      then show ?thesis using Cons by (cases f) (auto simp: e laid_out_def)
    next
      fix hi lo t
      assume w: "e # es = hi @ lo" "hi \<noteq> []" "lo \<noteq> []" "chain (Back b) hi t" "t < BufferSize b"
        "chain 0 lo (NewBlock b)" "NewBlock b < Back b" "Back b < t"
      then obtain hi' where hi: "hi = e # hi'" "es = hi' @ lo" by (cases hi) auto
      show ?thesis
      proof (cases "hi' = []")
        case True
        then have "lo = f # fs" using hi(2) Cons by simp
        then have "chain (fst f) es (NewBlock b)" using w(6) hi True chain_less [OF w(6,3)] by simp
        then show ?thesis using w by (simp add: laid_out_def)
      next
        case False
        then have "chain (fst f) hi' t" "Back b \<le> fst f"
          using w(4) hi Cons by (cases hi'; cases f; auto simp: e)+
        then show ?thesis unfolding laid_out_def using w hi False by (intro disjI2 exI [of _ hi'] exI [of _ lo] exI [of _ t]) auto
      qed
    qed simp
    show ?thesis unfolding p ring_def using lay lk linked_tl [OF lk] d last bs Cons by simp
  qed
qed

lemma ring_append:
  assumes r: "ring b es" and s: "sorted_wrt apart (es @ [(p, sz, 0)])"
    and m: "m = put_header p \<lparr> Next = INFINITE, PayloadSize = sz, PayloadLength = 0 \<rparr> (mem b)"
  shows "linked (case pLastBlock b of None \<Rightarrow> m | Some l \<Rightarrow> m(l := p)) (es @ [(p, sz, 0)])"
proof (cases "es = []")
  case True
  then show ?thesis using ring_Nil [of b] r m by (simp add: header_at_def put_header_def)
next
  case False
  then have "pLastBlock b = Some (fst (last es))" "linked (mem b) es" using r by (auto simp: ring_def)
  then show ?thesis using linked_snoc [of "mem b" es p sz 0] False s m by simp
qed

lemma ring_Push:
  assumes r: "ring b es" and n: "n < 2 ^ 62" and p: "CB_Push n b = (Some p, b')"
  shows "ring b' (es @ [(p, payload n, 0)])"
proof -
  define k where "k = payload n + header_size"
  have k: "0 < k" "k < 2 ^ 63" using payload_bounds [OF n] by (auto simp: k_def header_size_def)
  have bs: "BufferSize b < 2 ^ 63" using r by (simp add: ring_def)
  have nb: "NewBlock b < 2 ^ 63" "Back b < 2 ^ 63"
    using r bs by (cases "es = []"; fastforce dest: ring_Nil elim: ring_layout)+
  have sa: "size_add k (NewBlock b) = NewBlock b + k" "size_add (NewBlock b) k = NewBlock b + k"
    using size_add_small k(2) nb(1) by (auto simp: add.commute)
  have ks: "size_add (payload n) header_size = k" using payload_bounds [OF n] by (simp add: k_def)
  let ?m = "put_header p \<lparr> Next = INFINITE, PayloadSize = payload n, PayloadLength = 0 \<rparr> (mem b)"
  obtain nw where pl: "CB_place k b = Some (p, nw)"
    and b': "b' = b\<lparr> mem := (case pLastBlock b of None \<Rightarrow> ?m | Some l \<Rightarrow> ?m(l := p)), NewBlock := nw, pLastBlock := Some p \<rparr>"
    using p by (auto simp: CB_Push_def Let_def ks simp del: fun_upd_apply simp flip: payload_def split: option.splits prod.splits)
  have lay: "laid_out (Back b) nw (BufferSize b) (es @ [(p, payload n, 0)])"
      proof (cases "es = []")
    case True
    then have z: "Back b = 0" "NewBlock b = 0" using ring_Nil [of b] r by auto
    then have "p = 0" "nw = k" "k < BufferSize b"
      using pl k sa by (auto simp: CB_place_def split: if_splits)
    then show ?thesis using True z by (simp add: k_def laid_out_def)
  next
    case False
    with r show ?thesis
    proof (cases rule: ring_layout)
      case straight
      from pl straight(3) consider "p = NewBlock b" "nw = NewBlock b + k" "NewBlock b + k < BufferSize b"
        | "p = 0" "nw = k" "k < Back b" by (auto simp: CB_place_def sa split: if_splits)
      then show ?thesis
      proof cases
        case 1
        then show ?thesis using straight(1) by (auto simp: laid_out_def chain_append k_def)
      next
        case 2
        then show ?thesis unfolding laid_out_def using straight False
          by (intro disjI2 exI [of _ es] exI [of _ "[(p, payload n, 0)]"] exI [of _ "NewBlock b"]) (auto simp: k_def)
      qed
    next
      case (wrapped hi lo t)
      have "p = NewBlock b" "nw = NewBlock b + k" "NewBlock b + k < Back b"
        using pl wrapped(7) by (auto simp: CB_place_def sa split: if_splits)
      then show ?thesis unfolding laid_out_def using wrapped
        by (intro disjI2 exI [of _ hi] exI [of _ "lo @ [(p, payload n, 0)]"] exI [of _ t])
          (auto simp: chain_append k_def)
    qed
  qed
  have ap: "sorted_wrt apart (es @ [(p, payload n, 0)])" by (rule laid_out_apart [OF lay])
  then show ?thesis using lay r b' ring_append [OF r ap refl] apart_distinct [OF ap] by (simp add: ring_def)
qed

lemma ring_Push_None: "CB_Push n b = (None, b') \<Longrightarrow> b' = b"
  by (auto simp: CB_Push_def Let_def split: option.splits)

lemma ring_SetSize: "sz < 2 ^ 63 \<Longrightarrow> ring (CB_SetSize m sz) []"
  by (simp add: ring_def CB_SetSize_def)

definition finalize :: "nat \<Rightarrow> nat \<Rightarrow> entry \<Rightarrow> entry" where
  "finalize p n e = (if fst e = p then (p, fst (snd e), n) else e)"

lemma fst_finalize [simp]: "fst (finalize p n e) = fst e"
  by (simp add: finalize_def)

lemma finalize_entry [simp]: "finalize p n (q, s, l) = (q, s, if q = p then n else l)"
  by (simp add: finalize_def)

lemma chain_finalize: "chain s (map (finalize p n) es) e \<longleftrightarrow> chain s es e"
proof (induction es arbitrary: s)
  case (Cons x es)
  then show ?case by (cases x) (simp add: finalize_def)
qed simp

lemma linked_finalize:
  "linked m es \<Longrightarrow> (\<And>x. x \<in> set es \<Longrightarrow> fst x = p \<or> p + header_size \<le> fst x \<or> fst x + header_size \<le> p) \<Longrightarrow>
   linked (m(p + 16 := n)) (map (finalize p n) es)"
proof (induction m es rule: linked.induct)
  case (2 m q s l)
  then show ?case by (auto simp: header_at_def header_size_def)
next
  case (3 m q s l q' s' l' es)
  have "linked (m(p + 16 := n)) (map (finalize p n) ((q', s', l') # es))"
    by (rule "3.IH") (use "3.prems" in auto)
  moreover have "q = p \<or> p + header_size \<le> q \<or> q + header_size \<le> p" using "3.prems"(2) [of "(q, s, l)"] by simp
  then have "header_at (m(p + 16 := n)) q = (header_at m q)\<lparr> PayloadLength := if q = p then n else m (q + 16) \<rparr>"
    by (auto simp: header_at_def header_size_def)
  ultimately show ?case using "3.prems"(1) by (simp add: header_at_def del: fun_upd_apply)
qed simp

lemma laid_out_finalize: "laid_out bk nw sz es \<Longrightarrow> laid_out bk nw sz (map (finalize p n) es)"
  unfolding laid_out_def
proof (elim disjE exE conjE)
  fix hi lo t
  assume "es = hi @ lo" "hi \<noteq> []" "lo \<noteq> []" "chain bk hi t" "t < sz" "chain 0 lo nw" "nw < bk"
  then show "chain bk (map (finalize p n) es) nw \<and> nw < sz \<or>
    (\<exists>hi lo t. map (finalize p n) es = hi @ lo \<and> hi \<noteq> [] \<and> lo \<noteq> [] \<and> chain bk hi t \<and> t < sz \<and> chain 0 lo nw \<and> nw < bk)"
    by (intro disjI2 exI [of _ "map (finalize p n) hi"] exI [of _ "map (finalize p n) lo"] exI [of _ t])
      (simp add: chain_finalize)
qed (simp add: chain_finalize)

lemma ring_apart: "ring b es \<Longrightarrow> sorted_wrt apart es"
  by (cases "es = []") (auto simp: ring_def dest: laid_out_apart)

lemma ring_disjoint:
  "ring b es \<Longrightarrow> i < j \<Longrightarrow> j < length es \<Longrightarrow> entry_end (es ! i) \<le> fst (es ! j) \<or> entry_end (es ! j) \<le> fst (es ! i)"
  using ring_apart [of b es] by (auto simp: sorted_wrt_iff_nth_less apart_def)

lemma ring_pair:
  assumes "ring b es" "x \<in> set es" "y \<in> set es"
  shows "x = y \<or> apart x y"
proof -
  obtain i j where i: "x = es ! i" "y = es ! j" "i < length es" "j < length es"
    using assms(2,3) by (auto simp: in_set_conv_nth)
  then show ?thesis using ring_disjoint [OF assms(1)] unfolding apart_def by (metis linorder_neqE_nat)
qed

lemma ring_SetBlockSize:
  assumes r: "ring b es" and p: "p \<in> fst ` set es"
  shows "ring (CB_SetBlockSize p n b) (map (finalize p n) es)"
proof -
  obtain e where e: "e \<in> set es" "fst e = p" using p by auto
  have "fst x = p \<or> p + header_size \<le> fst x \<or> fst x + header_size \<le> p" if "x \<in> set es" for x
    using ring_pair [OF r that e(1)] e(2) apart_header [of x e] by auto
  then have "linked ((mem b)(p + 16 := n)) (map (finalize p n) es)"
    by (intro linked_finalize) (use r in \<open>auto simp: ring_def\<close>)
  moreover have "map fst (map (finalize p n) es) = map fst es" by simp
  ultimately show ?thesis using r p
    by (auto simp: ring_def CB_SetBlockSize_def last_map o_def intro: laid_out_finalize)
qed

text \<open>The owner of a block writes its payload.\<close>

lemma ring_write:
  assumes r: "ring b es" and x: "(p, s, l) \<in> set es" "p + header_size \<le> a" "a < p + header_size + s"
  shows "ring (b\<lparr> mem := (mem b)(a := v) \<rparr>) es"
proof -
  have "a < fst y \<or> fst y + header_size \<le> a" if "y \<in> set es" for y
    using ring_pair [OF r x(1) that] x(2,3) by (cases y) (auto simp: apart_def)
  then have *: "((mem b)(a := v)) c = mem b c" if "y \<in> set es" "fst y \<le> c" "c < fst y + header_size" for y c
    using that by fastforce
  have "linked ((mem b)(a := v)) es"
    by (rule linked_frame [of "mem b"]) (use r in \<open>simp add: ring_def\<close>, rule *)
  then show ?thesis using r by (simp add: ring_def)
qed

lemma ring_inside: "ring b es \<Longrightarrow> x \<in> set es \<Longrightarrow> entry_end x \<le> BufferSize b"
proof -
  assume r: "ring b es" and x: "x \<in> set es"
  then have "es \<noteq> []" by auto
  with r show ?thesis
  proof (cases rule: ring_layout)
    case straight
    then show ?thesis using chain_bounds [OF straight(1)] x by auto
  next
    case (wrapped hi lo t)
    have "entry_end x \<le> t \<or> entry_end x \<le> NewBlock b"
      using chain_bounds [OF wrapped(4)] chain_bounds [OF wrapped(6)] x wrapped(1) by auto
    then show ?thesis using wrapped by linarith
  qed
qed

lemma ring_Peek:
  "ring b es \<Longrightarrow> CB_Peek b = (case es of [] \<Rightarrow> None | (p, s, l) # _ \<Rightarrow> if l > 0 then Some p else None)"
proof (cases es)
  case Nil
  assume "ring b es"
  then show ?thesis using Nil ring_Nil by (simp add: CB_Peek_def)
next
  case (Cons e fs)
  assume r: "ring b es"
  obtain p s l where e: "e = (p, s, l)" by (cases e)
  have "p = Back b" "Back b \<noteq> NewBlock b" using ring_hd [of b e fs] ring_Back_NewBlock [OF r] r Cons e by auto
  moreover have "header_at (mem b) p = \<lparr> Next = (case fs of [] \<Rightarrow> INFINITE | e # _ \<Rightarrow> fst e), PayloadSize = s, PayloadLength = l \<rparr>"
    by (rule linked_hd) (use r Cons e in \<open>simp add: ring_def\<close>)
  ultimately show ?thesis using Cons e by (simp add: CB_Peek_def)
qed

section \<open>The queue interface\<close>

text \<open>Pushing a sequence of requests, all of which must fit.\<close>

fun push_all :: "(nat \<Rightarrow> 'b \<Rightarrow> nat option \<times> 'b) \<Rightarrow> nat list \<Rightarrow> 'b \<Rightarrow> (nat list \<times> 'b) option" where
  "push_all push [] b = Some ([], b)"
| "push_all push (n # ns) b =
    (case push n b of
       (None, _) \<Rightarrow> None
     | (Some p, b) \<Rightarrow> map_option (map_prod ((#) p) id) (push_all push ns b))"

text \<open>A queue of blocks: a push appends a block of at least the requested size or changes nothing, a
  pop removes the oldest block.\<close>

locale block_queue =
  fixes rep :: "'b \<Rightarrow> entry list \<Rightarrow> bool" and push :: "nat \<Rightarrow> 'b \<Rightarrow> nat option \<times> 'b" and pop :: "'b \<Rightarrow> 'b"
  assumes push_Some: "rep b es \<Longrightarrow> n < 2 ^ 62 \<Longrightarrow> push n b = (Some p, b') \<Longrightarrow> rep b' (es @ [(p, payload n, 0)])"
    and push_None: "push n b = (None, b') \<Longrightarrow> b' = b"
    and pop_Cons: "rep b (e # es) \<Longrightarrow> rep (pop b) es"
begin

lemma push_all_rep:
  "rep b es \<Longrightarrow> \<forall>n\<in>set ns. n < 2 ^ 62 \<Longrightarrow> push_all push ns b = Some (ps, b') \<Longrightarrow>
   length ps = length ns \<and> rep b' (es @ map2 (\<lambda>p n. (p, payload n, 0)) ps ns)"
proof (induction ns arbitrary: b es ps)
  case (Cons n ns)
  then obtain p c qs where c: "push n b = (Some p, c)" "push_all push ns c = Some (qs, b')" "ps = p # qs"
    by (auto split: prod.splits option.splits)
  from Cons.IH [OF push_Some [OF Cons.prems(1) _ c(1)] _ c(2)] Cons.prems(2) c(3) show ?case by simp
qed simp

lemma pops_rep: "rep b (es @ fs) \<Longrightarrow> rep ((pop ^^ length es) b) fs"
proof (induction es arbitrary: b)
  case (Cons e es)
  then have "rep (pop b) (es @ fs)" using pop_Cons by simp
  then show ?case using Cons.IH by (simp add: funpow_Suc_right del: funpow.simps)
qed simp

lemma fifo:
  "rep b es \<Longrightarrow> \<forall>n\<in>set ns. n < 2 ^ 62 \<Longrightarrow> push_all push ns b = Some (ps, b') \<Longrightarrow>
   rep ((pop ^^ length es) b') (map2 (\<lambda>p n. (p, payload n, 0)) ps ns)"
  using push_all_rep pops_rep by blast

end

interpretation cbq: block_queue ring CB_Push CB_Pop
  by unfold_locales (auto intro: ring_Push ring_Push_None ring_Pop)

section \<open>Reachable states\<close>

text \<open>The buffer in the hands of its clients: the list holds the offsets \<open>Push\<close> returned, with the sizes
  asked for, of the blocks not popped yet. Clients set the size of a block they hold and write within
  the size they asked for.\<close>

inductive cb_reachable :: "nat \<Rightarrow> CircularBuffer \<Rightarrow> (nat \<times> nat) list \<Rightarrow> bool" for sz where
  start: "cb_reachable sz (CB_SetSize m sz) []"
| push: "cb_reachable sz b held \<Longrightarrow> n < 2 ^ 62 \<Longrightarrow> CB_Push n b = (Some p, b') \<Longrightarrow> cb_reachable sz b' (held @ [(p, n)])"
| refused: "cb_reachable sz b held \<Longrightarrow> n < 2 ^ 62 \<Longrightarrow> CB_Push n b = (None, b') \<Longrightarrow> cb_reachable sz b' held"
| pop: "cb_reachable sz b held \<Longrightarrow> cb_reachable sz (CB_Pop b) (tl held)"
| set_size: "cb_reachable sz b held \<Longrightarrow> (p, n) \<in> set held \<Longrightarrow> cb_reachable sz (CB_SetBlockSize p k b) held"
| store: "cb_reachable sz b held \<Longrightarrow> (p, n) \<in> set held \<Longrightarrow> p + header_size \<le> a \<Longrightarrow> a < p + header_size + n \<Longrightarrow>
    cb_reachable sz (b\<lparr> mem := (mem b)(a := v) \<rparr>) held"

text \<open>A block held by a client is a block of the ring with the room asked for.\<close>

definition serves :: "nat \<times> nat \<Rightarrow> entry \<Rightarrow> bool" where
  "serves h e \<longleftrightarrow> fst e = fst h \<and> snd h \<le> fst (snd e)"

lemma CB_Pop_empty: "ring b [] \<Longrightarrow> CB_Pop b = b"
  using ring_Nil by (simp add: CB_Pop_def)

lemma CB_BufferSize:
  "BufferSize (snd (CB_Push n b)) = BufferSize b" "BufferSize (CB_Pop b) = BufferSize b"
  "BufferSize (CB_SetBlockSize p n b) = BufferSize b"
  by (auto simp: CB_Push_def CB_Pop_def CB_SetBlockSize_def Let_def split: option.splits prod.splits)

lemma serves_held: "list_all2 serves held es \<Longrightarrow> (p, n) \<in> set held \<Longrightarrow> \<exists>s l. (p, s, l) \<in> set es \<and> n \<le> s"
  by (induction rule: list_all2_induct) (fastforce simp: serves_def)+

lemma serves_finalize: "list_all2 serves held es \<Longrightarrow> list_all2 serves held (map (finalize p n) es)"
  by (induction rule: list_all2_induct) (auto simp: serves_def finalize_def)

lemma cb_reachable_ring:
  assumes "cb_reachable sz b held" "sz < 2 ^ 63"
  shows "(\<exists>es. ring b es \<and> list_all2 serves held es) \<and> BufferSize b = sz"
  using assms(1)
proof induction
  case (start m)
  then show ?case using ring_SetSize [OF assms(2), of m] by (auto simp: CB_SetSize_def)
next
  case (push b held n p b')
  then obtain es where es: "ring b es" "list_all2 serves held es" by blast
  have "list_all2 serves (held @ [(p, n)]) (es @ [(p, payload n, 0)])"
    using es(2) payload_bounds(1) [OF push.hyps(2)] by (auto simp: serves_def intro: list_all2_appendI)
  then show ?case using ring_Push [OF es(1) push.hyps(2,3)] CB_BufferSize(1) [of n b] push by auto
next
  case (refused b held n b')
  then show ?case using ring_Push_None by blast
next
  case (pop b held)
  then obtain es where es: "ring b es" "list_all2 serves held es" by blast
  then have "ring (CB_Pop b) (tl es)" "list_all2 serves (tl held) (tl es)"
    using CB_Pop_empty ring_Pop by (cases es; auto simp: list_all2_Cons2)+
  then show ?case using pop CB_BufferSize(2) by auto
next
  case (set_size b held p n k)
  then obtain es where es: "ring b es" "list_all2 serves held es" by blast
  then have "p \<in> fst ` set es" using serves_held [OF es(2) set_size.hyps(2)] by force
  then show ?case using ring_SetBlockSize [OF es(1), of p k] serves_finalize [OF es(2), of p k] set_size CB_BufferSize(3) by metis
next
  case (store b held p n a v)
  then obtain es where es: "ring b es" "list_all2 serves held es" by blast
  from serves_held [OF es(2) store.hyps(2)] obtain s l where "(p, s, l) \<in> set es" "n \<le> s" by blast
  then have "ring (b\<lparr> mem := (mem b)(a := v) \<rparr>) es" using ring_write [OF es(1)] store.hyps by simp
  then show ?case using es(2) store by auto
qed

section \<open>Requests near the top of the address space\<close>

text \<open>The sums of \<^verbatim>\<open>Push\<close> are not checked for overflow. A request of \<open>2 ^ 64 - 32\<close> bytes is granted by every
  buffer whose blocks lie in one run, and moves \<^verbatim>\<open>NewBlock\<close> 8 bytes back, into the last block: the header of
  the next block that fits is put on top of it.\<close>

lemma last_entry_end: "chain s es e \<Longrightarrow> es \<noteq> [] \<Longrightarrow> entry_end (last es) = e"
  by (induction es arbitrary: s) (auto split: if_splits)

theorem CB_Push_wraps:
  assumes "ring b es" "es \<noteq> []" "Back b < NewBlock b"
  shows "\<exists>b'. CB_Push (2 ^ 64 - 32) b = (Some (NewBlock b), b') \<and>
    (\<forall>n. n < 2 ^ 62 \<and> payload n + header_size + NewBlock b < BufferSize b \<longrightarrow>
       (\<exists>p. fst (CB_Push n b') = Some p \<and> fst (last es) < p \<and> p < entry_end (last es)))"
proof -
  from assms have st: "chain (Back b) es (NewBlock b)" "NewBlock b < BufferSize b"
    by (auto elim: ring_layout)
  have big: "unat (EnlargeTo32AL (of_nat (2 ^ 64 - 32))) = 2 ^ 64 - 32"
    by (simp add: EnlargeTo32AL_def)
  obtain p s l where e: "last es = (p, s, l)" by (cases "last es")
  have le: "entry_end (last es) = NewBlock b" by (rule last_entry_end [OF st(1) assms(2)])
  then have nb: "p + header_size \<le> NewBlock b" "Back b \<le> p"
    using e chain_bounds [OF st(1)] last_in_set [OF assms(2)] by fastforce+
  have bs: "BufferSize b < 2 ^ 63" using assms(1) by (simp add: ring_def)
  have sa: "size_add (2 ^ 64 - 32) header_size = 2 ^ 64 - 8" "size_add (2 ^ 64 - 8) (NewBlock b) = NewBlock b - 8"
    "size_add (NewBlock b) (2 ^ 64 - 8) = NewBlock b - 8"
    using nb(1) st(2) bs by (auto simp: size_add_def header_size_def mod_if)
  have "CB_place (2 ^ 64 - 8) b = Some (NewBlock b, NewBlock b - 8)"
    unfolding CB_place_def sa using st(2) assms(3) by simp
  then obtain b' where b': "CB_Push (2 ^ 64 - 32) b = (Some (NewBlock b), b')" "NewBlock b' = NewBlock b - 8"
    "Back b' = Back b" "BufferSize b' = BufferSize b"
    unfolding CB_Push_def Let_def big sa by simp
  have bk: "Back b \<le> NewBlock b - 8" using nb by (simp add: header_size_def)
  have "fst (CB_Push n b') = Some (NewBlock b - 8)"
    if n: "n < 2 ^ 62" "payload n + header_size + NewBlock b < BufferSize b" for n
  proof -
    have "size_add (payload n + header_size) (NewBlock b - 8) < BufferSize b"
      using n bs by (simp add: size_add_def)
    then have "CB_place (payload n + header_size) b' = Some (NewBlock b - 8, size_add (NewBlock b - 8) (payload n + header_size))"
      using b'(2-4) bk by (simp add: CB_place_def)
    then show ?thesis using payload_bounds(5) [OF n(1)]
      by (simp add: CB_Push_def Let_def flip: payload_def)
  qed
  then show ?thesis using b'(1) e le nb by (intro exI [of _ b']) (auto simp: header_size_def)
qed

section \<open>Properties\<close>

text \<open>C4: in every state the clients of the buffer reach by \<open>Push\<close> of requests below 2^62 bytes, \<open>Pop\<close>,
  \<open>SetBlockSize\<close> of a block they hold and writes within the blocks they hold, where the buffer is below
  2^63 bytes, the blocks handed out and not popped yet are, in order, the blocks of the ring, each has the
  room asked for, header and payload lie inside the buffer and no two of them overlap.\<close>

theorem CircularBuffer_no_overlap:
  assumes "cb_reachable sz b held" "sz < 2 ^ 63"
  shows "\<exists>es. ring b es \<and> list_all2 serves held es \<and> (\<forall>x\<in>set es. entry_end x \<le> sz) \<and>
    (\<forall>i j. i < j \<and> j < length es \<longrightarrow>
       entry_end (es ! i) \<le> fst (es ! j) \<or> entry_end (es ! j) \<le> fst (es ! i))"
  using cb_reachable_ring [OF assms] ring_inside ring_disjoint by metis

lemma two_pushes:
  "\<exists>b'. push_all CB_Push [10, 20] (CB_SetSize (\<lambda>_. 0) 100) = Some ([0, 40], b')"
  by (simp add: CB_Push_def CB_place_def CB_SetSize_def size_add_def header_size_def EnlargeTo32AL_def Let_def)

theorem CircularBuffer_no_overlap_witness:
  "\<exists>b. push_all CB_Push [10, 20] (CB_SetSize (\<lambda>_. 0) 100) = Some ([0, 40], b) \<and>
    (\<exists>es. ring b es \<and> list_all2 serves [(0, 10), (40, 20)] es \<and> (\<forall>x\<in>set es. entry_end x \<le> 100) \<and>
      (\<forall>i j. i < j \<and> j < length es \<longrightarrow>
         entry_end (es ! i) \<le> fst (es ! j) \<or> entry_end (es ! j) \<le> fst (es ! i)))"
proof -
  from two_pushes obtain b where b: "push_all CB_Push [10, 20] (CB_SetSize (\<lambda>_. 0) 100) = Some ([0, 40], b)" ..
  then obtain c where c: "CB_Push 10 (CB_SetSize (\<lambda>_. 0) 100) = (Some 0, c)" "CB_Push 20 c = (Some 40, b)"
    by (auto split: prod.splits option.splits)
  have "cb_reachable 100 c ([] @ [(0, 10)])" by (rule cb_reachable.push [OF cb_reachable.start _ c(1)]) simp
  then have "cb_reachable 100 b ([(0, 10)] @ [(40, 20)])" by (intro cb_reachable.push [OF _ _ c(2)]) simp_all
  then show ?thesis using b CircularBuffer_no_overlap [of 100 b "[(0, 10), (40, 20)]"] by simp
qed

text \<open>C20: the buffer is a queue. For a request below 2^62 bytes a successful \<open>Push\<close> appends a block of the
  requested size rounded up to a multiple of 8 and leaves the other blocks alone, a refused one changes
  nothing, \<open>SetBlockSize\<close> of a block in the queue sets the length of that block only, \<open>Pop\<close> removes the oldest
  block, and \<open>Peek\<close> shows the oldest block once its size has been set.\<close>

theorem CircularBuffer_queue:
  assumes "ring b es"
  shows "(n < 2 ^ 62 \<longrightarrow> (case CB_Push n b of
      (None, b') \<Rightarrow> b' = b
    | (Some p, b') \<Rightarrow> \<exists>sz. n \<le> sz \<and> sz < n + 8 \<and> 8 dvd sz \<and> ring b' (es @ [(p, sz, 0)]))) \<and>
    (p \<in> fst ` set es \<longrightarrow> ring (CB_SetBlockSize p k b) (map (finalize p k) es)) \<and>
    ring (CB_Pop b) (tl es) \<and>
    CB_Peek b = (case es of [] \<Rightarrow> None | (p, s, l) # _ \<Rightarrow> if l > 0 then Some p else None)"
proof (intro conjI impI)
  assume n: "n < 2 ^ 62"
  show "case CB_Push n b of (None, b') \<Rightarrow> b' = b
    | (Some p, b') \<Rightarrow> \<exists>sz. n \<le> sz \<and> sz < n + 8 \<and> 8 dvd sz \<and> ring b' (es @ [(p, sz, 0)])"
    using ring_Push [OF assms n] ring_Push_None [of n b] payload_bounds [OF n]
    by (auto split: prod.splits option.splits)
next
  show "ring (CB_Pop b) (tl es)"
    using assms ring_Pop CB_Pop_empty by (cases es) auto
qed (rule ring_SetBlockSize [OF assms], assumption, rule ring_Peek [OF assms])

theorem CircularBuffer_queue_witness:
  "\<exists>b b'. CB_Push 10 (CB_SetSize (\<lambda>_. 0) 100) = (Some 0, b) \<and> ring b [(0, 16, 0)] \<and>
    CB_Push 20 b = (Some 40, b') \<and> (\<exists>sz. 20 \<le> sz \<and> sz < 20 + 8 \<and> 8 dvd sz \<and> ring b' [(0, 16, 0), (40, sz, 0)]) \<and>
    ring (CB_SetBlockSize 0 7 b) [(0, 16, 7)] \<and> ring (CB_Pop b) [] \<and> CB_Peek b = None"
proof -
  from two_pushes obtain b b' where
    c: "CB_Push 10 (CB_SetSize (\<lambda>_. 0) 100) = (Some 0, b)" "CB_Push 20 b = (Some 40, b')"
    by (auto split: prod.splits option.splits)
  have "payload 10 = 16" by (simp add: payload_def EnlargeTo32AL_def)
  then have r: "ring b [(0, 16, 0)]" using ring_Push [OF ring_SetSize _ c(1)] by simp
  show ?thesis using CircularBuffer_queue [OF r, of 20 0 7] r c by simp
qed

text \<open>C3: first in, first out: after pushing any sequence of requests that fit and popping as many
  blocks as were there before, exactly the pushed blocks remain, in order.\<close>

theorem CircularBuffer_fifo:
  assumes "ring b es" "\<forall>n\<in>set ns. n < 2 ^ 62" "push_all CB_Push ns b = Some (ps, b')"
  shows "ring ((CB_Pop ^^ length es) b') (map2 (\<lambda>p n. (p, payload n, 0)) ps ns)"
  by (rule cbq.fifo [OF assms])

theorem CircularBuffer_fifo_witness:
  "\<exists>b'. push_all CB_Push [10, 20] (CB_SetSize (\<lambda>_. 0) 100) = Some ([0, 40], b') \<and>
     ring ((CB_Pop ^^ length ([] :: entry list)) b') (map2 (\<lambda>p n. (p, payload n, 0)) [0, 40] [10, 20])"
proof -
  from two_pushes obtain b' where b: "push_all CB_Push [10, 20] (CB_SetSize (\<lambda>_. 0) 100) = Some ([0, 40], b')" ..
  then show ?thesis using CircularBuffer_fifo [OF ring_SetSize [of 100] _ b] by simp
qed

end
