(* ===== verification/BoolArray.thy ===== *)
theory BoolArray
  imports Bits "HOL-Library.Monad_Syntax"
begin

text \<open>
  \<^verbatim>\<open>rt::BooleanArray<BIT_SIZE>\<close> of \<^verbatim>\<open>core/rt/buffer_type.h\<close>: a packed bit set of \<open>N\<close> bits in 64-bit blocks. The
  state is the list of blocks. A C++ shift by 64 or more and an access outside the blocks are
  undefined behaviour: \<open>None\<close>.
\<close>

unbundle bit_operations_syntax

section \<open>Definitions\<close>

type_synonym bit_blocks = "u64 list"

(*@ core/rt/buffer_type.h 741-741 rt::BooleanArray::BLOCK_SIZE *)
definition BLOCK_SIZE :: nat where "BLOCK_SIZE = 64"

(*@ core/rt/buffer_type.h 742-742 rt::BooleanArray::BLOCK_COUNT *)
definition BLOCK_COUNT :: "nat \<Rightarrow> nat" where
  "BLOCK_COUNT N = (N + BLOCK_SIZE - 1) div BLOCK_SIZE"

definition shl64 :: "u64 \<Rightarrow> nat \<Rightarrow> u64 option" where
  "shl64 w n = (if n < 64 then Some (push_bit n w) else None)"

definition shr64 :: "u64 \<Rightarrow> nat \<Rightarrow> u64 option" where
  "shr64 w n = (if n < 64 then Some (drop_bit n w) else None)"

definition get_block :: "bit_blocks \<Rightarrow> nat \<Rightarrow> u64 option" where
  "get_block bs i = (if i < length bs then Some (bs ! i) else None)"

definition set_block :: "bit_blocks \<Rightarrow> nat \<Rightarrow> u64 \<Rightarrow> bit_blocks option" where
  "set_block bs i w = (if i < length bs then Some (bs[i := w]) else None)"

(*@ core/rt/buffer_type.h 745-745 rt::BooleanArray::_BlockBitmask *)
definition BlockBitmask :: "nat \<Rightarrow> u64" where
  "BlockBitmask idx = push_bit (idx mod BLOCK_SIZE) 1"

(*@ core/rt/buffer_type.h 746-746 rt::BooleanArray::_ClearTrailingBits *)
definition ClearTrailingBits :: "nat \<Rightarrow> bit_blocks \<Rightarrow> bit_blocks option" where
  "ClearTrailingBits N bs =
    do { m \<leftarrow> shr64 (NOT 0) (BLOCK_SIZE - N mod BLOCK_SIZE);
         w \<leftarrow> get_block bs (BLOCK_COUNT N - 1);
         set_block bs (BLOCK_COUNT N - 1) (w AND m) }"

(*@ core/rt/buffer_type.h 748-757 rt::BooleanArray::Index *)
record Index =
  BlockOffset :: nat
  Bitmask :: u64

(*@ core/rt/buffer_type.h 753-756 rt::BooleanArray::Index::Index *)
definition mk_Index :: "nat \<Rightarrow> Index" where
  "mk_Index idx = \<lparr> BlockOffset = idx div BLOCK_SIZE, Bitmask = BlockBitmask idx \<rparr>"

(*@ core/rt/buffer_type.h 759-759 rt::BooleanArray::Get *)
definition BA_Get :: "bit_blocks \<Rightarrow> Index \<Rightarrow> bool option" where
  "BA_Get bs idx = map_option (\<lambda>w. w AND Bitmask idx \<noteq> 0) (get_block bs (BlockOffset idx))"

(*@ core/rt/buffer_type.h 760-765 rt::BooleanArray::Set *)
definition BA_Set :: "bit_blocks \<Rightarrow> Index \<Rightarrow> bool \<Rightarrow> bit_blocks option" where
  "BA_Set bs idx v =
    do { w \<leftarrow> get_block bs (BlockOffset idx);
         set_block bs (BlockOffset idx) (if v then w OR Bitmask idx else w AND NOT (Bitmask idx)) }"

(*@ core/rt/buffer_type.h 766-766 rt::BooleanArray::Reset *)
definition BA_Reset :: "bit_blocks \<Rightarrow> Index \<Rightarrow> bit_blocks option" where
  "BA_Reset bs idx = BA_Set bs idx False"

(*@ core/rt/buffer_type.h 767-767 rt::BooleanArray::False *)
definition BA_False :: "bit_blocks \<Rightarrow> bit_blocks" where
  "BA_False bs = map (\<lambda>_. 0) bs"

(*@ core/rt/buffer_type.h 768-768 rt::BooleanArray::True *)
definition BA_True :: "nat \<Rightarrow> bit_blocks \<Rightarrow> bit_blocks option" where
  "BA_True N bs = ClearTrailingBits N (map (\<lambda>_. - 1) bs)"

(*@ core/rt/buffer_type.h 769-769 rt::BooleanArray::IsFalse *)
fun BA_IsFalse :: "bit_blocks \<Rightarrow> bool" where
  "BA_IsFalse [] = True"
| "BA_IsFalse (w # bs) = (if w \<noteq> 0 then False else BA_IsFalse bs)"

(*@ core/rt/buffer_type.h 770-770 rt::BooleanArray::PopCount *)
definition BA_PopCount :: "bit_blocks \<Rightarrow> int" where
  "BA_PopCount bs = foldl (\<lambda>pc w. pc + PopCount w) 0 bs"

(*@ core/rt/buffer_type.h 771-771 rt::BooleanArray::operator^= *)
definition BA_xor :: "bit_blocks \<Rightarrow> bit_blocks \<Rightarrow> bit_blocks" where
  "BA_xor bs xs = map2 (\<lambda>w x. w XOR x) bs xs"

(*@ core/rt/buffer_type.h 772-772 rt::BooleanArray::operator|= *)
definition BA_or :: "bit_blocks \<Rightarrow> bit_blocks \<Rightarrow> bit_blocks" where
  "BA_or bs xs = map2 (\<lambda>w x. w OR x) bs xs"

text \<open>The positions handed to the callback, in order; the result of \<^verbatim>\<open>VisitOnes\<close> is their number. The
  last block is scanned up to \<^verbatim>\<open>BIT_SIZE%BLOCK_SIZE\<close> only.\<close>

(*@ core/rt/buffer_type.h 777-785 rt::BooleanArray::VisitOnes *)
definition visit_block :: "nat \<Rightarrow> nat \<Rightarrow> u64 \<Rightarrow> nat list" where
  "visit_block i n bits =
    (if bits \<noteq> 0 then map (\<lambda>b. i * BLOCK_SIZE + b) (filter (\<lambda>b. bits AND push_bit b 1 \<noteq> 0) [0..<n]) else [])"

(*@ core/rt/buffer_type.h 773-797 rt::BooleanArray::VisitOnes *)
definition VisitOnes :: "nat \<Rightarrow> bit_blocks \<Rightarrow> nat list" where
  "VisitOnes N bs =
    concat (map (\<lambda>i. visit_block i BLOCK_SIZE (bs ! i)) [0..<length bs - 1]) @
    visit_block (length bs - 1) (N mod BLOCK_SIZE) (bs ! (length bs - 1))"

(*@ core/rt/buffer_type.h 798-807 rt::BooleanArray::ForEach *)
definition BA_ForEach :: "nat \<Rightarrow> bit_blocks \<Rightarrow> bool list" where
  "BA_ForEach N bs =
    concat (map (\<lambda>i. map (\<lambda>b. bs ! i AND push_bit b 1 \<noteq> 0) [0..<BLOCK_SIZE]) [0..<length bs - 1]) @
    map (\<lambda>b. bs ! (length bs - 1) AND push_bit b 1 \<noteq> 0) [0..<N mod BLOCK_SIZE]"

(*@ core/rt/buffer_type.h 808-814 rt::BooleanArray::ToString *)
definition BA_ToString :: "byte \<Rightarrow> byte \<Rightarrow> nat \<Rightarrow> bit_blocks \<Rightarrow> bytes \<Rightarrow> bytes" where
  "BA_ToString one zero N bs app = app @ map (\<lambda>v. if v then one else zero) (BA_ForEach N bs)"

(*@ core/rt/buffer_type.h 824-828 rt::BooleanArray::BooleanArray *)
fun BA_init_loop :: "nat \<Rightarrow> bool list \<Rightarrow> bit_blocks \<Rightarrow> bit_blocks option" where
  "BA_init_loop i [] bs = Some bs"
| "BA_init_loop i (b # args) bs = do { bs \<leftarrow> BA_Set bs (mk_Index i) b; BA_init_loop (i + 1) args bs }"

(*@ core/rt/buffer_type.h 824-828 rt::BooleanArray::BooleanArray *)
definition BA_init :: "nat \<Rightarrow> bool list \<Rightarrow> bit_blocks option" where
  "BA_init N args = BA_init_loop 0 args (replicate (BLOCK_COUNT N) 0)"

subsection \<open>Shifts\<close>

text \<open>The loop condition \<^verbatim>\<open>0 < i - offset\<close> is unsigned: below \<open>offset\<close> it stays true and the access
  leaves the array.\<close>

(*@ core/rt/buffer_type.h 833-835 rt::BooleanArray::LeftShift *)
fun LeftShift_loop :: "nat \<Rightarrow> nat \<Rightarrow> nat \<Rightarrow> bit_blocks \<Rightarrow> (bit_blocks \<times> nat) option" where
  "LeftShift_loop offset s i bs =
    (if i = offset then Some (bs, i)
     else if i < offset then None
     else do { a \<leftarrow> get_block bs (i - offset); a \<leftarrow> shl64 a s;
               c \<leftarrow> get_block bs (i - offset - 1); c \<leftarrow> shr64 c (BLOCK_SIZE - s);
               bs \<leftarrow> set_block bs i (a OR c);
               LeftShift_loop offset s (i - 1) bs })"

declare LeftShift_loop.simps [simp del]

text \<open>\<^verbatim>\<open>rt::Zero(_Bits, (i-1)*BLOCK_SIZE/8)\<close> clears \<open>i - 1\<close> blocks.\<close>

(*@ core/rt/buffer_type.h 830-839 rt::BooleanArray::LeftShift *)
definition LeftShift :: "nat \<Rightarrow> nat \<Rightarrow> bit_blocks \<Rightarrow> bit_blocks option" where
  "LeftShift N s bs =
    (if s = 0 then Some bs
     else if s > N then Some (BA_False bs)
     else let offset = s div BLOCK_SIZE; s = s mod BLOCK_SIZE in
       do { (bs, i) \<leftarrow> LeftShift_loop offset s (BLOCK_COUNT N - 1) bs;
            w \<leftarrow> get_block bs (i - offset); w \<leftarrow> shl64 w s;
            bs \<leftarrow> set_block bs i w;
            let bs = (if i \<noteq> 0 then map (\<lambda>_. 0) (take (i - 1) bs) @ drop (i - 1) bs else bs);
            ClearTrailingBits N bs })"

(*@ core/rt/buffer_type.h 843-845 rt::BooleanArray::RightShift *)
function RightShift_loop :: "nat \<Rightarrow> nat \<Rightarrow> nat \<Rightarrow> nat \<Rightarrow> bit_blocks \<Rightarrow> (bit_blocks \<times> nat) option" where
  "RightShift_loop bcount offset s i bs =
    (if i + offset < bcount - 1 then
       do { a \<leftarrow> get_block bs (i + offset); a \<leftarrow> shr64 a s;
            c \<leftarrow> get_block bs (i + offset + 1); c \<leftarrow> shl64 c (BLOCK_SIZE - s);
            bs \<leftarrow> set_block bs i (a OR c);
            RightShift_loop bcount offset s (i + 1) bs }
     else Some (bs, i))"
  by pat_completeness auto
termination by (relation "measure (\<lambda>(bcount, offset, s, i, bs). bcount - i)") auto

declare RightShift_loop.simps [simp del]

(*@ core/rt/buffer_type.h 840-848 rt::BooleanArray::RightShift *)
definition RightShift :: "nat \<Rightarrow> nat \<Rightarrow> bit_blocks \<Rightarrow> bit_blocks option" where
  "RightShift N s bs =
    (if s = 0 then Some bs
     else if s > N then Some (BA_False bs)
     else let offset = s div BLOCK_SIZE; s = s mod BLOCK_SIZE in
       do { (bs, i) \<leftarrow> RightShift_loop (BLOCK_COUNT N) offset s 0 bs;
            w \<leftarrow> get_block bs (i + offset); w \<leftarrow> shr64 w s;
            bs \<leftarrow> set_block bs i w;
            Some (if i + 1 < BLOCK_COUNT N then take (i + 1) bs @ map (\<lambda>_. 0) (drop (i + 1) bs) else bs) })"

(*@ core/rt/buffer_type.h 829-829 rt::BooleanArray::Shift *)
definition BA_Shift :: "nat \<Rightarrow> int \<Rightarrow> bit_blocks \<Rightarrow> bit_blocks option" where
  "BA_Shift N s bs = (if s > 0 then LeftShift N (nat s) bs else RightShift N (nat (- s)) bs)"

section \<open>The bits of the array\<close>

text \<open>The bit at a position; positions past the last block are clear.\<close>

definition ba_bit :: "bit_blocks \<Rightarrow> nat \<Rightarrow> bool" where
  "ba_bit bs i \<longleftrightarrow> i div 64 < length bs \<and> bit (bs ! (i div 64)) (i mod 64)"

lemma and_push_bit: "(w :: u64) AND push_bit k 1 \<noteq> 0 \<longleftrightarrow> bit w k"
  by (simp add: bit_iff_and_push_bit_not_eq_0)

lemma BA_Get_bit: "i div 64 < length bs \<Longrightarrow> BA_Get bs (mk_Index i) = Some (ba_bit bs i)"
  using and_push_bit [of "bs ! (i div 64)" "i mod 64"]
  by (simp add: BA_Get_def mk_Index_def get_block_def BlockBitmask_def BLOCK_SIZE_def ba_bit_def)

lemma BA_Set_bit:
  assumes "i div 64 < length bs"
  shows "\<exists>bs'. BA_Set bs (mk_Index i) v = Some bs' \<and> length bs' = length bs \<and>
    (\<forall>j. ba_bit bs' j = (if j = i then v else ba_bit bs j))"
proof -
  let ?m = "push_bit (i mod 64) 1 :: u64"
  let ?w = "if v then bs ! (i div 64) OR ?m else bs ! (i div 64) AND NOT ?m"
  have w: "bit ?w k = (if k = i mod 64 then v else bit (bs ! (i div 64)) k)" if "k < 64" for k
    using that by (auto simp: bit_simps)
  have "ba_bit (bs[i div 64 := ?w]) j = (if j = i then v else ba_bit bs j)" for j
  proof (cases "j div 64 = i div 64")
    case True
    then have "j = i \<longleftrightarrow> j mod 64 = i mod 64" by (metis div_mult_mod_eq)
    then show ?thesis using True assms w [of "j mod 64"] by (auto simp: ba_bit_def)
  next
    case False
    then show ?thesis using assms by (auto simp: ba_bit_def)
  qed
  then show ?thesis using assms
    by (auto simp: BA_Set_def mk_Index_def get_block_def set_block_def BlockBitmask_def BLOCK_SIZE_def)
qed

lemma visit_block_eq: "visit_block i n w = map (\<lambda>b. i * 64 + b) (filter (bit w) [0..<n])"
  unfolding visit_block_def and_push_bit BLOCK_SIZE_def by simp

lemma filter_upt_shift: "filter P [k..<k + n] = map (\<lambda>b. k + b) (filter (\<lambda>b. P (k + b)) [0..<n])"
proof -
  have "[k..<k + n] = map (\<lambda>b. k + b) [0..<n]" using map_add_upt [of k n] by (simp add: add.commute)
  then show ?thesis by (simp add: filter_map o_def)
qed

lemma VisitOnes_prefix:
  "k \<le> length bs \<Longrightarrow> concat (map (\<lambda>i. visit_block i 64 (bs ! i)) [0..<k]) = filter (ba_bit bs) [0..<64 * k]"
proof (induction k)
  case (Suc k)
  have "filter (ba_bit bs) [64 * k..<64 * k + 64] = map (\<lambda>b. 64 * k + b) (filter (\<lambda>b. ba_bit bs (64 * k + b)) [0..<64])"
    by (rule filter_upt_shift)
  also have "filter (\<lambda>b. ba_bit bs (64 * k + b)) [0..<64] = filter (bit (bs ! k)) [0..<64]"
    using Suc.prems by (intro filter_cong) (auto simp: ba_bit_def)
  also have "map (\<lambda>b. 64 * k + b) (filter (bit (bs ! k)) [0..<64]) = visit_block k 64 (bs ! k)"
    by (simp add: visit_block_eq mult.commute)
  finally have "filter (ba_bit bs) [64 * k..<64 * k + 64] = visit_block k 64 (bs ! k)" .
  moreover have "[0..<64 * Suc k] = [0..<64 * k] @ [64 * k..<64 * k + 64]"
    by (metis add.commute mult_Suc_right upt_add_eq_append zero_le)
  ultimately show ?case using Suc by simp
qed simp

lemma BLOCK_COUNT_mod: "N mod 64 \<noteq> 0 \<Longrightarrow> N = 64 * (BLOCK_COUNT N - 1) + N mod 64 \<and> 0 < BLOCK_COUNT N"
proof -
  assume "N mod 64 \<noteq> 0"
  then have "1 \<le> N mod 64" "N mod 64 < 64" by simp_all
  moreover define q r where "q = N div 64" and "r = N mod 64"
  ultimately have "N = 64 * q + r" "1 \<le> r" "r < 64" by simp_all
  then have "(N + 63) div 64 = q + 1" by (intro div_nat_eqI) simp_all
  then have "(N + 63) div 64 = N div 64 + 1" by (simp add: q_def)
  then show ?thesis by (simp add: BLOCK_COUNT_def BLOCK_SIZE_def add.commute)
qed

lemma BLOCK_COUNT_bound: "N \<le> 64 * BLOCK_COUNT N"
  unfolding BLOCK_COUNT_def BLOCK_SIZE_def by linarith

lemma BLOCK_COUNT_gt: "S mod 64 \<noteq> 0 \<Longrightarrow> S \<le> N \<Longrightarrow> S div 64 < BLOCK_COUNT N"
proof -
  assume S: "S mod 64 \<noteq> 0" "S \<le> N"
  have "BLOCK_COUNT S \<le> BLOCK_COUNT N"
    unfolding BLOCK_COUNT_def BLOCK_SIZE_def by (rule div_le_mono) (use S(2) in simp)
  then show ?thesis using BLOCK_COUNT_mod [OF S(1)] by linarith
qed

lemma VisitOnes_eq:
  assumes "length bs = BLOCK_COUNT N" "N mod 64 \<noteq> 0"
  shows "VisitOnes N bs = filter (ba_bit bs) [0..<N]"
proof -
  define k where "k = BLOCK_COUNT N - 1"
  note n = BLOCK_COUNT_mod [OF assms(2)]
  have N: "N = 64 * k + N mod 64" and len: "length bs = Suc k" using n assms(1) by (auto simp: k_def)
  have "filter (ba_bit bs) [64 * k..<64 * k + N mod 64] = map (\<lambda>b. 64 * k + b) (filter (\<lambda>b. ba_bit bs (64 * k + b)) [0..<N mod 64])"
    by (rule filter_upt_shift)
  also have "filter (\<lambda>b. ba_bit bs (64 * k + b)) [0..<N mod 64] = filter (bit (bs ! k)) [0..<N mod 64]"
  proof (intro filter_cong refl)
    fix b assume "b \<in> set [0..<N mod 64]"
    then have "b < 64" by (simp add: order_less_trans)
    then show "ba_bit bs (64 * k + b) = bit (bs ! k) b" using len by (simp add: ba_bit_def)
  qed
  finally have l: "filter (ba_bit bs) [64 * k..<64 * k + N mod 64] = visit_block k (N mod 64) (bs ! k)"
    by (simp add: visit_block_eq mult.commute)
  have "[0..<N] = [0..<64 * k] @ [64 * k..<64 * k + N mod 64]"
    by (metis N upt_add_eq_append zero_le)
  then show ?thesis using l VisitOnes_prefix [of k bs] len by (simp add: VisitOnes_def BLOCK_SIZE_def)
qed

text \<open>For a size that is a multiple of the block size the last block is not scanned at all.\<close>

lemma VisitOnes_multiple:
  assumes "length bs = BLOCK_COUNT N" "N mod 64 = 0"
  shows "VisitOnes N bs = filter (ba_bit bs) [0..<N - 64]"
proof -
  obtain q where q: "N = 64 * q" using assms(2) by (metis mod_0_imp_dvd dvdE)
  have "BLOCK_COUNT N = q" by (cases q) (simp_all add: BLOCK_COUNT_def BLOCK_SIZE_def q div_nat_eqI)
  then have "length bs = q" using assms(1) by simp
  then show ?thesis using VisitOnes_prefix [of "q - 1" bs] assms(2) by (simp add: VisitOnes_def BLOCK_SIZE_def visit_block_def q right_diff_distrib')
qed

lemma int_sum_list: "int (sum_list (map f xs)) = sum_list (map (\<lambda>x. int (f x)) xs)"
  by (induction xs) auto

lemma BA_PopCount_eq: "BA_PopCount bs = int (length (filter (ba_bit bs) [0..<64 * length bs]))"
proof -
  have f: "foldl (\<lambda>pc w. pc + PopCount w) a bs = a + sum_list (map PopCount bs)" for a bs
    by (induction bs arbitrary: a) auto
  have "length (filter (ba_bit bs) [0..<64 * length bs]) = sum_list (map (\<lambda>i. length (visit_block i 64 (bs ! i))) [0..<length bs])"
    by (simp add: VisitOnes_prefix [symmetric] length_concat o_def)
  also have "\<dots> = sum_list (map (\<lambda>i. builtin_popcount (bs ! i)) [0..<length bs])"
    by (simp add: visit_block_eq builtin_popcount_def bits_of_def filter_map o_def)
  also have "int \<dots> = sum_list (map (\<lambda>i. PopCount (bs ! i)) [0..<length bs])"
    by (simp add: PopCount_eq int_sum_list)
  also have "map (\<lambda>i. PopCount (bs ! i)) [0..<length bs] = map PopCount bs"
    by (rule nth_equalityI) simp_all
  finally show ?thesis by (simp add: BA_PopCount_def f)
qed

lemma RightShift_loop_spec:
  assumes s: "0 < s" "s < 64" and len: "length bs = n" and off: "off < n"
  shows "length cs = n \<Longrightarrow> i + off \<le> n - 1 \<Longrightarrow> (\<forall>k<i. cs ! k = drop_bit s (bs ! (k + off)) OR push_bit (64 - s) (bs ! (k + off + 1))) \<Longrightarrow>
    (\<forall>k. i \<le> k \<and> k < n \<longrightarrow> cs ! k = bs ! k) \<Longrightarrow>
    \<exists>ds. RightShift_loop n off s i cs = Some (ds, n - 1 - off) \<and> length ds = n \<and>
     (\<forall>k<n - 1 - off. ds ! k = drop_bit s (bs ! (k + off)) OR push_bit (64 - s) (bs ! (k + off + 1))) \<and>
     (\<forall>k. n - 1 - off \<le> k \<and> k < n \<longrightarrow> ds ! k = bs ! k)"
proof (induction "n - 1 - off - i" arbitrary: i cs)
  case 0
  then have "i = n - 1 - off" by simp
  then show ?case using 0 by (subst RightShift_loop.simps) auto
next
  case (Suc d)
  let ?w = "drop_bit s (bs ! (i + off)) OR push_bit (64 - s) (bs ! (i + off + 1))"
  have i: "i + off < n - 1" using Suc.hyps(2) by simp
  then have "i + off < n" "i + off + 1 < n" "i < n" by auto
  with i have "RightShift_loop n off s i cs = RightShift_loop n off s (i + 1) (cs[i := ?w])"
    using Suc.prems s by (subst RightShift_loop.simps) (simp add: get_block_def set_block_def shr64_def shl64_def BLOCK_SIZE_def)
  moreover have "\<exists>ds. RightShift_loop n off s (i + 1) (cs[i := ?w]) = Some (ds, n - 1 - off) \<and> length ds = n \<and>
     (\<forall>k<n - 1 - off. ds ! k = drop_bit s (bs ! (k + off)) OR push_bit (64 - s) (bs ! (k + off + 1))) \<and>
     (\<forall>k. n - 1 - off \<le> k \<and> k < n \<longrightarrow> ds ! k = bs ! k)"
    by (rule Suc.hyps) (use Suc.hyps(2) Suc.prems i in \<open>auto simp: nth_list_update less_Suc_eq\<close>)
  ultimately show ?case by simp
qed

lemma bit_shift_pair:
  fixes a b :: u64
  assumes "0 < s" "s < 64" "n < 64"
  shows "bit (drop_bit s a OR push_bit (64 - s) b) n \<longleftrightarrow> (if n + s < 64 then bit a (n + s) else bit b (n + s - 64))"
proof -
  have "\<not> bit a (n + s)" if "\<not> n + s < 64" using that bit_imp_le_length [of a "n + s"] by auto
  then show ?thesis using assms by (auto simp: bit_simps add.commute)
qed

lemma div_mod_add_64:
  fixes n s k off :: nat
  assumes "n < 64" "s < 64"
  shows "(64 * k + n + (64 * off + s)) div 64 = k + off + (if n + s < 64 then 0 else 1)"
    "(64 * k + n + (64 * off + s)) mod 64 = (if n + s < 64 then n + s else n + s - 64)"
proof -
  have e: "64 * k + n + (64 * off + s) = 64 * (k + off) + (n + s)" by simp
  show "(64 * k + n + (64 * off + s)) div 64 = k + off + (if n + s < 64 then 0 else 1)"
    unfolding e using assms by (intro div_nat_eqI) auto
  then show "(64 * k + n + (64 * off + s)) mod 64 = (if n + s < 64 then n + s else n + s - 64)"
    unfolding minus_mult_div_eq_mod [symmetric] using assms by simp
qed

lemma RightShift_spec:
  assumes len: "length bs = BLOCK_COUNT N" and S: "S mod 64 \<noteq> 0" "S \<le> N"
  shows "\<exists>cs. RightShift N S bs = Some cs \<and> length cs = length bs \<and> (\<forall>i. ba_bit cs i = (i < 64 * length bs \<and> ba_bit bs (i + S)))"
proof -
  define n off s where "n = BLOCK_COUNT N" and "off = S div 64" and "s = S mod 64"
  have s: "0 < s" "s < 64" "S = 64 * off + s" using S(1) by (auto simp: s_def off_def)
  have off: "off < n" using BLOCK_COUNT_gt [OF S] by (simp add: n_def off_def)
  define j where "j = n - 1 - off"
  obtain ds where ds: "RightShift_loop n off s 0 bs = Some (ds, j)" "length ds = n"
     "\<forall>k<j. ds ! k = drop_bit s (bs ! (k + off)) OR push_bit (64 - s) (bs ! (k + off + 1))"
     "\<forall>k. j \<le> k \<and> k < n \<longrightarrow> ds ! k = bs ! k"
  proof -
    have "off \<le> n - 1" using off by simp
    then show thesis using RightShift_loop_spec [OF s(1,2) len [folded n_def] off, of bs 0] len that by (auto simp: n_def j_def)
  qed
  have j: "j + off = n - 1" "j < n" "0 < n" using off by (auto simp: j_def)
  define es where "es = ds[j := drop_bit s (bs ! (n - 1))]"
  define fs where "fs = (if j + 1 < n then take (j + 1) es @ map (\<lambda>_. 0) (drop (j + 1) es) else es)"
  have "RightShift N S bs = Some fs"
    using s S ds j by (simp add: RightShift_def Let_def get_block_def set_block_def shr64_def BLOCK_SIZE_def
        fs_def es_def flip: n_def off_def s_def)
  moreover have lf: "length fs = n" using ds(2) by (auto simp: fs_def es_def)
  moreover have "ba_bit fs i = (i < 64 * n \<and> ba_bit bs (i + S))" for i
  proof -
    define k m where "k = i div 64" and "m = i mod 64"
    have i: "i = 64 * k + m" "m < 64" by (auto simp: k_def m_def)
    have dm: "(i + S) div 64 = k + off + (if m + s < 64 then 0 else 1)" "(i + S) mod 64 = (if m + s < 64 then m + s else m + s - 64)"
      using div_mod_add_64 [OF i(2) s(2), of k off] i s by auto
    have fk: "fs ! k = (if k < j then drop_bit s (bs ! (k + off)) OR push_bit (64 - s) (bs ! (k + off + 1))
        else if k = j then drop_bit s (bs ! (n - 1)) else 0)" if "k < n"
      using that ds j by (auto simp: fs_def es_def nth_append)
    have "ba_bit fs i \<longleftrightarrow> k < n \<and> bit (fs ! k) m" by (simp add: ba_bit_def lf k_def m_def)
    moreover have "i < 64 * n \<longleftrightarrow> k < n" using i by auto
    moreover have "bit (fs ! k) m \<longleftrightarrow> ba_bit bs (i + S)" if k: "k < n"
    proof -
      consider "k < j" | "k = j" | "j < k" by linarith
      then show ?thesis
      proof cases
        case 1
        then show ?thesis using bit_shift_pair [OF s(1,2) i(2)] fk [OF k] dm j len by (auto simp: ba_bit_def n_def)
      next
        case 2
        have "\<not> bit (bs ! (n - 1)) (m + s)" if "\<not> m + s < 64"
          using that bit_imp_le_length [of "bs ! (n - 1)" "m + s"] by auto
        then show ?thesis using fk [OF k] dm j len 2 by (auto simp: ba_bit_def n_def bit_simps add.commute)
      next
        case 3
        then show ?thesis using fk [OF k] dm j len by (auto simp: ba_bit_def n_def)
      qed
    qed
    ultimately show ?thesis by blast
  qed
  ultimately show ?thesis using len by (auto simp: n_def)
qed

text \<open>The left shift by less than a block, on the blocks \<open>i\<close> downwards.\<close>

lemma LeftShift_loop_spec:
  assumes s: "0 < s" "s < 64" and len: "length bs = n"
  shows "length cs = n \<Longrightarrow> i < n \<Longrightarrow> (\<forall>k. i < k \<and> k < n \<longrightarrow> cs ! k = push_bit s (bs ! k) OR drop_bit (64 - s) (bs ! (k - 1))) \<Longrightarrow>
    (\<forall>k\<le>i. cs ! k = bs ! k) \<Longrightarrow>
    \<exists>ds. LeftShift_loop 0 s i cs = Some (ds, 0) \<and> length ds = n \<and> ds ! 0 = bs ! 0 \<and>
     (\<forall>k. 0 < k \<and> k < n \<longrightarrow> ds ! k = push_bit s (bs ! k) OR drop_bit (64 - s) (bs ! (k - 1)))"
proof (induction i arbitrary: cs)
  case 0
  then show ?case by (subst LeftShift_loop.simps) auto
next
  case (Suc i)
  let ?w = "push_bit s (bs ! Suc i) OR drop_bit (64 - s) (bs ! i)"
  have "LeftShift_loop 0 s (Suc i) cs = LeftShift_loop 0 s i (cs[Suc i := ?w])"
    using Suc.prems s by (subst LeftShift_loop.simps) (simp add: get_block_def set_block_def shr64_def shl64_def BLOCK_SIZE_def)
  moreover have "\<exists>ds. LeftShift_loop 0 s i (cs[Suc i := ?w]) = Some (ds, 0) \<and> length ds = n \<and> ds ! 0 = bs ! 0 \<and>
     (\<forall>k. 0 < k \<and> k < n \<longrightarrow> ds ! k = push_bit s (bs ! k) OR drop_bit (64 - s) (bs ! (k - 1)))"
    by (rule Suc.IH) (use Suc.prems in \<open>auto simp: nth_list_update\<close>)
  ultimately show ?case by simp
qed

lemma block_less: "m < (64 :: nat) \<Longrightarrow> r \<le> 64 \<Longrightarrow> 64 * k + m < 64 * n + r \<longleftrightarrow> k < n \<or> k = n \<and> m < r"
  by (cases k n rule: linorder_cases) simp_all

lemma ClearTrailingBits_bit:
  assumes "length bs = BLOCK_COUNT N" "N mod 64 \<noteq> 0"
  shows "\<exists>cs. ClearTrailingBits N bs = Some cs \<and> length cs = length bs \<and> (\<forall>i. ba_bit cs i = (i < N \<and> ba_bit bs i))"
proof -
  define n r where "n = BLOCK_COUNT N - 1" and "r = N mod 64"
  have r: "0 < r" "r < 64" and N: "N = 64 * n + r" and len: "length bs = Suc n"
    using BLOCK_COUNT_mod [OF assms(2)] assms by (auto simp: n_def r_def)
  let ?w = "bs ! n AND drop_bit (64 - r) (NOT 0)"
  have w: "bit ?w m \<longleftrightarrow> m < r \<and> bit (bs ! n) m" if "m < 64" for m
    using that r by (auto simp: bit_simps)
  have "ba_bit (bs[n := ?w]) i = (i < N \<and> ba_bit bs i)" for i
  proof -
    define k m where "k = i div 64" and "m = i mod 64"
    have i: "i = 64 * k + m" "m < 64" by (auto simp: k_def m_def)
    have "ba_bit (bs[n := ?w]) i \<longleftrightarrow> k < Suc n \<and> bit (bs[n := ?w] ! k) m" by (simp add: ba_bit_def len k_def m_def)
    moreover have "ba_bit bs i \<longleftrightarrow> k < Suc n \<and> bit (bs ! k) m" by (simp add: ba_bit_def len k_def m_def)
    moreover have "i < N \<longleftrightarrow> k < n \<or> k = n \<and> m < r" using block_less [of m r k n] i N r by (simp only: less_imp_le)
    ultimately show ?thesis using w [OF i(2)] len by (auto simp: nth_list_update)
  qed
  moreover have "ClearTrailingBits N bs = Some (bs[n := ?w])"
  proof -
    have "64 - r < 64" "n < length bs" using r len by auto
    then show ?thesis
      unfolding ClearTrailingBits_def BLOCK_SIZE_def n_def [symmetric] r_def [symmetric] shr64_def get_block_def set_block_def
      by (simp only: if_True Option.bind.bind_lunit)
  qed
  ultimately show ?thesis by (intro exI [of _ "bs[n := ?w]"]) (simp only: length_list_update simp_thms)
qed

lemma LeftShift_spec:
  assumes len: "length bs = BLOCK_COUNT N" and N: "N mod 64 \<noteq> 0" and s: "0 < s" "s < 64" "s \<le> N"
  shows "\<exists>cs. LeftShift N s bs = Some cs \<and> length cs = length bs \<and>
    (\<forall>i. ba_bit cs i = (i < N \<and> s \<le> i \<and> ba_bit bs (i - s)))"
proof -
  define n where "n = BLOCK_COUNT N"
  have n: "0 < n" "length bs = n" using BLOCK_COUNT_mod [OF N] len by (auto simp: n_def)
  obtain ds where ds: "LeftShift_loop 0 s (n - 1) bs = Some (ds, 0)" "length ds = n" "ds ! 0 = bs ! 0"
     "\<forall>k. 0 < k \<and> k < n \<longrightarrow> ds ! k = push_bit s (bs ! k) OR drop_bit (64 - s) (bs ! (k - 1))"
  proof -
    have "\<exists>ds. LeftShift_loop 0 s (n - 1) bs = Some (ds, 0) \<and> length ds = n \<and> ds ! 0 = bs ! 0 \<and>
     (\<forall>k. 0 < k \<and> k < n \<longrightarrow> ds ! k = push_bit s (bs ! k) OR drop_bit (64 - s) (bs ! (k - 1)))"
      by (rule LeftShift_loop_spec [OF s(1,2) n(2)]) (use n in auto)
    then show thesis using that by blast
  qed
  define es where "es = ds[0 := push_bit s (bs ! 0)]"
  have es: "length es = BLOCK_COUNT N" "es ! 0 = push_bit s (bs ! 0)"
    "\<forall>k. 0 < k \<and> k < n \<longrightarrow> es ! k = push_bit s (bs ! k) OR drop_bit (64 - s) (bs ! (k - 1))"
    using ds n by (auto simp: es_def n_def)
  have "LeftShift N s bs = ClearTrailingBits N es"
    using s ds n by (simp add: LeftShift_def BLOCK_SIZE_def get_block_def set_block_def shl64_def es_def flip: n_def)
  moreover obtain cs where "ClearTrailingBits N es = Some cs" "length cs = length es" "\<forall>i. ba_bit cs i = (i < N \<and> ba_bit es i)"
    using ClearTrailingBits_bit [OF es(1) N] by blast
  moreover have "ba_bit es i = (s \<le> i \<and> ba_bit bs (i - s))" if "i < N" for i
  proof -
    define k m where "k = i div 64" and "m = i mod 64"
    have i: "i = 64 * k + m" "m < 64" by (auto simp: k_def m_def)
    have k: "k < n" using that BLOCK_COUNT_mod [OF N] i n len by (auto simp: n_def)
    have e: "ba_bit es i \<longleftrightarrow> bit (es ! k) m" using k es(1) by (simp add: ba_bit_def k_def m_def n_def)
    show ?thesis
    proof (cases "s \<le> m")
      case True
      then have "i - s = 64 * k + (m - s)" using i(1) by simp
      then have "(i - s) div 64 = k" "(i - s) mod 64 = m - s" using i(2) by auto
      moreover have "\<not> bit (bs ! (k - 1)) (m + (64 - s))" using True bit_imp_le_length [of "bs ! (k - 1)" "m + (64 - s)"] s by auto
      ultimately show ?thesis using True e es k i s n by (cases "k = 0") (auto simp: ba_bit_def bit_simps add.commute)
    next
      case False
      show ?thesis
      proof (cases "k = 0")
        case True
        then show ?thesis using False e es i by (auto simp: bit_simps)
      next
        case k0: False
        define c where "c = m + 64 - s"
        have "i - s = 64 * (k - 1) + c" "c < 64" using i k0 False s by (cases k; auto simp: c_def)+
        then have "(i - s) div 64 = k - 1" "(i - s) mod 64 = c" by auto
        then have "(i - s) div 64 = k - 1" "(i - s) mod 64 = m + 64 - s" by (auto simp: c_def)
        then show ?thesis using False k0 e es k i s n by (auto simp: ba_bit_def bit_simps add.commute)
      qed
    qed
  qed
  ultimately show ?thesis using len es(1) by auto
qed

lemma BA_init_loop_spec:
  "i + length args \<le> 64 * length bs \<Longrightarrow> \<exists>cs. BA_init_loop i args bs = Some cs \<and> length cs = length bs \<and>
     (\<forall>j. ba_bit cs j = (if i \<le> j \<and> j < i + length args then args ! (j - i) else ba_bit bs j))"
proof (induction i args bs rule: BA_init_loop.induct)
  case (2 i b args bs)
  have "i div 64 < length bs" using "2.prems" by (simp add: div_less_iff_less_mult mult.commute)
  then obtain cs where cs: "BA_Set bs (mk_Index i) b = Some cs" "length cs = length bs"
    "\<forall>j. ba_bit cs j = (if j = i then b else ba_bit bs j)" using BA_Set_bit [of i bs b] by blast
  obtain ds where ds: "BA_init_loop (i + 1) args cs = Some ds" "length ds = length cs"
    "\<forall>j. ba_bit ds j = (if i + 1 \<le> j \<and> j < i + 1 + length args then args ! (j - (i + 1)) else ba_bit cs j)"
    using "2.IH" [OF cs(1)] "2.prems" cs(2) by auto
  have "ba_bit ds j = (if i \<le> j \<and> j < i + length (b # args) then (b # args) ! (j - i) else ba_bit bs j)" for j
  proof (cases "j = i")
    case False
    then show ?thesis using cs(3) ds(3) by (auto simp: nth_Cons')
  qed (use cs(3) ds(3) in simp)
  then show ?case using cs ds by simp
qed auto

section \<open>Properties\<close>

text \<open>within the blocks, \<open>Set\<close> changes exactly the addressed bit and \<open>Get\<close> reads it.\<close>

theorem BA_Set_Get:
  assumes "i div 64 < length bs" "j div 64 < length bs"
  shows "\<exists>bs'. BA_Set bs (mk_Index i) v = Some bs' \<and> length bs' = length bs \<and>
    BA_Get bs' (mk_Index j) = (if j = i then Some v else BA_Get bs (mk_Index j))"
  using BA_Set_bit [OF assms(1), of v] assms(2) by (auto simp: BA_Get_bit)

theorem BA_Set_Get_witness:
  "\<exists>bs'. BA_Set [0, 0] (mk_Index 70) True = Some bs' \<and> length bs' = length [0, 0 :: u64] \<and>
    BA_Get bs' (mk_Index 3) = (if (3 :: nat) = 70 then Some True else BA_Get [0, 0] (mk_Index 3))"
  by (rule BA_Set_Get) simp_all

text \<open>C30: \<open>VisitOnes\<close> visits the set positions below the size, in increasing order and nothing else, whatever the bits past the size are; when the size is a multiple of 64, however, it
  stops before the last block. \<open>PopCount\<close> counts the set bits of all blocks, so it is the number of visited positions when the size is not a multiple of 64 and the bits past it are
  clear.\<close>

theorem VisitOnes_positions:
  assumes "length bs = BLOCK_COUNT N"
  shows "VisitOnes N bs = filter (ba_bit bs) [0..<if N mod 64 = 0 then N - 64 else N] \<and>
    BA_PopCount bs = int (length (filter (ba_bit bs) [0..<64 * length bs])) \<and>
    (N mod 64 \<noteq> 0 \<and> (\<forall>i\<ge>N. \<not> ba_bit bs i) \<longrightarrow> BA_PopCount bs = int (length (VisitOnes N bs)))"
proof -
  have "N \<le> 64 * length bs" using BLOCK_COUNT_bound assms by simp
  then have "[0..<64 * length bs] = [0..<N] @ [N..<64 * length bs]" by (metis le_add_diff_inverse upt_add_eq_append zero_le)
  moreover have "filter (ba_bit bs) [N..<64 * length bs] = []" if "\<forall>i\<ge>N. \<not> ba_bit bs i" using that by (auto simp: filter_empty_conv)
  ultimately have "N mod 64 \<noteq> 0 \<and> (\<forall>i\<ge>N. \<not> ba_bit bs i) \<longrightarrow> BA_PopCount bs = int (length (VisitOnes N bs))"
    using VisitOnes_eq [OF assms] BA_PopCount_eq [of bs] by auto
  then show ?thesis using VisitOnes_eq [OF assms] VisitOnes_multiple [OF assms] BA_PopCount_eq [of bs] by simp
qed

theorem VisitOnes_positions_witness:
  "VisitOnes 70 [0x204, 0x61] = [2, 9, 64, 69] \<and> VisitOnes 128 [0x204, 0x61] = [2, 9] \<and> BA_PopCount [0x204, 0x61] = 5"
proof -
  have l: "length [0x204, 0x61 :: u64] = BLOCK_COUNT 70" "length [0x204, 0x61 :: u64] = BLOCK_COUNT 128" by (simp_all add: BLOCK_COUNT_def BLOCK_SIZE_def)
  have f: "filter (ba_bit [0x204, 0x61]) [0..<if (70 :: nat) mod 64 = 0 then 70 - 64 else 70] = [2, 9, 64, 69]"
    "filter (ba_bit [0x204, 0x61]) [0..<if (128 :: nat) mod 64 = 0 then 128 - 64 else 128] = [2, 9]"
    "int (length (filter (ba_bit [0x204, 0x61]) [0..<64 * length [0x204, 0x61 :: u64]])) = 5" by code_simp+
  show ?thesis using VisitOnes_positions [OF l(1)] VisitOnes_positions [OF l(2)] unfolding f by blast
qed

text \<open>C31: For a size that is not a multiple of 64, \<open>LeftShift\<close> by less than a block moves every bit up by that amount, fills with zeros and clears the bits past the size; for a
  size that is a multiple of 64 every left shift that is not beyond the size ends in a shift of a word by 64 bits, which is undefined. \<open>RightShift\<close> by an amount that is not a
  multiple of 64 moves every bit down, for any size, and gives zeros when the amount exceeds the size.\<close>

theorem BA_shifts:
  assumes "length bs = BLOCK_COUNT N"
  shows "(N mod 64 \<noteq> 0 \<and> 0 < s \<and> s < 64 \<longrightarrow>
      (\<exists>cs. LeftShift N s bs = Some cs \<and> length cs = length bs \<and> (\<forall>i. ba_bit cs i = (i < N \<and> s \<le> i \<and> ba_bit bs (i - s))))) \<and>
    (N mod 64 = 0 \<and> 0 < s \<and> s \<le> N \<longrightarrow> LeftShift N s bs = None) \<and>
    (s mod 64 \<noteq> 0 \<longrightarrow>
      (\<exists>cs. RightShift N s bs = Some cs \<and> length cs = length bs \<and> (\<forall>i. ba_bit cs i = (s \<le> N \<and> i < 64 * length bs \<and> ba_bit bs (i + s)))))"
proof -
  have z: "\<not> ba_bit (BA_False bs) i" for i by (auto simp: ba_bit_def BA_False_def)
  have l: "length (BA_False bs) = length bs" by (simp add: BA_False_def)
  have "N mod 64 \<noteq> 0 \<and> 0 < s \<and> s < 64 \<longrightarrow>
      (\<exists>cs. LeftShift N s bs = Some cs \<and> length cs = length bs \<and> (\<forall>i. ba_bit cs i = (i < N \<and> s \<le> i \<and> ba_bit bs (i - s))))"
    using LeftShift_spec [OF assms, of s] z l by (cases "s \<le> N") (auto simp: LeftShift_def)
  moreover have "N mod 64 = 0 \<and> 0 < s \<and> s \<le> N \<longrightarrow> LeftShift N s bs = None"
    by (auto simp: LeftShift_def ClearTrailingBits_def shr64_def BLOCK_SIZE_def Let_def split: Option.bind_splits)
  moreover have "s mod 64 \<noteq> 0 \<longrightarrow>
      (\<exists>cs. RightShift N s bs = Some cs \<and> length cs = length bs \<and> (\<forall>i. ba_bit cs i = (s \<le> N \<and> i < 64 * length bs \<and> ba_bit bs (i + s))))"
    using RightShift_spec [OF assms, of s] z l by (cases "s \<le> N") (auto simp: RightShift_def)
  ultimately show ?thesis by blast
qed

theorem BA_shifts_witness:
  "(\<exists>cs. LeftShift 100 3 [5, 7] = Some cs \<and> length cs = length [5, 7 :: u64] \<and> (\<forall>i. ba_bit cs i = (i < 100 \<and> 3 \<le> i \<and> ba_bit [5, 7] (i - 3)))) \<and>
    LeftShift 128 3 [5, 7] = None \<and>
    (\<exists>cs. RightShift 100 70 [5, 7] = Some cs \<and> length cs = length [5, 7 :: u64] \<and> (\<forall>i. ba_bit cs i = (i < 128 \<and> ba_bit [5, 7] (i + 70))))"
proof -
  have "length [5, 7 :: u64] = BLOCK_COUNT 100" "length [5, 7 :: u64] = BLOCK_COUNT 128" by (simp_all add: BLOCK_COUNT_def BLOCK_SIZE_def)
  from BA_shifts [OF this(1), of 3] BA_shifts [OF this(2), of 3] BA_shifts [OF this(1), of 70] show ?thesis by simp
qed

text \<open>A left shift by a whole block or more does not clear the block below the lowest one it stores.\<close>

theorem LeftShift_stale_block: "map_option (map unat) (LeftShift 200 65 [5, 7, 9, 11]) = Some [5, 10, 14, 18]"
  by code_simp

text \<open>the initializer list sets the leading bits and leaves the others clear.\<close>

theorem BA_init_bits:
  assumes "length args \<le> N"
  shows "\<exists>bs. BA_init N args = Some bs \<and> length bs = BLOCK_COUNT N \<and>
    (\<forall>i. ba_bit bs i = (i < length args \<and> args ! i))"
proof -
  have "0 + length args \<le> 64 * length (replicate (BLOCK_COUNT N) (0 :: u64))" using assms BLOCK_COUNT_bound [of N] by simp
  from BA_init_loop_spec [OF this] obtain cs where cs: "BA_init N args = Some cs" "length cs = BLOCK_COUNT N"
    "\<forall>j. ba_bit cs j = (if j < length args then args ! j else ba_bit (replicate (BLOCK_COUNT N) 0) j)"
    by (auto simp: BA_init_def)
  moreover have "\<not> ba_bit (replicate n 0) j" for n j by (auto simp: ba_bit_def)
  ultimately show ?thesis by auto
qed

theorem BA_init_bits_witness:
  "\<exists>bs. BA_init 8 [True, False, True] = Some bs \<and> length bs = BLOCK_COUNT 8 \<and>
    (\<forall>i. ba_bit bs i = (i < length [True, False, True] \<and> [True, False, True] ! i))"
  by (rule BA_init_bits) simp

end
