(* ===== verification/TopValues.thy ===== *)
theory TopValues
  imports Base "HOL-Library.Multiset"
begin

text \<open>
  \<^verbatim>\<open>rt::TopFrequentValues<T, TOP_K>\<close> of \<^verbatim>\<open>core/rt/buffer_type.h\<close>: a fixed-size estimate of the most frequent
  values of a stream. The state is the array of \<open>TOP_K\<close> values with their counts. A count is a C
  \<^verbatim>\<open>int\<close>: every result of its arithmetic is wrapped to 32 bits by \<open>int32\<close>.
\<close>

section \<open>Definitions\<close>

(*@ core/rt/buffer_type.h 1063-1066 rt::TopFrequentValues::_val *)
type_synonym 'a top_val = "'a \<times> int"

(*@ core/rt/buffer_type.h 1068-1068 rt::TopFrequentValues::UNMATCHED *)
definition UNMATCHED :: int where "UNMATCHED = 0"
(*@ core/rt/buffer_type.h 1069-1069 rt::TopFrequentValues::MATCHED *)
definition MATCHED :: int where "MATCHED = 1"
(*@ core/rt/buffer_type.h 1070-1070 rt::TopFrequentValues::MATCHED_WITH_TOP *)
definition MATCHED_WITH_TOP :: int where "MATCHED_WITH_TOP = 2"

text \<open>The recursion of \<^verbatim>\<open>_Match\<close> on \<^verbatim>\<open>TOP_K - 1\<close> values is recursion on the list; the array of no values
  never matches. \<^verbatim>\<open>operator ==\<close> of the values is equality.\<close>

(*@ core/rt/buffer_type.h 1073-1093 rt::TopFrequentValues::_Match *)
fun Match :: "'a \<Rightarrow> 'a top_val list \<Rightarrow> int \<times> 'a top_val list" where
  "Match val [] = (UNMATCHED, [])"
| "Match val ((v, c) # ts) =
    (if v = val then (MATCHED_WITH_TOP, (val, int32 (c + 1)) # ts)
     else if c = 0 then (MATCHED_WITH_TOP, (val, 1) # ts)
     else
       (case Match val ts of
          (ret, ts) \<Rightarrow>
            if ret = MATCHED_WITH_TOP then
              (case ts of
                 (v1, c1) # rest \<Rightarrow>
                   if c1 > c then (MATCHED_WITH_TOP, (v1, c1) # (v, c) # rest)
                   else (MATCHED, (v, c) # (v1, c1) # rest)
               | [] \<Rightarrow> (MATCHED, [(v, c)]))
            else (ret, (v, c) # ts)))"

(*@ core/rt/buffer_type.h 1095-1097 rt::TopFrequentValues::Reset *)
definition TFV_Reset :: "nat \<Rightarrow> 'a \<Rightarrow> 'a top_val list" where
  "TFV_Reset top_k zero = replicate top_k (zero, 0)"

(*@ core/rt/buffer_type.h 1098-1108 rt::TopFrequentValues::Sample *)
definition Sample :: "'a \<Rightarrow> 'a top_val list \<Rightarrow> int \<times> 'a top_val list" where
  "Sample val ts =
    (case Match val ts of
       (ret, ts) \<Rightarrow>
         if ret = UNMATCHED then
           let (v, c) = last ts in
           if int32 (c - 1) < 0 then (MATCHED, butlast ts @ [(val, 1)])
           else (ret, butlast ts @ [(v, int32 (c - 1))])
         else (ret, ts))"

(*@ core/rt/buffer_type.h 1111-1112 rt::TopFrequentValues::GetFrequency *)
definition GetFrequency :: "'a top_val list \<Rightarrow> nat \<Rightarrow> int option" where
  "GetFrequency ts i = (if i < length ts then Some (snd (ts ! i)) else None)"

text \<open>The comparison of the count with the unsigned \<^verbatim>\<open>min_votes\<close> is made in \<^verbatim>\<open>UINT\<close>. \<open>None\<close> is the read of
  \<^verbatim>\<open>_TopValues[1]\<close> past the array when \<^verbatim>\<open>TOP_K\<close> is 1.\<close>

(*@ core/rt/buffer_type.h 1109-1109 rt::TopFrequentValues::IsSignificant *)
definition IsSignificant :: "'a top_val list \<Rightarrow> nat \<Rightarrow> bool option" where
  "IsSignificant ts min_votes =
    (case ts of
       (_, c0) # (_, c1) # _ \<Rightarrow> Some (c0 mod 2 ^ 32 \<ge> int min_votes \<and> c0 > int32 (2 * c1))
     | _ \<Rightarrow> None)"

(*@ core/rt/buffer_type.h 1110-1110 rt::TopFrequentValues::IsEmpty *)
definition TFV_IsEmpty :: "'a top_val list \<Rightarrow> bool option" where
  "TFV_IsEmpty ts = map_option (\<lambda>c. c \<le> 0) (GetFrequency ts 0)"

(*@ core/rt/buffer_type.h 1113-1115 rt::TopFrequentValues::Get *)
definition TFV_Get :: "'a top_val list \<Rightarrow> nat \<Rightarrow> 'a option" where
  "TFV_Get ts i = (if i < length ts then Some (fst (ts ! i)) else None)"

(*@ core/rt/buffer_type.h 1116-1122 rt::TopFrequentValues::Get(UINT,T,int) *)
definition TFV_Get_pair :: "'a top_val list \<Rightarrow> nat \<Rightarrow> ('a \<times> int) option" where
  "TFV_Get_pair ts i = (if i < length ts \<and> snd (ts ! i) > 0 then Some (ts ! i) else None)"

(*@ core/rt/buffer_type.h 1123-1126 rt::TopFrequentValues::Remove *)
definition TFV_Remove :: "nat \<Rightarrow> 'a top_val list \<Rightarrow> 'a top_val list" where
  "TFV_Remove i ts =
    (let ts = (if int (length ts) - int i - 1 > 0 then take i ts @ drop (i + 1) ts @ [last ts] else ts)
     in butlast ts @ [(fst (last ts), 0)])"

text \<open>Sampling a whole stream from the reset state.\<close>

definition samples :: "nat \<Rightarrow> 'a \<Rightarrow> 'a list \<Rightarrow> 'a top_val list" where
  "samples top_k zero xs = foldl (\<lambda>ts x. snd (Sample x ts)) (TFV_Reset top_k zero) xs"

section \<open>Majority vote\<close>

text \<open>With one value the sampler is the Boyer-Moore vote: the surplus of the kept value bounds how
  often every value can have occurred.\<close>

definition vote_inv :: "'a list \<Rightarrow> 'a top_val \<Rightarrow> bool" where
  "vote_inv xs t \<longleftrightarrow> 0 \<le> snd t \<and> snd t \<le> int (length xs) \<and>
    (\<forall>x. 2 * int (count_list xs x) \<le> int (length xs) + (if x = fst t then snd t else - snd t))"

lemma Sample_single:
  "Sample x [(v, c)] = (if v = x then (MATCHED_WITH_TOP, [(x, int32 (c + 1))])
     else if c = 0 then (MATCHED_WITH_TOP, [(x, 1)])
     else if int32 (c - 1) < 0 then (MATCHED, [(x, 1)]) else (UNMATCHED, [(v, int32 (c - 1))]))"
  by (simp add: Sample_def UNMATCHED_def MATCHED_WITH_TOP_def)

lemma count_list_snoc: "count_list (xs @ [y]) x = count_list xs x + (if x = y then 1 else 0)"
  by simp

lemma vote_invI:
  "0 \<le> c \<Longrightarrow> c \<le> int (length xs) \<Longrightarrow> (\<And>y. 2 * int (count_list xs y) \<le> int (length xs) + (if y = v then c else - c)) \<Longrightarrow> vote_inv xs (v, c)"
  unfolding vote_inv_def fst_conv snd_conv by blast

lemma vote_step:
  assumes "vote_inv xs (v, c)" "length xs < 2 ^ 31 - 1"
  shows "\<exists>t. snd (Sample x [(v, c)]) = [t] \<and> vote_inv (xs @ [x]) t"
proof -
  have c: "0 \<le> c" "c \<le> int (length xs)" and b: "2 * int (count_list xs y) \<le> int (length xs) + (if y = v then c else - c)" for y
    using assms(1) unfolding vote_inv_def fst_conv snd_conv by blast+
  have w: "int32 (c + 1) = c + 1" "0 < c \<Longrightarrow> int32 (c - 1) = c - 1" using c assms(2) by (simp_all add: int32_id)
  consider "v = x" | "v \<noteq> x" "c = 0" | "v \<noteq> x" "0 < c" using c(1) by linarith
  then show ?thesis
  proof cases
    case 1
    have "vote_inv (xs @ [x]) (x, c + 1)"
    proof (rule vote_invI)
      fix y show "2 * int (count_list (xs @ [x]) y) \<le> int (length (xs @ [x])) + (if y = x then c + 1 else - (c + 1))"
        using b [of y] 1 by (simp split: if_splits)
    qed (use c in simp_all)
    then show ?thesis using 1 w(1) by (simp add: Sample_single)
  next
    case 2
    have "vote_inv (xs @ [x]) (x, 1)"
    proof (rule vote_invI)
      fix y show "2 * int (count_list (xs @ [x]) y) \<le> int (length (xs @ [x])) + (if y = x then 1 else - 1)"
        using b [of y] 2 by (auto split: if_splits)
    qed simp_all
    then show ?thesis using 2 by (simp add: Sample_single)
  next
    case 3
    have "vote_inv (xs @ [x]) (v, c - 1)"
    proof (rule vote_invI)
      fix y show "2 * int (count_list (xs @ [x]) y) \<le> int (length (xs @ [x])) + (if y = v then c - 1 else - (c - 1))"
        using b [of y] 3 by (simp split: if_splits)
    qed (use 3 c in simp_all)
    then show ?thesis using 3 w(2) by (simp add: Sample_single)
  qed
qed

lemma samples_vote: "length xs < 2 ^ 31 \<Longrightarrow> \<exists>t. samples 1 zero xs = [t] \<and> vote_inv xs t"
proof (induction xs rule: rev_induct)
  case Nil
  then show ?case by (simp add: samples_def TFV_Reset_def vote_inv_def)
next
  case (snoc x xs)
  then obtain v c where t: "samples 1 zero xs = [(v, c)]" "vote_inv xs (v, c)" by force
  then show ?case using vote_step [OF t(2), of x] snoc.prems by (simp add: samples_def)
qed

text \<open>The array keeps its size, and a value that is sampled again while its count is positive is
  never forgotten by that sample.\<close>

lemma Match_length: "length (snd (Match x ts)) = length ts"
  by (induction x ts rule: Match.induct) (auto split: prod.splits list.splits)

lemma Sample_length: "ts \<noteq> [] \<Longrightarrow> length (snd (Sample x ts)) = length ts"
  using Match_length [of x ts] by (auto simp: Sample_def split: prod.splits)

text \<open>Counts stay within the samples that were made, as long as these can be counted.\<close>

lemma Match_counts:
  "\<forall>t\<in>set ts. 0 \<le> snd t \<and> snd t \<le> n \<Longrightarrow> 0 \<le> n \<Longrightarrow> n < 2 ^ 31 - 1 \<Longrightarrow> Match x ts = (r, us) \<Longrightarrow> \<forall>t\<in>set us. 0 \<le> snd t \<and> snd t \<le> n + 1"
proof (induction x ts arbitrary: r us rule: Match.induct)
  case (2 val v c ts)
  have c: "0 \<le> c" "c \<le> n" "int32 (c + 1) = c + 1" using 2(2-4) by (simp_all add: int32_id)
  have ts: "\<forall>t\<in>set ts. 0 \<le> snd t \<and> snd t \<le> n + 1" using 2(2) by fastforce
  show ?case
  proof (cases "v = val \<or> c = 0")
    case True
    then show ?thesis using 2(3,5) c ts by (auto split: if_splits)
  next
    case False
    obtain r' us' where m: "Match val ts = (r', us')" by fastforce
    then have "\<forall>t\<in>set us'. 0 \<le> snd t \<and> snd t \<le> n + 1" using False 2 by (intro 2(1) [of r' us']) auto
    then show ?thesis using 2(5) False m c by (auto split: if_splits list.splits) fastforce+
  qed
qed auto

section \<open>Properties\<close>

text \<open>C38: With \<open>TOP_K = 1\<close> and fewer than \<open>2 ^ 31\<close> samples, so that the \<^verbatim>\<open>int\<close> count cannot overflow, a value that makes up more than half of the samples is the value the
  sampler reports, whatever the order of the samples.\<close>

theorem TopFrequentValues_majority:
  assumes "length xs < 2 * count_list xs m" "length xs < 2 ^ 31"
  shows "TFV_Get (samples 1 zero xs) 0 = Some m"
proof -
  obtain v c where t: "samples 1 zero xs = [(v, c)]" "vote_inv xs (v, c)" using samples_vote [OF assms(2)] by (metis surj_pair)
  then have "v = m" using assms(1) by (auto simp: vote_inv_def split: if_splits dest: spec [of _ m])
  then show ?thesis using t by (simp add: TFV_Get_def)
qed

theorem TopFrequentValues_majority_witness: "TFV_Get (samples 1 0 [7, 3, 7, 4, 7 :: nat]) 0 = Some 7"
  by (rule TopFrequentValues_majority) simp_all

text \<open>A sample keeps the number of values; counts that are not negative stay so and grow by at most one, below \<open>2 ^ 31\<close>.\<close>

theorem TopFrequentValues_counts:
  assumes "ts \<noteq> []" "\<forall>t\<in>set ts. 0 \<le> snd t \<and> snd t \<le> n" "0 \<le> n" "n < 2 ^ 31 - 1"
  shows "length (snd (Sample x ts)) = length ts \<and> (\<forall>t\<in>set (snd (Sample x ts)). 0 \<le> snd t \<and> snd t \<le> n + 1)"
proof -
  obtain r us where m: "Match x ts = (r, us)" by fastforce
  have nn: "\<forall>t\<in>set us. 0 \<le> snd t \<and> snd t \<le> n + 1" by (rule Match_counts [OF assms(2-4) m])
  have ne: "us \<noteq> []" using Match_length [of x ts] assms(1) m by auto
  obtain v c where l: "last us = (v, c)" by fastforce
  have c: "0 \<le> c" "c \<le> n + 1" using nn last_in_set [OF ne] l by auto
  have "\<forall>t\<in>set (butlast us). 0 \<le> snd t \<and> snd t \<le> n + 1" using nn by (auto dest: in_set_butlastD)
  moreover have "int32 (c - 1) = c - 1" using c assms(4) by (simp add: int32_id)
  ultimately have "\<forall>t\<in>set (snd (Sample x ts)). 0 \<le> snd t \<and> snd t \<le> n + 1"
    using nn m l c assms(3) by (auto simp: Sample_def)
  then show ?thesis using Sample_length [OF assms(1)] by blast
qed

theorem TopFrequentValues_counts_witness:
  "length (snd (Sample (5 :: nat) [(1, 2), (3, 1 :: int)])) = length [(1 :: nat, 2), (3, 1 :: int)] \<and>
    (\<forall>t\<in>set (snd (Sample (5 :: nat) [(1, 2), (3, 1)])). 0 \<le> snd t \<and> snd t \<le> 2 + 1)"
  by (rule TopFrequentValues_counts) simp_all

text \<open>Beyond \<open>2 ^ 31 - 1\<close> the count wraps to a negative one, and a single other sample evicts the value.\<close>

theorem TopFrequentValues_overflow:
  assumes "v \<noteq> x"
  shows "snd (Sample x (snd (Sample v (snd (Sample v [(v, 2 ^ 31 - 1)]))))) = [(x, 1)]"
proof -
  have "int32 (2 ^ 31) = - (2 ^ 31)" "int32 (- (2 ^ 31) + 1) = - (2 ^ 31) + 1" "int32 (- (2 ^ 31)) = - (2 ^ 31)" by code_simp+
  then show ?thesis using assms by (simp add: Sample_single)
qed

end
