(* ===== verification/Streams.thy ===== *)
theory Streams
  imports Buffers
begin

text \<open>
  The memory streams of \<^verbatim>\<open>core/rt/buffer_type.h\<close>: a buffer with a read/write position and a used length,
  both 32-bit. \<^verbatim>\<open>OStreamT\<close> and \<^verbatim>\<open>IStreamT\<close> work on a block of fixed size (\<^verbatim>\<open>Buffer_Ref\<close>, \<^verbatim>\<open>OStreamFixed\<close>),
  \<^verbatim>\<open>OStream\<close> owns a growing \<^verbatim>\<open>Buffer\<close>. An access outside the block makes an operation \<open>None\<close>.
\<close>

section \<open>Definitions\<close>

(*@ core/rt/buffer_type.h 859-865 rt::_details::StreamT *)
record Stream = "byte Buffer" +
  m_Pos :: u32
  m_Used :: u32

datatype seek_from = Seek_Begin | Seek_Current | Seek_End

(*@ core/rt/buffer_type.h 867-867 rt::_details::StreamT::StreamT *)
definition StreamT :: "bytes \<Rightarrow> u32 \<Rightarrow> Stream" where
  "StreamT p used_len = \<lparr> cells = map Some p, len = length p, m_Pos = 0, m_Used = used_len \<rparr>"

(*@ core/rt/buffer_type.h 868-868 rt::_details::StreamT::GetLength *)
definition Stream_GetLength :: "Stream \<Rightarrow> nat" where
  "Stream_GetLength s = unat (m_Used s)"

(*@ core/rt/buffer_type.h 871-871 rt::_details::StreamT::Rewind *)
definition Rewind :: "Stream \<Rightarrow> Stream" where
  "Rewind s = s\<lparr> m_Pos := 0 \<rparr>"

(*@ core/rt/buffer_type.h 872-882 rt::_details::StreamT::Seek *)
definition Stream_Seek :: "int \<Rightarrow> seek_from \<Rightarrow> Stream \<Rightarrow> u32 \<times> Stream" where
  "Stream_Seek offset nFrom s =
    (let newp = (case nFrom of Seek_Begin \<Rightarrow> offset
                 | Seek_Current \<Rightarrow> uint (m_Pos s) + offset
                 | Seek_End \<Rightarrow> uint (m_Used s) + offset);
         s = (if 0 \<le> newp \<and> newp \<le> int (len s) then s\<lparr> m_Pos := word_of_int newp \<rparr> else s)
     in (m_Pos s, s))"

(*@ core/rt/buffer_type.h 885-890 rt::_details::OStreamT *)
definition OStreamT :: "bytes \<Rightarrow> Stream" where
  "OStreamT p = StreamT p 0"

(*@ core/rt/buffer_type.h 891-899 rt::_details::OStreamT::Write *)
definition OStreamT_Write :: "bytes \<Rightarrow> Stream \<Rightarrow> (u32 \<times> Stream) option" where
  "OStreamT_Write pBuf s =
    (let co = min (word_of_int (int (len s) - uint (m_Pos s))) (word_of_nat (length pBuf)) :: u32 in
     if co \<noteq> 0 then
       do { s \<leftarrow> write_cells (unat (m_Pos s)) (map Some (take (unat co) pBuf)) s;
            let s = s\<lparr> m_Pos := m_Pos s + co \<rparr>;
            let s = (if m_Used s < m_Pos s then s\<lparr> m_Used := m_Pos s \<rparr> else s);
            Some (co, s) }
     else Some (co, s))"

(*@ core/rt/buffer_type.h 902-906 rt::_details::IStreamT *)
definition IStreamT :: "bytes \<Rightarrow> Stream" where
  "IStreamT p = StreamT p (word_of_nat (length p))"

text \<open>\<^verbatim>\<open>Read\<close> also returns the bytes copied out to \<^verbatim>\<open>pBuf\<close>.\<close>

(*@ core/rt/buffer_type.h 907-913 rt::_details::IStreamT::Read *)
definition IStreamT_Read :: "u32 \<Rightarrow> Stream \<Rightarrow> (byte option list \<times> u32 \<times> Stream) option" where
  "IStreamT_Read co s =
    (let co = min co (word_of_int (int (len s) - uint (m_Pos s))) in
     if unat (m_Pos s) + unat co \<le> length (cells s) then
       Some (take (unat co) (drop (unat (m_Pos s)) (cells s)), co, s\<lparr> m_Pos := m_Pos s + co \<rparr>)
     else None)"

(*@ core/rt/buffer_type.h 918-920 rt::OStream *)
definition OStream :: Stream where
  "OStream = \<lparr> cells = [], len = 0, m_Pos = 0, m_Used = 0 \<rparr>"

(*@ core/rt/buffer_type.h 921-928 rt::OStream::Write *)
definition OStream_Write :: "(nat \<Rightarrow> bool) \<Rightarrow> bytes \<Rightarrow> Stream \<Rightarrow> (u32 \<times> Stream) option" where
  "OStream_Write alloc pBuf s =
    (let co = word_of_nat (length pBuf) :: u32 in
     do { (ok, s) \<leftarrow> Buffer_ChangeSize alloc POD (max (len s) (unat (m_Pos s + co))) s;
          if ok then
            do { s \<leftarrow> write_cells (unat (m_Pos s)) (map Some pBuf) s;
                 Some (co, s\<lparr> m_Pos := m_Pos s + co \<rparr>) }
          else Some (0, s) })"

(*@ core/rt/buffer_type.h 929-940 rt::OStream::Seek *)
definition OStream_Seek :: "(nat \<Rightarrow> bool) \<Rightarrow> int \<Rightarrow> seek_from \<Rightarrow> Stream \<Rightarrow> (u32 \<times> Stream) option" where
  "OStream_Seek alloc offset nFrom s =
    (let newp = (case nFrom of Seek_Begin \<Rightarrow> offset
                 | Seek_Current \<Rightarrow> uint (m_Pos s) + offset
                 | Seek_End \<Rightarrow> int (len s) + offset) in
     if 0 \<le> newp then
       do { (ok, s) \<leftarrow> Buffer_ChangeSize alloc POD (max (len s) (nat newp)) s;
            let s = (if ok then s\<lparr> m_Pos := word_of_int newp \<rparr> else s);
            Some (m_Pos s, s) }
     else Some (m_Pos s, s))"

(*@ core/rt/buffer_type.h 941-941 rt::OStream::SetLength *)
definition OStream_SetLength :: "(nat \<Rightarrow> bool) \<Rightarrow> u32 \<Rightarrow> Stream \<Rightarrow> (bool \<times> Stream) option" where
  "OStream_SetLength alloc sz s =
    Buffer_ChangeSize alloc POD (unat sz) (s\<lparr> m_Pos := min (m_Pos s) sz, m_Used := sz \<rparr>)"

(*@ core/rt/buffer_type.h 947-952 rt::OStreamFixed *)
definition OStreamFixed :: "bytes \<Rightarrow> Stream" where
  "OStreamFixed buffer = OStreamT buffer"

(*@ core/rt/buffer_type.h 953-953 rt::OStreamFixed::SetLength *)
definition OStreamFixed_SetLength :: "u32 \<Rightarrow> Stream \<Rightarrow> bool \<times> Stream" where
  "OStreamFixed_SetLength sz s =
    (if unat sz \<le> len s then (True, s\<lparr> m_Pos := min (m_Pos s) sz, m_Used := sz \<rparr>) else (False, s))"

text \<open>Runs of writes and of reads.\<close>

fun write_all :: "(bytes \<Rightarrow> Stream \<Rightarrow> (u32 \<times> Stream) option) \<Rightarrow> bytes list \<Rightarrow> Stream \<Rightarrow> Stream option" where
  "write_all wr [] s = Some s"
| "write_all wr (b # bs) s = do { (_, s) \<leftarrow> wr b s; write_all wr bs s }"

fun read_all :: "u32 list \<Rightarrow> Stream \<Rightarrow> (byte option list \<times> Stream) option" where
  "read_all [] s = Some ([], s)"
| "read_all (n # ns) s =
    do { (bs, _, s) \<leftarrow> IStreamT_Read n s; (cs, s) \<leftarrow> read_all ns s; Some (bs @ cs, s) }"

section \<open>Positions\<close>

definition Stream_inv :: "Stream \<Rightarrow> bool" where
  "Stream_inv s \<longleftrightarrow> length (cells s) = len s \<and> len s < 2 ^ 32 \<and> unat (m_Pos s) \<le> len s"

lemma room_left:
  assumes "Stream_inv s"
  shows "(word_of_int (int (len s) - uint (m_Pos s)) :: u32) = word_of_nat (len s - unat (m_Pos s))"
    and "unat (word_of_nat (len s - unat (m_Pos s)) :: u32) = len s - unat (m_Pos s)"
proof -
  have "int (len s) - uint (m_Pos s) = int (len s - unat (m_Pos s))"
    using assms by (simp add: Stream_inv_def of_nat_diff)
  then show "(word_of_int (int (len s) - uint (m_Pos s)) :: u32) = word_of_nat (len s - unat (m_Pos s))"
    by (simp only: of_int_of_nat_eq)
  show "unat (word_of_nat (len s - unat (m_Pos s)) :: u32) = len s - unat (m_Pos s)"
    using assms by (intro unat_word_of_nat) (auto simp: Stream_inv_def)
qed

lemma unat_min32: "unat (min a b :: u32) = min (unat a) (unat b)"
  by (simp add: min_def word_le_nat_alt)

lemma unat_add32: "unat a + unat b < 2 ^ 32 \<Longrightarrow> unat (a + b :: u32) = unat a + unat b"
  by (subst unat_add_lem [symmetric]) simp

lemma OStreamT_Write_step:
  assumes s: "Stream_inv s" and l: "length p < 2 ^ 32"
    and n: "n = min (len s - unat (m_Pos s)) (length p)"
  shows "\<exists>s'. OStreamT_Write p s = Some (word_of_nat n, s') \<and> Stream_inv s' \<and> len s' = len s \<and>
    cells s' = write_at (unat (m_Pos s)) (map Some (take n p)) (cells s) \<and> unat (m_Pos s') = unat (m_Pos s) + n \<and>
    m_Used s' = (if n = 0 then m_Used s else max (m_Used s) (m_Pos s'))"
proof -
  define co where "co = min (word_of_int (int (len s) - uint (m_Pos s))) (word_of_nat (length p) :: u32)"
  have co: "unat co = n" unfolding co_def room_left(1) [OF s] unat_min32 room_left(2) [OF s] n
    using l by (simp add: unat_word_of_nat)
  have con: "co = word_of_nat n" by (rule eq_word_of_nat [OF co])
  have fit: "unat (m_Pos s) + n \<le> len s" using s n by (auto simp: Stream_inv_def)
  then have pos: "unat (m_Pos s + co) = unat (m_Pos s) + n"
    using s co by (subst unat_add32) (simp_all add: Stream_inv_def)
  have z: "co = 0 \<longleftrightarrow> n = 0" using co by (metis unat_eq_zero)
  have nlen: "n \<le> length p" using n by simp
  show ?thesis
  proof (cases "n = 0")
    case True
    then show ?thesis using z con s unfolding OStreamT_Write_def co_def [symmetric] Let_def by simp
  next
    case False
    have "OStreamT_Write p s = Some (co, s\<lparr> cells := write_at (unat (m_Pos s)) (map Some (take n p)) (cells s),
        m_Pos := m_Pos s + co, m_Used := max (m_Used s) (m_Pos s + co) \<rparr>)"
      using False z co fit s n unfolding OStreamT_Write_def co_def [symmetric] Let_def
      by (cases s) (auto simp: write_cells_def Stream_inv_def max_def)
    then show ?thesis using False con fit s pos nlen by (simp add: Stream_inv_def)
  qed
qed

lemma OStreamT_write_all:
  assumes "Stream_inv s" "\<forall>p\<in>set ps. length p < 2 ^ 32"
  shows "\<exists>s'. write_all OStreamT_Write ps s = Some s' \<and> Stream_inv s' \<and> len s' = len s \<and>
    take (unat (m_Pos s')) (cells s') = take (len s) (take (unat (m_Pos s)) (cells s) @ map Some (concat ps)) \<and>
    drop (unat (m_Pos s')) (cells s') = drop (unat (m_Pos s')) (cells s) \<and>
    (m_Pos s \<le> m_Used s \<longrightarrow> m_Pos s' \<le> m_Used s' \<and> m_Used s' = max (m_Used s) (m_Pos s'))"
  using assms
proof (induction ps arbitrary: s)
  case Nil
  then show ?case by (auto simp: Stream_inv_def max_def)
next
  case (Cons p ps)
  define n where "n = min (len s - unat (m_Pos s)) (length p)"
  obtain s1 where s1: "OStreamT_Write p s = Some (word_of_nat n, s1)" "Stream_inv s1" "len s1 = len s"
      "cells s1 = write_at (unat (m_Pos s)) (map Some (take n p)) (cells s)" "unat (m_Pos s1) = unat (m_Pos s) + n"
      "m_Used s1 = (if n = 0 then m_Used s else max (m_Used s) (m_Pos s1))"
    using OStreamT_Write_step [OF Cons.prems(1) _ n_def] Cons.prems(2) by auto
  obtain s2 where s2: "write_all OStreamT_Write ps s1 = Some s2" "Stream_inv s2" "len s2 = len s1"
      "take (unat (m_Pos s2)) (cells s2) = take (len s1) (take (unat (m_Pos s1)) (cells s1) @ map Some (concat ps))"
      "drop (unat (m_Pos s2)) (cells s2) = drop (unat (m_Pos s2)) (cells s1)"
      "m_Pos s1 \<le> m_Used s1 \<longrightarrow> m_Pos s2 \<le> m_Used s2 \<and> m_Used s2 = max (m_Used s1) (m_Pos s2)"
    using Cons.IH [OF s1(2)] Cons.prems(2) by auto
  have i: "length (cells s) = len s" "unat (m_Pos s) \<le> len s" using Cons.prems(1) by (auto simp: Stream_inv_def)
  have nl: "length (map Some (take n p)) = n" by (simp add: n_def)
  have t1: "take (unat (m_Pos s1)) (cells s1) = take (unat (m_Pos s)) (cells s) @ map Some (take n p)"
    unfolding s1(4,5) by (subst nl [symmetric], rule take_write_at) (use i in \<open>simp add: n_def\<close>)
  let ?q = "take (unat (m_Pos s)) (cells s)"
  have lq: "length ?q = unat (m_Pos s)" using i by simp
  have cut: "take (len s) (?q @ map Some (take n p) @ xs) = take (len s) (?q @ map Some p @ xs)" for xs
  proof (cases "length p \<le> len s - unat (m_Pos s)")
    case True
    then show ?thesis by (simp add: n_def)
  next
    case False
    then show ?thesis using i by (simp add: n_def take_map)
  qed
  have A: "take (unat (m_Pos s2)) (cells s2) = take (len s) (?q @ map Some (concat (p # ps)))"
    unfolding s2(4) t1 s1(3) using cut [of "map Some (concat ps)"] by simp
  have le: "unat (m_Pos s1) \<le> unat (m_Pos s2)"
  proof -
    have "length (take (unat (m_Pos s2)) (cells s2)) \<ge> unat (m_Pos s1)"
      unfolding s2(4) using s1(2) by (simp add: Stream_inv_def)
    then show ?thesis by simp
  qed
  have B: "drop (unat (m_Pos s2)) (cells s2) = drop (unat (m_Pos s2)) (cells s)"
    unfolding s2(5) s1(4) using le i nl s1(5) by (simp add: write_at_def)
  have C: "m_Pos s2 \<le> m_Used s2 \<and> m_Used s2 = max (m_Used s) (m_Pos s2)" if "m_Pos s \<le> m_Used s"
  proof -
    have "n = 0 \<Longrightarrow> m_Pos s1 = m_Pos s" using s1(5) by (simp add: word_unat_eq_iff)
    then have "m_Pos s1 \<le> m_Used s1" using s1(6) that by (auto simp: max_def)
    then show ?thesis using s2(6) s1(6) le by (auto simp: max_def word_le_nat_alt split: if_splits)
  qed
  show ?case using s1(1,3) s2(1,2,3) A B C by auto
qed

lemma IStreamT_Read_step:
  assumes s: "Stream_inv s" and n: "n = min (unat co) (len s - unat (m_Pos s))"
  shows "\<exists>s'. IStreamT_Read co s = Some (take n (drop (unat (m_Pos s)) (cells s)), word_of_nat n, s') \<and>
    Stream_inv s' \<and> len s' = len s \<and> cells s' = cells s \<and> unat (m_Pos s') = unat (m_Pos s) + n"
proof -
  define c where "c = min co (word_of_int (int (len s) - uint (m_Pos s)))"
  have c: "unat c = n" unfolding c_def room_left(1) [OF s] unat_min32 room_left(2) [OF s] n ..
  have cn: "c = word_of_nat n" by (rule eq_word_of_nat [OF c])
  have fit: "unat (m_Pos s) + n \<le> len s" using s n by (auto simp: Stream_inv_def)
  then have "unat (m_Pos s + c) = unat (m_Pos s) + n"
    using s c by (subst unat_add32) (simp_all add: Stream_inv_def)
  then show ?thesis using s fit c cn unfolding IStreamT_Read_def c_def [symmetric] Let_def by (simp add: Stream_inv_def)
qed

lemma IStreamT_read_all:
  assumes "Stream_inv s"
  shows "\<exists>s'. read_all ns s = Some (take (sum_list (map unat ns)) (drop (unat (m_Pos s)) (cells s)), s') \<and> Stream_inv s'"
  using assms
proof (induction ns arbitrary: s)
  case Nil
  then show ?case by simp
next
  case (Cons co ns)
  define n where "n = min (unat co) (len s - unat (m_Pos s))"
  obtain s1 where s1: "IStreamT_Read co s = Some (take n (drop (unat (m_Pos s)) (cells s)), word_of_nat n, s1)"
      "Stream_inv s1" "len s1 = len s" "cells s1 = cells s" "unat (m_Pos s1) = unat (m_Pos s) + n"
    using IStreamT_Read_step [OF Cons.prems n_def] by blast
  obtain s2 where s2: "read_all ns s1 = Some (take (sum_list (map unat ns)) (drop (unat (m_Pos s1)) (cells s1)), s2)" "Stream_inv s2"
    using Cons.IH [OF s1(2)] by blast
  let ?d = "drop (unat (m_Pos s)) (cells s)"
  have l: "length ?d = len s - unat (m_Pos s)" using Cons.prems by (simp add: Stream_inv_def)
  have "take n ?d @ take (sum_list (map unat ns)) (drop n ?d) = take (unat co + sum_list (map unat ns)) ?d"
  proof (cases "unat co \<le> length ?d")
    case True
    then show ?thesis using l by (simp add: n_def take_add)
  next
    case False
    then show ?thesis using l by (simp add: n_def)
  qed
  then show ?case using s1 s2 by (simp add: add.commute)
qed

text \<open>The growing stream appends at its position.\<close>

lemma OStream_Write_step:
  assumes "\<And>n. alloc n" "length (cells s) = len s" "unat (m_Pos s) = len s" "len s + length p < 2 ^ 32"
  shows "OStream_Write alloc p s = Some (word_of_nat (length p),
    s\<lparr> cells := cells s @ map Some p, len := len s + length p, m_Pos := m_Pos s + word_of_nat (length p) \<rparr>)"
proof -
  let ?co = "word_of_nat (length p) :: u32"
  have co: "unat ?co = length p" using assms(4) by (simp add: unat_word_of_nat)
  have pos: "unat (m_Pos s + ?co) = len s + length p" using assms(3,4) co by (subst unat_add32) simp_all
  have m: "map (\<lambda>c. c) xs = xs" for xs :: "byte option list" by simp
  show ?thesis
  proof (cases "p = []")
    case True
    then show ?thesis using assms by (cases s) (simp add: OStream_Write_def Buffer_ChangeSize_def ShrinkSize_def write_cells_def)
  next
    case False
    then show ?thesis using assms pos co
      by (cases s) (simp add: OStream_Write_def Buffer_ChangeSize_def realloc_cells_def map_cells_def write_cells_def
          write_at_def max_def map_idI Let_def)
  qed
qed

lemma OStream_write_all:
  assumes "\<And>n. alloc n" "length (cells s) = len s" "unat (m_Pos s) = len s" "len s + length (concat ps) < 2 ^ 32"
  shows "\<exists>s'. write_all (OStream_Write alloc) ps s = Some s' \<and> cells s' = cells s @ map Some (concat ps) \<and>
    len s' = len s + length (concat ps) \<and> unat (m_Pos s') = len s' \<and> m_Used s' = m_Used s"
  using assms
proof (induction ps arbitrary: s)
  case Nil
  then show ?case by simp
next
  case (Cons p ps)
  define s1 where "s1 = s\<lparr> cells := cells s @ map Some p, len := len s + length p, m_Pos := m_Pos s + word_of_nat (length p) \<rparr>"
  have w: "OStream_Write alloc p s = Some (word_of_nat (length p), s1)"
    unfolding s1_def by (rule OStream_Write_step) (use Cons.prems in auto)
  have "unat (word_of_nat (length p) :: u32) = length p" using Cons.prems(4) by (simp add: unat_word_of_nat)
  then have "unat (m_Pos s1) = len s1" unfolding s1_def using Cons.prems(3,4) by (simp add: unat_add32)
  then obtain s' where "write_all (OStream_Write alloc) ps s1 = Some s'" "cells s' = cells s1 @ map Some (concat ps)"
      "len s' = len s1 + length (concat ps)" "unat (m_Pos s') = len s'" "m_Used s' = m_Used s1"
    using Cons.IH [OF Cons.prems(1), of s1] Cons.prems(2-4) by (auto simp: s1_def)
  then show ?case using w by (simp add: s1_def)
qed

section \<open>Properties\<close>

text \<open>C39: whatever is written to an \<^verbatim>\<open>OStream\<close> in pieces is read back by an \<^verbatim>\<open>IStream_Ref\<close> over its buffer,
  in pieces of any sizes, as the prefix of the requested total length (all of it when enough is
  requested). The writes are all accepted while they stay under \<^verbatim>\<open>UINT\<close>, and \<^verbatim>\<open>GetLength\<close> still answers
  0, because \<^verbatim>\<open>OStream::Write\<close> does not maintain \<^verbatim>\<open>m_Used\<close>.\<close>

theorem Stream_write_read:
  assumes "\<And>n. alloc n" "length (concat ps) < 2 ^ 32"
  shows "\<exists>s. write_all (OStream_Write alloc) ps OStream = Some s \<and> cells s = map Some (concat ps) \<and>
    Stream_GetLength s = 0 \<and>
    (\<exists>r. read_all ns (IStreamT (concat ps)) = Some (map Some (take (sum_list (map unat ns)) (concat ps)), r))"
proof -
  have "Stream_inv (IStreamT (concat ps))" using assms(2) by (simp add: Stream_inv_def IStreamT_def StreamT_def)
  from IStreamT_read_all [OF this, of ns] obtain r
    where r: "read_all ns (IStreamT (concat ps)) = Some (map Some (take (sum_list (map unat ns)) (concat ps)), r)"
    by (auto simp: IStreamT_def StreamT_def take_map)
  obtain s where "write_all (OStream_Write alloc) ps OStream = Some s" "cells s = map Some (concat ps)" "m_Used s = 0"
    using OStream_write_all [of alloc OStream ps] assms by (auto simp: OStream_def)
  then show ?thesis using r by (simp add: Stream_GetLength_def)
qed

theorem Stream_write_read_witness:
  "\<exists>s. write_all (OStream_Write (\<lambda>n. True)) [[1, 2], [], [3]] OStream = Some s \<and> cells s = map Some (concat [[1, 2], [], [3]]) \<and>
    Stream_GetLength s = 0 \<and>
    (\<exists>r. read_all [2, 7] (IStreamT (concat [[1, 2], [], [3]])) =
      Some (map Some (take (sum_list (map unat [2 :: u32, 7])) (concat [[1, 2], [], [3]])), r))"
  by (rule Stream_write_read) simp_all

text \<open>writes to a stream over a fixed block keep the prefix that fits and cut the rest: the block
  keeps its size, the bytes beyond the final position are untouched, and the position and the used
  length are the length of that prefix.\<close>

theorem OStreamFixed_truncates:
  assumes "length buf < 2 ^ 32" "\<forall>p\<in>set ps. length p < 2 ^ 32"
  shows "\<exists>s. write_all OStreamT_Write ps (OStreamFixed buf) = Some s \<and>
    cells s = map Some (take (length buf) (concat ps) @ drop (length (concat ps)) buf) \<and>
    unat (m_Pos s) = min (length buf) (length (concat ps)) \<and> Stream_GetLength s = unat (m_Pos s)"
proof -
  have i: "Stream_inv (OStreamFixed buf)"
    using assms(1) by (simp add: Stream_inv_def OStreamFixed_def OStreamT_def StreamT_def)
  have z: "m_Pos (OStreamFixed buf) = 0" "m_Used (OStreamFixed buf) = 0" "len (OStreamFixed buf) = length buf"
      "cells (OStreamFixed buf) = map Some buf"
    by (simp_all add: OStreamFixed_def OStreamT_def StreamT_def)
  obtain s where s: "write_all OStreamT_Write ps (OStreamFixed buf) = Some s" "Stream_inv s" "len s = length buf"
      "take (unat (m_Pos s)) (cells s) = map Some (take (length buf) (concat ps))"
      "drop (unat (m_Pos s)) (cells s) = map Some (drop (unat (m_Pos s)) buf)" "m_Used s = m_Pos s"
    using OStreamT_write_all [OF i assms(2)] by (auto simp: z take_map drop_map)
  have "length (take (unat (m_Pos s)) (cells s)) = min (length buf) (length (concat ps))" unfolding s(4) by (simp add: min.commute)
  then have p: "unat (m_Pos s) = min (length buf) (length (concat ps))" using s(2) by (simp add: Stream_inv_def)
  have "cells s = take (unat (m_Pos s)) (cells s) @ drop (unat (m_Pos s)) (cells s)" by (rule append_take_drop_id [symmetric])
  also have "\<dots> = map Some (take (length buf) (concat ps) @ drop (unat (m_Pos s)) buf)" unfolding s(4,5) by simp
  also have "drop (unat (m_Pos s)) buf = drop (length (concat ps)) buf" unfolding p by (simp add: min_def)
  finally show ?thesis using s(1,6) p by (auto simp: Stream_GetLength_def)
qed

theorem OStreamFixed_truncates_witness:
  "\<exists>s. write_all OStreamT_Write [[1], [2, 3]] (OStreamFixed [9, 9]) = Some s \<and>
    cells s = map Some (take (length [9 :: byte, 9]) (concat [[1], [2, 3]]) @ drop (length (concat [[1 :: byte], [2, 3]])) [9, 9]) \<and>
    unat (m_Pos s) = min (length [9 :: byte, 9]) (length (concat [[1 :: byte], [2, 3]])) \<and> Stream_GetLength s = unat (m_Pos s)"
  by (rule OStreamFixed_truncates) simp_all

end
