(* ===== verification/CharSet.thy ===== *)
theory CharSet
  imports Base "HOL-Library.Monad_Syntax"
begin

text \<open>
  \<^verbatim>\<open>rt::CharacterSet\<close> of \<^verbatim>\<open>core/rt/string_type.h\<close> and the classes derived from it: a table indexed by the
  characters 1 to 127, zero for a character outside the set and otherwise the character it maps to.
  A \<^verbatim>\<open>char\<close> is signed, so a byte of 128 or more is negative and never in a set; storing such a
  character (or the zero character) would be a write outside the table, and is \<open>None\<close>.
\<close>

section \<open>Definitions\<close>

(*@ core/rt/string_type.h 73-76 rt::CharacterSet::_Set *)
type_synonym charset = bytes

definition cs_store :: "byte \<Rightarrow> byte \<Rightarrow> charset \<Rightarrow> charset option" where
  "cs_store c v S = (if 1 \<le> c_int c then Some (S[nat (c_int c - 1) := v]) else None)"

(*@ core/rt/string_type.h 80-83 rt::CharacterSet::Init *)
fun CS_Init_loop :: "bytes \<Rightarrow> bytes \<Rightarrow> charset \<Rightarrow> charset option" where
  "CS_Init_loop [] mapped S = Some S"
| "CS_Init_loop (c # p) [] S = None"
| "CS_Init_loop (c # p) (m # mapped) S = do { S \<leftarrow> cs_store c m S; CS_Init_loop p mapped S }"

(*@ core/rt/string_type.h 86-86 rt::CharacterSet::CharacterSet *)
definition CS_zero :: charset where
  "CS_zero = replicate 127 0"

(*@ core/rt/string_type.h 78-84 rt::CharacterSet::Init *)
definition CS_Init :: "bytes \<Rightarrow> bytes \<Rightarrow> charset option" where
  "CS_Init p mapped = CS_Init_loop p mapped CS_zero"

(*@ core/rt/string_type.h 87-87 rt::CharacterSet::CharacterSet(char) *)
definition CS_char :: "byte \<Rightarrow> charset option" where
  "CS_char c = cs_store c c CS_zero"

(*@ core/rt/string_type.h 85-90 rt::CharacterSet::CharacterSet(LPCSTR) *)
definition CS_str :: "bytes \<Rightarrow> charset option" where
  "CS_str p = CS_Init p p"

(*@ core/rt/string_type.h 91-93 rt::CharacterSet::CharacterSet(LPCSTR,LPCSTR) *)
definition CS_map :: "bytes \<Rightarrow> bytes \<Rightarrow> charset option" where
  "CS_map p mapped = CS_Init p mapped"

(*@ core/rt/string_type.h 94-99 rt::CharacterSet::Has *)
definition Has :: "charset \<Rightarrow> byte \<Rightarrow> bool" where
  "Has S c = (if 1 \<le> c_int c then S ! nat (c_int c - 1) \<noteq> 0 else False)"

(*@ core/rt/string_type.h 100-105 rt::CharacterSet::Mapped *)
definition Mapped :: "charset \<Rightarrow> byte \<Rightarrow> byte" where
  "Mapped S c = (if 1 \<le> c_int c \<and> S ! nat (c_int c - 1) \<noteq> 0 then S ! nat (c_int c - 1) else c)"

text \<open>The characters with a C escape sequence, and the letters that name them.\<close>

definition escaped_chars :: bytes where
  "escaped_chars = [8, 12, 13, 10, 9, 11, 39, 34, 92]"

definition escape_letters :: bytes where
  "escape_letters = [98, 102, 114, 110, 116, 118, 39, 34, 92]"

(*@ core/rt/string_type.h 108-110 rt::CharacterSet_Escape *)
definition CharacterSet_Escape :: charset where
  "CharacterSet_Escape = the (CS_map escaped_chars escape_letters)"

(*@ core/rt/string_type.h 112-114 rt::CharacterSet_Unescape *)
definition CharacterSet_Unescape :: charset where
  "CharacterSet_Unescape = the (CS_map escape_letters escaped_chars)"

text \<open>\<^verbatim>\<open>for(int i=lo; i<=hi; i++)_Set[i-1] = true;\<close> and \<^verbatim>\<open>while(*sep)_Set[((int)*sep++)-1] = true;\<close>\<close>

definition set_range :: "nat \<Rightarrow> nat \<Rightarrow> charset \<Rightarrow> charset" where
  "set_range lo hi S = fold (\<lambda>i S. S[i - 1 := 1]) [lo..<hi + 1] S"

fun add_seps :: "bytes \<Rightarrow> charset \<Rightarrow> charset option" where
  "add_seps [] S = Some S"
| "add_seps (c # cs) S = do { S \<leftarrow> cs_store c 1 S; add_seps cs S }"

(*@ core/rt/string_type.h 117-121 rt::CharacterSet_ControlChar(LPCSTR) *)
definition CharacterSet_ControlChar_with :: "bytes \<Rightarrow> charset option" where
  "CharacterSet_ControlChar_with p = map_option (set_range 1 31) (CS_str p)"

(*@ core/rt/string_type.h 122-125 rt::CharacterSet_ControlChar *)
definition CharacterSet_ControlChar :: charset where
  "CharacterSet_ControlChar = set_range 1 31 CS_zero"

(*@ core/rt/string_type.h 127-133 rt::CharacterSet_Alphabet *)
definition CharacterSet_Alphabet :: "bytes \<Rightarrow> charset option" where
  "CharacterSet_Alphabet sep_additional = add_seps sep_additional (set_range 65 90 (set_range 97 122 CS_zero))"

(*@ core/rt/string_type.h 135-140 rt::CharacterSet_LowerCase *)
definition CharacterSet_LowerCase :: "bytes \<Rightarrow> charset option" where
  "CharacterSet_LowerCase sep_additional = add_seps sep_additional (set_range 97 122 CS_zero)"

(*@ core/rt/string_type.h 142-147 rt::CharacterSet_UpperCase *)
definition CharacterSet_UpperCase :: "bytes \<Rightarrow> charset option" where
  "CharacterSet_UpperCase sep_additional = add_seps sep_additional (set_range 65 90 CS_zero)"

(*@ core/rt/string_type.h 150-154 rt::CharacterSet_Digits *)
definition CharacterSet_Digits :: charset where
  "CharacterSet_Digits = set_range 48 57 CS_zero"

(*@ core/rt/string_type.h 156-160 rt::CharacterSet_Number *)
definition CharacterSet_Number :: charset where
  "CharacterSet_Number = CharacterSet_Digits[46 - 1 := 1]"

(*@ core/rt/string_type.h 163-170 rt::CharacterSet_AlphabetDigits *)
definition CharacterSet_AlphabetDigits :: "bytes \<Rightarrow> charset option" where
  "CharacterSet_AlphabetDigits sep_additional =
    add_seps sep_additional (set_range 65 90 (set_range 97 122 (set_range 48 57 CS_zero)))"

(*@ core/rt/string_type.h 172-176 rt::CharacterSet_Symbol *)
definition CharacterSet_Symbol :: "bytes \<Rightarrow> charset option" where
  "CharacterSet_Symbol sep_additional =
    map_option (\<lambda>S. S[95 - 1 := 1]) (CharacterSet_AlphabetDigits sep_additional)"

text \<open>The literal \<^verbatim>\<open>.{}[]|\\\"';:,<>?/-=+`~!@#$%^&*()\<close> as character codes.\<close>

(*@ core/rt/string_type.h 178-180 rt::CharacterSet_Printable *)
definition CharacterSet_Printable :: "charset option" where
  "CharacterSet_Printable = CharacterSet_Symbol
    [46, 123, 125, 91, 93, 124, 92, 34, 39, 59, 58, 44, 60, 62, 63, 47, 45, 61, 43, 96, 126, 33, 64,
     35, 36, 37, 94, 38, 42, 40, 41]"

section \<open>Stores and lookups\<close>

lemma c_int_bounds: "c_int c < 128" "- 128 \<le> c_int c"
  using sint_lt [of c] sint_ge [of c] by simp_all

lemma c_int_inject: "c_int c = c_int d \<longleftrightarrow> c = d"
  by (rule word_eq_iff_signed [symmetric])

lemma cs_index_lt: "1 \<le> c_int c \<Longrightarrow> nat (c_int c - 1) < 127"
  using c_int_bounds [of c] by simp

lemma cs_index_inject: "1 \<le> c_int c \<Longrightarrow> 1 \<le> c_int d \<Longrightarrow> nat (c_int c - 1) = nat (c_int d - 1) \<longleftrightarrow> c = d"
  by (auto simp: nat_eq_iff c_int_inject)

definition cs_get :: "charset \<Rightarrow> byte \<Rightarrow> byte" where
  "cs_get S c = (if 1 \<le> c_int c then S ! nat (c_int c - 1) else 0)"

lemma Has_get: "Has S c \<longleftrightarrow> cs_get S c \<noteq> 0"
  by (simp add: Has_def cs_get_def)

lemma Mapped_get: "Mapped S c = (if cs_get S c = 0 then c else cs_get S c)"
  by (auto simp: Mapped_def cs_get_def)

lemma cs_get_zero [simp]: "cs_get CS_zero c = 0"
  using cs_index_lt [of c] by (simp add: cs_get_def CS_zero_def)

lemma length_CS_zero [simp]: "length CS_zero = 127"
  by (simp add: CS_zero_def)

lemma cs_store_get:
  assumes "cs_store c v S = Some S'" "length S = 127"
  shows "length S' = 127" "cs_get S' d = (if d = c then v else cs_get S d)"
  using assms cs_index_lt cs_index_inject [of c d]
  by (auto simp: cs_store_def cs_get_def nth_list_update split: if_splits)

lemma CS_Init_loop_get:
  assumes "CS_Init_loop p m S = Some S'" "length S = 127"
  shows "length S' = 127 \<and> cs_get S' d = (case map_of (rev (zip p m)) d of None \<Rightarrow> cs_get S d | Some v \<Rightarrow> v)"
  using assms
proof (induction p m S rule: CS_Init_loop.induct)
  case (3 c p m mapped S)
  then obtain S1 where s1: "cs_store c m S = Some S1" "CS_Init_loop p mapped S1 = Some S'"
    by (auto simp: bind_eq_Some_conv)
  have "length S1 = 127" "cs_get S1 d = (if d = c then m else cs_get S d)"
    using cs_store_get [OF s1(1) "3.prems"(2)] by auto
  then show ?case using "3.IH" [OF s1] by (auto simp: map_add_def split: option.splits)
qed auto

lemma CS_Init_some: "length p = length m \<Longrightarrow> \<forall>c\<in>set p. 1 \<le> c_int c \<Longrightarrow> \<exists>S'. CS_Init_loop p m S = Some S'"
  by (induction p m S rule: CS_Init_loop.induct) (auto simp: cs_store_def)

lemma CS_Init_get: "CS_Init p m = Some S \<Longrightarrow> cs_get S d = (case map_of (rev (zip p m)) d of None \<Rightarrow> 0 | Some v \<Rightarrow> v)"
  using CS_Init_loop_get [of p m CS_zero S d] by (simp add: CS_Init_def split: option.split)

lemma map_of_zip_same: "map_of (rev (zip xs xs)) d = (if d \<in> set xs then Some d else None)"
  by (induction xs) (auto simp: map_add_def)

lemma escape_tables:
  "\<exists>S. CS_map escaped_chars escape_letters = Some S" "\<exists>S. CS_map escape_letters escaped_chars = Some S"
  unfolding CS_map_def CS_Init_def by (rule CS_Init_some; simp add: escaped_chars_def escape_letters_def)+

text \<open>The tables, evaluated on all 256 bytes.\<close>

lemma escape_all:
  "list_all (\<lambda>c. if Has CharacterSet_Escape c then Has CharacterSet_Unescape (Mapped CharacterSet_Escape c) \<and>
     Mapped CharacterSet_Unescape (Mapped CharacterSet_Escape c) = c
   else Mapped CharacterSet_Escape c = c) (map word_of_nat [0..<256])"
  by code_simp

lemma symbol_some: "CharacterSet_Symbol [] \<noteq> None"
  by code_simp

lemma printable_some: "CharacterSet_Printable \<noteq> None"
  by code_simp

lemma symbol_all:
  "list_all (\<lambda>c. Has (the (CharacterSet_Symbol [])) c \<longleftrightarrow>
     (48 \<le> c \<and> c \<le> 57) \<or> (65 \<le> c \<and> c \<le> 90) \<or> (97 \<le> c \<and> c \<le> 122) \<or> c = 95) (map word_of_nat [0..<256])"
  by code_simp

lemma printable_all:
  "list_all (\<lambda>c. Has (the CharacterSet_Printable) c \<longleftrightarrow> 33 \<le> c \<and> c \<le> 126) (map word_of_nat [0..<256])"
  by code_simp

section \<open>Properties\<close>

text \<open>a set built from a string of characters 1 to 127 has exactly those characters, and
  \<^verbatim>\<open>Mapped\<close> is the identity on it.\<close>

theorem CharacterSet_members:
  assumes "\<forall>c\<in>set p. 1 \<le> c_int c"
  shows "\<exists>S. CS_str p = Some S \<and> (\<forall>c. (Has S c \<longleftrightarrow> c \<in> set p) \<and> Mapped S c = c)"
proof -
  obtain S where S: "CS_Init p p = Some S" using CS_Init_some [of p p] assms by (auto simp: CS_Init_def)
  have "cs_get S c = (if c \<in> set p then c else 0)" for c using CS_Init_get [OF S, of c] by (simp add: map_of_zip_same)
  moreover have "c \<noteq> 0" if "c \<in> set p" for c using assms that by auto
  ultimately show ?thesis using S by (auto simp: CS_str_def Has_get Mapped_get)
qed

theorem CharacterSet_members_witness:
  "\<exists>S. CS_str [47, 92] = Some S \<and> (\<forall>c. (Has S c \<longleftrightarrow> c \<in> set [47, 92]) \<and> Mapped S c = c)"
  by (rule CharacterSet_members) simp

text \<open>the unescape table undoes the escape table: every escaped character is mapped to a character of
  the unescape table that maps back to it, and every other character is mapped to itself.\<close>

theorem CharacterSet_Escape_Unescape:
  "if Has CharacterSet_Escape c then Has CharacterSet_Unescape (Mapped CharacterSet_Escape c) \<and>
     Mapped CharacterSet_Unescape (Mapped CharacterSet_Escape c) = c
   else Mapped CharacterSet_Escape c = c"
  using escape_all [unfolded all_bytes [symmetric], THEN spec, of c] .

text \<open>\<^verbatim>\<open>CharacterSet_Symbol\<close> has the letters, the digits and the underscore; \<^verbatim>\<open>CharacterSet_Printable\<close> has
  every visible ASCII character (not the blank).\<close>

theorem CharacterSet_Printable_visible:
  "\<exists>S P. CharacterSet_Symbol [] = Some S \<and> CharacterSet_Printable = Some P \<and>
    (\<forall>c. Has S c \<longleftrightarrow> (48 \<le> c \<and> c \<le> 57) \<or> (65 \<le> c \<and> c \<le> 90) \<or> (97 \<le> c \<and> c \<le> 122) \<or> c = 95) \<and>
    (\<forall>c. Has P c \<longleftrightarrow> 33 \<le> c \<and> c \<le> 126)"
  using symbol_all [unfolded all_bytes [symmetric]] printable_all [unfolded all_bytes [symmetric]]
    symbol_some printable_some by (metis option.collapse)

end
