(* ===== verification/StrNum.thy ===== *)
theory StrNum
  imports Base
begin

text \<open>
  Numbers to text and back: \<^verbatim>\<open>rt::string_ops\<close> of \<^verbatim>\<open>core/rt/string_type_op.h\<close> (\<^verbatim>\<open>itoa\<close> and its in-place
  reversal), the number parsing of \<^verbatim>\<open>String_Base::ToNumber\<close> and \<^verbatim>\<open>String_Ref::ParseNextNumber\<close>, and the
  fixed-size text object \<^verbatim>\<open>rt::tos::S_\<close> that holds a printed number.

  A string is the list of its characters. Integer types are words of their width; \<^verbatim>\<open>ToNumber\<close> is
  modelled for integer targets, of which it uses the width and the signedness (the floating
  point branches are not modelled). An offset is returned as \<^verbatim>\<open>int\<close>, so strings are shorter than \<open>2\<^sup>3\<^sup>1\<close>.
\<close>

section \<open>Definitions\<close>

subsection \<open>itoa\<close>

(*@ core/rt/string_type_op.h 35-40 rt::string_ops::strreverse *)
function strreverse :: "bytes \<Rightarrow> nat \<Rightarrow> nat \<Rightarrow> bytes" where
  "strreverse str begin end =
    (if end > begin then strreverse (str[end := str ! begin, begin := str ! end]) (begin + 1) (end - 1) else str)"
  by pat_completeness auto
termination by (relation "measure (\<lambda>(str, b, e). e - b)") auto

text \<open>\<^verbatim>\<open>(char)(48 + d)\<close>\<close>

definition digit_char :: "nat \<Rightarrow> byte" where
  "digit_char d = word_of_nat (48 + d)"

text \<open>The digit loop; \<open>wstr\<close> is what has been written so far.\<close>

(*@ core/rt/string_type_op.h 48-48 rt::string_ops::itoa *)
function itoa_digits :: "nat \<Rightarrow> bytes \<Rightarrow> bytes" where
  "itoa_digits uvalue wstr =
    (let wstr = wstr @ [digit_char (uvalue mod 10)] in
     if uvalue div 10 \<noteq> 0 then itoa_digits (uvalue div 10) wstr else wstr)"
  by pat_completeness auto
termination by (relation "measure fst") auto

text \<open>The length returned and the characters left in \<^verbatim>\<open>str\<close>, with the terminating zero.\<close>

(*@ core/rt/string_type_op.h 42-55 rt::string_ops::itoa(INT) *)
definition itoa_INT :: "32 word \<Rightarrow> nat \<times> bytes" where
  "itoa_INT value =
    (let uvalue = (if sint value < 0 then - value else value);
         wstr = itoa_digits (unat uvalue) [];
         wstr = (if sint value < 0 then wstr @ [45] else wstr)
     in (length wstr, strreverse (wstr @ [0]) 0 (length wstr - 1)))"

(*@ core/rt/string_type_op.h 57-66 rt::string_ops::itoa(UINT) *)
definition itoa_UINT :: "u32 \<Rightarrow> nat \<times> bytes" where
  "itoa_UINT value =
    (let wstr = itoa_digits (unat value) []
     in (length wstr, strreverse (wstr @ [0]) 0 (length wstr - 1)))"

(*@ core/rt/string_type_op.h 68-81 rt::string_ops::itoa(LONGLONG) *)
definition itoa_LONGLONG :: "64 word \<Rightarrow> nat \<times> bytes" where
  "itoa_LONGLONG value =
    (let uvalue = (if sint value < 0 then - value else value);
         wstr = itoa_digits (unat uvalue) [];
         wstr = (if sint value < 0 then wstr @ [45] else wstr)
     in (length wstr, strreverse (wstr @ [0]) 0 (length wstr - 1)))"

(*@ core/rt/string_type_op.h 83-92 rt::string_ops::itoa(ULONGLONG) *)
definition itoa_ULONGLONG :: "u64 \<Rightarrow> nat \<times> bytes" where
  "itoa_ULONGLONG value =
    (let wstr = itoa_digits (unat value) []
     in (length wstr, strreverse (wstr @ [0]) 0 (length wstr - 1)))"

subsection \<open>ToNumber\<close>

(*@ core/rt/string_type.h 52-64 rt::_details::_to_num *)
definition to_num :: "int \<Rightarrow> byte \<Rightarrow> int" where
  "to_num BASE c =
    (let x = c_int c in
     if BASE \<le> 10 then (if x \<ge> 48 then x - 48 else BASE)
     else if x \<le> 57 \<and> x \<ge> 48 then x - 48
     else if x \<le> 65 + BASE \<and> x \<ge> 65 then x - 65 + 10
     else if x \<le> 97 + BASE \<and> x \<ge> 97 then x - 97 + 10
     else BASE)"

(*@ core/rt/string_type.h 417-422 rt::String_Base::ToNumber *)
fun ToNumber_loop :: "int \<Rightarrow> byte \<Rightarrow> bytes \<Rightarrow> 'a::len word \<Rightarrow> nat \<Rightarrow> 'a word \<times> nat" where
  "ToNumber_loop BASE sep [] x d = (x, d)"
| "ToNumber_loop BASE sep (c # cs) x d =
    (if c = sep \<or> to_num BASE c < BASE
     then ToNumber_loop BASE sep cs (if c \<noteq> sep then x * of_int BASE + of_int (to_num BASE c) else x) (d + 1)
     else (x, d))"

(*@ core/rt/string_type.h 384-456 rt::String_Base::ToNumber *)
definition ToNumber :: "int \<Rightarrow> bool \<Rightarrow> bool \<Rightarrow> byte \<Rightarrow> bytes \<Rightarrow> int \<times> 'a::len word" where
  "ToNumber BASE IsSigned ALLOW_LEADING_NON_NUMERIC DIGIT_GROUP_SEPARATOR p =
    (if p = [] then (- 1, 0)
     else let d = length (takeWhile (\<lambda>c. to_num BASE c \<ge> BASE) p) in
       if d = length p then (- 1, 0)
       else let sgn = IsSigned \<and> d \<ge> 1 \<and> (p ! (d - 1) = 43 \<or> p ! (d - 1) = 45);
                neg = (sgn \<and> p ! (d - 1) = 45);
                s = (if sgn then d - 1 else d) in
         if \<not> ALLOW_LEADING_NON_NUMERIC \<and> s \<noteq> 0 then (- 1, 0)
         else let (x, d) = ToNumber_loop BASE DIGIT_GROUP_SEPARATOR (drop d p) 0 d in
           (int d, if IsSigned \<and> neg then - x else x))"

(*@ core/rt/string_type.h 380-383 rt::String_Base::ToNumber *)
definition ToNumber_default :: "int \<Rightarrow> bool \<Rightarrow> bytes \<Rightarrow> int \<times> 'a::len word" where
  "ToNumber_default BASE IsSigned p = ToNumber BASE IsSigned True 44 p"

text \<open>\<^verbatim>\<open>ToNumber(bool&)\<close> reads a \<^verbatim>\<open>DWORD\<close> from the memory of the string, which may reach past its end:
  \<open>rest\<close> is the memory that follows. The result is the return value and the new value of \<^verbatim>\<open>x\<close>, if it is
  assigned; \<open>None\<close> is a read outside the memory.\<close>

definition load_DWORD :: "bytes \<Rightarrow> u32 option" where
  "load_DWORD mem = (if 4 \<le> length mem then Some (le_load (take 4 mem)) else None)"

(*@ core/rt/string_type.h 370-379 rt::String_Base::ToNumber(bool) *)
definition ToNumber_bool :: "bytes \<Rightarrow> bytes \<Rightarrow> (int \<times> bool option) option" where
  "ToNumber_bool p rest =
    (let mem = p @ rest in
     if p = [] then Some (0, None)
     else if p ! 0 = 49 then Some (1, Some True)
     else if p ! 0 = 48 then Some (1, Some False)
     else if p ! 0 = 116 then map_option (\<lambda>w. (if 0x65757274 = w then 4 else 1, Some True)) (load_DWORD mem)
     else if p ! 0 = 102 then map_option (\<lambda>w. (if 0x65736c61 = w then 5 else 1, Some False)) (load_DWORD (drop 1 mem))
     else if p ! 0 = 84 then map_option (\<lambda>w. (if 0x45555254 = w then 4 else 1, Some True)) (load_DWORD mem)
     else if p ! 0 = 70 then map_option (\<lambda>w. (if 0x45534c41 = w then 5 else 1, Some False)) (load_DWORD (drop 1 mem))
     else Some (0, None))"

definition is_digit :: "byte \<Rightarrow> bool" where
  "is_digit c \<longleftrightarrow> 48 \<le> c_int c \<and> c_int c \<le> 57"

(*@ core/rt/string_type.h 884-888 rt::String_Ref::ParseNextNumber *)
fun ParseNextNumber_loop :: "bytes \<Rightarrow> u32 \<Rightarrow> u32 \<times> bytes" where
  "ParseNextNumber_loop [] ret = (ret, [])"
| "ParseNextNumber_loop (c # cs) ret =
    (if is_digit c then ParseNextNumber_loop cs (ret * 10 + of_int (c_int c - 48)) else (ret, c # cs))"

text \<open>The number and the rest of the string, if there is a digit.\<close>

(*@ core/rt/string_type.h 878-891 rt::String_Ref::ParseNextNumber *)
definition ParseNextNumber :: "bytes \<Rightarrow> (u32 \<times> bytes) option" where
  "ParseNextNumber p =
    (case dropWhile (\<lambda>c. \<not> is_digit c) p of [] \<Rightarrow> None | c # cs \<Rightarrow> Some (ParseNextNumber_loop (c # cs) 0))"

subsection \<open>tos::S\_\<close>

text \<open>The array \<^verbatim>\<open>_string\<close> of \<^verbatim>\<open>LEN\<close> characters and \<^verbatim>\<open>_len\<close>, which counts the terminating zero.\<close>

(*@ core/rt/string_type.h 957-962 rt::tos::S_ *)
record tos_S =
  tos_string :: bytes
  tos_len :: nat

definition tos_write :: "nat \<Rightarrow> bytes \<Rightarrow> bytes \<Rightarrow> bytes option" where
  "tos_write i xs arr = (if i + length xs \<le> length arr then Some (write_at i xs arr) else None)"

text \<open>What the overloads of \<^verbatim>\<open>__toS\<close> return and write: \<^verbatim>\<open>itoa\<close> writes a terminating zero too.\<close>

(*@ core/rt/string_type.h 988-988 rt::tos::S_::__toS(char) *)
definition toS_char :: "byte \<Rightarrow> nat \<times> bytes" where
  "toS_char x = (1, [x])"

(*@ core/rt/string_type.h 1007-1010 rt::tos::S_::__toS(bool) *)
definition toS_bool :: "bool \<Rightarrow> nat \<times> bytes" where
  "toS_bool x = (if x then (4, le_store 4 (0x65757274 :: u32)) else (5, le_store 4 (0x736c6166 :: u32) @ [ch CHR ''e'']))"

(*@ core/rt/string_type.h 1013-1018 rt::tos::S_::S_ *)
definition S_ctor :: "nat \<times> bytes \<Rightarrow> bytes \<Rightarrow> tos_S option" where
  "S_ctor out arr =
    (case tos_write 0 (snd out) arr of
       None \<Rightarrow> None
     | Some arr \<Rightarrow>
         let len = 1 + fst out in
         (case tos_write len [0] arr of None \<Rightarrow> None | Some arr \<Rightarrow> Some \<lparr> tos_string = arr, tos_len = len \<rparr>))"

definition S_text :: "tos_S \<Rightarrow> bytes" where
  "S_text s = take (tos_len s - 1) (tos_string s)"

(*@ core/rt/string_type.h 969-978 rt::tos::S_::RightAlign *)
definition RightAlign :: "nat \<Rightarrow> byte \<Rightarrow> tos_S \<Rightarrow> tos_S option" where
  "RightAlign w pad s =
    (let l = (if tos_len s = 0 then 0 else tos_len s - 1) in
     if w > l then
       if w < length (tos_string s)
       then Some \<lparr> tos_string = write_at w [0] (write_at 0 (replicate (w - l) pad) (write_at (w - l) (take l (tos_string s)) (tos_string s))),
                   tos_len = w + 1 \<rparr>
       else None
     else Some s)"

(*@ core/rt/string_type.h 979-987 rt::tos::S_::LeftAlign *)
definition LeftAlign :: "nat \<Rightarrow> byte \<Rightarrow> tos_S \<Rightarrow> tos_S option" where
  "LeftAlign w pad s =
    (let l = (if tos_len s = 0 then 0 else tos_len s - 1) in
     if w > l then
       if w < length (tos_string s)
       then Some \<lparr> tos_string = write_at w [0] (write_at l (replicate (w - l) pad) (tos_string s)), tos_len = w + 1 \<rparr>
       else None
     else Some s)"

text \<open>The default size of \<^verbatim>\<open>S_<>\<close>: \<^verbatim>\<open>21*DIMEN + (DIMEN-1)*2\<close> for \<^verbatim>\<open>DIMEN\<close> = 1.\<close>

(*@ core/rt/string_type.h 934-934 rt::tos::S_ *)
definition S_LEN :: "nat \<Rightarrow> nat" where
  "S_LEN dimen = 21 * dimen + (dimen - 1) * 2"

section \<open>Decimal notation\<close>

text \<open>The reference: the decimal digits of a number, most significant first.\<close>

fun dec :: "nat \<Rightarrow> bytes" where
  "dec n = (if n < 10 then [digit_char n] else dec (n div 10) @ [digit_char (n mod 10)])"

declare dec.simps [simp del] strreverse.simps [simp del] itoa_digits.simps [simp del]

definition sdec :: "int \<Rightarrow> bytes" where
  "sdec v = (if v < 0 then 45 # dec (nat (- v)) else dec (nat v))"

lemma strreverse_nth:
  "e < length l \<Longrightarrow> length (strreverse l b e) = length l \<and>
    (\<forall>i < length l. strreverse l b e ! i = (if b \<le> i \<and> i \<le> e then l ! (b + e - i) else l ! i))"
proof (induction l b e rule: strreverse.induct)
  case (1 str b e)
  show ?case
  proof (cases "e > b")
    case True
    let ?s = "str[e := str ! b, b := str ! e]"
    have IH: "length (strreverse ?s (b + 1) (e - 1)) = length str"
      "\<And>i. i < length str \<Longrightarrow> strreverse ?s (b + 1) (e - 1) ! i =
        (if b + 1 \<le> i \<and> i \<le> e - 1 then ?s ! (b + 1 + (e - 1) - i) else ?s ! i)"
      using "1.IH" [OF True] "1.prems" by auto
    have eq: "strreverse str b e = strreverse ?s (b + 1) (e - 1)" using True by (subst strreverse.simps) simp
    have "strreverse str b e ! i = (if b \<le> i \<and> i \<le> e then str ! (b + e - i) else str ! i)" if "i < length str" for i
    proof -
      consider "i = b" | "i = e" | "b < i" "i < e" | "i < b \<or> e < i" by linarith
      then show ?thesis using True "1.prems" that IH(2) [OF that] unfolding eq
        by cases (auto simp: nth_list_update)
    qed
    then show ?thesis using eq IH(1) by simp
  next
    case False
    then have "strreverse str b e = str" by (subst strreverse.simps) simp
    moreover have "b + e - i = i" if "b \<le> i" "i \<le> e" for i using False that by simp
    ultimately show ?thesis by simp
  qed
qed

lemma strreverse_all: "w \<noteq> [] \<Longrightarrow> strreverse (w @ [z]) 0 (length w - 1) = rev w @ [z]"
proof (rule nth_equalityI)
  assume w: "w \<noteq> []"
  have r: "length (strreverse (w @ [z]) 0 (length w - 1)) = length (w @ [z])"
    "\<And>i. i < length (w @ [z]) \<Longrightarrow> strreverse (w @ [z]) 0 (length w - 1) ! i =
      (if i \<le> length w - 1 then (w @ [z]) ! (length w - 1 - i) else (w @ [z]) ! i)"
    using strreverse_nth [of "length w - 1" "w @ [z]" 0] by auto
  show "length (strreverse (w @ [z]) 0 (length w - 1)) = length (rev w @ [z])" using r(1) by simp
  fix i assume "i < length (strreverse (w @ [z]) 0 (length w - 1))"
  then have i: "i < length (w @ [z])" using r(1) by simp
  have "i \<le> length w - 1 \<longleftrightarrow> i < length w" using w by (cases w) auto
  then show "strreverse (w @ [z]) 0 (length w - 1) ! i = (rev w @ [z]) ! i"
    using r(2) [OF i] i by (auto simp: nth_append rev_nth)
qed

lemma itoa_digits_dec: "itoa_digits n w = w @ rev (dec n)"
proof (induction n w rule: itoa_digits.induct)
  case (1 n w)
  then show ?case
    by (subst itoa_digits.simps, subst dec.simps) (auto simp: Let_def div_eq_0_iff)
qed

lemma dec_not_Nil [simp]: "dec n \<noteq> []"
  by (subst dec.simps) simp

lemma abs_word: "sint (v :: 'a::len word) < 0 \<Longrightarrow> int (unat (- v)) = - sint v"
proof -
  assume n: "sint v < 0"
  have "- v = word_of_int (- sint v)" by simp
  then have "uint (- v) = (- sint v) mod 2 ^ LENGTH('a)" by (simp only: uint_word_of_int)
  moreover have "- sint v < 2 ^ LENGTH('a)"
  proof -
    have "- sint v \<le> 2 ^ (LENGTH('a) - 1)" using sint_ge [of v] by simp
    also have "\<dots> < 2 ^ LENGTH('a)" by simp
    finally show ?thesis .
  qed
  ultimately show ?thesis using n by (simp add: mod_pos_pos_trivial)
qed

lemma unat_nonneg: "0 \<le> sint (v :: 'a::len word) \<Longrightarrow> nat (sint v) = unat v"
proof -
  assume n: "0 \<le> sint v"
  have "v = word_of_int (sint v)" by simp
  then have "uint v = sint v mod 2 ^ LENGTH('a)" by (metis uint_word_of_int)
  moreover have "sint v < 2 ^ LENGTH('a)"
  proof -
    have "sint v < 2 ^ (LENGTH('a) - 1)" by (rule sint_lt)
    also have "\<dots> < 2 ^ LENGTH('a)" by simp
    finally show ?thesis .
  qed
  ultimately have "uint v = sint v" using n by simp
  then show ?thesis by (metis nat_uint_eq)
qed

lemma itoa_signed:
  "(let w = itoa_digits (unat (if sint (v :: 'a::len word) < 0 then - v else v)) [];
        w = (if sint v < 0 then w @ [45] else w)
    in (length w, strreverse (w @ [0]) 0 (length w - 1))) = (length (sdec (sint v)), sdec (sint v) @ [0])"
proof (cases "sint v < 0")
  case True
  then have "nat (- sint v) = unat (- v)" using abs_word [OF True] by (metis nat_int)
  then show ?thesis using True strreverse_all [of "rev (dec (unat (- v))) @ [45]" 0]
    by (simp add: Let_def itoa_digits_dec sdec_def)
next
  case False
  then have "nat (sint v) = unat v" by (rule unat_nonneg [OF leI])
  then show ?thesis using False strreverse_all [of "rev (dec (unat v))" 0]
    by (simp add: Let_def itoa_digits_dec sdec_def)
qed

lemma itoa_unsigned:
  "(let w = itoa_digits n [] in (length w, strreverse (w @ [0]) 0 (length w - 1))) = (length (dec n), dec n @ [0])"
  using strreverse_all [of "rev (dec n)" 0] by (simp add: Let_def itoa_digits_dec)

lemma itoa_INT_sdec: "itoa_INT v = (length (sdec (sint v)), sdec (sint v) @ [0])"
  unfolding itoa_INT_def Let_def by (rule itoa_signed [unfolded Let_def])

lemma itoa_LONGLONG_sdec: "itoa_LONGLONG v = (length (sdec (sint v)), sdec (sint v) @ [0])"
  unfolding itoa_LONGLONG_def Let_def by (rule itoa_signed [unfolded Let_def])

lemma itoa_UINT_dec: "itoa_UINT v = (length (dec (unat v)), dec (unat v) @ [0])"
  unfolding itoa_UINT_def by (rule itoa_unsigned)

lemma itoa_ULONGLONG_dec: "itoa_ULONGLONG v = (length (dec (unat v)), dec (unat v) @ [0])"
  unfolding itoa_ULONGLONG_def by (rule itoa_unsigned)

lemma c_int_digit [simp]: "k < 10 \<Longrightarrow> c_int (digit_char k) = int (48 + k)"
proof -
  assume "k < 10"
  then have u: "unat (digit_char k) = 48 + k" unfolding digit_char_def by (intro unat_word_of_nat) simp
  then have "unat (digit_char k) < 2 ^ (LENGTH(8) - 1)" using \<open>k < 10\<close> by simp
  then show ?thesis by (simp only: sint_small u)
qed

lemma scast_digit [simp]:
  assumes "k < 10"
  shows "(scast (digit_char k) :: 'a::len word) = of_nat (48 + k)"
proof -
  have "(scast (digit_char k) :: 'a word) = of_int (c_int (digit_char k))" by (rule of_int_sint [symmetric])
  then show ?thesis by (simp only: c_int_digit [OF assms] of_int_of_nat_eq)
qed

lemma dec_digits: "c \<in> set (dec n) \<Longrightarrow> is_digit c"
proof (induction n rule: dec.induct)
  case (1 n)
  then show ?case by (subst (asm) (2) dec.simps) (auto simp: is_digit_def split: if_splits)
qed

lemma length_dec: "0 < k \<Longrightarrow> length (dec n) \<le> k \<longleftrightarrow> n < 10 ^ k"
proof (induction n arbitrary: k rule: dec.induct)
  case (1 n)
  show ?case
  proof (cases "n < 10")
    case True
    have "(10 :: nat) ^ 1 \<le> 10 ^ k" using "1.prems" by (intro power_increasing) auto
    then show ?thesis using True "1.prems" by (subst dec.simps) simp
  next
    case False
    then have len: "length (dec n) = Suc (length (dec (n div 10)))" by (subst dec.simps) simp
    obtain j where k: "k = Suc j" using "1.prems" by (cases k) auto
    show ?thesis
    proof (cases "j = 0")
      case True
      then show ?thesis using False k len by (simp add: Suc_le_eq)
    next
      case False
      have "length (dec (n div 10)) \<le> j \<longleftrightarrow> n div 10 < 10 ^ j" using "1.IH" \<open>\<not> n < 10\<close> False by simp
      also have "\<dots> \<longleftrightarrow> n < 10 ^ k" unfolding k by (simp add: div_less_iff_less_mult mult.commute)
      finally show ?thesis using len k by simp
    qed
  qed
qed

text \<open>Parsing a run of digits.\<close>

definition digits_value :: "'a::len word \<Rightarrow> bytes \<Rightarrow> 'a word" where
  "digits_value x ds = foldl (\<lambda>x c. x * 10 + of_int (c_int c - 48)) x ds"

lemma ToNumber_loop_digits:
  "\<forall>c\<in>set ds. is_digit c \<Longrightarrow> ToNumber_loop 10 44 ds x d = (digits_value x ds, d + length ds)"
  by (induction ds arbitrary: x d) (auto simp: digits_value_def to_num_def is_digit_def)

lemma digits_value_dec: "digits_value 0 (dec n) = of_nat n"
proof (induction n rule: dec.induct)
  case (1 n)
  show ?case
  proof (cases "n < 10")
    case True
    then show ?thesis by (subst dec.simps) (simp add: digits_value_def)
  next
    case False
    have "n = n div 10 * 10 + n mod 10" by simp
    then have "(of_nat n :: 'a word) = of_nat (n div 10) * 10 + of_nat (n mod 10)"
      by (metis of_nat_add of_nat_mult of_nat_numeral)
    then show ?thesis using False 1 by (subst dec.simps) (simp add: digits_value_def)
  qed
qed

lemma to_num_digit: "is_digit c \<Longrightarrow> to_num 10 c < 10"
  by (simp add: to_num_def is_digit_def)

lemma takeWhile_dec: "takeWhile (\<lambda>c. to_num 10 c \<ge> 10) (dec n) = []"
  using dec_digits [of "hd (dec n)" n] to_num_digit [of "hd (dec n)"] by (cases "dec n") auto

lemma ToNumber_dec: "ToNumber 10 s allow 44 (dec n) = (int (length (dec n)), of_nat n)"
  using dec_digits [of _ n] by (simp add: ToNumber_def takeWhile_dec ToNumber_loop_digits digits_value_dec)

lemma ToNumber_minus: "ToNumber 10 True allow 44 (45 # dec n) = (int (length (45 # dec n)), - of_nat n)"
proof -
  have "takeWhile (\<lambda>c. to_num 10 c \<ge> 10) (45 # dec n) = [45]"
    using takeWhile_dec [of n] by (simp add: to_num_def)
  then show ?thesis using dec_digits [of _ n] by (simp add: ToNumber_def ToNumber_loop_digits digits_value_dec)
qed

lemma ToNumber_sdec: "ToNumber 10 True allow 44 (sdec (sint v)) = (int (length (sdec (sint v))), v :: 'a::len word)"
proof (cases "sint v < 0")
  case True
  then have "nat (- sint v) = unat (- v)" using abs_word [OF True] by (metis nat_int)
  then show ?thesis using True by (simp add: sdec_def ToNumber_minus)
next
  case False
  then have "nat (sint v) = unat v" by (intro unat_nonneg) simp
  then show ?thesis using False by (simp add: sdec_def ToNumber_dec)
qed

text \<open>The fixed-size text object.\<close>

lemma S_ctor_text:
  "S_ctor (length t, t @ [0]) arr \<noteq> None \<longleftrightarrow> length t + 2 \<le> length arr"
  "S_ctor (length t, t @ [0]) arr = Some s \<Longrightarrow> S_text s = t"
  by (auto simp: S_ctor_def tos_write_def S_text_def write_at_def Let_def split: if_splits)

lemma S_text_align:
  assumes "l = tos_len s - 1" "l < w" "w < length (tos_string s)" "tos_len s \<le> length (tos_string s)"
  shows "\<exists>r. RightAlign w pad s = Some r \<and> S_text r = replicate (w - l) pad @ S_text s"
    "\<exists>r. LeftAlign w pad s = Some r \<and> S_text r = S_text s @ replicate (w - l) pad"
  using assms by (auto simp: RightAlign_def LeftAlign_def S_text_def write_at_def Let_def)

section \<open>Properties\<close>

text \<open>The characters \<^verbatim>\<open>itoa\<close> leaves are the shortest decimal notation of the value, with a minus sign
  when it is negative, for every value of the four integer types, the most negative included.\<close>

theorem itoa_decimal:
  "itoa_INT i = (length (sdec (sint i)), sdec (sint i) @ [0]) \<and>
   itoa_UINT u = (length (dec (unat u)), dec (unat u) @ [0]) \<and>
   itoa_LONGLONG l = (length (sdec (sint l)), sdec (sint l) @ [0]) \<and>
   itoa_ULONGLONG m = (length (dec (unat m)), dec (unat m) @ [0])"
  by (simp only: itoa_INT_sdec itoa_UINT_dec itoa_LONGLONG_sdec itoa_ULONGLONG_dec)

text \<open>C32: \<^verbatim>\<open>ToNumber\<close> reads back what \<^verbatim>\<open>itoa\<close> printed, for every value of the four integer types, and stops
  at the end of the text.\<close>

theorem itoa_ToNumber:
  "(let (n, s) = itoa_INT i in ToNumber 10 True allow 44 (take n s) = (int n, i)) \<and>
   (let (n, s) = itoa_UINT u in ToNumber 10 False allow 44 (take n s) = (int n, u)) \<and>
   (let (n, s) = itoa_LONGLONG l in ToNumber 10 True allow 44 (take n s) = (int n, l)) \<and>
   (let (n, s) = itoa_ULONGLONG m in ToNumber 10 False allow 44 (take n s) = (int n, m))"
  by (simp add: itoa_INT_sdec itoa_UINT_dec itoa_LONGLONG_sdec itoa_ULONGLONG_dec ToNumber_sdec ToNumber_dec)

text \<open>C33: Printing into the default \<^verbatim>\<open>S_<>\<close> of 21 characters stays inside the array for every 32-bit value;
  for 64-bit values it does exactly when the text is shorter than 20 characters: the constructor
  stores a second zero at \<^verbatim>\<open>_string[_len]\<close>, one past the one \<^verbatim>\<open>itoa\<close> stored.\<close>

theorem S_number_fits:
  assumes "length arr = S_LEN 1"
  shows "(S_ctor (itoa_INT i) arr \<noteq> None) \<and> (S_ctor (itoa_UINT u) arr \<noteq> None) \<and>
    (S_ctor (itoa_LONGLONG l) arr \<noteq> None \<longleftrightarrow> - (10 ^ 18) < sint l) \<and>
    (S_ctor (itoa_ULONGLONG m) arr \<noteq> None \<longleftrightarrow> unat m < 10 ^ 19)"
proof -
  have arr: "length arr = 21" using assms by (simp add: S_LEN_def)
  have d: "length (dec n) + 2 \<le> 21 \<longleftrightarrow> n < 10 ^ 19" for n using length_dec [of 19 n] by simp
  have d1: "length (dec n) + 3 \<le> 21 \<longleftrightarrow> n < 10 ^ 18" for n using length_dec [of 18 n] by simp
  have i: "- (2 ^ 31) \<le> sint i" "sint i < 2 ^ 31" using sint_ge [of i] sint_lt [of i] by simp_all
  have l: "- (2 ^ 63) \<le> sint l" "sint l < 2 ^ 63" using sint_ge [of l] sint_lt [of l] by simp_all
  have "unat u < 2 ^ 32" using unsigned_less [of u] by simp
  then have U: "S_ctor (itoa_UINT u) arr \<noteq> None" unfolding itoa_UINT_dec S_ctor_text arr d by simp
  have I: "S_ctor (itoa_INT i) arr \<noteq> None"
    unfolding itoa_INT_sdec S_ctor_text arr sdec_def using i d [of "nat (sint i)"] d1 [of "nat (- sint i)"] by auto
  have L: "S_ctor (itoa_LONGLONG l) arr \<noteq> None \<longleftrightarrow> - (10 ^ 18) < sint l"
    unfolding itoa_LONGLONG_sdec S_ctor_text arr sdec_def using l d [of "nat (sint l)"] d1 [of "nat (- sint l)"] by auto
  have M: "S_ctor (itoa_ULONGLONG m) arr \<noteq> None \<longleftrightarrow> unat m < 10 ^ 19"
    unfolding itoa_ULONGLONG_dec S_ctor_text arr d ..
  show ?thesis using I U L M by blast
qed

theorem S_number_fits_witness: "S_ctor (itoa_ULONGLONG 10000000000000000000) (replicate 21 0) = None"
  using S_number_fits [of "replicate 21 0" 0 0 0 10000000000000000000] by (simp add: S_LEN_def)

end
