(* ===== verification/Encode64.thy ===== *)
theory Encode64
  imports Base
begin

text \<open>
  The Base64 and Base16 text encodings of \<^verbatim>\<open>core/os/kernal_encode.cpp\<close>. An encoder is the list of
  characters it writes. A decoder is the value it returns and the list of bytes it writes at its output
  pointer, in order: the position it writes to is always the number of bytes it wrote before. What a
  codec promises is the locale \<open>codec\<close>.
\<close>

unbundle bit_operations_syntax

section \<open>Codecs\<close>

locale codec =
  fixes enc :: "bytes \<Rightarrow> bytes" and dec :: "bytes \<Rightarrow> bool \<times> bytes"
  assumes decode_encode: "dec (enc x) = (True, x)"
begin

lemma encode_inject: "enc x = enc y \<longleftrightarrow> x = y"
  by (metis decode_encode prod.inject)

lemma decode_accepts: "\<exists>s. dec s = (True, x)"
  using decode_encode by blast

end

section \<open>Definitions\<close>

subsection \<open>Base64\<close>

(*@ core/os/kernal_encode.cpp 242-249 os::_details::_isb64 *)
definition isb64 :: "byte \<Rightarrow> bool" where
  "isb64 x =
    (let c = c_int x in
     (c \<ge> 97 \<and> c \<le> 122) \<or> (c \<ge> 65 \<and> c \<le> 90) \<or> (c \<ge> 48 \<and> c \<le> 57) \<or> c = 43 \<or> c = 47)"

(*@ core/os/kernal_encode.cpp 271-274 os::Base64EncodeLength *)
definition Base64EncodeLength :: "nat \<Rightarrow> nat" where
  "Base64EncodeLength len = (len + 2) div 3 * 4"

text \<open>The table \<^verbatim>\<open>ABC...Zabc...z0123456789+/\<close> as character codes.\<close>

(*@ core/os/kernal_encode.cpp 278-278 os::Base64Encode *)
definition b64_table :: bytes where
  "b64_table = map word_of_nat ([65..<91] @ [97..<123] @ [48..<58] @ [43, 47])"

definition b64_char :: "byte \<Rightarrow> byte" where
  "b64_char v = b64_table ! unat v"

(*@ core/os/kernal_encode.cpp 276-308 os::Base64Encode *)
fun Base64Encode :: "bytes \<Rightarrow> bytes" where
  "Base64Encode (p0 # p1 # p2 # p) =
    b64_char (drop_bit 2 p0) # b64_char (push_bit 4 (p0 AND 0x3) OR drop_bit 4 p1)
      # b64_char (push_bit 2 (p1 AND 0xf) OR drop_bit 6 p2) # b64_char (p2 AND 0x3f) # Base64Encode p"
| "Base64Encode [p0] = [b64_char (drop_bit 2 p0), b64_char (push_bit 4 (p0 AND 0x3)), 61, 61]"
| "Base64Encode [p0, p1] =
    [b64_char (drop_bit 2 p0), b64_char (push_bit 4 (p0 AND 0x3) OR drop_bit 4 p1),
     b64_char (push_bit 2 (p1 AND 0xf)), 61]"
| "Base64Encode [] = []"

(*@ core/os/kernal_encode.cpp 310-332 os::Base64DecodeLength *)
definition Base64DecodeLength :: "bytes \<Rightarrow> nat" where
  "Base64DecodeLength s =
    (let str_len = length s in
     if str_len \<le> 3 then 0
     else
       let fulllen = int ((str_len + 3) div 4 * 3);
           miss = int ((4 - str_len mod 4) mod 4);
           b2 = isb64 (s ! (str_len - 2));
           b1 = isb64 (s ! (str_len - 1)) in
       if b2 \<and> b1 \<and> miss \<le> 2 then nat (fulllen - miss)
       else if b2 \<and> \<not> b1 then nat (fulllen - (miss + 1))
       else if \<not> b2 \<and> \<not> b1 \<and> miss = 0 then nat (fulllen - 2)
       else nat fulllen)"

(*@ core/os/kernal_encode.cpp 336-348 os::Base64Decode *)
definition b64_rev_table :: "int list" where
  "b64_rev_table = [62, - 1, - 1, - 1, 63] @ [52..61] @ replicate 7 (- 1) @ [0..25] @ replicate 6 (- 1) @ [26..51]"

text \<open>One table lookup with its range check, \<open>None\<close> when it fails.\<close>

(*@ core/os/kernal_encode.cpp 356-357 os::Base64Decode *)
definition b64_val :: "byte \<Rightarrow> byte option" where
  "b64_val x =
    (let c = c_int x in
     if 0x2b \<le> c \<and> c \<le> 0x7a \<and> b64_rev_table ! nat (c - 0x2b) \<ge> 0
     then Some (word_of_int (b64_rev_table ! nat (c - 0x2b))) else None)"

(*@ core/os/kernal_encode.cpp 354-368 os::Base64Decode *)
fun Base64Decode_loop :: "bytes \<Rightarrow> bytes \<Rightarrow> bytes \<times> bytes" where
  "Base64Decode_loop (c0 # c1 # c2 # c3 # c4 # s) out =
    (case (b64_val c0, b64_val c1, b64_val c2, b64_val c3) of
       (Some a0, Some a1, Some a2, Some a3) \<Rightarrow>
         Base64Decode_loop (c4 # s)
           (out @ [push_bit 2 a0 OR drop_bit 4 a1, push_bit 4 (a1 AND 0xf) OR drop_bit 2 a2, push_bit 6 (a2 AND 0x3) OR a3])
     | _ \<Rightarrow> (c0 # c1 # c2 # c3 # c4 # s, out))"
| "Base64Decode_loop s out = (s, out)"

(*@ core/os/kernal_encode.cpp 373-417 os::Base64Decode *)
definition Base64Decode_tail :: "bytes \<Rightarrow> bytes \<Rightarrow> bool \<times> bytes" where
  "Base64Decode_tail s out =
    (let miss = (4 - length s mod 4) mod 4;
         last4char = write_at 0 (take (4 - miss) s) [61, 61, 61, 61];
         l2 = last4char ! 2; l3 = last4char ! 3 in
     case (b64_val (last4char ! 0), b64_val (last4char ! 1)) of
       (Some a0, Some a1) \<Rightarrow>
         if isb64 l2 \<and> isb64 l3 then
           (length s \<le> 4,
            out @ [push_bit 2 a0 OR drop_bit 4 a1,
                   push_bit 4 (a1 AND 0xf) OR drop_bit 2 (the (b64_val l2)),
                   push_bit 6 (the (b64_val l2) AND 0x3) OR the (b64_val l3)])
         else if isb64 l2 \<and> \<not> isb64 l3 then
           (length s \<le> 4,
            out @ [push_bit 2 a0 OR drop_bit 4 a1, push_bit 4 (a1 AND 0xf) OR drop_bit 2 (the (b64_val l2))])
         else if \<not> isb64 l2 \<and> \<not> isb64 l3 then (length s \<le> 4, out @ [push_bit 2 a0 OR drop_bit 4 a1])
         else (False, out)
     | _ \<Rightarrow> (False, out))"

(*@ core/os/kernal_encode.cpp 334-418 os::Base64Decode *)
definition Base64Decode :: "bytes \<Rightarrow> bool \<times> bytes" where
  "Base64Decode s =
    (case Base64Decode_loop s [] of (s, out) \<Rightarrow> if s = [] then (True, out) else Base64Decode_tail s out)"

subsection \<open>Base16\<close>

(*@ core/os/kernal_encode.cpp 420-420 os::Base16EncodeLength *)
definition Base16EncodeLength :: "nat \<Rightarrow> nat" where
  "Base16EncodeLength len = len * 2"

(*@ core/os/kernal_encode.cpp 421-421 os::Base16DecodeLength *)
definition Base16DecodeLength :: "nat \<Rightarrow> nat" where
  "Base16DecodeLength len = len div 2"

(*@ core/os/kernal_encode.cpp 428-431 os::Base16Encode *)
definition hex_char :: "byte \<Rightarrow> byte" where
  "hex_char c = (if c > 9 then 65 + c - 10 else 48 + c)"

(*@ core/os/kernal_encode.cpp 423-433 os::Base16Encode *)
fun Base16Encode :: "bytes \<Rightarrow> bytes" where
  "Base16Encode [] = []"
| "Base16Encode (d # pData) = hex_char (drop_bit 4 d) # hex_char (d AND 0xf) # Base16Encode pData"

(*@ core/os/kernal_encode.cpp 446-456 os::Base16Decode *)
definition hex_val :: "byte \<Rightarrow> byte option" where
  "hex_val x =
    (let c = c_int x in
     if c \<le> 57 then (if c < 48 then None else Some (x - 48))
     else if c \<ge> 65 \<and> c \<le> 70 then Some (x - (65 - 10))
     else if c \<ge> 97 \<and> c \<le> 102 then Some (x - (97 - 10))
     else None)"

(*@ core/os/kernal_encode.cpp 440-460 os::Base16Decode *)
fun Base16Decode_loop :: "bytes \<Rightarrow> bytes \<Rightarrow> bool \<times> bytes" where
  "Base16Decode_loop (c0 # c1 # s) out =
    (case (hex_val c0, hex_val c1) of
       (Some v0, Some v1) \<Rightarrow> Base16Decode_loop s (out @ [push_bit 4 v0 OR v1])
     | _ \<Rightarrow> (False, out))"
| "Base16Decode_loop _ out = (True, out)"

(*@ core/os/kernal_encode.cpp 435-463 os::Base16Decode *)
definition Base16Decode :: "nat \<Rightarrow> bytes \<Rightarrow> bool \<times> bytes" where
  "Base16Decode data_len s = (if length s \<noteq> data_len * 2 then (False, []) else Base16Decode_loop s [])"

section \<open>Base64 round trip\<close>

lemma length_b64_table: "length b64_table = 64"
  by (simp add: b64_table_def)

lemma b64_table_rev:
  "list_all (\<lambda>i. b64_val (b64_char (word_of_nat i)) = Some (word_of_nat i) \<and> isb64 (b64_char (word_of_nat i))) [0..<64]"
  by code_simp

lemma b64_char_val:
  assumes "unat v < 64"
  shows "b64_val (b64_char v) = Some v" "isb64 (b64_char v)"
proof -
  have "unat v \<in> set [0..<64]" using assms by simp
  then show "b64_val (b64_char v) = Some v" "isb64 (b64_char v)"
    using b64_table_rev unfolding list_all_iff by (metis eq_word_of_nat)+
qed

lemma b64_join:
  "push_bit 2 (drop_bit 2 a) OR drop_bit 4 (push_bit 4 (a AND 0x3) OR drop_bit 4 b) = (a :: byte)"
  "push_bit 2 (drop_bit 2 a) OR drop_bit 4 (push_bit 4 (a AND 0x3)) = (a :: byte)"
  "push_bit 4 ((push_bit 4 (a AND 0x3) OR drop_bit 4 b) AND 0xf) OR drop_bit 2 (push_bit 2 (b AND 0xf) OR drop_bit 6 c) = (b :: byte)"
  "push_bit 4 ((push_bit 4 (a AND 0x3) OR drop_bit 4 b) AND 0xf) OR drop_bit 2 (push_bit 2 (b AND 0xf)) = (b :: byte)"
  "push_bit 6 ((push_bit 2 (b AND 0xf) OR drop_bit 6 c) AND 0x3) OR (c AND 0x3f) = (c :: byte)"
  by (rule byte_eqI; simp add: bit_simps)+

lemma b64_six_bits:
  "unat (drop_bit 2 (a :: byte)) < 64" "unat (push_bit 4 (a AND 0x3) OR drop_bit 4 b :: byte) < 64"
  "unat (push_bit 4 (a AND 0x3) :: byte) < 64" "unat (push_bit 2 (b AND 0xf) :: byte) < 64"
  "unat (push_bit 2 (b AND 0xf) OR drop_bit 6 c :: byte) < 64" "unat (c AND 0x3f :: byte) < 64"
proof -
  have *: "unat v < 64" if "take_bit 6 v = v" for v :: byte using unat_lt_take_bit [OF that] by simp
  show "unat (drop_bit 2 (a :: byte)) < 64" "unat (push_bit 4 (a AND 0x3) OR drop_bit 4 b :: byte) < 64"
    "unat (push_bit 4 (a AND 0x3) :: byte) < 64" "unat (push_bit 2 (b AND 0xf) :: byte) < 64"
    "unat (push_bit 2 (b AND 0xf) OR drop_bit 6 c :: byte) < 64" "unat (c AND 0x3f :: byte) < 64"
    by (rule *, rule byte_eqI; simp add: bit_simps)+
qed

lemmas b64_simps = b64_char_val b64_six_bits b64_join

lemma isb64_pad: "\<not> isb64 61" "b64_val 61 = None"
  by code_simp+

lemma Base64Encode_Nil_iff: "Base64Encode p = [] \<longleftrightarrow> p = []"
  by (cases p rule: Base64Encode.cases) auto

lemma Base64Decode_loop_encode:
  "p \<noteq> [] \<Longrightarrow> \<exists>q r. q \<noteq> [] \<and> length q \<le> 3 \<and> p = r @ q \<and> Base64Decode_loop (Base64Encode p) out = (Base64Encode q, out @ r)"
proof (induction p arbitrary: out rule: Base64Encode.induct)
  case (1 a b c p)
  show ?case
  proof (cases "p = []")
    case True
    then show ?thesis by (intro exI [of _ "[a, b, c]"] exI [of _ "[]"]) simp
  next
    case False
    then obtain x xs where x: "Base64Encode p = x # xs" by (metis Base64Encode_Nil_iff list.exhaust)
    obtain q r where qr: "q \<noteq> []" "length q \<le> 3" "p = r @ q"
        "Base64Decode_loop (Base64Encode p) (out @ [a, b, c]) = (Base64Encode q, (out @ [a, b, c]) @ r)"
      using "1.IH" [OF False] by blast
    have "Base64Decode_loop (Base64Encode (a # b # c # p)) out = Base64Decode_loop (Base64Encode p) (out @ [a, b, c])"
      by (simp add: x b64_simps del: push_bit_and)
    then show ?thesis using qr by (intro exI [of _ q] exI [of _ "[a, b, c] @ r"]) simp
  qed
qed auto

lemma Base64Decode_tail_encode:
  assumes "q \<noteq> []" "length q \<le> 3"
  shows "Base64Decode_tail (Base64Encode q) out = (True, out @ q)"
proof -
  consider a where "q = [a]" | a b where "q = [a, b]" | a b c where "q = [a, b, c]"
    using assms by (cases q rule: Base64Encode.cases) (auto simp: length_Suc_conv le_Suc_eq numeral_3_eq_3)
  then show ?thesis
    by cases (simp_all add: Base64Decode_tail_def b64_simps isb64_pad write_at_def Let_def del: push_bit_and)
qed

lemma Base64_round: "Base64Decode (Base64Encode p) = (True, p)"
proof (cases "p = []")
  case True
  then show ?thesis by (simp add: Base64Decode_def)
next
  case False
  then obtain q r where "q \<noteq> []" "length q \<le> 3" "p = r @ q" "Base64Decode_loop (Base64Encode p) [] = (Base64Encode q, [] @ r)"
    using Base64Decode_loop_encode by blast
  then show ?thesis by (simp add: Base64Decode_def Base64Encode_Nil_iff Base64Decode_tail_encode)
qed

interpretation base64: codec Base64Encode Base64Decode
  by unfold_locales (rule Base64_round)

lemma length_Base64Encode: "length (Base64Encode p) = Base64EncodeLength (length p)"
proof (induction p rule: Base64Encode.induct)
  case (1 p0 p1 p2 p)
  have "(n + 3 + 2) div 3 * 4 = (n + 2) div 3 * 4 + (4 :: nat)" for n by presburger
  from this [of "length p"] show ?case using 1 by (simp add: Base64EncodeLength_def)
qed (auto simp: Base64EncodeLength_def)

section \<open>Base64 output size\<close>

lemma Base64Decode_loop_size:
  "Base64Decode_loop s out = (s', out') \<Longrightarrow>
    \<exists>k. s' = drop (4 * k) s \<and> length out' = length out + 3 * k \<and> (k = 0 \<or> 4 * k < length s) \<and> (4 * k < length s \<or> length s \<le> 4)"
proof (induction s out arbitrary: s' out' rule: Base64Decode_loop.induct)
  case (1 c0 c1 c2 c3 c4 s out)
  show ?case
  proof (cases "\<exists>a0 a1 a2 a3. (b64_val c0, b64_val c1, b64_val c2, b64_val c3) = (Some a0, Some a1, Some a2, Some a3)")
    case True
    then obtain a0 a1 a2 a3 where a: "b64_val c0 = Some a0" "b64_val c1 = Some a1" "b64_val c2 = Some a2" "b64_val c3 = Some a3"
      by auto
    obtain k where "s' = drop (4 * k) (c4 # s)" "length out' = length out + 3 + 3 * k" "k = 0 \<or> 4 * k < length (c4 # s)"
      using "1.IH" [OF refl a(1) refl a(2) refl a(3) a(4)] "1.prems" a by (auto simp: numeral_eq_Suc)
    then show ?thesis by (intro exI [of _ "Suc k"]) (auto simp: numeral_eq_Suc)
  next
    case False
    then have "s' = c0 # c1 # c2 # c3 # c4 # s \<and> out' = out"
      using "1.prems" by (auto split: option.splits)
    then show ?thesis by (intro exI [of _ 0]) auto
  qed
qed auto

lemma isb64_val: "isb64 c \<longleftrightarrow> b64_val c \<noteq> None"
proof -
  have "\<forall>c. isb64 c \<longleftrightarrow> b64_val c \<noteq> None" unfolding all_bytes by code_simp
  then show ?thesis by blast
qed

text \<open>How many bytes the last block of 2, 3 or 4 characters gives.\<close>

lemma Base64Decode_tail_le: "length (snd (Base64Decode_tail s out)) \<le> length out + 3"
  unfolding Base64Decode_tail_def Let_def by (simp split: option.split)

lemma Base64Decode_tail2:
  "length (snd (Base64Decode_tail [x, y] out)) = length out + (if isb64 x \<and> isb64 y then 1 else 0)"
  by (cases "b64_val x"; cases "b64_val y") (simp_all add: Base64Decode_tail_def write_at_def isb64_pad isb64_val)

lemma Base64Decode_tail3:
  "length (snd (Base64Decode_tail [x, y, z] out)) =
    length out + (if isb64 x \<and> isb64 y then if isb64 z then 2 else 1 else 0)"
  by (cases "b64_val x"; cases "b64_val y"; cases "b64_val z") (simp_all add: Base64Decode_tail_def write_at_def isb64_pad isb64_val)

lemma Base64Decode_tail4:
  "length (snd (Base64Decode_tail [x, y, z, w] out)) = length out +
    (if isb64 x \<and> isb64 y then if isb64 z \<and> isb64 w then 3 else if isb64 z then 2 else if isb64 w then 0 else 1 else 0)"
  by (cases "b64_val x"; cases "b64_val y"; cases "b64_val z"; cases "b64_val w")
    (simp_all add: Base64Decode_tail_def write_at_def isb64_pad isb64_val)

text \<open>The reserved size in terms of the last block.\<close>

lemma Base64DecodeLength_block:
  assumes "length p = 4 * k"
  shows "0 < k \<Longrightarrow> Base64DecodeLength (p @ [x, y]) = 3 * k + (if isb64 x \<and> isb64 y then 1 else if isb64 x then 0 else 3)"
    "0 < k \<Longrightarrow> Base64DecodeLength (p @ [x, y, z]) = 3 * k + (if isb64 y \<and> isb64 z then 2 else if isb64 y then 1 else 3)"
    "Base64DecodeLength (p @ [x, y, z, w]) =
      3 * k + (if isb64 z \<and> isb64 w then 3 else if isb64 z then 2 else if isb64 w then 3 else 1)"
proof -
  have len: "(4 * k + 5) div 4 = k + 1" "(4 * k + 6) div 4 = k + 1" "(4 * k + 7) div 4 = k + 1"
    "(4 * k + 2) mod 4 = 2" "(4 * k + 3) mod 4 = 3" "(4 * k + 4) mod 4 = 0" by presburger+
  note d = Base64DecodeLength_def Let_def assms nth_append
  show "0 < k \<Longrightarrow> Base64DecodeLength (p @ [x, y]) = 3 * k + (if isb64 x \<and> isb64 y then 1 else if isb64 x then 0 else 3)"
    using len(1,4) by (auto simp: d add.commute)
  show "0 < k \<Longrightarrow> Base64DecodeLength (p @ [x, y, z]) = 3 * k + (if isb64 y \<and> isb64 z then 2 else if isb64 y then 1 else 3)"
    using len(2,5) by (auto simp: d add.commute)
  show "Base64DecodeLength (p @ [x, y, z, w]) =
      3 * k + (if isb64 z \<and> isb64 w then 3 else if isb64 z then 2 else if isb64 w then 3 else 1)"
    using len(3,6) by (auto simp: d add.commute)
qed

lemma Base64DecodeLength_ge:
  assumes "4 \<le> length s" "length s mod 4 \<noteq> 1"
  shows "(length s + 3) div 4 * 3 \<le> Base64DecodeLength s + 3"
proof -
  define m where "m = (4 - length s mod 4) mod 4"
  have "m \<le> 2" unfolding m_def using assms(2) by (cases "length s mod 4 = 0"; cases "length s mod 4 = 2"; cases "length s mod 4 = 3") auto
  then show ?thesis unfolding Base64DecodeLength_def Let_def m_def [symmetric] using assms(1) by auto
qed

lemma Base64Decode_size:
  assumes "4 \<le> length s" "length s mod 4 \<noteq> 1"
  shows "length (snd (Base64Decode s)) \<le> Base64DecodeLength s"
proof -
  obtain t out where l: "Base64Decode_loop s [] = (t, out)" by fastforce
  then obtain k where k: "t = drop (4 * k) s" "length out = 3 * k" "4 * k < length s"
    using Base64Decode_loop_size [OF l] assms(1) by auto
  define p where "p = take (4 * k) s"
  have t: "t \<noteq> []" "s = p @ t" "length p = 4 * k" using k by (auto simp: p_def)
  have dec: "Base64Decode s = Base64Decode_tail t out" using l t(1) by (simp add: Base64Decode_def)
  show ?thesis
  proof (cases "length t \<le> 4")
    case True
    have "length t \<noteq> 1" using t(2,3) assms(2) by auto
    moreover have "length t \<noteq> 0" using t(1) by simp
    ultimately have "length t = 2 \<or> length t = 3 \<or> length t = 4" using True by linarith
    moreover have "0 < k" if "length t < 4" using that assms(1) t(2,3) by auto
    ultimately consider x y where "t = [x, y]" "0 < k" | x y z where "t = [x, y, z]" "0 < k" | x y z w where "t = [x, y, z, w]"
      by (auto simp: length_Suc_conv numeral_eq_Suc)
    then have "length (snd (Base64Decode_tail t out)) \<le> Base64DecodeLength (p @ t)"
      by cases (simp_all add: k(2) Base64DecodeLength_block [OF t(3)] Base64Decode_tail2 Base64Decode_tail3 Base64Decode_tail4)
    then show ?thesis using dec t(2) by simp
  next
    case False
    have "k + 2 \<le> (length s + 3) div 4" using False t(2,3) by simp
    then show ?thesis using Base64Decode_tail_le [of t out] Base64DecodeLength_ge [OF assms] k(2) unfolding dec by linarith
  qed
qed

section \<open>Base16 round trip\<close>

lemma hex_char_val:
  assumes "unat v < 16"
  shows "hex_val (hex_char v) = Some v"
proof -
  have "\<forall>v. unat v < 16 \<longrightarrow> hex_val (hex_char v) = Some v" unfolding all_bytes by code_simp
  then show ?thesis using assms by blast
qed

lemma hex_four_bits: "unat (drop_bit 4 (d :: byte)) < 16" "unat (d AND 0xf :: byte) < 16"
  and hex_join: "push_bit 4 (drop_bit 4 d) OR (d AND 0xf) = (d :: byte)"
proof -
  have *: "unat v < 16" if "take_bit 4 v = v" for v :: byte using unat_lt_take_bit [OF that] by simp
  show "unat (drop_bit 4 d) < 16" "unat (d AND 0xf) < 16" by (rule *, rule byte_eqI; simp add: bit_simps)+
  show "push_bit 4 (drop_bit 4 d) OR (d AND 0xf) = d" by (rule byte_eqI; simp add: bit_simps)
qed

lemma Base16Decode_loop_encode: "Base16Decode_loop (Base16Encode p) out = (True, out @ p)"
  by (induction p arbitrary: out) (simp_all add: hex_char_val hex_four_bits hex_join)

lemma length_Base16Encode: "length (Base16Encode p) = Base16EncodeLength (length p)"
  by (induction p) (simp_all add: Base16EncodeLength_def)

interpretation base16: codec Base16Encode "\<lambda>s. Base16Decode (Base16DecodeLength (length s)) s"
  by unfold_locales
    (simp add: Base16Decode_def Base16DecodeLength_def length_Base16Encode Base16EncodeLength_def Base16Decode_loop_encode)

section \<open>Properties\<close>

text \<open>C18: Decoding what \<^verbatim>\<open>Base64Encode\<close> wrote gives back the data and succeeds, for data of every length; the
  encoder writes exactly \<^verbatim>\<open>Base64EncodeLength\<close> characters, and no two data have the same encoding.\<close>

theorem Base64_roundtrip:
  "Base64Decode (Base64Encode x) = (True, x) \<and> length (Base64Encode x) = Base64EncodeLength (length x) \<and>
    (Base64Encode x = Base64Encode y \<longleftrightarrow> x = y)"
  using base64.decode_encode base64.encode_inject length_Base64Encode by simp

text \<open>Whatever the text, \<^verbatim>\<open>Base64Decode\<close> writes at most the \<^verbatim>\<open>Base64DecodeLength\<close> bytes the caller allocates,
  provided the text has at least 4 characters and its length is not 1 modulo 4.\<close>

theorem Base64Decode_fits:
  assumes "4 \<le> length s" "length s mod 4 \<noteq> 1"
  shows "length (snd (Base64Decode s)) \<le> Base64DecodeLength s"
  by (rule Base64Decode_size [OF assms])

theorem Base64Decode_fits_witness:
  "length (snd (Base64Decode (lit ''QUJDRA==''))) \<le> Base64DecodeLength (lit ''QUJDRA=='')"
  by (rule Base64Decode_fits) simp_all

text \<open>Without that proviso the decoder overruns the buffer sized by \<^verbatim>\<open>Base64DecodeLength\<close>: the text \<^verbatim>\<open>QQ\<close>
  makes it write one byte into a buffer of none, and \<^verbatim>\<open>QUJD=\<close> three bytes into a buffer of two.\<close>

theorem Base64Decode_overrun:
  "length (snd (Base64Decode (lit ''QQ''))) = 1 \<and> Base64DecodeLength (lit ''QQ'') = 0 \<and>
   length (snd (Base64Decode (lit ''QUJD=''))) = 3 \<and> Base64DecodeLength (lit ''QUJD='') = 2"
  by code_simp

text \<open>Decoding what \<^verbatim>\<open>Base16Encode\<close> wrote gives back the data and succeeds; the length functions agree
  with the text written; a text of another length than \<^verbatim>\<open>data_len*2\<close> is rejected before any write.\<close>

theorem Base16_roundtrip:
  "Base16Decode (Base16DecodeLength (length (Base16Encode x))) (Base16Encode x) = (True, x) \<and>
    length (Base16Encode x) = Base16EncodeLength (length x) \<and>
    (if length s = n * 2 then Base16Decode n s = Base16Decode_loop s [] else Base16Decode n s = (False, []))"
  using base16.decode_encode length_Base16Encode by (simp add: Base16Decode_def)

end
