(* ===== verification/Encode32.thy ===== *)
theory Encode32
  imports Encode64 "HOL-Library.Monad_Syntax"
begin

text \<open>
  The Base32 encodings of \<^verbatim>\<open>core/os/kernal_encode.cpp\<close>. The encoder and the decoder are templates over a
  character table; what they need of the table is the locale \<open>base32_table\<close>, interpreted on the six tables
  of the source. The value a table decodes a character to is an \<^verbatim>\<open>int\<close> (the Crockford table has entries
  \<open>- 1\<close>). A decoder is the value it returns and the bytes it writes in order; a read past the end of the
  text is \<open>None\<close>.
\<close>

unbundle bit_operations_syntax

section \<open>Definitions\<close>

subsection \<open>Tables\<close>

(*@ core/os/kernal_encode.cpp 487-514 os::_details::_base32_crockford_decoding *)
definition base32_crockford_decoding :: "int list" where
  "base32_crockford_decoding =
    [0, 1, 2, 3, 4, 5, 6, 7, 8, 9, - 1, - 1, - 1, - 1, - 1, - 1, 31,
     10, 11, 12, 13, 14, 15, 16, 17, 1, 18, 19, 1, 20, 21, 0, 22, 23, 24, 25, 26, 27, 27, 28, 29, 30, 2,
     - 1, - 1, - 1, - 1, - 1, - 1,
     10, 11, 12, 13, 14, 15, 16, 17, 1, 18, 19, 1, 20, 21, 0, 22, 23, 24, 25, 26, 27, 27, 28, 29, 30, 2]"

(*@ core/os/kernal_encode.cpp 516-519 os::_details::_base32_crockford_encoding *)
definition base32_crockford_encoding :: "bool \<Rightarrow> bool \<Rightarrow> bytes" where
  "base32_crockford_encoding uppercase fav_char =
    (if uppercase then
       if fav_char then lit ''OIZ3456789ABCDEFGHJKMNPQRSTVWXY@'' else lit ''0123456789ABCDEFGHJKMNPQRSTVWXY@''
     else
       if fav_char then lit ''oiz3456789abcdefghjkmnpqrstvwxy@'' else lit ''0123456789abcdefghjkmnpqrstvwxy@'')"

(*@ core/os/kernal_encode.cpp 523-524 os::_details::_base32_extendhex_encoding *)
definition base32_extendhex_encoding :: "bool \<Rightarrow> bytes" where
  "base32_extendhex_encoding uppercase =
    (if uppercase then lit ''0123456789ABCDEFGHIJKLMNOPQRSTUV'' else lit ''0123456789abcdefghijklmnopqrstuv'')"

text \<open>\<^verbatim>\<open>decode\<close> returns whether it failed and sets its argument; here \<open>None\<close> is the failure.\<close>

(*@ core/os/kernal_encode.cpp 526-534 os::_details::table_extend_hex::decode *)
definition extend_hex_decode :: "byte \<Rightarrow> int option" where
  "extend_hex_decode c =
    (let d = c_int c in
     if d \<ge> 48 \<and> d \<le> 57 then Some (d - 48)
     else if d \<ge> 97 \<and> d \<le> 118 then Some (d - 97 + 10)
     else if d \<ge> 65 \<and> d \<le> 86 then Some (d - 65 + 10)
     else None)"

(*@ core/os/kernal_encode.cpp 535-539 os::_details::table_extend_hex::encode *)
definition extend_hex_encode :: "bool \<Rightarrow> byte \<Rightarrow> byte" where
  "extend_hex_encode uppercase d = base32_extendhex_encoding uppercase ! unat d"

(*@ core/os/kernal_encode.cpp 541-548 os::_details::table_crockford::decode *)
definition crockford_decode :: "byte \<Rightarrow> int option" where
  "crockford_decode c =
    (let d = c_int c in
     if d \<ge> 48 \<and> d \<le> 122 then Some (base32_crockford_decoding ! nat (d - 48)) else None)"

(*@ core/os/kernal_encode.cpp 549-559 os::_details::table_crockford::encode *)
definition crockford_encode :: "bool \<Rightarrow> bool \<Rightarrow> byte \<Rightarrow> byte" where
  "crockford_encode uppercase fav_char d = base32_crockford_encoding uppercase fav_char ! unat d"

subsection \<open>Encoder and decoder\<close>

(*@ core/os/kernal_encode.cpp 561-605 os::_details::_Base32Encode *)
fun Base32Encode_tab :: "(byte \<Rightarrow> byte) \<Rightarrow> bytes \<Rightarrow> bytes" where
  "Base32Encode_tab encode (d0 # d1 # d2 # d3 # d4 # d) =
    [encode (drop_bit 3 d0), encode (push_bit 2 (d0 AND 0x7) OR drop_bit 6 d1), encode (drop_bit 1 d1 AND 0x1f),
     encode (push_bit 4 (d1 AND 1) OR drop_bit 4 d2), encode (push_bit 1 (d2 AND 0xf) OR drop_bit 7 d3),
     encode (drop_bit 2 d3 AND 0x1f), encode (push_bit 3 (d3 AND 0x3) OR drop_bit 5 d4), encode (d4 AND 0x1f)]
    @ Base32Encode_tab encode d"
| "Base32Encode_tab encode [] = []"
| "Base32Encode_tab encode [d0] = [encode (drop_bit 3 d0), encode (d0 AND 0x7)]"
| "Base32Encode_tab encode [d0, d1] =
    [encode (drop_bit 3 d0), encode (push_bit 2 (d0 AND 0x7) OR drop_bit 6 d1), encode (drop_bit 1 d1 AND 0x1f),
     encode (d1 AND 0x1)]"
| "Base32Encode_tab encode [d0, d1, d2] =
    [encode (drop_bit 3 d0), encode (push_bit 2 (d0 AND 0x7) OR drop_bit 6 d1), encode (drop_bit 1 d1 AND 0x1f),
     encode (push_bit 4 (d1 AND 1) OR drop_bit 4 d2), encode (d2 AND 0xf)]"
| "Base32Encode_tab encode [d0, d1, d2, d3] =
    [encode (drop_bit 3 d0), encode (push_bit 2 (d0 AND 0x7) OR drop_bit 6 d1), encode (drop_bit 1 d1 AND 0x1f),
     encode (push_bit 4 (d1 AND 1) OR drop_bit 4 d2), encode (push_bit 1 (d2 AND 0xf) OR drop_bit 7 d3),
     encode (drop_bit 2 d3 AND 0x1f), encode (d3 AND 0x3)]"

(*@ core/os/kernal_encode.cpp 683-691 os::Base32DecodeLength *)
definition Base32DecodeLength :: "nat \<Rightarrow> nat" where
  "Base32DecodeLength len =
    (let tail_len = [0, - 1, 1, - 1, 2, 3, - 1, 4 :: int] ! (len mod 8) in
     if tail_len \<ge> 0 then len div 8 * 5 + nat tail_len else 0)"

(*@ core/os/kernal_encode.cpp 693-696 os::Base32EncodeLength *)
definition Base32EncodeLength :: "nat \<Rightarrow> nat" where
  "Base32EncodeLength len = (len * 8 + 4) div 5"

(*@ core/os/kernal_encode.cpp 617-631 os::_details::_Base32Decode *)
definition Base32_block :: "(byte \<Rightarrow> int option) \<Rightarrow> bytes \<Rightarrow> bytes option" where
  "Base32_block decode d =
    do { b0 \<leftarrow> decode (d ! 0); b1 \<leftarrow> decode (d ! 1); b2 \<leftarrow> decode (d ! 2); b3 \<leftarrow> decode (d ! 3);
         b4 \<leftarrow> decode (d ! 4); b5 \<leftarrow> decode (d ! 5); b6 \<leftarrow> decode (d ! 6); b7 \<leftarrow> decode (d ! 7);
         Some (map word_of_int
           [push_bit 3 b0 OR drop_bit 2 b1, push_bit 6 b1 OR push_bit 1 b2 OR drop_bit 4 b3,
            push_bit 4 b3 OR drop_bit 1 b4, push_bit 7 b4 OR push_bit 2 b5 OR drop_bit 3 b6, push_bit 5 b6 OR b7]) }"

text \<open>\<open>next_b\<close> is \<^verbatim>\<open>if(BASE32_TABLE::decode(b, *d++))return false;\<close> before the continuation; \<open>last_b\<close> is the
  final \<^verbatim>\<open>if(BASE32_TABLE::decode(t, *d) || t > lim)return false;\<close> with the write and \<^verbatim>\<open>return true\<close>.\<close>

definition next_b ::
  "(byte \<Rightarrow> int option) \<Rightarrow> bytes \<Rightarrow> bytes \<Rightarrow> (int \<Rightarrow> bytes \<Rightarrow> (bool \<times> bytes) option) \<Rightarrow> (bool \<times> bytes) option" where
  "next_b decode d out k =
    (case d of [] \<Rightarrow> None | c # d \<Rightarrow> (case decode c of None \<Rightarrow> Some (False, out) | Some b \<Rightarrow> k b d))"

definition last_b ::
  "(byte \<Rightarrow> int option) \<Rightarrow> bytes \<Rightarrow> int \<Rightarrow> bytes \<Rightarrow> (int \<Rightarrow> int) \<Rightarrow> (bool \<times> bytes) option" where
  "last_b decode d lim out f =
    next_b decode d out (\<lambda>t _. if t > lim then Some (False, out) else Some (True, out @ [word_of_int (f t)]))"

(*@ core/os/kernal_encode.cpp 634-679 os::_details::_Base32Decode *)
definition Base32Decode_tail :: "(byte \<Rightarrow> int option) \<Rightarrow> bytes \<Rightarrow> bytes \<Rightarrow> (bool \<times> bytes) option" where
  "Base32Decode_tail decode d out =
    (if d = [] then Some (True, out)
     else next_b decode d out (\<lambda>b0 d.
       if length d = 1 then last_b decode d 7 out (\<lambda>t. push_bit 3 b0 OR t)
       else next_b decode d out (\<lambda>b1 d.
         let out = out @ [word_of_int (push_bit 3 b0 OR drop_bit 2 b1)] in
         next_b decode d out (\<lambda>b2 d.
           if length d = 1 then last_b decode d 1 out (\<lambda>t. push_bit 6 b1 OR push_bit 1 b2 OR t)
           else next_b decode d out (\<lambda>b3 d.
             let out = out @ [word_of_int (push_bit 6 b1 OR push_bit 1 b2 OR drop_bit 4 b3)] in
             if length d = 1 then last_b decode d 16 out (\<lambda>t. push_bit 4 b3 OR t)
             else next_b decode d out (\<lambda>b4 d.
               let out = out @ [word_of_int (push_bit 4 b3 OR drop_bit 1 b4)] in
               next_b decode d out (\<lambda>b5 d.
                 if length d = 1 then last_b decode d 4 out (\<lambda>t. push_bit 7 b4 OR push_bit 2 b5 OR t)
                 else Some (False, out))))))))"

(*@ core/os/kernal_encode.cpp 612-634 os::_details::_Base32Decode *)
fun Base32Decode_loop :: "(byte \<Rightarrow> int option) \<Rightarrow> bytes \<Rightarrow> bytes \<Rightarrow> (bool \<times> bytes) option" where
  "Base32Decode_loop decode (c0 # c1 # c2 # c3 # c4 # c5 # c6 # c7 # d) out =
    (case Base32_block decode [c0, c1, c2, c3, c4, c5, c6, c7] of
       None \<Rightarrow> Some (False, out)
     | Some p \<Rightarrow> Base32Decode_loop decode d (out @ p))"
| "Base32Decode_loop decode d out = Base32Decode_tail decode d out"

(*@ core/os/kernal_encode.cpp 607-680 os::_details::_Base32Decode *)
definition Base32Decode_tab :: "(byte \<Rightarrow> int option) \<Rightarrow> nat \<Rightarrow> bytes \<Rightarrow> (bool \<times> bytes) option" where
  "Base32Decode_tab decode data_len s =
    (if Base32DecodeLength (length s) \<noteq> data_len then Some (False, []) else Base32Decode_loop decode s [])"

(*@ core/os/kernal_encode.cpp 698-701 os::Base32CrockfordDecode *)
definition Base32CrockfordDecode :: "nat \<Rightarrow> bytes \<Rightarrow> (bool \<times> bytes) option" where
  "Base32CrockfordDecode = Base32Decode_tab crockford_decode"

(*@ core/os/kernal_encode.cpp 703-706 os::Base32CrockfordEncode *)
definition Base32CrockfordEncode :: "bytes \<Rightarrow> bytes" where
  "Base32CrockfordEncode = Base32Encode_tab (crockford_encode True False)"

(*@ core/os/kernal_encode.cpp 708-711 os::Base32CrockfordEncodeLowercase *)
definition Base32CrockfordEncodeLowercase :: "bytes \<Rightarrow> bytes" where
  "Base32CrockfordEncodeLowercase = Base32Encode_tab (crockford_encode False False)"

(*@ core/os/kernal_encode.cpp 713-716 os::Base32CrockfordFavCharEncode *)
definition Base32CrockfordFavCharEncode :: "bytes \<Rightarrow> bytes" where
  "Base32CrockfordFavCharEncode = Base32Encode_tab (crockford_encode True True)"

(*@ core/os/kernal_encode.cpp 718-721 os::Base32CrockfordFavCharEncodeLowercase *)
definition Base32CrockfordFavCharEncodeLowercase :: "bytes \<Rightarrow> bytes" where
  "Base32CrockfordFavCharEncodeLowercase = Base32Encode_tab (crockford_encode False True)"

(*@ core/os/kernal_encode.cpp 723-726 os::Base32Decode *)
definition Base32Decode :: "nat \<Rightarrow> bytes \<Rightarrow> (bool \<times> bytes) option" where
  "Base32Decode = Base32Decode_tab extend_hex_decode"

(*@ core/os/kernal_encode.cpp 728-731 os::Base32Encode *)
definition Base32Encode :: "bytes \<Rightarrow> bytes" where
  "Base32Encode = Base32Encode_tab (extend_hex_encode True)"

(*@ core/os/kernal_encode.cpp 733-736 os::Base32EncodeLowercase *)
definition Base32EncodeLowercase :: "bytes \<Rightarrow> bytes" where
  "Base32EncodeLowercase = Base32Encode_tab (extend_hex_encode False)"

section \<open>Bits\<close>

lemma b32_five_bits:
  "unat (drop_bit 3 (a :: byte)) < 32" "unat (push_bit 2 (a AND 0x7) OR drop_bit 6 b :: byte) < 32"
  "unat (drop_bit 1 b AND 0x1f :: byte) < 32" "unat (push_bit 4 (b AND 1) OR drop_bit 4 c :: byte) < 32"
  "unat (push_bit 1 (c AND 0xf) OR drop_bit 7 d :: byte) < 32" "unat (drop_bit 2 d AND 0x1f :: byte) < 32"
  "unat (push_bit 3 (d AND 0x3) OR drop_bit 5 e :: byte) < 32" "unat (e AND 0x1f :: byte) < 32"
  "unat (a AND 0x7 :: byte) < 32" "unat (b AND 1 :: byte) < 32" "unat (c AND 0xf :: byte) < 32" "unat (d AND 0x3 :: byte) < 32"
proof -
  have *: "unat v < 32" if "take_bit 5 v = v" for v :: byte using unat_lt_take_bit [OF that] by simp
  show "unat (drop_bit 3 (a :: byte)) < 32" "unat (push_bit 2 (a AND 0x7) OR drop_bit 6 b :: byte) < 32"
    "unat (drop_bit 1 b AND 0x1f :: byte) < 32" "unat (push_bit 4 (b AND 1) OR drop_bit 4 c :: byte) < 32"
    "unat (push_bit 1 (c AND 0xf) OR drop_bit 7 d :: byte) < 32" "unat (drop_bit 2 d AND 0x1f :: byte) < 32"
    "unat (push_bit 3 (d AND 0x3) OR drop_bit 5 e :: byte) < 32" "unat (e AND 0x1f :: byte) < 32"
    "unat (a AND 0x7 :: byte) < 32" "unat (b AND 1 :: byte) < 32" "unat (c AND 0xf :: byte) < 32" "unat (d AND 0x3 :: byte) < 32"
    by (rule *, rule byte_eqI; simp add: bit_simps)+
qed

lemma b32_join:
  "word_of_int (push_bit 3 (uint (drop_bit 3 a)) OR drop_bit 2 (uint (push_bit 2 (a AND 0x7) OR drop_bit 6 b))) = (a :: byte)"
  "word_of_int (push_bit 6 (uint (push_bit 2 (a AND 0x7) OR drop_bit 6 b)) OR push_bit 1 (uint (drop_bit 1 b AND 0x1f))
     OR drop_bit 4 (uint (push_bit 4 (b AND 1) OR drop_bit 4 c))) = (b :: byte)"
  "word_of_int (push_bit 4 (uint (push_bit 4 (b AND 1) OR drop_bit 4 c)) OR drop_bit 1 (uint (push_bit 1 (c AND 0xf) OR drop_bit 7 d))) = (c :: byte)"
  "word_of_int (push_bit 7 (uint (push_bit 1 (c AND 0xf) OR drop_bit 7 d)) OR push_bit 2 (uint (drop_bit 2 d AND 0x1f))
     OR drop_bit 3 (uint (push_bit 3 (d AND 0x3) OR drop_bit 5 e))) = (d :: byte)"
  "word_of_int (push_bit 5 (uint (push_bit 3 (d AND 0x3) OR drop_bit 5 e)) OR uint (e AND 0x1f)) = (e :: byte)"
  "word_of_int (push_bit 3 (uint (drop_bit 3 a)) OR uint (a AND 0x7)) = (a :: byte)"
  "word_of_int (push_bit 6 (uint (push_bit 2 (a AND 0x7) OR drop_bit 6 b)) OR push_bit 1 (uint (drop_bit 1 b AND 0x1f))
     OR uint (b AND 1)) = (b :: byte)"
  "word_of_int (push_bit 4 (uint (push_bit 4 (b AND 1) OR drop_bit 4 c)) OR uint (c AND 0xf)) = (c :: byte)"
  "word_of_int (push_bit 7 (uint (push_bit 1 (c AND 0xf) OR drop_bit 7 d)) OR push_bit 2 (uint (drop_bit 2 d AND 0x1f))
     OR uint (d AND 0x3)) = (d :: byte)"
  by (rule byte_eqI; simp add: bit_simps del: push_bit_Suc flip: numeral_2_eq_2)+

lemma b32_small:
  "uint (a AND 0x7 :: byte) \<le> 7" "uint (a AND 1 :: byte) \<le> 1" "uint (a AND 0xf :: byte) \<le> 16" "uint (a AND 0x3 :: byte) \<le> 4"
proof -
  have *: "uint v < 2 ^ k" if "take_bit k v = v" for v :: byte and k
    using unat_lt_take_bit [OF that] by (metis of_nat_less_iff of_nat_numeral of_nat_power of_nat_unat)
  have "uint (a AND 0x7) < 2 ^ 3" "uint (a AND 0xf) < 2 ^ 4" "uint (a AND 0x3) < 2 ^ 2"
    by (rule *, rule byte_eqI; simp add: bit_simps)+
  moreover have "uint (a AND 1) < 2 ^ 1" by (simp add: and_one_eq mod_2_eq_odd)
  ultimately show "uint (a AND 0x7) \<le> 7" "uint (a AND 1) \<le> 1" "uint (a AND 0xf) \<le> 16" "uint (a AND 0x3) \<le> 4" by simp_all
qed

lemma Base32Decode_loop_short: "length d < 8 \<Longrightarrow> Base32Decode_loop decode d out = Base32Decode_tail decode d out"
  by (cases "(decode, d, out)" rule: Base32Decode_loop.cases) auto

lemma Base32Encode_tab_short: "length q < 5 \<Longrightarrow> length (Base32Encode_tab encode q) < 8"
  by (cases "(encode, q)" rule: Base32Encode_tab.cases) auto

section \<open>Round trip over any table\<close>

locale base32_table =
  fixes encode :: "byte \<Rightarrow> byte" and decode :: "byte \<Rightarrow> int option"
  assumes decode_encode: "unat v < 32 \<Longrightarrow> decode (encode v) = Some (uint v)"
begin

lemmas table_simps = decode_encode b32_five_bits [unfolded One_nat_def] b32_join [unfolded One_nat_def] b32_small [THEN leD]

lemma block:
  "Base32_block decode (take 8 (Base32Encode_tab encode (d0 # d1 # d2 # d3 # d4 # d))) = Some [d0, d1, d2, d3, d4]"
  by (simp add: Base32_block_def table_simps del: push_bit_and push_bit_Suc)

lemma tail:
  assumes "length q < 5"
  shows "Base32Decode_tail decode (Base32Encode_tab encode q) out = Some (True, out @ q)"
proof -
  consider "q = []" | a where "q = [a]" | a b where "q = [a, b]" | a b c where "q = [a, b, c]" | a b c d where "q = [a, b, c, d]"
    using assms by (cases "(encode, q)" rule: Base32Encode_tab.cases) auto
  then show ?thesis
    by cases (simp_all add: Base32Decode_tail_def next_b_def last_b_def Let_def table_simps del: push_bit_and push_bit_Suc)
qed

lemma round: "Base32Decode_loop decode (Base32Encode_tab encode p) out = Some (True, out @ p)"
proof (induction p arbitrary: out rule: measure_induct_rule [where f = length])
  case (less p)
  show ?case
  proof (cases "length p < 5")
    case True
    then show ?thesis by (simp add: Base32Decode_loop_short Base32Encode_tab_short tail)
  next
    case False
    then obtain d0 d1 d2 d3 d4 d where p: "p = d0 # d1 # d2 # d3 # d4 # d"
      by (cases "(encode, p)" rule: Base32Encode_tab.cases) auto
    have "Base32Decode_loop decode (Base32Encode_tab encode p) out =
        Base32Decode_loop decode (Base32Encode_tab encode d) (out @ [d0, d1, d2, d3, d4])"
      using block [of d0 d1 d2 d3 d4 d] unfolding p by simp
    then show ?thesis using less [of d "out @ [d0, d1, d2, d3, d4]"] p by simp
  qed
qed

end

section \<open>Lengths\<close>

lemma length_Base32Encode: "length (Base32Encode_tab encode p) = Base32EncodeLength (length p)"
proof (induction encode p rule: Base32Encode_tab.induct)
  case (1 encode d0 d1 d2 d3 d4 d)
  have "((n + 5) * 8 + 4) div 5 = (n * 8 + 4) div 5 + (8 :: nat)" for n by presburger
  from this [of "length d"] show ?case using 1 by (simp add: Base32EncodeLength_def)
qed (auto simp: Base32EncodeLength_def)

lemma Base32_lengths: "Base32DecodeLength (Base32EncodeLength n) = n"
proof -
  define k r where "k = n div 5" and "r = n mod 5"
  have n: "n = 5 * k + r" "r < 5" by (simp_all add: k_def r_def)
  have e: "Base32EncodeLength n = 8 * k + (8 * r + 4) div 5" unfolding Base32EncodeLength_def n(1) by presburger
  have "r \<in> {0, 1, 2, 3, 4}" using n(2) by auto
  then show ?thesis unfolding e using n(1) by (auto simp: Base32DecodeLength_def nth_Cons' mod_mult_self4)
qed

lemma Base32Decode_tail_size:
  assumes "length d < 8" "length d \<notin> {1, 3, 6}"
  shows "\<exists>ok out'. Base32Decode_tail decode d out = Some (ok, out') \<and> length out' \<le> length out + Base32DecodeLength (length d)"
proof -
  have "length d = 0 \<or> length d = 2 \<or> length d = 4 \<or> length d = 5 \<or> length d = 7"
    using assms unfolding insert_iff empty_iff by linarith
  then consider "d = []" | c0 c1 where "d = [c0, c1]" | c0 c1 c2 c3 where "d = [c0, c1, c2, c3]"
    | c0 c1 c2 c3 c4 where "d = [c0, c1, c2, c3, c4]" | c0 c1 c2 c3 c4 c5 c6 where "d = [c0, c1, c2, c3, c4, c5, c6]"
    by (auto simp: length_Suc_conv numeral_eq_Suc)
  then show ?thesis
    by cases (auto simp: Base32Decode_tail_def next_b_def last_b_def Let_def Base32DecodeLength_def split: option.split)
qed

lemma Base32_block_length: "Base32_block decode d = Some p \<Longrightarrow> length p = 5"
  by (auto simp: Base32_block_def bind_eq_Some_conv)

lemma Base32DecodeLength_add8: "n mod 8 \<notin> {1, 3, 6} \<Longrightarrow> Base32DecodeLength (n + 8) = Base32DecodeLength n + 5"
proof -
  assume "n mod 8 \<notin> {1, 3, 6}"
  moreover have "n mod 8 < 8" by simp
  ultimately have "n mod 8 = 0 \<or> n mod 8 = 2 \<or> n mod 8 = 4 \<or> n mod 8 = 5 \<or> n mod 8 = 7"
    unfolding insert_iff empty_iff by linarith
  moreover have "(n + 8) div 8 = n div 8 + 1" "(n + 8) mod 8 = n mod 8" by simp_all
  ultimately show ?thesis unfolding Base32DecodeLength_def by auto
qed

lemma Base32Decode_loop_size:
  assumes "length d mod 8 \<notin> {1, 3, 6}"
  shows "\<exists>ok out'. Base32Decode_loop decode d out = Some (ok, out') \<and> length out' \<le> length out + Base32DecodeLength (length d)"
  using assms
proof (induction d arbitrary: out rule: measure_induct_rule [where f = length])
  case (less d)
  show ?case
  proof (cases "length d < 8")
    case True
    then show ?thesis using Base32Decode_tail_size [of d decode out] less.prems by (simp add: Base32Decode_loop_short)
  next
    case False
    then obtain c0 c1 c2 c3 c4 c5 c6 c7 e where d: "d = c0 # c1 # c2 # c3 # c4 # c5 # c6 # c7 # e"
      by (cases "(decode, d, out)" rule: Base32Decode_loop.cases) auto
    have m: "length e mod 8 \<notin> {1, 3, 6}" using less.prems unfolding d by simp
    have len: "Base32DecodeLength (length d) = Base32DecodeLength (length e) + 5"
      using Base32DecodeLength_add8 [OF m] by (simp add: d numeral_eq_Suc)
    show ?thesis
    proof (cases "Base32_block decode [c0, c1, c2, c3, c4, c5, c6, c7]")
      case None
      then show ?thesis by (intro exI [of _ False] exI [of _ out]) (simp add: d)
    next
      case (Some p)
      then show ?thesis using less.IH [of e "out @ p"] m Base32_block_length [OF Some] len by (auto simp: d)
    qed
  qed
qed

text \<open>The lengths that no encoder gives: two of them read behind the text, the third one writes three bytes for its last six characters and then fails.\<close>

lemma Base32Decode_tail_odd:
  assumes "length d \<in> {1, 3, 6}" "list_all (\<lambda>c. decode c \<noteq> None) d"
  shows "if length d = 6 then \<exists>out'. Base32Decode_tail decode d out = Some (False, out') \<and> length out' = length out + 3 else Base32Decode_tail decode d out = None"
proof -
  consider c0 where "d = [c0]" | c0 c1 c2 where "d = [c0, c1, c2]" | c0 c1 c2 c3 c4 c5 where "d = [c0, c1, c2, c3, c4, c5]"
    using assms(1) by (auto simp: length_Suc_conv numeral_eq_Suc)
  then show ?thesis using assms(2) by cases (auto simp: Base32Decode_tail_def next_b_def last_b_def Let_def)
qed

lemma Base32_block_total: "list_all (\<lambda>c. decode c \<noteq> None) [c0, c1, c2, c3, c4, c5, c6, c7] \<Longrightarrow> \<exists>p. Base32_block decode [c0, c1, c2, c3, c4, c5, c6, c7] = Some p \<and> length p = 5"
  by (auto simp: Base32_block_def)

lemma Base32Decode_loop_odd:
  assumes "length d mod 8 \<in> {1, 3, 6}" "list_all (\<lambda>c. decode c \<noteq> None) d"
  shows "if length d mod 8 = 6 then \<exists>out'. Base32Decode_loop decode d out = Some (False, out') \<and> length out' = length out + 5 * (length d div 8) + 3
    else Base32Decode_loop decode d out = None"
  using assms
proof (induction d arbitrary: out rule: measure_induct_rule [where f = length])
  case (less d)
  show ?case
  proof (cases "length d < 8")
    case True
    then show ?thesis using Base32Decode_tail_odd [of d decode out] less.prems by (simp add: Base32Decode_loop_short)
  next
    case False
    then obtain c0 c1 c2 c3 c4 c5 c6 c7 e where d: "d = c0 # c1 # c2 # c3 # c4 # c5 # c6 # c7 # e"
      by (cases "(decode, d, out)" rule: Base32Decode_loop.cases) auto
    obtain p where p: "Base32_block decode [c0, c1, c2, c3, c4, c5, c6, c7] = Some p" "length p = 5"
      using Base32_block_total [of decode c0 c1 c2 c3 c4 c5 c6 c7] less.prems(2) by (auto simp: d)
    have l: "length d = length e + 8" by (simp add: d)
    then have "length d mod 8 = length e mod 8" "length d div 8 = length e div 8 + 1" by simp_all
    moreover from this have "if length e mod 8 = 6 then \<exists>out'. Base32Decode_loop decode e (out @ p) = Some (False, out') \<and> length out' = length (out @ p) + 5 * (length e div 8) + 3
        else Base32Decode_loop decode e (out @ p) = None"
      using less.prems l by (intro less.IH) (simp_all add: d)
    moreover have "Base32Decode_loop decode d out = Base32Decode_loop decode e (out @ p)" using p(1) by (simp add: d)
    ultimately show ?thesis using p(2) by (cases "length e mod 8 = 6") (auto simp: algebra_simps)
  qed
qed

section \<open>The tables\<close>

lemma extend_hex_table: "map extend_hex_decode (base32_extendhex_encoding u) = map Some [0..31]"
  by (cases u) (simp_all only:, code_simp+)

lemma crockford_table: "map crockford_decode (base32_crockford_encoding u f) = map Some [0..31]"
  by (cases u; cases f) (simp_all only:, code_simp+)

lemma table_lookup:
  assumes "map decode tab = map Some [0..31]" "unat (v :: byte) < 32"
  shows "decode (tab ! unat v) = Some (uint v)"
proof -
  have l: "length tab = 32" using arg_cong [OF assms(1), of length] by simp
  then have "decode (tab ! unat v) = map decode tab ! unat v" using assms(2) by simp
  also have "\<dots> = Some ([0..31] ! unat v)" using assms by simp
  also have "[0..31] ! unat v = int (unat v)" using assms(2) by (subst nth_upto) linarith+
  finally show ?thesis by simp
qed

interpretation hex32: base32_table "extend_hex_encode u" extend_hex_decode for u
proof
  fix v :: byte assume "unat v < 32"
  from table_lookup [OF extend_hex_table this] show "extend_hex_decode (extend_hex_encode u v) = Some (uint v)"
    by (simp only: extend_hex_encode_def)
qed

interpretation crockford: base32_table "crockford_encode u f" crockford_decode for u f
proof
  fix v :: byte assume "unat v < 32"
  from table_lookup [OF crockford_table this] show "crockford_decode (crockford_encode u f v) = Some (uint v)"
    by (simp only: crockford_encode_def)
qed

lemmas Base32_defs = Base32Decode_def Base32Encode_def Base32EncodeLowercase_def Base32CrockfordDecode_def
  Base32CrockfordEncode_def Base32CrockfordEncodeLowercase_def Base32CrockfordFavCharEncode_def
  Base32CrockfordFavCharEncodeLowercase_def

section \<open>Properties\<close>

text \<open>C19: Decoding gives back the data for each of the six encoders with the decoder of its alphabet, when the
  caller passes the length of the data; that length is what \<^verbatim>\<open>Base32DecodeLength\<close> says of the text, and the
  text has \<^verbatim>\<open>Base32EncodeLength\<close> characters.\<close>

theorem Base32_roundtrip:
  "Base32Decode (length x) (Base32Encode x) = Some (True, x) \<and>
   Base32Decode (length x) (Base32EncodeLowercase x) = Some (True, x) \<and>
   Base32CrockfordDecode (length x) (Base32CrockfordEncode x) = Some (True, x) \<and>
   Base32CrockfordDecode (length x) (Base32CrockfordEncodeLowercase x) = Some (True, x) \<and>
   Base32CrockfordDecode (length x) (Base32CrockfordFavCharEncode x) = Some (True, x) \<and>
   Base32CrockfordDecode (length x) (Base32CrockfordFavCharEncodeLowercase x) = Some (True, x) \<and>
   length (Base32Encode x) = Base32EncodeLength (length x) \<and> Base32DecodeLength (Base32EncodeLength (length x)) = length x"
  unfolding Base32_defs Base32Decode_tab_def by (simp add: length_Base32Encode Base32_lengths hex32.round crockford.round)

text \<open>On a text whose length is not 1, 3 or 6 modulo 8, both decoders stay inside the text and write at
  most the \<^verbatim>\<open>data_len\<close> bytes of the output, whatever the characters.\<close>

theorem Base32Decode_fits:
  assumes "length s mod 8 \<notin> {1, 3, 6}"
  shows "\<exists>ok out ok' out'. Base32Decode n s = Some (ok, out) \<and> length out \<le> n \<and>
    Base32CrockfordDecode n s = Some (ok', out') \<and> length out' \<le> n"
  using Base32Decode_loop_size [OF assms, of extend_hex_decode "[]"] Base32Decode_loop_size [OF assms, of crockford_decode "[]"]
  unfolding Base32_defs Base32Decode_tab_def by auto

theorem Base32Decode_fits_witness:
  "\<exists>ok out ok' out'. Base32Decode 1 (lit ''64'') = Some (ok, out) \<and> length out \<le> 1 \<and>
    Base32CrockfordDecode 1 (lit ''64'') = Some (ok', out') \<and> length out' \<le> 1"
  by (rule Base32Decode_fits) simp

text \<open>C34: For a text whose length is 1, 3 or 6 modulo 8 \<^verbatim>\<open>Base32DecodeLength\<close> is 0. Both decoders refuse it when the caller expects data. When the caller asks for the 0 bytes
  that \<^verbatim>\<open>Base32DecodeLength\<close> reports and every character is accepted, the check passes: for 6 modulo 8 the decoder writes 5 bytes for each 8 characters and 3 more to the empty
  output before it fails, for 1 and 3 it reads behind the text.\<close>

theorem Base32Decode_malformed:
  assumes "length s mod 8 \<in> {1, 3, 6}"
  shows "Base32DecodeLength (length s) = 0 \<and>
    (0 < n \<longrightarrow> Base32Decode n s = Some (False, []) \<and> Base32CrockfordDecode n s = Some (False, [])) \<and>
    (list_all (\<lambda>c. extend_hex_decode c \<noteq> None) s \<longrightarrow>
      (if length s mod 8 = 6 then \<exists>out. Base32Decode 0 s = Some (False, out) \<and> length out = 5 * (length s div 8) + 3 else Base32Decode 0 s = None)) \<and>
    (list_all (\<lambda>c. crockford_decode c \<noteq> None) s \<longrightarrow>
      (if length s mod 8 = 6 then \<exists>out. Base32CrockfordDecode 0 s = Some (False, out) \<and> length out = 5 * (length s div 8) + 3 else Base32CrockfordDecode 0 s = None))"
proof -
  have z: "Base32DecodeLength (length s) = 0" using assms by (auto simp: Base32DecodeLength_def)
  then show ?thesis using Base32Decode_loop_odd [OF assms, of extend_hex_decode "[]"] Base32Decode_loop_odd [OF assms, of crockford_decode "[]"]
    unfolding Base32_defs Base32Decode_tab_def by (cases "length s mod 8 = 6") simp_all
qed

theorem Base32Decode_malformed_witness:
  "(\<exists>out. Base32Decode 0 (replicate 14 48) = Some (False, out) \<and> length out = 8) \<and> Base32CrockfordDecode 0 [48] = None \<and> Base32Decode 5 [48, 48, 48] = Some (False, [])"
proof -
  have a: "list_all (\<lambda>c. extend_hex_decode c \<noteq> None) (replicate 14 48)" "list_all (\<lambda>c. crockford_decode c \<noteq> None) [48]" by code_simp+
  then show ?thesis using Base32Decode_malformed [of "replicate 14 48" 0] Base32Decode_malformed [of "[48]" 0] Base32Decode_malformed [of "[48, 48, 48]" 5] by simp
qed

text \<open>The Crockford decoder accepts a character outside its alphabet.\<close>

theorem Base32CrockfordDecode_colon: "Base32CrockfordDecode 1 (lit ''0:'') = Some (True, [0xff])"
  by code_simp

end
