(* ===== verification/Tos.thy ===== *)
theory Tos
  imports StrNum Encode64
begin

text \<open>
  The text objects of \<^verbatim>\<open>rt::tos\<close> in \<^verbatim>\<open>core/rt/string_type.h\<close> that print binary data, characters and GUIDs
  into a fixed array of \<^verbatim>\<open>LEN\<close> characters. A constructor is the text it leaves, or \<open>None\<close> when it writes
  outside the array (the terminating zero included).
\<close>

unbundle bit_operations_syntax

section \<open>Definitions\<close>

definition in_array :: "nat \<Rightarrow> bytes \<Rightarrow> bytes option" where
  "in_array LEN text = (if length text + 1 \<le> LEN then Some text else None)"

(*@ core/rt/string_type.h 1548-1555 rt::tos::WhiteSpace *)
definition WhiteSpace :: "nat \<Rightarrow> bytes option" where
  "WhiteSpace len = in_array (S_LEN 1) (replicate len 32)"

(*@ core/rt/string_type.h 1557-1562 rt::tos::character *)
definition tos_character :: "byte \<Rightarrow> bytes option" where
  "tos_character c = in_array (S_LEN 1) [c]"

text \<open>The two digits of a byte, as \<^verbatim>\<open>HexNum\<close>, \<^verbatim>\<open>Binary\<close> and \<^verbatim>\<open>BinaryCString\<close> compute them.\<close>

(*@ core/rt/string_type.h 1790-1793 rt::tos::Binary *)
definition hex_pair :: "byte \<Rightarrow> byte \<Rightarrow> bytes" where
  "hex_pair char_base v =
    [if v \<ge> 0xa0 then char_base + drop_bit 4 (v - 0xa0) else 48 + drop_bit 4 v,
     let v = v AND 0xf in if v \<ge> 0xa then char_base + (v - 0xa) else 48 + v]"

definition hex_base :: "bool \<Rightarrow> byte" where
  "hex_base uppercase = (if uppercase then 65 else 97)"

(*@ core/rt/string_type.h 1777-1798 rt::tos::Binary *)
definition tos_Binary :: "nat \<Rightarrow> bool \<Rightarrow> bytes \<Rightarrow> bytes option" where
  "tos_Binary LEN uppercase data = in_array LEN (concat (map (hex_pair (hex_base uppercase)) data))"

text \<open>\<^verbatim>\<open>HexNum\<close> prints from the most significant byte and skips leading zero bytes but the last.\<close>

(*@ core/rt/string_type.h 1763-1763 rt::tos::HexNum *)
fun skip_zeros :: "bytes \<Rightarrow> bytes" where
  "skip_zeros (b # c # bs) = (if b = 0 then skip_zeros (c # bs) else b # c # bs)"
| "skip_zeros bs = bs"

(*@ core/rt/string_type.h 1751-1775 rt::tos::HexNum *)
definition tos_HexNum :: "nat \<Rightarrow> bool \<Rightarrow> bytes \<Rightarrow> bytes option" where
  "tos_HexNum LEN uppercase data = in_array LEN (concat (map (hex_pair (hex_base uppercase)) (skip_zeros (rev data))))"

(*@ core/rt/string_type.h 1800-1822 rt::tos::BinaryCString *)
definition tos_BinaryCString :: "nat \<Rightarrow> bytes \<Rightarrow> bytes option" where
  "tos_BinaryCString LEN data = in_array LEN (concat (map (\<lambda>v. [92, 120] @ hex_pair 97 v) data))"

text \<open>The conversions \<^verbatim>\<open>%0<w>x\<close> and \<^verbatim>\<open>%0<w>d\<close> of \<^verbatim>\<open>sprintf\<close> on an unsigned value: at least \<open>w\<close> digits.\<close>

fun hex_digits :: "nat \<Rightarrow> bytes" where
  "hex_digits n = (let c = word_of_nat (if n mod 16 < 10 then 48 + n mod 16 else 87 + n mod 16) in
    if n < 16 then [c] else hex_digits (n div 16) @ [c])"

definition pad0 :: "nat \<Rightarrow> bytes \<Rightarrow> bytes" where
  "pad0 w ds = replicate (w - length ds) 48 @ ds"

(*@ core/rt/string_type.h 1824-1839 rt::tos::GUID *)
definition tos_GUID :: "u32 \<Rightarrow> u16 \<Rightarrow> u16 \<Rightarrow> bytes \<Rightarrow> bytes option" where
  "tos_GUID Data1 Data2 Data3 Data4 =
    in_array (S_LEN 1)
      (pad0 8 (hex_digits (unat Data1)) @ [45] @ pad0 4 (hex_digits (unat Data2)) @ [45] @ pad0 4 (hex_digits (unat Data3)) @ [45]
       @ concat (map (\<lambda>d. pad0 2 (hex_digits (unat d))) (take 2 Data4)) @ [45]
       @ concat (map (\<lambda>d. pad0 2 (hex_digits (unat d))) (take 6 (drop 2 Data4))))"

text \<open>\<^verbatim>\<open>Date\<close> prints \<^verbatim>\<open>%04d/%02d/%02d\<close> (or from the sixth character of that template, without the year)
  and then replaces the separators.\<close>

(*@ core/rt/string_type.h 1728-1749 rt::tos::Date *)
definition tos_Date :: "byte \<Rightarrow> bool \<Rightarrow> nat \<Rightarrow> nat \<Rightarrow> nat \<Rightarrow> bytes option" where
  "tos_Date SEP no_year year month day =
    (if \<not> no_year then
       in_array (S_LEN 1)
         (let t = pad0 4 (dec year) @ [47] @ pad0 2 (dec month) @ [47] @ pad0 2 (dec day) in
          if SEP \<noteq> 47 then t[4 := SEP, 7 := SEP] else t)
     else
       in_array (S_LEN 1)
         (let t = pad0 2 (dec month) @ [47] @ pad0 2 (dec day) in if SEP \<noteq> 47 then t[2 := SEP] else t))"

section \<open>Digits\<close>

definition hexd :: "bool \<Rightarrow> byte \<Rightarrow> byte" where
  "hexd u d = (if d \<ge> 10 then hex_base u + (d - 10) else 48 + d)"

lemma high_nibble: "\<forall>v :: byte. (v \<ge> 0xa0 \<longleftrightarrow> drop_bit 4 v \<ge> 10) \<and> (v \<ge> 0xa0 \<longrightarrow> drop_bit 4 (v - 0xa0) = drop_bit 4 v - 10)"
  unfolding all_bytes by code_simp

lemma hex_pair_hexd: "hex_pair (hex_base u) v = [hexd u (drop_bit 4 v), hexd u (v AND 0xf)]"
  using high_nibble by (simp add: hex_pair_def hexd_def Let_def)

lemma hexd_table:
  "list_all (\<lambda>i. hex_val (hexd u (word_of_nat i)) = Some (word_of_nat i) \<and> to_num 16 (hexd u (word_of_nat i)) = int i \<and>
     hexd u (word_of_nat i) \<noteq> 44) [0..<16]"
  by (cases u) (simp_all only:, code_simp+)

lemma hexd_val:
  assumes "unat v < 16"
  shows "hex_val (hexd u v) = Some v" "to_num 16 (hexd u v) = uint v" "hexd u v \<noteq> 44"
proof -
  have "hex_val (hexd u v) = Some v \<and> to_num 16 (hexd u v) = int (unat v) \<and> hexd u v \<noteq> 44"
    using hexd_table [of u] assms unfolding list_all_iff by (metis atLeastLessThan_iff eq_word_of_nat set_upt zero_le)
  then show "hex_val (hexd u v) = Some v" "to_num 16 (hexd u v) = uint v" "hexd u v \<noteq> 44" by simp_all
qed

lemma length_hex_pair [simp]: "length (hex_pair b v) = 2"
  by (simp add: hex_pair_def)

lemma length_hex_pairs [simp]: "length (concat (map (hex_pair b) bs)) = 2 * length bs"
  by (induction bs) simp_all

lemmas hex_pair_simps = hex_pair_hexd hexd_val hex_four_bits hex_join

lemma Base16Decode_hex: "Base16Decode_loop (concat (map (hex_pair (hex_base u)) bs)) out = (True, out @ bs)"
  by (induction bs arbitrary: out) (simp_all add: hex_pair_simps)

text \<open>Big-endian bytes as a number.\<close>

definition be_value :: "'a::len word \<Rightarrow> bytes \<Rightarrow> 'a word" where
  "be_value x bs = foldl (\<lambda>x b. x * 256 + ucast b) x bs"

lemma nibbles: "uint (drop_bit 4 b) * 16 + uint (b AND 0xf) = uint (b :: byte)"
proof -
  have "b AND 0xf = b AND mask 4" by (simp add: mask_numeral)
  then have "unat (b AND 0xf) = unat b mod 16" using unat_and_mask [of b 4] by simp
  moreover have "unat (drop_bit 4 b) = unat b div 16" using unat_drop_bit_div [of 4 b] by simp
  ultimately have "unat (drop_bit 4 b) * 16 + unat (b AND 0xf) = unat b" by simp
  then have "int (unat (drop_bit 4 b) * 16 + unat (b AND 0xf)) = int (unat b)" by simp
  then show ?thesis by (simp only: of_nat_add of_nat_mult of_nat_unat of_nat_numeral)
qed

lemma byte_of_nibbles:
  "((x :: 'a::len word) * 16 + of_int (uint (drop_bit 4 b))) * 16 + of_int (uint (b AND 0xf)) = x * 256 + of_int (uint (b :: byte))"
proof -
  have "(of_int (uint b) :: 'a word) = of_int (uint (drop_bit 4 b) * 16 + uint (b AND 0xf))" by (simp only: nibbles)
  also have "\<dots> = of_int (uint (drop_bit 4 b)) * 16 + of_int (uint (b AND 0xf))"
    by (simp only: of_int_add of_int_mult of_int_numeral)
  finally show ?thesis by (simp only:) (simp add: algebra_simps del: of_int_uint)
qed

lemma uint_nibble_lt:
  assumes "unat v < 16"
  shows "uint v < 16"
proof -
  have "int (unat v) < int 16" using assms by (simp only: of_nat_less_iff)
  then show ?thesis by simp
qed

lemma ToNumber_loop_hex:
  "ToNumber_loop 16 44 (concat (map (hex_pair (hex_base u)) bs)) x d = (be_value x bs, d + 2 * length bs)"
proof (induction bs arbitrary: x d)
  case (Cons b bs)
  note n = hexd_val [OF hex_four_bits(1)] hexd_val [OF hex_four_bits(2)] uint_nibble_lt [OF hex_four_bits(1)] uint_nibble_lt [OF hex_four_bits(2)]
  have "ToNumber_loop 16 44 (concat (map (hex_pair (hex_base u)) (b # bs))) x d =
      ToNumber_loop 16 44 (concat (map (hex_pair (hex_base u)) bs))
        ((x * 16 + of_int (uint (drop_bit 4 b))) * 16 + of_int (uint (b AND 0xf))) (d + 2)"
    by (simp add: hex_pair_hexd n del: of_int_uint)
  also have "\<dots> = (be_value (x * 256 + of_int (uint b)) bs, d + 2 + 2 * length bs)" unfolding byte_of_nibbles by (rule Cons.IH)
  finally show ?case by (simp add: be_value_def)
qed (simp add: be_value_def)

lemma le_load_be_value: "le_load bs = be_value 0 (rev bs)"
proof (induction bs)
  case (Cons b bs)
  have "le_load (b # bs) = ucast b + push_bit 8 (le_load bs :: 'a word)"
    unfolding le_load.simps by (rule disjunctive_add [symmetric]) (auto simp: bit_simps)
  then show ?case using Cons by (simp add: be_value_def push_bit_eq_mult mult.commute add.commute)
qed (simp add: be_value_def)

lemma be_value_skip_zeros: "be_value 0 (skip_zeros bs) = (be_value 0 bs :: 'a::len word)"
  by (induction bs rule: skip_zeros.induct) (simp_all add: be_value_def)

lemma skip_zeros_Nil [simp]: "skip_zeros bs = [] \<longleftrightarrow> bs = []"
  by (induction bs rule: skip_zeros.induct) simp_all

lemma length_skip_zeros: "length (skip_zeros bs) \<le> length bs"
  by (induction bs rule: skip_zeros.induct) auto

lemma ToNumber_hex:
  assumes "bs \<noteq> []"
  shows "ToNumber 16 False allow 44 (concat (map (hex_pair (hex_base u)) bs)) = (int (2 * length bs), be_value 0 bs :: 'a::len word)"
proof -
  let ?t = "concat (map (hex_pair (hex_base u)) bs)"
  obtain b bs' where bs: "bs = b # bs'" using assms by (cases bs) auto
  have "takeWhile (\<lambda>c. to_num 16 c \<ge> 16) ?t = []"
    using hexd_val(2) [OF hex_four_bits(1), of u b] uint_nibble_lt [OF hex_four_bits(1), of b] by (simp add: bs hex_pair_hexd)
  moreover have "?t \<noteq> []" by (simp add: bs hex_pair_hexd)
  moreover have "length ?t \<noteq> 0" using assms by simp
  ultimately show ?thesis
    using ToNumber_loop_hex [of u bs "0 :: 'a word" 0] assms unfolding ToNumber_def Let_def by (auto simp del: concat_eq_Nil_conv)
qed

section \<open>Properties\<close>

text \<open>The text \<^verbatim>\<open>HexNum\<close> prints of the object representation of a number is read back by \<^verbatim>\<open>ToNumber\<close> in base 16
  as that number, in either case of the letters, and \<^verbatim>\<open>Base16Decode\<close> reads back the text of \<^verbatim>\<open>Binary\<close>.\<close>

theorem HexNum_Binary_read_back:
  assumes "data \<noteq> []" "2 * length data < LEN"
  shows "\<exists>t s. tos_HexNum LEN uppercase data = Some t \<and>
      ToNumber 16 False allow 44 t = (int (length t), le_load data :: 'a::len word) \<and>
      tos_Binary LEN uppercase data = Some s \<and> Base16Decode (length data) s = (True, data)"
proof -
  let ?t = "concat (map (hex_pair (hex_base uppercase)) (skip_zeros (rev data)))"
  have "2 * length (skip_zeros (rev data)) < LEN" using assms(2) length_skip_zeros [of "rev data"] by simp
  then have "tos_HexNum LEN uppercase data = Some ?t" by (simp add: tos_HexNum_def in_array_def)
  moreover have "ToNumber 16 False allow 44 ?t = (int (length ?t), le_load data :: 'a word)"
    using ToNumber_hex [of "skip_zeros (rev data)"] assms(1) by (simp add: be_value_skip_zeros le_load_be_value)
  ultimately show ?thesis using assms(2) by (simp add: tos_Binary_def in_array_def Base16Decode_def Base16Decode_hex)
qed

theorem HexNum_Binary_read_back_witness:
  "\<exists>t s. tos_HexNum 65 True [0x1f, 0xa, 0, 0] = Some t \<and>
      ToNumber 16 False True 44 t = (int (length t), le_load [0x1f, 0xa, 0, 0] :: u32) \<and>
      tos_Binary 65 True [0x1f, 0xa, 0, 0] = Some s \<and> Base16Decode (length [0x1f, 0xa, 0, 0 :: byte]) s = (True, [0x1f, 0xa, 0, 0])"
  by (rule HexNum_Binary_read_back) simp_all

text \<open>\<^verbatim>\<open>tos::GUID\<close> prints 36 characters into the 21 of \<^verbatim>\<open>S_<>\<close>, and \<^verbatim>\<open>BinaryCString\<close>, which asserts only that the
  data is shorter than half of its array, writes four characters per byte: both leave their array.\<close>

theorem tos_overruns:
  "tos_GUID 0 0 0 (replicate 8 0) = None \<and> tos_BinaryCString 65 (replicate 17 0) = None"
  by code_simp

end
