(* ===== verification/Utf8Url.thy ===== *)
theory Utf8Url
  imports Tos "HOL-Library.Monad_Syntax"
begin

text \<open>
  The UTF-8 and URL encodings of \<^verbatim>\<open>core/os/kernal_encode.cpp\<close>. A UTF-16 string is a list of 16-bit code
  units, which the code encodes one by one. The UTF-8 encoder stores through \<^verbatim>\<open>DWORD*\<close> and \<^verbatim>\<open>WORD*\<close>, so its
  output buffer is modelled with its size, and a store outside is \<open>None\<close>; a read of a decoder past
  the length it was given is \<open>None\<close> too. The decoder of a whole string does not store anything for
  an invalid lead byte: that position of its output is \<open>None\<close>.
\<close>

unbundle bit_operations_syntax

section \<open>Definitions\<close>

subsection \<open>UTF-8\<close>

(*@ core/os/kernal_encode.cpp 6-20 os::UTF8EncodeLength *)
fun UTF8EncodeLength :: "u16 list \<Rightarrow> nat" where
  "UTF8EncodeLength [] = 0"
| "UTF8EncodeLength (c # pIn) = (if c \<le> 0x7f then 1 else if c > 0x7ff then 3 else 2) + UTF8EncodeLength pIn"

definition put :: "nat \<Rightarrow> bytes \<Rightarrow> bytes \<Rightarrow> bytes option" where
  "put p bs buf = (if p + length bs \<le> length buf then Some (write_at p bs buf) else None)"

(*@ core/os/kernal_encode.cpp 25-40 os::UTF8Encode *)
fun UTF8Encode_loop :: "u16 list \<Rightarrow> nat \<Rightarrow> bytes \<Rightarrow> (nat \<times> bytes) option" where
  "UTF8Encode_loop [] p buf = Some (p, buf)"
| "UTF8Encode_loop (x # pIn) p buf =
    (let c = ucast x :: u32 in
     if x \<le> 0x7f then do { buf \<leftarrow> put p [ucast x] buf; UTF8Encode_loop pIn (p + 1) buf }
     else if x > 0x7ff then
       do { buf \<leftarrow> put p (le_store 4 (0x8080e0 OR (drop_bit 12 c AND 0xf) OR (push_bit 2 c AND 0x3f00) OR push_bit 16 (0x3f AND c))) buf;
            UTF8Encode_loop pIn (p + 3) buf }
     else
       do { buf \<leftarrow> put p (le_store 2 (0x80c0 OR (drop_bit 6 c AND 0x1f) OR push_bit 8 (0x3f AND c))) buf;
            UTF8Encode_loop pIn (p + 2) buf })"

(*@ core/os/kernal_encode.cpp 22-42 os::UTF8Encode *)
definition UTF8Encode :: "u16 list \<Rightarrow> bytes \<Rightarrow> (nat \<times> bytes) option" where
  "UTF8Encode pIn pOut = UTF8Encode_loop pIn 0 pOut"

(*@ core/os/kernal_encode.cpp 44-63 os::UTF8DecodeLength *)
function UTF8DecodeLength :: "bytes \<Rightarrow> nat" where
  "UTF8DecodeLength s =
    (case s of [] \<Rightarrow> 0
     | c # _ \<Rightarrow> 1 + UTF8DecodeLength
         (if c \<le> 0x7f then drop 1 s else if c AND 0xf0 = 0xe0 then drop 3 s else if c AND 0xe0 = 0xc0 then drop 2 s else drop 1 s))"
  by pat_completeness auto
termination by (relation "measure length") (auto split: if_splits)

(*@ core/os/kernal_encode.cpp 65-86 os::UTF8ByteOffset *)
fun UTF8ByteOffset_loop :: "bytes \<Rightarrow> nat \<Rightarrow> nat \<Rightarrow> nat" where
  "UTF8ByteOffset_loop s i 0 = i"
| "UTF8ByteOffset_loop s i (Suc n) =
    (if i \<ge> length s then 0
     else let c = s ! i in
       UTF8ByteOffset_loop s
         (if c \<le> 0x7f then i + 1 else if c AND 0xf0 = 0xe0 then i + 3 else if c AND 0xe0 = 0xc0 then i + 2 else i + 1) n)"

definition UTF8ByteOffset :: "bytes \<Rightarrow> nat \<Rightarrow> nat" where
  "UTF8ByteOffset s num_of_utf8_char = UTF8ByteOffset_loop s 0 num_of_utf8_char"

text \<open>One character at \<open>p\<close>: the code unit and how far the pointer moves.\<close>

(*@ core/os/kernal_encode.cpp 88-115 os::UTF8Decode(LPCSTR) *)
definition UTF8Decode_char :: "bytes \<Rightarrow> (u16 \<times> nat) option" where
  "UTF8Decode_char p =
    (case p of [] \<Rightarrow> None
     | c # _ \<Rightarrow>
         if c \<le> 0x7f then Some (ucast c, 1)
         else if c AND 0xf0 = 0xe0 then
           if 2 < length p then
             Some (push_bit 12 (ucast (c AND 0xf)) OR push_bit 6 (ucast (p ! 1 AND 0x3f)) OR ucast (p ! 2 AND 0x3f), 3)
           else None
         else if c AND 0xe0 = 0xc0 then
           if 1 < length p then Some (push_bit 6 (ucast (c AND 0x1f)) OR ucast (p ! 1 AND 0x3f), 2) else None
         else Some (63, 4))"

(*@ core/os/kernal_encode.cpp 117-138 os::UTF8Decode *)
function UTF8Decode :: "bytes \<Rightarrow> u16 option list option" where
  "UTF8Decode s =
    (case s of [] \<Rightarrow> Some []
     | c # _ \<Rightarrow>
         if c \<le> 0x7f then do { w \<leftarrow> UTF8Decode (drop 1 s); Some (Some (ucast c) # w) }
         else if c AND 0xf0 = 0xe0 then
           if 2 < length s then
             do { w \<leftarrow> UTF8Decode (drop 3 s);
                  Some (Some (push_bit 12 (ucast (c AND 0xf)) OR push_bit 6 (ucast (s ! 1 AND 0x3f)) OR ucast (s ! 2 AND 0x3f)) # w) }
           else None
         else if c AND 0xe0 = 0xc0 then
           if 1 < length s then
             do { w \<leftarrow> UTF8Decode (drop 2 s); Some (Some (push_bit 6 (ucast (c AND 0x1f)) OR ucast (s ! 1 AND 0x3f)) # w) }
           else None
         else do { w \<leftarrow> UTF8Decode (drop 1 s); Some (None # w) })"
  by pat_completeness auto
termination by (relation "measure length") auto

declare UTF8DecodeLength.simps [simp del] UTF8Decode.simps [simp del]

subsection \<open>URL\<close>

(*@ core/os/kernal_encode.cpp 750-757 os::UrlEncode *)
definition url_plain :: "byte \<Rightarrow> bool" where
  "url_plain x =
    (let c = c_int x in
     (c \<ge> 97 \<and> c \<le> 122) \<or> (c \<ge> 65 \<and> c \<le> 90) \<or> (c \<ge> 48 \<and> c \<le> 57) \<or> c = 45 \<or> c = 95 \<or> c = 46 \<or> c = 126)"

(*@ core/os/kernal_encode.cpp 745-771 os::UrlEncode *)
fun UrlEncode :: "bytes \<Rightarrow> bytes" where
  "UrlEncode [] = []"
| "UrlEncode (c # url) =
    (if url_plain c then c # UrlEncode url
     else 37 # (case tos_Binary 65 True [c] of Some code \<Rightarrow> [code ! 0, code ! 1] | None \<Rightarrow> []) @ UrlEncode url)"

text \<open>The value of the first digit, as the code computes it (\<^verbatim>\<open>c1 -= c1-'A' + 10\<close>), and of the second.\<close>

(*@ core/os/kernal_encode.cpp 783-789 os::UrlDecode *)
definition url_digit1 :: "int \<Rightarrow> int option" where
  "url_digit1 c1 =
    (if c1 \<ge> 48 \<and> c1 \<le> 57 then Some (c1 - 48)
     else if c1 \<ge> 65 \<and> c1 \<le> 70 then Some (c1 - (c1 - 65 + 10))
     else if c1 \<ge> 97 \<and> c1 \<le> 102 then Some (c1 - (c1 - 97 + 10))
     else None)"

(*@ core/os/kernal_encode.cpp 791-797 os::UrlDecode *)
definition url_digit2 :: "int \<Rightarrow> int option" where
  "url_digit2 c2 =
    (if c2 \<ge> 48 \<and> c2 \<le> 57 then Some (c2 - 48)
     else if c2 \<ge> 65 \<and> c2 \<le> 70 then Some (c2 - 65 + 10)
     else if c2 \<ge> 97 \<and> c2 \<le> 102 then Some (c2 - 97 + 10)
     else None)"

(*@ core/os/kernal_encode.cpp 773-808 os::UrlDecode *)
fun UrlDecode :: "bytes \<Rightarrow> bytes option" where
  "UrlDecode [] = Some []"
| "UrlDecode (c # s) =
    (if c = 37 then
       (case s of
          c1 # c2 # s' \<Rightarrow>
            (case (url_digit1 (c_int c1), url_digit2 (c_int c2)) of
               (Some d1, Some d2) \<Rightarrow> map_option ((#) (word_of_int (push_bit 4 d1 OR d2))) (UrlDecode s')
             | _ \<Rightarrow> Some [])
        | _ \<Rightarrow> None)
     else map_option ((#) c) (UrlDecode s))"

section \<open>UTF-8 round trip\<close>

text \<open>The bytes of one code unit.\<close>

definition utf8 :: "u16 \<Rightarrow> bytes" where
  "utf8 x = (if x \<le> 0x7f then [ucast x]
    else if x > 0x7ff then [0xe0 OR ucast (drop_bit 12 x), 0x80 OR (ucast (drop_bit 6 x) AND 0x3f), 0x80 OR (ucast x AND 0x3f)]
    else [0xc0 OR ucast (drop_bit 6 x), 0x80 OR (ucast x AND 0x3f)])"

lemma le_store_2: "le_store 2 w = [ucast w, ucast (drop_bit 8 w)]"
  by (simp add: numeral_2_eq_2)

lemma le_store_4: "le_store 4 w = [ucast w, ucast (drop_bit 8 w), ucast (drop_bit 16 w), ucast (drop_bit 24 w)]"
proof -
  have "(4 :: nat) = Suc (Suc (Suc (Suc 0)))" by simp
  then show ?thesis by (simp only: le_store.simps drop_bit_drop_bit) simp
qed

lemma u16_bit_ge [simp]: "16 \<le> n \<Longrightarrow> \<not> bit (x :: u16) n"
  using bit_imp_le_length [of x n] by auto

lemma utf8_store3:
  "le_store 4 (0x8080e0 OR (drop_bit 12 (ucast x :: u32) AND 0xf) OR (push_bit 2 (ucast x) AND 0x3f00) OR push_bit 16 (0x3f AND ucast x)) =
    [0xe0 OR ucast (drop_bit 12 (x :: u16)), 0x80 OR (ucast (drop_bit 6 x) AND 0x3f), 0x80 OR (ucast x AND 0x3f), 0]"
  unfolding le_store_4 list.inject by (intro conjI; (rule byte_eqI; simp add: bit_simps)?) simp

lemma u16_small_bits: "(x :: u16) \<le> 0x7ff \<Longrightarrow> 11 \<le> n \<Longrightarrow> \<not> bit x n"
proof -
  assume "x \<le> 0x7ff" "11 \<le> n"
  then have "unat x < 2 ^ 11" by (simp add: word_le_nat_alt)
  then have "take_bit 11 (unat x) = unat x" by (simp only: take_bit_nat_eq_self)
  then have "take_bit 11 x = x" by (metis unsigned_take_bit_eq unsigned_word_eqI)
  then show ?thesis using \<open>11 \<le> n\<close> by (metis bit_take_bit_iff not_le)
qed

lemma utf8_store2:
  "x \<le> 0x7ff \<Longrightarrow> le_store 2 (0x80c0 OR (drop_bit 6 (ucast x :: u32) AND 0x1f) OR push_bit 8 (0x3f AND ucast x)) =
    [0xc0 OR ucast (drop_bit 6 (x :: u16)), 0x80 OR (ucast x AND 0x3f)]"
  unfolding le_store_2 list.inject by (intro conjI; (rule byte_eqI; simp add: bit_simps u16_small_bits)?) simp

lemma length_utf8: "length (concat (map utf8 xs)) = UTF8EncodeLength xs"
  by (induction xs) (auto simp: utf8_def)

text \<open>What is stored for one code unit: its bytes, and a zero byte more after a three-byte sequence.\<close>

definition utf8_store :: "u16 \<Rightarrow> bytes" where
  "utf8_store x = utf8 x @ (if x > 0x7ff then [0] else [])"

lemma utf8_cases [case_names one three two]:
  obtains "x \<le> 0x7f" "\<not> (x :: u16) > 0x7ff" | "x > 0x7ff" "\<not> x \<le> 0x7f" | "x \<le> 0x7ff" "\<not> x \<le> 0x7f" "\<not> x > 0x7ff"
proof -
  have "x \<le> 0x7f \<Longrightarrow> \<not> x > 0x7ff" by (simp add: word_le_nat_alt word_less_nat_alt)
  then show thesis using that by fastforce
qed

lemma UTF8Encode_loop_Cons:
  "UTF8Encode_loop (x # xs) p buf = do { buf \<leftarrow> put p (utf8_store x) buf; UTF8Encode_loop xs (p + length (utf8 x)) buf }"
proof (cases x rule: utf8_cases)
  case one
  then show ?thesis by (simp add: utf8_store_def utf8_def)
next
  case three
  then show ?thesis unfolding UTF8Encode_loop.simps Let_def utf8_store3 by (simp add: utf8_store_def utf8_def numeral_3_eq_3)
next
  case two
  then show ?thesis unfolding UTF8Encode_loop.simps Let_def utf8_store2 [OF two(1)] by (simp add: utf8_store_def utf8_def)
qed

declare UTF8Encode_loop.simps(2) [simp del]

lemma UTF8Encode_loop_ok:
  assumes "p + UTF8EncodeLength xs < length buf"
  shows "\<exists>buf'. UTF8Encode_loop xs p buf = Some (p + UTF8EncodeLength xs, buf') \<and> length buf' = length buf \<and>
    take (p + UTF8EncodeLength xs) buf' = take p buf @ concat (map utf8 xs)"
  using assms
proof (induction xs arbitrary: p buf)
  case (Cons x xs)
  define n where "n = length (utf8 x)"
  have n: "UTF8EncodeLength (x # xs) = n + UTF8EncodeLength xs" by (simp add: n_def utf8_def)
  define zs :: bytes where "zs = (if x > 0x7ff then [0] else [])"
  have le: "p + n + length zs \<le> length buf" using Cons.prems unfolding n by (simp add: zs_def)
  then have step: "UTF8Encode_loop (x # xs) p buf = UTF8Encode_loop xs (p + n) (write_at p (utf8 x @ zs) buf)"
    by (simp add: UTF8Encode_loop_Cons put_def utf8_store_def zs_def n_def)
  let ?b = "write_at p (utf8 x @ zs) buf"
  have l: "length ?b = length buf" using le by (simp add: n_def)
  have "take (p + n + length zs) ?b = take p buf @ utf8 x @ zs"
    using take_write_at [of p "utf8 x @ zs" buf] le by (simp add: n_def add.assoc)
  then have "take (p + n) (take (p + n + length zs) ?b) = take (p + n) (take p buf @ utf8 x @ zs)" by simp
  then have t: "take (p + n) ?b = take p buf @ utf8 x" using le by (simp add: n_def)
  show ?case using Cons.IH [of "p + n" ?b] Cons.prems unfolding n step l t by (simp add: add.assoc)
qed simp

lemma UTF8Encode_loop_append:
  "UTF8Encode_loop (xs @ ys) p buf = do { (p, buf) \<leftarrow> UTF8Encode_loop xs p buf; UTF8Encode_loop ys p buf }"
  by (induction xs arbitrary: p buf) (simp_all add: UTF8Encode_loop_Cons)

lemma lead_gt: "\<forall>c :: byte. bit c 7 \<longrightarrow> \<not> c \<le> 0x7f"
  unfolding all_bytes by code_simp

lemma u16_eqI:
  assumes "bit (a :: u16) 0 = bit b 0" "bit a 1 = bit b 1" "bit a 2 = bit b 2" "bit a 3 = bit b 3"
    "bit a 4 = bit b 4" "bit a 5 = bit b 5" "bit a 6 = bit b 6" "bit a 7 = bit b 7"
    "bit a 8 = bit b 8" "bit a 9 = bit b 9" "bit a 10 = bit b 10" "bit a 11 = bit b 11"
    "bit a 12 = bit b 12" "bit a 13 = bit b 13" "bit a 14 = bit b 14" "bit a 15 = bit b 15"
  shows "a = b"
proof (rule bit_eqI)
  fix n assume "possible_bit TYPE(u16) n"
  then have "n < 16" by simp
  then have "n \<in> set [0..<16]" by simp
  moreover have "[0..<16] = [0, 1, 2, 3, 4, 5, 6, 7, 8, 9, 10, 11, 12, 13, 14, 15]" by (simp add: upt_rec)
  ultimately have "n \<in> {0, 1, 2, 3, 4, 5, 6, 7, 8, 9, 10, 11, 12, 13, 14, 15}" by (simp only:) simp
  then show "bit a n = bit b n" using assms by auto
qed

lemma utf8_lead3:
  fixes x :: u16
  defines "c \<equiv> 0xe0 OR ucast (drop_bit 12 x) :: byte"
  shows "\<not> c \<le> 0x7f" "c AND 0xf0 = 0xe0"
    "push_bit 12 (ucast (c AND 0xf)) OR push_bit 6 (ucast ((0x80 OR (ucast (drop_bit 6 x) AND 0x3f) :: byte) AND 0x3f)) OR
      ucast ((0x80 OR (ucast x AND 0x3f) :: byte) AND 0x3f) = x"
proof -
  have "bit c 7" by (simp add: c_def bit_simps)
  then show "\<not> c \<le> 0x7f" using lead_gt by blast
  show "c AND 0xf0 = 0xe0" unfolding c_def by (rule byte_eqI; simp add: bit_simps)
  show "push_bit 12 (ucast (c AND 0xf)) OR push_bit 6 (ucast ((0x80 OR (ucast (drop_bit 6 x) AND 0x3f) :: byte) AND 0x3f)) OR
      ucast ((0x80 OR (ucast x AND 0x3f) :: byte) AND 0x3f) = x"
    unfolding c_def by (rule u16_eqI; simp add: bit_simps)
qed

lemma utf8_lead2:
  fixes x :: u16
  defines "c \<equiv> 0xc0 OR ucast (drop_bit 6 x) :: byte"
  assumes "x \<le> 0x7ff"
  shows "\<not> c \<le> 0x7f" "c AND 0xf0 \<noteq> 0xe0" "c AND 0xe0 = 0xc0"
    "push_bit 6 (ucast (c AND 0x1f)) OR ucast ((0x80 OR (ucast x AND 0x3f) :: byte) AND 0x3f) = x"
proof -
  note b = u16_small_bits [OF assms(2)]
  have "bit c 7" by (simp add: c_def bit_simps)
  then show "\<not> c \<le> 0x7f" using lead_gt by blast
  have "\<not> bit (c AND 0xf0) 5" by (simp add: c_def bit_simps b)
  moreover have "bit (0xe0 :: byte) 5" by simp
  ultimately show "c AND 0xf0 \<noteq> 0xe0" by metis
  show "c AND 0xe0 = 0xc0" unfolding c_def by (rule byte_eqI; simp add: bit_simps b)
  show "push_bit 6 (ucast (c AND 0x1f)) OR ucast ((0x80 OR (ucast x AND 0x3f) :: byte) AND 0x3f) = x"
    unfolding c_def by (rule u16_eqI; simp add: bit_simps b)
qed

lemma ascii_ucast:
  assumes "(x :: u16) \<le> 0x7f"
  shows "(ucast x :: byte) \<le> 0x7f" "ucast (ucast x :: byte) = x"
proof -
  have u: "unat x \<le> 127" using assms by (simp add: word_le_nat_alt)
  then have "unat (ucast x :: byte) = unat x" by (simp add: unsigned_ucast_eq take_bit_nat_eq_self)
  then show "(ucast x :: byte) \<le> 0x7f" "ucast (ucast x :: byte) = x"
    using u by (simp_all add: word_le_nat_alt word_unat_eq_iff unsigned_ucast_eq unsigned_take_bit_eq)
qed

lemma UTF8Decode_utf8: "UTF8Decode (utf8 x @ s) = map_option ((#) (Some x)) (UTF8Decode s)"
proof (cases x rule: utf8_cases)
  case one
  then show ?thesis using ascii_ucast [OF one(1)]
    by (subst UTF8Decode.simps) (simp add: utf8_def map_conv_bind_option comp_def)
next
  case three
  then show ?thesis using utf8_lead3 [of x]
    by (subst UTF8Decode.simps) (simp add: utf8_def map_conv_bind_option comp_def numeral_eq_Suc)
next
  case two
  then show ?thesis using utf8_lead2 [OF two(1)]
    by (subst UTF8Decode.simps) (simp add: utf8_def map_conv_bind_option comp_def numeral_eq_Suc)
qed

lemma UTF8Decode_concat: "UTF8Decode (concat (map utf8 xs)) = Some (map Some xs)"
proof (induction xs)
  case Nil
  then show ?case by (subst UTF8Decode.simps) simp
next
  case (Cons x xs)
  then show ?case by (simp add: UTF8Decode_utf8)
qed

lemma UTF8DecodeLength_output: "UTF8Decode s = Some w \<Longrightarrow> UTF8DecodeLength s = length w"
proof (induction s arbitrary: w rule: UTF8Decode.induct)
  case (1 s)
  show ?case
  proof (cases s)
    case Nil
    then show ?thesis using "1.prems" by (subst UTF8DecodeLength.simps) (simp add: UTF8Decode.simps)
  next
    case (Cons c t)
    note IH = "1.IH" [OF Cons]
    have D: "UTF8DecodeLength s = 1 + UTF8DecodeLength
         (if c \<le> 0x7f then drop 1 s else if c AND 0xf0 = 0xe0 then drop 3 s else if c AND 0xe0 = 0xc0 then drop 2 s else drop 1 s)"
      by (subst UTF8DecodeLength.simps) (simp add: Cons)
    show ?thesis using "1.prems" IH unfolding D
      by (subst (asm) UTF8Decode.simps) (auto simp: Cons bind_eq_Some_conv split: if_splits)
  qed
qed

section \<open>URL round trip\<close>

text \<open>What the decoder makes of an encoded byte: bytes from \<open>0xa0\<close> on come back with the high digit 7.\<close>

definition url_back :: "byte \<Rightarrow> byte" where
  "url_back c = (if c < 0xa0 then c else 0x70 OR (c AND 0xf))"

lemma url_plain_lt: "url_plain c \<Longrightarrow> c < 0xa0 \<and> c \<noteq> 37"
proof -
  have "\<forall>c. url_plain c \<longrightarrow> c < 0xa0 \<and> c \<noteq> 37" unfolding all_bytes by code_simp
  then show "url_plain c \<Longrightarrow> c < 0xa0 \<and> c \<noteq> 37" by blast
qed

lemma url_digits_table:
  "list_all (\<lambda>i. url_digit1 (c_int (hexd True (word_of_nat i))) = Some (if i < 10 then int i else 55) \<and>
     url_digit2 (c_int (hexd True (word_of_nat i))) = Some (int i)) [0..<16]"
  by code_simp

lemma url_digits:
  assumes "unat v < 16"
  shows "url_digit1 (c_int (hexd True v)) = Some (if unat v < 10 then uint v else 55)"
    "url_digit2 (c_int (hexd True v)) = Some (uint v)"
proof -
  have "url_digit1 (c_int (hexd True v)) = Some (if unat v < 10 then int (unat v) else 55) \<and>
      url_digit2 (c_int (hexd True v)) = Some (int (unat v))"
    using url_digits_table assms unfolding list_all_iff by (metis atLeastLessThan_iff eq_word_of_nat set_upt zero_le)
  then show "url_digit1 (c_int (hexd True v)) = Some (if unat v < 10 then uint v else 55)"
    "url_digit2 (c_int (hexd True v)) = Some (uint v)" by simp_all
qed

lemma url_join:
  "word_of_int (push_bit 4 (if unat (drop_bit 4 c) < 10 then uint (drop_bit 4 c) else 55) OR uint (c AND 0xf)) = url_back (c :: byte)"
proof -
  have lt: "unat (drop_bit 4 c) < 10 \<longleftrightarrow> c < 0xa0"
    using unat_drop_bit_div [of 4 c] by (auto simp: word_less_nat_alt)
  show ?thesis
  proof (cases "c < 0xa0")
    case True
    have "word_of_int (push_bit 4 (uint (drop_bit 4 c)) OR uint (c AND 0xf)) = c" by (rule byte_eqI; simp add: bit_simps)
    then show ?thesis using True lt by (simp add: url_back_def)
  next
    case False
    have "word_of_int (push_bit 4 55 OR uint (c AND 0xf)) = 0x70 OR (c AND 0xf)" by (rule byte_eqI; simp add: bit_simps)
    then show ?thesis using False lt by (simp add: url_back_def)
  qed
qed

lemma UrlEncode_escape: "\<not> url_plain c \<Longrightarrow> UrlEncode (c # s) = 37 # hexd True (drop_bit 4 c) # hexd True (c AND 0xf) # UrlEncode s"
  using hex_pair_hexd [of True c] by (simp add: tos_Binary_def in_array_def hex_base_def)

lemma UrlDecode_UrlEncode: "UrlDecode (UrlEncode s) = Some (map url_back s)"
proof (induction s)
  case (Cons c s)
  show ?case
  proof (cases "url_plain c")
    case True
    then show ?thesis using Cons url_plain_lt [of c] by (simp add: url_back_def)
  next
    case False
    then show ?thesis using Cons
      by (simp add: UrlEncode_escape url_digits [OF hex_four_bits(1)] url_digits [OF hex_four_bits(2)] url_join del: UrlEncode.simps(2))
  qed
qed simp

lemma length_UrlEncode: "length (UrlEncode s) \<le> 3 * length s"
proof (induction s)
  case (Cons c s)
  then show ?case by (cases "url_plain c") (simp_all add: UrlEncode_escape del: UrlEncode.simps(2), simp)
qed simp

section \<open>Properties\<close>

text \<open>C27: Encoding a UTF-16 string into a buffer one byte larger than \<^verbatim>\<open>UTF8EncodeLength\<close> stays inside it and writes
  that many bytes; decoding them gives back the string, every 16-bit code unit (surrogates included).\<close>

theorem UTF8_roundtrip:
  assumes "UTF8EncodeLength xs < length buf"
  shows "\<exists>out. UTF8Encode xs buf = Some (UTF8EncodeLength xs, out) \<and>
    UTF8Decode (take (UTF8EncodeLength xs) out) = Some (map Some xs)"
  using UTF8Encode_loop_ok [of 0 xs buf] assms by (auto simp: UTF8Encode_def UTF8Decode_concat)

theorem UTF8_roundtrip_witness:
  "\<exists>out. UTF8Encode [0x4e2d, 65] (replicate 5 0) = Some (UTF8EncodeLength [0x4e2d, 65], out) \<and>
    UTF8Decode (take (UTF8EncodeLength [0x4e2d, 65]) out) = Some (map Some [0x4e2d, 65])"
  by (rule UTF8_roundtrip) simp

text \<open>A buffer of exactly \<^verbatim>\<open>UTF8EncodeLength\<close> bytes is overrun whenever the last code unit takes three bytes,
  because these are stored as a \<^verbatim>\<open>DWORD\<close>.\<close>

theorem UTF8Encode_overrun:
  assumes "x > 0x7ff" "length buf = UTF8EncodeLength (xs @ [x])"
  shows "UTF8Encode (xs @ [x]) buf = None"
proof -
  have x: "length (utf8 x) = 3" "length (utf8_store x) = 4"
    using assms(1) utf8_cases [of x] by (auto simp: utf8_def utf8_store_def)
  have "UTF8EncodeLength (xs @ [x]) = UTF8EncodeLength xs + 3"
    using x length_utf8 [of xs] length_utf8 [of "xs @ [x]"] by simp
  then have b: "length buf = UTF8EncodeLength xs + 3" using assms(2) by simp
  then obtain out where "UTF8Encode_loop xs 0 buf = Some (UTF8EncodeLength xs, out)" "length out = length buf"
    using UTF8Encode_loop_ok [of 0 xs buf] by auto
  then show ?thesis using x b by (simp add: UTF8Encode_def UTF8Encode_loop_append UTF8Encode_loop_Cons put_def)
qed

theorem UTF8Encode_overrun_witness: "UTF8Encode ([65] @ [0x4e2d]) (replicate 4 0) = None"
  by (rule UTF8Encode_overrun) simp_all

text \<open>\<^verbatim>\<open>UTF8DecodeLength\<close> is the number of code units \<^verbatim>\<open>UTF8Decode\<close> advances over, on any input that does not end
  inside a sequence.\<close>

theorem UTF8DecodeLength_exact:
  assumes "UTF8Decode s = Some w"
  shows "UTF8DecodeLength s = length w"
  by (rule UTF8DecodeLength_output [OF assms])

theorem UTF8DecodeLength_exact_witness: "UTF8DecodeLength [65, 0xc3, 0xa9] = length [Some 65, Some (0xe9 :: u16)]"
  by (rule UTF8DecodeLength_exact) code_simp

text \<open>\<^verbatim>\<open>UrlDecode\<close> gives back what \<^verbatim>\<open>UrlEncode\<close> encoded exactly when every byte is below \<open>0xa0\<close>: a byte with a letter
  as its first hexadecimal digit comes back with the digit 7. The encoding never needs more than
  three characters per byte, the size the callers reserve.\<close>

theorem UrlDecode_wrong_hex:
  "UrlDecode (UrlEncode s) = Some (map (\<lambda>c. if c < 0xa0 then c else 0x70 OR (c AND 0xf)) s) \<and>
    length (UrlEncode s) \<le> 3 * length s"
  using UrlDecode_UrlEncode length_UrlEncode unfolding url_back_def by blast

end
