(* ===== verification/Calendar.thy ===== *)
theory Calendar
  imports Tos "HOL-Library.Signed_Division" "HOL-Library.Monad_Syntax"
begin

text \<open>
  Calendar arithmetic of \<^verbatim>\<open>core/os/kernel.h\<close> and \<^verbatim>\<open>core/os/kernel.cpp\<close>: the static functions of
  \<^verbatim>\<open>os::Timestamp\<close>, its \<^verbatim>\<open>Fields\<close> with their DOS and RFC 1123 forms, the packed date \<^verbatim>\<open>os::Date32\<close> and the
  millisecond tick \<^verbatim>\<open>os::TickCount\<close>. A C \<^verbatim>\<open>int\<close> is an integer here, a \<^verbatim>\<open>UINT\<close> or \<^verbatim>\<open>DWORD\<close> a 32-bit word; an index
  outside a table is \<open>None\<close>. The conversions that ask the C library for the calendar (\<^verbatim>\<open>gmtime\<close>,
  \<^verbatim>\<open>mktime\<close>) are not modelled.
\<close>

unbundle bit_operations_syntax

section \<open>Definitions\<close>

subsection \<open>Tick count\<close>

(*@ core/os/kernel.h 87-90 os::TickCount::TimeLapse *)
definition TimeLapse :: "u32 \<Rightarrow> u32 \<Rightarrow> int" where
  "TimeLapse Tick later =
    (if Tick \<le> later then sint (later - Tick)
     else sint (word_of_int (0x100000000 + uint later - uint Tick) :: u32))"

text \<open>The new tick and the interval since the old one; \<open>now\<close> is what \<^verbatim>\<open>Get()\<close> returns.\<close>

(*@ core/os/kernel.h 92-97 os::TickCount::TimeInterval *)
definition TimeInterval :: "u32 \<Rightarrow> u32 \<Rightarrow> int \<times> u32" where
  "TimeInterval now Tick = (sint (word_of_int (TimeLapse Tick now) :: u32), now)"

subsection \<open>Timestamp\<close>

(*@ core/os/kernel.h 280-289 os::Timestamp::Fields *)
record Fields =
  Year :: int
  Month :: int
  Day :: int
  DayOfWeek :: int
  Hour :: int
  Minute :: int
  Second :: int
  MillSecond :: int

(*@ core/os/kernel.h 295-295 os::Timestamp::Fields::SetDateTime *)
definition SetDateTime :: "int \<Rightarrow> int \<Rightarrow> int \<Rightarrow> int \<Rightarrow> int \<Rightarrow> int \<Rightarrow> int \<Rightarrow> Fields" where
  "SetDateTime year mon day hour minutes sec msec =
    \<lparr> Year = year, Month = mon, Day = day, DayOfWeek = 0, Hour = hour, Minute = minutes, Second = sec, MillSecond = msec \<rparr>"

(*@ core/os/kernel.h 296-296 os::Timestamp::Fields::GetDosDate *)
definition GetDosDate :: "Fields \<Rightarrow> u16" where
  "GetDosDate f = word_of_int (Day f OR push_bit 5 (Month f) OR push_bit 9 (Year f - 1980))"

(*@ core/os/kernel.h 297-297 os::Timestamp::Fields::GetDosTime *)
definition GetDosTime :: "Fields \<Rightarrow> u16" where
  "GetDosTime f =
    word_of_int (drop_bit 1 (Second f + (MillSecond f + 500) sdiv 1000) OR push_bit 5 (Minute f) OR push_bit 11 (Hour f))"

(*@ core/os/kernel.h 298-298 os::Timestamp::Fields::SetDosTime *)
definition SetDosTime :: "u16 \<Rightarrow> u16 \<Rightarrow> Fields" where
  "SetDosTime date timex =
    SetDateTime (uint (drop_bit 9 date) + 1980) (uint (drop_bit 5 date AND 0xf)) (uint (date AND 0x1f))
      (uint (drop_bit 11 timex)) (uint (drop_bit 5 timex AND 0x3f)) (uint (timex AND 0x1f)) 0"

(*@ core/os/kernel.h 364-364 os::Timestamp::IsLeapYear *)
definition IsLeapYear :: "int \<Rightarrow> bool" where
  "IsLeapYear year \<longleftrightarrow> (year AND 0x3 = 0 \<and> year smod 100 \<noteq> 0) \<or> year smod 400 = 0"

(*@ core/os/kernel.h 365-365 os::Timestamp::DaysSince1970 *)
definition DaysSince1970 :: "int \<Rightarrow> u32" where
  "DaysSince1970 year =
    (let year = year - 1 in word_of_int (365 * year + year sdiv 400 - year sdiv 100 + year sdiv 4 - 719162))"

definition month_days :: "bool \<Rightarrow> int list" where
  "month_days leap =
    (if leap then [0, 31, 60, 91, 121, 152, 182, 213, 244, 274, 305, 335]
     else [0, 31, 59, 90, 120, 151, 181, 212, 243, 273, 304, 334])"

(*@ core/os/kernel.h 366-369 os::Timestamp::DaysSinceJan1 *)
definition DaysSinceJan1 :: "int \<Rightarrow> int \<Rightarrow> int \<Rightarrow> u32 option" where
  "DaysSinceJan1 year month day =
    (if 1 \<le> month \<and> month \<le> 12 then Some (word_of_int (month_days (IsLeapYear year) ! nat (month - 1) + day - 1)) else None)"

(*@ core/os/kernel.h 371-371 os::Timestamp::GetDayOfWeek *)
definition GetDayOfWeek :: "int \<Rightarrow> int \<Rightarrow> int \<Rightarrow> u32 option" where
  "GetDayOfWeek year month day =
    map_option (\<lambda>d. (DaysSince1970 year + d - 3) mod 7) (DaysSinceJan1 year month day)"

(*@ core/os/kernel.h 372-376 os::Timestamp::GetDayOfMonthMax *)
definition GetDayOfMonthMax :: "int \<Rightarrow> int \<Rightarrow> u32 option" where
  "GetDayOfMonthMax year month =
    (if 1 \<le> month \<and> month \<le> 12 then
       Some (word_of_int ([31, 28, 31, 30, 31, 30, 31, 31, 30, 31, 30, 31] ! nat (month - 1) + (if month = 2 \<and> IsLeapYear year then 1 else 0)))
     else None)"

(*@ core/os/kernel.h 354-354 os::Timestamp::ShiftDays *)
definition ShiftDays :: "int \<Rightarrow> 64 word \<Rightarrow> 64 word" where
  "ShiftDays days t = t + word_of_int (sint (word_of_int (days * 24) :: 32 word) * 3600000)"

(*@ core/os/kernel.h 355-355 os::Timestamp::ShiftHours *)
definition ShiftHours :: "int \<Rightarrow> 64 word \<Rightarrow> 64 word" where
  "ShiftHours hours t = t + word_of_int (hours * 3600000)"

(*@ core/os/kernel.h 360-360 os::Timestamp::Difference *)
definition Difference :: "64 word \<Rightarrow> 64 word \<Rightarrow> int" where
  "Difference t x = sint (t - x)"

(*@ core/os/kernel.h 361-361 os::Timestamp::DifferenceDays *)
definition DifferenceDays :: "64 word \<Rightarrow> 64 word \<Rightarrow> int" where
  "DifferenceDays t x = sint (t - x) sdiv (24 * 3600000)"

(*@ core/os/kernel.cpp 923-937 os::Timestamp::GetMonthFromDays *)
definition month_table :: "int list" where
  "month_table = replicate 31 1 @ replicate 28 2 @ replicate 31 3 @ replicate 30 4 @ replicate 31 5 @ replicate 30 6
    @ replicate 31 7 @ replicate 31 8 @ replicate 30 9 @ replicate 31 10 @ replicate 30 11 @ replicate 31 12"

definition month_lookup :: "int \<Rightarrow> int option" where
  "month_lookup i = (if 0 \<le> i \<and> i < 365 then Some (month_table ! nat i) else None)"

(*@ core/os/kernel.cpp 921-945 os::Timestamp::GetMonthFromDays *)
definition GetMonthFromDays :: "int \<Rightarrow> int \<Rightarrow> int option" where
  "GetMonthFromDays days year =
    (if days \<le> 31 + 28 then month_lookup days
     else if \<not> IsLeapYear year then month_lookup days
     else month_lookup (days - 1))"

text \<open>The names are three letters and a zero byte each.\<close>

definition month_name :: bytes where
  "month_name = concat (map (\<lambda>s. lit s @ [0])
    [''Jan'', ''Feb'', ''Mar'', ''Apr'', ''May'', ''Jun'', ''Jul'', ''Aug'', ''Sep'', ''Oct'', ''Nov'', ''Dec''])"

definition day_name :: bytes where
  "day_name = concat (map (\<lambda>s. lit s @ [0]) [''Sun'', ''Mon'', ''Tue'', ''Wed'', ''Thu'', ''Fri'', ''Sat''])"

(*@ core/os/kernel.cpp 872-878 os::Timestamp::GetMonthName *)
definition GetMonthName :: "int \<Rightarrow> bytes option" where
  "GetMonthName month =
    (if 1 \<le> month \<and> month \<le> 12 then Some (take 3 (drop (nat ((month - 1) * 4)) month_name)) else None)"

text \<open>The arguments of the hash functions are three characters of a name; their sum is an \<^verbatim>\<open>int\<close>, and a
  negative one (from characters above 127) is a negative index.\<close>

definition hash_lookup :: "int list \<Rightarrow> int \<Rightarrow> int option" where
  "hash_lookup tab h = (if 0 \<le> h then Some (tab ! nat h) else None)"

(*@ core/os/kernel.cpp 880-884 os::Timestamp::ParseMonthName *)
definition ParseMonthName :: "byte \<Rightarrow> byte \<Rightarrow> byte \<Rightarrow> int option" where
  "ParseMonthName b0 b1 b2 =
    hash_lookup [10, 5, 9, 0, 0, 7, 0, 6, 1, 0, 0, 0, 8, 11, 0, 3, 12, 2, 4, 0, 0] ((c_int b0 + c_int b1 + c_int b2) smod 21)"

(*@ core/os/kernel.cpp 886-890 os::Timestamp::ParseWeekdayName *)
definition ParseWeekdayName :: "byte \<Rightarrow> byte \<Rightarrow> byte \<Rightarrow> int option" where
  "ParseWeekdayName b0 b1 b2 =
    hash_lookup [0, 0, 3, 4, 6, 5, 0, 0, 0, 0, 1, 7, 0, 2, 0] ((c_int b0 + c_int b1 + c_int b2) smod 15)"

(*@ core/os/kernel.cpp 914-919 os::Timestamp::GetDayOfWeekName *)
definition GetDayOfWeekName :: "int \<Rightarrow> bytes option" where
  "GetDayOfWeekName weekday =
    (if 0 \<le> weekday \<and> weekday < 7 then Some (take 3 (drop (nat (weekday * 4)) day_name)) else None)"

text \<open>\<^verbatim>\<open>%02d\<close> and \<^verbatim>\<open>%04d\<close> of a non-negative \<^verbatim>\<open>int\<close>; a negative value has its sign before the digits.\<close>

definition print_d :: "nat \<Rightarrow> int \<Rightarrow> bytes" where
  "print_d w v = (if v < 0 then 45 # pad0 (w - 1) (dec (nat (- v))) else pad0 w (dec (nat v)))"

(*@ core/os/kernel.cpp 755-762 os::Timestamp::Fields::ToInternetTimeFormat *)
definition ToInternetTimeFormat :: "Fields \<Rightarrow> bytes option" where
  "ToInternetTimeFormat f =
    do { wd \<leftarrow> GetDayOfWeekName (DayOfWeek f); mn \<leftarrow> GetMonthName (Month f);
         Some (wd @ [44, 32] @ print_d 2 (Day f) @ [32] @ mn @ [32] @ print_d 4 (Year f) @ [32]
               @ print_d 2 (Hour f) @ [58] @ print_d 2 (Minute f) @ [58] @ print_d 2 (Second f) @ [32, 71, 77, 84]) }"

(*@ core/os/kernel.cpp 732-753 os::Timestamp::Fields::FromInternetTimeFormat *)
definition FromInternetTimeFormat :: "bytes \<Rightarrow> Fields option" where
  "FromInternetTimeFormat b =
    (if length b = 29 \<and> (le_load (take 4 (drop 25 b)) :: u32) = 0x544d4720 then
       do { mon \<leftarrow> ParseMonthName (b ! 8) (b ! 9) (b ! 10);
            let d = (\<lambda>i. c_int (b ! i) - 48);
            Some \<lparr> Year = d 12 * 1000 + d 13 * 100 + d 14 * 10 + d 15, Month = mon, Day = d 5 * 10 + d 6, DayOfWeek = 0,
                   Hour = d 17 * 10 + d 18, Minute = d 20 * 10 + d 21, Second = d 23 * 10 + d 24, MillSecond = 0 \<rparr> }
     else None)"

subsection \<open>Parsing of dates\<close>

(*@ core/os/kernel.cpp 598-601 os::_details::SolveMonthLetter *)
definition SolveMonthLetter :: "int \<Rightarrow> int" where
  "SolveMonthLetter l = (if l > 90 then l - (97 - 65) else l)"

definition name_code :: "string \<Rightarrow> int" where
  "name_code s = (case lit s of [a, b, c] \<Rightarrow> c_int a * 10000 + c_int b * 100 + c_int c | _ \<Rightarrow> 0)"

(*@ core/os/kernel.cpp 602-621 os::_details::SolveMonth *)
definition SolveMonth :: "bytes \<Rightarrow> int" where
  "SolveMonth seg =
    (if length seg < 3 then 0
     else
       let sum = SolveMonthLetter (c_int (seg ! 0)) * 10000 + SolveMonthLetter (c_int (seg ! 1)) * 100 + SolveMonthLetter (c_int (seg ! 2)) in
       (case map_of [(name_code ''jan'', 1), (name_code ''feb'', 2), (name_code ''mar'', 3), (name_code ''apr'', 4),
                     (name_code ''may'', 5), (name_code ''jun'', 6), (name_code ''jul'', 7), (name_code ''aug'', 8),
                     (name_code ''sep'', 9), (name_code ''oct'', 10), (name_code ''nov'', 11), (name_code ''dec'', 12)] sum of
          Some m \<Rightarrow> m
        | None \<Rightarrow> 0))"

text \<open>\<open>None\<close> is \<^verbatim>\<open>return false\<close>; otherwise the year, the month and the day.\<close>

(*@ core/os/kernel.cpp 622-633 os::_details::SolveDate *)
definition SolveDate :: "bytes \<times> bytes \<times> bytes \<Rightarrow> int \<times> int \<times> int \<Rightarrow> (int \<times> int \<times> int) option" where
  "SolveDate seg num =
    (case seg of (s0, s1, s2) \<Rightarrow> case num of (n0, n1, n2) \<Rightarrow>
     let found = (\<lambda>(year, month, day).
       if month \<ge> 1 \<and> month \<le> 12 \<and> day \<ge> 1 \<and> day \<le> 31 then Some (year, month, day) else None) in
     if n0 = 0 \<and> SolveMonth s0 > 0 then found (n2, SolveMonth s0, n1)
     else if n1 = 0 \<and> SolveMonth s1 > 0 then
       (if n2 < n0 then found (n0, SolveMonth s1, n2) else found (n2, SolveMonth s1, n0))
     else if n2 = 0 \<and> SolveMonth s2 > 0 then found (n0, SolveMonth s2, n1)
     else if n2 = 0 \<or> n1 = 0 \<or> n0 = 0 then None
     else if n0 > 1000 then found (n0, n1, n2)
     else if n2 > 1000 then found (n2, n0, n1)
     else None)"

subsection \<open>Date32\<close>

(*@ core/os/kernel.h 496-498 os::Date32 *)
type_synonym Date32 = u32

(*@ core/os/kernel.h 507-507 os::Date32::GetYear *)
definition GetYear :: "Date32 \<Rightarrow> int" where
  "GetYear d = uint (drop_bit 16 d)"

(*@ core/os/kernel.h 508-508 os::Date32::GetMonth *)
definition GetMonth :: "Date32 \<Rightarrow> int" where
  "GetMonth d = uint (drop_bit 8 d AND 0xff)"

(*@ core/os/kernel.h 509-509 os::Date32::GetDay *)
definition GetDay :: "Date32 \<Rightarrow> int" where
  "GetDay d = uint (d AND 0xff)"

(*@ core/os/kernel.h 510-510 os::Date32::IsMonthEqual *)
definition IsMonthEqual :: "Date32 \<Rightarrow> Date32 \<Rightarrow> bool" where
  "IsMonthEqual d x \<longleftrightarrow> (d XOR x) AND 0xffffff00 = 0"

(*@ core/os/kernel.h 512-512 os::Date32::SetDate *)
definition SetDate :: "int \<Rightarrow> int \<Rightarrow> int \<Rightarrow> Date32" where
  "SetDate year mon day = word_of_int (push_bit 16 year OR push_bit 8 mon OR day)"

(*@ core/os/kernel.h 515-515 os::Date32::SetYear *)
definition SetYear :: "int \<Rightarrow> Date32 \<Rightarrow> Date32" where
  "SetYear y d = d AND 0xffff OR word_of_int (push_bit 16 y)"

(*@ core/os/kernel.h 516-516 os::Date32::SetMonth *)
definition SetMonth :: "int \<Rightarrow> Date32 \<Rightarrow> Date32" where
  "SetMonth m d = d AND 0xffff00ff OR word_of_int (push_bit 8 m)"

(*@ core/os/kernel.h 517-517 os::Date32::SetDay *)
definition SetDay :: "int \<Rightarrow> Date32 \<Rightarrow> Date32" where
  "SetDay x d = d AND 0xffffff00 OR word_of_int x"

(*@ core/os/kernel.h 529-534 os::Date32::operator< *)
definition Date32_less :: "Date32 \<Rightarrow> Date32 \<Rightarrow> bool" where
  "Date32_less d x \<longleftrightarrow> d < x"

(*@ core/os/kernel.h 547-547 os::Date32::NextYear *)
definition NextYear :: "Date32 \<Rightarrow> Date32" where
  "NextYear d = SetDate (GetYear d + 1) 1 1"

(*@ core/os/kernel.h 548-548 os::Date32::LastYear *)
definition LastYear :: "Date32 \<Rightarrow> Date32" where
  "LastYear d = SetDate (GetYear d - 1) 1 1"

text \<open>\<^verbatim>\<open>NextDay\<close> and \<^verbatim>\<open>operator++\<close> compute the same date, as do \<^verbatim>\<open>LastDay\<close> and \<^verbatim>\<open>operator--\<close>.\<close>

(*@ core/os/kernel.h 549-557 os::Date32::NextDay *)
definition NextDay :: "Date32 \<Rightarrow> Date32 option" where
  "NextDay d =
    map_option (\<lambda>mx.
      if word_of_int (GetDay d) \<noteq> mx then d + 1
      else if GetMonth d \<noteq> 12 then (d AND 0xffffff00) + 0x101 else (d AND 0xffff0000) + 0x10101)
     (GetDayOfMonthMax (GetYear d) (GetMonth d))"

(*@ core/os/kernel.h 558-564 os::Date32::LastDay *)
definition LastDay :: "Date32 \<Rightarrow> Date32 option" where
  "LastDay d =
    (if GetDay d \<noteq> 1 then Some (d - 1)
     else if GetMonth d \<noteq> 1 then
       map_option (\<lambda>mx. (d AND 0xffffff00) - 0x100 + mx) (GetDayOfMonthMax (GetYear d) (GetMonth d - 1))
     else Some ((d AND 0xffff0000) - 0x10000 + 31 + push_bit 8 12))"

(*@ core/os/kernel.h 565-568 os::Date32::NextMonth *)
definition NextMonth :: "Date32 \<Rightarrow> Date32" where
  "NextMonth d = (let m = GetMonth d in SetDate (GetYear d + m sdiv 12) (1 + m smod 12) 1)"

(*@ core/os/kernel.h 569-572 os::Date32::LastMonth *)
definition LastMonth :: "Date32 \<Rightarrow> Date32" where
  "LastMonth d = (let m = GetMonth d in SetDate (GetYear d - (13 - m) sdiv 12) (1 + (10 + m) smod 12) 1)"

(*@ core/os/kernel.h 579-587 os::Date32::operator++ *)
fun days_forward :: "nat \<Rightarrow> Date32 \<Rightarrow> Date32 option" where
  "days_forward 0 d = Some d"
| "days_forward (Suc n) d = do { d \<leftarrow> NextDay d; days_forward n d }"

(*@ core/os/kernel.h 573-578 os::Date32::operator-- *)
fun days_back :: "nat \<Rightarrow> Date32 \<Rightarrow> Date32 option" where
  "days_back 0 d = Some d"
| "days_back (Suc n) d = do { d \<leftarrow> LastDay d; days_back n d }"

(*@ core/os/kernel.h 537-546 os::Date32::operator+= *)
definition Date32_plus :: "int \<Rightarrow> Date32 \<Rightarrow> Date32 option" where
  "Date32_plus x d = (if x < 0 then days_back (nat (- x)) d else days_forward (nat x) d)"

section \<open>Packed fields\<close>

lemma quot_nonneg: "0 \<le> a \<Longrightarrow> 0 < b \<Longrightarrow> a sdiv b = a div (b :: int)" "0 \<le> a \<Longrightarrow> 0 < b \<Longrightarrow> a smod b = a mod (b :: int)"
  by (cases "a = 0"; simp add: signed_divide_int_def signed_modulo_int_def sgn_if)+

lemma uint_int_unat: "uint w = int (unat w)"
  by simp

definition mk :: "nat \<Rightarrow> nat \<Rightarrow> nat \<Rightarrow> Date32" where
  "mk y m d = word_of_nat (y * 65536 + m * 256 + d)"

lemma unat_mk: "y < 65536 \<Longrightarrow> m < 256 \<Longrightarrow> d < 256 \<Longrightarrow> unat (mk y m d) = y * 65536 + m * 256 + d"
  unfolding mk_def by (rule unat_word_of_nat) simp

lemma fields_unat:
  "GetYear d = int (unat d div 65536)" "GetMonth d = int (unat d div 256 mod 256)" "GetDay d = int (unat d mod 256)"
proof -
  have m: "(0xff :: u32) = mask 8" by (simp add: mask_numeral)
  show "GetYear d = int (unat d div 65536)"
    unfolding GetYear_def uint_int_unat unat_drop_bit_div by simp
  show "GetMonth d = int (unat d div 256 mod 256)"
    unfolding GetMonth_def uint_int_unat m unat_and_mask unat_drop_bit_div by simp
  show "GetDay d = int (unat d mod 256)"
    unfolding GetDay_def uint_int_unat m unat_and_mask by simp
qed

lemma fields_mk:
  assumes "y < 65536" "m < 256" "d < 256"
  shows "GetYear (mk y m d) = int y" "GetMonth (mk y m d) = int m" "GetDay (mk y m d) = int d"
proof -
  have "y * 65536 + m * 256 + d = (y * 256 + m) * 256 + d" by simp
  then have "(y * 65536 + m * 256 + d) div 256 = y * 256 + m" "(y * 65536 + m * 256 + d) mod 256 = d"
    using assms(3) by (simp_all only: div_mult_self3 mod_mult_self3) simp_all
  moreover have "(y * 65536 + (m * 256 + d)) div 65536 = y" using assms by (subst div_mult_self3) simp_all
  ultimately show "GetYear (mk y m d) = int y" "GetMonth (mk y m d) = int m" "GetDay (mk y m d) = int d"
    using assms by (simp_all add: fields_unat unat_mk)
qed

lemma mk_fields: "d = mk (unat d div 65536) (unat d div 256 mod 256) (unat d mod 256)"
proof -
  have a: "a * 65536 + b * 256 + c = (a * 256 + b) * 256 + c" for a b c :: nat by simp
  have b: "unat d div 65536 = unat d div 256 div 256" by (simp add: div_mult2_eq [symmetric])
  have "unat d div 65536 * 65536 + unat d div 256 mod 256 * 256 + unat d mod 256 = unat d"
    unfolding a b by (simp only: div_mult_mod_eq)
  then show ?thesis unfolding mk_def by simp
qed

lemma mk_masks:
  assumes "y < 65536" "m < 256" "d < 256"
  shows "mk y m d AND 0xffffff00 = mk y m 0" "mk y m d AND 0xffff0000 = mk y 0 0"
proof -
  have *: "(w :: u32) AND NOT (mask k) = word_of_nat (unat w div 2 ^ k * 2 ^ k)" for w k
  proof -
    have "w AND NOT (mask k) = push_bit k (drop_bit k w)" by (rule bit_eqI) (auto simp: bit_simps)
    also have "\<dots> = word_of_nat (unat w div 2 ^ k * 2 ^ k)"
      using eq_word_of_nat [OF unat_drop_bit_div [of k w]] by (simp add: push_bit_eq_mult)
    finally show ?thesis .
  qed
  have n: "(0xffffff00 :: u32) = NOT (mask 8)" "(0xffff0000 :: u32) = NOT (mask 16)" by (simp_all add: mask_numeral)
  have u: "y * 65536 + m * 256 + d = (y * 256 + m) * 256 + d" "y * 65536 + m * 256 + d = y * 65536 + (m * 256 + d)" by simp_all
  have "(y * 65536 + m * 256 + d) div 256 = y * 256 + m" unfolding u(1) using assms(3) by (subst div_mult_self3) simp_all
  then show "mk y m d AND 0xffffff00 = mk y m 0" unfolding n(1) * unat_mk [OF assms] by (simp add: mk_def)
  have "(y * 65536 + m * 256 + d) div 65536 = y" unfolding u(2) using assms by (subst div_mult_self3) simp_all
  then show "mk y m d AND 0xffff0000 = mk y 0 0" unfolding n(2) * unat_mk [OF assms] by (simp add: mk_def)
qed

lemma mk_add: "mk y m d + 1 = mk y m (d + 1)" "mk y m 0 + 0x101 = mk y (m + 1) 1" "mk y 0 0 + 0x10101 = mk (y + 1) 1 1"
  "mk y m (d + 1) - 1 = mk y m d" "mk y (m + 1) 0 - 0x100 + word_of_nat k = mk y m k" "mk (y + 1) 0 0 - 0x10000 + 31 + push_bit 8 12 = mk y 12 31"
  by (simp_all add: mk_def algebra_simps)

section \<open>The calendar\<close>

definition mdays :: "nat \<Rightarrow> nat \<Rightarrow> nat" where
  "mdays y m = [31, 28, 31, 30, 31, 30, 31, 31, 30, 31, 30, 31] ! (m - 1) + (if m = 2 \<and> IsLeapYear (int y) then 1 else 0)"

text \<open>A date that exists, and the number of its day counted from 1 January 1970.\<close>

definition valid_date :: "nat \<Rightarrow> nat \<Rightarrow> nat \<Rightarrow> bool" where
  "valid_date y m d \<longleftrightarrow> 1 \<le> y \<and> y < 65536 \<and> 1 \<le> m \<and> m \<le> 12 \<and> 1 \<le> d \<and> d \<le> mdays y m"

definition daynum :: "nat \<Rightarrow> nat \<Rightarrow> nat \<Rightarrow> int" where
  "daynum y m d = (let y' = int y - 1 in 365 * y' + y' div 4 - y' div 100 + y' div 400 - 719162)
    + month_days (IsLeapYear (int y)) ! (m - 1) + int d - 1"

lemma month_cases: "1 \<le> m \<Longrightarrow> m \<le> 12 \<Longrightarrow> m = 1 \<or> m = 2 \<or> m = 3 \<or> m = 4 \<or> m = 5 \<or> m = 6 \<or> m = 7 \<or> m = 8 \<or> m = 9 \<or> m = 10 \<or> m = 11 \<or> m = (12 :: nat)"
  by presburger

lemma mdays_bounds: "1 \<le> m \<Longrightarrow> m \<le> 12 \<Longrightarrow> 28 \<le> mdays y m \<and> mdays y m \<le> 31"
  using month_cases [of m] by (auto simp: mdays_def)

lemma mdays_Dec: "mdays y 12 = 31"
  by (simp add: mdays_def)

lemma month_days_step: "1 \<le> m \<Longrightarrow> m < 12 \<Longrightarrow>
  month_days (IsLeapYear (int y)) ! m = month_days (IsLeapYear (int y)) ! (m - 1) + int (mdays y m)"
  using month_cases [of m] by (auto simp: month_days_def mdays_def)

lemma GetDayOfMonthMax_mdays:
  "1 \<le> m \<Longrightarrow> m \<le> 12 \<Longrightarrow> GetDayOfMonthMax (int y) (int m) = Some (word_of_nat (mdays y m))"
  using month_cases [of m] by (auto simp: GetDayOfMonthMax_def mdays_def)

lemma IsLeapYear_dvd: "0 \<le> y \<Longrightarrow> IsLeapYear y \<longleftrightarrow> (4 dvd y \<and> \<not> 100 dvd y) \<or> 400 dvd y"
proof -
  assume y: "0 \<le> y"
  have "(3 :: int) = mask 2" by (simp add: mask_numeral)
  then have "y AND 3 = y mod 4" by (simp only: take_bit_eq_mask [symmetric] take_bit_eq_mod) simp
  then show ?thesis unfolding IsLeapYear_def using y by (simp add: quot_nonneg dvd_eq_mod_eq_0)
qed

lemma div_step: "0 < k \<Longrightarrow> (y :: int) div k = (y - 1) div k + (if k dvd y then 1 else 0)"
proof (cases "k dvd y")
  case True
  assume k: "0 < k"
  obtain c where "y = k * c" using True by blast
  then have "(y - 1) div k = c - 1" using k by (intro int_div_pos_eq [of _ _ _ "k - 1"]) (simp_all add: algebra_simps)
  then show ?thesis using True k \<open>y = k * c\<close> by simp
next
  case False
  assume k: "0 < k"
  have "y mod k \<noteq> 0" using False by (simp add: dvd_eq_mod_eq_0)
  then have "1 \<le> y mod k" "y mod k < k" using pos_mod_sign [OF k, of y] pos_mod_bound [OF k, of y] by auto
  moreover have "y = k * (y div k) + y mod k" by simp
  ultimately have "(y - 1) div k = y div k" by (intro int_div_pos_eq [of _ _ _ "y mod k - 1"]) linarith+
  then show ?thesis using False by simp
qed

lemma leap_count:
  "0 \<le> y \<Longrightarrow> (if IsLeapYear y then 1 else 0) =
    (if 4 dvd y then 1 else 0) - (if 100 dvd y then 1 else 0) + (if 400 dvd y then 1 else 0 :: int)"
proof -
  assume "0 \<le> y"
  moreover have "400 dvd y \<Longrightarrow> 100 dvd y" "100 dvd y \<Longrightarrow> 4 dvd y" by presburger+
  ultimately show ?thesis unfolding IsLeapYear_dvd [OF \<open>0 \<le> y\<close>] by auto
qed

lemma year_step: "1 \<le> y \<Longrightarrow> daynum (y + 1) 1 1 = daynum y 12 31 + 1"
proof -
  assume "1 \<le> y"
  have md: "month_days l ! 0 = 0" "month_days l ! 11 = 334 + (if l then 1 else 0)" for l by (simp_all add: month_days_def)
  have "daynum (y + 1) 1 1 = 365 * int y + int y div 4 - int y div 100 + int y div 400 - 719162"
    by (simp add: daynum_def md Let_def)
  also have "\<dots> = 365 * int y + (int y - 1) div 4 - (int y - 1) div 100 + (int y - 1) div 400 - 719162
      + (if IsLeapYear (int y) then 1 else 0)"
    using div_step [of 4 "int y"] div_step [of 100 "int y"] div_step [of 400 "int y"] leap_count [of "int y"] by (simp only:)
  also have "\<dots> = daynum y 12 31 + 1" by (simp add: daynum_def md Let_def)
  finally show ?thesis .
qed

section \<open>Next and previous day\<close>

definition next_date :: "nat \<Rightarrow> nat \<Rightarrow> nat \<Rightarrow> nat \<times> nat \<times> nat" where
  "next_date y m d = (if d < mdays y m then (y, m, d + 1) else if m < 12 then (y, m + 1, 1) else (y + 1, 1, 1))"

lemma valid_date_bounds: "valid_date y m d \<Longrightarrow> y < 65536 \<and> m < 256 \<and> d < 256"
  using mdays_bounds [of m y] by (auto simp: valid_date_def)

text \<open>31 December 65535 is the last date of a packed date.\<close>

lemma valid_next: "valid_date y m d \<Longrightarrow> (y, m, d) \<noteq> (65535, 12, 31) \<Longrightarrow> case next_date y m d of (y', m', d') \<Rightarrow> valid_date y' m' d'"
  using mdays_bounds [of "m + 1" y] mdays_bounds [of 1 "y + 1"] mdays_Dec [of y] by (auto simp: valid_date_def next_date_def le_Suc_eq)

lemma daynum_next: "valid_date y m d \<Longrightarrow> case next_date y m d of (y', m', d') \<Rightarrow> daynum y' m' d' = daynum y m d + 1"
proof -
  assume v: "valid_date y m d"
  consider "d < mdays y m" | "d = mdays y m" "m < 12" | "d = 31" "m = 12" "\<not> d < mdays y m"
    using v mdays_Dec [of y] unfolding valid_date_def by (metis le_neq_implies_less less_irrefl)
  then show ?thesis
  proof cases
    case 1
    then show ?thesis by (simp add: next_date_def daynum_def)
  next
    case 2
    then show ?thesis using v month_days_step [of m y] by (simp add: next_date_def daynum_def valid_date_def)
  next
    case 3
    then show ?thesis using v year_step [of y] by (simp add: next_date_def valid_date_def)
  qed
qed

lemma NextDay_mk: "valid_date y m d \<Longrightarrow> NextDay (mk y m d) = (case next_date y m d of (y', m', d') \<Rightarrow> Some (mk y' m' d'))"
proof -
  assume v: "valid_date y m d"
  have b: "y < 65536" "m < 256" "d < 256" using valid_date_bounds [OF v] by auto
  have m: "1 \<le> m" "m \<le> 12" "d \<le> mdays y m" using v by (auto simp: valid_date_def)
  have "(word_of_nat d :: u32) = word_of_nat (mdays y m) \<longleftrightarrow> d = mdays y m"
    using b mdays_bounds [OF m(1,2), of y] by (auto simp: word_of_nat_eq_iff take_bit_nat_eq_self)
  then show ?thesis using m fields_mk [OF b] mk_masks [OF b]
    by (auto simp: NextDay_def GetDayOfMonthMax_mdays next_date_def mk_add)
qed

lemma LastDay_next:
  assumes v: "valid_date y m d" and y: "(y, m, d) \<noteq> (65535, 12, 31)"
  shows "case next_date y m d of (y', m', d') \<Rightarrow> LastDay (mk y' m' d') = Some (mk y m d)"
proof -
  have b: "y < 65536" "m < 256" "d < 256" using valid_date_bounds [OF v] by auto
  have m: "1 \<le> m" "m \<le> 12" "1 \<le> d" "d \<le> mdays y m" "mdays y m \<le> 31" using v mdays_bounds [of m y] by (auto simp: valid_date_def)
  consider "d < mdays y m" | "d = mdays y m" "m < 12" | "d = 31" "m = 12" "\<not> d < mdays y m"
    using v mdays_Dec [of y] unfolding valid_date_def by (metis le_neq_implies_less less_irrefl)
  then show ?thesis
  proof cases
    case 1
    then show ?thesis using m fields_mk [of y m "d + 1"] b mk_add(4) [of y m d] by (simp add: next_date_def LastDay_def)
  next
    case 2
    then show ?thesis using m fields_mk [of y "m + 1" 1] b mk_masks [of y "m + 1" 1] mk_add(5) [of y m "mdays y m"]
        GetDayOfMonthMax_mdays [OF m(1,2), of y] by (simp add: next_date_def LastDay_def)
  next
    case 3
    then have "y < 65535" using y b(1) by auto
    then show ?thesis using 3 m fields_mk [of "y + 1" 1 1] mk_masks [of "y + 1" 1 1] mk_add(6) [of y]
      by (simp add: next_date_def LastDay_def)
  qed
qed

section \<open>Packed dates\<close>

text \<open>A packed date that exists in the calendar of the code, and the day number its functions give.\<close>

definition Date32_valid :: "Date32 \<Rightarrow> bool" where
  "Date32_valid d \<longleftrightarrow> 1 \<le> GetYear d \<and> 1 \<le> GetDay d \<and>
    (case GetDayOfMonthMax (GetYear d) (GetMonth d) of Some mx \<Rightarrow> GetDay d \<le> uint mx | None \<Rightarrow> False)"

definition Date32_days :: "Date32 \<Rightarrow> u32 option" where
  "Date32_days d = map_option ((+) (DaysSince1970 (GetYear d))) (DaysSinceJan1 (GetYear d) (GetMonth d) (GetDay d))"

lemma Date32_valid_mk:
  assumes "Date32_valid d"
  obtains y m dd where "d = mk y m dd" "valid_date y m dd" "GetYear d = int y"
proof -
  define y m dd where "y = unat d div 65536" and "m = unat d div 256 mod 256" and "dd = unat d mod 256"
  have d: "d = mk y m dd" unfolding y_def m_def dd_def by (rule mk_fields)
  have g: "GetYear d = int y" "GetMonth d = int m" "GetDay d = int dd" by (simp_all add: fields_unat y_def m_def dd_def)
  have "unat d < 65536 * 65536" using unsigned_less [of d] by simp
  then have "y < 65536" unfolding y_def by (simp add: div_less_iff_less_mult)
  moreover have mm: "1 \<le> m" "m \<le> 12" using assms by (auto simp: Date32_valid_def g GetDayOfMonthMax_def split: option.splits if_splits)
  moreover have "1 \<le> y" "1 \<le> dd" using assms by (auto simp: Date32_valid_def g)
  moreover have "dd \<le> mdays y m"
  proof -
    have "int dd \<le> uint (word_of_nat (mdays y m) :: u32)"
      using assms GetDayOfMonthMax_mdays [OF mm, of y] by (simp add: Date32_valid_def g)
    moreover have "uint (word_of_nat (mdays y m) :: u32) = int (mdays y m)"
      using mdays_bounds [OF mm, of y] unfolding uint_int_unat by (subst unat_word_of_nat) simp_all
    ultimately show ?thesis by simp
  qed
  ultimately have "valid_date y m dd" unfolding valid_date_def by simp
  then show thesis using d g(1) that by blast
qed

lemma mk_Date32_valid: "valid_date y m d \<Longrightarrow> Date32_valid (mk y m d)"
proof -
  assume v: "valid_date y m d"
  have b: "y < 65536" "m < 256" "d < 256" using valid_date_bounds [OF v] by auto
  have m: "1 \<le> m" "m \<le> 12" "1 \<le> y" "1 \<le> d" "d \<le> mdays y m" using v by (auto simp: valid_date_def)
  have "uint (word_of_nat (mdays y m) :: u32) = int (mdays y m)"
    using mdays_bounds [OF m(1,2), of y] unfolding uint_int_unat by (subst unat_word_of_nat) simp_all
  then show ?thesis using m by (simp add: Date32_valid_def fields_mk [OF b] GetDayOfMonthMax_mdays)
qed

lemma DaysSinceJan1_month: "1 \<le> m \<Longrightarrow> m \<le> 12 \<Longrightarrow>
  DaysSinceJan1 y (int m) d = Some (word_of_int (month_days (IsLeapYear y) ! (m - 1) + d - 1))"
  by (simp add: DaysSinceJan1_def nat_diff_distrib)

lemma days_word:
  assumes "1 \<le> y" "1 \<le> m" "m \<le> 12"
  shows "map_option ((+) (DaysSince1970 (int y))) (DaysSinceJan1 (int y) (int m) (int d)) = Some (word_of_int (daynum y m d))"
proof -
  let ?y = "int y - 1"
  have q: "?y sdiv 400 = ?y div 400" "?y sdiv 100 = ?y div 100" "?y sdiv 4 = ?y div 4" using assms(1) by (simp_all add: quot_nonneg)
  have "DaysSince1970 (int y) = word_of_int (365 * ?y + ?y div 400 - ?y div 100 + ?y div 4 - 719162)"
    by (simp only: DaysSince1970_def Let_def q)
  then have "map_option ((+) (DaysSince1970 (int y))) (DaysSinceJan1 (int y) (int m) (int d)) =
      Some (word_of_int ((365 * ?y + ?y div 400 - ?y div 100 + ?y div 4 - 719162) + (month_days (IsLeapYear (int y)) ! (m - 1) + int d - 1)))"
    by (simp only: DaysSinceJan1_month [OF assms(2,3)] option.map of_int_add)
  also have "(365 * ?y + ?y div 400 - ?y div 100 + ?y div 4 - 719162) + (month_days (IsLeapYear (int y)) ! (m - 1) + int d - 1) = daynum y m d"
    by (simp add: daynum_def Let_def)
  finally show ?thesis .
qed

lemma Date32_days_mk: "valid_date y m d \<Longrightarrow> Date32_days (mk y m d) = Some (word_of_int (daynum y m d))"
  using valid_date_bounds [of y m d] days_word [of y m d] by (simp add: Date32_days_def fields_mk valid_date_def)

definition day_number :: "Date32 \<Rightarrow> int" where
  "day_number d = daynum (nat (GetYear d)) (nat (GetMonth d)) (nat (GetDay d))"

lemma day_number_mk: "valid_date y m d \<Longrightarrow> day_number (mk y m d) = daynum y m d"
  using valid_date_bounds [of y m d] by (simp add: day_number_def fields_mk)

lemma NextDay_step:
  assumes "Date32_valid d" "day_number d \<noteq> daynum 65535 12 31"
  shows "\<exists>n. NextDay d = Some n \<and> Date32_valid n \<and> Date32_days n = map_option ((+) 1) (Date32_days d) \<and> LastDay n = Some d \<and> d < n \<and>
    day_number n = day_number d + 1"
proof -
  obtain y m dd where d: "d = mk y m dd" "valid_date y m dd" "GetYear d = int y" by (rule Date32_valid_mk [OF assms(1)])
  have y: "(y, m, dd) \<noteq> (65535, 12, 31)" using assms(2) day_number_mk [OF d(2)] d(1) by auto
  obtain y' m' d' where n: "next_date y m dd = (y', m', d')" by (metis prod_cases3)
  have v': "valid_date y' m' d'" using valid_next [OF d(2) y] n by simp
  have dn: "daynum y' m' d' = daynum y m dd + 1" using daynum_next [OF d(2)] n by simp
  have "unat (mk y m dd) < unat (mk y' m' d')"
    using valid_date_bounds [OF d(2)] valid_date_bounds [OF v'] n d(2)
    by (auto simp: unat_mk next_date_def valid_date_def split: if_splits)
  then have "mk y m dd < mk y' m' d'" by (simp only: word_less_nat_alt)
  then show ?thesis
    using NextDay_mk [OF d(2)] mk_Date32_valid [OF v'] LastDay_next [OF d(2) y] n dn d day_number_mk [OF d(2)] day_number_mk [OF v']
    by (simp add: Date32_days_mk [OF v'] Date32_days_mk [OF d(2)] add.commute)
qed

lemma days_back_snoc: "days_back (Suc n) d = do { d \<leftarrow> days_back n d; LastDay d }"
proof (induction n arbitrary: d)
  case 0
  then show ?case by (cases "LastDay d") simp_all
next
  case (Suc n)
  show ?case
  proof (cases "LastDay d")
    case None
    then show ?thesis by simp
  next
    case (Some d1)
    then have "days_back (Suc (Suc n)) d = days_back (Suc n) d1" "days_back (Suc n) d = days_back n d1" by simp_all
    then show ?thesis using Suc.IH [of d1] by (simp only:)
  qed
qed

lemma days_forward_back:
  assumes "Date32_valid d" "day_number d + int n \<le> daynum 65535 12 31"
  shows "\<exists>e. days_forward n d = Some e \<and> Date32_valid e \<and> day_number e = day_number d + int n \<and> Date32_days e = map_option ((+) (of_nat n)) (Date32_days d) \<and> days_back n e = Some d"
  using assms
proof (induction n arbitrary: d)
  case 0
  then show ?case by (cases "Date32_days d") simp_all
next
  case (Suc n)
  then have "day_number d \<noteq> daynum 65535 12 31" by simp
  then obtain d1 where d1: "NextDay d = Some d1" "Date32_valid d1" "Date32_days d1 = map_option ((+) 1) (Date32_days d)"
      "LastDay d1 = Some d" "day_number d1 = day_number d + 1"
    using NextDay_step [OF Suc.prems(1)] by blast
  then obtain e where "days_forward n d1 = Some e" "Date32_valid e" "day_number e = day_number d1 + int n"
      "Date32_days e = map_option ((+) (of_nat n)) (Date32_days d1)" "days_back n e = Some d1"
    using Suc.IH [OF d1(2)] Suc.prems(2) by auto
  then have "days_forward (Suc n) d = Some e" "days_back (Suc n) e = Some d" "Date32_valid e" "day_number e = day_number d + int (Suc n)"
      "Date32_days e = map_option ((+) (of_nat (Suc n))) (Date32_days d)"
    using d1 unfolding days_back_snoc by (cases "Date32_days d"; simp add: algebra_simps)+
  then show ?case by blast
qed

section \<open>Day of the week\<close>

lemma daynum_1970: "daynum 1970 1 1 = 0"
  by (simp add: daynum_def month_days_def Let_def)

lemma month_days_nonneg: "1 \<le> m \<Longrightarrow> m \<le> 12 \<Longrightarrow> 0 \<le> month_days l ! (m - 1) \<and> month_days l ! (m - 1) \<le> 335"
  using month_cases [of m] by (auto simp: month_days_def)

lemma daynum_Jan1_nonneg: "1970 \<le> y \<Longrightarrow> 0 \<le> daynum y 1 1"
proof (induction y rule: dec_induct)
  case base
  then show ?case by (simp only: daynum_1970)
next
  case (step y)
  have "daynum (y + 1) 1 1 = daynum y 12 31 + 1" using step.hyps by (intro year_step) simp
  moreover have "daynum y 1 1 \<le> daynum y 12 31" by (simp add: daynum_def month_days_def)
  ultimately show ?case using step.IH by simp
qed

lemma daynum_range:
  assumes "valid_date y m d" "1970 \<le> y"
  shows "0 \<le> daynum y m d" "daynum y m d < 2 ^ 31"
proof -
  have m: "1 \<le> m" "m \<le> 12" "1 \<le> d" "d \<le> mdays y m" "y < 65536" "mdays y m \<le> 31"
    using assms(1) mdays_bounds [of m y] by (auto simp: valid_date_def)
  note md = month_days_nonneg [OF m(1,2), of "IsLeapYear (int y)"]
  have "daynum y m d = daynum y 1 1 + month_days (IsLeapYear (int y)) ! (m - 1) + int d - 1"
    by (simp add: daynum_def month_days_def)
  then show "0 \<le> daynum y m d" using daynum_Jan1_nonneg [OF assms(2)] md m(3) by linarith
  define z where "z = int y - 1"
  define a b c where "a = z div 4" and "b = z div 100" and "c = z div 400"
  have z: "0 \<le> z" "z \<le> 65534" using assms(2) m(5) by (simp_all add: z_def)
  have "0 \<le> z \<Longrightarrow> z div 4 \<le> z" "0 \<le> z \<Longrightarrow> 0 \<le> z div 100" "0 \<le> z \<Longrightarrow> z div 400 \<le> z" for z :: int by presburger+
  then have "a \<le> z" "0 \<le> b" "c \<le> z" using z(1) by (simp_all add: a_def b_def c_def)
  moreover have "daynum y m d = 365 * z + a - b + c - 719162 + month_days (IsLeapYear (int y)) ! (m - 1) + int d - 1"
    by (simp add: daynum_def Let_def z_def a_def b_def c_def)
  moreover have "int d \<le> 31" using m by simp
  ultimately have "daynum y m d < 2147483648" using z md by linarith
  then show "daynum y m d < 2 ^ 31" by simp
qed

lemma mod7_shift: "3 \<le> N \<Longrightarrow> (N - 3) mod 7 = (N + 4) mod (7 :: int)"
  by presburger

lemma uint_word_small: "0 \<le> N \<Longrightarrow> N < 2 ^ 32 \<Longrightarrow> uint (word_of_int N :: u32) = N"
  by (simp add: unsigned_of_int take_bit_int_eq_self)

lemma GetDayOfWeek_daynum:
  assumes "valid_date y m d" "1970 \<le> y"
  shows "GetDayOfWeek (int y) (int m) (int d) =
    Some (word_of_int (if daynum y m d < 3 then daynum y m d + 1 else (daynum y m d + 4) mod 7))"
proof -
  define N where "N = daynum y m d"
  have N: "0 \<le> N" "N < 2 ^ 31" using daynum_range [OF assms] by (simp_all add: N_def)
  have m: "1 \<le> y" "1 \<le> m" "m \<le> 12" using assms by (auto simp: valid_date_def)
  obtain k where "DaysSinceJan1 (int y) (int m) (int d) = Some k" "DaysSince1970 (int y) + k = word_of_int N"
    using days_word [OF m, of d] by (auto simp: N_def)
  then have g: "GetDayOfWeek (int y) (int m) (int d) = Some ((word_of_int N - 3) mod 7)" by (simp add: GetDayOfWeek_def)
  define w :: u32 where "w = word_of_int N - 3"
  have "w = word_of_int (if N < 3 then N + (2 ^ 32 - 3) else N - 3)" by (simp add: w_def)
  then have u: "uint w = (if N < 3 then N + (2 ^ 32 - 3) else N - 3)" using N uint_word_small by (simp only:) simp
  have "uint (w mod 7) = uint w mod 7" by (simp add: uint_mod)
  also have "\<dots> = (if N < 3 then N + 1 else (N + 4) mod 7)"
  proof (cases "N < 3")
    case True
    then have "N = 0 \<or> N = 1 \<or> N = 2" using N(1) by linarith
    then show ?thesis using u by auto
  next
    case False
    then show ?thesis using u mod7_shift [of N] by simp
  qed
  finally have "w mod 7 = word_of_int (if N < 3 then N + 1 else (N + 4) mod 7)" by (metis word_of_int_uint)
  then show ?thesis using g by (simp only: w_def N_def)
qed

section \<open>Month of a day\<close>

lemma month_lookup_range:
  assumes "1 \<le> m" "m \<le> 12" "0 \<le> i" "i < int ([31, 28, 31, 30, 31, 30, 31, 31, 30, 31, 30, 31] ! (m - 1))"
  shows "month_lookup (month_days False ! (m - 1) + i) = Some (int m)"
  using month_cases [OF assms(1,2)] assms(3,4)
  by (elim disjE) (simp_all add: month_lookup_def month_days_def month_table_def nth_append nat_less_iff nat_add_distrib)

lemma GetMonthFromDays_month:
  assumes "1 \<le> m" "m \<le> 12" "1 \<le> d" "d \<le> mdays y m"
  shows "GetMonthFromDays (month_days (IsLeapYear (int y)) ! (m - 1) + int d - 1) (int y) =
    Some (if IsLeapYear (int y) \<and> m = 2 \<and> d = 29 then 3 else int m)"
proof (cases "IsLeapYear (int y) \<and> 2 \<le> m")
  case False
  then have "mdays y m = [31, 28, 31, 30, 31, 30, 31, 31, 30, 31, 30, 31] ! (m - 1)"
      "month_days (IsLeapYear (int y)) ! (m - 1) = month_days False ! (m - 1)"
    using assms(1) by (auto simp: mdays_def month_days_def)
  moreover from this have "month_lookup (month_days False ! (m - 1) + (int d - 1)) = Some (int m)"
    using assms by (intro month_lookup_range) auto
  moreover have "IsLeapYear (int y) \<Longrightarrow> month_days False ! (m - 1) + int d - 1 \<le> 31 + 28"
    using False assms mdays_bounds [OF assms(1,2), of y] by (auto simp: month_days_def)
  ultimately show ?thesis using False by (auto simp: GetMonthFromDays_def algebra_simps)
next
  case True
  show ?thesis
  proof (cases "m = 2")
    case m: True
    have d: "d \<le> 29" using assms(4) True m by (simp add: mdays_def)
    have "month_lookup (month_days False ! 1 + (int d - 1)) = Some 2" if "d \<le> 28"
      using month_lookup_range [of 2 "int d - 1"] that assms(3) by simp
    moreover have "month_lookup 59 = Some 3" using month_lookup_range [of 3 0] by (simp add: month_days_def)
    moreover have "31 + int d - 1 \<le> 59" using d by simp
    ultimately show ?thesis using True m d by (auto simp: GetMonthFromDays_def month_days_def algebra_simps)
  next
    case m: False
    then have "month_days True ! (m - 1) = month_days False ! (m - 1) + 1" "59 \<le> month_days False ! (m - 1)"
      using month_cases [OF assms(1,2)] True by (auto simp: month_days_def)
    moreover have "month_lookup (month_days False ! (m - 1) + (int d - 1)) = Some (int m)"
      using assms m by (intro month_lookup_range) (auto simp: mdays_def)
    ultimately show ?thesis using True m assms(3) by (auto simp: GetMonthFromDays_def algebra_simps)
  qed
qed

end
