(* ===== verification/DateTime.thy ===== *)
theory DateTime
  imports Calendar
begin

text \<open>
  Properties of the calendar arithmetic of \<^verbatim>\<open>core/os/kernel.h\<close> and \<^verbatim>\<open>core/os/kernel.cpp\<close> defined in \<open>Calendar\<close>: the RFC 1123
  and DOS forms of a time, the parsing of dates, the order and the steps of packed dates and the tick counter.
\<close>

unbundle bit_operations_syntax

section \<open>Internet time format\<close>

lemma dec_one: "n < 10 \<Longrightarrow> dec n = [digit_char n]"
  by (subst dec.simps) simp

lemma dec_step: "10 \<le> n \<Longrightarrow> dec n = dec (n div 10) @ [digit_char (n mod 10)]"
  by (subst dec.simps) simp

lemma digit_char_0: "(48 :: byte) = digit_char 0"
  by (simp add: digit_char_def)

lemma print_d2:
  assumes "0 \<le> v" "v < 100"
  shows "print_d 2 v = [digit_char (nat v div 10), digit_char (nat v mod 10)]"
proof (cases "nat v < 10")
  case True
  then show ?thesis using assms digit_char_0 by (simp add: print_d_def pad0_def dec_one)
next
  case False
  then have "nat v div 10 < 10" using assms by auto
  then show ?thesis using assms False by (simp add: print_d_def pad0_def dec_step dec_one)
qed

lemma dec_pad: "n < 10 ^ Suc w \<Longrightarrow> pad0 (Suc w) (dec n) = (if w = 0 then [] else pad0 w (dec (n div 10))) @ [digit_char (n mod 10)]"
proof (cases "n < 10")
  case True
  assume "n < 10 ^ Suc w"
  show ?thesis using True digit_char_0 by (cases w) (simp_all add: pad0_def dec_one replicate_append_same)
next
  case False
  assume "n < 10 ^ Suc w"
  then have "w \<noteq> 0" using False by (cases w) auto
  then show ?thesis using False by (simp add: pad0_def dec_step)
qed

lemma print_d4:
  assumes "0 \<le> v" "v < 10000"
  shows "print_d 4 v = [digit_char (nat v div 1000), digit_char (nat v div 100 mod 10), digit_char (nat v div 10 mod 10), digit_char (nat v mod 10)]"
proof -
  define n where "n = nat v"
  have n: "n < 10000" using assms by (simp add: n_def)
  have "pad0 (Suc 3) (dec n) = pad0 (Suc 2) (dec (n div 10)) @ [digit_char (n mod 10)]"
    using n dec_pad [of n 3] by (simp add: numeral_3_eq_3 numeral_2_eq_2)
  also have "pad0 (Suc 2) (dec (n div 10)) = pad0 (Suc 1) (dec (n div 10 div 10)) @ [digit_char (n div 10 mod 10)]"
    using n dec_pad [of "n div 10" 2] by (simp add: numeral_2_eq_2)
  also have "pad0 (Suc 1) (dec (n div 10 div 10)) = pad0 (Suc 0) (dec (n div 10 div 10 div 10)) @ [digit_char (n div 10 div 10 mod 10)]"
    using n dec_pad [of "n div 10 div 10" 1] by simp
  also have "pad0 (Suc 0) (dec (n div 10 div 10 div 10)) = [digit_char (n div 10 div 10 div 10)]"
    using n by (simp add: pad0_def dec_one)
  finally have "pad0 4 (dec n) = [digit_char (n div 1000), digit_char (n div 100 mod 10), digit_char (n div 10 mod 10), digit_char (n mod 10)]"
    by (simp add: div_mult2_eq [symmetric])
  then show ?thesis using assms(1) by (simp add: print_d_def n_def)
qed

text \<open>Names read back: the month is itself, the day of the week one more.\<close>

definition month_back :: "int \<Rightarrow> bool" where
  "month_back m = (case GetMonthName m of Some [a, b, c] \<Rightarrow> ParseMonthName a b c = Some m | _ \<Rightarrow> False)"

definition weekday_back :: "int \<Rightarrow> bool" where
  "weekday_back w = (case GetDayOfWeekName w of Some [a, b, c] \<Rightarrow> ParseWeekdayName a b c = Some (w + 1) | _ \<Rightarrow> False)"

lemma month_back_all: "list_all month_back [1..12]"
  by code_simp

lemma weekday_back_all: "list_all weekday_back [0..6]"
  by code_simp

lemma GetMonthName_back:
  "1 \<le> m \<Longrightarrow> m \<le> 12 \<Longrightarrow> \<exists>a b c. GetMonthName m = Some [a, b, c] \<and> ParseMonthName a b c = Some m"
proof -
  assume "1 \<le> m" "m \<le> 12"
  then have "month_back m" using month_back_all by (simp add: list_all_iff)
  then show ?thesis unfolding month_back_def by (auto split: option.splits list.splits)
qed

lemma GetDayOfWeekName_back:
  "0 \<le> w \<Longrightarrow> w < 7 \<Longrightarrow> \<exists>a b c. GetDayOfWeekName w = Some [a, b, c] \<and> ParseWeekdayName a b c = Some (w + 1)"
proof -
  assume "0 \<le> w" "w < 7"
  then have "weekday_back w" using weekday_back_all by (simp add: list_all_iff)
  then show ?thesis unfolding weekday_back_def by (auto split: option.splits list.splits)
qed

lemma two_digits: "0 \<le> v \<Longrightarrow> v < 100 \<Longrightarrow>
  (c_int (digit_char (nat v div 10)) - 48) * 10 + (c_int (digit_char (nat v mod 10)) - 48) = v"
proof -
  assume "0 \<le> v" "v < 100"
  then have "nat v div 10 < 10" "nat v mod 10 < 10" by auto
  moreover have "int (nat v div 10) * 10 + int (nat v mod 10) = v"
    using \<open>0 \<le> v\<close> by (simp add: zdiv_int zmod_int)
  ultimately show ?thesis by simp
qed

lemma four_digits_sum:
  "n = a * 10 + r \<Longrightarrow> a = b * 10 + q \<Longrightarrow> b = c * 10 + p \<Longrightarrow> c * 1000 + p * 100 + q * 10 + r = (n :: nat)"
  by simp

lemma four_digits: "0 \<le> v \<Longrightarrow> v < 10000 \<Longrightarrow>
  (c_int (digit_char (nat v div 1000)) - 48) * 1000 + (c_int (digit_char (nat v div 100 mod 10)) - 48) * 100
    + (c_int (digit_char (nat v div 10 mod 10)) - 48) * 10 + (c_int (digit_char (nat v mod 10)) - 48) = v"
proof -
  assume v: "0 \<le> v" "v < 10000"
  define n where "n = nat v"
  have "n div 1000 < 10" "n div 100 mod 10 < 10" "n div 10 mod 10 < 10" "n mod 10 < 10" using v by (auto simp: n_def)
  moreover have "n div 1000 * 1000 + n div 100 mod 10 * 100 + n div 10 mod 10 * 10 + n mod 10 = n"
  proof -
    define a b c where "a = n div 10" and "b = a div 10" and "c = b div 10"
    have "n = a * 10 + n mod 10" "a = b * 10 + a mod 10" "b = c * 10 + b mod 10" by (simp_all add: a_def b_def c_def)
    moreover have "n div 100 = b" "n div 1000 = c" by (simp_all add: a_def b_def c_def div_mult2_eq [symmetric])
    ultimately show ?thesis unfolding a_def [symmetric] by (metis (no_types) four_digits_sum)
  qed
  then have "int (n div 1000) * 1000 + int (n div 100 mod 10) * 100 + int (n div 10 mod 10) * 10 + int (n mod 10) = v"
    using v(1) by (simp only: n_def of_nat_add of_nat_mult of_nat_numeral nat_0_le flip: of_nat_eq_iff [where 'a = int])
  ultimately show ?thesis by (simp flip: n_def)
qed

lemma FromInternetTimeFormat_list:
  "FromInternetTimeFormat [w0, w1, w2, k0, k1, d0, d1, k2, a, b, c, k3, y0, y1, y2, y3, k4, h0, h1, k5, m0, m1, k6, s0, s1, 32, 71, 77, 84] =
    map_option (\<lambda>mon. \<lparr> Year = (c_int y0 - 48) * 1000 + (c_int y1 - 48) * 100 + (c_int y2 - 48) * 10 + (c_int y3 - 48), Month = mon,
       Day = (c_int d0 - 48) * 10 + (c_int d1 - 48), DayOfWeek = 0, Hour = (c_int h0 - 48) * 10 + (c_int h1 - 48),
       Minute = (c_int m0 - 48) * 10 + (c_int m1 - 48), Second = (c_int s0 - 48) * 10 + (c_int s1 - 48), MillSecond = 0 \<rparr>) (ParseMonthName a b c)"
proof -
  have "(le_load [32, 71, 77, 84] :: u32) = 0x544d4720" by code_simp
  then show ?thesis by (cases "ParseMonthName a b c") (simp_all add: FromInternetTimeFormat_def)
qed

lemma FromInternet_ToInternet:
  assumes "0 \<le> Year f" "Year f < 10000" "1 \<le> Month f" "Month f \<le> 12" "0 \<le> Day f" "Day f < 100"
    "0 \<le> DayOfWeek f" "DayOfWeek f < 7" "0 \<le> Hour f" "Hour f < 100" "0 \<le> Minute f" "Minute f < 100" "0 \<le> Second f" "Second f < 100"
  shows "\<exists>s. ToInternetTimeFormat f = Some s \<and> length s = 29 \<and> FromInternetTimeFormat s = Some (f \<lparr> DayOfWeek := 0, MillSecond := 0 \<rparr>)"
proof -
  obtain a b c where m: "GetMonthName (Month f) = Some [a, b, c]" "ParseMonthName a b c = Some (Month f)"
    using GetMonthName_back [OF assms(3,4)] by blast
  obtain w0 w1 w2 where w: "GetDayOfWeekName (DayOfWeek f) = Some [w0, w1, w2]"
    using GetDayOfWeekName_back [OF assms(7,8)] by blast
  define s where "s = [w0, w1, w2, 44, 32] @ print_d 2 (Day f) @ [32, a, b, c, 32] @ print_d 4 (Year f) @ [32]
               @ print_d 2 (Hour f) @ [58] @ print_d 2 (Minute f) @ [58] @ print_d 2 (Second f) @ [32, 71, 77, 84]"
  have t: "ToInternetTimeFormat f = Some s" by (simp add: ToInternetTimeFormat_def m w s_def)
  note pr = print_d2 [OF assms(5,6)] print_d4 [OF assms(1,2)] print_d2 [OF assms(9,10)] print_d2 [OF assms(11,12)] print_d2 [OF assms(13,14)]
  have "FromInternetTimeFormat s = Some (f \<lparr> DayOfWeek := 0, MillSecond := 0 \<rparr>)"
    unfolding s_def pr append.simps FromInternetTimeFormat_list m(2)
      two_digits [OF assms(5,6)] four_digits [OF assms(1,2)] two_digits [OF assms(9,10)] two_digits [OF assms(11,12)] two_digits [OF assms(13,14)]
    by simp
  moreover have "length s = 29" unfolding s_def pr by simp
  ultimately show ?thesis using t by blast
qed

section \<open>Names of months in other date texts\<close>

lemma SolveMonthLetter_le: "l \<le> 127 \<Longrightarrow> SolveMonthLetter l \<le> 95"
  by (simp add: SolveMonthLetter_def)

lemma name_codes: "list_all (\<lambda>s. name_code s > 969595) [''jan'', ''feb'', ''mar'', ''apr'', ''may'', ''jun'', ''jul'', ''aug'', ''sep'', ''oct'', ''nov'', ''dec'']"
  by code_simp

lemma SolveMonth_zero: "SolveMonth seg = 0"
proof (cases "length seg < 3")
  case True
  then show ?thesis by (simp add: SolveMonth_def)
next
  case False
  have "SolveMonthLetter (c_int (seg ! i)) \<le> 95" for i using sint_lt [of "seg ! i"] by (intro SolveMonthLetter_le) simp
  then have "SolveMonthLetter (c_int (seg ! 0)) * 10000 + SolveMonthLetter (c_int (seg ! 1)) * 100 + SolveMonthLetter (c_int (seg ! 2)) \<le> 959595"
    by (smt (verit))
  then show ?thesis using name_codes False by (auto simp: SolveMonth_def Let_def split: option.splits)
qed

section \<open>Tick counts and DOS times\<close>

lemma TimeLapse_mod: "TimeLapse t u = sint (u - t)"
proof (cases "t \<le> u")
  case False
  have "(4294967296 :: u32) = 0" by code_simp
  then have "word_of_int (0x100000000 + uint u - uint t) = u - t" by simp
  then show ?thesis using False by (simp only: TimeLapse_def if_False)
qed (simp add: TimeLapse_def)



lemma or_push_add: "0 \<le> a \<Longrightarrow> a < 2 ^ n \<Longrightarrow> a OR push_bit n b = a + b * 2 ^ n" for a b :: int
proof -
  assume "0 \<le> a" "a < 2 ^ n"
  then have "a = take_bit n a" by (simp add: take_bit_int_eq_self)
  then have "a AND push_bit n b = 0" by (metis (no_types, lifting) bit_and_iff bit_eqI bit_push_bit_iff bit_take_bit_iff bit_0_eq bot_apply bot_bool_def linorder_not_le)
  then show ?thesis by (simp add: disjunctive_add_eq_or push_bit_eq_mult flip: disjunctive_add_eq_or)
qed

lemma uint16_fields:
  assumes "0 \<le> a" "a < 32" "0 \<le> b" "b < 2 ^ k" "0 \<le> c" "c < 2 ^ (11 - k)" "k \<le> 11"
  shows "uint (word_of_int (a OR push_bit 5 b OR push_bit (5 + k) c) :: u16) = a + b * 32 + c * 2 ^ (5 + k)"
proof -
  have "b * 32 \<le> (2 ^ k - 1) * 32" using assms(4) by simp
  then have 1: "a + b * 32 < 2 ^ (5 + k)" using assms(2) by (simp add: power_add)
  have "c * 2 ^ (5 + k) \<le> (2 ^ (11 - k) - 1) * 2 ^ (5 + k)" using assms(6) by simp
  also have "\<dots> = 2 ^ 16 - 2 ^ (5 + k)" using assms(7) by (simp add: left_diff_distrib flip: power_add)
  finally have "a + b * 32 + c * 2 ^ (5 + k) < 2 ^ 16" using 1 by linarith
  moreover have "a OR push_bit 5 b OR push_bit (5 + k) c = a + b * 32 + c * 2 ^ (5 + k)"
  proof -
    have "a OR push_bit 5 b = a + b * 32" using or_push_add [of a 5 b] assms by simp
    moreover have "(a + b * 32) OR push_bit (5 + k) c = a + b * 32 + c * 2 ^ (5 + k)" using 1 assms by (intro or_push_add) simp_all
    ultimately show ?thesis by (metis or.assoc)
  qed
  moreover have "uint (word_of_int N :: u16) = N" if "0 \<le> N" "N < 2 ^ 16" for N
    using that by (simp add: unsigned_of_int take_bit_int_eq_self)
  moreover have "0 \<le> a + b * 32 + c * 2 ^ (5 + k)" using assms(1,3,5) by simp
  ultimately show ?thesis by (simp only:)
qed


lemma uint_mask: "uint (drop_bit n w AND mask k) = uint w div 2 ^ n mod 2 ^ k" "uint (w AND mask k) = uint w mod 2 ^ k"
  "uint (drop_bit n w) = uint w div 2 ^ n" for w :: u16
  unfolding uint_int_unat unat_and_mask unat_drop_bit_div by (simp_all only: zdiv_int zmod_int of_nat_power of_nat_numeral)

lemma SetDosTime_fields:
  assumes "uint d = a + b * 32 + c * 512" "0 \<le> a" "a < 32" "0 \<le> b" "b < 16"
    "uint t = p + q * 32 + r * 2048" "0 \<le> p" "p < 32" "0 \<le> q" "q < 64"
  shows "SetDosTime d t = SetDateTime (c + 1980) b a r q p 0"
proof -
  have m: "(0xf :: u16) = mask 4" "(0x1f :: u16) = mask 5" "(0x3f :: u16) = mask 6" by (simp_all add: mask_numeral)
  have f: "(x + y * k) div k = y" "(x + y * k) mod k = x" if "0 \<le> x" "x < k" for x y k :: int
    using that by (simp_all add: div_pos_pos_trivial mod_pos_pos_trivial)
  have e1: "a + b * 32 + c * 512 = a + (b + c * 16) * 32" and e2: "p + q * 32 + r * 2048 = p + (q + r * 64) * 32" by simp_all
  have "(a + b * 32 + c * 512) div 512 = c" using f(1) [of "a + b * 32" 512 c] assms(2-5) by simp
  moreover have "(a + b * 32 + c * 512) div 32 mod 16 = b" "(a + b * 32 + c * 512) mod 32 = a"
    by (simp_all only: e1 f [OF assms(2,3)] f(2) [OF assms(4,5)])
  moreover have "(p + q * 32 + r * 2048) div 2048 = r" using f(1) [of "p + q * 32" 2048 r] assms(7-10) by simp
  moreover have "(p + q * 32 + r * 2048) div 32 mod 64 = q" "(p + q * 32 + r * 2048) mod 32 = p"
    by (simp_all only: e2 f [OF assms(7,8)] f(2) [OF assms(9,10)])
  moreover have n: "(2 :: int) ^ 9 = 512" "(2 :: int) ^ 5 = 32" "(2 :: int) ^ 4 = 16" "(2 :: int) ^ 11 = 2048" "(2 :: int) ^ 6 = 64" by simp_all
  ultimately show ?thesis by (simp only: SetDosTime_def m uint_mask assms(1) assms(6) n)
qed

lemma SetDosTime_GetDos:
  assumes "1980 \<le> Year f" "Year f < 2108" "1 \<le> Month f" "Month f \<le> 12" "1 \<le> Day f" "Day f \<le> 31"
    "0 \<le> Hour f" "Hour f < 24" "0 \<le> Minute f" "Minute f < 60" "0 \<le> Second f" "Second f < 60" "MillSecond f = 0"
  shows "SetDosTime (GetDosDate f) (GetDosTime f) = f \<lparr> DayOfWeek := 0, Second := Second f div 2 \<rparr>"
proof -
  have "uint (GetDosDate f) = Day f + Month f * 32 + (Year f - 1980) * 512"
    using uint16_fields [of "Day f" "Month f" 4 "Year f - 1980"] assms by (simp add: GetDosDate_def)
  moreover have "(500 :: int) sdiv 1000 = 0" by code_simp
  then have "uint (GetDosTime f) = Second f div 2 + Minute f * 32 + Hour f * 2048"
    using uint16_fields [of "Second f div 2" "Minute f" 6 "Hour f"] assms by (simp add: GetDosTime_def drop_bit_eq_div)
  moreover have "0 \<le> Second f div 2" "Second f div 2 < 32" using assms(11,12) by simp_all
  ultimately have "SetDosTime (GetDosDate f) (GetDosTime f) =
      SetDateTime (Year f - 1980 + 1980) (Month f) (Day f) (Hour f) (Minute f) (Second f div 2) 0"
    using assms by (intro SetDosTime_fields) simp_all
  then show ?thesis using assms(13) by (simp add: SetDateTime_def)
qed

lemma digit_less: "b < k \<Longrightarrow> b' < k \<Longrightarrow> a * k + b < a' * k + b' \<longleftrightarrow> a < a' \<or> a = a' \<and> b < b'" for a :: nat
proof -
  assume b: "b < k" "b' < k"
  have 1: "x * k + p < y * k + q" if "x < y" "p < k" for x y p q
  proof -
    have "Suc x * k \<le> y * k" using that(1) by (intro mult_right_mono) simp_all
    then show ?thesis using that(2) by simp
  qed
  show ?thesis using b 1 [of a a' b b'] 1 [of a' a b' b] by (cases a a' rule: linorder_cases) auto
qed

lemma mk_less_iff:
  assumes "valid_date y m d" "valid_date y' m' d'"
  shows "mk y m d < mk y' m' d' \<longleftrightarrow> y < y' \<or> y = y' \<and> (m < m' \<or> m = m' \<and> d < d')"
proof -
  have b: "y < 65536" "m < 256" "d < 256" "y' < 65536" "m' < 256" "d' < 256"
    using valid_date_bounds [OF assms(1)] valid_date_bounds [OF assms(2)] by auto
  have "mk y m d < mk y' m' d' \<longleftrightarrow> y * 65536 + m * 256 + d < y' * 65536 + m' * 256 + d'"
    unfolding word_less_nat_alt unat_mk [OF b(1-3)] unat_mk [OF b(4-6)] ..
  also have "\<dots> \<longleftrightarrow> y < y' \<or> y = y' \<and> m * 256 + d < m' * 256 + d'"
    using digit_less [of "m * 256 + d" 65536 "m' * 256 + d'" y y'] b by (simp add: add.assoc)
  also have "\<dots> \<longleftrightarrow> y < y' \<or> y = y' \<and> (m < m' \<or> m = m' \<and> d < d')" using digit_less [of d 256 d'] b by simp
  finally show ?thesis .
qed

lemma NextDay_least:
  assumes "Date32_valid d" "day_number d \<noteq> daynum 65535 12 31" "NextDay d = Some n" "Date32_valid e" "d < e"
  shows "\<not> e < n"
proof -
  obtain y m dd where d: "d = mk y m dd" "valid_date y m dd" "GetYear d = int y" by (rule Date32_valid_mk [OF assms(1)])
  obtain y2 m2 d2 where e: "e = mk y2 m2 d2" "valid_date y2 m2 d2" by (rule Date32_valid_mk [OF assms(4)])
  obtain y' m' d' where n: "next_date y m dd = (y', m', d')" by (metis prod_cases3)
  have "(y, m, dd) \<noteq> (65535, 12, 31)" using assms(2) day_number_mk [OF d(2)] d(1) by auto
  from valid_next [OF d(2) this] have v': "valid_date y' m' d'" using n by simp
  have "n = mk y' m' d'" using NextDay_mk [OF d(2)] n d(1) assms(3) by simp
  then show ?thesis using assms(5) n d(2) e(2) unfolding d(1) e(1)
    by (auto simp: mk_less_iff [OF d(2) e(2)] mk_less_iff [OF e(2) v'] next_date_def valid_date_def split: if_splits)
qed

section \<open>Properties\<close>

text \<open>C17: For an existing date and a number of days that does not lead beyond 31 December 65535, the last date the packed form can hold, \<^verbatim>\<open>Date32::operator+=\<close> gives the existing date
  whose day number in the Gregorian calendar, and also the one that \<^verbatim>\<open>DaysSince1970\<close> and \<^verbatim>\<open>DaysSinceJan1\<close> give, is the old one plus that number, and
  \<^verbatim>\<open>operator-=\<close> with the same number gives the date back: month ends, leap days and year ends are all stepped over correctly.\<close>

theorem Date32_plus_minus:
  assumes "Date32_valid d" "0 \<le> n" "day_number d + n \<le> daynum 65535 12 31"
  shows "\<exists>e. Date32_plus n d = Some e \<and> Date32_valid e \<and> day_number e = day_number d + n \<and>
    Date32_days e = map_option ((+) (word_of_int n)) (Date32_days d) \<and> Date32_plus (- n) e = Some d"
proof -
  have "day_number d + int (nat n) \<le> daynum 65535 12 31" using assms by simp
  then obtain e where e: "days_forward (nat n) d = Some e" "Date32_valid e" "day_number e = day_number d + int (nat n)"
      "Date32_days e = map_option ((+) (of_nat (nat n))) (Date32_days d)" "days_back (nat n) e = Some d"
    using days_forward_back [OF assms(1)] by blast
  then have "Date32_plus n d = Some e" "Date32_plus (- n) e = Some d" using assms(2) by (auto simp: Date32_plus_def)
  moreover have "Date32_days e = map_option ((+) (word_of_int n)) (Date32_days d)" using e(4) assms(2) by (metis of_int_of_nat_eq int_nat_eq)
  ultimately show ?thesis using e(2,3) assms(2) by simp
qed

theorem Date32_plus_minus_witness:
  "\<exists>e. Date32_plus 70000 (SetDate 2000 1 1) = Some e \<and> Date32_valid e \<and> day_number e = 80957 \<and>
    Date32_days e = map_option ((+) (word_of_int 70000)) (Date32_days (SetDate 2000 1 1)) \<and>
    Date32_plus (- 70000) e = Some (SetDate 2000 1 1)"
proof -
  have "Date32_valid (SetDate 2000 1 1)" "GetYear (SetDate 2000 1 1) = 2000" "GetMonth (SetDate 2000 1 1) = 1" "GetDay (SetDate 2000 1 1) = 1"
    "IsLeapYear 2000" "\<not> IsLeapYear 65535" by code_simp+
  moreover from this have "day_number (SetDate 2000 1 1) = 10957" "10957 + 70000 \<le> daynum 65535 12 31" by (simp_all add: day_number_def daynum_def month_days_def)
  ultimately show ?thesis using Date32_plus_minus [of "SetDate 2000 1 1" 70000] by simp
qed

text \<open>\<^verbatim>\<open>Date32::NextDay\<close> gives the next larger existing date, except for the last one: its packed value is above that of the date, no existing date lies between the two, and
  \<^verbatim>\<open>LastDay\<close> undoes the step, so the integer order that the comparison operators use is the calendar order.\<close>

theorem Date32_NextDay_order:
  assumes "Date32_valid d" "day_number d \<noteq> daynum 65535 12 31"
  shows "\<exists>n. NextDay d = Some n \<and> Date32_valid n \<and> Date32_less d n \<and> LastDay n = Some d \<and>
    (\<forall>e. Date32_valid e \<and> Date32_less d e \<longrightarrow> \<not> Date32_less e n)"
  using NextDay_step [OF assms] NextDay_least [OF assms] by (fastforce simp: Date32_less_def)

theorem Date32_NextDay_order_witness:
  "\<exists>n. NextDay (SetDate 1999 12 31) = Some n \<and> Date32_valid n \<and> Date32_less (SetDate 1999 12 31) n \<and> LastDay n = Some (SetDate 1999 12 31)"
proof -
  have "Date32_valid (SetDate 1999 12 31)" "GetYear (SetDate 1999 12 31) = 1999" "GetMonth (SetDate 1999 12 31) = 12" "GetDay (SetDate 1999 12 31) = 31"
    "\<not> IsLeapYear 1999" "\<not> IsLeapYear 65535" by code_simp+
  moreover from this have "day_number (SetDate 1999 12 31) \<noteq> daynum 65535 12 31" by (simp add: day_number_def daynum_def month_days_def)
  ultimately show ?thesis using Date32_NextDay_order [of "SetDate 1999 12 31"] by blast
qed

text \<open>From 1970 on \<^verbatim>\<open>Timestamp::GetDayOfWeek\<close> is the day number counted from Thursday 1 January 1970 modulo 7, with 0
  for Sunday, except on the first three days of 1970: there the unsigned subtraction of 3 wraps and the result is three days early.\<close>

theorem GetDayOfWeek_days:
  assumes "Date32_valid d" "1970 \<le> GetYear d" "Date32_days d = Some n"
  shows "GetDayOfWeek (GetYear d) (GetMonth d) (GetDay d) = Some (if n < 3 then n + 1 else (n + 4) mod 7)"
proof -
  obtain y m dd where d: "d = mk y m dd" "valid_date y m dd" "GetYear d = int y" by (rule Date32_valid_mk [OF assms(1)])
  have y: "1970 \<le> y" using assms(2) d(3) by simp
  define N where "N = daynum y m dd"
  have N: "0 \<le> N" "N < 2 ^ 31" using daynum_range [OF d(2) y] by (simp_all add: N_def)
  have n: "n = word_of_int N" using assms(3) Date32_days_mk [OF d(2)] d(1) by (simp add: N_def)
  have "uint n = N" "uint (n + 4) = N + 4" using N uint_word_small [of N] uint_word_small [of "N + 4"] by (simp_all add: n)
  then have "n < 3 \<longleftrightarrow> N < 3" "uint ((n + 4) mod 7) = (N + 4) mod 7"
    by (simp_all add: word_less_alt uint_mod)
  then have "n < 3 \<longleftrightarrow> N < 3" "(n + 4) mod 7 = word_of_int ((N + 4) mod 7)" by (simp, metis word_of_int_uint)
  then show ?thesis using GetDayOfWeek_daynum [OF d(2) y] valid_date_bounds [OF d(2)] d(1) n by (simp add: fields_mk N_def)
qed

theorem GetDayOfWeek_days_witness:
  "GetDayOfWeek (GetYear (SetDate 2000 2 29)) (GetMonth (SetDate 2000 2 29)) (GetDay (SetDate 2000 2 29)) = Some 2"
proof -
  have "Date32_valid (SetDate 2000 2 29)" "1970 \<le> GetYear (SetDate 2000 2 29)" "Date32_days (SetDate 2000 2 29) = Some 11016" by code_simp+
  moreover have "\<not> (11016 :: u32) < 3" "(11016 + 4) mod 7 = (2 :: u32)" by code_simp+
  ultimately show ?thesis using GetDayOfWeek_days [of "SetDate 2000 2 29" 11016] by (simp only: if_False)
qed

text \<open>A day of the year \<^verbatim>\<open>DaysSinceJan1\<close> is led back to its month by \<^verbatim>\<open>GetMonthFromDays\<close>, except for 29
  February, which is given to March.\<close>

theorem GetMonthFromDays_DaysSinceJan1:
  assumes "Date32_valid d" "DaysSinceJan1 (GetYear d) (GetMonth d) (GetDay d) = Some n"
  shows "GetMonthFromDays (uint n) (GetYear d) = Some (if GetMonth d = 2 \<and> GetDay d = 29 then 3 else GetMonth d)"
proof -
  obtain y m dd where d: "d = mk y m dd" "valid_date y m dd" "GetYear d = int y" by (rule Date32_valid_mk [OF assms(1)])
  have b: "y < 65536" "m < 256" "dd < 256" using valid_date_bounds [OF d(2)] by auto
  have m: "1 \<le> m" "m \<le> 12" "1 \<le> dd" "dd \<le> mdays y m" using d(2) by (auto simp: valid_date_def)
  have "mdays y m \<le> 31" using mdays_bounds [OF m(1,2), of y] by simp
  then have "uint n = month_days (IsLeapYear (int y)) ! (m - 1) + int dd - 1"
    using assms(2) DaysSinceJan1_month [OF m(1,2), of "int y" "int dd"] month_days_nonneg [OF m(1,2), of "IsLeapYear (int y)"] m(3,4)
    unfolding d(1) fields_mk [OF b] by (auto intro!: uint_word_small simp del: of_int_add of_int_diff)
  moreover have "IsLeapYear (int y) \<and> m = 2 \<and> dd = 29 \<longleftrightarrow> m = 2 \<and> dd = 29" using m(4) by (auto simp: mdays_def split: if_splits)
  ultimately show ?thesis using GetMonthFromDays_month [OF m] unfolding d(1) fields_mk [OF b] by simp
qed

theorem GetMonthFromDays_DaysSinceJan1_witness:
  "GetMonthFromDays (uint (59 :: u32)) (GetYear (SetDate 2000 2 29)) = Some 3"
proof -
  have "Date32_valid (SetDate 2000 2 29)"
    "DaysSinceJan1 (GetYear (SetDate 2000 2 29)) (GetMonth (SetDate 2000 2 29)) (GetDay (SetDate 2000 2 29)) = Some 59"
    "GetMonth (SetDate 2000 2 29) = 2 \<and> GetDay (SetDate 2000 2 29) = 29" by code_simp+
  then show ?thesis using GetMonthFromDays_DaysSinceJan1 [of "SetDate 2000 2 29" 59] by simp
qed

text \<open>C29: Fields of a time within the ranges that the RFC 1123 form has digits for are printed in 29 characters, and
  \<^verbatim>\<open>FromInternetTimeFormat\<close> reads every field back but the day of the week and the milliseconds, which the
  form does not carry and the code sets to 0.\<close>

theorem InternetTimeFormat_roundtrip:
  assumes "0 \<le> Year f" "Year f < 10000" "1 \<le> Month f" "Month f \<le> 12" "0 \<le> Day f" "Day f < 100" "0 \<le> DayOfWeek f" "DayOfWeek f < 7"
    "0 \<le> Hour f" "Hour f < 100" "0 \<le> Minute f" "Minute f < 100" "0 \<le> Second f" "Second f < 100"
  shows "\<exists>s. ToInternetTimeFormat f = Some s \<and> length s = 29 \<and> FromInternetTimeFormat s = Some (f \<lparr> DayOfWeek := 0, MillSecond := 0 \<rparr>)"
  by (rule FromInternet_ToInternet [OF assms])

definition example_time :: Fields where
  "example_time = (SetDateTime 2015 3 20 7 5 59 250) \<lparr> DayOfWeek := 5 \<rparr>"

theorem InternetTimeFormat_roundtrip_witness:
  "\<exists>s. ToInternetTimeFormat example_time = Some s \<and> length s = 29 \<and>
    FromInternetTimeFormat s = Some (example_time \<lparr> DayOfWeek := 0, MillSecond := 0 \<rparr>)"
  using InternetTimeFormat_roundtrip [of example_time] by (simp add: example_time_def SetDateTime_def)

text \<open>\<^verbatim>\<open>_details::SolveDate\<close> finds no date in which one of the three parts is not a number, whatever that part is: the
  letters are made upper case and compared with lower-case names, so that no month name is ever recognised. With three
  non-zero numbers it accepts year-month-day and month-day-year exactly when the month and the day are in range.\<close>

theorem SolveDate_no_names:
  "SolveDate (s0, s1, s2) (n0, n1, n2) =
    (if n0 = 0 \<or> n1 = 0 \<or> n2 = 0 then None
     else if n0 > 1000 then (if n1 \<in> {1..12} \<and> n2 \<in> {1..31} then Some (n0, n1, n2) else None)
     else if n2 > 1000 then (if n0 \<in> {1..12} \<and> n1 \<in> {1..31} then Some (n2, n0, n1) else None)
     else None)"
  by (simp add: SolveDate_def SolveMonth_zero)

text \<open>The DOS form of a time keeps the date, the hour and the minute, but reading it back gives half the seconds.\<close>

theorem DosTime_halves_seconds:
  assumes "1980 \<le> Year f" "Year f < 2108" "1 \<le> Month f" "Month f \<le> 12" "1 \<le> Day f" "Day f \<le> 31"
    "0 \<le> Hour f" "Hour f < 24" "0 \<le> Minute f" "Minute f < 60" "0 \<le> Second f" "Second f < 60" "MillSecond f = 0"
  shows "SetDosTime (GetDosDate f) (GetDosTime f) = f \<lparr> DayOfWeek := 0, Second := Second f div 2 \<rparr>"
  by (rule SetDosTime_GetDos [OF assms])

theorem DosTime_halves_seconds_witness:
  "SetDosTime (GetDosDate (SetDateTime 2015 3 20 7 5 58 0)) (GetDosTime (SetDateTime 2015 3 20 7 5 58 0)) = SetDateTime 2015 3 20 7 5 29 0"
  using DosTime_halves_seconds [of "SetDateTime 2015 3 20 7 5 58 0"] by (simp add: SetDateTime_def)

text \<open>\<^verbatim>\<open>TickCount::TimeLapse\<close> is the number of milliseconds from one tick to a later one, also when the 32-bit counter wraps
  between them, as long as less than \<open>2^31\<close> milliseconds have passed.\<close>

theorem TimeLapse_wraps: "0 \<le> n \<Longrightarrow> n < 2 ^ 31 \<Longrightarrow> TimeLapse t (t + word_of_int n) = n"
  by (simp add: TimeLapse_mod signed_of_int signed_take_bit_int_eq_self)

theorem TimeLapse_wraps_witness: "TimeLapse 0xffffff00 (0xffffff00 + word_of_int 1000) = 1000"
  using TimeLapse_wraps [where n = 1000 and t = "0xffffff00"] by simp

end
