(* ===== verification/StrView.thy ===== *)
theory StrView
  imports CharSet Search
begin

text \<open>
  The reading operations of \<^verbatim>\<open>rt::String_Base\<close> and \<^verbatim>\<open>rt::String_Ref\<close> of \<^verbatim>\<open>core/rt/string_type.h\<close>: comparison, search, parts,
  trimming, file names and URLs, lines, tokens and fields. A text is the list of its \<^verbatim>\<open>GetLength()\<close> characters; a
  part of a text that the code returns is its list of characters, or the pair of its offsets where a later call
  continues at its end. An operation that reads behind the last character takes the bytes from \<^verbatim>\<open>Begin()\<close> on and the length, and is
  \<open>None\<close> when it reads past those bytes. Lengths are below \<open>2^63\<close>.
\<close>

section \<open>Definitions\<close>

subsection \<open>Comparison and parts\<close>

text \<open>\<^verbatim>\<open>IsEmpty()\<close> is \<^verbatim>\<open>_len<2\<close>, that is no character.\<close>

(*@ core/rt/string_type.h 235-239 rt::String_Base::operator< *)
definition Str_less :: "bytes \<Rightarrow> bytes \<Rightarrow> bool" where
  "Str_less s x =
    (let n = min (length s) (length x); ret = memcmp (take n s) (take n x) in
     ret < 0 \<or> ret = 0 \<and> length s < length x)"

(*@ core/rt/string_type.h 349-352 rt::String_Base::operator== *)
definition Str_equal :: "bytes \<Rightarrow> bytes \<Rightarrow> bool" where
  "Str_equal s x = (if s = [] \<and> x = [] then True else length s = length x \<and> memcmp s x = 0)"

(*@ core/rt/string_type.h 245-245 rt::String_Base::SubStrTail *)
definition SubStrTail :: "nat \<Rightarrow> bytes \<Rightarrow> bytes" where
  "SubStrTail len s = (if len > length s then s else drop (length s - len) s)"

(*@ core/rt/string_type.h 246-246 rt::String_Base::SubStrHead *)
definition SubStrHead :: "nat \<Rightarrow> bytes \<Rightarrow> bytes" where
  "SubStrHead len s = take (min len (length s)) s"

(*@ core/rt/string_type.h 247-247 rt::String_Base::SubStr *)
definition SubStr :: "nat \<Rightarrow> nat \<Rightarrow> bytes \<Rightarrow> bytes" where
  "SubStr start len s = (if start < length s then take (min len (length s - start)) (drop start s) else [])"

(*@ core/rt/string_type.h 248-248 rt::String_Base::SubStr(SIZE_T) *)
definition SubStr_from :: "nat \<Rightarrow> bytes \<Rightarrow> bytes" where
  "SubStr_from start s = (if start < length s then drop start s else [])"

(*@ core/rt/string_type.h 249-252 rt::String_Base::StartsWith *)
definition StartsWith :: "bytes \<Rightarrow> bytes \<Rightarrow> bool" where
  "StartsWith prefix s \<longleftrightarrow> length s \<ge> length prefix \<and> Str_equal (SubStr 0 (length prefix) s) prefix"

(*@ core/rt/string_type.h 253-256 rt::String_Base::EndsWith *)
definition EndsWith :: "bytes \<Rightarrow> bytes \<Rightarrow> bool" where
  "EndsWith suffix s \<longleftrightarrow> length s \<ge> length suffix \<and> Str_equal (SubStr (length s - length suffix) (length suffix) s) suffix"

subsection \<open>Search\<close>

text \<open>The loops over the characters, upwards from an offset and downwards from a length.\<close>

function find_from :: "(byte \<Rightarrow> bool) \<Rightarrow> bytes \<Rightarrow> nat \<Rightarrow> int" where
  "find_from P s i = (if i < length s then (if P (s ! i) then int i else find_from P s (i + 1)) else - 1)"
  by pat_completeness auto
termination by (relation "measure (\<lambda>(P, s, i). length s - i)") auto

declare find_from.simps [simp del]

fun find_back :: "(byte \<Rightarrow> bool) \<Rightarrow> bytes \<Rightarrow> nat \<Rightarrow> nat option" where
  "find_back P s 0 = None"
| "find_back P s (Suc l) = (if P (s ! l) then Some l else find_back P s l)"

(*@ core/rt/string_type.h 283-287 rt::String_Base::FindCharacter *)
definition FindCharacter :: "byte \<Rightarrow> bytes \<Rightarrow> nat \<Rightarrow> int" where
  "FindCharacter c s start_offset = find_from (\<lambda>x. x = c) s start_offset"

(*@ core/rt/string_type.h 288-292 rt::String_Base::FindCharacter(CharacterSet) *)
definition FindCharacter_set :: "charset \<Rightarrow> bytes \<Rightarrow> nat \<Rightarrow> int" where
  "FindCharacter_set seps s start_offset = find_from (Has seps) s start_offset"

(*@ core/rt/string_type.h 293-298 rt::String_Base::FindCharacterReverse *)
fun FindCharacterReverse_loop :: "byte \<Rightarrow> bytes \<Rightarrow> nat \<Rightarrow> nat \<Rightarrow> int" where
  "FindCharacterReverse_loop c s start_offset 0 = - 1"
| "FindCharacterReverse_loop c s start_offset (Suc i) =
    (if Suc i > start_offset then (if s ! i = c then int i else FindCharacterReverse_loop c s start_offset i) else - 1)"

definition FindCharacterReverse :: "byte \<Rightarrow> bytes \<Rightarrow> nat \<Rightarrow> int" where
  "FindCharacterReverse c s start_offset = FindCharacterReverse_loop c s start_offset (length s)"

lemma find_from_bounds: "find_from P s i = - 1 \<or> (i \<le> nat (find_from P s i) \<and> nat (find_from P s i) < length s \<and> 0 \<le> find_from P s i)"
proof (induction P s i rule: find_from.induct)
  case (1 P s i)
  then show ?case by (subst (1 2 3 4) find_from.simps) auto
qed

(*@ core/rt/string_type.h 262-269 rt::String_Base::FindString *)
function FindString_loop :: "bytes \<Rightarrow> bytes \<Rightarrow> nat \<Rightarrow> int" where
  "FindString_loop x s i =
    (let r = FindCharacter (x ! 0) s i in
     if r \<ge> 0 then
       (if length x > length s - nat r then - 1
        else if memcmp x (take (length x) (drop (nat r) s)) = 0 then r
        else FindString_loop x s (nat r + 1))
     else - 1)"
  by pat_completeness auto
termination
proof (relation "measure (\<lambda>(x, s, i). length s - i)")
  fix x s :: bytes and i :: nat and r
  assume "r = FindCharacter (x ! 0) s i" "r \<ge> 0"
  then show "((x, s, nat r + 1), (x, s, i)) \<in> measure (\<lambda>(x, s, i). length s - i)"
    using find_from_bounds [of "\<lambda>y. y = x ! 0" s i] by (auto simp: FindCharacter_def)
qed simp

declare FindString_loop.simps [simp del]

(*@ core/rt/string_type.h 257-272 rt::String_Base::FindString *)
definition FindString :: "bytes \<Rightarrow> bytes \<Rightarrow> nat \<Rightarrow> int" where
  "FindString x s start_offset = (if length x \<noteq> 0 then FindString_loop x s start_offset else - 1)"

(*@ core/rt/string_type.h 309-313 rt::String_Base::HasNonPrintableAscii *)
definition HasNonPrintableAscii :: "bytes \<Rightarrow> bool" where
  "HasNonPrintableAscii s = list_ex (\<lambda>c. c_int c < 32 \<or> c_int c > 126) s"

(*@ core/rt/string_type.h 314-318 rt::String_Base::HasOnlyNumbers *)
definition HasOnlyNumbers :: "bytes \<Rightarrow> bool" where
  "HasOnlyNumbers s = (\<not> list_ex (\<lambda>c. c_int c < 48 \<or> c_int c > 57) s)"

(*@ core/rt/string_type.h 807-812 rt::String_Base::Occurrence *)
definition Occurrence :: "charset \<Rightarrow> bytes \<Rightarrow> nat" where
  "Occurrence S s = fold (\<lambda>c n. if Has S c then n + 1 else n) s 0"

subsection \<open>Trimming\<close>

(*@ core/rt/string_type.h 776-779 rt::String_Base::TrimLeft *)
definition TrimLeft :: "nat \<Rightarrow> bytes \<Rightarrow> bytes" where
  "TrimLeft len s = (if len \<ge> length s then [] else drop len s)"

(*@ core/rt/string_type.h 780-783 rt::String_Base::TrimRight *)
definition TrimRight :: "nat \<Rightarrow> bytes \<Rightarrow> bytes" where
  "TrimRight len s = (if len \<ge> length s then [] else take (length s - len) s)"

definition is_space :: "byte \<Rightarrow> bool" where
  "is_space c \<longleftrightarrow> c_int c \<le> 0x20 \<and> c_int c \<ge> 0"

(*@ core/rt/string_type.h 784-787 rt::String_Base::TrimLeftSpace *)
definition TrimLeftSpace :: "bytes \<Rightarrow> bytes" where
  "TrimLeftSpace s = (if s = [] then s else dropWhile is_space s)"

fun trim_right_loop :: "bytes \<Rightarrow> nat \<Rightarrow> nat" where
  "trim_right_loop s 0 = 0"
| "trim_right_loop s (Suc l) = (if Suc l > 1 \<and> is_space (s ! l) then trim_right_loop s l else Suc l)"

(*@ core/rt/string_type.h 788-791 rt::String_Base::TrimRightSpace *)
definition TrimRightSpace :: "bytes \<Rightarrow> bytes" where
  "TrimRightSpace s = (if s = [] then s else take (trim_right_loop s (length s)) s)"

(*@ core/rt/string_type.h 792-795 rt::String_Base::TrimSpace *)
definition TrimSpace :: "bytes \<Rightarrow> bytes" where
  "TrimSpace s = (if s = [] then s else TrimRightSpace (TrimLeftSpace s))"

text \<open>\<^verbatim>\<open>_len-1\<close> is the length of a text that is not the null reference.\<close>

(*@ core/rt/string_type.h 744-749 rt::String_Base::TrimBefore *)
definition TrimBefore :: "charset \<Rightarrow> bytes \<Rightarrow> bytes" where
  "TrimBefore seps s = (let pos = find_from (Has seps) s 0 in if pos \<ge> 0 then drop (nat pos + 1) s else s)"

(*@ core/rt/string_type.h 750-755 rt::String_Base::TrimAfter *)
definition TrimAfter :: "charset \<Rightarrow> bytes \<Rightarrow> bytes" where
  "TrimAfter seps s = (let pos = find_from (Has seps) s 0 in if pos \<ge> 0 then take (nat pos) s else s)"

(*@ core/rt/string_type.h 756-761 rt::String_Base::TrimBeforeReverse *)
definition TrimBeforeReverse :: "charset \<Rightarrow> bytes \<Rightarrow> bytes" where
  "TrimBeforeReverse seps s = (case find_back (Has seps) s (length s) of Some pos \<Rightarrow> drop (pos + 1) s | None \<Rightarrow> s)"

(*@ core/rt/string_type.h 762-767 rt::String_Base::TrimAfterReverse *)
definition TrimAfterReverse :: "charset \<Rightarrow> bytes \<Rightarrow> bytes" where
  "TrimAfterReverse seps s = (case find_back (Has seps) s (length s) of Some pos \<Rightarrow> take pos s | None \<Rightarrow> s)"

(*@ core/rt/string_type.h 332-335 rt::String_Base::TrimTrailingPathSeparator *)
definition TrimTrailingPathSeparator :: "bytes \<Rightarrow> bytes" where
  "TrimTrailingPathSeparator s = (if s \<noteq> [] \<and> (last s = 92 \<or> last s = 47) then take (length s - 1) s else s)"

(*@ core/rt/string_type.h 892-900 rt::String_Ref::GetLengthRecalculated *)
definition GetLengthRecalculated :: "bytes \<Rightarrow> bytes" where
  "GetLengthRecalculated s = (let i = find_from (\<lambda>c. c = 0) s 0 in if i \<ge> 0 then take (nat i) s else s)"

(*@ core/rt/string_type.h 922-926 rt::operator|| *)
definition Str_or :: "bytes \<Rightarrow> bytes \<Rightarrow> bytes" where
  "Str_or x y = (if x = [] then y else x)"

subsection \<open>File names and URLs\<close>

text \<open>The loop of \<^verbatim>\<open>TrimExtName\<close> and \<^verbatim>\<open>GetExtName\<close>: the last dot, unless a path separator comes after it.\<close>

fun ext_dot :: "bytes \<Rightarrow> nat \<Rightarrow> nat option" where
  "ext_dot s 0 = None"
| "ext_dot s (Suc i) = (if s ! i = 46 then Some i else if s ! i = 92 \<or> s ! i = 47 then None else ext_dot s i)"

text \<open>\<^verbatim>\<open>TrimExtName\<close> starts at \<^verbatim>\<open>_p[GetLength()]\<close>, the byte behind the text.\<close>

(*@ core/rt/string_type.h 638-647 rt::String_Base::TrimExtName *)
definition TrimExtName :: "byte \<Rightarrow> bytes \<Rightarrow> bytes" where
  "TrimExtName z s = (case ext_dot (s @ [z]) (length s + 1) of Some i \<Rightarrow> SubStr 0 i s | None \<Rightarrow> s)"

(*@ core/rt/string_type.h 648-655 rt::String_Base::GetExtName *)
definition GetExtName :: "bytes \<Rightarrow> bytes" where
  "GetExtName s = (case ext_dot s (length s) of Some i \<Rightarrow> drop i s | None \<Rightarrow> [])"

definition is_pathsep :: "byte \<Rightarrow> bool" where
  "is_pathsep c \<longleftrightarrow> c = 92 \<or> c = 47"

(*@ core/rt/string_type.h 656-662 rt::String_Base::GetFilename *)
definition GetFilename :: "bytes \<Rightarrow> bytes" where
  "GetFilename s = (case find_back is_pathsep s (length s) of Some i \<Rightarrow> drop (i + 1) s | None \<Rightarrow> s)"

(*@ core/rt/string_type.h 768-775 rt::String_Base::GetDirectoryName *)
definition GetDirectoryName :: "bytes \<Rightarrow> bytes" where
  "GetDirectoryName s = (case find_back is_pathsep s (length s) of Some i \<Rightarrow> take (i + 1) s | None \<Rightarrow> [46, 47])"

(*@ core/rt/string_type.h 678-684 rt::String_Base::GetFilenameURL *)
definition GetFilenameURL :: "bytes \<Rightarrow> bytes" where
  "GetFilenameURL s =
    (let fn = GetFilename s; i = find_from (\<lambda>c. c = 63 \<or> c = 35) fn 0 in
     if i \<ge> 0 then GetFilename (take (nat i) fn) else GetFilename s)"

(*@ core/rt/string_type.h 685-704 rt::String_Base::SplitURL *)
definition SplitURL :: "bytes \<Rightarrow> bytes \<times> bytes \<times> bytes" where
  "SplitURL s =
    (let c = FindCharacter 58 s 0 in
     if c < 0 \<or> int (length s) < c + 4 \<or> s ! (nat c + 1) \<noteq> 47 \<or> s ! (nat c + 2) \<noteq> 47 then ([], [], s)
     else
       let protocal = take (nat c) s; t = nat c + 3; h = FindCharacter 47 s t in
       if h \<ge> int t then (protocal, take (nat h - t) (drop t s), drop (nat h) s)
       else (protocal, drop t s, [47]))"

(*@ core/rt/string_type.h 705-713 rt::String_Base::SplitURL(cgi_param) *)
definition SplitURL_cgi :: "bytes \<Rightarrow> bytes \<times> bytes \<times> bytes \<times> bytes" where
  "SplitURL_cgi s =
    (case SplitURL s of (protocal, host, file_path) \<Rightarrow>
     let off = FindCharacter 63 file_path 0 in
     if off \<ge> 0 then (protocal, host, take (nat off) file_path, TrimLeft (nat off + 1) file_path)
     else (protocal, host, file_path, []))"

subsection \<open>Lines\<close>

text \<open>The reference \<open>x\<close> that the caller passes in is the offset of its end, \<open>None\<close> when it does not refer to
  this text; the result is the offsets of the line, \<open>None\<close> for \<^verbatim>\<open>return false\<close>.\<close>

definition ref_end :: "nat \<Rightarrow> nat option \<Rightarrow> nat" where
  "ref_end n x = (case x of Some e \<Rightarrow> if e \<le> n then e else 0 | None \<Rightarrow> 0)"

definition is_eol :: "byte \<Rightarrow> bool" where
  "is_eol c \<longleftrightarrow> c = 13 \<or> c = 10"

text \<open>\<^verbatim>\<open>while(p<tail && P(*p))p++\<close>.\<close>

function skip_while :: "(byte \<Rightarrow> bool) \<Rightarrow> bytes \<Rightarrow> nat \<Rightarrow> nat" where
  "skip_while P s i = (if i < length s \<and> P (s ! i) then skip_while P s (i + 1) else i)"
  by pat_completeness auto
termination by (relation "measure (\<lambda>(P, s, i). length s - i)") auto

declare skip_while.simps [simp del]

(*@ core/rt/string_type.h 483-504 rt::String_Base::GetNextLine *)
definition GetNextLine :: "bool \<Rightarrow> bytes \<Rightarrow> nat option \<Rightarrow> (nat \<times> nat) option" where
  "GetNextLine skip_empty_line s x =
    (let start = ref_end (length s) x;
         (start, end) =
           (if skip_empty_line then
              let start = skip_while is_eol s start in (start, start + 1)
            else if start < length s \<and> is_eol (s ! start) then
              let start = start + 1;
                  start = (if start < length s \<and> s ! (start - 1) = 13 \<and> s ! start = 10 then start + 1 else start)
              in (start, start)
            else (start, start + 1)) in
     if start \<ge> length s then None
     else Some (start, skip_while (\<lambda>c. \<not> is_eol c) s end))"

text \<open>The quotes of the lines taken so far are counted; lines are added until the count is even or no line is left.
  Both calls of \<^verbatim>\<open>GetNextLine\<close> leave the second argument at its default. The end of a line is never beyond the
  text (\<open>GetNextLine_progress\<close>); the test for it makes the recursion total.\<close>

definition count_quotes :: "byte \<Rightarrow> bytes \<Rightarrow> nat \<times> nat \<Rightarrow> nat" where
  "count_quotes q s seg = length (filter (\<lambda>c. c = q) (take (snd seg - fst seg) (drop (fst seg) s)))"

lemma skip_while_ge: "i \<le> skip_while P s i"
proof (induction P s i rule: skip_while.induct)
  case (1 P s i)
  then show ?case by (subst skip_while.simps) auto
qed

lemma skip_while_le: "i \<le> length s \<Longrightarrow> skip_while P s i \<le> length s"
proof (induction P s i rule: skip_while.induct)
  case (1 P s i)
  then show ?case by (subst skip_while.simps) auto
qed

lemma GetNextLine_progress:
  assumes "GetNextLine True s (Some e) = Some (a, b)" "e \<le> length s"
  shows "e \<le> a" "a < b" "b \<le> length s"
proof -
  let ?a = "skip_while is_eol s e"
  have a: "a = ?a" "?a < length s" "b = skip_while (\<lambda>c. \<not> is_eol c) s (?a + 1)"
    using assms by (auto simp: GetNextLine_def ref_end_def Let_def split: if_splits)
  show "e \<le> a" using skip_while_ge [of e is_eol s] a(1) by simp
  show "a < b" using skip_while_ge [of "?a + 1"] a by (simp add: Suc_le_eq)
  show "b \<le> length s" using skip_while_le [of "?a + 1" s] a by simp
qed

(*@ core/rt/string_type.h 471-477 rt::String_Base::GetNextLineWithQuote *)
function line_quote_loop :: "byte \<Rightarrow> bytes \<Rightarrow> nat \<times> nat \<Rightarrow> nat \<Rightarrow> nat" where
  "line_quote_loop q s seg quote_co =
    (let quote_co = quote_co + count_quotes q s seg in
     if even quote_co \<or> snd seg > length s then snd seg
     else (case GetNextLine True s (Some (snd seg)) of
        Some seg \<Rightarrow> line_quote_loop q s seg quote_co
      | None \<Rightarrow> snd seg))"
  by pat_completeness auto
termination
proof (relation "measure (\<lambda>(q, s, seg, k). length s - snd seg)", goal_cases)
  case (2 q s seg k k' seg')
  then have "snd seg \<le> length s" "GetNextLine True s (Some (snd seg)) = Some (fst seg', snd seg')" by simp_all
  then show ?case using GetNextLine_progress [of s "snd seg" "fst seg'" "snd seg'"] by simp
qed simp

declare line_quote_loop.simps [simp del]

(*@ core/rt/string_type.h 462-482 rt::String_Base::GetNextLineWithQuote *)
definition GetNextLineWithQuote :: "byte \<Rightarrow> bytes \<Rightarrow> nat option \<Rightarrow> (nat \<times> nat) option" where
  "GetNextLineWithQuote q s x =
    map_option (\<lambda>seg. (fst seg, line_quote_loop q s seg 0)) (GetNextLine True s x)"

subsection \<open>Tokens\<close>

text \<open>The bytes from \<^verbatim>\<open>Begin()\<close> on are \<open>m\<close>, the length of the text is \<open>n\<close>. A loop ends at a character that fails the test or, with
  \<open>True\<close>, at the end of the text; the character behind the end is tested too.\<close>

definition rd :: "bytes \<Rightarrow> nat \<Rightarrow> byte option" where
  "rd m i = (if i < length m then Some (m ! i) else None)"

function tok_scan :: "(byte \<Rightarrow> bool) \<Rightarrow> bytes \<Rightarrow> nat \<Rightarrow> nat \<Rightarrow> (nat \<times> bool) option" where
  "tok_scan P m n i =
    (case rd m i of
       None \<Rightarrow> None
     | Some c \<Rightarrow> if P c then (if i < n then tok_scan P m n (i + 1) else Some (i, True)) else Some (i, False))"
  by pat_completeness auto
termination by (relation "measure (\<lambda>(P, m, n, i). n - i)") auto

declare tok_scan.simps [simp del]

(*@ core/rt/string_type.h 537-554 rt::String_Base::GetNextToken(token) *)
definition GetNextToken :: "charset \<Rightarrow> bytes \<Rightarrow> nat \<Rightarrow> nat option \<Rightarrow> (nat \<times> nat) option option" where
  "GetNextToken token_charset m n token =
    (let start = ref_end n token in
     if start \<ge> n then Some None
     else do {
       (start, at_tail) \<leftarrow> tok_scan (\<lambda>c. \<not> Has token_charset c) m n start;
       if at_tail then Some None
       else do {
         (token_end, _) \<leftarrow> tok_scan (Has token_charset) m n (start + 1);
         Some (Some (start, token_end)) } })"

text \<open>With the characters between two tokens: the offsets of the token and of the other part (\<open>None\<close> for the null reference).\<close>

(*@ core/rt/string_type.h 505-527 rt::String_Base::GetNextToken(token,non_token) *)
definition GetNextToken_both ::
  "charset \<Rightarrow> bytes \<Rightarrow> nat \<Rightarrow> nat option \<Rightarrow> nat option \<Rightarrow> ((nat \<times> nat) \<times> (nat \<times> nat) option) option option" where
  "GetNextToken_both token_charset m n token non_token =
    (let start = (case non_token of
           Some e \<Rightarrow> if e \<le> n then e else ref_end n token
         | None \<Rightarrow> ref_end n token) in
     if start \<ge> n then Some None
     else do {
       (nontoken_start, at_tail) \<leftarrow> tok_scan (Has token_charset) m n start;
       if at_tail then Some (Some ((start, n), None))
       else do {
         (nontoken_end, at_tail) \<leftarrow> tok_scan (\<lambda>c. \<not> Has token_charset c) m n (nontoken_start + 1);
         Some (Some ((start, nontoken_start), Some (nontoken_start, if at_tail then n else nontoken_end))) } })"

text \<open>The tokens stored, at most \<open>token_count\<close>. With room for none the first store is already outside: \<open>None\<close>.\<close>

fun GetTokens_loop :: "charset \<Rightarrow> bytes \<Rightarrow> nat \<Rightarrow> nat \<Rightarrow> nat option \<Rightarrow> (nat \<times> nat) list option" where
  "GetTokens_loop S m n 0 v = Some []"
| "GetTokens_loop S m n (Suc k) v =
    do { r \<leftarrow> GetNextToken S m n v;
         case r of
           None \<Rightarrow> Some []
         | Some t \<Rightarrow> map_option (\<lambda>ts. t # ts) (GetTokens_loop S m n k (Some (snd t))) }"

(*@ core/rt/string_type.h 528-536 rt::String_Base::GetTokens *)
definition GetTokens :: "charset \<Rightarrow> bytes \<Rightarrow> nat \<Rightarrow> nat \<Rightarrow> (nat \<times> nat) list option" where
  "GetTokens S m n token_count =
    (if token_count = 0 then
       do { r \<leftarrow> GetNextToken S m n None; case r of None \<Rightarrow> Some [] | Some _ \<Rightarrow> None }
     else GetTokens_loop S m n token_count None)"

subsection \<open>Fields\<close>

text \<open>\<open>fs\<close> is the array of the caller, \<open>i\<close> the number of fields stored, \<open>start\<close> the offset of the current field, \<open>p\<close> the
  current character and \<open>quote_cur\<close> the open quotation mark, 0 for none. The result is the array and the number of
  fields. Without room for a field the first store is outside the array: \<open>None\<close>.\<close>

definition field_text :: "byte \<Rightarrow> byte \<Rightarrow> bytes \<Rightarrow> bytes" where
  "field_text quote1 quote2 v =
    (if length v \<ge> 2 \<and> v ! 0 = last v \<and> (v ! 0 = quote1 \<or> v ! 0 = quote2) then SubStr 1 (length v - 2) v else v)"

definition empty_from :: "nat \<Rightarrow> bytes list \<Rightarrow> bytes list" where
  "empty_from j fs = take j fs @ map (\<lambda>_. []) (drop j fs)"

(*@ core/rt/string_type.h 562-599 rt::String_Base::Split *)
function Split_loop ::
  "bool \<Rightarrow> byte \<Rightarrow> byte \<Rightarrow> charset \<Rightarrow> bytes \<Rightarrow> bytes list \<Rightarrow> nat \<Rightarrow> nat \<Rightarrow> nat \<Rightarrow> byte \<Rightarrow> bytes list \<times> nat" where
  "Split_loop merge quote1 quote2 seps s fs i start p quote_cur =
    (if p < length s \<and> quote_cur \<noteq> 0 then
       Split_loop merge quote1 quote2 seps s fs i start (p + 1)
         (if quote_cur = s ! p \<and> p > start \<and> s ! (p - 1) \<noteq> 92 then 0 else quote_cur)
     else if p < length s \<and> (s ! p = quote1 \<or> quote2 = s ! p) then
       Split_loop merge quote1 quote2 seps s fs i start (p + 1) (s ! p)
     else if p < length s \<and> \<not> Has seps (s ! p) then
       Split_loop merge quote1 quote2 seps s fs i start (p + 1) quote_cur
     else
       let fs = fs[i := field_text quote1 quote2 (take (p - start) (drop start s))];
           i = i + 1 in
       if i \<ge> length fs \<or> p \<ge> length s then (empty_from (i + 1) fs, i)
       else
         let p = p + 1;
             p = (if merge then skip_while (Has seps) s p else p) in
         Split_loop merge quote1 quote2 seps s fs i p p quote_cur)"
  by pat_completeness auto
termination
proof (relation "measure (\<lambda>(merge, q1, q2, seps, s, fs, i, start, p, q). length s - p)", goal_cases)
  case (5 merge q1 q2 seps s fs i start p q f i' p' p'')
  then have "p < p''" using skip_while_ge [of "p + 1" "Has seps" s] by (auto simp: Suc_le_eq)
  moreover have "p < length s" using 5 by auto
  ultimately have "length s - p'' < length s - p" by (rule diff_less_mono2)
  then show ?case by simp
qed auto

declare Split_loop.simps [simp del]

(*@ core/rt/string_type.h 555-600 rt::String_Base::Split *)
definition Split :: "bool \<Rightarrow> byte \<Rightarrow> byte \<Rightarrow> charset \<Rightarrow> bytes \<Rightarrow> bytes list \<Rightarrow> (bytes list \<times> nat) option" where
  "Split merge_adjecent_sep quote1 quote2 seps s fs =
    (if s = [] then Some (fs, 0) else if fs = [] then None else Some (Split_loop merge_adjecent_sep quote1 quote2 seps s fs 0 0 0 0))"

(*@ core/rt/string_type.h 601-604 rt::String_Base::Split<merge> *)
definition Split_quotes :: "bool \<Rightarrow> charset \<Rightarrow> bytes \<Rightarrow> bytes list \<Rightarrow> (bytes list \<times> nat) option" where
  "Split_quotes merge_adjecent_sep seps s fs = Split merge_adjecent_sep 34 39 seps s fs"

(*@ core/rt/string_type.h 605-608 rt::String_Base::Split *)
definition Split_default :: "charset \<Rightarrow> bytes \<Rightarrow> bytes list \<Rightarrow> (bytes list \<times> nat) option" where
  "Split_default seps s fs = Split False 34 39 seps s fs"

section \<open>Search\<close>

lemma find_from_spec:
  "find_from P s i = (if \<exists>k. i \<le> k \<and> k < length s \<and> P (s ! k) then int (LEAST k. i \<le> k \<and> k < length s \<and> P (s ! k)) else - 1)"
proof (induction P s i rule: find_from.induct)
  case (1 P s i)
  let ?Q = "\<lambda>i k. i \<le> k \<and> k < length s \<and> P (s ! k)"
  show ?case
  proof (cases "i < length s \<and> P (s ! i)")
    case True
    then have "(LEAST k. ?Q i k) = i" by (intro Least_equality) auto
    then show ?thesis using True by (subst find_from.simps) auto
  next
    case False
    then have "?Q i = ?Q (i + 1)" by (auto simp: fun_eq_iff Suc_le_eq le_less)
    moreover have "find_from P s i = (if i < length s then find_from P s (i + 1) else - 1)" using False by (subst find_from.simps) auto
    ultimately show ?thesis using 1 False by (auto simp: Suc_le_eq)
  qed
qed

lemma find_from_ge0:
  assumes "0 \<le> find_from P s i"
  shows "i \<le> nat (find_from P s i)" "nat (find_from P s i) < length s" "P (s ! nat (find_from P s i))"
    "\<And>k. i \<le> k \<Longrightarrow> k < nat (find_from P s i) \<Longrightarrow> \<not> P (s ! k)"
proof -
  let ?Q = "\<lambda>k. i \<le> k \<and> k < length s \<and> P (s ! k)"
  have ex: "\<exists>k. ?Q k" and r: "find_from P s i = int (LEAST k. ?Q k)"
    using assms unfolding find_from_spec [of P s i] by (auto split: if_splits)
  have L: "?Q (LEAST k. ?Q k)" using ex by (rule LeastI_ex)
  then show "i \<le> nat (find_from P s i)" "nat (find_from P s i) < length s" "P (s ! nat (find_from P s i))" using r by simp_all
  show "\<not> P (s ! k)" if "i \<le> k" "k < nat (find_from P s i)" for k
    using not_less_Least [of k ?Q] that r L by simp
qed

lemma find_from_neg: "find_from P s i < 0 \<Longrightarrow> i \<le> k \<Longrightarrow> k < length s \<Longrightarrow> \<not> P (s ! k)"
  unfolding find_from_spec by (auto split: if_splits)

text \<open>Where a text occurs in another.\<close>

definition occurs_at :: "bytes \<Rightarrow> bytes \<Rightarrow> nat \<Rightarrow> bool" where
  "occurs_at x s k \<longleftrightarrow> k + length x \<le> length s \<and> take (length x) (drop k s) = x"

lemma occurs_first: "occurs_at x s k \<Longrightarrow> x \<noteq> [] \<Longrightarrow> k < length s \<and> s ! k = x ! 0"
proof -
  assume a: "occurs_at x s k" "x \<noteq> []"
  then have "take (length x) (drop k s) ! 0 = x ! 0" "0 < length x" by (auto simp: occurs_at_def)
  then show ?thesis using a by (cases x) (auto simp: occurs_at_def)
qed

lemma FindString_loop_spec:
  assumes "x \<noteq> []"
  shows "FindString_loop x s i = - 1 \<and> (\<forall>k\<ge>i. \<not> occurs_at x s k) \<or>
    (\<exists>k\<ge>i. FindString_loop x s i = int k \<and> occurs_at x s k \<and> (\<forall>j. i \<le> j \<and> j < k \<longrightarrow> \<not> occurs_at x s j))"
  using assms
proof (induction x s i rule: FindString_loop.induct)
  case (1 x s i)
  define r where "r = FindCharacter (x ! 0) s i"
  have step: "FindString_loop x s i = (if r \<ge> 0 then if length x > length s - nat r then - 1
      else if memcmp x (take (length x) (drop (nat r) s)) = 0 then r else FindString_loop x s (nat r + 1) else - 1)"
    by (subst FindString_loop.simps) (simp add: Let_def r_def)
  show ?case
  proof (cases "r \<ge> 0")
    case False
    then have "\<not> occurs_at x s k" if "i \<le> k" for k
      using occurs_first [of x s k] find_from_neg [of "\<lambda>y. y = x ! 0" s i k] that 1(2) by (auto simp: r_def FindCharacter_def)
    then show ?thesis using step False by simp
  next
    case True
    then have r: "i \<le> nat r" "nat r < length s" and before: "\<And>k. i \<le> k \<Longrightarrow> k < nat r \<Longrightarrow> \<not> occurs_at x s k"
      using find_from_ge0 [of "\<lambda>y. y = x ! 0" s i] occurs_first [of x s] 1(2) by (auto simp: r_def FindCharacter_def)
    consider (short) "length x > length s - nat r" | (hit) "length x \<le> length s - nat r" "take (length x) (drop (nat r) s) = x"
      | (miss) "length x \<le> length s - nat r" "take (length x) (drop (nat r) s) \<noteq> x" by linarith
    then show ?thesis
    proof cases
      case short
      then have "\<not> occurs_at x s k" if "i \<le> k" for k using before [of k] that by (auto simp: occurs_at_def)
      then show ?thesis using step True short by simp
    next
      case hit
      then have "occurs_at x s (nat r)" using r by (auto simp: occurs_at_def)
      moreover have "FindString_loop x s i = int (nat r)" using step True hit by (auto simp: memcmp_eq_0)
      ultimately show ?thesis using r(1) before by blast
    next
      case miss
      then have m: "memcmp x (take (length x) (drop (nat r) s)) \<noteq> 0" using r(2) by (subst memcmp_eq_0) auto
      have s': "FindString_loop x s i = FindString_loop x s (nat r + 1)" using step True miss(1) m by simp
      have "\<not> occurs_at x s (nat r)" using miss by (simp add: occurs_at_def)
      then have b: "\<And>k. i \<le> k \<Longrightarrow> k < nat r + 1 \<Longrightarrow> \<not> occurs_at x s k" using before by (metis less_antisym Suc_eq_plus1)
      show ?thesis using 1(1) [OF r_def True _ m 1(2)] miss(1) unfolding s'
        using b r(1) by (smt (verit) le_trans le_add1 not_less)
    qed
  qed
qed

section \<open>Order\<close>

text \<open>\<^verbatim>\<open>operator <\<close> is the lexicographic order on unsigned bytes.\<close>

lemma Str_less_Cons: "Str_less (a # s) (b # x) \<longleftrightarrow> a < b \<or> a = b \<and> Str_less s x"
  by (auto simp: Str_less_def Let_def)

lemma Str_less_Nil: "Str_less [] x \<longleftrightarrow> x \<noteq> []" "\<not> Str_less s []"
  by (auto simp: Str_less_def Let_def)

lemma Str_less_lexordp: "Str_less s x \<longleftrightarrow> ord_class.lexordp s x"
proof (induction s arbitrary: x)
  case Nil
  then show ?case by (cases x) (simp_all add: Str_less_Nil)
next
  case (Cons a s)
  then show ?case by (cases x) (auto simp: Str_less_Nil Str_less_Cons)
qed

interpretation str_order: strict_weak_order Str_less
proof
  show "\<not> Str_less x x" for x
    unfolding Str_less_lexordp by (rule lexordp_irreflexive')
  show "Str_less s x \<Longrightarrow> Str_less x y \<Longrightarrow> Str_less s y" for s x y
    unfolding Str_less_lexordp by (rule lexordp_trans)
  show "\<not> Str_less s x \<Longrightarrow> \<not> Str_less x y \<Longrightarrow> \<not> Str_less s y" for s x y
    unfolding Str_less_lexordp by (metis lexordp_linear lexordp_trans)
qed

lemma Str_equal_eq: "Str_equal s x \<longleftrightarrow> s = x"
  by (auto simp: Str_equal_def memcmp_eq_0)

lemma Str_trichotomy: "Str_less s x \<or> Str_equal s x \<or> Str_less x s"
  unfolding Str_less_lexordp Str_equal_eq using lexordp_linear [of s x] by blast

section \<open>Reference: splitting a text\<close>

text \<open>The maximal parts without a separator, empty ones included.\<close>

fun splits :: "(byte \<Rightarrow> bool) \<Rightarrow> bytes \<Rightarrow> bytes list" where
  "splits P [] = [[]]"
| "splits P (c # s) = (if P c then [] # splits P s else (c # hd (splits P s)) # tl (splits P s))"

definition parts :: "(byte \<Rightarrow> bool) \<Rightarrow> bytes \<Rightarrow> bytes list" where
  "parts P s = filter (\<lambda>f. f \<noteq> []) (splits P s)"

lemma splits_not_Nil [simp]: "splits P s \<noteq> []"
  by (induction s) auto

lemma splits_run: "list_all (\<lambda>c. \<not> P c) u \<Longrightarrow> splits P (u @ s) = (u @ hd (splits P s)) # tl (splits P s)"
  by (induction u) auto

lemma splits_field: "list_all (\<lambda>c. \<not> P c) u \<Longrightarrow> P c \<Longrightarrow> splits P (u @ c # s) = u # splits P s"
  by (simp add: splits_run)

lemma splits_last: "list_all (\<lambda>c. \<not> P c) u \<Longrightarrow> splits P u = [u]"
  using splits_run [of P u "[]"] by simp

lemma length_splits: "length (splits P s) = length (filter P s) + 1"
  by (induction s) auto

lemma length_parts: "length (parts P s) \<le> length s + 1"
proof -
  have "length (parts P s) \<le> length (splits P s)" unfolding parts_def by (rule length_filter_le)
  also have "\<dots> \<le> length s + 1" unfolding length_splits by simp
  finally show ?thesis .
qed

lemma parts_sep: "P c \<Longrightarrow> parts P (c # s) = parts P s"
  by (simp add: parts_def)

lemma parts_field: "list_all (\<lambda>c. \<not> P c) u \<Longrightarrow> u \<noteq> [] \<Longrightarrow> s = [] \<or> P (hd s) \<Longrightarrow> parts P (u @ s) = u # parts P s"
  by (cases s) (auto simp: parts_def splits_field splits_last)

text \<open>The run of characters that \<open>skip_while\<close> passes.\<close>

lemma skip_while_takeWhile: "i \<le> length s \<Longrightarrow> skip_while P s i = i + length (takeWhile P (drop i s))"
proof (induction P s i rule: skip_while.induct)
  case (1 P s i)
  show ?case
  proof (cases "i < length s")
    case True
    then have "drop i s = s ! i # drop (i + 1) s" by (simp add: Cons_nth_drop_Suc)
    then show ?thesis using 1 True by (subst skip_while.simps) auto
  next
    case False
    then show ?thesis using 1(2) by (subst skip_while.simps) simp
  qed
qed

lemma parts_dropWhile: "parts P (dropWhile P s) = parts P s"
  by (induction s) (auto simp: parts_sep)

lemma drop_skip: "i \<le> length s \<Longrightarrow> drop (skip_while P s i) s = dropWhile P (drop i s)"
  unfolding skip_while_takeWhile dropWhile_eq_drop by (simp add: add.commute)

section \<open>Lines and tokens\<close>

text \<open>What \<^verbatim>\<open>GetNextLine\<close> and \<^verbatim>\<open>GetNextToken\<close> have in common: from an offset, the separators are passed and then the
  characters that are not.\<close>

definition next_part :: "(byte \<Rightarrow> bool) \<Rightarrow> bytes \<Rightarrow> nat \<Rightarrow> (nat \<times> nat) option" where
  "next_part P s e =
    (let a = skip_while P s e in if a \<ge> length s then None else Some (a, skip_while (\<lambda>c. \<not> P c) s (a + 1)))"

lemma next_part_None: "e \<le> length s \<Longrightarrow> next_part P s e = None \<Longrightarrow> parts P (drop e s) = []"
  using parts_dropWhile [of P "drop e s"] drop_skip [of e s P]
  by (simp add: next_part_def Let_def parts_def split: if_splits)

lemma next_part_Some:
  assumes e: "e \<le> length s" and n: "next_part P s e = Some (a, b)"
  shows "e \<le> a" "a < b" "b \<le> length s" "parts P (drop e s) = take (b - a) (drop a s) # parts P (drop b s)"
proof -
  have a: "a = skip_while P s e" "a < length s" and b: "b = skip_while (\<lambda>c. \<not> P c) s (a + 1)"
    using n by (auto simp: next_part_def Let_def split: if_splits)
  show r: "e \<le> a" "a < b" "b \<le> length s"
    using skip_while_ge [of "a + 1" "\<lambda>c. \<not> P c" s] skip_while_le [of "a + 1" s] skip_while_ge [of e P s] a b by (auto simp: Suc_le_eq)
  have d: "drop a s = dropWhile P (drop e s)" unfolding a(1) using e by (rule drop_skip)
  have "s ! a = hd (drop a s)" "drop a s \<noteq> []" using a(2) by (auto simp: hd_drop_conv_nth)
  then have na: "\<not> P (s ! a)" unfolding d using hd_dropWhile by metis
  define u where "u = take (b - a) (drop a s)"
  have "b = a + 1 + length (takeWhile (\<lambda>c. \<not> P c) (drop (a + 1) s))"
    using a(2) skip_while_takeWhile [of "a + 1" s] by (simp add: b)
  moreover have "drop a s = s ! a # drop (a + 1) s" using a(2) by (simp add: Cons_nth_drop_Suc)
  ultimately have u: "u = s ! a # takeWhile (\<lambda>c. \<not> P c) (drop (a + 1) s)"
    by (simp add: u_def takeWhile_eq_take [symmetric])
  have ub: "drop a s = u @ drop b s"
    using append_take_drop_id [of "b - a" "drop a s"] r by (simp add: u_def)
  have "drop b s = dropWhile (\<lambda>c. \<not> P c) (drop (a + 1) s)" unfolding b using a(2) by (intro drop_skip) simp
  then have "drop b s = [] \<or> P (hd (drop b s))" using hd_dropWhile by metis
  moreover have "list_all (\<lambda>c. \<not> P c) u" using na by (auto simp: u list_all_iff dest: set_takeWhileD)
  ultimately have "parts P (drop a s) = u # parts P (drop b s)" unfolding ub using parts_field [of P u "drop b s"] u by simp
  then show "parts P (drop e s) = take (b - a) (drop a s) # parts P (drop b s)"
    by (simp only: d parts_dropWhile u_def [unfolded d])
qed

text \<open>A client that asks for the next part at most \<open>k\<close> times, each time from the end of the last one.\<close>

fun read_parts :: "(nat option \<Rightarrow> (nat \<times> nat) option) \<Rightarrow> nat \<Rightarrow> nat option \<Rightarrow> (nat \<times> nat) list" where
  "read_parts next 0 x = []"
| "read_parts next (Suc k) x = (case next x of None \<Rightarrow> [] | Some t \<Rightarrow> t # read_parts next k (Some (snd t)))"

definition cut :: "bytes \<Rightarrow> nat \<times> nat \<Rightarrow> bytes" where
  "cut s t = take (snd t - fst t) (drop (fst t) s)"

lemma ref_end_le: "ref_end n x \<le> n"
  by (auto simp: ref_end_def split: option.splits)

text \<open>The contract of the two readers, and what a client gets from it.\<close>

locale part_reader =
  fixes P :: "byte \<Rightarrow> bool" and s :: bytes and "next" :: "nat option \<Rightarrow> (nat \<times> nat) option"
  assumes next_is_part: "next x = next_part P s (ref_end (length s) x)"
begin

lemma reads_parts: "map (cut s) (read_parts next k x) = take k (parts P (drop (ref_end (length s) x) s))"
proof (induction k arbitrary: x)
  case 0
  then show ?case by simp
next
  case (Suc k)
  let ?e = "ref_end (length s) x"
  show ?case
  proof (cases "next x")
    case None
    then show ?thesis using next_part_None [of ?e s P] ref_end_le [of "length s" x] by (simp add: next_is_part)
  next
    case (Some t)
    then have t: "next_part P s ?e = Some (fst t, snd t)" by (simp add: next_is_part)
    note n = next_part_Some [OF ref_end_le t]
    have "ref_end (length s) (Some (snd t)) = snd t" using n(3) by (simp add: ref_end_def)
    then show ?thesis using Some n(4) Suc.IH [of "Some (snd t)"] by (simp add: cut_def)
  qed
qed

lemma reads_all: "length s < k \<Longrightarrow> map (cut s) (read_parts next k None) = parts P s"
  using reads_parts [of k None] length_parts [of P s] by (simp add: ref_end_def)

lemma reads_progress: "next x = Some (a, b) \<Longrightarrow> ref_end (length s) x \<le> a \<and> a < b \<and> b \<le> length s"
  using next_part_Some [OF ref_end_le] by (simp add: next_is_part)

end

lemma GetNextLine_part: "GetNextLine True s x = next_part is_eol s (ref_end (length s) x)"
  by (simp add: GetNextLine_def next_part_def Let_def)

interpretation line: part_reader is_eol s "GetNextLine True s" for s
  by unfold_locales (rule GetNextLine_part)

lemma tok_scan_skip:
  "i \<le> length s \<Longrightarrow> tok_scan P (s @ z # r) (length s) i = Some (skip_while P s i, skip_while P s i = length s \<and> P z)"
proof (induction P "s @ z # r" "length s" i rule: tok_scan.induct)
  case (1 P i)
  show ?case
  proof (cases "i < length s")
    case True
    then have "rd (s @ z # r) i = Some (s ! i)" by (simp add: rd_def nth_append)
    then show ?thesis using 1 True by (subst tok_scan.simps, subst (1 2) skip_while.simps) auto
  next
    case False
    then have "i = length s" "rd (s @ z # r) i = Some z" using 1(2) by (simp_all add: rd_def nth_append)
    then show ?thesis by (subst tok_scan.simps, subst (1 2) skip_while.simps) auto
  qed
qed

text \<open>On a text whose following byte is no token character, such as the terminating zero, \<^verbatim>\<open>GetNextToken\<close> reads
  no further than that byte and finds the next token.\<close>

lemma GetNextToken_part:
  assumes "\<not> Has S z"
  shows "GetNextToken S (s @ z # r) (length s) x = Some (next_part (\<lambda>c. \<not> Has S c) s (ref_end (length s) x))"
proof -
  let ?e = "ref_end (length s) x"
  define a where "a = skip_while (\<lambda>c. \<not> Has S c) s ?e"
  have e: "?e \<le> length s" by (rule ref_end_le)
  have a: "a \<le> length s" unfolding a_def by (rule skip_while_le [OF e])
  have "a = length s" if "?e \<ge> length s" using that e a skip_while_ge [of ?e "\<lambda>c. \<not> Has S c" s] by (simp add: a_def)
  then show ?thesis using assms a
    by (auto simp: GetNextToken_def next_part_def Let_def tok_scan_skip [OF e] tok_scan_skip a_def [symmetric] Suc_le_eq)
qed

lemma Has_zero [simp]: "\<not> Has S 0"
  by (simp add: Has_def)

interpretation token: part_reader "\<lambda>c. \<not> Has S c" s "\<lambda>x. the (GetNextToken S (s @ 0 # r) (length s) x)" for S s r
  by unfold_locales (simp add: GetNextToken_part)

lemma GetTokens_loop_read:
  "GetTokens_loop S (s @ 0 # r) (length s) k x = Some (read_parts (\<lambda>x. the (GetNextToken S (s @ 0 # r) (length s) x)) k x)"
proof (induction k arbitrary: x)
  case (Suc k)
  show ?case by (simp add: GetNextToken_part Suc.IH split: option.split)
qed simp

section \<open>Fields\<close>

text \<open>A separator that follows a separator is left out.\<close>

function squeeze :: "(byte \<Rightarrow> bool) \<Rightarrow> bytes \<Rightarrow> bytes" where
  "squeeze P [] = []"
| "squeeze P (c # s) = c # squeeze P (if P c then dropWhile P s else s)"
  by pat_completeness auto
termination by (relation "measure (\<lambda>(P, s). length s)") (auto simp: le_imp_less_Suc length_dropWhile_le)

lemma squeeze_field: "list_all (\<lambda>c. \<not> P c) u \<Longrightarrow> P c \<Longrightarrow> squeeze P (u @ c # s) = u @ c # squeeze P (dropWhile P s)"
  by (induction u) auto

lemma squeeze_last: "list_all (\<lambda>c. \<not> P c) u \<Longrightarrow> squeeze P u = u"
  by (induction u) auto

text \<open>The fields of a text without quotation marks.\<close>

definition text_fields :: "bool \<Rightarrow> (byte \<Rightarrow> bool) \<Rightarrow> bytes \<Rightarrow> bytes list" where
  "text_fields merge P s = splits P (if merge then squeeze P s else s)"

lemma text_fields_field: "list_all (\<lambda>c. \<not> P c) u \<Longrightarrow> P c \<Longrightarrow>
  text_fields merge P (u @ c # s) = u # text_fields merge P (if merge then dropWhile P s else s)"
  by (simp add: text_fields_def squeeze_field splits_field)

lemma text_fields_last: "list_all (\<lambda>c. \<not> P c) u \<Longrightarrow> text_fields merge P u = [u]"
  by (simp add: text_fields_def squeeze_last splits_last)

lemma text_fields_not_Nil [simp]: "text_fields merge P s \<noteq> []"
  by (simp add: text_fields_def)

text \<open>The array after the fields \<open>L\<close> have been stored from \<open>i\<close> on, as many as there is room for.\<close>

definition stored :: "bytes list \<Rightarrow> nat \<Rightarrow> bytes list \<Rightarrow> bytes list \<times> nat" where
  "stored fs i L =
    (let k = min (length L) (length fs - i) in (empty_from (i + k + 1) (write_at i (take k L) fs), i + k))"

lemma stored_one: "i < length fs \<Longrightarrow> L = [] \<or> i + 1 = length fs \<Longrightarrow> stored fs i (u # L) = (empty_from (i + 2) (fs[i := u]), i + 1)"
proof -
  assume i: "i < length fs" and L: "L = [] \<or> i + 1 = length fs"
  then have "min (length (u # L)) (length fs - i) = 1" by auto
  then show ?thesis using i by (simp add: stored_def Let_def write_at_def upd_conv_take_nth_drop)
qed

lemma stored_Cons:
  assumes "i + 1 < length fs"
  shows "stored fs i (u # L) = stored (fs[i := u]) (i + 1) L"
proof -
  have "min (length (u # L)) (length fs - i) = Suc (min (length L) (length fs - (i + 1)))" using assms by auto
  moreover have "write_at i (u # M) fs = write_at (i + 1) M (fs[i := u])" for M
    using assms by (simp add: write_at_def take_Suc_update)
  ultimately show ?thesis by (simp add: stored_def Let_def)
qed

definition no_quotes :: "byte \<Rightarrow> byte \<Rightarrow> bytes \<Rightarrow> bool" where
  "no_quotes q1 q2 s = list_all (\<lambda>c. c \<noteq> q1 \<and> c \<noteq> q2) s"

lemma no_quotes_nth: "no_quotes q1 q2 s \<Longrightarrow> k < length s \<Longrightarrow> s ! k \<noteq> q1 \<and> q2 \<noteq> s ! k"
  by (auto simp: no_quotes_def list_all_length)

lemma Split_loop_run:
  "no_quotes q1 q2 s \<Longrightarrow> p + n \<le> length s \<Longrightarrow> \<forall>k. p \<le> k \<and> k < p + n \<longrightarrow> \<not> Has seps (s ! k) \<Longrightarrow>
    Split_loop merge q1 q2 seps s fs i start p 0 = Split_loop merge q1 q2 seps s fs i start (p + n) 0"
proof (induction n arbitrary: p)
  case (Suc n)
  then have p: "p < length s" "\<not> Has seps (s ! p)" by auto
  then have "s ! p \<noteq> q1" "q2 \<noteq> s ! p" using no_quotes_nth [OF Suc.prems(1)] by simp_all
  then have "Split_loop merge q1 q2 seps s fs i start p 0 = Split_loop merge q1 q2 seps s fs i start (p + 1) 0"
    using p by (subst Split_loop.simps) simp
  then show ?case using Suc.IH [of "p + 1"] Suc.prems by simp
qed simp

lemma Split_loop_stop:
  assumes q: "no_quotes q1 q2 s" and p: "p = length s \<or> p < length s \<and> Has seps (s ! p)"
    and f: "f = fs[i := take (p - start) (drop start s)]"
  shows "Split_loop merge q1 q2 seps s fs i start p 0 =
    (if i + 1 \<ge> length fs \<or> p = length s then (empty_from (i + 2) f, i + 1)
     else let p' = (if merge then skip_while (Has seps) s (p + 1) else p + 1) in Split_loop merge q1 q2 seps s f (i + 1) p' p' 0)"
proof -
  let ?v = "take (p - start) (drop start s)"
  have "2 \<le> length ?v \<Longrightarrow> ?v ! 0 = s ! start \<and> start < length s" by auto
  then have "field_text q1 q2 ?v = ?v" using no_quotes_nth [OF q, of start] by (auto simp: field_text_def)
  then show ?thesis using p no_quotes_nth [OF q, of p] by (subst Split_loop.simps) (auto simp: f Let_def)
qed

lemma Split_loop_fields:
  "no_quotes q1 q2 s \<Longrightarrow> start \<le> length s \<Longrightarrow> i < length fs \<Longrightarrow>
    Split_loop merge q1 q2 seps s fs i start start 0 = stored fs i (text_fields merge (Has seps) (drop start s))"
proof (induction "length s - start" arbitrary: start fs i rule: less_induct)
  case less
  define u where "u = takeWhile (\<lambda>c. \<not> Has seps c) (drop start s)"
  define p where "p = start + length u"
  have pl: "p \<le> length s" using less.prems(2) length_takeWhile_le [of "\<lambda>c. \<not> Has seps c" "drop start s"] by (simp add: p_def u_def)
  have nu: "list_all (\<lambda>c. \<not> Has seps c) u" by (auto simp: u_def list_all_iff dest: set_takeWhileD)
  have tk: "take (p - start) (drop start s) = u" by (simp add: p_def u_def takeWhile_eq_take [symmetric])
  have dp: "drop start s = u @ drop p s"
    using takeWhile_dropWhile_id [of "\<lambda>c. \<not> Has seps c" "drop start s"] by (simp add: p_def u_def dropWhile_eq_drop add.commute)
  have "\<not> Has seps (s ! k)" if "start \<le> k" "k < start + length u" for k
  proof -
    have "s ! k = u ! (k - start)" using that less.prems(2) arg_cong [OF dp, of "\<lambda>l. l ! (k - start)"] less_diff_conv2 [of start k "length u"] by (simp add: nth_append add.commute)
    then show ?thesis using nu that by (simp add: list_all_length)
  qed
  then have run: "Split_loop merge q1 q2 seps s fs i start start 0 = Split_loop merge q1 q2 seps s fs i start p 0"
    using Split_loop_run [OF less.prems(1), of start "length u"] pl by (simp add: p_def)
  have stop: "p = length s \<or> p < length s \<and> Has seps (s ! p)"
  proof (cases "p = length s")
    case False
    then have "drop p s \<noteq> []" "hd (drop p s) = s ! p" using pl by (auto simp: hd_drop_conv_nth)
    moreover have "drop p s = dropWhile (\<lambda>c. \<not> Has seps c) (drop start s)" by (simp add: p_def u_def dropWhile_eq_drop add.commute)
    ultimately show ?thesis using False pl hd_dropWhile [of "\<lambda>c. \<not> Has seps c" "drop start s"] by simp
  qed simp
  note loop = Split_loop_stop [OF less.prems(1) stop, of "fs[i := u]" fs i start merge, unfolded tk, OF refl]
  show ?case
  proof (cases "p = length s")
    case True
    then have "text_fields merge (Has seps) (drop start s) = [u]" using dp nu by (simp add: text_fields_last)
    then show ?thesis using run loop True less.prems(3) by (simp add: stored_one p_def)
  next
    case False
    then have p: "p < length s" "Has seps (s ! p)" using stop by auto
    define p' where "p' = (if merge then skip_while (Has seps) s (p + 1) else p + 1)"
    have p': "p < p'" "p' \<le> length s" "drop p' s = (if merge then dropWhile (Has seps) (drop (p + 1) s) else drop (p + 1) s)"
      using skip_while_ge [of "p + 1" "Has seps" s] skip_while_le [of "p + 1" s "Has seps"] drop_skip [of "p + 1" s "Has seps"] p
      by (auto simp: p'_def Suc_le_eq)
    have "drop start s = u @ s ! p # drop (p + 1) s" using dp p(1) by (simp add: Cons_nth_drop_Suc)
    then have tf: "text_fields merge (Has seps) (drop start s) = u # text_fields merge (Has seps) (drop p' s)"
      using text_fields_field [OF nu p(2)] p'(3) by simp
    show ?thesis
    proof (cases "i + 1 \<ge> length fs")
      case True
      then show ?thesis using run loop p False less.prems(3) tf by (simp add: stored_one p_def)
    next
      case room: False
      have "Split_loop merge q1 q2 seps s (fs[i := u]) (i + 1) p' p' 0 = stored (fs[i := u]) (i + 1) (text_fields merge (Has seps) (drop p' s))"
        using p' p(1) room less.prems(1) by (intro less.hyps) (auto simp: p_def)
      then show ?thesis using run loop p False room tf by (simp add: stored_Cons p_def [symmetric] p'_def Let_def)
    qed
  qed
qed

section \<open>File names\<close>

lemma find_back_Some: "find_back P s n = Some k \<Longrightarrow> k < n \<and> P (s ! k) \<and> (\<forall>j. k < j \<and> j < n \<longrightarrow> \<not> P (s ! j))"
  by (induction n) (auto split: if_splits simp: less_Suc_eq)

lemma find_back_None: "find_back P s n = None \<Longrightarrow> j < n \<Longrightarrow> \<not> P (s ! j)"
  by (induction n) (auto split: if_splits simp: less_Suc_eq)

lemma list_all_drop: "list_all Q (drop k s) \<longleftrightarrow> (\<forall>j. k \<le> j \<and> j < length s \<longrightarrow> Q (s ! j))"
proof
  show "list_all Q (drop k s) \<Longrightarrow> \<forall>j. k \<le> j \<and> j < length s \<longrightarrow> Q (s ! j)"
    by (auto simp: list_all_length) (metis add.commute diff_less_mono le_add_diff_inverse)
qed (auto simp: list_all_length)

lemma GetFilename_no_sep: "list_all (\<lambda>c. \<not> is_pathsep c) (GetFilename s)"
proof (cases "find_back is_pathsep s (length s)")
  case None
  then show ?thesis using find_back_None [of is_pathsep s "length s"] by (simp add: GetFilename_def list_all_length)
next
  case (Some k)
  then show ?thesis using find_back_Some [OF Some] by (simp add: GetFilename_def list_all_drop)
qed

lemma ext_dot_less: "ext_dot s n = Some k \<Longrightarrow> k < n"
  by (induction n) (auto split: if_splits simp: less_Suc_eq)

lemma ext_dot_prefix: "n \<le> length s \<Longrightarrow> ext_dot (s @ t) n = ext_dot s n"
  by (induction n) (auto simp: nth_append)

lemma TrimExtName_dot:
  "\<not> is_pathsep z \<Longrightarrow> z \<noteq> 46 \<Longrightarrow> TrimExtName z s = (case ext_dot s (length s) of Some i \<Rightarrow> take i s | None \<Rightarrow> s)"
proof -
  assume "\<not> is_pathsep z" "z \<noteq> 46"
  then have "ext_dot (s @ [z]) (length s + 1) = ext_dot s (length s)"
    by (simp add: is_pathsep_def ext_dot_prefix nth_append)
  then show ?thesis using ext_dot_less [of s "length s"] by (auto simp: TrimExtName_def SubStr_def min_def split: option.split)
qed

section \<open>Properties\<close>

text \<open>C13: \<^verbatim>\<open>FindString\<close> returns the first offset, from the given one on, at which the searched text occurs, and -1 when it
  occurs nowhere or is empty.\<close>

theorem FindString_first:
  "FindString x s i =
    (if x \<noteq> [] \<and> (\<exists>k. i \<le> k \<and> occurs_at x s k) then int (LEAST k. i \<le> k \<and> occurs_at x s k) else - 1)"
proof (cases "x = []")
  case True
  then show ?thesis by (simp add: FindString_def)
next
  case False
  then have f: "FindString x s i = FindString_loop x s i" by (simp add: FindString_def)
  from FindString_loop_spec [OF False, of s i] show ?thesis
  proof
    assume "FindString_loop x s i = - 1 \<and> (\<forall>k\<ge>i. \<not> occurs_at x s k)"
    then show ?thesis using f by auto
  next
    assume "\<exists>k\<ge>i. FindString_loop x s i = int k \<and> occurs_at x s k \<and> (\<forall>j. i \<le> j \<and> j < k \<longrightarrow> \<not> occurs_at x s j)"
    then obtain k where k: "i \<le> k" "FindString_loop x s i = int k" "occurs_at x s k" "\<And>j. i \<le> j \<Longrightarrow> j < k \<Longrightarrow> \<not> occurs_at x s j" by blast
    then have "(LEAST k. i \<le> k \<and> occurs_at x s k) = k" by (intro Least_equality) (auto simp: not_less [symmetric])
    then show ?thesis using f k False by auto
  qed
qed

text \<open>C26: In an array of texts sorted by \<^verbatim>\<open>operator <\<close>, \<^verbatim>\<open>rt::BinarySearch\<close> returns the first position of the text, and the length
  of the array when the text is not in it.\<close>

theorem Str_BinarySearch_finds:
  assumes "sorted_wrt (\<lambda>x y. \<not> Str_less y x) arr" "r = BinarySearch Str_less arr key"
  shows "if key \<in> set arr then r < length arr \<and> arr ! r = key \<and> key \<notin> set (take r arr) else r = length arr"
proof -
  have eq: "\<not> Str_less x key \<and> \<not> Str_less key x \<longleftrightarrow> x = key" for x
    using Str_trichotomy [of x key] str_order.irrefl Str_equal_eq by blast
  have "r = BinarySearch_key Str_less TrivialGetKey arr key" by (simp add: assms(2) BinarySearch_def)
  then have "if \<exists>i<length arr. \<not> Str_less (arr ! i) key \<and> \<not> Str_less key (arr ! i)
     then r < length arr \<and> \<not> Str_less (arr ! r) key \<and> \<not> Str_less key (arr ! r) \<and> (\<forall>i<r. Str_less (arr ! i) key)
     else r = length arr"
    using str_order.BinarySearch_key_spec [of TrivialGetKey arr r key] assms(1) unfolding TrivialGetKey_def by blast
  then have "if key \<in> set arr then r < length arr \<and> arr ! r = key \<and> (\<forall>i<r. Str_less (arr ! i) key) else r = length arr"
    unfolding eq in_set_conv_nth using eq [of "arr ! r"] by (cases "\<exists>i<length arr. arr ! i = key") auto
  then show ?thesis using str_order.irrefl [of key] by (fastforce simp: in_set_conv_nth split: if_splits)
qed

theorem Str_BinarySearch_finds_witness:
  "[lit ''ab'', lit ''abc'', lit ''b''] ! BinarySearch Str_less [lit ''ab'', lit ''abc'', lit ''b''] (lit ''abc'') = lit ''abc''"
proof -
  have "sorted_wrt (\<lambda>x y. \<not> Str_less y x) [lit ''ab'', lit ''abc'', lit ''b'']" by code_simp
  then show ?thesis
    using Str_BinarySearch_finds [of "[lit ''ab'', lit ''abc'', lit ''b'']" _ "lit ''abc''", OF _ refl] by (simp del: lit_Cons)
qed

text \<open>C22: Reading lines with \<^verbatim>\<open>GetNextLine\<close> until it fails yields exactly the non-empty parts of the text between carriage returns and
  line feeds, in order; one call more than there are characters is enough.\<close>

theorem GetNextLine_all_lines:
  "map (cut s) (read_parts (GetNextLine True s) (length s + 1) None) = parts is_eol s"
  by (rule line.reads_all) simp

text \<open>C21: On a zero-terminated text, \<^verbatim>\<open>GetTokens\<close> with room for \<open>k\<close> tokens stores the first \<open>k\<close> maximal runs of token characters, or all of them
  if there are fewer, and reads no further than the terminating zero.\<close>

theorem GetTokens_runs:
  assumes "0 < k"
  shows "\<exists>ts. GetTokens S (s @ [0]) (length s) k = Some ts \<and> map (cut s) ts = take k (parts (\<lambda>c. \<not> Has S c) s)"
  using assms token.reads_parts [where k = k and x = None and S = S and s = s and r = "[]"] GetTokens_loop_read [of S s "[]" k None]
  by (simp add: GetTokens_def ref_end_def)

theorem GetTokens_runs_witness:
  "\<exists>ts. GetTokens CharacterSet_Digits (lit ''a12,3'' @ [0]) (length (lit ''a12,3'')) 5 = Some ts \<and>
    map (cut (lit ''a12,3'')) ts = [lit ''12'', lit ''3'']"
proof -
  have "take 5 (parts (\<lambda>c. \<not> Has CharacterSet_Digits c) (lit ''a12,3'')) = [lit ''12'', lit ''3'']" by code_simp
  then show ?thesis using GetTokens_runs [of 5 CharacterSet_Digits "lit ''a12,3''"] by (simp del: lit_Cons)
qed

text \<open>When a text consists of token characters only, the form of \<^verbatim>\<open>GetNextToken\<close> with the other characters tests the second byte
  behind the end: it reads outside a zero-terminated buffer, and if a token character happens to be there the part it returns
  lies behind the end of the text.\<close>

theorem GetNextToken_both_past_end:
  assumes "s \<noteq> []" "list_all (Has S) s" "Has S c"
  shows "GetNextToken_both S (s @ [0]) (length s) None None = None \<and>
    GetNextToken_both S (s @ 0 # c # r) (length s) None None = Some (Some ((0, length s), Some (length s, length s + 1)))"
proof -
  have "skip_while (Has S) s 0 = length s"
    using assms(2) skip_while_takeWhile [of 0 s "Has S"] by (simp add: list_all_iff takeWhile_eq_all_conv [THEN iffD2])
  then have t: "tok_scan (Has S) (s @ 0 # r) (length s) 0 = Some (length s, False)" for r
    using tok_scan_skip [of 0 s "Has S" 0 r] by simp
  have "tok_scan (\<lambda>c. \<not> Has S c) (s @ [0]) (length s) (length s + 1) = None" by (subst tok_scan.simps) (simp add: rd_def)
  moreover have "tok_scan (\<lambda>c. \<not> Has S c) (s @ 0 # c # r) (length s) (length s + 1) = Some (length s + 1, False)"
    using assms(3) by (subst tok_scan.simps) (simp add: rd_def nth_append)
  ultimately show ?thesis using assms(1) t [of "[]"] t [of "c # r"] by (simp add: GetNextToken_both_def ref_end_def)
qed

theorem GetNextToken_both_past_end_witness:
  "GetNextToken_both CharacterSet_Digits ([49] @ [0]) (length [49 :: byte]) None None = None \<and>
    GetNextToken_both CharacterSet_Digits ([49] @ 0 # 50 # []) (length [49 :: byte]) None None =
      Some (Some ((0, length [49 :: byte]), Some (length [49 :: byte], length [49 :: byte] + 1)))"
proof -
  have "list_all (Has CharacterSet_Digits) [49]" "Has CharacterSet_Digits 50" by code_simp+
  then show ?thesis by (intro GetNextToken_both_past_end) simp_all
qed

text \<open>C12: On a text that is not empty and has no quotation marks \<^verbatim>\<open>Split\<close> stores the fields between separators in order, as many as the array has room for, and
  returns their number; with \<^verbatim>\<open>merge_adjecent_sep\<close> a run of separators counts as one. Of the rest of the array it empties every
  entry but the first, which keeps its old value.\<close>

theorem Split_fields:
  assumes "no_quotes q1 q2 s" "s \<noteq> []" "fs \<noteq> []"
  shows "\<exists>fs' k. Split merge q1 q2 seps s fs = Some (fs', k) \<and>
    k = min (length (text_fields merge (Has seps) s)) (length fs) \<and> length fs' = length fs \<and>
    take k fs' = take k (text_fields merge (Has seps) s) \<and> drop k fs' = take 1 (drop k fs) @ map (\<lambda>_. []) (drop (k + 1) fs)"
proof -
  let ?L = "text_fields merge (Has seps) s"
  define k where "k = min (length ?L) (length fs)"
  define W where "W = take k ?L @ drop k fs"
  have k: "k \<le> length fs" "length (take k ?L) = k" by (simp_all add: k_def)
  have "Split merge q1 q2 seps s fs = Some (stored fs 0 ?L)"
    using Split_loop_fields [OF assms(1), of 0 0 fs] assms(2,3) by (simp add: Split_def)
  moreover have "stored fs 0 ?L = (empty_from (k + 1) W, k)"
    using k by (simp add: stored_def Let_def k_def [symmetric] write_at_def W_def)
  moreover define R where "R = take k ?L @ take 1 (drop k fs) @ map (\<lambda>_. []) (drop (k + 1) fs)"
  then have "empty_from (k + 1) W = R" using k by (simp add: empty_from_def W_def)
  ultimately have "Split merge q1 q2 seps s fs = Some (R, k)" by simp
  moreover have "length R = length fs" "take k R = take k ?L" "drop k R = take 1 (drop k fs) @ map (\<lambda>_. []) (drop (k + 1) fs)"
    using k by (simp_all add: R_def)
  ultimately show ?thesis unfolding k_def by blast
qed

theorem Split_fields_witness:
  "\<exists>fs' k. Split False 34 39 (the (CS_char 44)) (lit ''a,,b'') [[1], [2], [3], [4], [5]] = Some (fs', k) \<and>
    k = 3 \<and> take k fs' = [lit ''a'', [], lit ''b''] \<and> drop k fs' = [[4], []]"
proof -
  have "no_quotes 34 39 (lit ''a,,b'')" "text_fields False (Has (the (CS_char 44))) (lit ''a,,b'') = [lit ''a'', [], lit ''b'']"
    by code_simp+
  moreover have "lit ''a,,b'' \<noteq> []" by simp
  ultimately show ?thesis using Split_fields [of 34 39 "lit ''a,,b''" "[[1], [2], [3], [4], [5]]" False "the (CS_char 44)"]
    by (auto simp: numeral_3_eq_3 simp del: lit_Cons)
qed

text \<open>\<^verbatim>\<open>SplitURL\<close> takes a text apart without losing a character: either there is no protocol and the whole text is the path, or
  the protocol has no colon, the host no slash, and the three parts joined with \<^verbatim>\<open>://\<close> are the text again, up to the \<^verbatim>\<open>/\<close> that
  stands for a missing path.\<close>

theorem SplitURL_parts:
  "case SplitURL s of (protocal, host, path) \<Rightarrow>
     protocal = [] \<and> host = [] \<and> path = s \<or>
     58 \<notin> set protocal \<and> 47 \<notin> set host \<and>
       (protocal @ [58, 47, 47] @ host @ path = s \<or> path = [47] \<and> protocal @ [58, 47, 47] @ host = s)"
proof -
  define c where "c = FindCharacter 58 s 0"
  define k where "k = nat c"
  show ?thesis
  proof (cases "c < 0 \<or> int (length s) < c + 4 \<or> s ! (k + 1) \<noteq> 47 \<or> s ! (k + 2) \<noteq> 47")
    case True
    then show ?thesis by (simp add: SplitURL_def Let_def c_def [symmetric] k_def [symmetric])
  next
    case False
    define h where "h = FindCharacter 47 s (k + 3)"
    have k: "k + 4 \<le> length s" "s ! k = 58" "58 \<notin> set (take k s)"
      using False find_from_ge0 [of "\<lambda>x. x = 58" s 0] by (auto simp: c_def k_def FindCharacter_def in_set_conv_nth)
    have "drop k s = [s ! k, s ! (k + 1), s ! (k + 2)] @ drop (k + 3) s"
      using k(1) by (simp add: Cons_nth_drop_Suc numeral_3_eq_3)
    then have "s = take k s @ [s ! k, s ! (k + 1), s ! (k + 2)] @ drop (k + 3) s" by (metis append_take_drop_id)
    then have s: "s = take k s @ [58, 47, 47] @ drop (k + 3) s" using False k(2) by simp
    show ?thesis
    proof (cases "h \<ge> int (k + 3)")
      case True
      then have h: "k + 3 \<le> nat h" "nat h < length s" "47 \<notin> set (take (nat h - (k + 3)) (drop (k + 3) s))"
        using find_from_ge0 [of "\<lambda>x. x = 47" s "k + 3"] by (auto simp: h_def FindCharacter_def in_set_conv_nth)
      have "drop (k + 3) s = take (nat h - (k + 3)) (drop (k + 3) s) @ drop (nat h) s"
        using h(1) append_take_drop_id [of "nat h - (k + 3)" "drop (k + 3) s"] by simp
      then show ?thesis using s h(3) k(3) False True
        by (simp add: SplitURL_def Let_def c_def [symmetric] k_def [symmetric] h_def [symmetric])
    next
      case no: False
      then have "h < 0" using find_from_bounds [of "\<lambda>x. x = 47" s "k + 3"] by (auto simp: h_def FindCharacter_def)
      then have "47 \<notin> set (drop (k + 3) s)"
        using find_from_neg [of "\<lambda>x. x = 47" s "k + 3"] by (auto simp: h_def FindCharacter_def in_set_conv_nth)
      then show ?thesis using s k(3) False no
        by (simp add: SplitURL_def Let_def c_def [symmetric] k_def [symmetric] h_def [symmetric])
    qed
  qed
qed

text \<open>The directory and the file name of a path that has a separator make up the path, and the file name has no separator; a text
  without its extension and the extension make up the text, if the byte behind the text is neither a dot nor a path separator.\<close>

theorem path_parts:
  "(list_ex is_pathsep s \<longrightarrow> GetDirectoryName s @ GetFilename s = s) \<and> list_all (\<lambda>c. \<not> is_pathsep c) (GetFilename s) \<and>
    (\<not> is_pathsep z \<and> z \<noteq> 46 \<longrightarrow> TrimExtName z s @ GetExtName s = s)"
proof (intro conjI impI)
  assume "list_ex is_pathsep s"
  then show "GetDirectoryName s @ GetFilename s = s"
    using find_back_None [of is_pathsep s "length s"]
    by (cases "find_back is_pathsep s (length s)") (auto simp: GetDirectoryName_def GetFilename_def list_ex_length simp del: append_take_drop_id, metis append_take_drop_id)
next
  assume "\<not> is_pathsep z \<and> z \<noteq> 46"
  then show "TrimExtName z s @ GetExtName s = s"
    by (cases "ext_dot s (length s)") (simp_all add: TrimExtName_dot GetExtName_def)
qed (rule GetFilename_no_sep)

theorem path_parts_witness:
  "GetDirectoryName (lit ''a/b.c'') @ GetFilename (lit ''a/b.c'') = lit ''a/b.c'' \<and>
    TrimExtName 0 (lit ''a/b.c'') @ GetExtName (lit ''a/b.c'') = lit ''a/b.c''"
proof -
  have "list_ex is_pathsep (lit ''a/b.c'')" "\<not> is_pathsep 0" "(0 :: byte) \<noteq> 46" by code_simp+
  then show ?thesis using path_parts [of "lit ''a/b.c''" 0] by blast
qed

end
