(* ===== verification/StrHeap.thy ===== *)
theory StrHeap
  imports StrView
begin

text \<open>
  The owning strings of \<^verbatim>\<open>core/rt/string_type.h\<close>: \<^verbatim>\<open>rt::String\<close> with its reserved space, \<^verbatim>\<open>rt::StringFixed\<close> with an array of its own, and the
  lazy concatenation \<^verbatim>\<open>rt::_details::String_AddExpr\<close>. The allocation behind \<^verbatim>\<open>_p\<close> is the list of its bytes, the null pointer the
  empty allocation; a store outside it makes an operation \<open>None\<close>. The allocator is a parameter: \<open>alloc n\<close> is \<open>None\<close> when a request for
  \<open>n\<close> bytes fails and otherwise the bytes that happen to be there. Arguments are taken by value, so they must not lie inside the string that
  is changed, except where the code takes care of that.
\<close>

section \<open>Definitions\<close>

type_synonym allocator = "nat \<Rightarrow> bytes option"

subsection \<open>Concatenation\<close>

text \<open>The operands are texts (a \<^verbatim>\<open>String_Ref\<close>, or the digits of a \<^verbatim>\<open>tos::S_\<close>); \<^verbatim>\<open>CopyTo\<close> stores at an offset of the target and
  returns the number of characters stored.\<close>

(*@ core/rt/string_type.h 1036-1052 rt::_details::String_AddExpr *)
datatype str_expr = Ref bytes | AddExpr str_expr str_expr

(*@ core/rt/string_type.h 1079-1082 rt::_details::String_AddExpr::GetLength *)
fun Expr_GetLength :: "str_expr \<Rightarrow> nat" where
  "Expr_GetLength (Ref s) = length s"
| "Expr_GetLength (AddExpr l r) = Expr_GetLength l + Expr_GetLength r"

definition put :: "nat \<Rightarrow> bytes \<Rightarrow> bytes \<Rightarrow> bytes option" where
  "put i xs m = (if i + length xs \<le> length m \<or> xs = [] then Some (write_at i xs m) else None)"

(*@ core/rt/string_type.h 207-210 rt::String_Base::CopyTo *)
definition Ref_CopyTo :: "bytes \<Rightarrow> nat \<Rightarrow> bytes \<Rightarrow> (nat \<times> bytes) option" where
  "Ref_CopyTo s p m = map_option (Pair (length s)) (put p s m)"

(*@ core/rt/string_type.h 1083-1086 rt::_details::String_AddExpr::CopyTo *)
fun Expr_CopyTo :: "str_expr \<Rightarrow> nat \<Rightarrow> bytes \<Rightarrow> (nat \<times> bytes) option" where
  "Expr_CopyTo (Ref s) p m = Ref_CopyTo s p m"
| "Expr_CopyTo (AddExpr l r) p m =
    do { (len, m) \<leftarrow> Expr_CopyTo l p m; (k, m) \<leftarrow> Expr_CopyTo r (p + len) m; Some (len + k, m) }"

(*@ core/rt/string_type.h 1055-1064 rt::_details::String_AddExpr::GetSafeString *)
definition GetSafeString :: "allocator \<Rightarrow> str_expr \<Rightarrow> bytes option" where
  "GetSafeString alloc e =
    do { let len = Expr_GetLength e;
         m \<leftarrow> alloc (len + 1);
         (_, m) \<leftarrow> Expr_CopyTo e 0 m;
         put len [0] m }"

subsection \<open>StringFixed\<close>

text \<open>\<open>LEN\<close> is the template argument; the array has \<open>LEN + 2\<close> bytes.\<close>

(*@ core/rt/string_type.h 1161-1163 rt::StringFixed *)
record StringFixed =
  f_p :: bytes
  f_len :: nat

definition f_GetLength :: "StringFixed \<Rightarrow> nat" where
  "f_GetLength f = (if f_len f \<noteq> 0 then f_len f - 1 else 0)"

definition f_text :: "StringFixed \<Rightarrow> bytes" where
  "f_text f = take (f_GetLength f) (f_p f)"

definition f_put :: "nat \<Rightarrow> bytes \<Rightarrow> StringFixed \<Rightarrow> StringFixed option" where
  "f_put i xs f = map_option (\<lambda>m. f\<lparr> f_p := m \<rparr>) (put i xs (f_p f))"

(*@ core/rt/string_type.h 1171-1174 rt::StringFixed::SetLength *)
definition Fixed_SetLength :: "nat \<Rightarrow> nat \<Rightarrow> StringFixed \<Rightarrow> (bool \<times> StringFixed) option" where
  "Fixed_SetLength LEN sz f =
    (if sz \<le> LEN then map_option (Pair True) (f_put sz [0] (f\<lparr> f_len := sz + 1 \<rparr>)) else Some (False, f))"

(*@ core/rt/string_type.h 1177-1183 rt::StringFixed::operator=(String_Ref) *)
definition Fixed_assign :: "nat \<Rightarrow> bytes \<Rightarrow> StringFixed \<Rightarrow> StringFixed option" where
  "Fixed_assign LEN x f =
    (if x \<noteq> [] then
       do { (ok, f) \<leftarrow> Fixed_SetLength LEN (length x) f;
            if ok then f_put 0 (take (f_GetLength f) x) f else Some f }
     else Some (f\<lparr> f_len := 0 \<rparr>))"

(*@ core/rt/string_type.h 1184-1190 rt::StringFixed::operator= *)
definition Fixed_assign_expr :: "nat \<Rightarrow> str_expr \<Rightarrow> StringFixed \<Rightarrow> StringFixed option" where
  "Fixed_assign_expr LEN e f =
    do { (ok, f) \<leftarrow> Fixed_SetLength LEN (Expr_GetLength e) f;
         if ok then map_option (\<lambda>(_, m). f\<lparr> f_p := m \<rparr>) (Expr_CopyTo e 0 (f_p f)) else Some f }"

(*@ core/rt/string_type.h 1191-1200 rt::StringFixed::operator+= *)
definition Fixed_append :: "nat \<Rightarrow> str_expr \<Rightarrow> StringFixed \<Rightarrow> StringFixed option" where
  "Fixed_append LEN e f =
    (let len = Expr_GetLength e in
     if len + f_len f < LEN then
       do { (_, m) \<leftarrow> Expr_CopyTo e (f_GetLength f) (f_p f);
            m \<leftarrow> put (len + f_GetLength f) [0] m;
            Some (f\<lparr> f_p := m, f_len := len + f_GetLength f + 1 \<rparr>) }
     else Some f)"

(*@ core/rt/string_type.h 1202-1202 rt::StringFixed::operator+=(char) *)
definition Fixed_append_char :: "nat \<Rightarrow> byte \<Rightarrow> StringFixed \<Rightarrow> StringFixed option" where
  "Fixed_append_char LEN x f =
    do { let pos = f_GetLength f;
         (ok, f) \<leftarrow> Fixed_SetLength LEN (pos + 1) f;
         if ok then f_put pos [x] f else Some f }"

subsection \<open>String\<close>

(*@ core/rt/string_type.h 1205-1208 rt::String *)
record String =
  s_p :: bytes
  s_len :: nat
  s_reserved :: nat

(*@ core/rt/string_type.h 206-206 rt::String_Base::GetLength *)
definition s_GetLength :: "String \<Rightarrow> nat" where
  "s_GetLength S = (if s_len S \<noteq> 0 then s_len S - 1 else 0)"

definition s_text :: "String \<Rightarrow> bytes" where
  "s_text S = take (s_GetLength S) (s_p S)"

definition s_put :: "nat \<Rightarrow> bytes \<Rightarrow> String \<Rightarrow> String option" where
  "s_put i xs S = map_option (\<lambda>m. S\<lparr> s_p := m \<rparr>) (put i xs (s_p S))"

(*@ core/rt/string_type.h 1235-1235 rt::String::String *)
definition String_new :: String where
  "String_new = \<lparr> s_p = [], s_len = 0, s_reserved = 0 \<rparr>"

text \<open>The reserved size is changed before the allocation is tried.\<close>

(*@ core/rt/string_type.h 1209-1220 rt::String::_ChangeSize *)
definition String_ChangeSize :: "allocator \<Rightarrow> nat \<Rightarrow> String \<Rightarrow> (bool \<times> String) option" where
  "String_ChangeSize alloc new_size S =
    (if new_size \<le> s_reserved S then Some (True, S\<lparr> s_len := new_size \<rparr>)
     else
       let S = S\<lparr> s_reserved := max (max 16 new_size) (s_reserved S * 2) \<rparr> in
       case alloc (s_reserved S) of
         None \<Rightarrow> Some (False, S)
       | Some m \<Rightarrow>
           do { m \<leftarrow> (if s_len S \<le> length (s_p S) then put 0 (take (s_len S) (s_p S)) m else None);
                Some (True, S\<lparr> s_p := m, s_len := new_size \<rparr>) })"

(*@ core/rt/string_type.h 1222-1229 rt::String::SetLength *)
definition String_SetLength :: "allocator \<Rightarrow> nat \<Rightarrow> String \<Rightarrow> (bool \<times> String) option" where
  "String_SetLength alloc sz S =
    (if sz = 0 then
       (if s_p S \<noteq> [] \<and> s_len S > 1 then map_option (Pair True) (s_put 0 [0] (S\<lparr> s_len := 1 \<rparr>)) else Some (True, S))
     else
       do { (ok, S) \<leftarrow> String_ChangeSize alloc (sz + 1) S;
            if ok then map_option (Pair True) (s_put sz [0] S) else Some (False, S) })"

(*@ core/rt/string_type.h 1232-1232 rt::String::Empty *)
definition String_Empty :: "allocator \<Rightarrow> String \<Rightarrow> String option" where
  "String_Empty alloc S = map_option snd (String_SetLength alloc 0 S)"

(*@ core/rt/string_type.h 1231-1231 rt::String::DetachBuffer *)
definition String_DetachBuffer :: "String \<Rightarrow> bytes \<times> String" where
  "String_DetachBuffer S = (s_p S, \<lparr> s_p = [], s_len = 0, s_reserved = 0 \<rparr>)"

(*@ core/rt/string_type.h 1233-1233 rt::String::SecureEmpty *)
definition String_SecureEmpty :: "String \<Rightarrow> String option" where
  "String_SecureEmpty S = s_put 0 (replicate (s_reserved S) 0) (S\<lparr> s_len := 0 \<rparr>)"

(*@ core/rt/string_type.h 1248-1256 rt::String::operator=(String_Ref) *)
definition String_assign :: "allocator \<Rightarrow> bytes \<Rightarrow> String \<Rightarrow> String option" where
  "String_assign alloc x S =
    (if x \<noteq> [] then
       do { (ok, S) \<leftarrow> String_ChangeSize alloc (length x + 1) S;
            if ok then do { S \<leftarrow> s_put 0 (take (s_GetLength S) x) S; s_put (length x) [0] S }
            else Some S }
     else String_Empty alloc S)"

(*@ core/rt/string_type.h 1247-1247 rt::String::operator=(char) *)
definition String_assign_char :: "allocator \<Rightarrow> byte \<Rightarrow> String \<Rightarrow> String option" where
  "String_assign_char alloc x S = do { (_, S) \<leftarrow> String_SetLength alloc 1 S; s_put 0 [x] S }"

(*@ core/rt/string_type.h 1260-1270 rt::String::operator=(expression) *)
definition String_assign_expr :: "allocator \<Rightarrow> str_expr \<Rightarrow> String \<Rightarrow> String option" where
  "String_assign_expr alloc e S =
    do { let len = Expr_GetLength e;
         m \<leftarrow> alloc (len + 1);
         m \<leftarrow> put len [0] m;
         (_, m) \<leftarrow> Expr_CopyTo e 0 m;
         Some \<lparr> s_p = m, s_len = len + 1, s_reserved = len + 1 \<rparr> }"

(*@ core/rt/string_type.h 1271-1289 rt::String::operator+= *)
definition String_append :: "allocator \<Rightarrow> str_expr \<Rightarrow> String \<Rightarrow> String option" where
  "String_append alloc e S =
    (let len = Expr_GetLength e; n = s_GetLength S in
     if len + n + 1 > s_reserved S then
       do { m \<leftarrow> alloc (len + n + 1);
            m \<leftarrow> (if n \<le> length (s_p S) then put 0 (take n (s_p S)) m else None);
            (_, m) \<leftarrow> Expr_CopyTo e n m;
            m \<leftarrow> put (len + n) [0] m;
            Some \<lparr> s_p = m, s_len = len + n + 1, s_reserved = len + n + 1 \<rparr> }
     else
       do { (_, m) \<leftarrow> Expr_CopyTo e n (s_p S);
            m \<leftarrow> put (len + n) [0] m;
            Some (S\<lparr> s_p := m, s_len := len + n + 1 \<rparr>) })"

(*@ core/rt/string_type.h 1291-1291 rt::String::operator+=(char) *)
definition String_append_char :: "allocator \<Rightarrow> byte \<Rightarrow> String \<Rightarrow> String option" where
  "String_append_char alloc x S =
    do { let pos = s_GetLength S; (_, S) \<leftarrow> String_SetLength alloc (pos + 1) S; s_put pos [x] S }"

(*@ core/rt/string_type.h 1241-1241 rt::String::String(char,int) *)
fun String_fill :: "allocator \<Rightarrow> byte \<Rightarrow> nat \<Rightarrow> String \<Rightarrow> String option" where
  "String_fill alloc c 0 S = Some S"
| "String_fill alloc c (Suc n) S = do { S \<leftarrow> String_append_char alloc c S; String_fill alloc c n S }"

text \<open>\<^verbatim>\<open>pos<=GetLength()\<close> is only asserted; \<^verbatim>\<open>org_len - pos\<close> wraps otherwise, which is outside of any allocation.\<close>

(*@ core/rt/string_type.h 1451-1457 rt::String::Insert(char) *)
definition String_Insert_char :: "allocator \<Rightarrow> nat \<Rightarrow> byte \<Rightarrow> String \<Rightarrow> String option" where
  "String_Insert_char alloc pos c S =
    do { let org_len = s_GetLength S;
         (_, S) \<leftarrow> String_SetLength alloc (org_len + 1) S;
         S \<leftarrow> (if pos \<le> org_len \<and> org_len \<le> length (s_p S) then s_put (pos + 1) (take (org_len - pos) (drop pos (s_p S))) S else None);
         s_put pos [c] S }"

(*@ core/rt/string_type.h 1458-1464 rt::String::Insert *)
definition String_Insert :: "allocator \<Rightarrow> nat \<Rightarrow> bytes \<Rightarrow> String \<Rightarrow> String option" where
  "String_Insert alloc pos sub_str S =
    do { let org_len = s_GetLength S;
         (_, S) \<leftarrow> String_SetLength alloc (org_len + length sub_str) S;
         S \<leftarrow> (if pos \<le> org_len \<and> org_len \<le> length (s_p S)
              then s_put (pos + length sub_str) (take (org_len - pos) (drop pos (s_p S))) S else None);
         s_put pos sub_str S }"

(*@ core/rt/string_type.h 1481-1484 rt::String::Shorten *)
definition String_Shorten :: "allocator \<Rightarrow> nat \<Rightarrow> String \<Rightarrow> String option" where
  "String_Shorten alloc n S = map_option snd (String_SetLength alloc (s_GetLength S - n) S)"

text \<open>\<^verbatim>\<open>Last()\<close> of an empty string, and \<^verbatim>\<open>extname[0]\<close> of an empty name, are outside: \<open>None\<close>.\<close>

(*@ core/rt/string_type.h 1485-1489 rt::String::EndClosure *)
definition String_EndClosure :: "allocator \<Rightarrow> byte \<Rightarrow> String \<Rightarrow> (bool \<times> String) option" where
  "String_EndClosure alloc closure_symb S =
    do { let n = s_GetLength S;
         c \<leftarrow> (if 0 < n then rd (s_p S) (n - 1) else None);
         if c = 44 \<or> c = 46 \<or> c = 59 then map_option (Pair True) (s_put (n - 1) [closure_symb] S)
         else map_option (Pair False) (String_append_char alloc closure_symb S) }"

(*@ core/rt/string_type.h 1465-1470 rt::String::SetDefaultExtName *)
definition String_SetDefaultExtName :: "allocator \<Rightarrow> bytes \<Rightarrow> String \<Rightarrow> String option" where
  "String_SetDefaultExtName alloc extname S =
    (if GetExtName (s_text S) = [] then
       do { c \<leftarrow> rd extname 0;
            S \<leftarrow> (if c \<noteq> 46 then String_append_char alloc 46 S else Some S);
            String_append alloc (Ref extname) S }
     else Some S)"

section \<open>Stores\<close>

lemma put_Some: "i + length xs \<le> length m \<Longrightarrow> put i xs m = Some (write_at i xs m)"
  by (simp add: put_def)

lemma put_Nil [simp]: "put i [] m = Some m"
  by (simp add: put_def)

lemma length_put: "put i xs m = Some m' \<Longrightarrow> length m' = length m"
  by (cases "xs = []") (auto simp: put_def split: if_splits)

lemma put_put: "do { m \<leftarrow> put i xs m; put (i + length xs) ys m } = put i (xs @ ys) m"
proof (cases "xs = [] \<or> ys = []")
  case True
  then show ?thesis by (auto simp: put_def)
next
  case False
  then show ?thesis by (auto simp: put_def write_at_append)
qed

lemma put_put_length: "put i xs m = Some m' \<Longrightarrow> j = i + length xs \<Longrightarrow> put j ys m' = put i (xs @ ys) m"
  using put_put [of i xs m ys] by simp

lemma write_at_0: "write_at 0 xs m = xs @ drop (length xs) m"
  by (simp add: write_at_def)

lemma write_at_single: "i < length m \<Longrightarrow> write_at i [c] m = m[i := c]"
  by (simp add: write_at_def upd_conv_take_nth_drop)

lemma take_write_at_ge: "i + length xs \<le> n \<Longrightarrow> n \<le> length m \<Longrightarrow> take n (write_at i xs m) = write_at i xs (take n m)"
  by (rule nth_equalityI) (auto simp: nth_write_at)

section \<open>Concatenation\<close>

text \<open>What an assignment or \<^verbatim>\<open>+=\<close> needs of its right-hand side: \<^verbatim>\<open>CopyTo\<close> stores exactly \<^verbatim>\<open>GetLength()\<close> characters, those of one text.\<close>

locale copy_source =
  fixes get_length :: "'e \<Rightarrow> nat" and copy_to :: "'e \<Rightarrow> nat \<Rightarrow> bytes \<Rightarrow> (nat \<times> bytes) option" and chars :: "'e \<Rightarrow> bytes"
  assumes get_length: "get_length e = length (chars e)"
    and copy_to: "copy_to e p m = map_option (Pair (length (chars e))) (put p (chars e) m)"
begin

lemma copy_room: "p + get_length e \<le> length m \<Longrightarrow> copy_to e p m = Some (get_length e, write_at p (chars e) m)"
  by (simp add: copy_to get_length put_Some)

text \<open>Two sources one after the other, as \<^verbatim>\<open>String_AddExpr::CopyTo\<close> joins them.\<close>

lemma copy_twice:
  "do { (len, m) \<leftarrow> copy_to d p m; (k, m) \<leftarrow> copy_to e (p + len) m; Some (len + k, m) } =
    map_option (Pair (length (chars d @ chars e))) (put p (chars d @ chars e) m)"
  unfolding put_put [symmetric] by (auto simp: copy_to split: option.split Option.bind_splits)

end

fun expr_text :: "str_expr \<Rightarrow> bytes" where
  "expr_text (Ref s) = s"
| "expr_text (AddExpr l r) = expr_text l @ expr_text r"

interpretation ref: copy_source length Ref_CopyTo id
  by unfold_locales (simp_all add: Ref_CopyTo_def)

lemma Expr_CopyTo_put: "Expr_CopyTo e p m = map_option (Pair (length (expr_text e))) (put p (expr_text e) m)"
proof (induction e arbitrary: p m)
  case (Ref s)
  then show ?case using ref.copy_to [of s p m] by simp
next
  case (AddExpr l r)
  then show ?case unfolding expr_text.simps put_put [symmetric]
    by (auto split: option.split Option.bind_splits)
qed

interpretation cat: copy_source Expr_GetLength Expr_CopyTo expr_text
proof
  show "Expr_GetLength e = length (expr_text e)" for e by (induction e) simp_all
qed (rule Expr_CopyTo_put)

section \<open>Fixed strings\<close>

definition fixed_inv :: "nat \<Rightarrow> StringFixed \<Rightarrow> bool" where
  "fixed_inv LEN f \<longleftrightarrow> length (f_p f) = LEN + 2 \<and> f_len f \<le> LEN + 1 \<and> (f_len f = 0 \<or> f_p f ! (f_len f - 1) = 0)"

lemma nth_write_last: "length m = n \<Longrightarrow> i + length xs < n \<Longrightarrow> write_at i (xs @ [c]) m ! (i + length xs) = c"
  by (simp add: nth_write_at)

lemma Fixed_SetLength_ok:
  assumes "fixed_inv LEN f" "sz \<le> LEN"
  shows "Fixed_SetLength LEN sz f = Some (True, f\<lparr> f_len := sz + 1, f_p := (f_p f)[sz := 0] \<rparr>)"
    "fixed_inv LEN (f\<lparr> f_len := sz + 1, f_p := (f_p f)[sz := 0] \<rparr>)"
  using assms by (auto simp: fixed_inv_def Fixed_SetLength_def f_put_def put_def write_at_single)

lemma write_front_fixed:
  assumes "length m = LEN + 2" "length x \<le> LEN" "m ! length x = 0"
  shows "fixed_inv LEN \<lparr> f_p = write_at 0 x m, f_len = length x + 1 \<rparr>" "f_text \<lparr> f_p = write_at 0 x m, f_len = length x + 1 \<rparr> = x"
  using assms by (auto simp: fixed_inv_def f_text_def f_GetLength_def write_at_0 nth_append)

lemma Fixed_assign_expr_fits:
  assumes i: "fixed_inv LEN f" and l: "length (expr_text e) \<le> LEN"
  shows "\<exists>f'. Fixed_assign_expr LEN e f = Some f' \<and> fixed_inv LEN f' \<and> f_text f' = expr_text e"
proof -
  let ?m = "(f_p f)[length (expr_text e) := 0]"
  have m: "length ?m = LEN + 2" "?m ! length (expr_text e) = 0" using i l by (auto simp: fixed_inv_def)
  then have "Fixed_assign_expr LEN e f = Some (f\<lparr> f_len := length (expr_text e) + 1, f_p := write_at 0 (expr_text e) ?m \<rparr>)"
    using i l by (simp add: Fixed_assign_expr_def Fixed_SetLength_ok cat.get_length cat.copy_to put_Some)
  then show ?thesis using write_front_fixed [OF m(1) l m(2)] by (cases f) simp
qed

lemma Fixed_append_fits:
  assumes i: "fixed_inv LEN f" and l: "length (expr_text e) + f_len f < LEN"
  shows "\<exists>f'. Fixed_append LEN e f = Some f' \<and> fixed_inv LEN f' \<and> f_text f' = f_text f @ expr_text e"
proof -
  define n x where "n = f_GetLength f" and "x = expr_text e"
  have n: "n + length x + 1 \<le> LEN" "length (f_p f) = LEN + 2" using i l by (auto simp: n_def x_def f_GetLength_def fixed_inv_def)
  define m where "m = write_at n (x @ [0]) (f_p f)"
  have "Fixed_append LEN e f = Some (f\<lparr> f_p := m, f_len := length x + n + 1 \<rparr>)"
    using n l put_put_length [of n x "f_p f" "write_at n x (f_p f)" "length x + n" "[0]"]
    by (simp add: Fixed_append_def Let_def cat.get_length cat.copy_to n_def [symmetric] x_def [symmetric] put_Some m_def)
  moreover have "fixed_inv LEN (f\<lparr> f_p := m, f_len := length x + n + 1 \<rparr>)"
    using n nth_write_last [of "f_p f" "LEN + 2" n x 0] by (simp add: fixed_inv_def m_def add.commute)
  moreover have "f_text (f\<lparr> f_p := m, f_len := length x + n + 1 \<rparr>) = f_text f @ x"
  proof -
    have "f_text f = take n (f_p f)" by (simp add: f_text_def n_def)
    moreover have "f_text (f\<lparr> f_p := m, f_len := length x + n + 1 \<rparr>) = take (length x + n) m" by (simp add: f_text_def f_GetLength_def)
    ultimately show ?thesis using n by (simp add: m_def write_at_def)
  qed
  ultimately show ?thesis by (auto simp: x_def)
qed

section \<open>Heap strings\<close>

definition String_inv :: "String \<Rightarrow> bool" where
  "String_inv S \<longleftrightarrow> length (s_p S) = s_reserved S \<and> s_len S \<le> s_reserved S \<and> (s_len S = 0 \<or> s_p S ! (s_len S - 1) = 0)"

text \<open>An allocator that gives memory of the requested size, and one that also never fails.\<close>

definition sized_alloc :: "allocator \<Rightarrow> bool" where
  "sized_alloc alloc \<longleftrightarrow> (\<forall>n m. alloc n = Some m \<longrightarrow> length m = n)"

definition total_alloc :: "allocator \<Rightarrow> bool" where
  "total_alloc alloc \<longleftrightarrow> (\<forall>n. \<exists>m. alloc n = Some m \<and> length m = n)"

lemma total_allocE: "total_alloc alloc \<Longrightarrow> (\<And>m. alloc n = Some m \<Longrightarrow> length m = n \<Longrightarrow> thesis) \<Longrightarrow> thesis"
  unfolding total_alloc_def by blast

lemma String_inv_new [simp]: "String_inv String_new" "s_text String_new = []"
  by (simp_all add: String_inv_def String_new_def s_text_def)

lemma length_s_text: "String_inv S \<Longrightarrow> length (s_text S) = s_GetLength S"
  by (auto simp: String_inv_def s_text_def s_GetLength_def)

lemma String_inv_mk:
  assumes "length m = r" "length x < r" "take (length x) m = x" "m ! length x = 0"
  shows "String_inv \<lparr> s_p = m, s_len = length x + 1, s_reserved = r \<rparr>" "s_text \<lparr> s_p = m, s_len = length x + 1, s_reserved = r \<rparr> = x"
  using assms by (auto simp: String_inv_def s_text_def s_GetLength_def)

lemma String_ChangeSize_total:
  assumes "total_alloc alloc" "String_inv S"
  obtains S' where "String_ChangeSize alloc n S = Some (True, S')" "length (s_p S') = s_reserved S'" "n \<le> s_reserved S'"
    "s_len S' = n" "take (min (s_len S) n) (s_p S') = take (min (s_len S) n) (s_p S)"
proof (cases "n \<le> s_reserved S")
  case True
  then show ?thesis using that [of "S\<lparr> s_len := n \<rparr>"] assms(2) by (simp add: String_ChangeSize_def String_inv_def)
next
  case False
  define r where "r = max (max 16 n) (s_reserved S * 2)"
  obtain m where m: "alloc r = Some m" "length m = r" by (rule total_allocE [OF assms(1)])
  have l: "s_len S \<le> r" "s_len S \<le> length (s_p S)" using assms(2) False by (auto simp: String_inv_def r_def)
  define S' where "S' = S\<lparr> s_reserved := r, s_p := write_at 0 (take (s_len S) (s_p S)) m, s_len := n \<rparr>"
  have "String_ChangeSize alloc n S = Some (True, S')"
    using False m l by (simp add: String_ChangeSize_def Let_def r_def [symmetric] put_Some S'_def)
  moreover have "n \<le> r" by (simp add: r_def)
  ultimately show ?thesis using that [of S'] m l by (simp add: S'_def write_at_0 take_append)
qed

text \<open>A store into the characters of a string changes its text only.\<close>

lemma s_put_text:
  assumes "String_inv S" "i + length xs \<le> s_GetLength S"
  shows "\<exists>S'. s_put i xs S = Some S' \<and> String_inv S' \<and> s_text S' = write_at i xs (s_text S) \<and> s_len S' = s_len S \<and> s_reserved S' = s_reserved S"
proof (cases "xs = []")
  case True
  then show ?thesis using assms(1) by (simp add: s_put_def)
next
  case False
  define n where "n = s_GetLength S"
  have n: "s_len S = n + 1" "length (s_p S) = s_reserved S" "n + 1 \<le> s_reserved S" "s_p S ! n = 0" "i + length xs \<le> n"
    using assms False by (auto simp: String_inv_def n_def s_GetLength_def split: if_splits)
  then have "s_put i xs S = Some (S\<lparr> s_p := write_at i xs (s_p S) \<rparr>)" by (simp add: s_put_def put_Some)
  moreover have "String_inv (S\<lparr> s_p := write_at i xs (s_p S) \<rparr>)" using n by (simp add: String_inv_def nth_write_at)
  moreover have "s_text (S\<lparr> s_p := write_at i xs (s_p S) \<rparr>) = write_at i xs (s_text S)"
    using n take_write_at_ge [of i xs n "s_p S"] by (simp add: s_text_def s_GetLength_def)
  ultimately show ?thesis by auto
qed

lemma String_SetLength_total:
  assumes "total_alloc alloc" "String_inv S"
  obtains S' where "String_SetLength alloc n S = Some (True, S')" "String_inv S'" "s_GetLength S' = n"
    "take (min n (s_GetLength S)) (s_text S') = take (min n (s_GetLength S)) (s_text S)"
proof (cases "n = 0")
  case True
  show ?thesis
  proof (cases "s_p S \<noteq> [] \<and> s_len S > 1")
    case True
    then have "String_SetLength alloc n S = Some (True, S\<lparr> s_len := 1, s_p := (s_p S)[0 := 0] \<rparr>)"
      using \<open>n = 0\<close> by (simp add: String_SetLength_def s_put_def put_Some write_at_single Suc_le_eq)
    moreover have "String_inv (S\<lparr> s_len := 1, s_p := (s_p S)[0 := 0] \<rparr>)" using True assms(2) by (auto simp: String_inv_def)
    ultimately show ?thesis using that \<open>n = 0\<close> by (simp add: s_GetLength_def)
  next
    case False
    then have "s_len S \<le> 1" using assms(2) by (auto simp: String_inv_def)
    then show ?thesis using False that [of S] assms(2) \<open>n = 0\<close> by (auto simp: String_SetLength_def s_GetLength_def)
  qed
next
  case False
  obtain S1 where S1: "String_ChangeSize alloc (n + 1) S = Some (True, S1)" "length (s_p S1) = s_reserved S1" "n + 1 \<le> s_reserved S1"
      "s_len S1 = n + 1" "take (min (s_len S) (n + 1)) (s_p S1) = take (min (s_len S) (n + 1)) (s_p S)"
    by (rule String_ChangeSize_total [OF assms])
  define S' where "S' = S1\<lparr> s_p := (s_p S1)[n := 0] \<rparr>"
  define k where "k = min n (s_GetLength S)"
  have "k \<le> min (s_len S) (n + 1)" "k \<le> n" by (auto simp: k_def s_GetLength_def)
  then have "take k (s_p S1) = take k (s_p S)" using arg_cong [OF S1(5), of "take k"] by (simp add: min.absorb1)
  then have "take k (s_text S') = take k (s_text S)"
    using S1 \<open>k \<le> n\<close> by (simp add: s_text_def S'_def s_GetLength_def min_def k_def)
  moreover have "String_SetLength alloc n S = Some (True, S')"
    using False S1 by (simp add: String_SetLength_def s_put_def put_Some write_at_single S'_def)
  moreover have "String_inv S'" "s_GetLength S' = n" using S1 by (simp_all add: String_inv_def S'_def s_GetLength_def)
  ultimately show ?thesis using that by (simp add: k_def)
qed

subsection \<open>The operations as steps\<close>

datatype str_op =
  OpAssign bytes | OpAssignChar byte | OpAssignExpr str_expr | OpAppend str_expr | OpAppendChar byte | OpSetLength nat
  | OpEmpty | OpSecureEmpty | OpInsertChar nat byte | OpInsert nat bytes | OpShorten nat

fun str_step :: "allocator \<Rightarrow> str_op \<Rightarrow> String \<Rightarrow> String option" where
  "str_step alloc (OpAssign x) S = String_assign alloc x S"
| "str_step alloc (OpAssignChar c) S = String_assign_char alloc c S"
| "str_step alloc (OpAssignExpr e) S = String_assign_expr alloc e S"
| "str_step alloc (OpAppend e) S = String_append alloc e S"
| "str_step alloc (OpAppendChar c) S = String_append_char alloc c S"
| "str_step alloc (OpSetLength n) S = map_option snd (String_SetLength alloc n S)"
| "str_step alloc OpEmpty S = String_Empty alloc S"
| "str_step alloc OpSecureEmpty S = String_SecureEmpty S"
| "str_step alloc (OpInsertChar pos c) S = String_Insert_char alloc pos c S"
| "str_step alloc (OpInsert pos x) S = String_Insert alloc pos x S"
| "str_step alloc (OpShorten n) S = String_Shorten alloc n S"

text \<open>The same operations on the text alone. \<^verbatim>\<open>SetLength\<close> keeps what fits and leaves new characters open; an insertion
  asks for a position inside the text.\<close>

fun text_step :: "str_op \<Rightarrow> bytes \<Rightarrow> bytes \<Rightarrow> bool" where
  "text_step (OpAssign x) s t \<longleftrightarrow> t = x"
| "text_step (OpAssignChar c) s t \<longleftrightarrow> t = [c]"
| "text_step (OpAssignExpr e) s t \<longleftrightarrow> t = expr_text e"
| "text_step (OpAppend e) s t \<longleftrightarrow> t = s @ expr_text e"
| "text_step (OpAppendChar c) s t \<longleftrightarrow> t = s @ [c]"
| "text_step (OpSetLength n) s t \<longleftrightarrow> length t = n \<and> take (min n (length s)) t = take (min n (length s)) s"
| "text_step OpEmpty s t \<longleftrightarrow> t = []"
| "text_step OpSecureEmpty s t \<longleftrightarrow> t = []"
| "text_step (OpInsertChar pos c) s t \<longleftrightarrow> t = take pos s @ c # drop pos s"
| "text_step (OpInsert pos x) s t \<longleftrightarrow> t = take pos s @ x @ drop pos s"
| "text_step (OpShorten n) s t \<longleftrightarrow> t = take (length s - n) s"

fun op_ok :: "str_op \<Rightarrow> bytes \<Rightarrow> bool" where
  "op_ok (OpInsertChar pos c) s \<longleftrightarrow> pos \<le> length s"
| "op_ok (OpInsert pos x) s \<longleftrightarrow> pos \<le> length s"
| "op_ok op s \<longleftrightarrow> True"

lemma String_Empty_total:
  assumes "total_alloc alloc" "String_inv S"
  shows "\<exists>S'. String_Empty alloc S = Some S' \<and> String_inv S' \<and> s_text S' = []"
proof -
  obtain S' where "String_SetLength alloc 0 S = Some (True, S')" "String_inv S'" "s_GetLength S' = 0"
    by (rule String_SetLength_total [OF assms])
  then show ?thesis by (simp add: String_Empty_def s_text_def)
qed

lemma String_assign_total:
  assumes "total_alloc alloc" "String_inv S"
  shows "\<exists>S'. String_assign alloc x S = Some S' \<and> String_inv S' \<and> s_text S' = x"
proof (cases "x = []")
  case True
  then show ?thesis using String_Empty_total [OF assms] by (simp add: String_assign_def)
next
  case False
  obtain S1 where S1: "String_ChangeSize alloc (length x + 1) S = Some (True, S1)" "length (s_p S1) = s_reserved S1"
      "length x + 1 \<le> s_reserved S1" "s_len S1 = length x + 1"
    by (rule String_ChangeSize_total [OF assms])
  let ?m = "write_at 0 (x @ [0]) (s_p S1)"
  have "String_assign alloc x S = Some (S1\<lparr> s_p := ?m \<rparr>)"
    using False S1 put_put_length [of 0 x "s_p S1" "write_at 0 x (s_p S1)" "length x" "[0]"]
    by (simp add: String_assign_def s_GetLength_def s_put_def put_Some)
  moreover have "String_inv (S1\<lparr> s_p := ?m \<rparr>)" "s_text (S1\<lparr> s_p := ?m \<rparr>) = x"
    using String_inv_mk [of ?m "s_reserved S1" x] S1 by (simp_all add: write_at_0 nth_append String_inv_def s_text_def s_GetLength_def)
  ultimately show ?thesis by blast
qed

lemma String_assign_expr_total:
  assumes "total_alloc alloc"
  shows "\<exists>S'. String_assign_expr alloc e S = Some S' \<and> String_inv S' \<and> s_text S' = expr_text e"
proof -
  define n where "n = length (expr_text e)"
  obtain m where m: "alloc (n + 1) = Some m" "length m = n + 1" by (rule total_allocE [OF assms])
  have "String_assign_expr alloc e S = Some \<lparr> s_p = write_at 0 (expr_text e) (m[n := 0]), s_len = n + 1, s_reserved = n + 1 \<rparr>"
    using m by (simp add: String_assign_expr_def cat.get_length cat.copy_to n_def [symmetric] put_Some write_at_single)
  then show ?thesis using m String_inv_mk [of "write_at 0 (expr_text e) (m[n := 0])" "n + 1" "expr_text e"]
    by (simp add: n_def write_at_0 nth_append)
qed

text \<open>The terminator of the old text is not needed: \<^verbatim>\<open>+=\<close> also works on a string whose \<^verbatim>\<open>_len\<close> was cut.\<close>

lemma String_append_cut:
  assumes "total_alloc alloc" "length (s_p S) = s_reserved S" "s_len S \<le> s_reserved S"
  shows "\<exists>S'. String_append alloc e S = Some S' \<and> String_inv S' \<and> s_text S' = s_text S @ expr_text e"
proof -
  define n x where "n = s_GetLength S" and "x = expr_text e"
  have n: "n \<le> length (s_p S)" "length (s_p S) = s_reserved S" "s_text S = take n (s_p S)"
    using assms(2,3) by (auto simp: n_def s_GetLength_def s_text_def)
  have fin: "String_inv \<lparr> s_p = write_at n (x @ [0]) m, s_len = length x + n + 1, s_reserved = length m \<rparr> \<and>
      s_text \<lparr> s_p = write_at n (x @ [0]) m, s_len = length x + n + 1, s_reserved = length m \<rparr> = s_text S @ x"
    if "take n m = s_text S" "length x + n + 1 \<le> length m" for m
    using that n String_inv_mk [of "write_at n (x @ [0]) m" "length m" "s_text S @ x"] nth_write_last [of m "length m" n x 0]
    by (simp add: write_at_def add.commute)
  show ?thesis
  proof (cases "length x + n + 1 > s_reserved S")
    case True
    obtain m where m: "alloc (length x + n + 1) = Some m" "length m = length x + n + 1" by (rule total_allocE [OF assms(1)])
    let ?m = "write_at 0 (take n (s_p S)) m"
    have "String_append alloc e S = Some \<lparr> s_p = write_at n (x @ [0]) ?m, s_len = length x + n + 1, s_reserved = length ?m \<rparr>"
      using True m n put_put_length [of n x ?m "write_at n x ?m" "length x + n" "[0]"]
      by (simp add: String_append_def Let_def cat.get_length cat.copy_to x_def [symmetric] n_def [symmetric] put_Some)
    moreover have "take n ?m = s_text S" "length x + n + 1 \<le> length ?m" using m n by (simp_all add: write_at_0)
    ultimately show ?thesis using fin [of ?m] by (simp add: x_def)
  next
    case False
    have "String_append alloc e S = Some (S\<lparr> s_p := write_at n (x @ [0]) (s_p S), s_len := length x + n + 1 \<rparr>)"
      using False n put_put_length [of n x "s_p S" "write_at n x (s_p S)" "length x + n" "[0]"]
      by (simp add: String_append_def Let_def cat.get_length cat.copy_to x_def [symmetric] n_def [symmetric] put_Some)
    moreover have "S\<lparr> s_p := write_at n (x @ [0]) (s_p S), s_len := length x + n + 1 \<rparr> =
        \<lparr> s_p = write_at n (x @ [0]) (s_p S), s_len = length x + n + 1, s_reserved = length (s_p S) \<rparr>" using n(2) by simp
    ultimately have "String_append alloc e S =
        Some \<lparr> s_p = write_at n (x @ [0]) (s_p S), s_len = length x + n + 1, s_reserved = length (s_p S) \<rparr>" by (simp only:)
    then show ?thesis using fin [of "s_p S"] False n by (simp add: x_def)
  qed
qed

lemma String_append_total:
  assumes "total_alloc alloc" "String_inv S"
  shows "\<exists>S'. String_append alloc e S = Some S' \<and> String_inv S' \<and> s_text S' = s_text S @ expr_text e"
  using String_append_cut [OF assms(1), of S e] assms(2) by (simp add: String_inv_def [of S])

lemma String_append_char_total:
  assumes "total_alloc alloc" "String_inv S"
  shows "\<exists>S'. String_append_char alloc c S = Some S' \<and> String_inv S' \<and> s_text S' = s_text S @ [c]"
proof -
  define n where "n = s_GetLength S"
  obtain S1 where S1: "String_SetLength alloc (n + 1) S = Some (True, S1)" "String_inv S1" "s_GetLength S1 = n + 1"
      "take (min (n + 1) (s_GetLength S)) (s_text S1) = take (min (n + 1) (s_GetLength S)) (s_text S)"
    by (rule String_SetLength_total [OF assms])
  have t: "take n (s_text S1) = s_text S" "length (s_text S1) = n + 1"
    using S1(3,4) length_s_text [OF assms(2)] length_s_text [OF S1(2)] by (simp_all add: n_def)
  obtain S2 where "s_put n [c] S1 = Some S2" "String_inv S2" "s_text S2 = write_at n [c] (s_text S1)"
    using s_put_text [OF S1(2), of n "[c]"] S1(3) by auto
  moreover have "write_at n [c] (s_text S1) = s_text S @ [c]" using t by (simp add: write_at_def)
  ultimately show ?thesis using S1(1) by (simp add: String_append_char_def n_def)
qed

lemma String_assign_char_total:
  assumes "total_alloc alloc" "String_inv S"
  shows "\<exists>S'. String_assign_char alloc c S = Some S' \<and> String_inv S' \<and> s_text S' = [c]"
proof -
  obtain S1 where S1: "String_SetLength alloc 1 S = Some (True, S1)" "String_inv S1" "s_GetLength S1 = 1"
    by (rule String_SetLength_total [OF assms])
  obtain S2 where "s_put 0 [c] S1 = Some S2" "String_inv S2" "s_text S2 = write_at 0 [c] (s_text S1)"
    using s_put_text [OF S1(2), of 0 "[c]"] S1(3) by auto
  then show ?thesis using S1(1,3) length_s_text [OF S1(2)] by (simp add: String_assign_char_def write_at_0)
qed

text \<open>The two insertions store the tail behind the new characters and then the new characters.\<close>

lemma insert_stores:
  assumes "total_alloc alloc" "String_inv S" "pos \<le> s_GetLength S"
  defines "n \<equiv> s_GetLength S"
  obtains S1 S2 S3 where "String_SetLength alloc (n + length x) S = Some (True, S1)" "n \<le> length (s_p S1)"
    "s_put (pos + length x) (take (n - pos) (drop pos (s_p S1))) S1 = Some S2"
    "s_put pos x S2 = Some S3" "String_inv S3" "s_text S3 = take pos (s_text S) @ x @ drop pos (s_text S)"
proof -
  obtain S1 where S1: "String_SetLength alloc (n + length x) S = Some (True, S1)" "String_inv S1" "s_GetLength S1 = n + length x"
      "take (min (n + length x) (s_GetLength S)) (s_text S1) = take (min (n + length x) (s_GetLength S)) (s_text S)"
    by (rule String_SetLength_total [OF assms(1,2)])
  have l: "length (s_text S) = n" "length (s_text S1) = n + length x"
    using length_s_text [OF assms(2)] length_s_text [OF S1(2)] S1(3) by (simp_all add: n_def)
  have t: "take n (s_text S1) = s_text S" using S1(4) l by (simp add: n_def)
  have p: "n + length x \<le> length (s_p S1)" "take n (s_p S1) = s_text S"
    using S1(2,3) t by (auto simp: String_inv_def s_GetLength_def s_text_def min_def split: if_splits)
  have tail: "take (n - pos) (drop pos (s_p S1)) = drop pos (s_text S)" using p(2) by (simp add: drop_take [symmetric])
  obtain S2 where S2: "s_put (pos + length x) (drop pos (s_text S)) S1 = Some S2" "String_inv S2"
      "s_text S2 = write_at (pos + length x) (drop pos (s_text S)) (s_text S1)" "s_len S2 = s_len S1"
    using s_put_text [OF S1(2), of "pos + length x" "drop pos (s_text S)"] S1(3) l assms(3) by (auto simp: n_def)
  have "s_GetLength S2 = n + length x" using S2(4) S1(3) by (auto simp: s_GetLength_def split: if_splits)
  then obtain S3 where S3: "s_put pos x S2 = Some S3" "String_inv S3" "s_text S3 = write_at pos x (s_text S2)"
    using s_put_text [OF S2(2), of pos x] assms(3) by (auto simp: n_def)
  have "take pos (s_text S1) = take pos (s_text S)" using arg_cong [OF t, of "take pos"] assms(3) by (simp add: n_def min_def)
  then have "s_text S3 = take pos (s_text S) @ x @ drop pos (s_text S)"
    unfolding S3(3) S2(3) using l assms(3) by (simp add: write_at_def n_def)
  then show ?thesis using that S1(1) p(1) S2(1) S3 tail by simp
qed

lemma str_step_text:
  assumes "total_alloc alloc" "String_inv S" "op_ok op (s_text S)"
  shows "\<exists>S'. str_step alloc op S = Some S' \<and> String_inv S' \<and> text_step op (s_text S) (s_text S')"
proof (cases op)
  case (OpSetLength n)
  obtain S1 where "String_SetLength alloc n S = Some (True, S1)" "String_inv S1" "s_GetLength S1 = n"
      "take (min n (s_GetLength S)) (s_text S1) = take (min n (s_GetLength S)) (s_text S)"
    by (rule String_SetLength_total [OF assms(1,2)])
  then show ?thesis using OpSetLength length_s_text [of S] length_s_text [of S1] assms(2) by simp
next
  case (OpShorten n)
  define k where "k = s_GetLength S - n"
  obtain S1 where S1: "String_SetLength alloc k S = Some (True, S1)" "String_inv S1" "s_GetLength S1 = k"
      "take (min k (s_GetLength S)) (s_text S1) = take (min k (s_GetLength S)) (s_text S)"
    by (rule String_SetLength_total [OF assms(1,2)])
  then have "s_text S1 = take k (s_text S)" using length_s_text [OF S1(2)] by (simp add: k_def min_def)
  then show ?thesis using OpShorten S1 length_s_text [OF assms(2)] by (simp add: String_Shorten_def k_def)
next
  case (OpInsertChar pos c)
  then have pos: "pos \<le> s_GetLength S" using assms(3) length_s_text [OF assms(2)] by simp
  show ?thesis by (rule insert_stores [OF assms(1,2) pos, where x = "[c]"]) (use OpInsertChar pos in \<open>simp add: String_Insert_char_def\<close>)
next
  case (OpInsert pos x)
  then have pos: "pos \<le> s_GetLength S" using assms(3) length_s_text [OF assms(2)] by simp
  show ?thesis by (rule insert_stores [OF assms(1,2) pos, where x = x]) (use OpInsert pos in \<open>simp add: String_Insert_def\<close>)
next
  case OpSecureEmpty
  have "length (s_p S) = s_reserved S" using assms(2) by (simp add: String_inv_def)
  then show ?thesis using OpSecureEmpty
    by (simp add: String_SecureEmpty_def s_put_def put_Some String_inv_def s_text_def s_GetLength_def)
qed (use assms String_assign_total String_assign_char_total String_assign_expr_total String_append_total String_append_char_total
      String_Empty_total in simp_all)

text \<open>Sequences of operations.\<close>

fun str_run :: "allocator \<Rightarrow> str_op list \<Rightarrow> String \<Rightarrow> String option" where
  "str_run alloc [] S = Some S"
| "str_run alloc (op # ops) S = do { S \<leftarrow> str_step alloc op S; str_run alloc ops S }"

inductive text_run :: "str_op list \<Rightarrow> bytes \<Rightarrow> bytes \<Rightarrow> bool" where
  text_nil: "text_run [] s s"
| text_cons: "text_step op s t \<Longrightarrow> text_run ops t u \<Longrightarrow> text_run (op # ops) s u"

text \<open>A sequence whose insertions lie inside the text whatever the characters left open by \<^verbatim>\<open>SetLength\<close>.\<close>

fun ops_ok :: "str_op list \<Rightarrow> bytes \<Rightarrow> bool" where
  "ops_ok [] s = True"
| "ops_ok (op # ops) s \<longleftrightarrow> op_ok op s \<and> (\<forall>t. text_step op s t \<longrightarrow> ops_ok ops t)"

lemma str_run_text:
  assumes "total_alloc alloc"
  shows "String_inv S \<Longrightarrow> ops_ok ops (s_text S) \<Longrightarrow>
    \<exists>S'. str_run alloc ops S = Some S' \<and> String_inv S' \<and> text_run ops (s_text S) (s_text S')"
proof (induction ops arbitrary: S)
  case Nil
  then show ?case by (simp add: text_run.text_nil)
next
  case (Cons op ops)
  then obtain S1 where S1: "str_step alloc op S = Some S1" "String_inv S1" "text_step op (s_text S) (s_text S1)"
    using str_step_text [OF assms, of S op] by auto
  then obtain S' where "str_run alloc ops S1 = Some S'" "String_inv S'" "text_run ops (s_text S1) (s_text S')"
    using Cons.IH [OF S1(2)] Cons.prems(2) by auto
  then show ?case using S1 by (auto intro: text_run.text_cons)
qed

section \<open>Properties\<close>

text \<open>C1: Refinement: while memory lasts, every sequence of assignments, \<^verbatim>\<open>+=\<close>, \<^verbatim>\<open>SetLength\<close>, \<^verbatim>\<open>Insert\<close>, \<^verbatim>\<open>Shorten\<close> and \<^verbatim>\<open>Empty\<close> on a well-formed
  \<^verbatim>\<open>String\<close> stays inside the allocation, keeps the string well-formed and zero-terminated, and changes its text as the same
  operations on plain texts do.\<close>

theorem String_refines_text:
  assumes "total_alloc alloc" "String_inv S" "ops_ok ops (s_text S)"
  shows "\<exists>S'. str_run alloc ops S = Some S' \<and> String_inv S' \<and> text_run ops (s_text S) (s_text S')"
  by (rule str_run_text [OF assms])

definition zero_alloc :: allocator where
  "zero_alloc n = Some (replicate n 0)"

lemma total_zero_alloc: "total_alloc zero_alloc"
  by (simp add: total_alloc_def zero_alloc_def)

theorem String_refines_text_witness:
  "\<exists>S'. str_run zero_alloc [OpAssign [97, 98], OpInsert 1 [99], OpAppend (AddExpr (Ref [100]) (Ref [101])), OpShorten 1] String_new = Some S' \<and>
    String_inv S' \<and>
    text_run [OpAssign [97, 98], OpInsert 1 [99], OpAppend (AddExpr (Ref [100]) (Ref [101])), OpShorten 1] (s_text String_new) (s_text S')"
  by (rule String_refines_text [OF total_zero_alloc]) simp_all

text \<open>C36: \<^verbatim>\<open>StringFixed::operator+=\<close> never stores outside its array: it appends the whole expression or leaves the string as it
  is. The bound counts the terminating zero of a string that has one, so that an expression which would just fit is refused.\<close>

theorem StringFixed_append_bounded:
  assumes "fixed_inv LEN f"
  shows "\<exists>f'. Fixed_append LEN e f = Some f' \<and> fixed_inv LEN f' \<and>
    f_text f' = (if length (expr_text e) + f_len f < LEN then f_text f @ expr_text e else f_text f)"
proof (cases "length (expr_text e) + f_len f < LEN")
  case True
  then show ?thesis using Fixed_append_fits [OF assms True] by simp
next
  case False
  then show ?thesis using assms by (simp add: Fixed_append_def Let_def cat.get_length)
qed

theorem StringFixed_append_bounded_witness:
  "\<exists>f'. Fixed_append 4 (Ref [99, 100]) \<lparr> f_p = [97, 98, 0, 0, 0, 0], f_len = 3 \<rparr> = Some f' \<and> fixed_inv 4 f' \<and> f_text f' = [97, 98]"
proof -
  have "fixed_inv 4 \<lparr> f_p = [97, 98, 0, 0, 0, 0], f_len = 3 \<rparr>" by code_simp
  from StringFixed_append_bounded [OF this, of "Ref [99, 100]"] show ?thesis by (simp add: f_text_def f_GetLength_def)
qed

text \<open>\<^verbatim>\<open>String::_ChangeSize\<close> raises the reserved size before it asks for memory. After a failed \<^verbatim>\<open>SetLength\<close> the string is no longer
  well-formed, and the next assignment that the reserved size seems to have room for stores outside the allocation.\<close>

theorem String_failed_SetLength:
  assumes "16 \<le> n" "alloc (n + 1) = None" "x \<noteq> []" "length x \<le> n"
  shows "\<exists>S. String_SetLength alloc n String_new = Some (False, S) \<and> \<not> String_inv S \<and> String_assign alloc' x S = None"
proof -
  let ?S = "String_new\<lparr> s_reserved := n + 1 \<rparr>"
  have "String_SetLength alloc n String_new = Some (False, ?S)"
    using assms(1,2) by (simp add: String_SetLength_def String_ChangeSize_def String_new_def Let_def max_def)
  moreover have "\<not> String_inv ?S" by (simp add: String_inv_def String_new_def)
  moreover have "String_assign alloc' x ?S = None"
    using assms(3,4) by (cases x) (auto simp: String_assign_def String_ChangeSize_def String_new_def s_put_def s_GetLength_def put_def)
  ultimately show ?thesis by blast
qed

theorem String_failed_SetLength_witness:
  "\<exists>S. String_SetLength (\<lambda>_. None) 20 String_new = Some (False, S) \<and> \<not> String_inv S \<and> String_assign zero_alloc [97] S = None"
  by (rule String_failed_SetLength) simp_all

end
