(* ===== verification/StrEdit.thy ===== *)
theory StrEdit
  imports StrHeap
begin

text \<open>
  The operations of \<^verbatim>\<open>rt::String_Base\<close>, \<^verbatim>\<open>rt::String_Ref\<close> and \<^verbatim>\<open>rt::String\<close> (\<^verbatim>\<open>core/rt/string_type.h\<close>) that rewrite a text: character by character,
  by removing characters in place, by replacing one text with another, and by adding and removing escape characters. The loops
  that read and write the same array are modelled on the array, with the two positions of the code; a text is the bytes \<open>m\<close> from
  \<^verbatim>\<open>Begin()\<close> on and its length \<open>n\<close> where bytes behind its end are read.
\<close>

unbundle bit_operations_syntax

section \<open>Definitions\<close>

subsection \<open>Character by character\<close>

(*@ core/rt/string_type.h 273-277 rt::String_Base::MakeUpper *)
definition MakeUpper :: "bytes \<Rightarrow> bytes" where
  "MakeUpper s = map (\<lambda>c. if c_int c \<ge> 97 \<and> c_int c \<le> 122 then c - (97 - 65) else c) s"

(*@ core/rt/string_type.h 278-282 rt::String_Base::MakeLower *)
definition MakeLower :: "bytes \<Rightarrow> bytes" where
  "MakeLower s = map (\<lambda>c. if c_int c \<ge> 65 \<and> c_int c \<le> 90 then c + (97 - 65) else c) s"

(*@ core/rt/string_type.h 299-303 rt::String_Base::Replace(char,char) *)
definition Replace_char :: "byte \<Rightarrow> byte \<Rightarrow> bytes \<Rightarrow> bytes" where
  "Replace_char a b s = map (\<lambda>c. if c = a then b else c) s"

(*@ core/rt/string_type.h 304-308 rt::String_Base::Replace(CharacterSet,char) *)
definition Replace_set :: "charset \<Rightarrow> byte \<Rightarrow> bytes \<Rightarrow> bytes" where
  "Replace_set seps b s = map (\<lambda>c. if Has seps c then b else c) s"

(*@ core/rt/string_type.h 319-323 rt::String_Base::ReplaceIllegalFilenameCharacters *)
definition ReplaceIllegalFilenameCharacters :: "byte \<Rightarrow> bytes \<Rightarrow> bytes" where
  "ReplaceIllegalFilenameCharacters w s =
    (let illegal = the (CS_str [92, 47, 58, 42, 63, 34, 62, 60, 124]) in map (\<lambda>c. if Has illegal c then w else c) s)"

(*@ core/rt/string_type.h 324-327 rt::String_Base::ReplaceControlCharacters *)
definition ReplaceControlCharacters :: "byte \<Rightarrow> bytes \<Rightarrow> bytes" where
  "ReplaceControlCharacters w s = map (\<lambda>c. if (c_int c > 0 \<and> c_int c < 32) \<or> c = 0xff then w else c) s"

(*@ core/rt/string_type.h 328-331 rt::String_Base::NormalizePathSeparator *)
definition NormalizePathSeparator :: "byte \<Rightarrow> bytes \<Rightarrow> bytes" where
  "NormalizePathSeparator w s = map (\<lambda>c. if c = 92 \<or> c = 47 then w else c) s"

(*@ core/rt/string_type.h 344-347 rt::String_Base::Fill *)
definition Fill :: "byte \<Rightarrow> bytes \<Rightarrow> bytes" where
  "Fill c s = replicate (length s) c"

(*@ core/rt/string_type.h 901-905 rt::String_Ref::Flip *)
function Flip_loop :: "bytes \<Rightarrow> nat \<Rightarrow> bytes" where
  "Flip_loop s i =
    (if i < length s div 2 then Flip_loop (s[i := s ! (length s - i - 1), length s - i - 1 := s ! i]) (i + 1) else s)"
  by pat_completeness auto
termination by (relation "measure (\<lambda>(s, i). length s div 2 - i)") auto

declare Flip_loop.simps [simp del]

definition Flip :: "bytes \<Rightarrow> bytes" where
  "Flip s = Flip_loop s 0"

subsection \<open>In place\<close>

text \<open>\<open>p\<close> is the character read, \<open>open\<close> the place of the next character kept; the result is the array and the number of
  characters kept.\<close>

(*@ core/rt/string_type.h 336-343 rt::String_Base::RemoveCharacters *)
function RemoveCharacters_loop :: "charset \<Rightarrow> bytes \<Rightarrow> nat \<Rightarrow> nat \<Rightarrow> bytes \<times> nat" where
  "RemoveCharacters_loop S m p opn =
    (if p < length m then
       (if \<not> Has S (m ! p) then RemoveCharacters_loop S (m[opn := m ! p]) (p + 1) (opn + 1)
        else RemoveCharacters_loop S m (p + 1) opn)
     else (m, opn))"
  by pat_completeness auto
termination by (relation "measure (\<lambda>(S, m, p, opn). length m - p)") auto

declare RemoveCharacters_loop.simps [simp del]

definition RemoveCharacters :: "charset \<Rightarrow> bytes \<Rightarrow> bytes" where
  "RemoveCharacters S s = (case RemoveCharacters_loop S s 0 0 of (m, opn) \<Rightarrow> take opn m)"

text \<open>Replacing a text by one of the same length. \<^verbatim>\<open>GetLength() - len\<close> is unsigned and wraps when the text is shorter than what is
  searched, so that the loop reads behind the text: \<open>None\<close>, as when the replacement is too short (the equal length is only asserted).\<close>

definition overlay :: "nat \<Rightarrow> bytes \<Rightarrow> bytes \<Rightarrow> bytes" where
  "overlay i xs s = map (\<lambda>k. if i \<le> k \<and> k < i + length xs then xs ! (k - i) else s ! k) [0..<length s]"

(*@ core/rt/string_type.h 359-369 rt::String_Base::Replace(String_Ref,String_Ref) *)
function Replace_same_loop :: "bytes \<Rightarrow> bytes \<Rightarrow> bytes \<Rightarrow> nat \<Rightarrow> bytes" where
  "Replace_same_loop a b s i =
    (if i < length s - length a then
       (if take (length a) (drop i s) = a then Replace_same_loop a b (overlay i (take (length a) b) s) (i + (length a - 1) + 1)
        else Replace_same_loop a b s (i + 1))
     else s)"
  by pat_completeness auto
termination by (relation "measure (\<lambda>(a, b, s, i). length s - length a - i)") (auto simp: overlay_def)

declare Replace_same_loop.simps [simp del]

(*@ core/rt/string_type.h 355-369 rt::String_Base::Replace(String_Ref,String_Ref) *)
definition Replace_same :: "bytes \<Rightarrow> bytes \<Rightarrow> bytes \<Rightarrow> bytes option" where
  "Replace_same a b s =
    (if length a = 0 then Some s
     else if length s < length a \<or> length b < length a then None
     else Some (Replace_same_loop a b s 0))"

text \<open>Percent-decoding. A digit is \<^verbatim>\<open>c>='A' ? c-'A'+10 : c-'0'\<close>, an \<^verbatim>\<open>int\<close>; the two may lie behind the text. The result is the
  array and the new length.\<close>

definition url_digit :: "byte \<Rightarrow> int" where
  "url_digit c = (if c_int c \<ge> 65 then c_int c - 65 + 10 else c_int c - 48)"

function DecodedURL_loop :: "bytes \<Rightarrow> nat \<Rightarrow> nat \<Rightarrow> nat \<Rightarrow> (bytes \<times> nat) option" where
  "DecodedURL_loop m n i c =
    (if i < n then
       (case rd m i of
          None \<Rightarrow> None
        | Some x \<Rightarrow>
            if x \<noteq> 37 then DecodedURL_loop (m[c := x]) n (i + 1) (c + 1)
            else (case (rd m (i + 1), rd m (i + 2)) of
                (Some h, Some l) \<Rightarrow> DecodedURL_loop (m[c := word_of_int (push_bit 4 (url_digit h) OR url_digit l)]) n (i + 3) (c + 1)
              | _ \<Rightarrow> None))
     else Some (m, c))"
  by pat_completeness auto
termination by (relation "measure (\<lambda>(m, n, i, c). n - i)") auto

declare DecodedURL_loop.simps [simp del]

(*@ core/rt/string_type.h 663-677 rt::String_Base::DecodedURL *)
definition DecodedURL :: "bytes \<Rightarrow> nat \<Rightarrow> (bytes \<times> nat) option" where
  "DecodedURL m n = DecodedURL_loop m n 0 0"

text \<open>\<^verbatim>\<open>RegularizeUTF8\<close> marks the bytes after a leading byte as continuation bytes; a byte that is neither ASCII nor the lead of two or three
  bytes is dropped.\<close>

definition cont_byte :: "byte \<Rightarrow> byte" where
  "cont_byte b = 0x80 OR (0x3f AND b)"

function RegularizeUTF8_loop :: "bytes \<Rightarrow> nat \<Rightarrow> nat \<Rightarrow> nat \<Rightarrow> (bytes \<times> nat) option" where
  "RegularizeUTF8_loop m n i p =
    (if i < n then
       (case rd m i of
          None \<Rightarrow> None
        | Some c \<Rightarrow>
            if c AND 0x80 = 0 then RegularizeUTF8_loop (m[p := c]) n (i + 1) (p + 1)
            else if c AND 0xe0 = 0xc0 then
              (case rd (m[p := c]) (i + 1) of
                 None \<Rightarrow> None
               | Some d \<Rightarrow> RegularizeUTF8_loop (m[p := c, p + 1 := cont_byte d]) n (i + 2) (p + 2))
            else if c AND 0xf0 = 0xe0 then
              (case rd (m[p := c]) (i + 1) of
                 None \<Rightarrow> None
               | Some d \<Rightarrow>
                   (case rd (m[p := c, p + 1 := cont_byte d]) (i + 2) of
                      None \<Rightarrow> None
                    | Some e \<Rightarrow> RegularizeUTF8_loop (m[p := c, p + 1 := cont_byte d, p + 2 := cont_byte e]) n (i + 3) (p + 3)))
            else RegularizeUTF8_loop m n (i + 1) p)
     else Some (m, p))"
  by pat_completeness auto
termination by (relation "measure (\<lambda>(m, n, i, p). n - i)") auto

declare RegularizeUTF8_loop.simps [simp del]

(*@ core/rt/string_type.h 796-806 rt::String_Base::RegularizeUTF8 *)
definition RegularizeUTF8 :: "bytes \<Rightarrow> nat \<Rightarrow> (bytes \<times> nat) option" where
  "RegularizeUTF8 m n = RegularizeUTF8_loop m n 0 0"

subsection \<open>Escape characters\<close>

text \<open>\<open>f\<close> is what happens to the character behind an escape sign: nothing, or \<^verbatim>\<open>unescape.Mapped\<close>. The loop works in place, reading at \<open>s\<close>
  and writing at \<open>p\<close>; the character at which it ends is handled after it.\<close>

function Unescape_loop :: "(byte \<Rightarrow> byte) \<Rightarrow> byte \<Rightarrow> bytes \<Rightarrow> nat \<Rightarrow> nat \<Rightarrow> nat \<Rightarrow> bytes \<times> nat \<times> nat" where
  "Unescape_loop f escape_sign m n s p =
    (if s + 1 < n then
       (if m ! s = escape_sign then Unescape_loop f escape_sign (m[p := f (m ! (s + 1))]) n (s + 2) (p + 1)
        else Unescape_loop f escape_sign (m[p := m ! s]) n (s + 1) (p + 1))
     else (m, s, p))"
  by pat_completeness auto
termination by (relation "measure (\<lambda>(f, e, m, n, s, p). n - s)") auto

declare Unescape_loop.simps [simp del]

definition Unescape_with :: "(byte \<Rightarrow> byte) \<Rightarrow> byte \<Rightarrow> bytes \<Rightarrow> nat \<Rightarrow> (bytes \<times> nat) option" where
  "Unescape_with f escape_sign m n =
    (case Unescape_loop f escape_sign m n 0 0 of (m, s, p) \<Rightarrow>
       map_option (\<lambda>c. if c \<noteq> escape_sign then (m[p := c], p + 1) else (m, p)) (rd m s))"

(*@ core/rt/string_type.h 609-619 rt::String_Base::UnescapeCharacters *)
definition UnescapeCharacters :: "byte \<Rightarrow> bytes \<Rightarrow> nat \<Rightarrow> (bytes \<times> nat) option" where
  "UnescapeCharacters escape_sign m n = Unescape_with (\<lambda>c. c) escape_sign m n"

(*@ core/rt/string_type.h 620-630 rt::String_Base::UnescapeCharacters(CharacterSet) *)
definition UnescapeCharacters_set :: "charset \<Rightarrow> byte \<Rightarrow> bytes \<Rightarrow> nat \<Rightarrow> (bytes \<times> nat) option" where
  "UnescapeCharacters_set unescape escape_sign m n = Unescape_with (Mapped unescape) escape_sign m n"

text \<open>Into another string the same characters are stored one after the other; \<open>z\<close> is the byte behind the input.\<close>

fun unescape_text :: "(byte \<Rightarrow> byte) \<Rightarrow> byte \<Rightarrow> byte \<Rightarrow> bytes \<Rightarrow> bytes" where
  "unescape_text f e z [] = (if z \<noteq> e then [z] else [])"
| "unescape_text f e z [c] = (if c \<noteq> e then [c] else [])"
| "unescape_text f e z (c # d # s) = (if c = e then f d # unescape_text f e z s else c # unescape_text f e z (d # s))"

definition String_Unescape_with :: "allocator \<Rightarrow> (byte \<Rightarrow> byte) \<Rightarrow> byte \<Rightarrow> byte \<Rightarrow> bytes \<Rightarrow> String \<Rightarrow> String option" where
  "String_Unescape_with alloc f escape_sign z input S =
    do { (_, S) \<leftarrow> String_SetLength alloc (length input) S;
         let out = unescape_text f escape_sign z input;
         S \<leftarrow> s_put 0 out S;
         s_put (length out) [0] (S\<lparr> s_len := length out + 1 \<rparr>) }"

(*@ core/rt/string_type.h 1338-1350 rt::String::UnescapeCharacters(input) *)
definition String_Unescape :: "allocator \<Rightarrow> byte \<Rightarrow> byte \<Rightarrow> bytes \<Rightarrow> String \<Rightarrow> String option" where
  "String_Unescape alloc escape_sign z input S = String_Unescape_with alloc (\<lambda>c. c) escape_sign z input S"

(*@ core/rt/string_type.h 1351-1363 rt::String::UnescapeCharacters(input,CharacterSet) *)
definition String_Unescape_set :: "allocator \<Rightarrow> charset \<Rightarrow> byte \<Rightarrow> byte \<Rightarrow> bytes \<Rightarrow> String \<Rightarrow> String option" where
  "String_Unescape_set alloc escape escape_sign z input S = String_Unescape_with alloc (Mapped escape) escape_sign z input S"

(*@ core/rt/string_type.h 1331-1337 rt::String::UnescapeCharacters *)
definition String_Unescape_inplace :: "byte \<Rightarrow> String \<Rightarrow> String option" where
  "String_Unescape_inplace escape_sign S =
    (if s_text S \<noteq> [] then
       do { (m, p) \<leftarrow> UnescapeCharacters escape_sign (s_p S) (s_GetLength S);
            s_put p [0] (S\<lparr> s_p := m, s_len := p + 1 \<rparr>) }
     else Some S)"

definition must_escape :: "charset \<Rightarrow> byte \<Rightarrow> byte \<Rightarrow> bool" where
  "must_escape E escape_sign c \<longleftrightarrow> c = escape_sign \<or> Has E c"

definition replace_count :: "charset \<Rightarrow> byte \<Rightarrow> bytes \<Rightarrow> nat" where
  "replace_count E escape_sign s = length (filter (must_escape E escape_sign) s)"

definition escape_text :: "charset \<Rightarrow> byte \<Rightarrow> bytes \<Rightarrow> bytes" where
  "escape_text E escape_sign s = concat (map (\<lambda>c. if must_escape E escape_sign c then [escape_sign, Mapped E c] else [c]) s)"

(*@ core/rt/string_type.h 1364-1385 rt::String::EscapeCharacters(input) *)
definition String_Escape :: "allocator \<Rightarrow> charset \<Rightarrow> byte \<Rightarrow> bytes \<Rightarrow> String \<Rightarrow> String option" where
  "String_Escape alloc E escape_sign input S =
    (if replace_count E escape_sign input \<noteq> 0 then
       do { (_, S) \<leftarrow> String_SetLength alloc (length input + replace_count E escape_sign input) S;
            s_put 0 (escape_text E escape_sign input) S }
     else String_assign alloc input S)"

text \<open>In place the characters are moved from the last one on: \<open>k\<close> characters are left to read, \<open>p\<close> places to fill. \<open>None\<close> is a
  store before the array.\<close>

(*@ core/rt/string_type.h 1393-1401 rt::String::EscapeCharacters *)
fun Escape_back :: "charset \<Rightarrow> byte \<Rightarrow> bytes \<Rightarrow> nat \<Rightarrow> nat \<Rightarrow> bytes option" where
  "Escape_back E e m 0 p = Some m"
| "Escape_back E e m (Suc k) p =
    (if must_escape E e (m ! k) then
       (if 2 \<le> p then Escape_back E e (m[p - 1 := Mapped E (m ! k), p - 2 := e]) k (p - 2) else None)
     else if 1 \<le> p then Escape_back E e (m[p - 1 := m ! k]) k (p - 1) else None)"

(*@ core/rt/string_type.h 1386-1406 rt::String::EscapeCharacters *)
definition String_Escape_inplace :: "allocator \<Rightarrow> charset \<Rightarrow> byte \<Rightarrow> String \<Rightarrow> String option" where
  "String_Escape_inplace alloc E escape_sign S =
    (let n = s_GetLength S; co = replace_count E escape_sign (s_text S) in
     if co \<noteq> 0 then
       do { (_, S) \<leftarrow> String_SetLength alloc (n + co) S;
            m \<leftarrow> (if n + co \<le> length (s_p S) then Escape_back E escape_sign (s_p S) n (n + co) else None);
            Some (S\<lparr> s_p := m \<rparr>) }
     else Some S)"

subsection \<open>Replacing one text with another\<close>

text \<open>\<^verbatim>\<open>strstr\<close> sees both texts up to their first zero character.\<close>

definition c_str :: "bytes \<Rightarrow> bytes" where
  "c_str s = takeWhile (\<lambda>c. c \<noteq> 0) s"

definition strstr :: "bytes \<Rightarrow> bytes \<Rightarrow> int" where
  "strstr s x = (if c_str x = [] then 0 else FindString (c_str x) (c_str s) 0)"

text \<open>The offset is cast to \<^verbatim>\<open>int\<close> before it is returned.\<close>

(*@ core/rt/string_type.h 1299-1301 rt::String::FindString *)
definition String_FindString :: "bytes \<Rightarrow> bytes \<Rightarrow> nat \<Rightarrow> int" where
  "String_FindString pSub s skip_first =
    (if skip_first < length s \<and> strstr (drop skip_first s) pSub \<ge> 0 then int32 (strstr (drop skip_first s) pSub + int skip_first) else - 1)"

text \<open>\<open>tmp\<close> is the text so far, \<open>s\<close> the offset from which it is searched and \<open>k\<close> the number of replacements, an unsigned
  32-bit integer. Each concatenation is assigned as an expression, into new memory. \<open>None\<close> is a loop that does not end.\<close>

(*@ core/rt/string_type.h 1321-1327 rt::String::Replace *)
partial_function (option) Replace_loop :: "bytes \<Rightarrow> bytes \<Rightarrow> bytes \<Rightarrow> nat \<Rightarrow> u32 \<Rightarrow> (bytes \<times> u32) option" where
  "Replace_loop a b tmp s k =
    (let p = String_FindString a tmp s in
     if p < 0 then Some (tmp, k)
     else Replace_loop a b (expr_text (AddExpr (AddExpr (Ref (SubStrHead (nat p) tmp)) (Ref b)) (Ref (SubStr_from (nat p + length a) tmp))))
            (nat p + length b) (k + 1))"

(*@ core/rt/string_type.h 1314-1330 rt::String::Replace *)
definition String_Replace :: "bytes \<Rightarrow> bytes \<Rightarrow> bytes \<Rightarrow> (bytes \<times> u32) option" where
  "String_Replace a b s = (if a = [] then Some (s, 0) else Replace_loop a b s 0 0)"

text \<open>\<^verbatim>\<open>ReplaceTo\<close> has no test for an empty search text.\<close>

(*@ core/rt/string_type.h 863-877 rt::String_Ref::ReplaceTo *)
definition ReplaceTo :: "bytes \<Rightarrow> bytes \<Rightarrow> bytes \<Rightarrow> (bytes \<times> u32) option" where
  "ReplaceTo a b s = Replace_loop a b s 0 0"

(*@ core/rt/string_type.h 1307-1310 rt::String::Replace(char,String_Ref) *)
fun Replace_char_loop :: "allocator \<Rightarrow> byte \<Rightarrow> bytes \<Rightarrow> bytes \<Rightarrow> String \<Rightarrow> String option" where
  "Replace_char_loop alloc a b [] tmp = Some tmp"
| "Replace_char_loop alloc a b (c # s) tmp =
    do { tmp \<leftarrow> (if c = a then String_append alloc (Ref b) tmp else String_append_char alloc c tmp);
         Replace_char_loop alloc a b s tmp }"

(*@ core/rt/string_type.h 1303-1313 rt::String::Replace(char,String_Ref) *)
definition String_Replace_char :: "allocator \<Rightarrow> byte \<Rightarrow> bytes \<Rightarrow> String \<Rightarrow> String option" where
  "String_Replace_char alloc a b S =
    do { (_, tmp) \<leftarrow> String_SetLength alloc (s_GetLength S * length b) String_new;
         (_, tmp) \<leftarrow> String_SetLength alloc 0 tmp;
         Replace_char_loop alloc a b (s_text S) tmp }"

subsection \<open>The in-place operations of String\<close>

text \<open>\<^verbatim>\<open>String\<close> repeats the operations of \<^verbatim>\<open>String_Ref\<close> and sets the terminating zero again.\<close>

(*@ core/rt/string_type.h 1297-1297 rt::String::RemoveCharacters *)
definition String_RemoveCharacters :: "charset \<Rightarrow> String \<Rightarrow> String option" where
  "String_RemoveCharacters C S =
    (case RemoveCharacters_loop C (s_text S) 0 0 of (m, k) \<Rightarrow>
     let S = S\<lparr> s_p := write_at 0 m (s_p S), s_len := k + 1 \<rparr> in
     if k \<noteq> 0 \<and> s_p S \<noteq> [] then s_put k [0] S else Some S)"

(*@ core/rt/string_type.h 1298-1298 rt::String::RecalculateLength *)
definition String_RecalculateLength :: "String \<Rightarrow> String option" where
  "String_RecalculateLength S =
    (if s_p S \<noteq> [] then
       (let i = find_from (\<lambda>c. c = 0) (s_p S) 0 in if i \<ge> 0 then Some (S\<lparr> s_len := nat i + 1 \<rparr>) else None)
     else Some (S\<lparr> s_len := 0 \<rparr>))"

definition terminate :: "bytes \<times> nat \<Rightarrow> String \<Rightarrow> String option" where
  "terminate r S = s_put (snd r) [0] (S\<lparr> s_p := fst r, s_len := snd r + 1 \<rparr>)"

(*@ core/rt/string_type.h 1471-1475 rt::String::RegularizeUTF8 *)
definition String_RegularizeUTF8 :: "String \<Rightarrow> String option" where
  "String_RegularizeUTF8 S = do { r \<leftarrow> RegularizeUTF8 (s_p S) (s_GetLength S); terminate r S }"

(*@ core/rt/string_type.h 1476-1480 rt::String::DecodedURL *)
definition String_DecodedURL :: "String \<Rightarrow> String option" where
  "String_DecodedURL S = do { r \<leftarrow> DecodedURL (s_p S) (s_GetLength S); terminate r S }"

subsection \<open>Comments of source code\<close>

text \<open>\<open>m\<close> is the code and what follows it, \<open>n\<close> the length of the code, \<open>out\<close> the characters stored so far. The parity of
  \<^verbatim>\<open>s-p\<close> is that of one more than the number of backslashes before \<open>p\<close>. A quotation that is not closed ends the loop at the end of the
  code; \<^verbatim>\<open>out[-1]\<close> before the first character is outside.\<close>

fun backslashes :: "bytes \<Rightarrow> nat \<Rightarrow> nat" where
  "backslashes m 0 = 0"
| "backslashes m (Suc k) = (if m ! k = 92 then Suc (backslashes m k) else 0)"

(*@ core/rt/string_type.h 1420-1427 rt::String::TrimCodeComments *)
function copy_quoted :: "bytes \<Rightarrow> nat \<Rightarrow> byte \<Rightarrow> nat \<Rightarrow> bytes \<Rightarrow> nat \<times> bytes \<times> bool" where
  "copy_quoted m n quotation p out =
    (if p < n then
       let out = out @ [m ! p] in
       if m ! p = quotation \<and> even (backslashes m p) then (p, out, True) else copy_quoted m n quotation (p + 1) out
     else (p, out, False))"
  by pat_completeness auto
termination by (relation "measure (\<lambda>(m, n, q, p, out). n - p)") auto

declare copy_quoted.simps [simp del]

(*@ core/rt/string_type.h 1437-1439 rt::String::TrimCodeComments *)
function block_end :: "bytes \<Rightarrow> nat \<Rightarrow> nat \<Rightarrow> nat" where
  "block_end m n p = (if p < n \<and> \<not> (m ! (p - 1) = 42 \<and> m ! p = 47) then block_end m n (p + 1) else p)"
  by pat_completeness auto
termination by (relation "measure (\<lambda>(m, n, p). n - p)") auto

declare block_end.simps [simp del]

lemma copy_quoted_ge: "p \<le> fst (copy_quoted m n q p out)"
proof (induction m n q p out rule: copy_quoted.induct)
  case (1 m n q p out)
  then show ?case by (subst copy_quoted.simps) (auto simp: Let_def)
qed

lemma block_end_ge: "p \<le> block_end m n p"
proof (induction m n p rule: block_end.induct)
  case (1 m n p)
  then show ?case by (subst block_end.simps) auto
qed

(*@ core/rt/string_type.h 1415-1446 rt::String::TrimCodeComments *)
function TrimCodeComments_loop :: "bytes \<Rightarrow> nat \<Rightarrow> nat \<Rightarrow> bytes \<Rightarrow> (nat \<times> bytes) option" where
  "TrimCodeComments_loop m n p out =
    (if p + 1 < n then
       if m ! p = 34 \<or> m ! p = 39 then
         (case copy_quoted m n (m ! p) (p + 1) (out @ [m ! p]) of (p, out, closed) \<Rightarrow>
            if closed then TrimCodeComments_loop m n (p + 1) out else Some (p, out))
       else if m ! p = 47 \<and> m ! (p + 1) = 47 then
         (let p = skip_while (\<lambda>c. \<not> is_eol c) (take n m) (p + 2) in
          if out = [] then None
          else if is_eol (last out) then TrimCodeComments_loop m n (skip_while is_eol (take n m) p) out
          else TrimCodeComments_loop m n p out)
       else
         (let p = (if m ! p = 47 \<and> m ! (p + 1) = 42 then block_end m n (p + 2) + 1 else p) in
          case rd m p of None \<Rightarrow> None | Some c \<Rightarrow> TrimCodeComments_loop m n (p + 1) (out @ [c]))
     else Some (p, out))"
  by pat_completeness auto
termination
proof (relation "measure (\<lambda>(m, n, p, out). n - p)", goal_cases)
  case (2 m n p out p' y out' closed)
  then have "p + 1 \<le> p'" using copy_quoted_ge [of "p + 1" m n "m ! p" "out @ [m ! p]"] by (metis fst_conv)
  then show ?case using 2(1) by simp
next
  case (3 m n p out p')
  then have "p + 2 \<le> skip_while is_eol (take n m) p'"
    using skip_while_ge [of "p + 2" "\<lambda>c. \<not> is_eol c" "take n m"] skip_while_ge [of p' is_eol "take n m"] by simp
  then show ?case using 3(1) by simp
next
  case (4 m n p out p')
  then show ?case using skip_while_ge [of "p + 2" "\<lambda>c. \<not> is_eol c" "take n m"] by simp
next
  case (5 m n p out p' c)
  then have "p \<le> p'" using block_end_ge [of "p + 2" m n] by (auto split: if_splits)
  then show ?case using 5(1) by simp
qed simp

declare TrimCodeComments_loop.simps [simp del]

(*@ core/rt/string_type.h 1407-1450 rt::String::TrimCodeComments *)
definition TrimCodeComments :: "bytes \<Rightarrow> nat \<Rightarrow> bytes option" where
  "TrimCodeComments m n =
    (if n = 0 then Some []
     else do { (p, out) \<leftarrow> TrimCodeComments_loop m n 0 [];
               Some (if p < n then out @ [m ! p] else out) })"

section \<open>Removing characters in place\<close>

lemma drop_two: "q + 1 < length m \<Longrightarrow> drop q m = m ! q # m ! (q + 1) # drop (q + 2) m"
  by (simp add: Cons_nth_drop_Suc)

lemma RemoveCharacters_loop_filter:
  "opn \<le> p \<Longrightarrow> p \<le> length m \<Longrightarrow> RemoveCharacters_loop S m p opn = (m', k) \<Longrightarrow>
    k \<le> length m' \<and> length m' = length m \<and> take k m' = take opn m @ filter (\<lambda>c. \<not> Has S c) (drop p m)"
proof (induction S m p opn rule: RemoveCharacters_loop.induct)
  case (1 S m p opn)
  show ?case
  proof (cases "p < length m")
    case False
    then show ?thesis using 1(3,4,5) by (subst (asm) RemoveCharacters_loop.simps) auto
  next
    case True
    then have d: "drop p m = m ! p # drop (p + 1) m" by (simp add: Cons_nth_drop_Suc)
    show ?thesis
    proof (cases "Has S (m ! p)")
      case h: True
      then show ?thesis using 1(2) [OF True] 1(3-5) True d by (subst (asm) (2) RemoveCharacters_loop.simps) auto
    next
      case h: False
      then have "RemoveCharacters_loop S (m[opn := m ! p]) (p + 1) (opn + 1) = (m', k)"
        using 1(5) True by (subst (asm) RemoveCharacters_loop.simps) simp
      moreover have "take (opn + 1) (m[opn := m ! p]) = take opn m @ [m ! p]" using 1(3) True by (simp add: take_Suc_update)
      moreover have "drop (p + 1) (m[opn := m ! p]) = drop (p + 1) m" using 1(3) by simp
      ultimately show ?thesis using 1(1) [OF True h] 1(3) True h d by simp
    qed
  qed
qed

section \<open>Unescaping in place\<close>

text \<open>The write position stays behind the read position, so the in-place loop produces what a copying loop does.\<close>

lemma Unescape_loop_ge: "s \<le> fst (snd (Unescape_loop f e m n s p))"
proof (induction f e m n s p rule: Unescape_loop.induct)
  case (1 f e m n s p)
  then show ?case by (subst Unescape_loop.simps) auto
qed

lemma Unescape_loop_text:
  assumes "p \<le> s" "s \<le> n" "n < length m" "Unescape_loop f e m n s p = (m', s', p')"
  shows "p' \<le> s' \<and> s' \<le> n \<and> length m' = length m \<and> m' ! s' = m ! s' \<and>
    take p' m' @ (if m ! s' \<noteq> e then [m ! s'] else []) = take p m @ unescape_text f e (m ! n) (take (n - s) (drop s m))"
  using assms
proof (induction f e m n s p rule: Unescape_loop.induct)
  case (1 f e m n s p)
  show ?case
  proof (cases "s + 1 < n")
    case False
    then have l: "m' = m" "s' = s" "p' = p" using 1(6) by (subst (asm) Unescape_loop.simps; simp)+
    have "s = n \<or> s + 1 = n" using False 1(4) by auto
    moreover have "take (n - s) (drop s m) = [m ! s]" if "s + 1 = n"
    proof -
      have "drop s m = m ! s # drop (s + 1) m" "n - s = 1" using 1(5) that by (auto simp: Cons_nth_drop_Suc)
      then show ?thesis by simp
    qed
    ultimately show ?thesis using l 1(3,4,5) by auto
  next
    case True
    have len: "s + 1 < length m" using True 1(5) by simp
    have d: "take (n - s) (drop s m) = m ! s # m ! (s + 1) # take (n - (s + 2)) (drop (s + 2) m)"
      using drop_two [OF len] True by (simp add: Suc_diff_Suc numeral_2_eq_2 flip: Suc_diff_Suc)
    have d1: "m ! (s + 1) # take (n - (s + 2)) (drop (s + 2) m) = take (n - (s + 1)) (drop (s + 1) m)"
    proof -
      have "drop (s + 1) m = m ! (s + 1) # drop (s + 2) m" using len by (simp add: Cons_nth_drop_Suc)
      moreover have "n - (s + 1) = Suc (n - (s + 2))" using True by simp
      ultimately show ?thesis by simp
    qed
    show ?thesis
    proof (cases "m ! s = e")
      case e: True
      define w where "w = f (m ! (s + 1))"
      let ?m = "m[p := w]"
      have l: "Unescape_loop f e ?m n (s + 2) (p + 1) = (m', s', p')" using 1(6) True e by (subst (asm) Unescape_loop.simps) (simp add: w_def)
      note IH = 1(1) [OF True e, folded w_def, OF _ _ _ l]
      have s2: "s + 2 \<le> s'" using Unescape_loop_ge [of "s + 2" f e ?m n "p + 1"] l by simp
      have "take (p + 1) ?m = take p m @ [w]" using 1(3) len by (simp add: take_Suc_update)
      moreover have "drop (s + 2) ?m = drop (s + 2) m" "?m ! n = m ! n" using 1(3) True by simp_all
      moreover have "?m ! s' = m ! s'" using 1(3) s2 by simp
      moreover have "f (m ! Suc s) = w" by (simp add: w_def)
      ultimately show ?thesis using IH 1(3,4,5) True e d by (cases "m ! s' = e") simp_all
    next
      case e: False
      let ?m = "m[p := m ! s]"
      have l: "Unescape_loop f e ?m n (s + 1) (p + 1) = (m', s', p')" using 1(6) True e by (subst (asm) Unescape_loop.simps) simp
      note IH = 1(2) [OF True e _ _ _ this]
      have s1: "s + 1 \<le> s'" using Unescape_loop_ge [of "s + 1" f e ?m n "p + 1"] l by simp
      have "take (p + 1) ?m = take p m @ [m ! s]" using 1(3) len by (simp add: take_Suc_update)
      moreover have "drop (s + 1) ?m = drop (s + 1) m" "?m ! n = m ! n" using 1(3) True by simp_all
      moreover have "?m ! s' = m ! s'" using 1(3) s1 by simp
      moreover have "unescape_text f e (m ! n) (take (n - s) (drop s m)) =
          m ! s # unescape_text f e (m ! n) (take (n - (s + 1)) (drop (s + 1) m))"
        unfolding d d1 [symmetric] using e by simp
      ultimately show ?thesis using IH 1(3,4,5) True by (cases "m ! s' = e") simp_all
    qed
  qed
qed

lemma Unescape_with_text:
  assumes "n < length m"
  shows "\<exists>m' k. Unescape_with f e m n = Some (m', k) \<and> length m' = length m \<and> k \<le> n + 1 \<and>
    take k m' = unescape_text f e (m ! n) (take n m)"
proof -
  obtain m' s' p' where l: "Unescape_loop f e m n 0 0 = (m', s', p')" by (metis prod_cases3)
  note t = Unescape_loop_text [of 0 0 n m f e m' s' p', OF _ _ assms l]
  have "s' < length m'" "p' < length m'" using t assms by auto
  then have "rd m' s' = Some (m ! s')" using t by (simp add: rd_def)
  then show ?thesis using t l assms \<open>p' < length m'\<close> by (auto simp: Unescape_with_def take_Suc_update)
qed

section \<open>Escaping\<close>

lemma length_escape_text: "length (escape_text E e s) = length s + replace_count E e s"
  by (induction s) (simp_all add: escape_text_def replace_count_def)

lemma escape_text_snoc: "escape_text E e (s @ [c]) = escape_text E e s @ (if must_escape E e c then [e, Mapped E c] else [c])"
  by (simp add: escape_text_def)

lemma replace_count_snoc: "replace_count E e (s @ [c]) = replace_count E e s + (if must_escape E e c then 1 else 0)"
  by (simp add: replace_count_def)

text \<open>Moving the characters from the last one on never overwrites one that is still to be read.\<close>

lemma Escape_back_text:
  assumes "k \<le> length m" "p = k + replace_count E e (take k m)" "p \<le> length m"
  shows "\<exists>m'. Escape_back E e m k p = Some m' \<and> length m' = length m \<and> take p m' = escape_text E e (take k m) \<and> drop p m' = drop p m"
  using assms
proof (induction k arbitrary: m p)
  case 0
  then show ?case by (simp add: escape_text_def replace_count_def)
next
  case (Suc k)
  define c where "c = m ! k"
  have t: "take (Suc k) m = take k m @ [c]" using Suc.prems(1) by (simp add: take_Suc_conv_app_nth c_def)
  show ?case
  proof (cases "must_escape E e c")
    case True
    let ?m = "m[p - 1 := Mapped E c, p - 2 := e]"
    have p: "p = k + replace_count E e (take k m) + 2" using Suc.prems(2) True by (simp add: t replace_count_snoc)
    have tk: "take k ?m = take k m" "k \<le> length ?m" "p - 2 \<le> length ?m" using p Suc.prems by simp_all
    then have "p - 2 = k + replace_count E e (take k ?m)" using p by simp
    from Suc.IH [OF tk(2) this tk(3)]
    obtain m' where m': "Escape_back E e ?m k (p - 2) = Some m'" "length m' = length m"
        "take (p - 2) m' = escape_text E e (take k m)" "drop (p - 2) m' = drop (p - 2) ?m"
      unfolding tk(1) by auto
    have "drop (p - 2) ?m = [e, Mapped E c] @ drop p m"
      using drop_two [of "p - 2" ?m] Suc.prems(3) p by (simp add: numeral_2_eq_2)
    then have "m' = escape_text E e (take (Suc k) m) @ drop p m"
      using m'(3,4) append_take_drop_id [of "p - 2" m'] True by (simp add: t escape_text_snoc)
    moreover have "length (escape_text E e (take (Suc k) m)) = p" using Suc.prems by (simp add: length_escape_text)
    ultimately show ?thesis using m'(1,2) True p by (simp add: c_def)
  next
    case False
    let ?m = "m[p - 1 := c]"
    have p: "p = k + replace_count E e (take k m) + 1" using Suc.prems(2) False by (simp add: t replace_count_snoc)
    have tk: "take k ?m = take k m" "k \<le> length ?m" "p - 1 \<le> length ?m" using p Suc.prems by simp_all
    then have "p - 1 = k + replace_count E e (take k ?m)" using p by simp
    from Suc.IH [OF tk(2) this tk(3)]
    obtain m' where m': "Escape_back E e ?m k (p - 1) = Some m'" "length m' = length m"
        "take (p - 1) m' = escape_text E e (take k m)" "drop (p - 1) m' = drop (p - 1) ?m"
      unfolding tk(1) by auto
    have "drop (p - 1) ?m = [c] @ drop p m" using Suc.prems(3) p by (simp add: Cons_nth_drop_Suc [symmetric])
    then have "m' = escape_text E e (take (Suc k) m) @ drop p m"
      using m'(3,4) append_take_drop_id [of "p - 1" m'] False by (simp add: t escape_text_snoc)
    moreover have "length (escape_text E e (take (Suc k) m)) = p" using Suc.prems by (simp add: length_escape_text)
    ultimately show ?thesis using m'(1,2) False p by (simp add: c_def)
  qed
qed

lemma String_Escape_inplace_text:
  assumes "total_alloc alloc" "String_inv S"
  shows "\<exists>S'. String_Escape_inplace alloc E e S = Some S' \<and> String_inv S' \<and> s_text S' = escape_text E e (s_text S)"
proof (cases "replace_count E e (s_text S) = 0")
  case True
  then have "list_all (\<lambda>c. \<not> must_escape E e c) (s_text S)" by (auto simp: replace_count_def filter_empty_conv list_all_iff)
  then have "escape_text E e (s_text S) = s_text S" by (induction "s_text S") (auto simp: escape_text_def list_all_iff cong: map_cong)
  then show ?thesis using True assms(2) by (simp add: String_Escape_inplace_def)
next
  case False
  define n co where "n = s_GetLength S" and "co = replace_count E e (s_text S)"
  obtain S1 where S1: "String_SetLength alloc (n + co) S = Some (True, S1)" "String_inv S1" "s_GetLength S1 = n + co"
      "take (min (n + co) (s_GetLength S)) (s_text S1) = take (min (n + co) (s_GetLength S)) (s_text S)"
    by (rule String_SetLength_total [OF assms])
  have l: "length (s_text S) = n" using length_s_text [OF assms(2)] by (simp add: n_def)
  have p: "s_len S1 = n + co + 1" "n + co < length (s_p S1)" "s_p S1 ! (n + co) = 0" "length (s_p S1) = s_reserved S1"
    using S1(2,3) False by (auto simp: String_inv_def s_GetLength_def co_def split: if_splits)
  have tn: "take n (s_p S1) = s_text S"
    using S1(4) l p by (simp add: n_def [symmetric] s_text_def [of S1] S1(3))
  obtain m where m: "Escape_back E e (s_p S1) n (n + co) = Some m" "length m = length (s_p S1)"
      "take (n + co) m = escape_text E e (s_text S)" "drop (n + co) m = drop (n + co) (s_p S1)"
    using Escape_back_text [of n "s_p S1" "n + co" E e] p tn by (auto simp: co_def)
  have "m ! (n + co) = 0" using m(2,4) p by (metis hd_drop_conv_nth)
  then have "String_inv (S1\<lparr> s_p := m \<rparr>)" "s_text (S1\<lparr> s_p := m \<rparr>) = escape_text E e (s_text S)"
    using m p by (auto simp: String_inv_def s_text_def s_GetLength_def)
  moreover have "String_Escape_inplace alloc E e S = Some (S1\<lparr> s_p := m \<rparr>)"
    using False S1(1) m(1) p(2) by (simp add: String_Escape_inplace_def Let_def n_def [symmetric] co_def [symmetric])
  ultimately show ?thesis by blast
qed

text \<open>Unescaping an escaped text.\<close>

lemma unescape_escape:
  assumes "\<forall>c. must_escape E e c \<longrightarrow> f (Mapped E c) = c" "z \<noteq> e"
  shows "unescape_text f e z (escape_text E e s) = (if s = [] \<or> must_escape E e (last s) then s @ [z] else s)"
proof (induction s)
  case Nil
  then show ?case using assms(2) by (simp add: escape_text_def)
next
  case (Cons c s)
  have C: "escape_text E e (c # s) = (if must_escape E e c then [e, Mapped E c] else [c]) @ escape_text E e s"
    by (simp add: escape_text_def)
  show ?case
  proof (cases "must_escape E e c")
    case True
    then show ?thesis using Cons assms(1) by (simp add: C)
  next
    case False
    then have ne: "c \<noteq> e" by (simp add: must_escape_def)
    show ?thesis
    proof (cases "escape_text E e s")
      case Nil
      then have "s = []" using length_escape_text [of E e s] by simp
      then show ?thesis unfolding C Nil using False ne by simp
    next
      case (Cons d t)
      then have "s \<noteq> []" by (auto simp: escape_text_def)
      then show ?thesis unfolding C Cons using Cons.IH [unfolded Cons] False ne by simp
    qed
  qed
qed

lemma escape_unescape_tables: "must_escape CharacterSet_Escape 92 c \<Longrightarrow> Mapped CharacterSet_Unescape (Mapped CharacterSet_Escape c) = c"
proof -
  have "\<forall>c. if Has CharacterSet_Escape c then Has CharacterSet_Unescape (Mapped CharacterSet_Escape c) \<and>
      Mapped CharacterSet_Unescape (Mapped CharacterSet_Escape c) = c else Mapped CharacterSet_Escape c = c"
    unfolding all_bytes by (rule escape_all)
  moreover have "Has CharacterSet_Escape 92" by code_simp
  ultimately show "must_escape CharacterSet_Escape 92 c \<Longrightarrow> ?thesis" by (auto simp: must_escape_def split: if_splits)
qed

section \<open>Replacing\<close>

text \<open>The parts of a text between the occurrences of \<open>a\<close>, found from the left without overlap, and their concatenation with \<open>b\<close> between them.\<close>

function cuts :: "bytes \<Rightarrow> bytes \<Rightarrow> bytes list" where
  "cuts a [] = [[]]"
| "cuts a (c # s) =
    (if a \<noteq> [] \<and> take (length a) (c # s) = a then [] # cuts a (drop (length a) (c # s))
     else (c # hd (cuts a s)) # tl (cuts a s))"
  by pat_completeness auto
termination
proof (relation "measure (\<lambda>(a, s). length s)", goal_cases)
  case (2 a c s)
  then show ?case by (cases a) auto
qed auto

fun glue :: "bytes \<Rightarrow> bytes list \<Rightarrow> bytes" where
  "glue b [] = []"
| "glue b [x] = x"
| "glue b (x # y # xs) = x @ b @ glue b (y # xs)"

lemma cuts_not_Nil [simp]: "cuts a s \<noteq> []"
  by (induction a s rule: cuts.induct) simp_all

lemma glue_Cons: "xs \<noteq> [] \<Longrightarrow> glue b (x # xs) = x @ b @ glue b xs"
  by (cases xs) simp_all

lemma glue_hd: "xs \<noteq> [] \<Longrightarrow> glue b ((c # hd xs) # tl xs) = c # glue b xs"
  by (cases xs; cases "tl xs") auto

lemma glue_cuts: "glue a (cuts a s) = s"
proof (induction a s rule: cuts.induct)
  case (2 a c s)
  show ?case
  proof (cases "a \<noteq> [] \<and> take (length a) (c # s) = a")
    case True
    then have "glue a (cuts a (c # s)) = a @ glue a (cuts a (drop (length a) (c # s)))" by (simp add: glue_Cons)
    also have "\<dots> = a @ drop (length a) (c # s)" using 2(1) True by simp
    also have "\<dots> = c # s" using True append_take_drop_id [of "length a" "c # s"] by simp
    finally show ?thesis .
  next
    case False
    then have "cuts a (c # s) = (c # hd (cuts a s)) # tl (cuts a s)" by (subst cuts.simps) (rule if_not_P)
    then show ?thesis using 2(2) [OF False] by (simp only: glue_hd [OF cuts_not_Nil])
  qed
qed simp

lemma occurs_at_0: "occurs_at a s 0 \<longleftrightarrow> take (length a) s = a"
proof
  assume "take (length a) s = a"
  then have "length a \<le> length s" by (metis length_take min.cobounded1)
  then show "occurs_at a s 0" using \<open>take (length a) s = a\<close> by (simp add: occurs_at_def)
qed (simp add: occurs_at_def)

lemma cuts_first:
  "a \<noteq> [] \<Longrightarrow> occurs_at a s k \<Longrightarrow> \<forall>j<k. \<not> occurs_at a s j \<Longrightarrow> cuts a s = take k s # cuts a (drop (k + length a) s)"
proof (induction k arbitrary: s)
  case 0
  then obtain c t where "s = c # t" by (cases s) (auto simp: occurs_at_def)
  then show ?case using 0 by (simp add: occurs_at_def)
next
  case (Suc k)
  then obtain c t where s: "s = c # t" by (cases s) (auto simp: occurs_at_def)
  have "\<not> occurs_at a s 0" using Suc.prems(3) by blast
  then have "take (length a) (c # t) \<noteq> a" unfolding occurs_at_0 s .
  then have c: "cuts a s = (c # hd (cuts a t)) # tl (cuts a t)" using Suc.prems(1) unfolding s by (subst cuts.simps) simp
  have "occurs_at a t j \<longleftrightarrow> occurs_at a s (Suc j)" for j by (simp add: occurs_at_def s)
  then have "cuts a t = take k t # cuts a (drop (k + length a) t)" using Suc.IH [of t] Suc.prems by simp
  then show ?case using c by (simp add: s)
qed

lemma cuts_none: "\<forall>j. \<not> occurs_at a s j \<Longrightarrow> cuts a s = [s]"
proof (induction s)
  case (Cons c s)
  have "\<not> occurs_at a (c # s) 0" using Cons.prems by blast
  then have t: "take (length a) (c # s) \<noteq> a" unfolding occurs_at_0 .
  have "\<not> occurs_at a s j" for j using Cons.prems [rule_format, of "Suc j"] by (simp add: occurs_at_def)
  then show ?case using Cons.IH t by (subst cuts.simps) simp
qed simp

lemma c_str_id: "0 \<notin> set s \<Longrightarrow> c_str s = s"
  by (auto simp: c_str_def takeWhile_eq_all_conv)

lemma strstr_loop: "0 \<notin> set s \<Longrightarrow> 0 \<notin> set x \<Longrightarrow> x \<noteq> [] \<Longrightarrow> strstr s x = FindString_loop x s 0"
  by (simp add: strstr_def c_str_id FindString_def)

lemma String_FindString_spec:
  assumes "a \<noteq> []" "0 \<notin> set a" "0 \<notin> set (drop i s)" "i \<le> length s" "length s < 2 ^ 31"
  shows "String_FindString a s i = - 1 \<and> (\<forall>j. \<not> occurs_at a (drop i s) j) \<or>
    (\<exists>k. String_FindString a s i = int (i + k) \<and> occurs_at a (drop i s) k \<and> (\<forall>j<k. \<not> occurs_at a (drop i s) j))"
proof -
  note st = strstr_loop [OF assms(3,2,1)]
  from FindString_loop_spec [OF assms(1), of "drop i s" 0] show ?thesis
  proof
    assume "FindString_loop a (drop i s) 0 = - 1 \<and> (\<forall>k\<ge>0. \<not> occurs_at a (drop i s) k)"
    then show ?thesis by (simp add: String_FindString_def st)
  next
    assume "\<exists>k\<ge>0. FindString_loop a (drop i s) 0 = int k \<and> occurs_at a (drop i s) k \<and> (\<forall>j. 0 \<le> j \<and> j < k \<longrightarrow> \<not> occurs_at a (drop i s) j)"
    then obtain k where k: "FindString_loop a (drop i s) 0 = int k" "occurs_at a (drop i s) k" "\<forall>j<k. \<not> occurs_at a (drop i s) j" by auto
    then have "i < length s" using occurs_first [OF k(2) assms(1)] by (cases "i < length s") simp_all
    moreover have "int32 (int k + int i) = int (i + k)"
      using k(2) assms(4,5) by (subst int32_id) (auto simp: occurs_at_def)
    ultimately show ?thesis using k by (auto simp: String_FindString_def st)
  qed
qed

text \<open>The texts of the loop have lengths between those of the first and the last.\<close>

lemma length_glue: "xs \<noteq> [] \<Longrightarrow> length (glue b xs) = length (concat xs) + (length xs - 1) * length b"
  by (induction b xs rule: glue.induct) auto

lemma Replace_loop_cuts:
  assumes "a \<noteq> []" "0 \<notin> set a" "0 \<notin> set rest" "length (pre @ rest) < 2 ^ 31" "length (pre @ glue b (cuts a rest)) < 2 ^ 31"
  shows "Replace_loop a b (pre @ rest) (length pre) k = Some (pre @ glue b (cuts a rest), k + of_nat (length (cuts a rest) - 1))"
  using assms(3-)
proof (induction "length rest" arbitrary: pre rest k rule: less_induct)
  case less
  define p where "p = String_FindString a (pre @ rest) (length pre)"
  have z: "0 \<notin> set (drop (length pre) (pre @ rest))" "length pre \<le> length (pre @ rest)" using less.prems by simp_all
  have d: "drop (length pre) (pre @ rest) = rest" by simp
  from String_FindString_spec [OF assms(1,2) z less.prems(2), unfolded d, folded p_def] show ?case
  proof
    assume "p = - 1 \<and> (\<forall>j. \<not> occurs_at a rest j)"
    then show ?thesis by (subst Replace_loop.simps) (simp add: p_def [symmetric] cuts_none)
  next
    assume "\<exists>j. p = int (length pre + j) \<and> occurs_at a rest j \<and> (\<forall>i<j. \<not> occurs_at a rest i)"
    then obtain j where j: "p = int (length pre + j)" "occurs_at a rest j" "\<forall>i<j. \<not> occurs_at a rest i" by blast
    define tail where "tail = drop (j + length a) rest"
    have c: "cuts a rest = take j rest # cuts a tail" unfolding tail_def by (rule cuts_first [OF assms(1) j(2,3)])
    have le: "j + length a \<le> length rest" using j(2) by (simp add: occurs_at_def)
    let ?pre = "pre @ take j rest @ b"
    have "Replace_loop a b (pre @ rest) (length pre) k = Replace_loop a b (?pre @ tail) (length ?pre) (k + 1)"
    proof -
      have "SubStrHead (nat p) (pre @ rest) = pre @ take j rest" "SubStr_from (nat p + length a) (pre @ rest) = tail"
          "nat p + length b = length ?pre"
        using j(1) le by (auto simp: SubStrHead_def SubStr_from_def tail_def min_def nat_add_distrib)
      then show ?thesis using j(1) by (subst Replace_loop.simps) (simp add: p_def [symmetric] Let_def add.assoc)
    qed
    also have "\<dots> = Some (?pre @ glue b (cuts a tail), k + 1 + of_nat (length (cuts a tail) - 1))"
    proof (rule less.hyps)
      show "length tail < length rest" using le assms(1) by (cases a) (auto simp: tail_def)
      show "0 \<notin> set tail" using less.prems by (auto simp: tail_def dest: in_set_dropD)
      have g: "glue b (cuts a rest) = take j rest @ b @ glue b (cuts a tail)" by (simp add: c glue_Cons)
      then show "length (?pre @ glue b (cuts a tail)) < 2 ^ 31" using less.prems(3) by simp
      show "length (?pre @ tail) < 2 ^ 31"
      proof (cases "length b \<le> length a")
        case True
        then show ?thesis using less.prems(2) le by (simp add: tail_def)
      next
        case False
        have "length tail = length (concat (cuts a tail)) + (length (cuts a tail) - 1) * length a"
          using length_glue [OF cuts_not_Nil, of a a tail] by (simp add: glue_cuts)
        also have "\<dots> \<le> length (glue b (cuts a tail))"
          unfolding length_glue [OF cuts_not_Nil] using False by simp
        finally show ?thesis using less.prems(3) g by simp
      qed
    qed
    also have "k + 1 + of_nat (length (cuts a tail) - 1) = k + of_nat (length (cuts a rest) - 1)"
    proof -
      obtain l where "length (cuts a tail) = Suc l" by (cases "cuts a tail") auto
      then show ?thesis by (simp add: c)
    qed
    finally show ?thesis by (simp add: c glue_Cons)
  qed
qed

text \<open>An empty search text is found where the search starts: with an empty replacement \<^verbatim>\<open>ReplaceTo\<close> does not return.\<close>

lemma Replace_loop_empty:
  assumes "Replace_loop a b tmp s k = Some y"
  shows "a = [] \<and> b = [] \<and> s = 0 \<longrightarrow> tmp = []"
  using assms
proof (rule Replace_loop.raw_induct [where P = "\<lambda>a b tmp s k y. a = [] \<and> b = [] \<and> s = 0 \<longrightarrow> tmp = []", rotated], intro impI, elim conjE)
  fix loop :: "bytes \<Rightarrow> bytes \<Rightarrow> bytes \<Rightarrow> nat \<Rightarrow> u32 \<Rightarrow> (bytes \<times> u32) option" and a b tmp :: bytes and s k y
  assume IH: "\<And>a b tmp s k y. loop a b tmp s k = Some y \<Longrightarrow> a = [] \<and> b = [] \<and> s = 0 \<longrightarrow> tmp = []"
    and step: "(let p = String_FindString a tmp s in if p < 0 then Some (tmp, k)
      else loop a b (expr_text (AddExpr (AddExpr (Ref (SubStrHead (nat p) tmp)) (Ref b)) (Ref (SubStr_from (nat p + length a) tmp))))
        (nat p + length b) (k + 1)) = Some y"
    and e: "a = []" "b = []" "s = 0"
  show "tmp = []"
  proof (rule ccontr)
    assume t: "tmp \<noteq> []"
    then have "String_FindString [] tmp 0 = 0" by (simp add: String_FindString_def strstr_def c_str_def int32_def)
    then have "loop [] [] tmp 0 (k + 1) = Some y" using step t by (simp add: e SubStrHead_def SubStr_from_def)
    from IH [OF this] t show False by simp
  qed
qed

lemma Replace_char_loop_text:
  assumes "total_alloc alloc"
  shows "String_inv tmp \<Longrightarrow> \<exists>S'. Replace_char_loop alloc a b s tmp = Some S' \<and> String_inv S' \<and>
    s_text S' = s_text tmp @ concat (map (\<lambda>c. if c = a then b else [c]) s)"
proof (induction s arbitrary: tmp)
  case (Cons c s)
  obtain t where "(if c = a then String_append alloc (Ref b) tmp else String_append_char alloc c tmp) = Some t" "String_inv t"
      "s_text t = s_text tmp @ (if c = a then b else [c])"
    using String_append_total [OF assms Cons.prems, of "Ref b"] String_append_char_total [OF assms Cons.prems, of c] by (cases "c = a") auto
  then show ?case using Cons.IH [of t] by auto
qed simp

section \<open>Comments\<close>

text \<open>Code without quotation marks and slashes is copied as it is.\<close>

lemma TrimCodeComments_loop_plain:
  assumes "n \<le> length m" "\<forall>k<n. m ! k \<noteq> 34 \<and> m ! k \<noteq> 39 \<and> m ! k \<noteq> 47"
  shows "p < n \<Longrightarrow> TrimCodeComments_loop m n p out = Some (n - 1, out @ take (n - 1 - p) (drop p m))"
proof (induction "n - p" arbitrary: p out)
  case (Suc d)
  show ?case
  proof (cases "p + 1 < n")
    case True
    have "rd m p = Some (m ! p)" using True assms(1) by (simp add: rd_def)
    then have "TrimCodeComments_loop m n p out = TrimCodeComments_loop m n (p + 1) (out @ [m ! p])"
      using True assms(2) by (subst TrimCodeComments_loop.simps) auto
    also have "\<dots> = Some (n - 1, (out @ [m ! p]) @ take (n - 1 - (p + 1)) (drop (p + 1) m))"
      using Suc.hyps(1) [of "p + 1"] Suc.hyps(2) True by simp
    also have "m ! p # take (n - 1 - (p + 1)) (drop (p + 1) m) = take (n - 1 - p) (drop p m)"
    proof -
      have "drop p m = m ! p # drop (p + 1) m" "n - 1 - p = Suc (n - 1 - (p + 1))" using True assms(1) by (auto simp: Cons_nth_drop_Suc)
      then show ?thesis by simp
    qed
    then have "(out @ [m ! p]) @ take (n - 1 - (p + 1)) (drop (p + 1) m) = out @ take (n - 1 - p) (drop p m)" by simp
    finally show ?thesis .
  next
    case False
    then have "n - 1 = p" using Suc.prems by simp
    then show ?thesis using False by (subst TrimCodeComments_loop.simps) simp
  qed
qed simp

lemma TrimCodeComments_plain:
  assumes "n \<le> length m" "\<forall>k<n. m ! k \<noteq> 34 \<and> m ! k \<noteq> 39 \<and> m ! k \<noteq> 47"
  shows "TrimCodeComments m n = Some (take n m)"
proof (cases n)
  case (Suc k)
  then show ?thesis using TrimCodeComments_loop_plain [OF assms, of 0 "[]"] assms(1)
    by (simp add: TrimCodeComments_def take_Suc_conv_app_nth)
qed (simp add: TrimCodeComments_def)

section \<open>Properties\<close>

text \<open>\<^verbatim>\<open>RemoveCharacters\<close>, which moves the kept characters to the front of the array while it reads it, leaves exactly the characters
  outside the set, in order.\<close>

theorem RemoveCharacters_filter: "RemoveCharacters S s = filter (\<lambda>c. \<not> Has S c) s"
  using RemoveCharacters_loop_filter [of 0 0 s S "fst (RemoveCharacters_loop S s 0 0)" "snd (RemoveCharacters_loop S s 0 0)"]
  by (auto simp: RemoveCharacters_def split: prod.split)

text \<open>C10: \<^verbatim>\<open>String::Replace\<close> returns, also when the replacement contains the searched text, and replaces every occurrence found from the left
  without overlap: the parts between the occurrences are joined by the replacement, and the number returned (modulo \<open>2^32\<close>) is that of the
  occurrences. The searched text is not empty; it and the string have no zero characters, where \<^verbatim>\<open>strstr\<close> stops; and the string before and after
  is below 2^31 characters, since \<^verbatim>\<open>FindString\<close> returns the offset as an \<^verbatim>\<open>int\<close>.\<close>

theorem String_Replace_all:
  assumes "a \<noteq> []" "0 \<notin> set a" "0 \<notin> set s" "length s < 2 ^ 31" "length (glue b (cuts a s)) < 2 ^ 31"
  shows "glue a (cuts a s) = s \<and> String_Replace a b s = Some (glue b (cuts a s), of_nat (length (cuts a s) - 1))"
  using Replace_loop_cuts [OF assms(1-3), of "[]" b 0] assms by (simp add: String_Replace_def glue_cuts)

theorem String_Replace_all_witness: "String_Replace (lit ''aa'') (lit ''aab'') (lit ''aaaxaa'') = Some (lit ''aabaxaab'', 2)"
proof -
  have "lit ''aa'' \<noteq> []" "0 \<notin> set (lit ''aa'')" "0 \<notin> set (lit ''aaaxaa'')" by code_simp+
  moreover have "cuts (lit ''aa'') (lit ''aaaxaa'') = [[], lit ''ax'', []]" by code_simp
  ultimately show ?thesis using String_Replace_all [of "lit ''aa''" "lit ''aaaxaa''" "lit ''aab''"] by simp
qed

text \<open>\<^verbatim>\<open>ReplaceTo\<close> does not return when both texts are empty and the string is not.\<close>

theorem ReplaceTo_empty:
  assumes "s \<noteq> []"
  shows "ReplaceTo [] [] s = None"
proof (cases "ReplaceTo [] [] s")
  case (Some y)
  then show ?thesis using Replace_loop_empty [of "[]" "[]" s 0 0 y] assms by (simp add: ReplaceTo_def)
qed

text \<open>C11: Round trip: escaping the control characters, quotation marks and backslashes of a string that is not empty in place, from its last character on, stays inside
  the memory, and unescaping the result in place gives the text back -- followed by the terminating zero as one more character
  when the last character had been escaped, because the loop then steps over the end of the text.\<close>

theorem Escape_Unescape_roundtrip:
  assumes "total_alloc alloc" "String_inv S" "s_text S \<noteq> []"
  shows "\<exists>S' m k. String_Escape_inplace alloc CharacterSet_Escape 92 S = Some S' \<and> String_inv S' \<and>
    UnescapeCharacters_set CharacterSet_Unescape 92 (s_p S') (s_GetLength S') = Some (m, k) \<and>
    take k m = (if must_escape CharacterSet_Escape 92 (last (s_text S)) then s_text S @ [0] else s_text S)"
proof -
  obtain S' where S': "String_Escape_inplace alloc CharacterSet_Escape 92 S = Some S'" "String_inv S'"
      "s_text S' = escape_text CharacterSet_Escape 92 (s_text S)"
    using String_Escape_inplace_text [OF assms(1,2)] by blast
  have "s_text S' \<noteq> []" using S'(3) assms(3) length_escape_text [of CharacterSet_Escape 92 "s_text S"] by auto
  then have n: "s_GetLength S' < length (s_p S')" "s_p S' ! s_GetLength S' = 0"
    using S'(2) by (auto simp: String_inv_def s_text_def s_GetLength_def split: if_splits)
  obtain m k where "UnescapeCharacters_set CharacterSet_Unescape 92 (s_p S') (s_GetLength S') = Some (m, k)"
      "take k m = unescape_text (Mapped CharacterSet_Unescape) 92 0 (s_text S')"
    using Unescape_with_text [OF n(1), of "Mapped CharacterSet_Unescape" 92] n(2) by (auto simp: UnescapeCharacters_set_def s_text_def)
  then show ?thesis using S' assms(3) escape_unescape_tables
    by (auto simp: unescape_escape [of CharacterSet_Escape 92 "Mapped CharacterSet_Unescape" 0])
qed

theorem Escape_Unescape_roundtrip_witness:
  "\<exists>S' m k. String_Escape_inplace zero_alloc CharacterSet_Escape 92 \<lparr> s_p = [97, 10, 0], s_len = 3, s_reserved = 3 \<rparr> = Some S' \<and>
    String_inv S' \<and> UnescapeCharacters_set CharacterSet_Unescape 92 (s_p S') (s_GetLength S') = Some (m, k) \<and> take k m = [97, 10, 0]"
proof -
  let ?S = "\<lparr> s_p = [97, 10, 0], s_len = 3, s_reserved = 3 \<rparr>"
  have "String_inv ?S" "s_text ?S = [97, 10]" "must_escape CharacterSet_Escape 92 10" by code_simp+
  then show ?thesis using Escape_Unescape_roundtrip [OF total_zero_alloc, of ?S] by simp
qed

text \<open>\<^verbatim>\<open>String::Replace(char, String_Ref)\<close> builds the text in which every such character is replaced, whatever the length of the
  replacement.\<close>

theorem String_Replace_char_text:
  assumes "total_alloc alloc"
  shows "\<exists>S'. String_Replace_char alloc a b S = Some S' \<and> String_inv S' \<and>
    s_text S' = concat (map (\<lambda>c. if c = a then b else [c]) (s_text S))"
proof -
  obtain t where t: "String_SetLength alloc (s_GetLength S * length b) String_new = Some (True, t)" "String_inv t"
    by (rule String_SetLength_total [OF assms, of String_new "s_GetLength S * length b"]) simp_all
  obtain u where u: "String_SetLength alloc 0 t = Some (True, u)" "String_inv u" "s_GetLength u = 0"
    by (rule String_SetLength_total [OF assms t(2), of 0])
  then have "s_text u = []" by (simp add: s_text_def)
  then show ?thesis using Replace_char_loop_text [OF assms u(2), of a b "s_text S"] t(1) u(1) by (simp add: String_Replace_char_def)
qed

theorem String_Replace_char_text_witness:
  "\<exists>S'. String_Replace_char zero_alloc 38 (lit ''and'') \<lparr> s_p = [97, 38, 98, 0], s_len = 4, s_reserved = 4 \<rparr> = Some S' \<and>
    String_inv S' \<and> s_text S' = concat (map (\<lambda>c. if c = 38 then lit ''and'' else [c]) (s_text \<lparr> s_p = [97, 38, 98, 0], s_len = 4, s_reserved = 4 \<rparr>))"
  by (rule String_Replace_char_text [OF total_zero_alloc])

end
