(* ===== verification/JsonCompose.thy ===== *)
theory JsonCompose
  imports StrEdit StrNum
begin

text \<open>
  Composing JSON text, \<^verbatim>\<open>core/rt/json.h\<close>: a chain of key and value pairs (\<^verbatim>\<open>rt::_JVar\<close>, built with \<^verbatim>\<open>J(name) = value, ...\<close>) whose text is measured by
  \<^verbatim>\<open>GetLength\<close> and stored by \<^verbatim>\<open>CopyTo\<close>, raw and binary values (\<^verbatim>\<open>rt::_JObj\<close>), arrays (\<^verbatim>\<open>rt::_JArray\<close>, in a \<^verbatim>\<open>StringFixed\<close>) and the object that grows by
  \<^verbatim>\<open>operator <<\<close> (\<^verbatim>\<open>rt::_JObject\<close>). Lengths are below \<open>2^32\<close>. Values are stored as they are: escaping is the caller's.
\<close>

section \<open>Definitions\<close>

subsection \<open>Values and chains\<close>

(*@ core/rt/json.h 49-54 rt::_JObj::_tagVARTYPE *)
datatype vartype = VARTYPE_BUILTIN | VARTYPE_STRING | VARTYPE_ARRAY | VARTYPE_OBJECT

text \<open>A value is the characters of a text, a number or a concatenation (\<^verbatim>\<open>String_Ref\<close>, \<^verbatim>\<open>tos::S_\<close>, \<^verbatim>\<open>_SE\<close>), a \<^verbatim>\<open>_JObj\<close> with its text (raw or binary), a finished
  array or another chain. \<open>NoVar\<close> is the \<^verbatim>\<open>LPVOID\<close> that ends a chain.\<close>

(*@ core/rt/json.h 135-141 rt::_JVar *)
datatype jval = VExpr str_expr | VObj bytes | VBin bytes | VArr bytes | VVars jvars
  and jvars = NoVar | JVar jvars bytes jval vartype

text \<open>\<^verbatim>\<open>J(name) = value\<close> and the comma that appends it to a chain. A member without a name is a ghost and its value an empty object of the type.\<close>

(*@ core/rt/json.h 258-265 rt::_JTag::operator= *)
definition JTag_assign :: "bytes \<Rightarrow> jval \<Rightarrow> vartype \<Rightarrow> jvars" where
  "JTag_assign tagname p vt = JVar NoVar tagname (if tagname = [] then VExpr (Ref []) else p) vt"

(*@ core/rt/json.h 194-198 rt::_JVar::operator, *)
definition JVar_comma :: "jvars \<Rightarrow> jvars \<Rightarrow> jvars" where
  "JVar_comma left right = (case right of NoVar \<Rightarrow> left | JVar _ tagname v vt \<Rightarrow> JVar left tagname v vt)"

(*@ core/rt/json.h 61-65 rt::_JObj::_JObj *)
definition JObj :: "bytes \<Rightarrow> bool \<Rightarrow> jval" where
  "JObj str bin = (if bin then VBin str else VObj (TrimSpace str))"

(*@ core/rt/json.h 47-47 rt::_JObj::_SetBinLen *)
definition BinLen :: "bytes \<Rightarrow> bytes" where
  "BinLen s = (case itoa_UINT (of_nat (length s)) of (n, t) \<Rightarrow> take n t)"

(*@ core/rt/json.h 176-176 rt::_JVar::IsGhost *)
definition IsGhost :: "bytes \<Rightarrow> bool" where
  "IsGhost tagname \<longleftrightarrow> tagname = []"

(*@ core/rt/json.h 99-102 rt::_JObj::GetLength *)
definition JObj_GetLength :: "bool \<Rightarrow> bytes \<Rightarrow> nat" where
  "JObj_GetLength bin s = (if bin then 2 + length (BinLen s) + length s + 1 else if s = [] then 4 else length s)"

(*@ core/rt/json.h 103-121 rt::_JObj::CopyTo *)
definition JObj_CopyTo :: "bool \<Rightarrow> bytes \<Rightarrow> nat \<Rightarrow> bytes \<Rightarrow> (nat \<times> bytes) option" where
  "JObj_CopyTo bin s p m =
    (if bin then
       do { m \<leftarrow> put p [60] m;
            m \<leftarrow> put (p + 1) (BinLen s) m;
            let p = p + 2 + length (BinLen s);
            m \<leftarrow> put (p - 1) [47] m;
            (_, m) \<leftarrow> Ref_CopyTo s p m;
            m \<leftarrow> put (p + length s) [62] m;
            Some (2 + length (BinLen s) + length s + 1, m) }
     else if s = [] then map_option (Pair 4) (put p (le_store 4 (0x6c6c756e :: u32)) m)
     else Ref_CopyTo s p m)"

(*& JVar_GetLength core/rt/json.h 143-150 rt::_JVar::_GetLength *)
(*@ core/rt/json.h 177-181 rt::_JVar::GetLength *)
fun J_GetLength :: "jval \<Rightarrow> nat" and JVar_GetLength :: "jvars \<Rightarrow> nat \<Rightarrow> nat" where
  "J_GetLength (VExpr e) = Expr_GetLength e"
| "J_GetLength (VObj s) = JObj_GetLength False s"
| "J_GetLength (VBin s) = JObj_GetLength True s"
| "J_GetLength (VArr b) = length b + 1"
| "J_GetLength (VVars vs) = (let len = JVar_GetLength vs 0 in if len \<noteq> 0 then len + 4 else 2)"
| "JVar_GetLength NoVar len = len"
| "JVar_GetLength (JVar prev tagname v vt) len =
    (let len = JVar_GetLength prev len in
     if \<not> IsGhost tagname then
       (if len \<noteq> 0 then len + 2 else len) + (length tagname + 3) + (J_GetLength v + (if vt = VARTYPE_STRING then 2 else 0))
     else len)"

(*& JVar_CopyTo core/rt/json.h 151-169 rt::_JVar::_CopyTo *)
(*@ core/rt/json.h 182-189 rt::_JVar::CopyTo *)
fun J_CopyTo :: "jval \<Rightarrow> nat \<Rightarrow> bytes \<Rightarrow> (nat \<times> bytes) option" and JVar_CopyTo :: "jvars \<Rightarrow> nat \<Rightarrow> nat \<Rightarrow> bytes \<Rightarrow> (nat \<times> bytes) option" where
  "J_CopyTo (VExpr e) p m = Expr_CopyTo e p m"
| "J_CopyTo (VObj s) p m = JObj_CopyTo False s p m"
| "J_CopyTo (VBin s) p m = JObj_CopyTo True s p m"
| "J_CopyTo (VArr b) p m =
    do { (_, m) \<leftarrow> Ref_CopyTo b p m; m \<leftarrow> put (p + length b) [93] m; Some (length b + 1, m) }"
| "J_CopyTo (VVars vs) p m =
    do { m \<leftarrow> put p (le_store 2 (0x0a7b :: u16)) m;
         let p = p + 2;
         (len, m) \<leftarrow> JVar_CopyTo vs p 0 m;
         if len \<noteq> 0 then do { m \<leftarrow> put (p + len) (le_store 2 (0x7d0a :: u16)) m; Some (len + 4, m) }
         else do { m \<leftarrow> put (p - 1) [125] m; Some (2, m) } }"
| "JVar_CopyTo NoVar p len m = Some (len, m)"
| "JVar_CopyTo (JVar prev tagname v vt) p len m =
    do { (len, m) \<leftarrow> JVar_CopyTo prev p len m;
         if \<not> IsGhost tagname then
           do { (p, len, m) \<leftarrow>
                  (if len \<noteq> 0 then
                     map_option (\<lambda>m. (p + (len + 2), len + 2, m)) (put (p + (len + 2) - 2) (le_store 2 (0x0a2c :: u16)) m)
                   else Some (p, len, m));
                m \<leftarrow> put p [34] m;
                (l, m) \<leftarrow> Ref_CopyTo tagname (p + 1) m;
                let p = p + 1 + l;
                m \<leftarrow> put p [34] m;
                m \<leftarrow> put (p + 1) [58] m;
                let p = p + 2;
                let len = len + l + 3;
                if vt = VARTYPE_STRING then
                  do { m \<leftarrow> put p [34] m;
                       (l, m) \<leftarrow> J_CopyTo v (p + 1) m;
                       m \<leftarrow> put (p + 1 + l) [34] m;
                       Some (len + l + 2, m) }
                else do { (l, m) \<leftarrow> J_CopyTo v p m; Some (len + l, m) } }
         else Some (len, m) }"

(*@ core/rt/json.h 190-193 rt::_JVar::ToString *)
definition J_ToString :: "allocator \<Rightarrow> jval \<Rightarrow> String \<Rightarrow> String option" where
  "J_ToString alloc v out =
    do { (_, out) \<leftarrow> String_SetLength alloc (J_GetLength v) out;
         (n, m) \<leftarrow> J_CopyTo v 0 (s_p out);
         (_, out) \<leftarrow> String_SetLength alloc n (out\<lparr> s_p := m \<rparr>);
         Some out }"

subsection \<open>Arrays\<close>

text \<open>The items are kept in a \<^verbatim>\<open>StringFixed<1024>\<close>, whose \<^verbatim>\<open>+=\<close> drops what does not fit.\<close>

(*@ core/rt/json.h 209-214 rt::_JArray::_JArray *)
definition JArray_new :: "bytes \<Rightarrow> StringFixed option" where
  "JArray_new mem = Fixed_assign 1024 [91] \<lparr> f_p = mem, f_len = 0 \<rparr>"

(*@ core/rt/json.h 236-249 rt::_JArray::Append *)
definition JArray_Append :: "str_expr \<Rightarrow> bool \<Rightarrow> StringFixed \<Rightarrow> StringFixed option" where
  "JArray_Append obj need_quote buf =
    do { buf \<leftarrow> (if f_GetLength buf \<noteq> 1 then Fixed_append_char 1024 44 buf else Some buf);
         if need_quote then
           do { buf \<leftarrow> Fixed_append_char 1024 34 buf;
                buf \<leftarrow> Fixed_append 1024 obj buf;
                Fixed_append_char 1024 34 buf }
         else Fixed_append 1024 obj buf }"

(*@ core/rt/json.h 367-383 JA *)
fun JA :: "(str_expr \<times> bool) list \<Rightarrow> StringFixed \<Rightarrow> StringFixed option" where
  "JA [] buf = Some buf"
| "JA ((obj, q) # args) buf = do { buf \<leftarrow> JArray_Append obj q buf; JA args buf }"

(*@ core/rt/json.h 250-255 rt::_JArray::CopyTo *)
definition JArray_value :: "StringFixed \<Rightarrow> jval" where
  "JArray_value buf = VArr (f_text buf)"

subsection \<open>Growing objects\<close>

text \<open>The two templates of \<^verbatim>\<open>rt::String\<close> at a chain.\<close>

(*@ core/rt/string_type.h 1260-1270 rt::String::operator=(expression) *)
definition String_assign_json :: "allocator \<Rightarrow> jval \<Rightarrow> String option" where
  "String_assign_json alloc v =
    do { let len = J_GetLength v;
         m \<leftarrow> alloc (len + 1);
         m \<leftarrow> put len [0] m;
         (_, m) \<leftarrow> J_CopyTo v 0 m;
         Some \<lparr> s_p = m, s_len = len + 1, s_reserved = len + 1 \<rparr> }"

(*@ core/rt/string_type.h 1271-1289 rt::String::operator+= *)
definition String_append_json :: "allocator \<Rightarrow> jval \<Rightarrow> String \<Rightarrow> String option" where
  "String_append_json alloc v S =
    (let len = J_GetLength v; n = s_GetLength S in
     if len + n + 1 > s_reserved S then
       do { m \<leftarrow> alloc (len + n + 1);
            m \<leftarrow> (if n \<le> length (s_p S) then put 0 (take n (s_p S)) m else None);
            (_, m) \<leftarrow> J_CopyTo v n m;
            m \<leftarrow> put (len + n) [0] m;
            Some \<lparr> s_p = m, s_len = len + n + 1, s_reserved = len + n + 1 \<rparr> }
     else
       do { (_, m) \<leftarrow> J_CopyTo v n (s_p S);
            m \<leftarrow> put (len + n) [0] m;
            Some (S\<lparr> s_p := m, s_len := len + n + 1 \<rparr>) })"

(*@ core/rt/json.h 322-326 rt::_JObject::_JObject *)
definition JObject_new :: "allocator \<Rightarrow> String \<Rightarrow> String option" where
  "JObject_new alloc out =
    do { out \<leftarrow> (if s_GetLength out = 0 then String_assign alloc (lit ''{}'') out else Some out);
         String_assign alloc (TrimSpace (s_text out)) out }"

(*@ core/rt/json.h 327-340 rt::_JObject::operator<< *)
definition JObject_shl :: "allocator \<Rightarrow> jvars \<Rightarrow> String \<Rightarrow> String option" where
  "JObject_shl alloc json save =
    (if s_GetLength save \<le> 2 then String_assign_json alloc (VVars json)
     else
       do { let save = save\<lparr> s_len := s_len save - 1 \<rparr>;
            let e = s_GetLength save;
            save \<leftarrow> String_append_json alloc (VVars json) save;
            s_put e [44] save })"

(*@ core/rt/json.h 592-605 rt::JSON_OBJECT_MERGE *)
definition JSON_OBJECT_MERGE :: "allocator \<Rightarrow> jvars \<Rightarrow> String \<Rightarrow> String option" where
  "JSON_OBJECT_MERGE alloc json x =
    (if s_GetLength x = 0 then String_assign_json alloc (VVars json)
     else
       do { x \<leftarrow> String_Shorten alloc 1 x;
            let len = s_GetLength x;
            x \<leftarrow> String_append_json alloc (VVars json) x;
            s_put len [44] x })"

(*@ core/rt/json.h 579-590 rt::JSON_OBJECT_APPEND *)
definition JSON_OBJECT_APPEND :: "allocator \<Rightarrow> bytes \<Rightarrow> str_expr \<Rightarrow> String \<Rightarrow> String option" where
  "JSON_OBJECT_APPEND alloc key value x =
    (if s_GetLength x = 0 then
       String_assign_expr alloc (AddExpr (AddExpr (AddExpr (AddExpr (Ref (lit ''{\"'')) (Ref key)) (Ref (lit ''\":''))) value) (Ref (lit ''}''))) x
     else
       do { x \<leftarrow> s_put (s_GetLength x - 1) [44] x;
            String_append alloc
              (AddExpr (AddExpr (AddExpr (AddExpr (AddExpr (Ref []) (Ref (lit ''\"''))) (Ref key)) (Ref (lit ''\":''))) value) (Ref (lit ''}''))) x })"

section \<open>The text of a value\<close>

definition quoted :: "bytes \<Rightarrow> bytes" where
  "quoted s = 34 # s @ [34]"

definition member_text :: "bytes \<Rightarrow> vartype \<Rightarrow> bytes \<Rightarrow> bytes" where
  "member_text name vt x = quoted name @ 58 # (if vt = VARTYPE_STRING then quoted x else x)"

fun J_text :: "jval \<Rightarrow> bytes" and jvars_text :: "jvars \<Rightarrow> bytes" where
  "J_text (VExpr e) = expr_text e"
| "J_text (VObj s) = (if s = [] then [110, 117, 108, 108] else s)"
| "J_text (VBin s) = 60 # BinLen s @ 47 # s @ [62]"
| "J_text (VArr b) = b @ [93]"
| "J_text (VVars vs) = (if jvars_text vs = [] then [123, 125] else [123, 10] @ jvars_text vs @ [10, 125])"
| "jvars_text NoVar = []"
| "jvars_text (JVar prev name v vt) =
    jvars_text prev @
      (if name = [] then [] else (if jvars_text prev = [] then [] else [44, 10]) @ member_text name vt (J_text v))"

lemma json_words:
  "le_store 4 (0x6c6c756e :: u32) = [110, 117, 108, 108]" "le_store 2 (0x0a7b :: u16) = [123, 10]"
  "le_store 2 (0x7d0a :: u16) = [10, 125]" "le_store 2 (0x0a2c :: u16) = [44, 10]"
  by code_simp+

lemma put_bind: "j = i + length xs \<Longrightarrow> put i xs m \<bind> (\<lambda>m. put j ys m \<bind> k) = put i (xs @ ys) m \<bind> k"
  unfolding put_put [symmetric] by simp

lemma bind_map_pair: "map_option (Pair n) x \<bind> (\<lambda>(l, m). k l m) = x \<bind> k n"
  by (cases x) simp_all

lemma JObj_GetLength_text: "JObj_GetLength b s = length (J_text (if b then VBin s else VObj s))"
  by (simp add: JObj_GetLength_def)

lemma bind_pair: "x \<bind> (\<lambda>m. Some (n, m)) = map_option (Pair n) x"
  by (cases x) simp_all

lemma bind_map_triple: "map_option (\<lambda>m. (a, b, m)) x \<bind> (\<lambda>(a, b, m). k a b m) = x \<bind> k a b"
  by (cases x) simp_all

lemma put_map: "j = i + length xs \<Longrightarrow> put i xs m \<bind> (\<lambda>m. map_option f (put j ys m)) = map_option f (put i (xs @ ys) m)"
  unfolding put_put [symmetric] by (cases "put i xs m") simp_all

lemma map_Pair_cong: "a = b \<Longrightarrow> map_option (Pair a) x = map_option (Pair b) x"
  by simp

lemmas copy_simps = put_map Ref_CopyTo_def Expr_CopyTo_put bind_map_pair bind_map_triple put_bind bind_pair json_words IsGhost_def member_text_def quoted_def

lemma JObj_CopyTo_text:
  "JObj_CopyTo b s p m = map_option (Pair (length (J_text (if b then VBin s else VObj s)))) (put p (J_text (if b then VBin s else VObj s)) m)"
  by (cases "put p [110, 117, 108, 108] m") (simp_all add: JObj_CopyTo_def copy_simps)

lemma json_length: "J_GetLength v = length (J_text v)" "JVar_GetLength vs 0 = length (jvars_text vs)"
  by (induction v and vs) (simp_all add: cat.get_length JObj_GetLength_text Let_def IsGhost_def member_text_def quoted_def)

lemma put_second: "put p [a, b] m \<bind> (\<lambda>m. put (p + 1) [c] m \<bind> k) = put p [a, c] m \<bind> k"
  by (auto simp: put_def write_at_def min_def Suc_diff_le not_le less_Suc_eq_le split: if_splits)

lemma JVar_CopyTo_step:
  assumes "\<And>p m. J_CopyTo v p m = map_option (Pair (length (J_text v))) (put p (J_text v) m)"
    and "\<And>p m. JVar_CopyTo prev p 0 m = map_option (Pair (length (jvars_text prev))) (put p (jvars_text prev) m)"
  shows "JVar_CopyTo (JVar prev name v vt) p 0 m =
    map_option (Pair (length (jvars_text (JVar prev name v vt)))) (put p (jvars_text (JVar prev name v vt)) m)"
  by (auto simp: assms copy_simps intro!: map_Pair_cong)

lemma json_CopyTo:
  "J_CopyTo v p m = map_option (Pair (length (J_text v))) (put p (J_text v) m)"
  "JVar_CopyTo vs p 0 m = map_option (Pair (length (jvars_text vs))) (put p (jvars_text vs) m)"
proof (induction v and vs arbitrary: p m and p m)
  case (VVars vs)
  have "put p [123, 10] m \<bind> (\<lambda>m. put (p + 2 - 1) [125] m \<bind> (\<lambda>m. Some (2 :: nat, m))) = map_option (Pair (Suc (Suc 0))) (put p [123, 125] m)"
    using put_second [of p 123 10 m 125 "\<lambda>m. Some (2 :: nat, m)"] by (simp add: bind_pair numeral_2_eq_2)
  then show ?case by (cases "jvars_text vs = []") (auto simp: VVars copy_simps intro!: map_Pair_cong)
next
  case (JVar prev name v vt)
  show ?case by (rule JVar_CopyTo_step [OF JVar(2,1)])
qed (simp_all add: copy_simps JObj_CopyTo_text)

text \<open>A chain is a source of characters like a concatenation, so it can stand on the right of \<^verbatim>\<open>=\<close> and \<^verbatim>\<open>+=\<close>.\<close>

interpretation js: copy_source J_GetLength J_CopyTo J_text
  by unfold_locales (rule json_length(1), rule json_CopyTo(1))

lemma String_assign_json_expr: "String_assign_json alloc v = String_assign_expr alloc (Ref (J_text v)) S"
  by (simp add: String_assign_json_def String_assign_expr_def js.get_length js.copy_to Ref_CopyTo_def)

lemma String_append_json_expr: "String_append_json alloc v S = String_append alloc (Ref (J_text v)) S"
  by (simp add: String_append_json_def String_append_def js.get_length js.copy_to Ref_CopyTo_def Let_def)

lemma String_assign_json_total:
  "total_alloc alloc \<Longrightarrow> \<exists>S'. String_assign_json alloc v = Some S' \<and> String_inv S' \<and> s_text S' = J_text v"
  unfolding String_assign_json_expr [of alloc v String_new] using String_assign_expr_total [of alloc "Ref (J_text v)" String_new] by simp

lemma J_text_VVars: "2 \<le> length (J_text (VVars vs))" "hd (J_text (VVars vs)) = 123" "last (J_text (VVars vs)) = 125"
  by simp_all

text \<open>Cutting the last character, appending an object and storing a comma over its brace: both ways of growing an object.\<close>

lemma append_over_brace:
  assumes "total_alloc alloc" "length (s_p S) = s_reserved S" "s_len S \<le> s_reserved S" "e = s_GetLength S"
  shows "\<exists>S'. do { S \<leftarrow> String_append_json alloc (VVars vs) S; s_put e [44] S } = Some S' \<and> String_inv S' \<and>
    s_text S' = s_text S @ 44 # tl (J_text (VVars vs))"
proof -
  define n where "n = s_GetLength S"
  obtain S1 where S1: "String_append alloc (Ref (J_text (VVars vs))) S = Some S1" "String_inv S1" "s_text S1 = s_text S @ J_text (VVars vs)"
    using String_append_cut [OF assms(1-3), of "Ref (J_text (VVars vs))"] by auto
  obtain rest where r: "J_text (VVars vs) = 123 # rest" by (cases "J_text (VVars vs)") (auto split: if_splits)
  have "n = length (s_text S)" using assms(2,3) by (simp add: n_def s_text_def s_GetLength_def)
  moreover have "n + 1 \<le> s_GetLength S1" using length_s_text [OF S1(2)] S1(3) \<open>n = length (s_text S)\<close> by (simp add: r del: J_text.simps)
  ultimately show ?thesis using S1 s_put_text [OF S1(2), of n "[44]"] assms(4)
    by (auto simp: String_append_json_expr n_def [symmetric] r write_at_def simp del: J_text.simps)
qed

lemma J_ToString_text:
  assumes "total_alloc alloc" "String_inv out"
  shows "\<exists>S. J_ToString alloc v out = Some S \<and> String_inv S \<and> s_text S = J_text v"
proof -
  obtain S1 where S1: "String_SetLength alloc (length (J_text v)) out = Some (True, S1)" "String_inv S1" "s_GetLength S1 = length (J_text v)"
    by (rule String_SetLength_total [OF assms])
  obtain S2 where S2: "s_put 0 (J_text v) S1 = Some S2" "String_inv S2" "s_text S2 = J_text v"
    using s_put_text [OF S1(2), of 0 "J_text v"] S1(3) length_s_text [OF S1(2)] by (auto simp: write_at_0)
  have n: "s_GetLength S2 = length (J_text v)" using length_s_text [OF S2(2)] S2(3) by simp
  obtain S3 where S3: "String_SetLength alloc (length (J_text v)) S2 = Some (True, S3)" "String_inv S3"
      "s_GetLength S3 = length (J_text v)" "take (min (length (J_text v)) (s_GetLength S2)) (s_text S3) = take (min (length (J_text v)) (s_GetLength S2)) (s_text S2)"
    by (rule String_SetLength_total [OF assms(1) S2(2)])
  then have "s_text S3 = J_text v" using n S2(3) length_s_text [OF S3(2)] by simp
  moreover obtain m where "put 0 (J_text v) (s_p S1) = Some m" "S2 = S1\<lparr> s_p := m \<rparr>" using S2(1) by (auto simp: s_put_def)
  ultimately show ?thesis using S1(1) S3(1,2) by (simp add: J_ToString_def js.get_length js.copy_to)
qed

lemma Last_cut:
  assumes "String_inv S" "0 < s_GetLength S"
  shows "s_text (S\<lparr> s_len := s_len S - 1 \<rparr>) = butlast (s_text S)" "s_GetLength (S\<lparr> s_len := s_len S - 1 \<rparr>) = s_GetLength S - 1"
  using assms by (auto simp: String_inv_def s_text_def s_GetLength_def butlast_take split: if_splits)

theorem JObject_shl_text:
  assumes "total_alloc alloc" "String_inv save"
  shows "\<exists>S. JObject_shl alloc json save = Some S \<and> String_inv S \<and>
    s_text S = (if length (s_text save) \<le> 2 then J_text (VVars json) else butlast (s_text save) @ 44 # tl (J_text (VVars json)))"
proof (cases "length (s_text save) \<le> 2")
  case True
  then show ?thesis using String_assign_json_total [OF assms(1)] length_s_text [OF assms(2)] by (simp add: JObject_shl_def del: J_text.simps)
next
  case False
  let ?S = "save\<lparr> s_len := s_len save - 1 \<rparr>"
  have "length (s_p ?S) = s_reserved ?S" "s_len ?S \<le> s_reserved ?S" using assms(2) by (auto simp: String_inv_def)
  from append_over_brace [OF assms(1) this refl, of json] show ?thesis
    using False Last_cut [OF assms(2)] length_s_text [OF assms(2)] by (simp add: JObject_shl_def del: J_text.simps)
qed

lemma JSON_OBJECT_MERGE_text:
  assumes "total_alloc alloc" "String_inv x"
  shows "\<exists>S. JSON_OBJECT_MERGE alloc json x = Some S \<and> String_inv S \<and>
    s_text S = (if s_text x = [] then J_text (VVars json) else butlast (s_text x) @ 44 # tl (J_text (VVars json)))"
proof (cases "s_text x = []")
  case True
  then show ?thesis using String_assign_json_total [OF assms(1)] length_s_text [OF assms(2)] by (simp add: JSON_OBJECT_MERGE_def del: J_text.simps)
next
  case False
  define n where "n = s_GetLength x"
  obtain S1 where S1: "String_SetLength alloc (n - 1) x = Some (True, S1)" "String_inv S1" "s_GetLength S1 = n - 1"
      "take (min (n - 1) (s_GetLength x)) (s_text S1) = take (min (n - 1) (s_GetLength x)) (s_text x)"
    by (rule String_SetLength_total [OF assms])
  have "n = length (s_text x)" "s_GetLength x = length (s_text x)" using length_s_text [OF assms(2)] by (simp_all add: n_def)
  then have t: "s_text S1 = butlast (s_text x)" using S1(3,4) length_s_text [OF S1(2)] by (simp add: butlast_conv_take)
  have "length (s_p S1) = s_reserved S1" "s_len S1 \<le> s_reserved S1" using S1(2) by (auto simp: String_inv_def)
  from append_over_brace [OF assms(1) this refl, of json] show ?thesis
    using False t S1(1) length_s_text [OF assms(2)] by (auto simp: JSON_OBJECT_MERGE_def String_Shorten_def n_def simp del: J_text.simps)
qed

lemma JSON_OBJECT_APPEND_text:
  assumes "total_alloc alloc" "String_inv x"
  shows "\<exists>S. JSON_OBJECT_APPEND alloc key value x = Some S \<and> String_inv S \<and>
    s_text S = (if s_text x = [] then [123] else butlast (s_text x) @ [44]) @ quoted key @ 58 # expr_text value @ [125]"
proof (cases "s_text x = []")
  case True
  then show ?thesis
    using String_assign_expr_total [OF assms(1), of "AddExpr (AddExpr (AddExpr (AddExpr (Ref (lit ''{\"'')) (Ref key)) (Ref (lit ''\":''))) value) (Ref (lit ''}''))" x]
      length_s_text [OF assms(2)] by (simp add: JSON_OBJECT_APPEND_def quoted_def)
next
  case False
  define n where "n = length (s_text x)"
  have "0 < n" using False by (simp add: n_def)
  then have n: "s_GetLength x = n" "0 < n" using length_s_text [OF assms(2)] by (simp_all add: n_def)
  obtain S1 where S1: "s_put (n - 1) [44] x = Some S1" "String_inv S1" "s_text S1 = write_at (n - 1) [44] (s_text x)"
    using s_put_text [OF assms(2), of "n - 1" "[44]"] n by auto
  have "write_at (n - 1) [44] (s_text x) = butlast (s_text x) @ [44]" using n by (simp add: write_at_def n_def butlast_conv_take)
  then show ?thesis
    using String_append_total [OF assms(1) S1(2),
        of "AddExpr (AddExpr (AddExpr (AddExpr (AddExpr (Ref []) (Ref (lit ''\"''))) (Ref key)) (Ref (lit ''\":''))) value) (Ref (lit ''}''))"]
      False n S1 by (simp add: JSON_OBJECT_APPEND_def quoted_def)
qed

section \<open>Arrays\<close>

definition item_text :: "str_expr \<times> bool \<Rightarrow> bytes" where
  "item_text it = (if snd it then quoted (expr_text (fst it)) else expr_text (fst it))"

fun commas :: "bytes list \<Rightarrow> bytes" where
  "commas [] = []"
| "commas (x # xs) = 44 # x @ commas xs"

lemma length_f_text: "fixed_inv LEN f \<Longrightarrow> length (f_text f) = f_GetLength f"
  by (auto simp: fixed_inv_def f_text_def f_GetLength_def)

lemma Fixed_append_char_fits:
  assumes i: "fixed_inv LEN f" and l: "length (f_text f) < LEN"
  shows "\<exists>f'. Fixed_append_char LEN c f = Some f' \<and> fixed_inv LEN f' \<and> f_text f' = f_text f @ [c]"
proof -
  define n where "n = f_GetLength f"
  have n: "n < LEN" "length (f_p f) = LEN + 2" "f_text f = take n (f_p f)" using i l length_f_text [OF i] by (auto simp: n_def fixed_inv_def f_text_def)
  define m where "m = (f_p f)[n + 1 := 0, n := c]"
  have "Fixed_append_char LEN c f = Some (f\<lparr> f_len := n + 2, f_p := m \<rparr>)"
    using n Fixed_SetLength_ok [OF i, of "n + 1"] by (simp add: Fixed_append_char_def n_def [symmetric] f_put_def put_Some write_at_single m_def)
  moreover have "fixed_inv LEN (f\<lparr> f_len := n + 2, f_p := m \<rparr>)" "f_text (f\<lparr> f_len := n + 2, f_p := m \<rparr>) = f_text f @ [c]"
    using n by (simp_all add: fixed_inv_def m_def f_text_def f_GetLength_def take_Suc_update)
  ultimately show ?thesis by blast
qed

lemma f_len_text: "fixed_inv LEN f \<Longrightarrow> f_text f \<noteq> [] \<Longrightarrow> f_len f = length (f_text f) + 1"
  using length_f_text [of LEN f] by (auto simp: f_GetLength_def f_text_def split: if_splits)

lemma JArray_Append_text:
  assumes i: "fixed_inv 1024 f" "f_text f \<noteq> []" and l: "length (f_text f) + length (item_text (obj, q)) < 1022"
  shows "\<exists>f'. JArray_Append obj q f = Some f' \<and> fixed_inv 1024 f' \<and>
    f_text f' = f_text f @ (if length (f_text f) = 1 then [] else [44]) @ item_text (obj, q)"
proof -
  obtain f1 where f1: "(if f_GetLength f \<noteq> 1 then Fixed_append_char 1024 44 f else Some f) = Some f1" "fixed_inv 1024 f1"
      "f_text f1 = f_text f @ (if length (f_text f) = 1 then [] else [44])"
    using Fixed_append_char_fits [OF i(1), of 44] l length_f_text [OF i(1)] i(1) by (cases "f_GetLength f = 1") auto
  have n1: "f_text f1 \<noteq> []" "length (f_text f1) \<le> length (f_text f) + 1" using f1(3) i(2) by auto
  show ?thesis
  proof (cases q)
    case True
    then have l: "length (f_text f) + length (expr_text obj) < 1020" using l by (simp add: item_text_def quoted_def)
    obtain f2 where f2: "Fixed_append_char 1024 34 f1 = Some f2" "fixed_inv 1024 f2" "f_text f2 = f_text f1 @ [34]"
      using Fixed_append_char_fits [OF f1(2), of 34] l n1 by auto
    moreover obtain f3 where f3: "Fixed_append 1024 obj f2 = Some f3" "fixed_inv 1024 f3" "f_text f3 = f_text f2 @ expr_text obj"
      using Fixed_append_fits [OF f2(2), of obj] f_len_text [OF f2(2)] f2(3) l n1 by auto
    moreover obtain f4 where "Fixed_append_char 1024 34 f3 = Some f4" "fixed_inv 1024 f4" "f_text f4 = f_text f3 @ [34]"
      using Fixed_append_char_fits [OF f3(2), of 34] f2(3) f3(3) l n1 by auto
    ultimately show ?thesis using f1 True by (simp add: JArray_Append_def item_text_def quoted_def)
  next
    case False
    then show ?thesis using Fixed_append_fits [OF f1(2), of obj] f_len_text [OF f1(2)] f1 l n1 by (auto simp: JArray_Append_def item_text_def)
  qed
qed

text \<open>Behind the first item every further one is preceded by a comma, as long as the text fits into the 1024 characters.\<close>

lemma JA_more:
  assumes "fixed_inv 1024 f" "1 < length (f_text f)" "length (f_text f @ commas (map item_text items)) < 1022"
  shows "\<exists>f'. JA items f = Some f' \<and> fixed_inv 1024 f' \<and> f_text f' = f_text f @ commas (map item_text items)"
  using assms
proof (induction items arbitrary: f)
  case (Cons it items)
  obtain obj q where it: "it = (obj, q)" by force
  have "f_text f \<noteq> []" using Cons.prems(2) by auto
  then obtain f1 where f1: "JArray_Append obj q f = Some f1" "fixed_inv 1024 f1" "f_text f1 = f_text f @ 44 # item_text it"
    using JArray_Append_text [OF Cons.prems(1), of obj q] Cons.prems it by auto
  then show ?case using Cons.IH [of f1] Cons.prems \<open>f_text f \<noteq> []\<close> by (simp add: it)
qed simp

lemma JArray_new_text: "length mem = 1026 \<Longrightarrow> \<exists>f. JArray_new mem = Some f \<and> fixed_inv 1024 f \<and> f_text f = [91]"
  by (auto simp: JArray_new_def Fixed_assign_def Fixed_SetLength_def f_put_def put_Some write_at_def fixed_inv_def f_text_def f_GetLength_def
      take_Cons' nth_append)

theorem JA_text:
  assumes "length mem = 1026" "items \<noteq> [] \<Longrightarrow> item_text (hd items) \<noteq> []" "length (commas (map item_text items)) < 1020"
  shows "\<exists>f. JArray_new mem \<bind> JA items = Some f \<and> J_text (JArray_value f) = 91 # tl (commas (map item_text items)) @ [93]"
proof (cases items)
  case Nil
  then show ?thesis using JArray_new_text [OF assms(1)] by (auto simp: JArray_value_def)
next
  case (Cons it its)
  obtain obj q where it: "it = (obj, q)" by force
  obtain f where f: "JArray_new mem = Some f" "fixed_inv 1024 f" "f_text f = [91]" using JArray_new_text [OF assms(1)] by blast
  obtain f1 where f1: "JArray_Append obj q f = Some f1" "fixed_inv 1024 f1" "f_text f1 = 91 # item_text it"
    using JArray_Append_text [OF f(2), of obj q] assms(3) f(3) Cons it by auto
  have "item_text it \<noteq> []" using assms(2) Cons by simp
  then have "1 < length (f_text f1)" using f1(3) by simp
  then show ?thesis using JA_more [OF f1(2), of its] f(1) f1 assms(3) Cons it by (auto simp: JArray_value_def)
qed

end
