(* ===== verification/JsonParse.thy ===== *)
theory JsonParse
  imports JsonCompose
begin

text \<open>
  Reading JSON text in place, \<^verbatim>\<open>core/rt/json.h\<close> and \<^verbatim>\<open>core/rt/json.cpp\<close>: \<^verbatim>\<open>rt::JsonObject\<close> and \<^verbatim>\<open>rt::JsonArray\<close> keep a view of a text and find the end of a
  value by following quotes and brackets; nothing is copied. The memory is \<open>m\<close>, the view goes from \<open>b\<close> to \<open>e\<close> (\<open>e \<le> length m\<close>), pointers are indices and a
  pointer pair is a key or a value. The character at \<open>e\<close> and those before \<open>b\<close> may be read; a read outside \<open>m\<close> is \<open>None\<close>.
\<close>

section \<open>Definitions\<close>

subsection \<open>Scanning\<close>

(*@ core/rt/json.h 444-444 rt::JsonObject::_skip_whitespace *)
definition skip_whitespace :: "bytes \<Rightarrow> nat \<Rightarrow> nat \<Rightarrow> nat" where
  "skip_whitespace m e p = skip_while (\<lambda>c. c_int c \<le> 32 \<and> 0 \<le> c_int c) (take e m) p"

definition json_sep :: charset where
  "json_sep = the (CS_str [7, 9, 10, 11, 12, 13, 32, 39, 34, 44, 58, 123, 125, 91, 93])"

(*@ core/rt/json.h 451-454 rt::JsonObject::_is_text *)
definition is_text :: "byte \<Rightarrow> bool" where
  "is_text c \<longleftrightarrow> \<not> Has json_sep c"

(*@ core/rt/json.h 445-445 rt::JsonObject::_scan_text *)
definition scan_text :: "bytes \<Rightarrow> nat \<Rightarrow> nat \<Rightarrow> nat" where
  "scan_text m e p = skip_while is_text (take e m) p"

(*@ core/rt/json.h 446-446 rt::JsonObject::_seek_char *)
definition seek_char :: "bytes \<Rightarrow> nat \<Rightarrow> byte \<Rightarrow> nat \<Rightarrow> nat" where
  "seek_char m e c p = skip_while (\<lambda>d. d \<noteq> c) (take e m) p"

text \<open>A quote counts when an even number of backslashes stands before it.\<close>

(*@ core/rt/json.h 455-464 rt::JsonObject::_seek_char_escape *)
function seek_char_escape :: "bytes \<Rightarrow> nat \<Rightarrow> byte \<Rightarrow> nat \<Rightarrow> nat" where
  "seek_char_escape m e c p =
    (if p < e then if m ! p = c \<and> even (backslashes m p) then p else seek_char_escape m e c (p + 1) else e)"
  by pat_completeness auto
termination by (relation "measure (\<lambda>(m, e, c, p). e - p)") auto

declare seek_char_escape.simps [simp del]

definition is_quote :: "byte \<Rightarrow> bool" where
  "is_quote c \<longleftrightarrow> c = 34 \<or> c = 39"

(*@ core/rt/json.h 465-470 rt::JsonObject::_match_closure *)
definition match_closure :: "byte \<Rightarrow> byte" where
  "match_closure c = (if is_quote c then c else if c = 91 then 93 else if c = 123 then 125 else 0)"

text \<open>\<^verbatim>\<open>_cook_raw_value\<close> strips the quotes of a string or the \<^verbatim>\<open><len/\<close> and \<^verbatim>\<open>>\<close> of a binary value.\<close>

(*@ core/rt/json.h 447-450 rt::JsonObject::_cook_raw_value *)
definition cook_raw_value :: "bytes \<Rightarrow> nat \<Rightarrow> nat \<Rightarrow> (nat \<times> nat) option" where
  "cook_raw_value m p tail =
    do { c \<leftarrow> rd m p;
         if is_quote c then Some (p + 1, tail - 1)
         else if c = 60 then
           do { let p = skip_while (\<lambda>c. c \<noteq> 47) m (p + 2);
                _ \<leftarrow> rd m p;
                Some (p + 1, tail - 1) }
         else Some (p, tail) }"

subsection \<open>The end of a value\<close>

text \<open>\<open>Some None\<close> is the null pointer: the value is not closed.\<close>

(*@ core/rt/json.cpp 66-70 rt::JsonObject::_seek_json_object_closure *)
definition string_closure :: "bytes \<Rightarrow> nat \<Rightarrow> byte \<Rightarrow> nat \<Rightarrow> nat option" where
  "string_closure m e c p = (let p = seek_char_escape m e c (p + 1) in if p \<noteq> e then Some (p + 1) else None)"

(*@ core/rt/json.cpp 71-78 rt::JsonObject::_seek_json_object_closure *)
definition binary_closure :: "bytes \<Rightarrow> nat \<Rightarrow> nat \<Rightarrow> nat option option" where
  "binary_closure m e p =
    do { let (n, len) = (ToNumber_default 10 False (drop (p + 1) (take e m)) :: int \<times> u32);
         let p = nat (int (p + 1) + n) + 1 + unat len;
         c \<leftarrow> rd m p;
         Some (if c = 62 then Some (p + 1) else None) }"

lemma seek_char_escape_ge: "p \<le> e \<Longrightarrow> p \<le> seek_char_escape m e c p"
  by (induction m e c p rule: seek_char_escape.induct) (subst seek_char_escape.simps, auto)

lemma ToNumber_ge: "- 1 \<le> fst (ToNumber b s a d p)"
  by (simp add: ToNumber_def Let_def case_prod_beta)

lemma binary_closure_gt: "binary_closure m e p = Some (Some q) \<Longrightarrow> p < q"
  using ToNumber_ge [of 10 False True 44 "drop (p + 1) (take e m)", where ?'a = 32]
  by (auto simp: binary_closure_def ToNumber_default_def Let_def case_prod_beta split: Option.bind_splits if_splits)

(*@ core/rt/json.cpp 80-106 rt::JsonObject::_seek_json_object_closure *)
function closure_loop :: "bytes \<Rightarrow> nat \<Rightarrow> byte \<Rightarrow> byte \<Rightarrow> int \<Rightarrow> nat \<Rightarrow> nat option option" where
  "closure_loop m e depth_inc depth_dec closure_depth p =
    (if p < e then
       if m ! p = depth_inc then closure_loop m e depth_inc depth_dec (closure_depth + 1) (p + 1)
       else if m ! p = depth_dec then
         (if closure_depth - 1 = 0 then Some (Some (p + 1)) else closure_loop m e depth_inc depth_dec (closure_depth - 1) (p + 1))
       else if is_quote (m ! p) then
         (if seek_char_escape m e (m ! p) (p + 1) = e then Some None
          else closure_loop m e depth_inc depth_dec closure_depth (seek_char_escape m e (m ! p) (p + 1) + 1))
       else if m ! p = 60 then
         (case binary_closure m e p of
            None \<Rightarrow> None
          | Some None \<Rightarrow> Some None
          | Some (Some q) \<Rightarrow> closure_loop m e depth_inc depth_dec closure_depth (q + 1))
       else closure_loop m e depth_inc depth_dec closure_depth (p + 1)
     else Some None)"
  by pat_completeness auto
termination
proof (relation "measure (\<lambda>(m, e, i, d, c, p). e - p)", goal_cases)
  case (4 m e i d c p)
  then show ?case using seek_char_escape_ge [of "p + 1" e m "m ! p"] by simp
next
  case (5 m e i d c p x q)
  then show ?case using binary_closure_gt [of m e p q] by simp
qed auto

declare closure_loop.simps [simp del]

(*@ core/rt/json.cpp 64-109 rt::JsonObject::_seek_json_object_closure *)
definition seek_json_object_closure :: "bytes \<Rightarrow> nat \<Rightarrow> nat \<Rightarrow> nat option option" where
  "seek_json_object_closure m e p =
    do { c \<leftarrow> rd m p;
         if is_quote c then Some (string_closure m e c p)
         else if c = 60 then binary_closure m e p
         else if match_closure c \<noteq> 0 then closure_loop m e c (match_closure c) 1 (p + 1)
         else Some (Some (scan_text m e p)) }"

subsection \<open>Objects\<close>

text \<open>A key and value pair is two views; \<open>None\<close> is the pair before the first call.\<close>

(*@ core/rt/json.h 404-408 rt::JsonKeyValuePair *)
type_synonym kvp = "((nat \<times> nat) \<times> (nat \<times> nat)) option"

(*@ core/rt/string_type.h 841-844 rt::String_Ref::String_Ref *)
definition view_IsEmpty :: "nat \<times> nat \<Rightarrow> bool" where
  "view_IsEmpty r \<longleftrightarrow> snd r = fst r \<or> snd r + 1 = fst r"

(*@ core/rt/json.cpp 225-227 rt::JsonObject::GetNextKeyValuePair *)
definition kvp_start :: "nat \<Rightarrow> nat \<Rightarrow> kvp \<Rightarrow> nat" where
  "kvp_start b e kvp = (case kvp of Some ((kb, ke), (vb, ve)) \<Rightarrow> if b + 1 \<le> kb \<and> ve \<le> e then ve else b + 1 | None \<Rightarrow> b + 1)"

text \<open>The next name behind \<open>p\<close>, \<open>Some None\<close> at the closing brace.\<close>

(*@ core/rt/json.cpp 228-232 rt::JsonObject::GetNextKeyValuePair *)
definition next_name :: "bytes \<Rightarrow> nat \<Rightarrow> nat \<Rightarrow> nat option option" where
  "next_name m e p =
    do { c \<leftarrow> rd m p;
         let p = (if is_quote c \<or> c = 62 then p + 1 else p);
         let p = skip_whitespace m e p;
         c \<leftarrow> rd m p;
         Some (if c = 125 then None else Some (if c = 44 then skip_whitespace m e (p + 1) else p)) }"

(*@ core/rt/json.cpp 234-259 rt::JsonObject::GetNextKeyValuePair *)
definition read_pair :: "bytes \<Rightarrow> nat \<Rightarrow> nat \<Rightarrow> kvp \<Rightarrow> (bool \<times> kvp) option" where
  "read_pair m e p kvp =
    do { c \<leftarrow> rd m p;
         let name_end = (if is_quote c then seek_char_escape m e c (p + 1) else scan_text m e p);
         let p = (if is_quote c then p + 1 else p);
         if e = name_end \<or> p = name_end then Some (False, kvp)
         else do {
           let value = seek_char m e 58 name_end;
           if value = e then Some (False, kvp)
           else do {
             let value = skip_whitespace m e (value + 1);
             t \<leftarrow> seek_json_object_closure m e value;
             case t of
               None \<Rightarrow> Some (False, kvp)
             | Some tail \<Rightarrow>
                 do { (value, tail) \<leftarrow> cook_raw_value m value tail;
                      let kvp = Some ((p, name_end), (value, tail));
                      if \<not> view_IsEmpty (value, tail) then Some (True, kvp)
                      else do { c \<leftarrow> rd m tail; Some (c = 34, kvp) } } } } }"

(*@ core/rt/json.cpp 222-260 rt::JsonObject::GetNextKeyValuePair *)
definition GetNextKeyValuePair :: "bytes \<Rightarrow> nat \<Rightarrow> nat \<Rightarrow> kvp \<Rightarrow> (bool \<times> kvp) option" where
  "GetNextKeyValuePair m b e kvp =
    (if e \<le> b then Some (False, kvp)
     else do {
       t \<leftarrow> next_name m e (kvp_start b e kvp);
       case t of None \<Rightarrow> Some (False, kvp) | Some p \<Rightarrow> read_pair m e p kvp })"

text \<open>\<^verbatim>\<open>while(doc.GetNextKeyValuePair(kv))\<close> with the keys and values it sees. It need not end, so it is a partial function.\<close>

definition view :: "bytes \<Rightarrow> nat \<times> nat \<Rightarrow> bytes" where
  "view m r = take (snd r - fst r) (drop (fst r) m)"

(*@ core/rt/json.cpp 268-273 rt::JsonObject::Override *)
partial_function (option) key_values :: "bytes \<Rightarrow> nat \<Rightarrow> nat \<Rightarrow> kvp \<Rightarrow> ((nat \<times> nat) \<times> (nat \<times> nat)) list option" where
  "key_values m b e kvp =
    do { (more, kvp) \<leftarrow> GetNextKeyValuePair m b e kvp;
         if more then do { rest \<leftarrow> key_values m b e kvp; Some (the kvp # rest) } else Some [] }"

section \<open>Text at a position\<close>

fun text_at :: "bytes \<Rightarrow> nat \<Rightarrow> nat \<Rightarrow> bytes \<Rightarrow> bool" where
  "text_at m e p [] \<longleftrightarrow> p \<le> e \<and> e \<le> length m"
| "text_at m e p (c # x) \<longleftrightarrow> p < e \<and> m ! p = c \<and> text_at m e (p + 1) x"

lemma text_at_bound: "text_at m e p x \<Longrightarrow> p + length x \<le> e \<and> e \<le> length m"
  by (induction x arbitrary: p) fastforce+

lemma text_at_append [simp]: "text_at m e p (x @ y) \<longleftrightarrow> text_at m e p x \<and> text_at m e (p + length x) y"
  by (induction x arbitrary: p) (auto dest: text_at_bound)

lemma text_at_nth: "text_at m e p x \<Longrightarrow> k < length x \<Longrightarrow> m ! (p + k) = x ! k"
proof (induction x arbitrary: p k)
  case (Cons c x)
  then show ?case using Cons.IH [of "p + 1" "k - 1"] by (cases k) auto
qed simp

lemma text_at_view: "text_at m e p x \<Longrightarrow> view m (p, p + length x) = x"
  using text_at_bound [of m e p x] by (auto simp: view_def text_at_nth intro: nth_equalityI)

lemma text_at_prefix: "e = length pre + length x \<Longrightarrow> m = pre @ x @ post \<Longrightarrow> text_at m e (length pre) x"
proof (induction x arbitrary: pre)
  case (Cons c x)
  then show ?case using Cons.IH [of "pre @ [c]"] by (simp add: nth_append)
qed simp

lemma text_at_rd: "text_at m e p (c # x) \<Longrightarrow> rd m p = Some c"
  using text_at_bound [of m e p "c # x"] by (simp add: rd_def)

text \<open>Loops of the form \<^verbatim>\<open>while(p < end && P(*p))p++\<close>.\<close>

lemma skip_text:
  assumes "text_at m e p (x @ c # y)" "\<forall>d\<in>set x. P d" "\<not> P c"
  shows "skip_while P (take e m) p = p + length x"
  using assms
proof (induction x arbitrary: p)
  case Nil
  then show ?case by (subst skip_while.simps) simp
next
  case (Cons d x)
  then have "p < length (take e m)" "take e m ! p = d" using text_at_bound [of m e p "d # x @ c # y"] by auto
  then show ?case using Cons by (subst skip_while.simps) simp
qed

text \<open>What may stand between quotes: the quote itself only behind a backslash, and no open backslash at the end.\<close>

fun quotable :: "byte \<Rightarrow> bytes \<Rightarrow> bool" where
  "quotable q [] \<longleftrightarrow> True"
| "quotable q (c # s) \<longleftrightarrow> (if c = 92 then (case s of [] \<Rightarrow> False | d # s' \<Rightarrow> quotable q s') else c \<noteq> q \<and> quotable q s)"

lemma seek_quotable:
  assumes "quotable q s" "q \<noteq> 92" "text_at m e p (s @ [q])" "even (backslashes m p)"
  shows "seek_char_escape m e q p = p + length s"
  using assms
proof (induction q s arbitrary: p rule: quotable.induct)
  case (1 q)
  then show ?case by (subst seek_char_escape.simps) simp
next
  case (2 q c s)
  show ?case
  proof (cases "c = 92")
    case True
    then obtain d s' where s: "s = d # s'" using "2.prems"(1) by (cases s) auto
    have "backslashes m (Suc (Suc p)) = (if d = 92 then backslashes m p + 2 else 0)" using True s "2.prems"(3) by simp
    then have "even (backslashes m (p + 2))" using "2.prems"(4) by (simp del: backslashes.simps)
    then have "seek_char_escape m e q (p + 2) = p + 2 + length s'"
      using True s "2.prems" by (intro "2.IH"(1)) auto
    moreover have "seek_char_escape m e q p = seek_char_escape m e q (p + 2)"
      using True s "2.prems" by (subst seek_char_escape.simps, simp, subst seek_char_escape.simps, simp)
    ultimately show ?thesis using s by simp
  next
    case False
    then have "seek_char_escape m e q (p + 1) = p + 1 + length s" using "2.prems" by (intro "2.IH"(2)) auto
    then show ?thesis using False "2.prems" by (subst seek_char_escape.simps) simp
  qed
qed

lemma seek_quoted:
  assumes "quotable q s" "q \<noteq> 92" "text_at m e p (q # s @ [q])"
  shows "seek_char_escape m e q (p + 1) = p + 1 + length s"
  using assms by (intro seek_quotable) simp_all

lemma ToNumber_loop_stop:
  "\<forall>c\<in>set ds. is_digit c \<Longrightarrow> ToNumber_loop 10 44 (ds @ 47 # r) x d = (digits_value x ds, d + length ds)"
  by (induction ds arbitrary: x d) (auto simp: digits_value_def to_num_def is_digit_def)

lemma ToNumber_stop: "ToNumber 10 s allow 44 (dec n @ 47 # r) = (int (length (dec n)), of_nat n :: 'a::len word)"
proof -
  obtain c ds where d: "dec n = c # ds" "is_digit c" using dec_digits [of "hd (dec n)" n] by (cases "dec n") (auto simp: dec.simps [of n] split: if_splits)
  then show ?thesis using ToNumber_loop_stop [of "dec n" r "0 :: 'a word" 0] dec_digits [of _ n] to_num_digit [OF d(2)]
    by (simp add: ToNumber_def digits_value_dec [symmetric] del: ToNumber_loop.simps)
qed

lemma BinLen_dec: "length s < 2 ^ 32 \<Longrightarrow> BinLen s = dec (length s)"
  by (simp add: BinLen_def itoa_UINT_dec unat_word_of_nat)

lemma text_at_drop: "text_at m e p x \<Longrightarrow> \<exists>r. drop p (take e m) = x @ r"
proof -
  assume a: "text_at m e p x"
  have "take (length x) (drop p (take e m)) = x"
    using text_at_bound [OF a] text_at_nth [OF a] by (auto intro!: nth_equalityI)
  then show ?thesis by (metis append_take_drop_id)
qed

lemma binary_closure_text:
  assumes "length s < 2 ^ 32" "text_at m e p (J_text (VBin s))"
  shows "binary_closure m e p = Some (Some (p + length (J_text (VBin s))))"
proof -
  have t: "text_at m e (p + 1) (dec (length s) @ 47 # s @ [62])" using assms by (simp add: BinLen_dec)
  obtain r where "drop (p + 1) (take e m) = (dec (length s) @ 47 # s @ [62]) @ r" using text_at_drop [OF t] by blast
  then have "ToNumber_default 10 False (drop (p + 1) (take e m)) = (int (length (dec (length s))), word_of_nat (length s) :: u32)"
    by (simp add: ToNumber_default_def ToNumber_stop)
  moreover have "rd m (p + 1 + length (dec (length s)) + 1 + length s) = Some 62"
    using t text_at_rd [of m e _ 62 "[]"] by (simp add: add.assoc)
  ultimately show ?thesis using assms(1) by (simp add: binary_closure_def unat_word_of_nat BinLen_dec nat_add_distrib)
qed

section \<open>Neutral texts\<close>

text \<open>A text over which the search for the closing bracket passes without a change of depth.\<close>

definition brackets :: "byte \<Rightarrow> byte \<Rightarrow> bool" where
  "brackets i d \<longleftrightarrow> i = 123 \<and> d = 125 \<or> i = 91 \<and> d = 93"

definition neutral :: "byte \<Rightarrow> byte \<Rightarrow> bytes \<Rightarrow> bool" where
  "neutral i d x \<longleftrightarrow> (\<forall>m e p k. text_at m e p x \<longrightarrow> 0 < k \<longrightarrow> closure_loop m e i d k p = closure_loop m e i d k (p + length x))"

lemma neutral_Nil [simp]: "neutral i d []"
  by (simp add: neutral_def)

lemma neutral_append: "neutral i d x \<Longrightarrow> neutral i d y \<Longrightarrow> neutral i d (x @ y)"
  by (simp add: neutral_def add.assoc)

definition plain :: "byte \<Rightarrow> bool" where
  "plain c \<longleftrightarrow> c \<noteq> 34 \<and> c \<noteq> 39 \<and> c \<noteq> 60 \<and> c \<noteq> 91 \<and> c \<noteq> 93 \<and> c \<noteq> 123 \<and> c \<noteq> 125"

lemma closure_loop_char:
  "p < e \<Longrightarrow> m ! p \<noteq> 34 \<Longrightarrow> m ! p \<noteq> 39 \<Longrightarrow> m ! p \<noteq> 60 \<Longrightarrow> m ! p \<noteq> i \<Longrightarrow> m ! p \<noteq> d \<Longrightarrow>
    closure_loop m e i d k p = closure_loop m e i d k (p + 1)"
  by (subst closure_loop.simps) (simp add: is_quote_def)

lemma neutral_char: "c \<noteq> 34 \<Longrightarrow> c \<noteq> 39 \<Longrightarrow> c \<noteq> 60 \<Longrightarrow> c \<noteq> i \<Longrightarrow> c \<noteq> d \<Longrightarrow> neutral i d [c]"
  unfolding neutral_def by (auto simp: closure_loop_char)

lemma neutral_plain: "brackets i d \<Longrightarrow> \<forall>c\<in>set x. plain c \<Longrightarrow> neutral i d x"
proof (induction x)
  case (Cons c x)
  then show ?case using neutral_append [of i d "[c]" x] neutral_char [of c i d] by (auto simp: plain_def brackets_def)
qed simp

lemma neutral_quoted:
  assumes "brackets i d" "quotable 34 s"
  shows "neutral i d (quoted s)"
proof (unfold neutral_def, intro allI impI)
  fix m e p and k :: int
  assume t: "text_at m e p (quoted s)"
  have "seek_char_escape m e 34 (p + 1) = p + 1 + length s" using t by (intro seek_quoted assms) (simp_all add: quoted_def)
  then show "closure_loop m e i d k p = closure_loop m e i d k (p + length (quoted s))"
    using t assms(1) by (subst closure_loop.simps) (auto simp: quoted_def is_quote_def brackets_def)
qed

text \<open>Behind a binary value the search skips one more character.\<close>

lemma neutral_binary:
  assumes "brackets i d" "length s < 2 ^ 32"
  shows "neutral i d (J_text (VBin s) @ [c])"
proof (unfold neutral_def, intro allI impI)
  fix m e p and k :: int
  assume t: "text_at m e p (J_text (VBin s) @ [c])"
  then have "text_at m e p (J_text (VBin s))" by (simp only: text_at_append)
  then have "binary_closure m e p = Some (Some (p + length (J_text (VBin s))))" by (rule binary_closure_text [OF assms(2)])
  moreover have "p < e" "m ! p = 60" using t by simp_all
  ultimately show "closure_loop m e i d k p = closure_loop m e i d k (p + length (J_text (VBin s) @ [c]))"
    using assms(1) by (subst closure_loop.simps) (auto simp: is_quote_def brackets_def)
qed

lemma neutral_nest:
  assumes "neutral i d x" "i \<noteq> d"
  shows "neutral i d (i # x @ [d])"
proof (unfold neutral_def, intro allI impI)
  fix m e p and k :: int
  assume t: "text_at m e p (i # x @ [d])" and k: "0 < k"
  have "closure_loop m e i d k p = closure_loop m e i d (k + 1) (p + 1)" using t by (subst closure_loop.simps) simp
  also have "\<dots> = closure_loop m e i d (k + 1) (p + 1 + length x)"
    using assms(1) [unfolded neutral_def, rule_format, of m e "p + 1" "k + 1"] t k by simp
  also have "\<dots> = closure_loop m e i d k (p + 1 + length x + 1)" using t k assms(2) by (subst closure_loop.simps) simp
  finally show "closure_loop m e i d k p = closure_loop m e i d k (p + length (i # x @ [d]))" by simp
qed

lemma neutral_braces: "neutral i d x \<Longrightarrow> brackets i d \<Longrightarrow> brackets a b \<Longrightarrow> neutral i d (a # x @ [b])"
  using neutral_nest [of i d x] neutral_append [of i d "[a]" "x @ [b]"] neutral_append [of i d x "[b]"] neutral_char [of a i d] neutral_char [of b i d]
  unfolding brackets_def by (elim disjE conjE) simp_all

text \<open>The bracket that closes a value is found.\<close>

lemma closure_braces:
  assumes "neutral a b x" "brackets a b" "text_at m e p (a # x @ [b])"
  shows "seek_json_object_closure m e p = Some (Some (p + length (a # x @ [b])))"
proof -
  have "closure_loop m e a b 1 (p + 1) = closure_loop m e a b 1 (p + 1 + length x)"
    using assms(1) [unfolded neutral_def, rule_format, of m e "p + 1" 1] assms(3) by simp
  also have "\<dots> = Some (Some (p + 1 + length x + 1))" using assms(2,3) by (subst closure_loop.simps) (auto simp: brackets_def)
  finally show ?thesis using text_at_rd [of m e p a "x @ [b]"] assms(2,3)
    by (auto simp: seek_json_object_closure_def match_closure_def is_quote_def brackets_def)
qed

section \<open>Composed texts\<close>

text \<open>A number or literal: characters of \<^verbatim>\<open>_is_text\<close> without the mark of a binary value and without control characters.\<close>

definition token :: "bytes \<Rightarrow> bool" where
  "token x \<longleftrightarrow> x \<noteq> [] \<and> (\<forall>c\<in>set x. is_text c \<and> c \<noteq> 60 \<and> \<not> (0 \<le> c_int c \<and> c_int c \<le> 32))"

text \<open>What may stand between brackets: strings in double quotes, bracketed texts nested to any depth, binary values with a character other than a bracket, a quote or \<^verbatim>\<open><\<close>
  behind them, and any such characters. The search for a closing bracket skips the character behind a binary value, so that must not be the bracket.\<close>

inductive nested :: "bytes \<Rightarrow> bool" where
  nested_Nil: "nested []"
| nested_plain: "plain c \<Longrightarrow> nested x \<Longrightarrow> nested (c # x)"
| nested_quoted: "quotable 34 s \<Longrightarrow> nested x \<Longrightarrow> nested (quoted s @ x)"
| nested_binary: "length s < 2 ^ 32 \<Longrightarrow> plain c \<Longrightarrow> nested x \<Longrightarrow> nested (J_text (VBin s) @ c # x)"
| nested_brackets: "brackets a b \<Longrightarrow> nested x \<Longrightarrow> nested y \<Longrightarrow> nested (a # x @ b # y)"

text \<open>A value written without quotes: a number or literal, or an array or object in its brackets.\<close>

definition raw_value :: "bytes \<Rightarrow> bool" where
  "raw_value s \<longleftrightarrow> token s \<or> (\<exists>a b x. brackets a b \<and> s = a # x @ [b] \<and> nested x)"

fun jval_ok :: "vartype \<Rightarrow> jval \<Rightarrow> bool" and jvars_ok :: "jvars \<Rightarrow> bool" where
  "jval_ok vt (VExpr e) \<longleftrightarrow> (if vt = VARTYPE_STRING then quotable 34 (expr_text e) else raw_value (expr_text e))"
| "jval_ok vt (VObj s) \<longleftrightarrow> vt \<noteq> VARTYPE_STRING \<and> (s = [] \<or> raw_value s)"
| "jval_ok vt (VBin s) \<longleftrightarrow> vt \<noteq> VARTYPE_STRING \<and> s \<noteq> [] \<and> length s < 2 ^ 32"
| "jval_ok vt (VArr b) \<longleftrightarrow> vt \<noteq> VARTYPE_STRING \<and> (case b of [] \<Rightarrow> False | c # x \<Rightarrow> c = 91 \<and> nested x)"
| "jval_ok vt (VVars vs) \<longleftrightarrow> vt \<noteq> VARTYPE_STRING \<and> jvars_ok vs"
| "jvars_ok NoVar \<longleftrightarrow> True"
| "jvars_ok (JVar prev name v vt) \<longleftrightarrow> jvars_ok prev \<and> (name = [] \<or> quotable 34 name \<and> jval_ok vt v)"

definition value_text :: "vartype \<Rightarrow> jval \<Rightarrow> bytes" where
  "value_text vt v = (if vt = VARTYPE_STRING then quoted (J_text v) else J_text v)"

lemma is_text_eq: "is_text c \<longleftrightarrow> c \<notin> {7, 9, 10, 11, 12, 13, 32, 39, 34, 44, 58, 123, 125, 91, 93}"
proof -
  let ?L = "[7, 9, 10, 11, 12, 13, 32, 39, 34, 44, 58, 123, 125, 91, 93] :: bytes"
  have "CS_str ?L \<noteq> None" by code_simp
  then have S: "CS_Init ?L ?L = Some json_sep" by (auto simp: json_sep_def CS_str_def)
  have "Has json_sep c \<longleftrightarrow> c \<in> set ?L" unfolding Has_get CS_Init_get [OF S] map_of_zip_same by auto
  then show ?thesis by (simp add: is_text_def)
qed

lemma token_plain: "token x \<Longrightarrow> \<forall>c\<in>set x. plain c"
  by (auto simp: token_def is_text_eq plain_def)

lemma token_null: "token [110, 117, 108, 108]"
  by (simp add: token_def is_text_eq)

lemma nested_append: "nested x \<Longrightarrow> nested y \<Longrightarrow> nested (x @ y)"
  by (induction rule: nested.induct) (auto intro: nested.intros simp del: J_text.simps)

lemma nested_plains: "\<forall>c\<in>set x. plain c \<Longrightarrow> nested x"
  by (induction x) (auto intro: nested.intros)

lemma nested_string: "quotable 34 s \<Longrightarrow> nested (quoted s)"
  using nested_quoted [of s "[]"] nested_Nil by simp

lemma nested_sep: "c = 44 \<or> c = 10 \<or> c = 58 \<Longrightarrow> nested [c]"
  by (rule nested_plains) (auto simp: plain_def)

lemma nested_raw: "raw_value s \<Longrightarrow> nested s"
  using nested_plains [OF token_plain] nested_brackets [of _ _ _ "[]"] nested_Nil by (fastforce simp: raw_value_def)

lemma raw_null: "raw_value [110, 117, 108, 108]"
  using token_null by (simp add: raw_value_def)

lemma neutral_nested: "nested x \<Longrightarrow> brackets i d \<Longrightarrow> neutral i d x"
proof (induction rule: nested.induct)
  case (nested_plain c x)
  then show ?case using neutral_append [of i d "[c]" x] neutral_plain [of i d "[c]"] by simp
next
  case (nested_binary s c x)
  then show ?case using neutral_append [OF neutral_binary [of i d s c], of x] by (simp del: J_text.simps)
next
  case (nested_brackets a b x y)
  then show ?case using neutral_append [OF neutral_braces [of i d x a b], of y] by simp
qed (auto intro: neutral_append neutral_quoted)

text \<open>Composed texts are nested ones.\<close>

lemma nested_object: "nested (jvars_text vs @ [10]) \<Longrightarrow> \<exists>x. J_text (VVars vs) = 123 # x @ [125] \<and> nested x"
  using nested_append [of "[10]" "jvars_text vs @ [10]"] nested_sep [of 10] nested_Nil
  by (cases "jvars_text vs = []") simp_all

lemma nested_json:
  shows "jval_ok vt v \<Longrightarrow> c = 44 \<or> c = 10 \<Longrightarrow> nested (value_text vt v @ [c])"
    and "jvars_ok vs \<Longrightarrow> c = 44 \<or> c = 10 \<Longrightarrow> nested (jvars_text vs @ [c])"
proof (induction v and vs arbitrary: vt c and c)
  case (VExpr e)
  then show ?case by (intro nested_append nested_sep) (auto simp: value_text_def intro: nested_string nested_raw)
next
  case (VObj s)
  then show ?case using raw_null by (intro nested_append nested_sep) (auto simp: value_text_def intro: nested_raw)
next
  case (VBin s)
  then have "plain c" by (auto simp: plain_def)
  then show ?case using VBin nested_binary [of s c "[]"] nested_Nil by (simp add: value_text_def)
next
  case (VArr b)
  then show ?case using nested_brackets [of 91 93 "tl b" "[c]"] nested_sep [of c] by (cases b) (auto simp: value_text_def brackets_def)
next
  case (VVars vs)
  then obtain x where "J_text (VVars vs) = 123 # x @ [125]" "nested x" using nested_object [of vs] by auto
  then show ?case using VVars.prems nested_brackets [of 123 125 x "[c]"] nested_sep [of c] by (auto simp: value_text_def brackets_def)
next
  case NoVar
  then show ?case using nested_sep by auto
next
  case (JVar prev name v vt)
  show ?case
  proof (cases "name = []")
    case True
    then show ?thesis using JVar by simp
  next
    case False
    have "nested ((quoted name @ [58]) @ value_text vt v @ [c])"
      using JVar False by (intro nested_append [of "quoted name @ [58]"] nested_append [of "quoted name"] nested_string nested_sep) auto
    then have member: "nested (member_text name vt (J_text v) @ [c])" by (simp add: member_text_def value_text_def)
    have "nested ((jvars_text prev @ [44]) @ [10])" using JVar by (intro nested_append [of "jvars_text prev @ [44]"] nested_sep) auto
    then show ?thesis using nested_append [OF _ member] member False by (cases "jvars_text prev = []") fastforce+
  qed
qed

lemma raw_composed: "jvars_ok vs \<Longrightarrow> raw_value (J_text (VVars vs))"
  using nested_object [OF nested_json(2)] by (fastforce simp: raw_value_def brackets_def)

subsection \<open>One value\<close>

text \<open>A value text is its content between an opener and a closer.\<close>

definition content :: "jval \<Rightarrow> bytes" where
  "content v = (case v of VBin s \<Rightarrow> s | _ \<Rightarrow> J_text v)"

definition opener :: "vartype \<Rightarrow> jval \<Rightarrow> bytes" where
  "opener vt v = (if vt = VARTYPE_STRING then [34] else case v of VBin s \<Rightarrow> 60 # BinLen s @ [47] | _ \<Rightarrow> [])"

definition closer :: "vartype \<Rightarrow> jval \<Rightarrow> bytes" where
  "closer vt v = (if vt = VARTYPE_STRING then [34] else case v of VBin s \<Rightarrow> [62] | _ \<Rightarrow> [])"

lemma value_text_split: "jval_ok vt v \<Longrightarrow> value_text vt v = opener vt v @ content v @ closer vt v"
  by (cases v) (auto simp: value_text_def opener_def closer_def content_def quoted_def)

lemma closer_cases: "closer vt v = [] \<or> closer vt v = [34] \<or> closer vt v = [62]"
  by (cases v) (auto simp: closer_def)

lemma closure_token:
  assumes "token x" "text_at m e p (x @ [c])" "\<not> is_text c"
  shows "seek_json_object_closure m e p = Some (Some (p + length x))"
proof -
  obtain a y where x: "x = a # y" "is_text a" "a \<noteq> 60" using assms(1) by (cases x) (auto simp: token_def)
  have "rd m p = Some a" using text_at_rd [of m e p a "y @ [c]"] assms(2) x by simp
  moreover have "scan_text m e p = p + length x"
    unfolding scan_text_def using assms by (intro skip_text [of m e p x c "[]"]) (auto simp: token_def)
  ultimately show ?thesis using x by (simp add: seek_json_object_closure_def match_closure_def is_quote_def is_text_eq)
qed

lemma closure_quoted:
  assumes "quotable 34 s" "text_at m e p (quoted s)"
  shows "seek_json_object_closure m e p = Some (Some (p + length (quoted s)))"
proof -
  have "seek_char_escape m e 34 (p + 1) = p + 1 + length s" using assms by (intro seek_quoted) (simp_all add: quoted_def)
  moreover have "p + 1 + length s < e" using text_at_bound [OF assms(2)] by (simp add: quoted_def)
  ultimately show ?thesis using text_at_rd [of m e p 34 "s @ [34]"] assms(2)
    by (simp add: seek_json_object_closure_def is_quote_def string_closure_def quoted_def)
qed

lemma closure_raw:
  assumes "raw_value x" "text_at m e p (x @ [c])" "\<not> is_text c"
  shows "seek_json_object_closure m e p = Some (Some (p + length x))"
proof (cases "token x")
  case False
  then obtain a b y where y: "brackets a b" "x = a # y @ [b]" "nested y" using assms(1) by (auto simp: raw_value_def)
  then show ?thesis using closure_braces [OF neutral_nested [OF y(3,1)] y(1), of m e p] assms(2) by simp
qed (rule closure_token [OF _ assms(2,3)])

lemma closure_value:
  assumes "jval_ok vt v" "text_at m e p (value_text vt v @ [c])" "c = 44 \<or> c = 10"
  shows "seek_json_object_closure m e p = Some (Some (p + length (value_text vt v)))"
proof -
  have t: "text_at m e p (value_text vt v)" and c: "\<not> is_text c" using assms(2,3) by (auto simp: is_text_eq)
  show ?thesis
  proof (cases v)
    case (VExpr x)
    then show ?thesis using assms t closure_quoted [of "expr_text x" m e p] closure_raw [OF _ _ c, of "expr_text x" m e p]
      by (auto simp: value_text_def split: if_splits)
  next
    case (VObj s)
    then show ?thesis using assms closure_raw [OF _ _ c, of "J_text v" m e p] raw_null by (auto simp: value_text_def)
  next
    case (VBin s)
    then have "rd m p = Some 60" using t assms(1) by (auto simp: value_text_def rd_def)
    then show ?thesis using VBin t assms(1) binary_closure_text [of s m e p]
      by (simp add: value_text_def seek_json_object_closure_def is_quote_def del: J_text.simps)
  next
    case (VArr b)
    then have "raw_value (J_text v)" using assms(1) by (cases b) (auto simp: raw_value_def brackets_def)
    then show ?thesis using VArr closure_raw [OF _ _ c, of "J_text v" m e p] assms(1,2) by (simp add: value_text_def)
  next
    case (VVars vs)
    then show ?thesis using closure_raw [OF raw_composed _ c, of vs m e p] assms(1,2) by (simp add: value_text_def del: J_text.simps)
  qed
qed

lemma text_at_memory: "text_at m e p x \<Longrightarrow> text_at m (length m) p x"
  by (induction x arbitrary: p) (fastforce dest: text_at_bound)+

lemma cook_binary:
  assumes "length s < 2 ^ 32" "text_at m e p (J_text (VBin s))"
  shows "cook_raw_value m p t = Some (p + length (60 # BinLen s @ [47]), t - 1)"
proof -
  obtain d ds where d: "dec (length s) = d # ds" by (cases "dec (length s)") (auto simp: dec.simps [of "length s"] split: if_splits)
  then have len: "BinLen s = d # ds" using BinLen_dec [OF assms(1)] by simp
  have t: "text_at m (length m) p (60 # d # ds @ 47 # s @ [62])" using text_at_memory [OF assms(2)] len by simp
  have "47 \<notin> set ds" using dec_digits [of 47 "length s"] d by (auto simp: is_digit_def)
  then have "skip_while (\<lambda>c. c \<noteq> 47) (take (length m) m) (p + 2) = p + 2 + length ds"
    using t by (intro skip_text [of m "length m" "p + 2" ds 47 "s @ [62]"]) auto
  then show ?thesis using t len by (simp add: cook_raw_value_def is_quote_def rd_def)
qed

lemma raw_first:
  assumes "jval_ok vt v" "vt \<noteq> VARTYPE_STRING" "\<nexists>s. v = VBin s"
  shows "\<exists>c x. J_text v = c # x \<and> \<not> is_quote c \<and> c \<noteq> 60 \<and> \<not> (0 \<le> c_int c \<and> c_int c \<le> 32)"
proof -
  have raw: "raw_value y \<Longrightarrow> \<exists>c x. y = c # x \<and> \<not> is_quote c \<and> c \<noteq> 60 \<and> \<not> (0 \<le> c_int c \<and> c_int c \<le> 32)" for y
    by (cases y) (auto simp: raw_value_def token_def brackets_def is_text_eq is_quote_def)
  show ?thesis
  proof (cases v)
    case (VArr b)
    then show ?thesis using assms(1) by (cases b) (auto simp: is_quote_def)
  qed (use assms raw in \<open>auto simp: is_quote_def\<close>)
qed

lemma cook_value:
  assumes "jval_ok vt v" "text_at m e p (value_text vt v)"
  shows "cook_raw_value m p (p + length (value_text vt v)) = Some (p + length (opener vt v), p + length (opener vt v) + length (content v))"
proof (cases "vt = VARTYPE_STRING")
  case True
  then obtain x where "v = VExpr x" using assms(1) by (cases v) auto
  then show ?thesis using True text_at_rd [of m e p 34 "expr_text x @ [34]"] assms(2)
    by (simp add: cook_raw_value_def is_quote_def value_text_def quoted_def opener_def content_def)
next
  case string: False
  show ?thesis
  proof (cases "\<exists>s. v = VBin s")
    case True
    then obtain s where s: "v = VBin s" by blast
    have "cook_raw_value m p (p + length (J_text v)) = Some (p + length (60 # BinLen s @ [47]), p + length (J_text v) - 1)"
      using assms string s by (intro cook_binary [of s m e]) (simp_all add: value_text_def)
    then show ?thesis using string s by (simp add: value_text_def opener_def content_def)
  next
    case False
    obtain c x where x: "J_text v = c # x" "\<not> is_quote c" "c \<noteq> 60" using raw_first [OF assms(1) string False] by blast
    have "rd m p = Some c" using assms(2) string x text_at_rd [of m e p c x] by (simp add: value_text_def)
    moreover have "opener vt v = []" "content v = J_text v" using False string by (auto simp: opener_def content_def split: jval.split)
    ultimately show ?thesis using x string by (simp add: cook_raw_value_def value_text_def)
  qed
qed

subsection \<open>One step\<close>

text \<open>What stands before a member: the newline behind the opening brace, or the closer of the last value, a comma and a newline (with one more newline before the comma where an object was grown).\<close>

definition lead :: "bytes \<Rightarrow> bool" where
  "lead w \<longleftrightarrow> w = [10] \<or> (\<exists>cl\<in>{[], [34], [62]}. w = cl @ [44, 10] \<or> w = cl @ [10, 44, 10])"

lemma skip_newline: "text_at m e p (10 # c # y) \<Longrightarrow> c = 34 \<or> c = 125 \<Longrightarrow> skip_whitespace m e p = p + 1"
  unfolding skip_whitespace_def by (subst skip_text [of m e p "[10]" c y]) auto

lemma skip_none: "text_at m e p (c # y) \<Longrightarrow> c = 34 \<or> c = 44 \<or> c = 125 \<Longrightarrow> skip_whitespace m e p = p"
  unfolding skip_whitespace_def by (subst skip_text [of m e p "[]" c y]) auto

lemma skip_to_comma: "text_at m e p (10 # 44 # y) \<Longrightarrow> skip_whitespace m e p = p + 1"
  unfolding skip_whitespace_def by (subst skip_text [of m e p "[10]" 44 y]) auto

lemma next_name_lead:
  assumes "lead w" "text_at m e p (w @ 34 # y)"
  shows "next_name m e p = Some (Some (p + length w))"
proof -
  note b = text_at_bound [OF assms(2)]
  have comma: "next_name m e p = Some (Some (p + length w))" if w: "w = cl @ [44, 10]" and cl: "cl = [] \<or> cl = [34] \<or> cl = [62]" for cl
    using assms(2) w cl b skip_none [of m e "p + length cl" 44 "10 # 34 # y"] skip_newline [of m e "p + length cl + 1" 34 y]
    by (auto simp: next_name_def rd_def is_quote_def)
  have grown: "next_name m e p = Some (Some (p + length w))" if w: "w = cl @ [10, 44, 10]" and cl: "cl = [] \<or> cl = [34] \<or> cl = [62]" for cl
    using assms(2) w cl b skip_to_comma [of m e "p + length cl" "10 # 34 # y"] skip_newline [of m e "p + length cl + 2" 34 y]
    by (auto simp: next_name_def rd_def is_quote_def)
  show ?thesis
  proof (cases "w = [10]")
    case True
    then show ?thesis using assms(2) skip_newline [of m e p 34 y] b by (simp add: next_name_def rd_def is_quote_def)
  next
    case False
    then show ?thesis using assms(1) comma grown unfolding lead_def by blast
  qed
qed

text \<open>At the end of the object: the closer of the last value, a newline and the brace, or the brace alone.\<close>

lemma next_name_end:
  assumes "w = [125] \<or> w = [10, 125] \<or> w = [34, 10, 125] \<or> w = [62, 10, 125]" "text_at m e p w"
  shows "next_name m e p = Some None"
proof -
  consider "w = [125]" | "w = [10, 125]" | q where "w = [q, 10, 125]" "q = 34 \<or> q = 62" using assms(1) by auto
  then show ?thesis
  proof cases
    case 1
    then show ?thesis using assms(2) skip_none [of m e p 125 "[]"] by (simp add: next_name_def rd_def is_quote_def)
  next
    case 2
    then show ?thesis using assms(2) skip_newline [of m e p 125 "[]"] by (simp add: next_name_def rd_def is_quote_def)
  next
    case 3
    then show ?thesis using assms(2) skip_newline [of m e "p + 1" 125 "[]"] by (auto simp: next_name_def rd_def is_quote_def)
  qed
qed

lemma value_first:
  assumes "jval_ok vt v"
  shows "\<exists>c x. value_text vt v = c # x \<and> \<not> (0 \<le> c_int c \<and> c_int c \<le> 32)"
  using raw_first [OF assms] by (cases v) (auto simp: value_text_def quoted_def)

lemma read_pair_member:
  assumes ok: "quotable 34 name" "name \<noteq> []" "jval_ok vt v" and c: "c = 44 \<or> c = 10"
    and t: "text_at m e p (member_text name vt (J_text v) @ [c])"
  defines "a \<equiv> p + 1 + length name + 2 + length (opener vt v)"
  shows "read_pair m e p kvp = Some (True, Some ((p + 1, p + 1 + length name), (a, a + length (content v))))"
proof -
  define q where "q = p + 1 + length name + 2"
  have t: "text_at m e p (quoted name)" "text_at m e (p + 1 + length name) [34, 58]" "text_at m e q (value_text vt v @ [c])"
    using t by (simp_all add: member_text_def value_text_def quoted_def q_def add.assoc split: if_splits)
  have "rd m p = Some 34" using t(1) text_at_rd [of m e p 34 "name @ [34]"] by (simp add: quoted_def)
  moreover have "seek_char_escape m e 34 (p + 1) = p + 1 + length name" using ok t(1) by (intro seek_quoted) (simp_all add: quoted_def)
  moreover have "seek_char m e 58 (p + 1 + length name) = p + 1 + length name + 1"
    unfolding seek_char_def using t(2) by (subst skip_text [of m e "p + 1 + length name" "[34]" 58 "[]"]) auto
  moreover have "skip_whitespace m e q = q"
  proof -
    obtain d x where d: "value_text vt v = d # x" "\<not> (0 \<le> c_int d \<and> c_int d \<le> 32)" using value_first [OF ok(3)] by blast
    then show ?thesis unfolding skip_whitespace_def using t(3) by (subst skip_text [of m e q "[]" d "x @ [c]"]) auto
  qed
  moreover have "seek_json_object_closure m e q = Some (Some (q + length (value_text vt v)))" by (rule closure_value [OF ok(3) t(3) c])
  moreover have "cook_raw_value m q (q + length (value_text vt v)) = Some (a, a + length (content v))"
    using cook_value [OF ok(3), of m e q] t(3) by (simp add: a_def q_def)
  moreover have "content v \<noteq> [] \<or> rd m a = Some 34"
  proof (cases "vt = VARTYPE_STRING")
    case True
    then show ?thesis using t(3) ok(3) by (cases v) (auto simp: content_def value_text_def quoted_def opener_def a_def q_def rd_def)
  next
    case False
    then show ?thesis using raw_first [OF ok(3)] ok(3) by (cases v) (auto simp: content_def)
  qed
  moreover have "p + 1 + length name + 2 < e" using text_at_bound [OF t(3)] by (simp add: q_def)
  ultimately show ?thesis using ok(2) by (auto simp: read_pair_def is_quote_def view_IsEmpty_def q_def Let_def)
qed

lemma read_pair_views:
  assumes "jval_ok vt v" "text_at m e p (member_text name vt (J_text v))"
  defines "a \<equiv> p + 1 + length name + 2 + length (opener vt v)"
  shows "view m (p + 1, p + 1 + length name) = name" "view m (a, a + length (content v)) = content v"
    "text_at m e (a + length (content v)) (closer vt v)" "a + length (content v) + length (closer vt v) = p + length (member_text name vt (J_text v))"
proof -
  have m: "member_text name vt (J_text v) = 34 # name @ [34, 58] @ opener vt v @ content v @ closer vt v"
    using value_text_split [OF assms(1)] by (simp add: member_text_def value_text_def quoted_def)
  have "text_at m e (p + 1) name" "text_at m e a (content v)" "text_at m e (a + length (content v)) (closer vt v)"
    using assms(2) unfolding m by (simp_all add: a_def add.assoc)
  then show "view m (p + 1, p + 1 + length name) = name" "view m (a, a + length (content v)) = content v"
      "text_at m e (a + length (content v)) (closer vt v)"
    by (blast intro: text_at_view)+
  show "a + length (content v) + length (closer vt v) = p + length (member_text name vt (J_text v))" unfolding m by (simp add: a_def)
qed

subsection \<open>All members\<close>

type_synonym member = "bytes \<times> vartype \<times> jval"

fun members :: "jvars \<Rightarrow> member list" where
  "members NoVar = []"
| "members (JVar prev name v vt) = members prev @ (if name = [] then [] else [(name, vt, v)])"

fun body :: "member list \<Rightarrow> bytes" where
  "body [] = []"
| "body ((name, vt, v) # ms) = 44 # 10 # member_text name vt (J_text v) @ body ms"

fun members_ok :: "member list \<Rightarrow> bool" where
  "members_ok [] \<longleftrightarrow> True"
| "members_ok ((name, vt, v) # ms) \<longleftrightarrow> name \<noteq> [] \<and> quotable 34 name \<and> jval_ok vt v \<and> members_ok ms"

definition pairs :: "member list \<Rightarrow> (bytes \<times> bytes) list" where
  "pairs ms = map (\<lambda>(name, vt, v). (name, content v)) ms"

lemma members_comma: "members (JVar_comma vs (JTag_assign name v vt)) = members vs @ (if name = [] then [] else [(name, vt, v)])"
  by (simp add: JVar_comma_def JTag_assign_def)

lemma body_append: "body (xs @ ys) = body xs @ body ys"
  by (induction xs rule: body.induct) auto

lemma members_ok_append: "members_ok (xs @ ys) \<longleftrightarrow> members_ok xs \<and> members_ok ys"
  by (induction xs rule: members_ok.induct) auto

lemma body_Nil: "body ms = [] \<longleftrightarrow> ms = []" "ms \<noteq> [] \<Longrightarrow> 2 \<le> length (body ms)" "ms \<noteq> [] \<Longrightarrow> drop 2 (body ms) \<noteq> []"
  by (cases ms rule: body.cases; simp add: member_text_def quoted_def)+

lemma jvars_text_body: "jvars_text vs = drop 2 (body (members vs))"
proof (induction vs rule: members.induct)
  case (2 prev name v vt)
  then show ?case using body_Nil [of "members prev"] by (cases "members prev = []") (auto simp: body_append)
qed simp

lemma members_ok: "jvars_ok vs \<Longrightarrow> members_ok (members vs)"
  by (induction vs rule: members.induct) (auto simp: members_ok_append)

lemma kvp_start_next: "b + 1 \<le> kb \<Longrightarrow> ve \<le> e \<Longrightarrow> kvp_start b e (Some ((kb, ke), (vb, ve))) = ve"
  by (simp add: kvp_start_def)

definition views :: "bytes \<Rightarrow> ((nat \<times> nat) \<times> (nat \<times> nat)) list \<Rightarrow> (bytes \<times> bytes) list" where
  "views m rs = map (\<lambda>(k, v). (view m k, view m v)) rs"

lemma key_values_end:
  assumes "b < e" "w = [125] \<or> w = [10, 125] \<or> w = [34, 10, 125] \<or> w = [62, 10, 125]" "text_at m e (kvp_start b e kvp) w"
  shows "key_values m b e kvp = Some []"
  using assms(1) next_name_end [OF assms(2,3)] by (subst key_values.simps) (simp add: GetNextKeyValuePair_def)

lemma GetNext_member:
  assumes "members_ok [(name, vt, v)]" "lead w" "b < e" "b \<le> kvp_start b e kvp"
    and t: "text_at m e (kvp_start b e kvp) (w @ member_text name vt (J_text v) @ c # y)" and c: "c = 44 \<or> c = 10"
  obtains r p where "GetNextKeyValuePair m b e kvp = Some (True, Some r)" "views m [r] = pairs [(name, vt, v)]"
    "kvp_start b e (Some r) = p" "b \<le> p" "text_at m e p (closer vt v @ c # y)"
proof -
  define s where "s = kvp_start b e kvp + length w"
  define a where "a = s + 1 + length name + 2 + length (opener vt v)"
  define r where "r = ((s + 1, s + 1 + length name), (a, a + length (content v)))"
  have ok: "quotable 34 name" "name \<noteq> []" "jval_ok vt v" using assms(1) by simp_all
  have s: "text_at m e s (member_text name vt (J_text v) @ [c])" using t text_at_bound [of m e "_ + 1" y] by (auto simp: s_def)
  obtain z where "member_text name vt (J_text v) = 34 # z" by (simp add: member_text_def quoted_def)
  then have "next_name m e (kvp_start b e kvp) = Some (Some s)"
    using next_name_lead [OF assms(2), of m e "kvp_start b e kvp" "z @ c # y"] t by (simp add: s_def)
  then have "GetNextKeyValuePair m b e kvp = Some (True, Some r)"
    using read_pair_member [OF ok c s, of kvp] assms(3) by (simp add: GetNextKeyValuePair_def r_def a_def)
  moreover have v: "views m [r] = pairs [(name, vt, v)]" "text_at m e (a + length (content v)) (closer vt v)"
      "a + length (content v) + length (closer vt v) = s + length (member_text name vt (J_text v))"
    using read_pair_views [OF ok(3), of m e s name] s by (simp_all add: views_def pairs_def r_def a_def)
  moreover have "kvp_start b e (Some r) = a + length (content v)"
    unfolding r_def using assms(4) text_at_bound [OF v(2)] by (intro kvp_start_next) (simp_all add: s_def)
  moreover have "text_at m e (a + length (content v)) (closer vt v @ c # y)" using v(2,3) t by (simp add: s_def)
  moreover have "b \<le> a + length (content v)" using assms(4) by (simp add: a_def s_def)
  ultimately show ?thesis using that by blast
qed

lemma key_values_step:
  "GetNextKeyValuePair m b e kvp = Some (True, Some r) \<Longrightarrow> key_values m b e kvp = map_option ((#) r) (key_values m b e (Some r))"
  by (subst key_values.simps) (cases "key_values m b e (Some r)"; simp)

text \<open>Reading a run of members leaves the rest of the loop, at the closer of the last value.\<close>

lemma key_values_members:
  assumes "members_ok (x # ms)" "lead w" "b < e" "b \<le> kvp_start b e kvp" "text_at m e (kvp_start b e kvp) (w @ drop 2 (body (x # ms)) @ 10 # z)"
  shows "\<exists>rs r cl. key_values m b e kvp = map_option ((@) rs) (key_values m b e (Some r)) \<and> views m rs = pairs (x # ms) \<and>
    b \<le> kvp_start b e (Some r) \<and> cl \<in> {[], [34], [62]} \<and> text_at m e (kvp_start b e (Some r)) (cl @ 10 # z)"
  using assms
proof (induction ms arbitrary: x w kvp)
  case Nil
  obtain name vt v where x: "x = (name, vt, v)" by (cases x)
  have ok: "members_ok [(name, vt, v)]" and t: "text_at m e (kvp_start b e kvp) (w @ member_text name vt (J_text v) @ 10 # z)"
    using Nil.prems(1,5) x by simp_all
  obtain r p where r: "GetNextKeyValuePair m b e kvp = Some (True, Some r)" "views m [r] = pairs [(name, vt, v)]"
      "kvp_start b e (Some r) = p" "b \<le> p" "text_at m e p (closer vt v @ 10 # z)"
    by (rule GetNext_member [OF ok Nil.prems(2-4) t]) simp
  have "key_values m b e kvp = map_option ((@) [r]) (key_values m b e (Some r))"
    using key_values_step [OF r(1)] by (cases "key_values m b e (Some r)") simp_all
  then show ?case using r x closer_cases [of vt v] by blast
next
  case (Cons y ms)
  obtain name vt v where x: "x = (name, vt, v)" by (cases x)
  have ok: "members_ok [(name, vt, v)]"
    and t: "text_at m e (kvp_start b e kvp) (w @ member_text name vt (J_text v) @ 44 # 10 # drop 2 (body (y # ms)) @ 10 # z)"
    using Cons.prems(1,5) x by (cases y; simp add: add.assoc)+
  obtain r p where r: "GetNextKeyValuePair m b e kvp = Some (True, Some r)" "views m [r] = pairs [(name, vt, v)]"
      "kvp_start b e (Some r) = p" "b \<le> p" "text_at m e p (closer vt v @ 44 # 10 # drop 2 (body (y # ms)) @ 10 # z)"
    by (rule GetNext_member [OF ok Cons.prems(2-4) t]) simp
  have l: "lead (closer vt v @ [44, 10])" using closer_cases [of vt v] by (auto simp: lead_def)
  have m: "members_ok (y # ms)" using Cons.prems(1) x by simp
  have b: "b \<le> kvp_start b e (Some r)" using r(3,4) by simp
  have "text_at m e (kvp_start b e (Some r)) ((closer vt v @ [44, 10]) @ drop 2 (body (y # ms)) @ 10 # z)" using r(3,5) by (simp add: add.assoc)
  from Cons.IH [OF m l Cons.prems(3) b this] obtain rs r' cl
    where rs: "key_values m b e (Some r) = map_option ((@) rs) (key_values m b e (Some r'))" "views m rs = pairs (y # ms)"
      "b \<le> kvp_start b e (Some r')" "cl \<in> {[], [34], [62]}" "text_at m e (kvp_start b e (Some r')) (cl @ 10 # z)" by blast
  have "key_values m b e kvp = map_option ((@) (r # rs)) (key_values m b e (Some r'))"
    using key_values_step [OF r(1)] rs(1) by (cases "key_values m b e (Some r')") simp_all
  moreover have "views m (r # rs) = pairs (x # y # ms)" using r(2) rs(2) x by (simp add: views_def pairs_def)
  ultimately show ?case using rs(3-5) by blast
qed

text \<open>An object made of several chains, as \<^verbatim>\<open><<\<close> and \<^verbatim>\<open>JSON_OBJECT_MERGE\<close> put them together.\<close>

fun chains_text :: "jvars list \<Rightarrow> bytes" where
  "chains_text [] = []"
| "chains_text (vs # vss) = 44 # 10 # jvars_text vs @ 10 # chains_text vss"

definition chain_ok :: "jvars \<Rightarrow> bool" where
  "chain_ok vs \<longleftrightarrow> jvars_ok vs \<and> members vs \<noteq> []"

lemma key_values_chain:
  assumes "chain_ok v" "lead w" "b < e" "b \<le> kvp_start b e kvp" "text_at m e (kvp_start b e kvp) (w @ jvars_text v @ 10 # z)"
  obtains rs r cl where "key_values m b e kvp = map_option ((@) rs) (key_values m b e (Some r))" "views m rs = pairs (members v)"
    "b \<le> kvp_start b e (Some r)" "cl \<in> {[], [34], [62]}" "text_at m e (kvp_start b e (Some r)) (cl @ 10 # z)"
proof -
  obtain x ms where x: "members v = x # ms" using assms(1) by (cases "members v") (auto simp: chain_ok_def)
  have ok: "members_ok (x # ms)" using members_ok [of v] assms(1) x by (simp add: chain_ok_def)
  have "text_at m e (kvp_start b e kvp) (w @ drop 2 (body (x # ms)) @ 10 # z)" using assms(5) x by (simp add: jvars_text_body)
  from key_values_members [OF ok assms(2-4) this] show ?thesis using that x by (metis (no_types))
qed

lemma key_values_chains:
  assumes "\<forall>vs\<in>set (v # vss). chain_ok vs" "lead w" "b < e" "b \<le> kvp_start b e kvp"
    "text_at m e (kvp_start b e kvp) (w @ jvars_text v @ 10 # chains_text vss @ [125])"
  shows "\<exists>rs. key_values m b e kvp = Some rs \<and> views m rs = pairs (concat (map members (v # vss)))"
  using assms
proof (induction vss arbitrary: v w kvp)
  case Nil
  have ok: "chain_ok v" and t: "text_at m e (kvp_start b e kvp) (w @ jvars_text v @ 10 # [125])" using Nil.prems(1,5) by simp_all
  obtain rs r cl where r: "key_values m b e kvp = map_option ((@) rs) (key_values m b e (Some r))" "views m rs = pairs (members v)"
      "b \<le> kvp_start b e (Some r)" "cl \<in> {[], [34], [62]}" "text_at m e (kvp_start b e (Some r)) (cl @ 10 # [125])"
    by (rule key_values_chain [OF ok Nil.prems(2-4) t])
  then have "key_values m b e (Some r) = Some []" using Nil.prems(3) by (intro key_values_end [of b e "cl @ [10, 125]"]) auto
  then show ?case using r(1,2) by simp
next
  case (Cons u vss)
  have ok: "chain_ok v" and t: "text_at m e (kvp_start b e kvp) (w @ jvars_text v @ 10 # chains_text (u # vss) @ [125])"
    using Cons.prems(1,5) by simp_all
  obtain rs r cl where r: "key_values m b e kvp = map_option ((@) rs) (key_values m b e (Some r))" "views m rs = pairs (members v)"
      "b \<le> kvp_start b e (Some r)" "cl \<in> {[], [34], [62]}" "text_at m e (kvp_start b e (Some r)) (cl @ 10 # chains_text (u # vss) @ [125])"
    by (rule key_values_chain [OF ok Cons.prems(2-4) t])
  have l: "lead (cl @ [10, 44, 10])" using r(4) by (auto simp: lead_def)
  have oks: "\<forall>vs\<in>set (u # vss). chain_ok vs" using Cons.prems(1) by simp
  have "text_at m e (kvp_start b e (Some r)) ((cl @ [10, 44, 10]) @ jvars_text u @ 10 # chains_text vss @ [125])"
    using r(5) by (simp add: add.assoc)
  from Cons.IH [OF oks l Cons.prems(3) r(3) this] show ?case using r(1,2) by (auto simp: views_def pairs_def)
qed

fun object_text :: "jvars list \<Rightarrow> bytes" where
  "object_text [] = [123, 125]"
| "object_text (vs # vss) = 123 # 10 # jvars_text vs @ 10 # chains_text vss @ [125]"

lemma key_values_object:
  assumes "\<forall>vs\<in>set vss. chain_ok vs" "m = pre @ object_text vss @ post"
  shows "\<exists>rs. key_values m (length pre) (length pre + length (object_text vss)) None = Some rs \<and> views m rs = pairs (concat (map members vss))"
proof -
  define b e where "b = length pre" and "e = length pre + length (object_text vss)"
  have t: "text_at m e b (object_text vss)" unfolding b_def by (rule text_at_prefix [OF e_def assms(2)])
  have k: "kvp_start b e None = b + 1" by (simp add: kvp_start_def)
  have "\<exists>rs. key_values m b e None = Some rs \<and> views m rs = pairs (concat (map members vss))"
  proof (cases vss)
    case Nil
    then show ?thesis using key_values_end [of b e "[125]" m None] t k by (simp add: views_def pairs_def)
  next
    case (Cons v vss')
    then show ?thesis using key_values_chains [of v vss' "[10]" b e None m] assms(1) t k by (simp add: lead_def add.assoc)
  qed
  then show ?thesis by (simp add: b_def e_def)
qed

lemma jvars_text_Nil: "jvars_text vs = [] \<longleftrightarrow> members vs = []"
  using body_Nil(3) [of "members vs"] by (auto simp: jvars_text_body)

lemma J_text_object: "J_text (VVars vs) = object_text (if members vs = [] then [] else [vs])"
  by (simp add: jvars_text_Nil)

subsection \<open>Composing and reading\<close>

fun JObject_run :: "allocator \<Rightarrow> jvars list \<Rightarrow> String \<Rightarrow> String option" where
  "JObject_run alloc [] save = Some save"
| "JObject_run alloc (vs # vss) save = do { save \<leftarrow> JObject_shl alloc vs save; JObject_run alloc vss save }"




text \<open>Reading an object composed with \<^verbatim>\<open>J(name) = value, ...\<close> yields its members in order.\<close>

theorem composed_key_values:
  assumes "jvars_ok vs" "m = pre @ J_text (VVars vs) @ post"
  shows "\<exists>rs. key_values m (length pre) (length pre + length (J_text (VVars vs))) None = Some rs \<and> views m rs = pairs (members vs)"
  using key_values_object [of "if members vs = [] then [] else [vs]" m pre post] assms
  unfolding J_text_object by (cases "members vs = []") (simp_all add: chain_ok_def)

definition sample_vars :: jvars where
  "sample_vars = JVar (JVar (JVar NoVar [97] (VExpr (Ref [49, 50])) VARTYPE_BUILTIN) [98] (VExpr (Ref [92, 34, 125])) VARTYPE_STRING)
    [99] (VVars (JVar NoVar [100] (VBin [123, 0]) VARTYPE_OBJECT)) VARTYPE_OBJECT"

lemma sample_ok: "jvars_ok sample_vars" "members sample_vars \<noteq> []"
  by (simp_all add: sample_vars_def raw_value_def token_def is_text_eq)

theorem composed_key_values_witness:
  "\<exists>rs. key_values ([32] @ J_text (VVars sample_vars) @ [0]) 1 (1 + length (J_text (VVars sample_vars))) None = Some rs \<and>
    views ([32] @ J_text (VVars sample_vars) @ [0]) rs = pairs (members sample_vars)"
  using composed_key_values [OF sample_ok(1) refl, of "[32]" "[0]"] by simp

text \<open>A chain whose only member is dropped (\<^verbatim>\<open>J_IF\<close> with a false condition) leaves two commas when it is added to an object that has members. The enumeration ends there: what is
  added later is in the text and is not read.\<close>

definition one_var :: "byte \<Rightarrow> jvars" where
  "one_var c = JVar NoVar [c] (VExpr (Ref [49])) VARTYPE_BUILTIN"

definition ghost_var :: jvars where
  "ghost_var = JVar NoVar [] (VExpr (Ref [])) VARTYPE_BUILTIN"

definition ghost_text :: bytes where
  "ghost_text = [123, 10, 34, 97, 34, 58, 49, 10, 44, 44, 10, 34, 98, 34, 58, 49, 10, 125]"

lemma ghost_pairs:
  "GetNextKeyValuePair ghost_text 0 18 None = Some (True, Some ((3, 4), (6, 7)))"
  "GetNextKeyValuePair ghost_text 0 18 (Some ((3, 4), (6, 7))) = Some (False, Some ((3, 4), (6, 7)))"
  by code_simp+

theorem ghost_chain_ends:
  "map_option s_text (JObject_run zero_alloc [one_var 97, ghost_var, one_var 98] String_new) = Some ghost_text \<and>
    map_option (views ghost_text) (key_values ghost_text 0 (length ghost_text) None) = Some [([97], [49])]"
proof
  show "map_option s_text (JObject_run zero_alloc [one_var 97, ghost_var, one_var 98] String_new) = Some ghost_text" by code_simp
  have "key_values ghost_text 0 18 (Some ((3, 4), (6, 7))) = Some []" by (subst key_values.simps) (simp add: ghost_pairs)
  then have "key_values ghost_text 0 18 None = Some [((3, 4), (6, 7))]" by (subst key_values.simps) (simp add: ghost_pairs)
  moreover have "length ghost_text = 18" "views ghost_text [((3, 4), (6, 7))] = [([97], [49])]"
    by (simp_all add: ghost_text_def views_def view_def)
  ultimately show "map_option (views ghost_text) (key_values ghost_text 0 (length ghost_text) None) = Some [([97], [49])]" by simp
qed





end
