(* ===== verification/JsonGet.thy ===== *)
theory JsonGet
  imports JsonParse
begin

text \<open>
  Access to the values of a JSON text, \<^verbatim>\<open>core/rt/json.h\<close> and \<^verbatim>\<open>core/rt/json.cpp\<close>: the type and the raw text of a value (\<^verbatim>\<open>JsonKeyValuePair\<close>), the items of an array
  (\<^verbatim>\<open>JsonArray\<close>) and the value at a path (\<^verbatim>\<open>JsonObject::_LocateValue\<close>, \<^verbatim>\<open>GetValue\<close>). Memory, views and null pointers are those of the theory on reading.
\<close>

section \<open>Definitions\<close>

subsection \<open>Documents and values\<close>

(*@ core/rt/json.h 484-484 rt::JsonObject::Attach *)
definition Attach :: "bytes \<Rightarrow> nat \<times> nat \<Rightarrow> nat \<times> nat \<Rightarrow> nat \<times> nat" where
  "Attach m r doc = (let s = FindCharacter 123 (view m r) 0 in if s \<ge> 0 then (fst r + nat s, snd r) else doc)"

(*@ core/rt/json.h 391-401 rt::JsonType *)
datatype json_type = JSON_STRING | JSON_NUMBER | JSON_BOOL | JSON_NULL | JSON_OBJECT | JSON_ARRAY | JSON_BINARY | JSON_CORRUPTED

definition rd_before :: "bytes \<Rightarrow> nat \<Rightarrow> byte option" where
  "rd_before m p = (if p = 0 then None else rd m (p - 1))"

(*@ core/rt/json.cpp 428-439 rt::JsonKeyValuePair::GetValueType *)
definition GetValueType :: "bytes \<Rightarrow> nat \<times> nat \<Rightarrow> json_type option" where
  "GetValueType m Value =
    (if view_IsEmpty Value then Some JSON_NULL
     else do {
       p \<leftarrow> rd_before m (fst Value);
       c \<leftarrow> rd m (fst Value);
       Some (if is_quote p then JSON_STRING
         else if p = 47 then JSON_BINARY
         else if c = 123 then JSON_OBJECT
         else if c = 91 then JSON_ARRAY
         else if c = 116 \<or> c = 84 \<or> c = 102 \<or> c = 70 then JSON_BOOL
         else if (48 \<le> c_int c \<and> c_int c \<le> 57) \<or> c = 45 then JSON_NUMBER
         else if snd Value - fst Value = 4 \<and> view m Value = le_store 4 (0x6c6c756e :: u32) then JSON_NULL
         else JSON_CORRUPTED) })"

text \<open>\<^verbatim>\<open>while(*p != '<')p--;\<close>\<close>

fun back_to :: "byte \<Rightarrow> bytes \<Rightarrow> nat \<Rightarrow> nat option" where
  "back_to c m 0 = do { d \<leftarrow> rd m 0; if d = c then Some 0 else None }"
| "back_to c m (Suc p) = do { d \<leftarrow> rd m (Suc p); if d = c then Some (Suc p) else back_to c m p }"

(*@ core/rt/json.cpp 441-453 rt::JsonKeyValuePair::GetValueRaw *)
definition GetValueRaw :: "bytes \<Rightarrow> nat \<times> nat \<Rightarrow> (nat \<times> nat) option" where
  "GetValueRaw m Value =
    do { p \<leftarrow> rd_before m (fst Value);
         if is_quote p then Some (fst Value - 1, snd Value + 1)
         else if p = 47 then do { p \<leftarrow> back_to 60 m (fst Value - 1); Some (p, snd Value + 1) }
         else Some Value }"

subsection \<open>Arrays\<close>

(*@ core/rt/json.cpp 6-10 rt::JsonArray::JsonArray *)
definition JsonArray :: "bytes \<Rightarrow> nat \<times> nat \<Rightarrow> nat \<times> nat" where
  "JsonArray m r = (let s = FindCharacter 91 (view m r) 0 in if s \<ge> 0 then (fst r + nat s, snd r) else (0, 0))"

text \<open>Where the search for the next item starts: behind the comma that follows the current one; \<open>Some None\<close> when there is no comma.\<close>

(*@ core/rt/json.cpp 15-27 rt::JsonArray::GetNextObjectRaw *)
definition next_item :: "bytes \<Rightarrow> nat \<Rightarrow> nat \<Rightarrow> (nat \<times> nat) option \<Rightarrow> nat option option" where
  "next_item m b e obj =
    (case obj of
       Some (ob, cur) \<Rightarrow>
         if b \<le> cur \<and> cur \<le> e then
           do { c \<leftarrow> rd m cur;
                cur \<leftarrow> (if c = 34 then do { d \<leftarrow> rd_before m ob; Some (if d = 34 then cur + 1 else cur) } else Some cur);
                let cur = skip_whitespace m e cur;
                c \<leftarrow> rd m cur;
                Some (if c = 44 then Some (cur + 1) else None) }
         else Some (Some (b + 1))
     | None \<Rightarrow> Some (Some (b + 1)))"

(*@ core/rt/json.cpp 12-39 rt::JsonArray::GetNextObjectRaw *)
definition GetNextObjectRaw :: "bytes \<Rightarrow> nat \<Rightarrow> nat \<Rightarrow> (nat \<times> nat) option \<Rightarrow> (bool \<times> (nat \<times> nat) option) option" where
  "GetNextObjectRaw m b e obj =
    (if e \<le> b then Some (False, obj)
     else do {
       t \<leftarrow> next_item m b e obj;
       case t of
         None \<Rightarrow> Some (False, obj)
       | Some cur \<Rightarrow>
           do { let p = skip_whitespace m e cur;
                c \<leftarrow> rd m p;
                if c = 93 then Some (False, obj)
                else do {
                  t \<leftarrow> seek_json_object_closure m e p;
                  Some (case t of None \<Rightarrow> (False, obj) | Some tail \<Rightarrow> (True, Some (p, tail))) } } })"

(*@ core/rt/json.cpp 41-53 rt::JsonArray::GetNextObject *)
definition GetNextObject :: "bytes \<Rightarrow> nat \<Rightarrow> nat \<Rightarrow> (nat \<times> nat) option \<Rightarrow> (bool \<times> (nat \<times> nat) option) option" where
  "GetNextObject m b e obj =
    do { (more, obj) \<leftarrow> GetNextObjectRaw m b e obj;
         case obj of
           Some (p, tail) \<Rightarrow> if more then do { r \<leftarrow> cook_raw_value m p tail; Some (True, Some r) } else Some (False, obj)
         | None \<Rightarrow> Some (False, None) }"

(*@ core/rt/json.cpp 55-62 rt::JsonArray::GetSize *)
partial_function (option) GetSize_loop :: "bytes \<Rightarrow> nat \<Rightarrow> nat \<Rightarrow> (nat \<times> nat) option \<Rightarrow> nat \<Rightarrow> nat option" where
  "GetSize_loop m b e obj c =
    do { (more, obj) \<leftarrow> GetNextObjectRaw m b e obj;
         if more then GetSize_loop m b e obj (c + 1) else Some c }"

text \<open>The items seen by \<^verbatim>\<open>while(GetNextObject(item))\<close>, the loop of \<^verbatim>\<open>CopyNumbers\<close> with at most \<open>n\<close> of them.\<close>

(*@ core/rt/json.h 535-546 rt::JsonArray::CopyNumbers *)
fun array_items :: "bytes \<Rightarrow> nat \<Rightarrow> nat \<Rightarrow> nat \<Rightarrow> (nat \<times> nat) option \<Rightarrow> (nat \<times> nat) list option" where
  "array_items m b e 0 obj = Some []"
| "array_items m b e (Suc n) obj =
    do { (more, obj) \<leftarrow> GetNextObject m b e obj;
         if more then do { rest \<leftarrow> array_items m b e n obj; Some (the obj # rest) } else Some [] }"

subsection \<open>Values at a path\<close>

text \<open>A path is a text in a memory of its own, which \<^verbatim>\<open>Split\<close> takes apart into views. The views matter and not only their texts, because the character in front of a segment tells
  an index from a name: for the first segment that is the character in front of the path, which must be there to be read. \<open>Split_spans\<close> is the loop of \<^verbatim>\<open>Split\<close> with the
  views it stores; \<open>room\<close> is what is left of the array of the caller.\<close>

definition field_span :: "byte \<Rightarrow> byte \<Rightarrow> bytes \<Rightarrow> nat \<Rightarrow> nat \<Rightarrow> nat \<times> nat" where
  "field_span quote1 quote2 s a b =
    (if b - a \<ge> 2 \<and> s ! a = s ! (b - 1) \<and> (s ! a = quote1 \<or> s ! a = quote2) then (a + 1, b - 1) else (a, b))"

(*@ core/rt/string_type.h 562-599 rt::String_Base::Split *)
function Split_spans :: "bool \<Rightarrow> byte \<Rightarrow> byte \<Rightarrow> charset \<Rightarrow> bytes \<Rightarrow> nat \<Rightarrow> nat \<Rightarrow> nat \<Rightarrow> byte \<Rightarrow> (nat \<times> nat) list" where
  "Split_spans merge quote1 quote2 seps s room start p quote_cur =
    (if p < length s \<and> quote_cur \<noteq> 0 then
       Split_spans merge quote1 quote2 seps s room start (p + 1)
         (if quote_cur = s ! p \<and> p > start \<and> s ! (p - 1) \<noteq> 92 then 0 else quote_cur)
     else if p < length s \<and> (s ! p = quote1 \<or> quote2 = s ! p) then
       Split_spans merge quote1 quote2 seps s room start (p + 1) (s ! p)
     else if p < length s \<and> \<not> Has seps (s ! p) then
       Split_spans merge quote1 quote2 seps s room start (p + 1) quote_cur
     else
       field_span quote1 quote2 s start p #
         (if room \<le> 1 \<or> p \<ge> length s then []
          else
            let p = p + 1;
                p = (if merge then skip_while (Has seps) s p else p) in
            Split_spans merge quote1 quote2 seps s (room - 1) p p quote_cur))"
  by pat_completeness auto
termination
proof (relation "measure (\<lambda>(merge, q1, q2, seps, s, room, start, p, q). length s - p)", goal_cases)
  case (5 merge q1 q2 seps s room start p q p' p'')
  then have "p < p''" using skip_while_ge [of "p + 1" "Has seps" s] by (auto simp: Suc_le_eq)
  moreover have "p < length s" using 5 by auto
  ultimately have "length s - p'' < length s - p" by (rule diff_less_mono2)
  then show ?case by simp
qed auto

declare Split_spans.simps [simp del]

definition path_seps :: "bool \<Rightarrow> charset" where
  "path_seps bDoNotSplitDot = the (CS_str (if bDoNotSplitDot then [91, 93] else [46, 91, 93]))"

(*@ core/rt/json.cpp 358-364 rt::JsonObject::_LocateValue *)
definition path_segments :: "bytes \<Rightarrow> nat \<times> nat \<Rightarrow> bool \<Rightarrow> (nat \<times> nat) list" where
  "path_segments xm xpath bDoNotSplitDot =
    (if view_IsEmpty xpath then []
     else map (\<lambda>(a, b). (fst xpath + a, fst xpath + b)) (Split_spans True 34 39 (path_seps bDoNotSplitDot) (view xm xpath) 256 0 0 0))"

(*@ core/rt/json.cpp 381-387 rt::JsonObject::_LocateValue *)
definition read_name :: "bytes \<Rightarrow> nat \<Rightarrow> nat \<Rightarrow> (nat \<times> nat) option" where
  "read_name m e p =
    do { c \<leftarrow> rd m p;
         Some (if is_quote c then (p + 1, seek_char_escape m e c (p + 1)) else (p, scan_text m e p)) }"

(*@ core/rt/json.cpp 378-405 rt::JsonObject::_LocateValue *)
partial_function (option) find_member :: "bytes \<Rightarrow> nat \<Rightarrow> bytes \<Rightarrow> nat \<Rightarrow> nat option option" where
  "find_member m e name p =
    do { let p = skip_whitespace m e (p + 1);
         c \<leftarrow> rd m p;
         if c = 125 then Some None
         else do {
           (p, name_end) \<leftarrow> read_name m e p;
           if e = name_end \<or> p = name_end then Some None
           else do {
             let value = seek_char m e 58 name_end;
             if value = e then Some None
             else do {
               let value = skip_whitespace m e (value + 1);
               if Str_equal (view m (p, name_end)) name then Some (Some value)
               else do {
                 t \<leftarrow> seek_json_object_closure m e value;
                 case t of
                   None \<Rightarrow> Some None
                 | Some p \<Rightarrow>
                     do { let p = skip_whitespace m e p;
                          c \<leftarrow> rd m p;
                          if c \<noteq> 44 then Some None else find_member m e name p } } } } } }"

text \<open>The item number \<open>n\<close> of an array, \<open>n + 1\<close> calls.\<close>

(*@ core/rt/json.cpp 411-418 rt::JsonObject::_LocateValue *)
fun nth_item :: "bytes \<Rightarrow> nat \<Rightarrow> nat \<Rightarrow> nat \<Rightarrow> (nat \<times> nat) option \<Rightarrow> nat option option" where
  "nth_item m b e n obj =
    do { (more, obj) \<leftarrow> GetNextObjectRaw m b e obj;
         if \<not> more then Some None else (case n of 0 \<Rightarrow> Some (map_option fst obj) | Suc n \<Rightarrow> nth_item m b e n obj) }"

text \<open>\<open>path_seg\<close> holds the segments not followed yet, views into the memory \<open>xm\<close> of the path.\<close>

(*@ core/rt/json.cpp 371-426 rt::JsonObject::_LocateValue *)
fun locate :: "bytes \<Rightarrow> nat \<Rightarrow> bytes \<Rightarrow> (nat \<times> nat) list \<Rightarrow> nat \<Rightarrow> nat option option" where
  "locate m e xm [] p = Some None"
| "locate m e xm (name # path_seg) p =
    do { before \<leftarrow> rd_before xm (fst name);
         if before \<noteq> 91 then
           do { t \<leftarrow> find_member m e (view xm name) p;
                case t of
                  None \<Rightarrow> Some None
                | Some value \<Rightarrow>
                    if path_seg = [] then Some (Some value)
                    else do { c \<leftarrow> rd m value; if c \<noteq> 123 \<and> c \<noteq> 91 then Some None else locate m e xm path_seg value } }
         else
           do { c \<leftarrow> rd m p;
                if c \<noteq> 91 then Some None
                else do {
                  let co = snd (ToNumber_default 10 False (view xm name) :: int \<times> u32);
                  t \<leftarrow> nth_item m p e (nat (sint co)) None;
                  case t of
                    None \<Rightarrow> Some None
                  | Some p \<Rightarrow> if path_seg = [] then Some (Some p) else locate m e xm path_seg p } } }"

text \<open>An empty path has no segments, and \<^verbatim>\<open>path_seg[segco-1]\<close> is outside the array.\<close>

(*@ core/rt/json.cpp 354-426 rt::JsonObject::_LocateValue *)
definition LocateValue :: "bytes \<Rightarrow> nat \<Rightarrow> nat \<Rightarrow> bytes \<Rightarrow> nat \<times> nat \<Rightarrow> bool \<Rightarrow> nat option option" where
  "LocateValue m b e xm xpath bDoNotSplitDot =
    (if e \<le> b then Some None
     else
       let path_seg = path_segments xm xpath bDoNotSplitDot in
       if path_seg = [] then None
       else
         do { let path_seg = (if view_IsEmpty (last path_seg) then butlast path_seg else path_seg);
              c \<leftarrow> rd m b;
              if c \<noteq> 123 then Some None else locate m e xm path_seg b })"

text \<open>The value at a path, or the default; an empty path is the document.\<close>

(*@ core/rt/json.cpp 111-125 rt::JsonObject::GetValue *)
definition GetValue :: "bytes \<Rightarrow> nat \<Rightarrow> nat \<Rightarrow> bytes \<Rightarrow> nat \<times> nat \<Rightarrow> bytes \<Rightarrow> bool \<Rightarrow> bytes option" where
  "GetValue m b e xm xpath default_val bDoNotSplitDot =
    (if view_IsEmpty xpath then Some (view m (b, e))
     else
       do { t \<leftarrow> LocateValue m b e xm xpath bDoNotSplitDot;
            case t of
              None \<Rightarrow> Some default_val
            | Some p \<Rightarrow>
                do { t \<leftarrow> seek_json_object_closure m e p;
                     case t of
                       None \<Rightarrow> Some default_val
                     | Some tail \<Rightarrow> map_option (view m) (cook_raw_value m p tail) } })"

(*@ core/rt/json.cpp 127-142 rt::JsonObject::GetValue *)
definition GetValue_exist :: "bytes \<Rightarrow> nat \<Rightarrow> nat \<Rightarrow> bytes \<Rightarrow> nat \<times> nat \<Rightarrow> bool \<Rightarrow> bool \<Rightarrow> (bytes \<times> bool) option" where
  "GetValue_exist m b e xm xpath p_exist bDoNotSplitDot =
    (if view_IsEmpty xpath then Some (view m (b, e), p_exist)
     else
       do { t \<leftarrow> LocateValue m b e xm xpath bDoNotSplitDot;
            case t of
              None \<Rightarrow> Some ([], False)
            | Some p \<Rightarrow>
                do { t \<leftarrow> seek_json_object_closure m e p;
                     case t of
                       None \<Rightarrow> Some ([], False)
                     | Some tail \<Rightarrow> map_option (\<lambda>r. (view m r, True)) (cook_raw_value m p tail) } })"

text \<open>Values as numbers and truth values; \<^verbatim>\<open>ToNumber\<close> stores 0 when it finds no number. \<open>s\<close> is the text of the value.\<close>

(*@ core/rt/json.h 491-496 rt::JsonObject::GetValueAs *)
definition GetValueAs :: "bool \<Rightarrow> bytes \<Rightarrow> 'a::len word \<Rightarrow> 'a word" where
  "GetValueAs IsSigned s default_val = (if s \<noteq> [] then snd (ToNumber_default 10 IsSigned s) else default_val)"

(*@ core/rt/json.h 517-522 rt::JsonObject::GetValueAs *)
definition GetValueAs_bool :: "bytes \<Rightarrow> bool \<Rightarrow> bool" where
  "GetValueAs_bool s default_val = (if s \<noteq> [] then s ! 0 \<noteq> 70 \<and> s ! 0 \<noteq> 102 \<and> s ! 0 \<noteq> 48 else default_val)"

(*@ core/rt/json.h 431-436 rt::JsonKeyValuePair::GetValueAs *)
definition kvp_GetValueAs_bool :: "bytes \<Rightarrow> bool \<Rightarrow> bool" where
  "kvp_GetValueAs_bool s default_val = (if s \<noteq> [] then s ! 0 = 84 \<or> s ! 0 = 116 else default_val)"

(*@ core/rt/json.cpp 144-156 rt::JsonObject::IsEmptyObject *)
definition IsEmptyObject :: "bytes \<Rightarrow> nat \<Rightarrow> nat \<Rightarrow> bool option" where
  "IsEmptyObject m b e =
    (if e \<le> b then Some True
     else
       do { c \<leftarrow> rd (TrimLeftSpace (view m (b, e)) @ drop e m) 0;
            if c \<noteq> 123 then Some False
            else do { (more, _) \<leftarrow> GetNextKeyValuePair m b e None; Some (\<not> more) } })"

section \<open>The segments of a path\<close>

text \<open>The views of \<open>Split_spans\<close> have the texts that \<open>Split\<close> stores.\<close>

lemma field_span_text:
  assumes "a \<le> b" "b \<le> length s"
  shows "(case field_span q1 q2 s a b of (c, d) \<Rightarrow> take (d - c) (drop c s)) = field_text q1 q2 (take (b - a) (drop a s))"
proof -
  define v where "v = take (b - a) (drop a s)"
  have l: "length v = b - a" using assms by (simp add: v_def)
  have v: "v ! 0 = s ! a \<and> last v = s ! (b - 1)" if "2 \<le> b - a"
  proof -
    have "v \<noteq> []" using that l by auto
    then have "last v = v ! (b - a - 1)" using l by (simp add: last_conv_nth)
    then show ?thesis using that assms by (simp add: v_def)
  qed
  have "take (b - 1 - (a + 1)) (drop (a + 1) s) = SubStr 1 (length v - 2) v"
    using assms l by (simp add: SubStr_def v_def drop_take min_def)
  then show ?thesis using v l unfolding v_def [symmetric] by (auto simp: field_span_def field_text_def v_def [symmetric])
qed

lemma Split_loop_spans:
  "start \<le> p \<Longrightarrow> p \<le> length s \<Longrightarrow> i < length fs \<Longrightarrow>
    Split_loop merge q1 q2 seps s fs i start p q =
      stored fs i (map (\<lambda>(a, b). take (b - a) (drop a s)) (Split_spans merge q1 q2 seps s (length fs - i) start p q))"
proof (induction merge q1 q2 seps s fs i start p q rule: Split_loop.induct)
  case (1 merge q1 q2 seps s fs i start p q)
  consider (quote) "p < length s" "q \<noteq> 0" | (open_quote) "p < length s" "q = 0" "s ! p = q1 \<or> q2 = s ! p"
    | (char) "p < length s" "q = 0" "\<not> (s ! p = q1 \<or> q2 = s ! p)" "\<not> Has seps (s ! p)"
    | (stop) "p = length s \<or> q = 0 \<and> \<not> (s ! p = q1 \<or> q2 = s ! p) \<and> Has seps (s ! p)" using "1.prems"(2) by linarith
  then show ?case
  proof cases
    case quote
    then show ?thesis using "1.IH"(1) "1.prems" by (subst Split_loop.simps, subst Split_spans.simps) simp
  next
    case open_quote
    then show ?thesis using "1.IH"(2) "1.prems" by (subst Split_loop.simps, subst Split_spans.simps) auto
  next
    case char
    then show ?thesis using "1.IH"(3) "1.prems" by (subst Split_loop.simps, subst Split_spans.simps) auto
  next
    case stop
    define u where "u = field_text q1 q2 (take (p - start) (drop start s))"
    have u: "(case field_span q1 q2 s start p of (c, d) \<Rightarrow> take (d - c) (drop c s)) = u"
      unfolding u_def by (rule field_span_text [OF "1.prems"(1,2)])
    define p' where "p' = (if merge then skip_while (Has seps) s (p + 1) else p + 1)"
    show ?thesis
    proof (cases "i + 1 \<ge> length fs \<or> p = length s")
      case True
      then have "Split_loop merge q1 q2 seps s fs i start p q = (empty_from (i + 2) (fs[i := u]), i + 1)"
        using stop "1.prems"(2) by (subst Split_loop.simps) (auto simp: u_def Let_def)
      moreover have "Split_spans merge q1 q2 seps s (length fs - i) start p q = [field_span q1 q2 s start p]"
        using True stop "1.prems"(2) by (subst Split_spans.simps) auto
      ultimately show ?thesis using stored_one [of i fs "[]" u] "1.prems"(3) u by simp
    next
      case False
      then have p: "p < length s" "i + 1 < length fs" using "1.prems"(2) by auto
      have p': "p' \<le> length s" using skip_while_le [of "p + 1" s "Has seps"] p by (simp add: p'_def)
      have "Split_loop merge q1 q2 seps s fs i start p q = Split_loop merge q1 q2 seps s (fs[i := u]) (i + 1) p' p' q"
        using False stop p by (subst Split_loop.simps) (auto simp: u_def p'_def Let_def)
      moreover have "Split_spans merge q1 q2 seps s (length fs - i) start p q =
          field_span q1 q2 s start p # Split_spans merge q1 q2 seps s (length fs - (i + 1)) p' p' q"
        using False stop p by (subst Split_spans.simps) (auto simp: p'_def Let_def)
      moreover have "Split_loop merge q1 q2 seps s (fs[i := u]) (i + 1) p' p' q =
          stored (fs[i := u]) (i + 1) (map (\<lambda>(a, b). take (b - a) (drop a s)) (Split_spans merge q1 q2 seps s (length (fs[i := u]) - (i + 1)) p' p' q))"
        by (rule "1.IH"(4)) (use False stop p p' in \<open>auto simp: u_def p'_def\<close>)
      ultimately show ?thesis using stored_Cons [OF p(2), of u] u by simp
    qed
  qed
qed

text \<open>A path of names joined by dots.\<close>

fun dotted :: "bytes list \<Rightarrow> bytes" where
  "dotted [] = []"
| "dotted [n] = n"
| "dotted (n # ns) = n @ 46 # dotted ns"

text \<open>A name that a path can hold as it is: no bracket, no quote, and no dot unless dots do not split.\<close>

definition path_name :: "bool \<Rightarrow> bytes \<Rightarrow> bool" where
  "path_name d n \<longleftrightarrow> n \<noteq> [] \<and> (\<forall>c\<in>set n. c \<notin> {91, 93, 34, 39} \<and> (d \<or> c \<noteq> 46))"

fun spans :: "nat \<Rightarrow> bytes list \<Rightarrow> (nat \<times> nat) list" where
  "spans a [] = []"
| "spans a (n # ns) = (a, a + length n) # spans (a + length n + 1) ns"

lemma Has_path_seps: "Has (path_seps d) c \<longleftrightarrow> c = 91 \<or> c = 93 \<or> (\<not> d \<and> c = 46)"
proof -
  let ?L = "(if d then [91, 93] else [46, 91, 93]) :: bytes"
  have "CS_str [91, 93] \<noteq> None" "CS_str [46, 91, 93] \<noteq> None" by code_simp+
  then have S: "CS_Init ?L ?L = Some (path_seps d)" by (auto simp: path_seps_def CS_str_def)
  show ?thesis unfolding Has_get CS_Init_get [OF S] map_of_zip_same by auto
qed

lemma Split_spans_run:
  "start \<le> length pre \<Longrightarrow> s = pre @ u @ post \<Longrightarrow> \<forall>c\<in>set u. c \<noteq> q1 \<and> c \<noteq> q2 \<and> \<not> Has seps c \<Longrightarrow>
    Split_spans merge q1 q2 seps s room start (length pre) 0 = Split_spans merge q1 q2 seps s room start (length pre + length u) 0"
proof (induction u arbitrary: pre)
  case (Cons c u)
  have "s ! length pre = c" "length pre < length s" using Cons.prems(2) by (simp_all add: nth_append)
  then have "Split_spans merge q1 q2 seps s room start (length pre) 0 = Split_spans merge q1 q2 seps s room start (length (pre @ [c])) 0"
    using Cons.prems(3) by (subst Split_spans.simps) auto
  then show ?case using Cons.IH [of "pre @ [c]"] Cons.prems by simp
qed simp

lemma Split_spans_dotted:
  assumes "s = pre @ dotted ns" "ns \<noteq> []" "\<forall>n\<in>set ns. path_name d n" "d \<Longrightarrow> length ns = 1" "length ns \<le> room"
  shows "Split_spans True 34 39 (path_seps d) s room (length pre) (length pre) 0 = spans (length pre) ns"
  using assms
proof (induction ns arbitrary: pre room rule: dotted.induct)
  case (2 n)
  have n: "\<forall>c\<in>set n. c \<noteq> 34 \<and> c \<noteq> 39 \<and> \<not> Has (path_seps d) c" "n \<noteq> []" using 2 by (auto simp: path_name_def Has_path_seps)
  have "field_span 34 39 s (length pre) (length pre + length n) = (length pre, length pre + length n)"
    using 2(1) n by (cases n) (auto simp: field_span_def nth_append)
  moreover have "Split_spans True 34 39 (path_seps d) s room (length pre) (length pre) 0 = Split_spans True 34 39 (path_seps d) s room (length pre) (length pre + length n) 0"
    using 2(1) by (intro Split_spans_run [OF _ _ n(1), of _ _ _ "[]"]) simp_all
  moreover have "Split_spans True 34 39 (path_seps d) s room (length pre) (length pre + length n) 0 = [field_span 34 39 s (length pre) (length pre + length n)]"
    using 2(1) by (subst Split_spans.simps) simp
  ultimately show ?case by simp
next
  case (3 n n' ns)
  have n: "\<forall>c\<in>set n. c \<noteq> 34 \<and> c \<noteq> 39 \<and> \<not> Has (path_seps d) c" "n \<noteq> []" and d: "\<not> d" using 3 by (auto simp: path_name_def Has_path_seps)
  define p where "p = length pre + length n"
  obtain c r where c: "dotted (n' # ns) = c # r" "\<not> Has (path_seps d) c"
    using "3.prems"(3) d by (cases n'; cases ns) (auto simp: path_name_def Has_path_seps)
  have s: "s = pre @ n @ 46 # c # r" "s = (pre @ n @ [46]) @ dotted (n' # ns)" using "3.prems"(1) c(1) by simp_all
  have at: "s ! p = 46" "s ! (p + 1) = c" "p + 1 < length s" by (simp_all add: s(1) p_def nth_append)
  have f: "field_span 34 39 s (length pre) p = (length pre, p)"
    using s(1) n by (cases n) (auto simp: field_span_def nth_append p_def)
  have k: "skip_while (Has (path_seps d)) s (p + 1) = p + 1" using at c(2) by (subst skip_while.simps) simp
  have "Split_spans True 34 39 (path_seps d) s room (length pre) (length pre) 0 = Split_spans True 34 39 (path_seps d) s room (length pre) p 0"
    using Split_spans_run [OF _ s(1) n(1), of "length pre" True room] by (simp add: p_def)
  also have "\<dots> = (length pre, p) # Split_spans True 34 39 (path_seps d) s (room - 1) (p + 1) (p + 1) 0"
    using at f k d "3.prems"(5) by (subst Split_spans.simps) (simp add: Has_path_seps)
  also have "Split_spans True 34 39 (path_seps d) s (room - 1) (p + 1) (p + 1) 0 = spans (p + 1) (n' # ns)"
    using "3.IH" [OF s(2), of "room - 1"] "3.prems"(3-5) d by (simp add: p_def)
  finally show ?case by (simp add: p_def)
qed simp

lemma spans_shift: "map (\<lambda>(a, b). (k + a, k + b)) (spans a ns) = spans (k + a) ns"
  by (induction a ns rule: spans.induct) (simp_all add: add.assoc)

text \<open>A memory that holds the path, with a character in front of it that is not a bracket.\<close>

definition path_at :: "bool \<Rightarrow> bytes \<Rightarrow> nat \<times> nat \<Rightarrow> bytes list \<Rightarrow> bool" where
  "path_at d xm xpath ns \<longleftrightarrow> (\<exists>c xpre xpost. xm = xpre @ [c] @ dotted ns @ xpost \<and> c \<noteq> 91 \<and> xpath = (length xpre + 1, length xpre + 1 + length (dotted ns))) \<and>
    ns \<noteq> [] \<and> length ns \<le> 256 \<and> (\<forall>n\<in>set ns. path_name d n) \<and> (d \<longrightarrow> length ns = 1)"

text \<open>Each segment shows its name and has a character in front that is not a bracket.\<close>

definition segment_of :: "bytes \<Rightarrow> nat \<times> nat \<Rightarrow> bytes \<Rightarrow> bool" where
  "segment_of xm r n \<longleftrightarrow> view xm r = n \<and> n \<noteq> [] \<and> (\<exists>c. rd_before xm (fst r) = Some c \<and> c \<noteq> 91) \<and> snd r = fst r + length n"

lemma dotted_not_Nil: "ns \<noteq> [] \<Longrightarrow> \<forall>n\<in>set ns. n \<noteq> [] \<Longrightarrow> dotted ns \<noteq> []"
  by (cases ns rule: dotted.cases) auto

lemma spans_segments:
  "\<forall>n\<in>set ns. n \<noteq> [] \<Longrightarrow> c \<noteq> 91 \<Longrightarrow> xm = xpre @ [c] @ dotted ns @ xpost \<Longrightarrow> list_all2 (segment_of xm) (spans (length xpre + 1) ns) ns"
proof (induction ns arbitrary: xpre c rule: dotted.induct)
  case (2 n)
  then show ?case by (simp add: segment_of_def view_def rd_before_def rd_def nth_append)
next
  case (3 n n' ns)
  have "list_all2 (segment_of xm) (spans (length (xpre @ [c] @ n) + 1) (n' # ns)) (n' # ns)"
    by (rule "3.IH" [of 46]) (use "3.prems" in auto)
  moreover have "segment_of xm (length xpre + 1, length xpre + 1 + length n) n"
    using "3.prems" by (simp add: segment_of_def view_def rd_before_def rd_def nth_append)
  ultimately show ?case by (simp add: add.assoc)
qed simp

lemma path_at_segments:
  assumes "path_at d xm xpath ns"
  shows "list_all2 (segment_of xm) (path_segments xm xpath d) ns" "\<not> view_IsEmpty xpath"
proof -
  obtain c xpre xpost where x: "xm = xpre @ [c] @ dotted ns @ xpost" "c \<noteq> 91" "xpath = (length xpre + 1, length xpre + 1 + length (dotted ns))"
    and ns: "ns \<noteq> []" "length ns \<le> 256" "\<forall>n\<in>set ns. path_name d n" "d \<longrightarrow> length ns = 1"
    using assms by (auto simp: path_at_def)
  have n: "\<forall>n\<in>set ns. n \<noteq> []" using ns(3) by (auto simp: path_name_def)
  show e: "\<not> view_IsEmpty xpath" using dotted_not_Nil [OF ns(1) n] x(3) by (simp add: view_IsEmpty_def)
  have "view xm xpath = dotted ns" using x by (simp add: view_def)
  then have "path_segments xm xpath d = spans (length xpre + 1) ns"
    using e Split_spans_dotted [of "dotted ns" "[]" ns d 256] ns x(3) spans_shift [of "length xpre + 1" 0 ns] by (simp add: path_segments_def)
  then show "list_all2 (segment_of xm) (path_segments xm xpath d) ns" using spans_segments [OF n x(2,1)] by simp
qed

section \<open>Values of a composed object\<close>

fun find_name :: "bytes \<Rightarrow> member list \<Rightarrow> (vartype \<times> jval) option" where
  "find_name name [] = None"
| "find_name name ((n, vt, v) # ms) = (if n = name then Some (vt, v) else find_name name ms)"

lemma read_name_quoted:
  "quotable 34 name \<Longrightarrow> text_at m e p (quoted name) \<Longrightarrow> read_name m e p = Some (p + 1, p + 1 + length name)"
  using seek_quoted [of 34 name m e p] text_at_rd [of m e p 34 "name @ [34]"] by (simp add: read_name_def is_quote_def quoted_def)

text \<open>One round of the search, at the character before the newline in front of a member.\<close>

lemma find_member_round:
  assumes ok: "members_ok [(n, vt, v)]" and t: "text_at m e p (c0 # 10 # member_text n vt (J_text v) @ c # y)" and c: "c = 44 \<or> c = 10"
  defines "q \<equiv> p + 1 + 1 + 1 + length n + 1 + 1"
  shows "text_at m e q (value_text vt v @ c # y)"
    and "find_member m e name p = (if n = name then Some (Some q) else
      do { let p = skip_whitespace m e (q + length (value_text vt v)); d \<leftarrow> rd m p; if d \<noteq> 44 then Some None else find_member m e name p })"
proof -
  define k where "k = p + 1 + 1"
  have t: "text_at m e (p + 1) (10 # quoted n @ 58 # value_text vt v @ c # y)"
    using t by (simp add: member_text_def value_text_def split: if_splits)
  have q: "q = k + length (quoted n) + 1" by (simp add: q_def k_def quoted_def)
  show v: "text_at m e q (value_text vt v @ c # y)" using t by (simp add: q k_def)
  have n: "text_at m e k (quoted n)" "text_at m e (k + 1 + length n) [34, 58]" using t by (auto simp: quoted_def k_def dest: text_at_bound)
  have "skip_whitespace m e (p + 1) = k" using skip_newline [of m e "p + 1" 34 n] t by (simp add: quoted_def k_def)
  moreover have "rd m k = Some 34" using n(1) text_at_rd [of m e k 34 "n @ [34]"] by (simp add: quoted_def)
  moreover have "read_name m e k = Some (k + 1, k + 1 + length n)" using read_name_quoted [of n m e k] ok n(1) by simp
  moreover have "view m (k + 1, k + 1 + length n) = n" using n(1) by (intro text_at_view [of m e]) (simp add: quoted_def)
  moreover have "seek_char m e 58 (k + 1 + length n) = k + 1 + length n + 1"
    unfolding seek_char_def using n(2) by (subst skip_text [of m e "k + 1 + length n" "[34]" 58 "[]"]) auto
  moreover have "skip_whitespace m e q = q"
  proof -
    obtain d x where d: "value_text vt v = d # x" "\<not> (0 \<le> c_int d \<and> c_int d \<le> 32)" using value_first [of vt v] ok by auto
    then show ?thesis unfolding skip_whitespace_def using v by (subst skip_text [of m e q "[]" d "x @ c # y"]) auto
  qed
  moreover have "seek_json_object_closure m e q = Some (Some (q + length (value_text vt v)))"
    using v ok c by (intro closure_value [of vt v m e q c]) (auto dest: text_at_bound)
  moreover have "q < e" "n \<noteq> []" using v ok text_at_bound [OF v] by auto
  ultimately show "find_member m e name p = (if n = name then Some (Some q) else
      do { let p = skip_whitespace m e (q + length (value_text vt v)); d \<leftarrow> rd m p; if d \<noteq> 44 then Some None else find_member m e name p })"
    by (subst find_member.simps) (simp add: q quoted_def Str_equal_eq)
qed

lemma find_member_name:
  assumes "members_ok (x # ms)" "text_at m e p (c0 # 10 # drop 2 (body (x # ms)) @ [10, 125])"
  shows "case find_name name (x # ms) of
      None \<Rightarrow> find_member m e name p = Some None
    | Some (vt, v) \<Rightarrow> jval_ok vt v \<and> (\<exists>q c. find_member m e name p = Some (Some q) \<and> (c = 44 \<or> c = 10) \<and> text_at m e q (value_text vt v @ [c]))"
  using assms
proof (induction ms arbitrary: x p c0)
  case Nil
  obtain n vt v where x: "x = (n, vt, v)" by (cases x)
  have ok: "members_ok [(n, vt, v)]" and t: "text_at m e p (c0 # 10 # member_text n vt (J_text v) @ 10 # [125])" using Nil x by simp_all
  note r = find_member_round [OF ok t disjI2 [OF refl]]
  define q where "q = p + 1 + 1 + 1 + length n + 1 + 1"
  have v: "text_at m e q (value_text vt v @ 10 # [125])" using r(1) by (simp only: q_def)
  have "skip_whitespace m e (q + length (value_text vt v)) = q + length (value_text vt v) + 1"
    using skip_newline [of m e "q + length (value_text vt v)" 125 "[]"] v by simp
  moreover have "rd m (q + length (value_text vt v) + 1) = Some 125" using v by (simp add: rd_def)
  ultimately have "find_member m e name p = (if n = name then Some (Some q) else Some None)"
    using r(2) [of name] by (simp add: q_def)
  moreover have "text_at m e q (value_text vt v @ [10])" using v by simp
  ultimately show ?case using ok x by auto
next
  case (Cons y ms)
  obtain n vt v where x: "x = (n, vt, v)" by (cases x)
  define z where "z = 10 # drop 2 (body (y # ms)) @ [10, 125]"
  have ok: "members_ok [(n, vt, v)]" "members_ok (y # ms)" and t: "text_at m e p (c0 # 10 # member_text n vt (J_text v) @ 44 # z)"
    using Cons.prems x by (cases y; simp add: z_def add.assoc)+
  note r = find_member_round [OF ok(1) t disjI1 [OF refl]]
  define q where "q = p + 1 + 1 + 1 + length n + 1 + 1"
  have v: "text_at m e q (value_text vt v @ 44 # z)" using r(1) by (simp only: q_def)
  have "skip_whitespace m e (q + length (value_text vt v)) = q + length (value_text vt v)"
    using skip_none [of m e "q + length (value_text vt v)" 44 z] v by simp
  moreover have "rd m (q + length (value_text vt v)) = Some 44" using v text_at_rd [of m e _ 44 z] by simp
  ultimately have f: "find_member m e name p = (if n = name then Some (Some q) else find_member m e name (q + length (value_text vt v)))"
    using r(2) [of name] by (simp add: q_def)
  have h: "text_at m e q (value_text vt v @ [44])" using v by (auto dest: text_at_bound)
  have "text_at m e (q + length (value_text vt v)) (44 # 10 # drop 2 (body (y # ms)) @ [10, 125])" using v by (simp add: z_def)
  note IH = Cons.IH [OF ok(2) this]
  show ?case
  proof (cases "n = name")
    case True
    then show ?thesis using f h ok(1) x by auto
  next
    case False
    then have "find_name name (x # y # ms) = find_name name (y # ms)" "find_member m e name p = find_member m e name (q + length (value_text vt v))"
      using f x by simp_all
    then show ?thesis using IH by (simp only:)
  qed
qed

lemma find_member_object:
  assumes "jvars_ok vs" "text_at m e p (J_text (VVars vs))"
  shows "case find_name name (members vs) of
      None \<Rightarrow> find_member m e name p = Some None
    | Some (vt, v) \<Rightarrow> jval_ok vt v \<and> (\<exists>q c. find_member m e name p = Some (Some q) \<and> (c = 44 \<or> c = 10) \<and> text_at m e q (value_text vt v @ [c]))"
proof (cases "members vs")
  case Nil
  then have t: "text_at m e p [123, 125]" using assms(2) by (simp add: jvars_text_Nil)
  then have "find_member m e name p = Some None"
    using skip_none [of m e "p + 1" 125 "[]"] by (subst find_member.simps) (simp add: rd_def)
  then show ?thesis using Nil by simp
next
  case (Cons x ms)
  then have "members_ok (x # ms)" "text_at m e p (123 # 10 # drop 2 (body (x # ms)) @ [10, 125])"
    using assms members_ok [of vs] jvars_text_Nil [of vs] jvars_text_body [of vs] by auto
  then show ?thesis using find_member_name [of x ms m e p 123 name] Cons by simp
qed



lemma LocateValue_object:
  assumes "text_at m e b (J_text (VVars vs))" "path_at d xm xpath ns"
  shows "LocateValue m b e xm xpath d = locate m e xm (path_segments xm xpath d) b"
proof -
  note s = path_at_segments [OF assms(2)]
  have ne: "path_segments xm xpath d \<noteq> []" using s(1) assms(2) by (auto simp: path_at_def)
  have l: "length (path_segments xm xpath d) = length ns" by (rule list_all2_lengthD [OF s(1)])
  then have "ns \<noteq> []" using ne by auto
  then have "segment_of xm (last (path_segments xm xpath d)) (last ns)"
    using ne l list_all2_nthD [OF s(1), of "length ns - 1"] by (simp add: last_conv_nth)
  then have "\<not> view_IsEmpty (last (path_segments xm xpath d))" by (auto simp: segment_of_def view_IsEmpty_def)
  moreover have "rd m b = Some 123" "b < e" using assms(1) by (auto simp: rd_def split: if_splits)
  ultimately show ?thesis using ne by (simp add: LocateValue_def)
qed





text \<open>A name that the composed object does not have gives the default value.\<close>

theorem GetValue_absent:
  assumes "jvars_ok vs" "m = pre @ J_text (VVars vs) @ post" "find_name n (members vs) = None" "path_at d xm xpath [n]"
  shows "GetValue m (length pre) (length pre + length (J_text (VVars vs))) xm xpath default_val d = Some default_val"
proof -
  define e where "e = length pre + length (J_text (VVars vs))"
  have t: "text_at m e (length pre) (J_text (VVars vs))" by (rule text_at_prefix [OF e_def assms(2)])
  note s = path_at_segments [OF assms(4)]
  obtain r where r: "path_segments xm xpath d = [r]" "segment_of xm r n" using s(1) by (auto simp: list_all2_Cons2)
  then have "locate m e xm (path_segments xm xpath d) (length pre) = Some None"
    using find_member_object [OF assms(1) t, of n] assms(3) by (auto simp: segment_of_def)
  then show ?thesis using LocateValue_object [OF t assms(4)] s(2) by (simp add: GetValue_def e_def)
qed

theorem GetValue_absent_witness:
  "find_name [122] (members sample_vars) = None \<and>
    GetValue ([] @ J_text (VVars sample_vars) @ []) 0 (length (J_text (VVars sample_vars))) [10, 122] (1, 2) [63] False = Some [63]"
proof -
  have "[10, 122] = [] @ [10] @ dotted [[122]] @ ([] :: bytes)" by simp
  then have "path_at False [10, 122] (1, 2) [[122]]"
    unfolding path_at_def by (intro conjI exI [of _ 10] exI [of _ "[]"]) (simp_all add: path_name_def)
  moreover have "find_name [122] (members sample_vars) = None" by (simp add: sample_vars_def)
  ultimately show ?thesis using GetValue_absent [OF sample_ok(1) refl, of "[122]" False "[10, 122]" "(1, 2)" "[]" "[]" "[63]"] by simp
qed

text \<open>A composed number reads back as the number.\<close>

lemma GetValueAs_number: "GetValueAs True (sdec (sint x)) d = (x :: 'a::len word)" "GetValueAs False (dec (unat y)) d = (y :: 'a::len word)"
proof -
  have "dec n \<noteq> []" for n by (subst dec.simps) simp
  then show "GetValueAs True (sdec (sint x)) d = x" "GetValueAs False (dec (unat y)) d = y"
    by (simp_all add: GetValueAs_def ToNumber_default_def ToNumber_sdec ToNumber_dec) (simp add: sdec_def)
qed

section \<open>Items of a composed array\<close>

definition item_ok :: "str_expr \<times> bool \<Rightarrow> bool" where
  "item_ok it \<longleftrightarrow> (if snd it then quotable 34 (expr_text (fst it)) else raw_value (expr_text (fst it)))"

definition item_vt :: "str_expr \<times> bool \<Rightarrow> vartype" where
  "item_vt it = (if snd it then VARTYPE_STRING else VARTYPE_BUILTIN)"

lemma item_value: "item_text it = value_text (item_vt it) (VExpr (fst it))" "item_ok it \<longleftrightarrow> jval_ok (item_vt it) (VExpr (fst it))"
  by (simp_all add: item_text_def value_text_def item_vt_def item_ok_def)

lemma closure_item:
  assumes "item_ok it" "text_at m e p (item_text it @ c # y)" "c = 44 \<or> c = 93"
  shows "seek_json_object_closure m e p = Some (Some (p + length (item_text it)))"
proof -
  have "\<not> is_text c" "text_at m e p (item_text it @ [c])" using assms(2,3) by (auto simp: is_text_eq dest: text_at_bound)
  then show ?thesis using assms(1) closure_quoted [of "expr_text (fst it)" m e p] closure_raw [of "expr_text (fst it)" m e p c]
    by (auto simp: item_ok_def item_text_def split: if_splits)
qed

lemma item_first:
  assumes "item_ok it" "text_at m e p (item_text it @ z)"
  shows "skip_whitespace m e p = p" "\<exists>c. rd m p = Some c \<and> c \<noteq> 93"
proof -
  obtain d x where d: "item_text it = d # x" "\<not> (0 \<le> c_int d \<and> c_int d \<le> 32)" using value_first [of "item_vt it" "VExpr (fst it)"] assms(1) item_value by auto
  then show "skip_whitespace m e p = p"
    unfolding skip_whitespace_def using assms(2) by (subst skip_text [of m e p "[]" d "x @ z"]) auto
  have "d \<noteq> 93" using assms(1) d(1) by (auto simp: item_ok_def item_text_def quoted_def raw_value_def brackets_def token_def is_text_eq split: if_splits)
  then show "\<exists>c. rd m p = Some c \<and> c \<noteq> 93" using text_at_rd [of m e p d "x @ z"] d(1) assms(2) by simp
qed

text \<open>One call of \<^verbatim>\<open>GetNextObjectRaw\<close>, which keeps the quotes, and of \<^verbatim>\<open>GetNextObject\<close>, which strips them.\<close>

lemma raw_step:
  assumes "item_ok it" "next_item m b e obj = Some (Some p)" "b < p" "text_at m e p (item_text it @ c # y)" "c = 44 \<or> c = 93"
  defines "r \<equiv> (p, p + length (item_text it))"
  shows "GetNextObjectRaw m b e obj = Some (True, Some r)"
    "next_item m b e (Some r) = Some (if c = 44 then Some (p + length (item_text it) + 1) else None)"
proof -
  have b: "b < e" "p + length (item_text it) < e" using text_at_bound [OF assms(4)] assms(3) by simp_all
  show "GetNextObjectRaw m b e obj = Some (True, Some r)"
    using assms(2) b item_first [OF assms(1,4)] closure_item [OF assms(1,4,5)] by (auto simp: GetNextObjectRaw_def r_def)
  have "skip_whitespace m e (p + length (item_text it)) = p + length (item_text it)"
    unfolding skip_whitespace_def using assms(4,5) by (subst skip_text [of m e "p + length (item_text it)" "[]" c y]) auto
  moreover have "rd m (p + length (item_text it)) = Some c" using assms(4) text_at_rd [of m e _ c y] by simp
  ultimately show "next_item m b e (Some r) = Some (if c = 44 then Some (p + length (item_text it) + 1) else None)"
    using assms(3,5) b by (auto simp: next_item_def r_def)
qed

lemma array_step:
  assumes "item_ok it" "next_item m b e obj = Some (Some p)" "b < p" "text_at m e p (item_text it @ c # y)" "c = 44 \<or> c = 93"
  obtains r where "GetNextObject m b e obj = Some (True, Some r)" "view m r = expr_text (fst it)"
    "next_item m b e (Some r) = Some (if c = 44 then Some (p + length (item_text it) + 1) else None)"
proof -
  define x where "x = expr_text (fst it)"
  define o1 where "o1 = opener (item_vt it) (VExpr (fst it))"
  define a where "a = p + length o1"
  have i: "item_text it = o1 @ x @ o1" "o1 = (if snd it then [34] else [])"
    by (simp_all add: item_text_def o1_def opener_def item_vt_def x_def quoted_def)
  have "GetNextObjectRaw m b e obj = Some (True, Some (p, p + length (item_text it)))" by (rule raw_step [OF assms])
  moreover have "text_at m e p (item_text it)" using assms(4) by simp
  then have "cook_raw_value m p (p + length (item_text it)) = Some (a, a + length x)"
    using cook_value [of "item_vt it" "VExpr (fst it)" m e p] assms(1) by (simp add: item_value content_def a_def o1_def x_def)
  ultimately have "GetNextObject m b e obj = Some (True, Some (a, a + length x))" by (simp add: GetNextObject_def)
  moreover have t: "text_at m e a (x @ o1 @ c # y)" using assms(4) unfolding i(1) by (simp add: a_def)
  then have "text_at m e a x" by simp
  then have "view m (a, a + length x) = x" by (rule text_at_view)
  moreover have "next_item m b e (Some (a, a + length x)) = Some (if c = 44 then Some (p + length (item_text it) + 1) else None)"
  proof -
    have e: "b \<le> a + length x" "a + length x \<le> e" using assms(3) text_at_bound [OF t] by (simp_all add: a_def)
    have s: "skip_whitespace m e (a + length x + length o1) = a + length x + length o1"
      unfolding skip_whitespace_def using t assms(5) by (subst skip_text [of m e "a + length x + length o1" "[]" c y]) auto
    have c: "rd m (a + length x + length o1) = Some c" using t text_at_rd [of m e _ c y] by simp
    have q: "snd it \<Longrightarrow> rd m (a + length x) = Some 34 \<and> rd_before m a = Some 34"
      using t assms(4) i text_at_bound [OF t] by (auto simp: rd_def rd_before_def a_def item_text_def quoted_def)
    have "p + length (item_text it) = a + length x + length o1" by (simp add: i(1) a_def)
    then show ?thesis using e s c q i(2) assms(5) by (cases "snd it") (auto simp: next_item_def)
  qed
  ultimately show ?thesis using that by (simp add: x_def)
qed

lemma GetSize_from:
  assumes "\<forall>it\<in>set (x # items). item_ok it" "next_item m b e obj = Some (Some p)" "b < p" "text_at m e p (item_text x @ commas (map item_text items) @ [93])"
  shows "GetSize_loop m b e obj n = Some (n + length (x # items))"
  using assms
proof (induction items arbitrary: x n obj p)
  case Nil
  have ok: "item_ok x" and t: "text_at m e p (item_text x @ 93 # [])" using Nil.prems(1,4) by simp_all
  note r = raw_step [OF ok Nil.prems(2,3) t disjI2 [OF refl]]
  have "GetNextObjectRaw m b e (Some (p, p + length (item_text x))) = Some (False, Some (p, p + length (item_text x)))"
    using r(2) text_at_bound [OF t] Nil.prems(3) by (simp add: GetNextObjectRaw_def)
  then have "GetSize_loop m b e (Some (p, p + length (item_text x))) (n + 1) = Some (n + 1)" by (subst GetSize_loop.simps) simp
  then show ?case using r(1) by (subst GetSize_loop.simps) simp
next
  case (Cons y items)
  have ok: "item_ok x" and oks: "\<forall>it\<in>set (y # items). item_ok it"
    and t: "text_at m e p (item_text x @ 44 # item_text y @ commas (map item_text items) @ [93])" using Cons.prems(1,4) by (simp_all add: add.assoc)
  note r = raw_step [OF ok Cons.prems(2,3) t disjI1 [OF refl]]
  have n: "next_item m b e (Some (p, p + length (item_text x))) = Some (Some (p + length (item_text x) + 1))" using r(2) by simp
  have "text_at m e (p + length (item_text x) + 1) (item_text y @ commas (map item_text items) @ [93])" using t by simp
  from Cons.IH [OF oks n _ this, of "n + 1"] show ?case using r(1) Cons.prems(3) by (subst GetSize_loop.simps) simp
qed

lemma array_items_from:
  assumes "\<forall>it\<in>set (x # items). item_ok it" "next_item m b e obj = Some (Some p)" "b < p" "text_at m e p (item_text x @ commas (map item_text items) @ [93])"
  shows "\<exists>rs. array_items m b e n obj = Some rs \<and> map (view m) rs = take n (map (\<lambda>it. expr_text (fst it)) (x # items))"
  using assms
proof (induction items arbitrary: x n obj p)
  case Nil
  have ok: "item_ok x" and t: "text_at m e p (item_text x @ 93 # [])" using Nil.prems(1,4) by simp_all
  obtain r where r: "GetNextObject m b e obj = Some (True, Some r)" "view m r = expr_text (fst x)" "next_item m b e (Some r) = Some (if (93 :: byte) = 44 then Some (p + length (item_text x) + 1) else None)"
    by (rule array_step [OF ok Nil.prems(2,3) t disjI2 [OF refl]])
  have "GetNextObject m b e (Some r) = Some (False, Some r)" using r(3) text_at_bound [OF t] Nil.prems(3)
    by (cases r) (simp add: GetNextObject_def GetNextObjectRaw_def)
  then have "array_items m b e k (Some r) = Some []" for k by (cases k) simp_all
  then show ?case using r(1,2) by (cases n) simp_all
next
  case (Cons y items)
  have ok: "item_ok x" and oks: "\<forall>it\<in>set (y # items). item_ok it"
    and t: "text_at m e p (item_text x @ 44 # item_text y @ commas (map item_text items) @ [93])" using Cons.prems(1,4) by (simp_all add: add.assoc)
  obtain r where r: "GetNextObject m b e obj = Some (True, Some r)" "view m r = expr_text (fst x)" "next_item m b e (Some r) = Some (if (44 :: byte) = 44 then Some (p + length (item_text x) + 1) else None)"
    by (rule array_step [OF ok Cons.prems(2,3) t disjI1 [OF refl]])
  have n: "next_item m b e (Some r) = Some (Some (p + length (item_text x) + 1))" using r(3) by simp
  have "text_at m e (p + length (item_text x) + 1) (item_text y @ commas (map item_text items) @ [93])" using t by simp
  note IH = Cons.IH [OF oks n _ this]
  show ?case
  proof (cases n)
    case (Suc k)
    obtain rs where "array_items m b e k (Some r) = Some rs" "map (view m) rs = take k (map (\<lambda>it. expr_text (fst it)) (y # items))" 
      using IH [of k] Cons.prems(3) by (metis add.assoc trans_less_add1)
    then show ?thesis using r(1,2) Suc by simp
  qed simp
qed

lemma array_items_composed:
  assumes "\<forall>it\<in>set items. item_ok it" "m = pre @ (91 # tl (commas (map item_text items)) @ [93]) @ post"
  shows "\<exists>rs. array_items m (length pre) (length pre + length (91 # tl (commas (map item_text items)) @ [93])) n None = Some rs \<and>
    map (view m) rs = take n (map (\<lambda>it. expr_text (fst it)) items)"
proof -
  define b e where "b = length pre" and "e = length pre + length (91 # tl (commas (map item_text items)) @ [93])"
  have t: "text_at m e b (91 # tl (commas (map item_text items)) @ [93])" unfolding b_def by (rule text_at_prefix [OF e_def assms(2)])
  have n: "next_item m b e None = Some (Some (b + 1))" by (simp add: next_item_def)
  have "\<exists>rs. array_items m b e n None = Some rs \<and> map (view m) rs = take n (map (\<lambda>it. expr_text (fst it)) items)"
  proof (cases items)
    case Nil
    have "skip_whitespace m e (b + 1) = b + 1"
      unfolding skip_whitespace_def using t Nil by (subst skip_text [of m e "b + 1" "[]" 93 "[]"]) auto
    then have "GetNextObject m b e None = Some (False, None)" using t Nil n by (simp add: GetNextObject_def GetNextObjectRaw_def rd_def)
    then show ?thesis using Nil by (cases n) simp_all
  next
    case (Cons x its)
    then show ?thesis using array_items_from [of x its m b e None "b + 1" n] assms(1) n t by simp
  qed
  then show ?thesis by (simp add: b_def e_def)
qed

text \<open>C16: Items composed with \<^verbatim>\<open>JA\<close> come back from \<^verbatim>\<open>GetNextObject\<close>, the first \<open>n\<close> of them in \<open>n\<close> calls. Quoted items are texts that may stand between double quotes; the
  others are numbers, literals, and objects and arrays in their brackets, nested to any depth, in which no closing bracket follows a binary value at once. Binary items
  themselves are excluded, as is an array whose items need 1020 characters or more with their commas.\<close>

theorem JA_read:
  assumes "length mem = 1026" "\<forall>it\<in>set items. item_ok it" "length (commas (map item_text items)) < 1020"
  shows "\<exists>f rs. JArray_new mem \<bind> JA items = Some f \<and>
    array_items (J_text (JArray_value f)) 0 (length (J_text (JArray_value f))) n None = Some rs \<and>
    map (view (J_text (JArray_value f))) rs = take n (map (\<lambda>it. expr_text (fst it)) items)"
proof -
  have "items \<noteq> [] \<Longrightarrow> item_text (hd items) \<noteq> []" using assms(2) by (cases items) (auto simp: item_text_def item_ok_def quoted_def raw_value_def token_def)
  then obtain f where f: "JArray_new mem \<bind> JA items = Some f" "J_text (JArray_value f) = 91 # tl (commas (map item_text items)) @ [93]"
    using JA_text [OF assms(1) _ assms(3)] by blast
  then show ?thesis using array_items_composed [OF assms(2), of "J_text (JArray_value f)" "[]" "[]" n] by simp
qed

theorem JA_read_witness:
  "\<exists>f rs. JArray_new (replicate 1026 7) \<bind> JA [(Ref [49], False), (Ref (J_text (VVars (one_var 97))), False), (Ref [93, 44], True)] = Some f \<and>
    array_items (J_text (JArray_value f)) 0 (length (J_text (JArray_value f))) 5 None = Some rs \<and>
    map (view (J_text (JArray_value f))) rs = [[49], J_text (VVars (one_var 97)), [93, 44]]"
proof -
  have "jvars_ok (one_var 97)" by (simp add: one_var_def raw_value_def token_def is_text_eq)
  then have o: "item_ok (Ref (J_text (VVars (one_var 97))), False)" using raw_composed by (simp add: item_ok_def del: J_text.simps)
  have "length (J_text (VVars (one_var 97))) = 9" by (simp add: one_var_def member_text_def quoted_def)
  then show ?thesis using JA_read [of "replicate 1026 7" "[(Ref [49], False), (Ref (J_text (VVars (one_var 97))), False), (Ref [93, 44], True)]" 5] o
    by (simp add: item_ok_def item_text_def quoted_def raw_value_def token_def is_text_eq del: J_text.simps)
qed

lemma GetSize_composed:
  assumes "\<forall>it\<in>set items. item_ok it" "m = pre @ (91 # tl (commas (map item_text items)) @ [93]) @ post"
  shows "GetSize_loop m (length pre) (length pre + length (91 # tl (commas (map item_text items)) @ [93])) None 0 = Some (length items)"
proof -
  define b e where "b = length pre" and "e = length pre + length (91 # tl (commas (map item_text items)) @ [93])"
  have t: "text_at m e b (91 # tl (commas (map item_text items)) @ [93])" unfolding b_def by (rule text_at_prefix [OF e_def assms(2)])
  have n: "next_item m b e None = Some (Some (b + 1))" by (simp add: next_item_def)
  have "GetSize_loop m b e None 0 = Some (length items)"
  proof (cases items)
    case Nil
    have "skip_whitespace m e (b + 1) = b + 1"
      unfolding skip_whitespace_def using t Nil by (subst skip_text [of m e "b + 1" "[]" 93 "[]"]) auto
    then have "GetNextObjectRaw m b e None = Some (False, None)" using t Nil n by (simp add: GetNextObjectRaw_def rd_def)
    then show ?thesis using Nil by (subst GetSize_loop.simps) simp
  next
    case (Cons x its)
    then show ?thesis using GetSize_from [of x its m b e None "b + 1" 0] assms(1) n t by simp
  qed
  then show ?thesis by (simp add: b_def e_def)
qed

section \<open>Limits\<close>

declare find_member.simps [code]

text \<open>A member whose name has a dot is not found by that name unless dots do not split; in quotes it is. Here the object is \<^verbatim>\<open>{"a.b":1}\<close> and the path stands behind a space.\<close>

lemma dotted_name:
  "GetValue (lit ''{\"a.b\":1}'') 0 9 (lit '' a.b'') (1, 4) [] False = Some []"
  "GetValue (lit ''{\"a.b\":1}'') 0 9 (lit '' a.b'') (1, 4) [] True = Some [49]"
  "GetValue (lit ''{\"a.b\":1}'') 0 9 (lit '' \"a.b\"'') (1, 6) [] False = Some [49]"
  by code_simp+

text \<open>Behind an opening bracket in memory the first name of a path is taken for an index, and at the start of the memory the character in front of it is outside.\<close>

theorem path_front:
  "GetValue (lit ''{\"a\":1}'') 0 7 (lit '' a'') (1, 2) [] False = Some [49] \<and>
   GetValue (lit ''{\"a\":1}'') 0 7 (lit ''[a'') (1, 2) [] False = Some [] \<and>
   GetValue (lit ''{\"a\":1}'') 0 7 (lit ''a'') (0, 1) [] False = None"
  by code_simp

text \<open>The search for a closing bracket skips the character behind a binary value, here the bracket itself.\<close>

lemma closure_after_binary: "seek_json_object_closure (lit ''{\"a\":<3/abc>}'') 13 0 = Some None"
  by code_simp

text \<open>An empty string in single quotes, or an empty binary value, ends the enumeration of an object.\<close>

lemma empty_value_ends:
  "map_option fst (GetNextKeyValuePair [123, 97, 58, 39, 39, 44, 98, 58, 49, 125] 0 10 None) = Some False"
  "map_option fst (GetNextKeyValuePair (lit ''{a:<0/>,b:1}'') 0 12 None) = Some False"
  by code_simp+

text \<open>\<^verbatim>\<open>GetNextObject\<close> does not step over the closer of a binary item.\<close>

lemma binary_items: "array_items (lit ''[<1/a>,<1/b>]'') 0 13 5 None = Some [(4, 5)]"
  by code_simp

text \<open>A binary value that reaches beyond the view makes the enumeration start again: the pair that was found is found again.\<close>

definition overlong :: bytes where
  "overlong = lit ''{a:<3/}xx>''"

lemma overlong_repeats:
  "GetNextKeyValuePair overlong 0 7 None = Some (True, Some ((1, 2), (6, 9)))"
  "GetNextKeyValuePair overlong 0 7 (Some ((1, 2), (6, 9))) = Some (True, Some ((1, 2), (6, 9)))"
  by code_simp+

end
