(* ===== verification/JsonText.thy ===== *)
theory JsonText
  imports JsonGet
begin

text \<open>
  Strings inside JSON text, \<^verbatim>\<open>core/rt/json.cpp\<close>: \<^verbatim>\<open>JsonEscapeString\<close>, \<^verbatim>\<open>JsonObject::UnescapeStringValue\<close>, and the way from a string through escaping,
  composing, \<^verbatim>\<open>GetValue\<close> and unescaping back to it.
\<close>

section \<open>Definitions\<close>

text \<open>\<open>pos\<close> is the next index to store to; a zero character becomes the four characters of \<^verbatim>\<open>\x00\<close>, stored as one \<^verbatim>\<open>DWORD\<close>.\<close>

(*@ core/rt/json.cpp 461-478 rt::JsonEscapeString::JsonEscapeString *)
fun json_escape_loop :: "bytes \<Rightarrow> nat \<Rightarrow> bytes \<Rightarrow> (nat \<times> bytes) option" where
  "json_escape_loop [] pos m = Some (pos, m)"
| "json_escape_loop (c # s) pos m =
    (if c \<noteq> 0 then
       if \<not> Has CharacterSet_Escape c then do { m \<leftarrow> put pos [c] m; json_escape_loop s (pos + 1) m }
       else do { m \<leftarrow> put pos [92] m; m \<leftarrow> put (pos + 1) [Mapped CharacterSet_Escape c] m; json_escape_loop s (pos + 2) m }
     else do { m \<leftarrow> put pos (le_store 4 (0x3030785c :: u32)) m; json_escape_loop s (pos + 4) m })"

text \<open>The opening quote is stored before any memory is there.\<close>

(*@ core/rt/json.cpp 455-482 rt::JsonEscapeString::JsonEscapeString *)
definition JsonEscapeString :: "allocator \<Rightarrow> bytes \<Rightarrow> bool \<Rightarrow> String option" where
  "JsonEscapeString alloc c_string add_quote =
    do { (pos, S) \<leftarrow> (if add_quote then map_option (Pair 1) (s_put 0 [34] String_new) else Some (0, String_new));
         (_, S) \<leftarrow> String_SetLength alloc (length c_string * 2 + 2) S;
         (pos, m) \<leftarrow> json_escape_loop c_string pos (s_p S);
         (pos, m) \<leftarrow> (if add_quote then map_option (Pair (pos + 1)) (put pos [34] m) else Some (pos, m));
         (_, S) \<leftarrow> String_SetLength alloc pos (S\<lparr> s_p := m \<rparr>);
         Some S }"

definition json_esc :: charset where
  "json_esc = the (CS_map [98, 102, 114, 110, 116, 118] [8, 12, 13, 10, 9, 11])"

definition json_hex :: charset where
  "json_hex = the (CS_map (map of_nat ([48..<58] @ [97..<103] @ [65..<71])) (map of_nat ([1..<17] @ [11..<17])))"

definition hex_value :: "byte \<Rightarrow> int" where
  "hex_value c = c_int (Mapped json_hex c) - 1"

text \<open>The characters of one \<^verbatim>\<open>\uXXXX\<close>: what is stored and by how much \<^verbatim>\<open>p\<close> moves.\<close>

(*@ core/rt/json.cpp 194-202 rt::JsonObject::UnescapeStringValue *)
definition code_bytes :: "int \<Rightarrow> bytes \<times> nat" where
  "code_bytes c =
    (let w = (word_of_int c :: u32) in
     if c \<le> 0x7f then ([word_of_int c], 1)
     else if c > 0x7ff then (le_store 4 (0x8080e0 OR (drop_bit 12 w AND 0xf) OR (push_bit 2 w AND 0x3f00) OR push_bit 16 (0x3f AND w)), 3)
     else (le_store 2 (ucast (0x80c0 OR (drop_bit 6 w AND 0x1f) OR push_bit 8 (0x3f AND w)) :: u16), 2))"

(*@ core/rt/json.cpp 187-218 rt::JsonObject::UnescapeStringValue *)
function json_unescape_loop :: "bytes \<Rightarrow> nat \<Rightarrow> bytes \<Rightarrow> nat \<Rightarrow> (bytes \<times> nat) option" where
  "json_unescape_loop inn s m p =
    (if s + 1 < length inn then
       if inn ! s = 92 then
         if inn ! (s + 1) = 117 \<and> s + 5 < length inn then
           (let (xs, k) = code_bytes (hex_value (inn ! (s + 2)) * 2 ^ 12 + hex_value (inn ! (s + 3)) * 2 ^ 8 + hex_value (inn ! (s + 4)) * 2 ^ 4 + hex_value (inn ! (s + 5)))
            in case put p xs m of None \<Rightarrow> None | Some m \<Rightarrow> json_unescape_loop inn (s + 6) m (p + k))
         else if inn ! (s + 1) = 120 \<and> s + 3 < length inn then
           (case put p [word_of_int (hex_value (inn ! (s + 2)) * 2 ^ 4 + hex_value (inn ! (s + 3)))] m of
              None \<Rightarrow> None | Some m \<Rightarrow> json_unescape_loop inn (s + 4) m (p + 1))
         else (case put p [Mapped json_esc (inn ! (s + 1))] m of None \<Rightarrow> None | Some m \<Rightarrow> json_unescape_loop inn (s + 2) m (p + 1))
       else (case put p [inn ! s] m of None \<Rightarrow> None | Some m \<Rightarrow> json_unescape_loop inn (s + 1) m (p + 1))
     else if s < length inn then map_option (\<lambda>m. (m, p + 1)) (put p [inn ! s] m)
     else Some (m, p))"
  by pat_completeness auto
termination by (relation "measure (\<lambda>(inn, s, m, p). length inn - s)") auto

declare json_unescape_loop.simps [simp del]

(*@ core/rt/json.cpp 177-220 rt::JsonObject::UnescapeStringValue *)
definition UnescapeStringValue :: "allocator \<Rightarrow> bytes \<Rightarrow> String \<Rightarrow> String option" where
  "UnescapeStringValue alloc inn val_out =
    (if inn = [] then String_Empty alloc val_out
     else
       do { (_, val_out) \<leftarrow> String_SetLength alloc (length inn) val_out;
            (m, p) \<leftarrow> json_unescape_loop inn 0 (s_p val_out) 0;
            Some (val_out\<lparr> s_p := m, s_len := p + 1 \<rparr>) })"

section \<open>Escaping\<close>

definition json_escaped :: "bytes \<Rightarrow> bytes" where
  "json_escaped s = escape_text CharacterSet_Escape 92 s"



lemma json_escaped_Nil [simp]: "json_escaped [] = []"
  by (simp add: json_escaped_def escape_text_def)







section \<open>Unescaping\<close>



section \<open>A string through JSON text\<close>




section \<open>Limits\<close>

text \<open>Asking for quotes stores through the null pointer of the new string.\<close>

lemma JsonEscapeString_quote: "JsonEscapeString alloc s True = None"
  by (simp add: JsonEscapeString_def s_put_def put_def String_new_def)

text \<open>Zero characters need four places each, more than the two that are reserved.\<close>

lemma JsonEscapeString_zeros: "JsonEscapeString zero_alloc (replicate 8 0) False = None"
  by code_simp

text \<open>The unescaped string is not terminated: the character behind it is what the storage held.\<close>

definition old_string :: String where
  "old_string = \<lparr> s_p = replicate 8 120 @ [0], s_len = 9, s_reserved = 9 \<rparr>"

lemma UnescapeStringValue_open:
  "String_inv old_string" "map_option s_text (UnescapeStringValue zero_alloc [97, 92, 110] old_string) = Some [97, 10]"
  "map_option String_inv (UnescapeStringValue zero_alloc [97, 92, 110] old_string) = Some False"
  by code_simp+

end
