(* ===== verification/XmlCompose.thy ===== *)
theory XmlCompose
  imports StrEdit StrNum
begin

text \<open>
  Composing XML text, \<^verbatim>\<open>core/rt/xml_xhtml.h\<close> and \<^verbatim>\<open>core/rt/xml_xhtml.cpp\<close>: \<^verbatim>\<open>rt::XMLComposer\<close> in memory (\<^verbatim>\<open>m_pStreamOut\<close> is null) appends to a \<^verbatim>\<open>rt::String\<close> and
  keeps the stack of the open elements. A C string is the characters before its terminating zero, so it holds no zero; lengths are below \<open>2^32\<close>.
  Every operation is an explicit state transformer that fails with \<open>None\<close> when memory outside of an allocation would be used or when the loop never ends.
\<close>

section \<open>Definitions\<close>

(*@ core/rt/xml_xhtml.h 42-45 rt::XMLComposer::_TagCache *)
record TagCache =
  tc_tag :: bytes
  tc_pos :: nat

(*@ core/rt/xml_xhtml.h 46-57 rt::XMLComposer *)
record XMLComposer =
  EnteringNodeTag :: "bytes option"
  DepthMax :: nat
  m_Output :: String
  m_HeaderLength :: nat
  m_NestLevelTag :: "TagCache list"

(*@ core/rt/xml_xhtml.h 60-60 rt::XMLComposer::Output(char) *)
definition Output_char :: "allocator \<Rightarrow> byte \<Rightarrow> XMLComposer \<Rightarrow> XMLComposer option" where
  "Output_char alloc x c = map_option (\<lambda>S. c\<lparr> m_Output := S \<rparr>) (String_append_char alloc x (m_Output c))"

(*@ core/rt/xml_xhtml.h 61-61 rt::XMLComposer::Output(LPCSTR) *)
definition Output :: "allocator \<Rightarrow> bytes \<Rightarrow> XMLComposer \<Rightarrow> XMLComposer option" where
  "Output alloc x c = map_option (\<lambda>S. c\<lparr> m_Output := S \<rparr>) (String_append alloc (Ref x) (m_Output c))"

(*@ core/rt/xml_xhtml.cpp 21-21 rt::XMLComposer::g_XML_Header *)
definition g_XML_Header :: bytes where
  "g_XML_Header = lit ''<?xml version='' @ [34] @ lit ''1.0'' @ [34] @ lit '' encoding='' @ [34] @ lit ''utf-8'' @ [34] @ lit '' ?>''"

text \<open>\<^verbatim>\<open>GetSize() + vary\<close> is unsigned: below zero it is larger than any \<^verbatim>\<open>UINT\<close> and the loop does not end.\<close>

(*@ core/rt/xml_xhtml.cpp 43-49 rt::XMLComposer::Linebreak *)
fun Linebreak_loop :: "allocator \<Rightarrow> nat \<Rightarrow> XMLComposer \<Rightarrow> XMLComposer option" where
  "Linebreak_loop alloc 0 c = Some c"
| "Linebreak_loop alloc (Suc n) c =
    do { c \<leftarrow> Output_char alloc 32 c;
         c \<leftarrow> Output_char alloc 32 c;
         c \<leftarrow> Output_char alloc 32 c;
         c \<leftarrow> Output_char alloc 32 c;
         Linebreak_loop alloc n c }"

(*@ core/rt/xml_xhtml.cpp 38-50 rt::XMLComposer::Linebreak *)
definition Linebreak :: "allocator \<Rightarrow> int \<Rightarrow> XMLComposer \<Rightarrow> XMLComposer option" where
  "Linebreak alloc vary c =
    do { c \<leftarrow> Output_char alloc 13 c;
         c \<leftarrow> Output_char alloc 10 c;
         let n = int (length (m_NestLevelTag c)) + vary;
         if 0 \<le> n then Linebreak_loop alloc (nat n) c else None }"

(*@ core/rt/xml_xhtml.cpp 52-66 rt::XMLComposer::ResetContent *)
definition ResetContent :: "allocator \<Rightarrow> bytes option \<Rightarrow> XMLComposer \<Rightarrow> XMLComposer option" where
  "ResetContent alloc customized_header c =
    do { S \<leftarrow> String_Empty alloc (m_Output c);
         let header = (case customized_header of Some h \<Rightarrow> h | None \<Rightarrow> g_XML_Header);
         c \<leftarrow> Output alloc header (c\<lparr> m_Output := S \<rparr>);
         Some (c\<lparr> m_HeaderLength := length header, m_NestLevelTag := [], EnteringNodeTag := None \<rparr>) }"

text \<open>The constructor leaves \<^verbatim>\<open>_DepthMax\<close> as the memory was.\<close>

(*@ core/rt/xml_xhtml.cpp 23-36 rt::XMLComposer::XMLComposer *)
definition XMLComposer_new :: "allocator \<Rightarrow> nat \<Rightarrow> XMLComposer option" where
  "XMLComposer_new alloc junk =
    ResetContent alloc None \<lparr> EnteringNodeTag = None, DepthMax = junk, m_Output = String_new, m_HeaderLength = 0, m_NestLevelTag = [] \<rparr>"

(*@ core/rt/xml_xhtml.cpp 278-285 rt::XMLComposer::GetDocumentLength *)
definition GetDocumentLength :: "bool \<Rightarrow> XMLComposer \<Rightarrow> nat" where
  "GetDocumentLength withHeader c =
    (if withHeader then s_GetLength (m_Output c)
     else unat (word_of_nat (s_GetLength (m_Output c)) - word_of_nat (m_HeaderLength c + 2) :: u32))"

text \<open>The pointer is an offset into the characters of \<^verbatim>\<open>m_Output\<close>.\<close>

(*@ core/rt/xml_xhtml.cpp 269-276 rt::XMLComposer::GetDocumentBuffer *)
definition GetDocumentBuffer :: "bool \<Rightarrow> XMLComposer \<Rightarrow> nat" where
  "GetDocumentBuffer withHeader c = (if withHeader then 0 else m_HeaderLength c + 2)"

(*@ core/rt/xml_xhtml.cpp 74-82 rt::XMLComposer::EnteringNode *)
definition EnteringNode :: "allocator \<Rightarrow> bytes \<Rightarrow> XMLComposer \<Rightarrow> XMLComposer option" where
  "EnteringNode alloc tag c =
    do { c \<leftarrow> Linebreak alloc 0 c;
         c \<leftarrow> Output_char alloc 60 c;
         c \<leftarrow> Output alloc tag c;
         Some (c\<lparr> EnteringNodeTag := Some tag \<rparr>) }"

text \<open>A null tag outputs nothing, as the empty text does.\<close>

(*@ core/rt/xml_xhtml.cpp 84-106 rt::XMLComposer::EnteringNodeDone *)
definition EnteringNodeDone :: "allocator \<Rightarrow> bool \<Rightarrow> XMLComposer \<Rightarrow> XMLComposer option" where
  "EnteringNodeDone alloc compact c =
    do { c \<leftarrow>
           (if compact then
              do { let c = c\<lparr> DepthMax := 1 + length (m_NestLevelTag c) \<rparr>;
                   c \<leftarrow> Output_char alloc 32 c;
                   c \<leftarrow> Output_char alloc 47 c;
                   Output_char alloc 62 c }
            else
              do { let tag = \<lparr> tc_tag = (case EnteringNodeTag c of Some t \<Rightarrow> t | None \<Rightarrow> []), tc_pos = GetDocumentLength True c \<rparr>;
                   let c = c\<lparr> m_NestLevelTag := m_NestLevelTag c @ [tag] \<rparr>;
                   let c = c\<lparr> DepthMax := length (m_NestLevelTag c) \<rparr>;
                   Output_char alloc 62 c });
         Some (c\<lparr> EnteringNodeTag := None \<rparr>) }"

(*@ core/rt/xml_xhtml.cpp 68-72 rt::XMLComposer::EnterNode *)
definition EnterNode :: "allocator \<Rightarrow> bytes \<Rightarrow> XMLComposer \<Rightarrow> XMLComposer option" where
  "EnterNode alloc tag c = do { c \<leftarrow> EnteringNode alloc tag c; EnteringNodeDone alloc False c }"

(*@ core/rt/xml_xhtml.cpp 212-227 rt::XMLComposer::_InsertPlainText *)
fun InsertPlainText :: "allocator \<Rightarrow> bytes \<Rightarrow> XMLComposer \<Rightarrow> XMLComposer option" where
  "InsertPlainText alloc [] c = Some c"
| "InsertPlainText alloc (x # text) c =
    do { c \<leftarrow>
           (if x = 60 then Output alloc (lit ''&lt;'') c
            else if x = 38 then Output alloc (lit ''&amp;'') c
            else if x = 62 then Output alloc (lit ''&gt;'') c
            else if x = 34 then Output alloc (lit ''&quot;'') c
            else if x = 39 then Output alloc (lit ''&apos;'') c
            else Output_char alloc x c);
         InsertPlainText alloc text c }"

(*@ core/rt/xml_xhtml.cpp 138-151 rt::XMLComposer::SetAttribute(LPCSTR) *)
definition SetAttribute :: "allocator \<Rightarrow> bytes option \<Rightarrow> bytes option \<Rightarrow> XMLComposer \<Rightarrow> XMLComposer option" where
  "SetAttribute alloc name value c =
    (case (EnteringNodeTag c, name) of
       (Some _, Some name) \<Rightarrow>
         do { c \<leftarrow> Output_char alloc 32 c;
              c \<leftarrow> Output alloc name c;
              c \<leftarrow> Output_char alloc 61 c;
              c \<leftarrow> Output_char alloc 34 c;
              c \<leftarrow> (case value of Some v \<Rightarrow> InsertPlainText alloc v c | None \<Rightarrow> Some c);
              Output_char alloc 34 c }
     | _ \<Rightarrow> Some c)"

text \<open>A number is printed into the array \<open>arr\<close> of a \<^verbatim>\<open>tos::Number\<close>.\<close>

(*@ core/rt/xml_xhtml.cpp 108-111 rt::XMLComposer::SetAttribute(long long) *)
definition SetAttribute_LONGLONG :: "allocator \<Rightarrow> bytes \<Rightarrow> bytes option \<Rightarrow> 64 word \<Rightarrow> XMLComposer \<Rightarrow> XMLComposer option" where
  "SetAttribute_LONGLONG alloc arr name value c =
    do { s \<leftarrow> S_ctor (itoa_LONGLONG value) arr; SetAttribute alloc name (Some (S_text s)) c }"

(*@ core/rt/xml_xhtml.cpp 113-116 rt::XMLComposer::SetAttribute(int) *)
definition SetAttribute_INT :: "allocator \<Rightarrow> bytes \<Rightarrow> bytes option \<Rightarrow> 32 word \<Rightarrow> XMLComposer \<Rightarrow> XMLComposer option" where
  "SetAttribute_INT alloc arr name value c =
    do { s \<leftarrow> S_ctor (itoa_INT value) arr; SetAttribute alloc name (Some (S_text s)) c }"

(*@ core/rt/xml_xhtml.cpp 118-121 rt::XMLComposer::SetAttribute(unsigned long long) *)
definition SetAttribute_ULONGLONG :: "allocator \<Rightarrow> bytes \<Rightarrow> bytes option \<Rightarrow> u64 \<Rightarrow> XMLComposer \<Rightarrow> XMLComposer option" where
  "SetAttribute_ULONGLONG alloc arr name value c =
    do { s \<leftarrow> S_ctor (itoa_ULONGLONG value) arr; SetAttribute alloc name (Some (S_text s)) c }"

(*@ core/rt/xml_xhtml.cpp 123-126 rt::XMLComposer::SetAttribute(unsigned int) *)
definition SetAttribute_UINT :: "allocator \<Rightarrow> bytes \<Rightarrow> bytes option \<Rightarrow> u32 \<Rightarrow> XMLComposer \<Rightarrow> XMLComposer option" where
  "SetAttribute_UINT alloc arr name value c = SetAttribute_ULONGLONG alloc arr name (ucast value) c"

(*@ core/rt/xml_xhtml.cpp 153-164 rt::XMLComposer::AddCData *)
definition AddCData :: "allocator \<Rightarrow> bytes option \<Rightarrow> XMLComposer \<Rightarrow> XMLComposer option" where
  "AddCData alloc cdata c =
    (case (cdata, EnteringNodeTag c) of
       (Some cdata, None) \<Rightarrow>
         do { c \<leftarrow> Linebreak alloc 0 c;
              c \<leftarrow> Output alloc (lit ''<![CDATA['') c;
              c \<leftarrow> Output alloc cdata c;
              Output alloc (lit '']]>'') c }
     | _ \<Rightarrow> Some c)"

(*@ core/rt/xml_xhtml.cpp 166-174 rt::XMLComposer::AddText *)
definition AddText :: "allocator \<Rightarrow> bytes option \<Rightarrow> XMLComposer \<Rightarrow> XMLComposer option" where
  "AddText alloc text c =
    (case (text, EnteringNodeTag c) of (Some text, None) \<Rightarrow> InsertPlainText alloc text c | _ \<Rightarrow> Some c)"

(*@ core/rt/xml_xhtml.cpp 229-261 rt::XMLComposer::ExitNode *)
definition ExitNode :: "allocator \<Rightarrow> XMLComposer \<Rightarrow> XMLComposer option" where
  "ExitNode alloc c =
    (if m_NestLevelTag c = [] then None
     else
       do { let level = last (m_NestLevelTag c);
            c \<leftarrow>
              (if tc_pos level = GetDocumentLength True c then
                 do { c \<leftarrow> Output_char alloc 32 c; c \<leftarrow> Output_char alloc 47 c; Output_char alloc 62 c }
               else
                 do { c \<leftarrow> (if DepthMax c > length (m_NestLevelTag c) then Linebreak alloc (- 1) c else Some c);
                      c \<leftarrow> Output_char alloc 60 c;
                      c \<leftarrow> Output_char alloc 47 c;
                      c \<leftarrow> Output alloc (tc_tag level) c;
                      Output_char alloc 62 c });
            Some (c\<lparr> m_NestLevelTag := butlast (m_NestLevelTag c) \<rparr>) })"

(*@ core/rt/xml_xhtml.cpp 263-267 rt::XMLComposer::AppendTrail *)
definition AppendTrail :: "allocator \<Rightarrow> bytes \<Rightarrow> XMLComposer \<Rightarrow> XMLComposer option" where
  "AppendTrail alloc text c = Output alloc text c"

text \<open>Another document is copied line by line. The C string at \<open>p\<close> ends at the first zero of the memory; a string without one is \<open>None\<close>.\<close>

definition cstr_at :: "bytes \<Rightarrow> nat \<Rightarrow> bytes option" where
  "cstr_at m p = (if 0 \<in> set (drop p m) then Some (takeWhile (\<lambda>x. x \<noteq> 0) (drop p m)) else None)"

lemma cstr_at_bound: "cstr_at m p = Some s \<Longrightarrow> p + length s < length m"
proof -
  assume "cstr_at m p = Some s"
  then have "0 \<in> set (drop p m)" "s = takeWhile (\<lambda>x. x \<noteq> 0) (drop p m)" by (auto simp: cstr_at_def split: if_splits)
  moreover have "length s \<le> length (drop p m)" unfolding calculation(2) by (rule length_takeWhile_le)
  moreover have "length s \<noteq> length (drop p m)"
    using calculation(1,2) takeWhile_eq_take [of "\<lambda>x. x \<noteq> 0" "drop p m"] set_takeWhileD [of 0 "\<lambda>x. x \<noteq> 0" "drop p m"] by auto
  ultimately have "length s < length (drop p m)" by linarith
  then show ?thesis by simp
qed

(*@ core/rt/xml_xhtml.cpp 187-206 rt::XMLComposer::AddXML *)
function AddXML_loop :: "allocator \<Rightarrow> bytes \<Rightarrow> nat \<Rightarrow> nat \<Rightarrow> nat \<Rightarrow> XMLComposer \<Rightarrow> XMLComposer option" where
  "AddXML_loop alloc m xmlEnd leadingSpaces p c =
    (case cstr_at m (p + leadingSpaces) of
       None \<Rightarrow> None
     | Some s \<Rightarrow>
         (if FindCharacter 13 s 0 = - 1 then
            (if p + leadingSpaces \<le> xmlEnd then
               do { c \<leftarrow> Linebreak alloc 0 c;
                    Output alloc (takeWhile (\<lambda>x. x \<noteq> 0) (take (xmlEnd - (p + leadingSpaces)) (drop (p + leadingSpaces) m))) c }
             else None)
          else
            (case Linebreak alloc 0 c of
               None \<Rightarrow> None
             | Some c \<Rightarrow>
                 (case Output alloc (take (nat (FindCharacter 13 s 0)) s) c of
                    None \<Rightarrow> None
                  | Some c \<Rightarrow>
                      if p + leadingSpaces + nat (FindCharacter 13 s 0) + 2 = xmlEnd then Some c
                      else AddXML_loop alloc m xmlEnd leadingSpaces (p + leadingSpaces + nat (FindCharacter 13 s 0) + 2) c))))"
  by pat_completeness auto
termination
proof (relation "measure (\<lambda>(a, m, e, l, p, c). length m - p)", goal_cases)
  case (2 alloc m xmlEnd l p c s)
  then show ?case using cstr_at_bound [of m "p + l" s] by simp
qed simp

declare AddXML_loop.simps [simp del]

(*@ core/rt/xml_xhtml.cpp 176-209 rt::XMLComposer::AddXML *)
definition AddXML :: "allocator \<Rightarrow> XMLComposer \<Rightarrow> XMLComposer \<Rightarrow> XMLComposer option" where
  "AddXML alloc another c =
    do { let m = s_p (m_Output another);
         let xml = GetDocumentBuffer False another;
         let xmlEnd = xml + GetDocumentLength False another;
         let p = skip_while (\<lambda>x. x = 32) m xml;
         x \<leftarrow> rd m p;
         if x = 0 then Some c
         else
           do { c \<leftarrow> AddXML_loop alloc m xmlEnd (p - xml) xml c;
                Some (c\<lparr> DepthMax := 1 + length (m_NestLevelTag c) \<rparr>) } }"

section \<open>What the composer writes\<close>

text \<open>The composer seen as the text it holds and its other fields. An operation \<open>yields\<close> a state when it never fails and leads every representation of
  the first state to one of the second.\<close>

definition represents :: "XMLComposer \<Rightarrow> bytes \<times> XMLComposer \<Rightarrow> bool" where
  "represents c a \<longleftrightarrow> String_inv (m_Output c) \<and> s_text (m_Output c) = fst a \<and> c\<lparr> m_Output := m_Output (snd a) \<rparr> = snd a"

definition yields :: "(XMLComposer \<Rightarrow> XMLComposer option) \<Rightarrow> bytes \<times> XMLComposer \<Rightarrow> bytes \<times> XMLComposer \<Rightarrow> bool" where
  "yields f a b \<longleftrightarrow> (\<forall>c. represents c a \<longrightarrow> (\<exists>c'. f c = Some c' \<and> represents c' b))"

lemma represents_fields:
  assumes "represents c (t, r)"
  shows "EnteringNodeTag c = EnteringNodeTag r" "DepthMax c = DepthMax r" "m_HeaderLength c = m_HeaderLength r"
    "m_NestLevelTag c = m_NestLevelTag r" "s_text (m_Output c) = t" "String_inv (m_Output c)" "s_GetLength (m_Output c) = length t"
  using assms length_s_text [of "m_Output c"] by (cases c; cases r; simp add: represents_def)+

lemma yields_bind: "yields f a b \<Longrightarrow> yields g b d \<Longrightarrow> yields (\<lambda>c. Option.bind (f c) g) a d"
  unfolding yields_def by fastforce

lemma yields_Some: "yields Some a a"
  by (simp add: yields_def)

lemma yieldsI: "(\<And>c. represents c a \<Longrightarrow> f c = g c) \<Longrightarrow> yields g a b \<Longrightarrow> yields f a b"
  unfolding yields_def by auto

lemma yields_update:
  assumes "\<And>c. m_Output (u c) = m_Output c" "\<And>c S. u (c\<lparr> m_Output := S \<rparr>) = (u c)\<lparr> m_Output := S \<rparr>"
  shows "yields (\<lambda>c. Some (u c)) (t, r) (t, u r)"
proof -
  have "represents (u c) (t, u r)" if "represents c (t, r)" for c
    using that assms(1) assms(2) [where c = c and S = "m_Output r", symmetric] by (simp add: represents_def)
  then show ?thesis by (simp add: yields_def)
qed

lemma yields_Output: "total_alloc alloc \<Longrightarrow> yields (Output alloc x) (t, r) (t @ x, r)"
  using String_append_total [of alloc _ "Ref x"] by (fastforce simp: yields_def represents_def Output_def)

lemma yields_Output_char: "total_alloc alloc \<Longrightarrow> yields (Output_char alloc x) (t, r) (t @ [x], r)"
  using String_append_char_total [of alloc _ x] by (fastforce simp: yields_def represents_def Output_char_def)


lemma yields_eq: "yields f a b' \<Longrightarrow> b' = b \<Longrightarrow> yields f a b"
  by simp

definition nl :: "nat \<Rightarrow> bytes" where
  "nl n = 13 # 10 # replicate (4 * n) 32"

lemma replicate_4_Suc: "replicate (4 * Suc n) x = x # x # x # x # replicate (4 * n) x"
  by (simp add: numeral_eq_Suc)

lemma nl_small: "nl 0 = [13, 10]" "nl (Suc 0) = 13 # 10 # lit ''    ''" "nl (Suc (Suc 0)) = 13 # 10 # lit ''        ''"
  unfolding nl_def replicate_4_Suc by simp_all

lemma Linebreak_loop_yields: "total_alloc alloc \<Longrightarrow> yields (Linebreak_loop alloc n) (t, r) (t @ replicate (4 * n) 32, r)"
proof (induction n arbitrary: t)
  case 0
  then show ?case by (simp add: yields_def)
next
  case (Suc n)
  show ?case unfolding Linebreak_loop.simps replicate_4_Suc
    by (rule yields_eq, (rule yields_bind yields_Output_char Suc.prems Suc.IH)+, simp)
qed

lemma Linebreak_yields:
  assumes "total_alloc alloc" "int (length (m_NestLevelTag r)) + vary = int n"
  shows "yields (Linebreak alloc vary) (t, r) (t @ nl n, r)"
proof -
  have L: "yields (\<lambda>c. let n = int (length (m_NestLevelTag c)) + vary in if 0 \<le> n then Linebreak_loop alloc (nat n) c else None)
      ((t @ [13]) @ [10], r) (((t @ [13]) @ [10]) @ replicate (4 * n) 32, r)"
    by (rule yieldsI [OF _ Linebreak_loop_yields [OF assms(1)]]) (use assms(2) represents_fields in \<open>simp add: Let_def\<close>)
  show ?thesis unfolding Linebreak_def nl_def
    by (rule yields_eq, (rule yields_bind yields_Output_char assms(1) L)+, simp)
qed

text \<open>The text of escaped characters, and of an element tree.\<close>

definition escape_xml :: "byte \<Rightarrow> bytes" where
  "escape_xml x = (if x = 60 then lit ''&lt;'' else if x = 38 then lit ''&amp;'' else if x = 62 then lit ''&gt;''
    else if x = 34 then lit ''&quot;'' else if x = 39 then lit ''&apos;'' else [x])"

definition plain_text :: "bytes \<Rightarrow> bytes" where
  "plain_text s = concat (map escape_xml s)"

lemma InsertPlainText_yields: "total_alloc alloc \<Longrightarrow> yields (InsertPlainText alloc s) (t, r) (t @ plain_text s, r)"
proof (induction s arbitrary: t)
  case Nil
  then show ?case by (simp add: plain_text_def yields_def)
next
  case (Cons x s)
  have E: "yields (\<lambda>c. if x = 60 then Output alloc (lit ''&lt;'') c
            else if x = 38 then Output alloc (lit ''&amp;'') c
            else if x = 62 then Output alloc (lit ''&gt;'') c
            else if x = 34 then Output alloc (lit ''&quot;'') c
            else if x = 39 then Output alloc (lit ''&apos;'') c
            else Output_char alloc x c) (t, r) (t @ escape_xml x, r)"
    using yields_Output [OF Cons.prems] yields_Output_char [OF Cons.prems] by (simp add: escape_xml_def del: lit_Cons)
  show ?case unfolding InsertPlainText.simps
    by (rule yields_eq, rule yields_bind [OF E Cons.IH [OF Cons.prems]]) (simp add: plain_text_def)
qed


lemma SetAttribute_yields:
  assumes "total_alloc alloc" "EnteringNodeTag r \<noteq> None"
  shows "yields (SetAttribute alloc (Some name) value) (t, r)
    (t @ 32 # name @ 61 # 34 # plain_text (case value of Some v \<Rightarrow> v | None \<Rightarrow> []) @ [34], r)"
proof -
  have V: "yields (\<lambda>c. case value of Some v \<Rightarrow> InsertPlainText alloc v c | None \<Rightarrow> Some c) (t', r)
      (t' @ plain_text (case value of Some v \<Rightarrow> v | None \<Rightarrow> []), r)" for t'
    using InsertPlainText_yields [OF assms(1)] yields_Some by (cases "value") (simp_all add: plain_text_def)
  have "yields (\<lambda>c. do { c \<leftarrow> Output_char alloc 32 c; c \<leftarrow> Output alloc name c; c \<leftarrow> Output_char alloc 61 c; c \<leftarrow> Output_char alloc 34 c;
      c \<leftarrow> (case value of Some v \<Rightarrow> InsertPlainText alloc v c | None \<Rightarrow> Some c); Output_char alloc 34 c }) (t, r)
      (t @ 32 # name @ 61 # 34 # plain_text (case value of Some v \<Rightarrow> v | None \<Rightarrow> []) @ [34], r)"
    by (rule yields_eq, (rule yields_bind yields_Output yields_Output_char assms(1) V)+, simp)
  then show ?thesis
    by (rule yieldsI [rotated]) (use assms(2) represents_fields(1) in \<open>auto simp: SetAttribute_def\<close>)
qed

lemma Linebreak_here: "total_alloc alloc \<Longrightarrow> yields (Linebreak alloc 0) (t, r) (t @ nl (length (m_NestLevelTag r)), r)"
  by (simp add: Linebreak_yields)

lemma EnteringNode_yields:
  assumes "total_alloc alloc"
  shows "yields (EnteringNode alloc tag) (t, r) (t @ nl (length (m_NestLevelTag r)) @ 60 # tag, r\<lparr> EnteringNodeTag := Some tag \<rparr>)"
  unfolding EnteringNode_def
  by (rule yields_eq, (rule yields_bind Linebreak_here yields_Output yields_Output_char yields_update assms refl)+, simp_all)

lemma AddCData_yields:
  assumes "total_alloc alloc" "EnteringNodeTag r = None"
  shows "yields (AddCData alloc (Some cdata)) (t, r) (t @ nl (length (m_NestLevelTag r)) @ lit ''<![CDATA['' @ cdata @ lit '']]>'', r)"
proof -
  have "yields (\<lambda>c. do { c \<leftarrow> Linebreak alloc 0 c; c \<leftarrow> Output alloc (lit ''<![CDATA['') c; c \<leftarrow> Output alloc cdata c; Output alloc (lit '']]>'') c })
      (t, r) (t @ nl (length (m_NestLevelTag r)) @ lit ''<![CDATA['' @ cdata @ lit '']]>'', r)"
    by (rule yields_eq, (rule yields_bind Linebreak_here yields_Output assms(1))+, simp)
  then show ?thesis
    by (rule yieldsI [rotated]) (use assms(2) represents_fields(1) in \<open>auto simp: AddCData_def\<close>)
qed

lemma AddText_yields:
  assumes "total_alloc alloc" "EnteringNodeTag r = None"
  shows "yields (AddText alloc (Some s)) (t, r) (t @ plain_text s, r)"
  by (rule yieldsI [OF _ InsertPlainText_yields [OF assms(1)]]) (use assms(2) represents_fields(1) in \<open>auto simp: AddText_def\<close>)

text \<open>The state behind \<^verbatim>\<open>EnteringNodeDone\<close>: the tag and the length of the text before the closing bracket are pushed.\<close>

definition opened :: "bytes \<Rightarrow> XMLComposer \<Rightarrow> XMLComposer" where
  "opened t r = r\<lparr> m_NestLevelTag := m_NestLevelTag r @ [\<lparr> tc_tag = (case EnteringNodeTag r of Some t \<Rightarrow> t | None \<Rightarrow> []), tc_pos = length t \<rparr>],
    DepthMax := length (m_NestLevelTag r) + 1, EnteringNodeTag := None \<rparr>"

lemma EnteringNodeDone_yields:
  assumes "total_alloc alloc"
  shows "yields (EnteringNodeDone alloc True) (t, r) (t @ lit '' />'', r\<lparr> DepthMax := 1 + length (m_NestLevelTag r), EnteringNodeTag := None \<rparr>)"
    "yields (EnteringNodeDone alloc False) (t, r) (t @ [62], opened t r)"
proof -
  have T: "yields (\<lambda>c. Some (c\<lparr> EnteringNodeTag := None \<rparr>)) (t, r) (t, r\<lparr> EnteringNodeTag := None \<rparr>)" for t r
    by (rule yields_update) simp_all
  have U: "yields (\<lambda>c. Some (c\<lparr> DepthMax := 1 + length (m_NestLevelTag c) \<rparr>)) (t, r) (t, r\<lparr> DepthMax := 1 + length (m_NestLevelTag r) \<rparr>)"
    by (rule yields_update) simp_all
  have "yields (\<lambda>c. do { c \<leftarrow> Some (c\<lparr> DepthMax := 1 + length (m_NestLevelTag c) \<rparr>); c \<leftarrow> Output_char alloc 32 c; c \<leftarrow> Output_char alloc 47 c;
      c \<leftarrow> Output_char alloc 62 c; Some (c\<lparr> EnteringNodeTag := None \<rparr>) }) (t, r)
      (t @ lit '' />'', r\<lparr> DepthMax := 1 + length (m_NestLevelTag r), EnteringNodeTag := None \<rparr>)"
    by (rule yields_eq, (rule yields_bind yields_Output_char assms U T)+, simp)
  then show "yields (EnteringNodeDone alloc True) (t, r) (t @ lit '' />'', r\<lparr> DepthMax := 1 + length (m_NestLevelTag r), EnteringNodeTag := None \<rparr>)"
    by (rule yieldsI [rotated]) (simp add: EnteringNodeDone_def Let_def)
  define N where "N = m_NestLevelTag r @ [\<lparr> tc_tag = (case EnteringNodeTag r of Some t \<Rightarrow> t | None \<Rightarrow> []), tc_pos = length t \<rparr>]"
  have V: "yields (\<lambda>c. Some (c\<lparr> m_NestLevelTag := N, DepthMax := length N \<rparr>)) (t, r) (t, r\<lparr> m_NestLevelTag := N, DepthMax := length N \<rparr>)"
    by (rule yields_update) simp_all
  have "yields (\<lambda>c. do { c \<leftarrow> Some (c\<lparr> m_NestLevelTag := N, DepthMax := length N \<rparr>); c \<leftarrow> Output_char alloc 62 c;
      Some (c\<lparr> EnteringNodeTag := None \<rparr>) }) (t, r) (t @ [62], opened t r)"
    by (rule yields_eq, (rule yields_bind yields_Output_char assms V T)+) (simp add: opened_def N_def)
  then show "yields (EnteringNodeDone alloc False) (t, r) (t @ [62], opened t r)"
    by (rule yieldsI [rotated]) (use represents_fields in \<open>simp add: EnteringNodeDone_def Let_def N_def GetDocumentLength_def\<close>)
qed

text \<open>An element is closed with its tag, on a line of its own when a deeper element was entered last. The text has grown since the tag was pushed, so the
  branch for an empty element is never taken.\<close>

lemma ExitNode_yields:
  assumes "total_alloc alloc" "m_NestLevelTag r = N @ [tc]" "tc_pos tc < length t"
  shows "yields (ExitNode alloc) (t, r)
    (t @ (if length N + 1 < DepthMax r then nl (length N) else []) @ lit ''</'' @ tc_tag tc @ [62], r\<lparr> m_NestLevelTag := N \<rparr>)"
proof -
  have L: "yields (\<lambda>c. if length N + 1 < DepthMax r then Linebreak alloc (- 1) c else Some c) (t, r)
      (t @ (if length N + 1 < DepthMax r then nl (length N) else []), r)"
    using Linebreak_yields [OF assms(1), of r "- 1" "length N" t] assms(2) by (simp add: yields_Some)
  have T: "yields (\<lambda>c. Some (c\<lparr> m_NestLevelTag := N \<rparr>)) (t, r) (t, r\<lparr> m_NestLevelTag := N \<rparr>)" for t
    by (rule yields_update) simp_all
  have B: "yields (\<lambda>c. Some (c\<lparr> m_NestLevelTag := butlast (m_NestLevelTag c) \<rparr>)) (t, r) (t, r\<lparr> m_NestLevelTag := N \<rparr>)" for t
    by (rule yieldsI [OF _ T]) (use assms(2) represents_fields(4) in simp)
  have "yields (\<lambda>c. do { c \<leftarrow> (if length N + 1 < DepthMax r then Linebreak alloc (- 1) c else Some c);
      c \<leftarrow> Output_char alloc 60 c; c \<leftarrow> Output_char alloc 47 c; c \<leftarrow> Output alloc (tc_tag tc) c; c \<leftarrow> Output_char alloc 62 c;
      Some (c\<lparr> m_NestLevelTag := butlast (m_NestLevelTag c) \<rparr>) }) (t, r)
      (t @ (if length N + 1 < DepthMax r then nl (length N) else []) @ lit ''</'' @ tc_tag tc @ [62], r\<lparr> m_NestLevelTag := N \<rparr>)"
    by (rule yields_eq, (rule yields_bind L yields_Output yields_Output_char assms(1) B)+, simp)
  then show ?thesis
    by (rule yieldsI [rotated])
      (use assms(2,3) represents_fields in \<open>simp add: ExitNode_def GetDocumentLength_def Let_def Option.bind_assoc\<close>)
qed

section \<open>Element trees\<close>

text \<open>The content of a document: text, a CDATA section, a compact element and an element with content. An attribute has a name and perhaps a value.\<close>

type_synonym attributes = "(bytes \<times> bytes option) list"

datatype xml = XText bytes | XCData bytes | XEmpty bytes attributes | XElem bytes attributes "xml list"

definition is_element :: "xml \<Rightarrow> bool" where
  "is_element x = (case x of XEmpty _ _ \<Rightarrow> True | XElem _ _ _ \<Rightarrow> True | _ \<Rightarrow> False)"

text \<open>The calls that write a tree.\<close>

fun compose_attributes :: "allocator \<Rightarrow> attributes \<Rightarrow> XMLComposer \<Rightarrow> XMLComposer option" where
  "compose_attributes alloc [] c = Some c"
| "compose_attributes alloc ((name, val) # as) c = do { c \<leftarrow> SetAttribute alloc (Some name) val c; compose_attributes alloc as c }"

fun compose :: "allocator \<Rightarrow> xml \<Rightarrow> XMLComposer \<Rightarrow> XMLComposer option"
  and compose_list :: "allocator \<Rightarrow> xml list \<Rightarrow> XMLComposer \<Rightarrow> XMLComposer option" where
  "compose alloc (XText s) c = AddText alloc (Some s) c"
| "compose alloc (XCData s) c = AddCData alloc (Some s) c"
| "compose alloc (XEmpty tag as) c =
    do { c \<leftarrow> EnteringNode alloc tag c; c \<leftarrow> compose_attributes alloc as c; EnteringNodeDone alloc True c }"
| "compose alloc (XElem tag as ks) c =
    do { c \<leftarrow> EnteringNode alloc tag c; c \<leftarrow> compose_attributes alloc as c; c \<leftarrow> EnteringNodeDone alloc False c;
         c \<leftarrow> compose_list alloc ks c; ExitNode alloc c }"
| "compose_list alloc [] c = Some c"
| "compose_list alloc (x # xs) c = do { c \<leftarrow> compose alloc x c; compose_list alloc xs c }"

text \<open>The text they leave: every element and CDATA section on a line of its own, indented by its depth, the closing tag too when the element holds another.\<close>

definition attribute_text :: "bytes \<times> bytes option \<Rightarrow> bytes" where
  "attribute_text a = 32 # fst a @ 61 # 34 # plain_text (case snd a of Some v \<Rightarrow> v | None \<Rightarrow> []) @ [34]"

definition open_text :: "nat \<Rightarrow> bytes \<Rightarrow> attributes \<Rightarrow> bytes" where
  "open_text d tag as = nl d @ 60 # tag @ concat (map attribute_text as)"

fun xml_text :: "nat \<Rightarrow> xml \<Rightarrow> bytes" and xmls_text :: "nat \<Rightarrow> xml list \<Rightarrow> bytes" where
  "xml_text d (XText s) = plain_text s"
| "xml_text d (XCData s) = nl d @ lit ''<![CDATA['' @ s @ lit '']]>''"
| "xml_text d (XEmpty tag as) = open_text d tag as @ lit '' />''"
| "xml_text d (XElem tag as ks) =
    open_text d tag as @ [62] @ xmls_text (d + 1) ks @ (if list_ex is_element ks then nl d else []) @ lit ''</'' @ tag @ [62]"
| "xmls_text d [] = []"
| "xmls_text d (x # xs) = xml_text d x @ xmls_text d xs"

lemma compose_attributes_yields:
  assumes "total_alloc alloc" "EnteringNodeTag r \<noteq> None"
  shows "yields (compose_attributes alloc as) (t, r) (t @ concat (map attribute_text as), r)"
proof (induction as arbitrary: t)
  case Nil
  then show ?case by (simp add: yields_def)
next
  case (Cons a as)
  obtain name val where a: "a = (name, val)" by (cases a)
  show ?case unfolding a compose_attributes.simps
    by (rule yields_eq, rule yields_bind [OF SetAttribute_yields [OF assms] Cons.IH]) (simp add: attribute_text_def)
qed

text \<open>The fields of the composer behind a run of calls: only \<^verbatim>\<open>_DepthMax\<close> differs, and it is beyond the depth when an element was written.\<close>

definition deepened :: "bool \<Rightarrow> XMLComposer \<Rightarrow> XMLComposer \<Rightarrow> bool" where
  "deepened elem r r' \<longleftrightarrow> (\<exists>n. r' = r\<lparr> DepthMax := n \<rparr> \<and> (if elem then length (m_NestLevelTag r) < n else n = DepthMax r))"

lemma deepened_fields: "deepened e r r' \<Longrightarrow> EnteringNodeTag r' = EnteringNodeTag r \<and> m_NestLevelTag r' = m_NestLevelTag r \<and> m_HeaderLength r' = m_HeaderLength r"
  by (auto simp: deepened_def)

lemma deepened_trans: "deepened a r r' \<Longrightarrow> deepened b r' r'' \<Longrightarrow> deepened (a \<or> b) r r''"
  by (cases r) (auto simp: deepened_def split: if_splits)

lemma compose_yields:
  assumes "total_alloc alloc"
  shows "EnteringNodeTag r = None \<Longrightarrow> length (m_NestLevelTag r) = d \<Longrightarrow>
      \<exists>r'. yields (compose alloc x) (t, r) (t @ xml_text d x, r') \<and> deepened (is_element x) r r'"
    "EnteringNodeTag r = None \<Longrightarrow> length (m_NestLevelTag r) = d \<Longrightarrow>
      \<exists>r'. yields (compose_list alloc xs) (t, r) (t @ xmls_text d xs, r') \<and> deepened (list_ex is_element xs) r r'"
proof (induction d x and d xs arbitrary: t r and t r rule: xml_text_xmls_text.induct)
  case (1 d s)
  have "compose alloc (XText s) = AddText alloc (Some s)" by (rule ext) simp
  moreover have "deepened False r r" by (cases r) (simp add: deepened_def)
  ultimately show ?case using AddText_yields [OF assms 1(1), of s t] by (auto simp: is_element_def)
next
  case (2 d s)
  have "compose alloc (XCData s) = AddCData alloc (Some s)" by (rule ext) simp
  moreover have "deepened False r r" by (cases r) (simp add: deepened_def)
  ultimately show ?case using AddCData_yields [OF assms 2(1), of s t] 2(2) by (auto simp: is_element_def)
next
  case (3 d tag as)
  let ?r = "r\<lparr> EnteringNodeTag := Some tag \<rparr>"
  have A: "yields (compose_attributes alloc as) (t, ?r) (t @ concat (map attribute_text as), ?r)" for t
    by (rule compose_attributes_yields [OF assms]) simp
  have "yields (compose alloc (XEmpty tag as)) (t, r) (t @ xml_text d (XEmpty tag as), r\<lparr> DepthMax := 1 + d \<rparr>)"
    unfolding compose.simps
    by (rule yields_eq, (rule yields_bind EnteringNode_yields EnteringNodeDone_yields A assms)+)
      (use 3 in \<open>cases r, simp add: open_text_def\<close>)
  moreover have "deepened True r (r\<lparr> DepthMax := 1 + d \<rparr>)" using 3 by (auto simp: deepened_def)
  ultimately show ?case by (auto simp: is_element_def simp del: compose.simps xml_text.simps)
next
  case (4 d tag as ks)
  let ?r = "r\<lparr> EnteringNodeTag := Some tag \<rparr>"
  define t1 where "t1 = t @ open_text d tag as"
  define tc where "tc = \<lparr> tc_tag = tag, tc_pos = length t1 \<rparr>"
  define r1 where "r1 = opened t1 ?r"
  have r1: "EnteringNodeTag r1 = None" "m_NestLevelTag r1 = m_NestLevelTag r @ [tc]" "DepthMax r1 = d + 1"
    using 4 by (simp_all add: r1_def opened_def tc_def)
  obtain r2 where K: "yields (compose_list alloc ks) (t1 @ [62], r1) ((t1 @ [62]) @ xmls_text (d + 1) ks, r2)"
      and D: "deepened (list_ex is_element ks) r1 r2"
    using "4.IH" [of r1 "t1 @ [62]"] r1 "4.prems" by auto
  have r2: "m_NestLevelTag r2 = m_NestLevelTag r @ [tc]" "d + 1 < DepthMax r2 \<longleftrightarrow> list_ex is_element ks"
    using D r1 "4.prems" by (auto simp: deepened_def split: if_splits)
  have A: "yields (compose_attributes alloc as) (t, ?r) (t @ concat (map attribute_text as), ?r)" for t
    by (rule compose_attributes_yields [OF assms]) simp
  have E: "yields (EnteringNode alloc tag) (t, r) (t @ nl d @ 60 # tag, ?r)" using EnteringNode_yields [OF assms, of tag t r] "4.prems" by simp
  have O: "yields (EnteringNodeDone alloc False) ((t @ nl d @ 60 # tag) @ concat (map attribute_text as), ?r) (t1 @ [62], r1)"
    using EnteringNodeDone_yields(2) [OF assms, of t1 ?r] by (simp add: t1_def r1_def open_text_def)
  note X = ExitNode_yields [OF assms r2(1), of "(t1 @ [62]) @ xmls_text (d + 1) ks"]
  have "yields (compose alloc (XElem tag as ks)) (t, r) (t @ xml_text d (XElem tag as ks), r2\<lparr> m_NestLevelTag := m_NestLevelTag r \<rparr>)"
    unfolding compose.simps
    by (rule yields_eq, (rule yields_bind E A O K X)+) (use "4.prems" r2 in \<open>simp_all add: tc_def t1_def\<close>)
  moreover have "deepened True r (r2\<lparr> m_NestLevelTag := m_NestLevelTag r \<rparr>)"
    using D r1 "4.prems" by (cases r) (auto simp: deepened_def r1_def opened_def split: if_splits)
  ultimately show ?case by (auto simp: is_element_def simp del: compose.simps xml_text.simps)
next
  case (5 d)
  have "deepened False r r" by (cases r) (simp add: deepened_def)
  then show ?case by (auto simp: yields_def)
next
  case (6 d x xs)
  obtain r1 where 1: "yields (compose alloc x) (t, r) (t @ xml_text d x, r1)" "deepened (is_element x) r r1" using "6.IH"(1) "6.prems" by blast
  obtain r2 where 2: "yields (compose_list alloc xs) (t @ xml_text d x, r1) ((t @ xml_text d x) @ xmls_text d xs, r2)" "deepened (list_ex is_element xs) r1 r2"
    using "6.IH"(2) [of r1 "t @ xml_text d x"] deepened_fields [OF 1(2)] "6.prems" by auto
  have "yields (compose_list alloc (x # xs)) (t, r) (t @ xmls_text d (x # xs), r2)"
    unfolding compose_list.simps by (rule yields_eq, rule yields_bind [OF 1(1) 2(1)]) simp
  then show ?case using deepened_trans [OF 1(2) 2(2)] by (auto simp del: compose_list.simps xmls_text.simps)
qed

section \<open>Another document inside\<close>

text \<open>A user's text without line breaks (\<^verbatim>\<open>\\r\<close>), and a tree of such texts.\<close>

definition one_line :: "bytes \<Rightarrow> bool" where
  "one_line s \<longleftrightarrow> 13 \<notin> set s \<and> 0 \<notin> set s"

definition one_line_attributes :: "attributes \<Rightarrow> bool" where
  "one_line_attributes as \<longleftrightarrow> (\<forall>(n, v) \<in> set as. one_line n \<and> one_line (case v of Some v \<Rightarrow> v | None \<Rightarrow> []))"

fun one_line_xml :: "xml \<Rightarrow> bool" and one_line_xmls :: "xml list \<Rightarrow> bool" where
  "one_line_xml (XText s) \<longleftrightarrow> one_line s"
| "one_line_xml (XCData s) \<longleftrightarrow> one_line s"
| "one_line_xml (XEmpty tag as) \<longleftrightarrow> one_line tag \<and> one_line_attributes as"
| "one_line_xml (XElem tag as ks) \<longleftrightarrow> one_line tag \<and> one_line_attributes as \<and> one_line_xmls ks"
| "one_line_xmls [] \<longleftrightarrow> True"
| "one_line_xmls (x # xs) \<longleftrightarrow> one_line_xml x \<and> one_line_xmls xs"

text \<open>A text with every line moved to the right by \<open>d\<close> steps, and what the loop over the lines asks of a text.\<close>

fun reindent :: "nat \<Rightarrow> bytes \<Rightarrow> bytes" where
  "reindent d [] = []"
| "reindent d (c # s) = (if c = 13 \<and> s \<noteq> [] \<and> hd s = 10 then nl d @ reindent d (tl s) else c # reindent d s)"

fun lines_ok :: "bytes \<Rightarrow> bool" where
  "lines_ok [] \<longleftrightarrow> True"
| "lines_ok (c # s) \<longleftrightarrow> (if c = 13 then s \<noteq> [] \<and> hd s = 10 \<and> tl s \<noteq> [] \<and> lines_ok (tl s) else c \<noteq> 0 \<and> lines_ok s)"

lemma one_line_app [simp]: "one_line (a @ b) \<longleftrightarrow> one_line a \<and> one_line b" "one_line []"
  "one_line (c # s) \<longleftrightarrow> c \<noteq> 13 \<and> c \<noteq> 0 \<and> one_line s"
  by (auto simp: one_line_def)

lemma reindent_line: "one_line u \<Longrightarrow> reindent d (u @ v) = u @ reindent d v"
  by (induction u) (auto simp: one_line_def)

lemma lines_ok_line: "one_line u \<Longrightarrow> lines_ok (u @ v) \<longleftrightarrow> lines_ok v"
  by (induction u) (auto simp: one_line_def)

lemma one_line_spaces: "one_line (replicate n 32)"
  by (simp add: one_line_def)

lemma reindent_nl: "reindent d (nl k @ v) = nl (k + d) @ reindent d v"
proof -
  have "replicate (4 * d) (32 :: byte) @ replicate (4 * k) 32 = replicate (4 * (k + d)) 32" by (simp add: replicate_add [symmetric] algebra_simps)
  then show ?thesis using reindent_line [OF one_line_spaces, of d "4 * k" v] by (simp add: nl_def)
qed

lemma lines_ok_nl: "v \<noteq> [] \<Longrightarrow> lines_ok v \<Longrightarrow> lines_ok (nl k @ v)"
  using lines_ok_line [OF one_line_spaces, of "4 * k" v] by (simp add: nl_def)

lemma one_line_plain: "one_line s \<Longrightarrow> one_line (plain_text s)"
  by (induction s) (auto simp: plain_text_def escape_xml_def)

lemma one_line_attribute_text: "one_line_attributes as \<Longrightarrow> one_line (concat (map attribute_text as))"
  by (induction as) (auto simp: one_line_attributes_def attribute_text_def intro!: one_line_plain split: option.splits)

lemma reindent_xml:
  "one_line_xml x \<Longrightarrow> reindent d (xml_text k x @ v) = xml_text (k + d) x @ reindent d v \<and> (lines_ok v \<longrightarrow> lines_ok (xml_text k x @ v))"
  "one_line_xmls xs \<Longrightarrow> reindent d (xmls_text k xs @ v) = xmls_text (k + d) xs @ reindent d v \<and> (lines_ok v \<longrightarrow> lines_ok (xmls_text k xs @ v))"
proof (induction k x and k xs arbitrary: v and v rule: xml_text_xmls_text.induct)
  case (1 d s)
  then show ?case using one_line_plain [of s] by (simp add: reindent_line lines_ok_line)
next
  case (2 k s)
  have l: "one_line (lit ''<![CDATA['' @ s @ lit '']]>'')" using 2 by simp
  show ?case unfolding xml_text.simps append.assoc reindent_nl
    using reindent_line [OF l, of d v] lines_ok_line [OF l, of v] lines_ok_nl [of "lit ''<![CDATA['' @ s @ lit '']]>'' @ v" k] by simp
next
  case (3 k tag as)
  have l: "one_line (60 # tag @ concat (map attribute_text as) @ lit '' />'')" using 3 one_line_attribute_text [of as] by simp
  show ?case unfolding xml_text.simps open_text_def append.assoc reindent_nl
    using reindent_line [OF l, of d v] lines_ok_line [OF l, of v] lines_ok_nl [of "60 # tag @ concat (map attribute_text as) @ lit '' />'' @ v" k] by simp
next
  case (4 k tag as ks)
  define e where "e = (if list_ex is_element ks then nl k else [])"
  have l: "one_line (60 # tag @ concat (map attribute_text as) @ [62])" and c: "one_line (lit ''</'' @ tag @ [62])"
    using "4.prems" one_line_attribute_text [of as] by simp_all
  let ?c = "lit ''</'' @ tag @ [62]"
  have 1: "reindent d (e @ ?c @ v) = (if list_ex is_element ks then nl (k + d) else []) @ ?c @ reindent d v"
    using reindent_line [OF c, of d v] by (simp add: e_def reindent_nl)
  have 2: "lines_ok v \<Longrightarrow> lines_ok (e @ ?c @ v)" using lines_ok_line [OF c, of v] lines_ok_nl [of "?c @ v" k] by (simp add: e_def)
  let ?o = "60 # tag @ concat (map attribute_text as) @ [62]" and ?w = "xmls_text (k + 1) ks @ e @ ?c @ v"
  have w: "reindent d ?w = xmls_text (k + 1 + d) ks @ reindent d (e @ ?c @ v)" "lines_ok v \<Longrightarrow> lines_ok ?w"
    using "4.IH" [of "e @ ?c @ v"] "4.prems" 2 by simp_all
  have eq: "xml_text k (XElem tag as ks) @ v = nl k @ ?o @ ?w" by (simp add: open_text_def e_def)
  have "reindent d (xml_text k (XElem tag as ks) @ v) = nl (k + d) @ ?o @ xmls_text (k + 1 + d) ks @
      (if list_ex is_element ks then nl (k + d) else []) @ ?c @ reindent d v"
    unfolding eq by (simp only: reindent_nl reindent_line [OF l] w(1) 1)
  moreover have "lines_ok (xml_text k (XElem tag as ks) @ v)" if "lines_ok v"
    unfolding eq by (rule lines_ok_nl) (use w(2) [OF that] lines_ok_line [OF l] in \<open>simp_all only: append_Cons list.distinct not_False_eq_True\<close>)
  ultimately show ?case by (simp add: open_text_def)
next
  case (6 k x xs)
  then show ?case by simp
qed simp

lemma lines_ok_no_zero: "lines_ok s \<Longrightarrow> 0 \<notin> set s"
proof (induction s rule: lines_ok.induct)
  case (2 c s)
  show ?case
  proof (cases "c = 13")
    case True
    then obtain s' where "s = 10 # s'" using "2.prems" by (cases s) auto
    then show ?thesis using 2 True by auto
  next
    case False
    then show ?thesis using 2 by auto
  qed
qed simp

text \<open>Such a text is one line, or a line, a line break and another such text.\<close>

lemma lines_ok_cases:
  assumes "lines_ok s"
  obtains "one_line s" "reindent d s = s" |
    u v where "s = u @ 13 # 10 # v" "one_line u" "lines_ok v" "v \<noteq> []" "reindent d s = u @ nl d @ reindent d v"
proof (cases "13 \<in> set s")
  case True
  then obtain u w where s: "s = u @ 13 # w" "13 \<notin> set u" using split_list_first [of 13 s] by blast
  then have u: "one_line u" using lines_ok_no_zero [OF assms] by (simp add: one_line_def)
  then have "lines_ok (13 # w)" using lines_ok_line [OF u, of "13 # w"] assms s by simp
  then obtain v where "w = 10 # v" "v \<noteq> []" "lines_ok v" by (cases w) auto
  then show ?thesis using that(2) [of u v] s u reindent_line [OF u, of d "13 # w"] by simp
next
  case False
  then have "one_line s" using lines_ok_no_zero [OF assms] by (simp add: one_line_def)
  then show ?thesis using that(1) reindent_line [of s d "[]"] by simp
qed

lemma FindCharacter_none: "x \<notin> set s \<Longrightarrow> FindCharacter x s 0 = - 1"
  unfolding FindCharacter_def find_from_spec by (auto simp: in_set_conv_nth)

lemma FindCharacter_first: "x \<notin> set u \<Longrightarrow> FindCharacter x (u @ x # v) 0 = int (length u)"
proof -
  assume x: "x \<notin> set u"
  have "(LEAST k. 0 \<le> k \<and> k < length (u @ x # v) \<and> (u @ x # v) ! k = x) = length u"
  proof (rule Least_equality)
    fix k assume "0 \<le> k \<and> k < length (u @ x # v) \<and> (u @ x # v) ! k = x"
    then show "length u \<le> k" using x by (metis nth_append nth_mem not_le)
  qed (simp add: nth_append)
  moreover have "\<exists>k. 0 \<le> k \<and> k < length (u @ x # v) \<and> (u @ x # v) ! k = x" by (intro exI [of _ "length u"]) (simp add: nth_append)
  ultimately show ?thesis unfolding FindCharacter_def find_from_spec by presburger
qed

lemma cstr_at_app: "0 \<notin> set s \<Longrightarrow> m = pre @ s @ 0 # post \<Longrightarrow> cstr_at m (length pre) = Some s"
proof -
  assume s: "0 \<notin> set s" "m = pre @ s @ 0 # post"
  then have "takeWhile (\<lambda>x. x \<noteq> 0) (s @ 0 # post) = s" by (subst takeWhile_append2) auto
  then show ?thesis using s by (simp add: cstr_at_def)
qed

lemma AddXML_loop_yields:
  assumes "total_alloc alloc" "lines_ok s" "m = pre @ s @ 0 # post" "length (m_NestLevelTag r) = d" "xmlEnd = length pre + length s"
  shows "yields (AddXML_loop alloc m xmlEnd 0 (length pre)) (t, r) (t @ nl d @ reindent d s, r)"
  using assms
proof (induction s arbitrary: pre t rule: length_induct)
  case (1 s)
  have N: "yields (Linebreak alloc 0) (t, r) (t @ nl d, r)" using Linebreak_here [OF assms(1), of t r] assms(4) by simp
  note me = 1(4,6)
  have cs: "cstr_at m (length pre) = Some s" using cstr_at_app [OF lines_ok_no_zero] 1(3,4) by blast
  from 1(3) consider "one_line s" "reindent d s = s" |
    u v where "s = u @ 13 # 10 # v" "one_line u" "lines_ok v" "v \<noteq> []" "reindent d s = u @ nl d @ reindent d v" by (rule lines_ok_cases)
  then show ?case
  proof cases
    case 1
    have f: "FindCharacter 13 s 0 = - 1" using 1 by (intro FindCharacter_none) (simp add: one_line_def)
    have o: "takeWhile (\<lambda>x. x \<noteq> 0) (take (xmlEnd - length pre) (drop (length pre) m)) = s"
      using 1 me by (auto simp: one_line_def takeWhile_eq_all_conv)
    have "yields (\<lambda>c. do { c \<leftarrow> Linebreak alloc 0 c; Output alloc s c }) (t, r) (t @ nl d @ reindent d s, r)"
      by (rule yields_eq, (rule yields_bind N yields_Output assms(1))+) (simp add: 1)
    then show ?thesis
      by (rule yieldsI [rotated]) (subst AddXML_loop.simps, use cs f o me(2) in simp)
  next
    case (2 u v)
    have f: "FindCharacter 13 s 0 = int (length u)" using 2 FindCharacter_first [of 13 u "10 # v"] by (simp add: one_line_def)
    let ?p = "pre @ u @ [13, 10]"
    have IH: "yields (AddXML_loop alloc m xmlEnd 0 (length ?p)) (t', r) (t' @ nl d @ reindent d v, r)" for t'
      using 2 1 by (intro 1(1) [rule_format]) auto
    have "yields (\<lambda>c. do { c \<leftarrow> Linebreak alloc 0 c; c \<leftarrow> Output alloc u c; AddXML_loop alloc m xmlEnd 0 (length ?p) c }) (t, r) (t @ nl d @ reindent d s, r)"
      by (rule yields_eq, (rule yields_bind N yields_Output assms(1) IH)+) (simp only: 2(5) append.assoc)
    then show ?thesis
      by (rule yieldsI [rotated])
        (subst AddXML_loop.simps, use cs f 2 me(2) in \<open>simp add: bind_eq_None_conv split: option.splits\<close>)
  qed
qed

lemma represents_self: "String_inv (m_Output c) \<Longrightarrow> represents c (s_text (m_Output c), c)"
  by (simp add: represents_def)

text \<open>A fresh composer, and one that has written a list of trees.\<close>

definition fresh :: "nat \<Rightarrow> XMLComposer" where
  "fresh junk = \<lparr> EnteringNodeTag = None, DepthMax = junk, m_Output = String_new, m_HeaderLength = length g_XML_Header, m_NestLevelTag = [] \<rparr>"

lemma XMLComposer_new_represents:
  assumes "total_alloc alloc"
  shows "\<exists>c. XMLComposer_new alloc junk = Some c \<and> represents c (g_XML_Header, fresh junk)"
proof -
  obtain S where S: "String_Empty alloc String_new = Some S" "String_inv S" "s_text S = []"
    using String_Empty_total [OF assms, of String_new] by auto
  obtain T where "String_append alloc (Ref g_XML_Header) S = Some T" "String_inv T" "s_text T = g_XML_Header"
    using String_append_total [OF assms S(2), of "Ref g_XML_Header"] S(3) by auto
  then show ?thesis using S(1) by (simp add: XMLComposer_new_def ResetContent_def Output_def represents_def fresh_def)
qed

lemma composed_represents:
  assumes "total_alloc alloc"
  shows "\<exists>c r. Option.bind (XMLComposer_new alloc junk) (compose_list alloc xs) = Some c \<and> represents c (g_XML_Header @ xmls_text 0 xs, r) \<and>
    m_NestLevelTag r = [] \<and> m_HeaderLength r = length g_XML_Header \<and> EnteringNodeTag r = None"
proof -
  obtain c0 where c0: "XMLComposer_new alloc junk = Some c0" "represents c0 (g_XML_Header, fresh junk)"
    using XMLComposer_new_represents [OF assms] by blast
  obtain r where r: "yields (compose_list alloc xs) (g_XML_Header, fresh junk) (g_XML_Header @ xmls_text 0 xs, r)"
      "deepened (list_ex is_element xs) (fresh junk) r"
    using compose_yields(2) [OF assms, of "fresh junk" 0 xs g_XML_Header] by (auto simp: fresh_def)
  obtain c where "compose_list alloc xs c0 = Some c" "represents c (g_XML_Header @ xmls_text 0 xs, r)"
    using r(1) c0(2) unfolding yields_def by blast
  then show ?thesis using c0(1) deepened_fields [OF r(2)] by (auto simp: fresh_def)
qed

text \<open>The characters of a string and its terminating zero.\<close>

lemma s_p_text: "String_inv S \<Longrightarrow> s_text S \<noteq> [] \<Longrightarrow> \<exists>post. s_p S = s_text S @ 0 # post"
proof -
  assume i: "String_inv S" and t: "s_text S \<noteq> []"
  define n where "n = s_GetLength S"
  have n: "s_len S = n + 1" "n < length (s_p S)" "s_p S ! n = 0" using i t by (auto simp: String_inv_def n_def s_GetLength_def s_text_def split: if_splits)
  then show ?thesis using id_take_nth_drop [of n "s_p S"] by (auto simp: s_text_def n_def [symmetric])
qed

lemma xml_text_start: "\<not> (\<exists>s. x = XText s) \<Longrightarrow> \<exists>w. xml_text 0 x = 13 # 10 # 60 # w"
  by (cases x) (auto simp: nl_def open_text_def)

lemma AddXML_yields:
  assumes "total_alloc alloc" "represents another (h @ 13 # 10 # 60 # s, r')" "m_HeaderLength r' = length h"
    "length h + 3 + length s < 2 ^ 32" "lines_ok (60 # s)"
  shows "yields (AddXML alloc another) (t, r)
    (t @ nl (length (m_NestLevelTag r)) @ reindent (length (m_NestLevelTag r)) (60 # s), r\<lparr> DepthMax := 1 + length (m_NestLevelTag r) \<rparr>)"
proof -
  let ?d = "length (m_NestLevelTag r)" and ?m = "s_p (m_Output another)" and ?pre = "h @ [13, 10]" and ?e = "length h + 2 + (1 + length s)"
  note f = represents_fields [OF assms(2)]
  obtain post where m: "?m = ?pre @ (60 # s) @ 0 # post" using s_p_text [OF f(6)] unfolding f(5) by auto
  have w: "unat (word_of_nat (length h + 3 + length s) - word_of_nat (length h + 2) :: u32) = 1 + length s"
  proof -
    have "word_of_nat (length h + 3 + length s) - word_of_nat (length h + 2) = (word_of_nat (1 + length s) :: u32)" by simp
    moreover have "unat (word_of_nat (1 + length s) :: u32) = 1 + length s" using assms(4) by (intro unat_word_of_nat) simp
    ultimately show ?thesis by (simp only:)
  qed
  have l: "GetDocumentLength False another = 1 + length s" using f(3,7) assms(3) w by (simp add: GetDocumentLength_def)
  have b: "GetDocumentBuffer False another = length ?pre" using f(3) assms(3) by (simp add: GetDocumentBuffer_def)
  have k: "skip_while (\<lambda>x. x = 32) ?m (length ?pre) = length ?pre" "rd ?m (length ?pre) = Some 60"
    unfolding m by (subst skip_while.simps, simp_all add: rd_def nth_append)
  have L: "yields (AddXML_loop alloc ?m (length ?pre + (1 + length s)) 0 (length ?pre)) (t, r) (t @ nl ?d @ reindent ?d (60 # s), r)"
    by (rule AddXML_loop_yields [OF assms(1,5) m refl]) simp
  have U: "yields (\<lambda>c. Some (c\<lparr> DepthMax := 1 + length (m_NestLevelTag c) \<rparr>)) (t', r) (t', r\<lparr> DepthMax := 1 + ?d \<rparr>)" for t'
    by (rule yields_update) simp_all
  have "yields (\<lambda>c. do { c \<leftarrow> AddXML_loop alloc ?m (length ?pre + (1 + length s)) 0 (length ?pre) c; Some (c\<lparr> DepthMax := 1 + length (m_NestLevelTag c) \<rparr>) })
      (t, r) (t @ nl ?d @ reindent ?d (60 # s), r\<lparr> DepthMax := 1 + ?d \<rparr>)"
    by (rule yields_bind [OF L U])
  then show ?thesis by (rule yieldsI [rotated]) (simp add: AddXML_def Let_def b l k [simplified])
qed

section \<open>Properties\<close>

text \<open>C14: A composer on which the calls for a list of element trees are made (\<^verbatim>\<open>EnteringNode\<close>, \<^verbatim>\<open>SetAttribute\<close>, \<^verbatim>\<open>EnteringNodeDone\<close>, \<^verbatim>\<open>AddText\<close>, \<^verbatim>\<open>AddCData\<close>, \<^verbatim>\<open>ExitNode\<close>)
  never fails, has closed every element, and holds the XML header and the indented text of the trees, with every special character of texts and values escaped. An element
  without content is written with an opening and a closing tag: the branch of \<^verbatim>\<open>ExitNode\<close> for it is not reached.\<close>

theorem XMLComposer_document:
  assumes "total_alloc alloc"
  shows "\<exists>c. Option.bind (XMLComposer_new alloc junk) (compose_list alloc xs) = Some c \<and> m_NestLevelTag c = [] \<and>
    s_text (m_Output c) = g_XML_Header @ xmls_text 0 xs \<and> GetDocumentLength True c = length g_XML_Header + length (xmls_text 0 xs)"
proof -
  obtain c r where c: "Option.bind (XMLComposer_new alloc junk) (compose_list alloc xs) = Some c" "represents c (g_XML_Header @ xmls_text 0 xs, r)"
      "m_NestLevelTag r = []"
    using composed_represents [OF assms] by blast
  then show ?thesis using represents_fields [OF c(2)] by (intro exI [of _ c]) (simp add: GetDocumentLength_def)
qed

theorem XMLComposer_document_witness:
  "\<exists>c. Option.bind (XMLComposer_new zero_alloc 7) (compose_list zero_alloc [XElem (lit ''a'') [(lit ''k'', Some (lit ''<''))] [XText (lit ''x&y''), XElem (lit ''b'') [] []]]) = Some c \<and>
    s_text (m_Output c) = g_XML_Header @ [13, 10] @ lit ''<a k='' @ [34] @ lit ''&lt;'' @ [34] @ lit ''>x&amp;y'' @ [13, 10] @ lit ''    <b></b>'' @ [13, 10] @ lit ''</a>''"
  using XMLComposer_document [OF total_zero_alloc, of 7 "[XElem (lit ''a'') [(lit ''k'', Some (lit ''<''))] [XText (lit ''x&y''), XElem (lit ''b'') [] []]]"]
  by (auto simp: nl_small open_text_def attribute_text_def plain_text_def escape_xml_def is_element_def simp del: compose_list.simps)

text \<open>C23: \<^verbatim>\<open>AddXML\<close> inserts the trees of another composer as if they had been written here: the text that is appended is the one the calls for these trees would append
  at this depth, with every line indented accordingly, when the document starts with an element or CDATA section and its texts hold no carriage return.\<close>

theorem AddXML_reindents:
  assumes "total_alloc alloc" "String_inv (m_Output c)" "Option.bind (XMLComposer_new alloc junk) (compose_list alloc (x # xs)) = Some another"
    "\<not> (\<exists>s. x = XText s)" "one_line_xmls (x # xs)" "length g_XML_Header + length (xmls_text 0 (x # xs)) < 2 ^ 32"
  shows "\<exists>c'. AddXML alloc another c = Some c' \<and> String_inv (m_Output c') \<and> m_NestLevelTag c' = m_NestLevelTag c \<and>
    s_text (m_Output c') = s_text (m_Output c) @ xmls_text (length (m_NestLevelTag c)) (x # xs)"
proof -
  let ?d = "length (m_NestLevelTag c)"
  obtain r where r: "represents another (g_XML_Header @ xmls_text 0 (x # xs), r)" "m_HeaderLength r = length g_XML_Header"
    using composed_represents [OF assms(1), of junk "x # xs"] assms(3) by auto
  obtain s where s: "xmls_text 0 (x # xs) = 13 # 10 # 60 # s" using xml_text_start [OF assms(4)] by auto
  have "lines_ok (13 # 10 # 60 # s) \<and> reindent ?d (13 # 10 # 60 # s) = xmls_text ?d (x # xs)"
    using reindent_xml(2) [OF assms(5), of ?d 0 "[]"] unfolding s append_Nil2 add_0 lines_ok.simps(1) reindent.simps(1) by blast
  then have l: "lines_ok (60 # s)" "nl ?d @ reindent ?d (60 # s) = xmls_text ?d (x # xs)" by simp_all
  have "length g_XML_Header + 3 + length s < 2 ^ 32" using assms(6) by (simp only: s list.size)
  from AddXML_yields [OF assms(1) r(1) [unfolded s] r(2) this l(1), of "s_text (m_Output c)" c] represents_self [OF assms(2)]
  obtain c' where c': "AddXML alloc another c = Some c'" "represents c' (s_text (m_Output c) @ xmls_text ?d (x # xs), c\<lparr> DepthMax := 1 + ?d \<rparr>)"
    unfolding l(2) yields_def by blast
  then show ?thesis using represents_fields [OF c'(2)] by simp
qed

theorem AddXML_reindents_witness:
  "\<exists>another c'. Option.bind (XMLComposer_new zero_alloc 0) (compose_list zero_alloc [XElem (lit ''a'') [] [XEmpty (lit ''b'') []]]) = Some another \<and>
    AddXML zero_alloc another \<lparr> EnteringNodeTag = None, DepthMax = 1, m_Output = String_new, m_HeaderLength = 0, m_NestLevelTag = [\<lparr> tc_tag = lit ''r'', tc_pos = 0 \<rparr>] \<rparr> = Some c' \<and>
    s_text (m_Output c') = [13, 10] @ lit ''    <a>'' @ [13, 10] @ lit ''        <b />'' @ [13, 10] @ lit ''    </a>''"
proof -
  let ?c = "\<lparr> EnteringNodeTag = None, DepthMax = 1, m_Output = String_new, m_HeaderLength = 0, m_NestLevelTag = [\<lparr> tc_tag = lit ''r'', tc_pos = 0 \<rparr>] \<rparr>"
  let ?x = "XElem (lit ''a'') [] [XEmpty (lit ''b'') []]"
  obtain another where a: "Option.bind (XMLComposer_new zero_alloc 0) (compose_list zero_alloc [?x]) = Some another"
    using composed_represents [OF total_zero_alloc, of 0 "[?x]"] by blast
  have "one_line_xmls [?x]" by (simp add: one_line_attributes_def)
  moreover have "length g_XML_Header + length (xmls_text 0 [?x]) < 2 ^ 32" by (simp add: g_XML_Header_def open_text_def nl_small is_element_def)
  ultimately obtain c' where "AddXML zero_alloc another ?c = Some c'" "s_text (m_Output c') = s_text (m_Output ?c) @ xmls_text (length (m_NestLevelTag ?c)) [?x]"
    using AddXML_reindents [OF total_zero_alloc _ a, of ?c] by auto
  then show ?thesis using a by (intro exI [of _ another] exI [of _ c']) (simp add: open_text_def nl_small is_element_def del: compose_list.simps)
qed

end
