(* ===== verification/XmlParse.thy ===== *)
theory XmlParse
  imports XmlCompose JsonParse
begin

text \<open>
  Scanning XML text in place, \<^verbatim>\<open>core/rt/xml_xhtml.h\<close> and \<^verbatim>\<open>core/rt/xml_xhtml.cpp\<close>: the searches of \<^verbatim>\<open>rt::XMLParser\<close> for tags, the ends of elements and attributes,
  and the conversion of XML text to plain text. The memory of the document is \<open>m\<close>; it ends with a zero, which is where \<^verbatim>\<open>strchr\<close> and \<^verbatim>\<open>strstr\<close> stop. Pointers are indices
  into \<open>m\<close>, a null pointer is \<open>None\<close> inside \<open>Some\<close>, and a read outside of \<open>m\<close> is \<open>None\<close>. A view is a pair of pointers. Errors are values, with the
  position they are reported at.
\<close>

section \<open>Definitions\<close>

(*@ core/rt/xml_xhtml.h 90-117 rt::XMLParseError *)
datatype XMLParseError =
  ERR_XML_OK | ERR_XML_HEADER_BAD_FORMAT | ERR_XML_UNEXPECTED_ENDOFFILE | ERR_XML_SYMBOL_UNEXPECTED | ERR_XML_OUT_OF_MEMORY
  | ERR_ATTRIBUTE_EQUALSIGN_NOT_FOUND | ERR_ATTRIBUTE_NAME_NOT_FOUND | ERR_ATTRIBUTE_QUOTATION_NOT_MATCHED | ERR_NODE_CLOSURE_NOT_MATCHED
  | ERR_TAG_CLOSURE_NOT_MATCHED | ERR_CDATA_CLOSURE_NOT_MATCHED | ERR_COMMENT_CLOSURE_NOT_MATCHED | ERR_PROC_INST_CLOSURE_NOT_MATCHED
  | ERR_TAG_NAME_NOT_FOUND | ERR_XML_DEPTH_EXCEEDED
  | ERR_HTML_COMMENT_CLOSURE_NOT_MATCHED | ERR_HTML_SPECIAL_NODE_UNKNONW | ERR_HTML_TAG_NAME_NOT_FOUND | ERR_HTML_ATTRIBUTE_NAME_NOT_FOUND
  | ERR_HTML_TAG_CLOSURE_NOT_MATCHED | ERR_HTML_QUOTATION_NOT_MATCHED | ERR_HTML_NODE_CLOSURE_NOT_MATCHED | ERR_HTML_UNEXPECTED_SYMBOL
  | ERR_HTML_CSS_OPERATOR_NOT_SUPPORTED

subsection \<open>Characters\<close>

definition strchr_at :: "bytes \<Rightarrow> nat \<Rightarrow> byte \<Rightarrow> nat option option" where
  "strchr_at m p c =
    (let q = skip_while (\<lambda>x. x \<noteq> c \<and> x \<noteq> 0) m p in
     map_option (\<lambda>x. if x = c then Some q else None) (rd m q))"

definition strstr_at :: "bytes \<Rightarrow> nat \<Rightarrow> bytes \<Rightarrow> nat option option" where
  "strstr_at m p x =
    map_option (\<lambda>s. if strstr s x \<ge> 0 then Some (p + nat (strstr s x)) else None) (cstr_at m p)"

(*@ core/rt/xml_xhtml.h 260-260 rt::XMLParser::_seek_tag_open *)
definition seek_tag_open :: "bytes \<Rightarrow> nat \<Rightarrow> nat option option" where
  "seek_tag_open m start = strchr_at m start 60"

(*@ core/rt/xml_xhtml.h 261-261 rt::XMLParser::_seek_tag_close *)
definition seek_tag_close :: "bytes \<Rightarrow> nat \<Rightarrow> nat option option" where
  "seek_tag_close m start = strchr_at m start 62"

definition is_symbol :: "byte \<Rightarrow> bool" where
  "is_symbol c \<longleftrightarrow> (c_int c \<ge> 0x2d \<or> c = 35 \<or> c_int c < 0) \<and> c \<noteq> 47 \<and> c \<noteq> 60 \<and> c \<noteq> 62 \<and> c \<noteq> 61 \<and> c \<noteq> 91 \<and> c \<noteq> 93"

text \<open>A loop \<^verbatim>\<open>for(;P(*p);p++)\<close> over the memory reads the character it stops at.\<close>

definition scan_while :: "(byte \<Rightarrow> bool) \<Rightarrow> bytes \<Rightarrow> nat \<Rightarrow> nat option" where
  "scan_while P m p = (let q = skip_while P m p in if q < length m then Some q else None)"

(*@ core/rt/xml_xhtml.h 264-265 rt::XMLParser::_seek_symbol_end *)
definition seek_symbol_end :: "bytes \<Rightarrow> nat \<Rightarrow> nat option" where
  "seek_symbol_end m start = scan_while is_symbol m start"

(*@ core/rt/xml_xhtml.cpp 11-11 rt::_details::_skip_whitespace *)
definition xml_skip_whitespace :: "bytes \<Rightarrow> nat \<Rightarrow> nat option" where
  "xml_skip_whitespace m start = scan_while (\<lambda>c. c_int c > 0 \<and> c_int c \<le> 32) m start"

subsection \<open>The end of a markup and of an element\<close>

(*@ core/rt/xml_xhtml.cpp 450-460 rt::XMLParser::_search_control_close *)
function search_control_close_loop :: "bytes \<Rightarrow> int \<Rightarrow> nat \<Rightarrow> nat option option" where
  "search_control_close_loop m enclosure start =
    (case rd m start of
       None \<Rightarrow> None
     | Some c \<Rightarrow>
         if c = 0 then Some None
         else if c \<noteq> 60 \<and> c \<noteq> 62 then search_control_close_loop m enclosure (start + 1)
         else if enclosure - (c_int c - 0x3d) = - 1 then Some (Some start)
         else search_control_close_loop m (enclosure - (c_int c - 0x3d)) (start + 1))"
  by pat_completeness auto
termination by (relation "measure (\<lambda>(m, e, p). length m - p)") (auto simp: rd_def split: if_splits)

declare search_control_close_loop.simps [simp del]

(*@ core/rt/xml_xhtml.cpp 447-461 rt::XMLParser::_search_control_close *)
definition search_control_close :: "bytes \<Rightarrow> nat \<Rightarrow> nat option option" where
  "search_control_close m start = search_control_close_loop m 0 start"

text \<open>The markup \<^verbatim>\<open><!--\<close>, \<^verbatim>\<open><?\<close>, \<^verbatim>\<open><![CDATA[\<close> and \<^verbatim>\<open><!\<close>: a code and the pointer to the closing bracket, or an error code and its position.\<close>

definition load_word :: "nat \<Rightarrow> bytes \<Rightarrow> nat \<Rightarrow> u32 option" where
  "load_word n m p = (if p + n \<le> length m then Some (le_load (take n (drop p m))) else None)"

(*@ core/rt/xml_xhtml.cpp 556-561 rt::XMLParser::_search_special_node_close *)
definition search_ending :: "bytes \<Rightarrow> nat \<Rightarrow> nat \<Rightarrow> bytes \<Rightarrow> XMLParseError \<Rightarrow> (XMLParseError \<times> nat) option" where
  "search_ending m start start_pos ending_symbol errnum =
    map_option (\<lambda>r. case r of Some p \<Rightarrow> (ERR_XML_OK, p + length ending_symbol - 1) | None \<Rightarrow> (errnum, start)) (strstr_at m start_pos ending_symbol)"

(*@ core/rt/xml_xhtml.cpp 497-564 rt::XMLParser::_search_special_node_close *)
definition search_special_node_close :: "bytes \<Rightarrow> nat \<Rightarrow> (XMLParseError \<times> nat) option" where
  "search_special_node_close m start =
    do { w \<leftarrow> load_word 4 m start;
         if w = 0x2d2d213c then search_ending m start (start + 4) (lit ''-->'') ERR_COMMENT_CLOSURE_NOT_MATCHED
         else do {
           w \<leftarrow> load_word 2 m start;
           if w = 0x3f3c then search_ending m start (start + 2) (lit ''?>'') ERR_PROC_INST_CLOSURE_NOT_MATCHED
           else do {
             w \<leftarrow> load_word 4 m (start + 1);
             cdata \<leftarrow> (if w = 0x44435b21 then map_option (\<lambda>w. w = 0x5b415441) (load_word 4 m (start + 5)) else Some False);
             if cdata then search_ending m start (start + 9) (lit '']]>'') ERR_CDATA_CLOSURE_NOT_MATCHED
             else do {
               p \<leftarrow> scan_while (\<lambda>c. c \<noteq> 0 \<and> c \<noteq> 62 \<and> c \<noteq> 91 \<and> c \<noteq> 60) m (start + 1);
               if m ! p = 60 then Some (ERR_XML_SYMBOL_UNEXPECTED, p)
               else if m ! p = 0 then Some (ERR_XML_UNEXPECTED_ENDOFFILE, start)
               else if m ! p = 62 then Some (ERR_XML_OK, p)
               else search_ending m start (start + 2) (lit '']>'') ERR_PROC_INST_CLOSURE_NOT_MATCHED } } } }"

lemma scan_while_ge: "scan_while P m p = Some q \<Longrightarrow> p \<le> q \<and> q < length m"
  using skip_while_ge [of p P m] by (auto simp: scan_while_def Let_def split: if_splits)

lemma strchr_at_ge: "strchr_at m p c = Some (Some q) \<Longrightarrow> p \<le> q \<and> q < length m \<and> m ! q = c"
  using skip_while_ge [of p "\<lambda>x. x \<noteq> c \<and> x \<noteq> 0" m] by (auto simp: strchr_at_def Let_def rd_def split: if_splits)

lemma strstr_at_ge: "strstr_at m p x = Some (Some q) \<Longrightarrow> p \<le> q"
  by (auto simp: strstr_at_def split: if_splits)

lemma search_ending_ge: "search_ending m start pos x e = Some (ERR_XML_OK, q) \<Longrightarrow> e \<noteq> ERR_XML_OK \<Longrightarrow> pos + length x \<le> q + 1"
  by (auto simp: search_ending_def dest!: strstr_at_ge split: option.splits)

lemma search_special_gt: "search_special_node_close m start = Some (ERR_XML_OK, q) \<Longrightarrow> start < q"
  unfolding search_special_node_close_def
  by (auto dest!: search_ending_ge scan_while_ge split: Option.bind_splits if_splits)

text \<open>The closing tag that matches: the result is the code and the pointer, and for a closing tag the pointer to its first character (\<^verbatim>\<open>pInnerXML_End\<close>).
  The name is compared over its own length only.\<close>

text \<open>One markup of the search: it ends, or goes on behind the markup with a new depth.\<close>

datatype close_step = Closed XMLParseError nat "nat option" | Inside int nat

(*@ core/rt/xml_xhtml.cpp 792-821 rt::XMLParser::_search_node_close *)
definition close_tag_step :: "bytes \<Rightarrow> bytes \<Rightarrow> int \<Rightarrow> nat \<Rightarrow> close_step option" where
  "close_tag_step m tag_name enclosure start =
    do { pend \<leftarrow> seek_tag_close m (start + 1);
         case pend of
           None \<Rightarrow> Some (Closed ERR_TAG_CLOSURE_NOT_MATCHED start None)
         | Some pend \<Rightarrow>
             if m ! (start + 1) = 47 then
               (if m ! (pend - 1) = 47 then Some (Closed ERR_XML_SYMBOL_UNEXPECTED (pend - 1) None)
                else if enclosure - 1 = - 1 then
                  (if length m < start + 2 + length tag_name then None
                   else if memcmp tag_name (take (length tag_name) (drop (start + 2) m)) = 0 then Some (Closed ERR_XML_OK pend (Some start))
                   else Some (Inside (enclosure - 1) (pend + 1)))
                else Some (Inside (enclosure - 1) (pend + 1)))
             else Some (Inside (if m ! (pend - 1) \<noteq> 47 then enclosure + 1 else enclosure) (pend + 1)) }"

(*@ core/rt/xml_xhtml.cpp 790-831 rt::XMLParser::_search_node_close *)
definition search_node_step :: "bytes \<Rightarrow> bytes \<Rightarrow> nat \<Rightarrow> int \<Rightarrow> nat \<Rightarrow> close_step option" where
  "search_node_step m tag_name start_inner enclosure start =
    do { lt \<leftarrow> seek_tag_open m start;
         case lt of
           None \<Rightarrow> Some (Closed ERR_XML_UNEXPECTED_ENDOFFILE start_inner None)
         | Some lt \<Rightarrow>
             do { c \<leftarrow> rd m (lt + 1);
                  if c \<noteq> 33 \<and> c \<noteq> 63 then close_tag_step m tag_name enclosure lt
                  else do { (err, p) \<leftarrow> search_special_node_close m lt;
                            Some (if err \<noteq> ERR_XML_OK then Closed err p None else Inside enclosure (p + 1)) } } }"

lemma close_tag_step_gt:
  "close_tag_step m tag e start = Some (Inside e' q) \<Longrightarrow> start < q"
  "close_tag_step m tag e start = Some (Closed ERR_XML_OK q x) \<Longrightarrow> start \<le> q"
  unfolding close_tag_step_def seek_tag_close_def
  by (auto simp: Let_def dest!: strchr_at_ge split: Option.bind_splits option.splits if_splits)

lemma search_node_step_gt:
  "search_node_step m tag i e start = Some (Inside e' q) \<Longrightarrow> start < q \<and> start < length m"
  "search_node_step m tag i e start = Some (Closed ERR_XML_OK q x) \<Longrightarrow> start \<le> q"
  unfolding search_node_step_def seek_tag_open_def
  by (auto dest!: strchr_at_ge close_tag_step_gt search_special_gt split: Option.bind_splits option.splits if_splits)

(*@ core/rt/xml_xhtml.cpp 790-831 rt::XMLParser::_search_node_close *)
function search_node_close_loop :: "bytes \<Rightarrow> bytes \<Rightarrow> nat \<Rightarrow> int \<Rightarrow> nat \<Rightarrow> (XMLParseError \<times> nat \<times> nat option) option" where
  "search_node_close_loop m tag_name start_inner enclosure start =
    (case search_node_step m tag_name start_inner enclosure start of
       None \<Rightarrow> None
     | Some (Closed err p inner_end) \<Rightarrow> Some (err, p, inner_end)
     | Some (Inside enclosure p) \<Rightarrow> search_node_close_loop m tag_name start_inner enclosure p)"
  by pat_completeness auto
termination by (relation "measure (\<lambda>(m, t, i, e, p). length m - p)") (auto dest!: search_node_step_gt)

declare search_node_close_loop.simps [simp del]

(*@ core/rt/xml_xhtml.cpp 785-832 rt::XMLParser::_search_node_close *)
definition search_node_close :: "bytes \<Rightarrow> nat \<Rightarrow> bytes \<Rightarrow> (XMLParseError \<times> nat \<times> nat option) option" where
  "search_node_close m start_inner tag_name = search_node_close_loop m tag_name start_inner 0 start_inner"

subsection \<open>Attributes\<close>

text \<open>The next attribute behind \<open>start\<close>: where parsing stopped, the name and the value (without quotes), and the last error that was set. When a quotation is not closed
  or no quote stands before the next \<^verbatim>\<open>>\<close>, the outer loop goes on with the character behind.\<close>

type_synonym syntax_error = "(XMLParseError \<times> nat) option"

text \<open>One attribute at \<open>start\<close>: it is found, or the search stops, or it goes on.\<close>

datatype attrib_step = Fail syntax_error | Found nat "nat \<times> nat" "nat \<times> nat" | Again nat syntax_error

(*@ core/rt/xml_xhtml.cpp 840-876 rt::XMLParser::_seek_next_attrib *)
definition read_attrib :: "bytes \<Rightarrow> nat \<Rightarrow> syntax_error \<Rightarrow> attrib_step option" where
  "read_attrib m start err =
    do { name_end \<leftarrow> seek_symbol_end m start;
         if name_end = start then Some (Fail (Some (ERR_ATTRIBUTE_NAME_NOT_FOUND, start)))
         else do {
           p \<leftarrow> strchr_at m name_end 61;
           case p of
             None \<Rightarrow> Some (Fail (Some (ERR_ATTRIBUTE_EQUALSIGN_NOT_FOUND, name_end)))
           | Some p \<Rightarrow>
               do { q \<leftarrow> scan_while (\<lambda>c. c \<noteq> 0 \<and> c \<noteq> 62 \<and> c \<noteq> 34 \<and> c \<noteq> 39) m (p + 1);
                    if m ! q = 34 \<or> m ! q = 39 then
                      do { r \<leftarrow> strchr_at m (q + 1) (m ! q);
                           Some (case r of
                               None \<Rightarrow> Again (q + 1) (Some (ERR_ATTRIBUTE_QUOTATION_NOT_MATCHED, q))
                             | Some r \<Rightarrow> Found (r + 1) (start, name_end) (q + 1, r)) }
                    else Some (Again (q + 1) err) } } }"

lemma read_attrib_gt:
  "read_attrib m start err = Some (Again q e) \<Longrightarrow> start < q"
  "read_attrib m start err = Some (Found q n v) \<Longrightarrow> start < q"
  unfolding read_attrib_def seek_symbol_end_def
  by (auto dest!: strchr_at_ge scan_while_ge split: Option.bind_splits if_splits option.splits)

(*@ core/rt/xml_xhtml.cpp 836-878 rt::XMLParser::_seek_next_attrib *)
function seek_next_attrib_loop :: "bytes \<Rightarrow> nat \<Rightarrow> syntax_error \<Rightarrow> ((nat \<times> (nat \<times> nat) \<times> (nat \<times> nat)) option \<times> syntax_error) option" where
  "seek_next_attrib_loop m start err =
    (case rd m start of
       None \<Rightarrow> None
     | Some c \<Rightarrow>
         if c = 0 \<or> c = 62 then Some (None, err)
         else if c = 47 \<and> rd m (start + 1) = None then None
         else if c = 47 \<and> rd m (start + 1) = Some 62 then Some (None, err)
         else if start = 0 then None
         else if c_int (m ! (start - 1)) < 0x2d \<and> (c_int c \<ge> 0x2d \<or> c_int c < 0) then
           (case read_attrib m start err of
              None \<Rightarrow> None
            | Some (Fail e) \<Rightarrow> Some (None, e)
            | Some (Found q name val) \<Rightarrow> Some (Some (q, name, val), err)
            | Some (Again q e) \<Rightarrow> seek_next_attrib_loop m q e)
         else seek_next_attrib_loop m (start + 1) err)"
  by pat_completeness auto
termination
  by (relation "measure (\<lambda>(m, p, e). length m - p)") (auto simp: rd_def dest!: read_attrib_gt split: if_splits)

declare seek_next_attrib_loop.simps [simp del]

(*@ core/rt/xml_xhtml.cpp 834-883 rt::XMLParser::_seek_next_attrib *)
definition seek_next_attrib :: "bytes \<Rightarrow> nat \<Rightarrow> ((nat \<times> (nat \<times> nat) \<times> (nat \<times> nat)) option \<times> syntax_error) option" where
  "seek_next_attrib m start = seek_next_attrib_loop m start None"

lemma seek_next_attrib_loop_gt:
  "seek_next_attrib_loop m start err = Some (Some (q, n, v), err') \<Longrightarrow> start < q \<and> start < length m"
proof (induction m start err rule: seek_next_attrib_loop.induct)
  case (1 m start err)
  from "1.prems" obtain c where c: "rd m start = Some c" by (subst (asm) seek_next_attrib_loop.simps) (auto split: option.splits)
  then have l: "start < length m" by (simp add: rd_def split: if_splits)
  show ?case
  proof (cases "c_int (m ! (start - 1)) < 0x2d \<and> (c_int c \<ge> 0x2d \<or> c_int c < 0)")
    case False
    then show ?thesis using "1.prems" "1.IH"(2) [OF c] c l by (subst (asm) seek_next_attrib_loop.simps) (auto split: if_splits)
  next
    case True
    then have "\<not> (c = 0 \<or> c = 62)" "\<not> (c = 47 \<and> rd m (start + 1) = None)" "\<not> (c = 47 \<and> rd m (start + 1) = Some 62)" "start \<noteq> 0"
      using "1.prems" c by (auto simp: seek_next_attrib_loop.simps [of m start] split: if_splits)
    moreover obtain st where st: "read_attrib m start err = Some st"
      using "1.prems" c calculation True by (cases "read_attrib m start err") (auto simp: seek_next_attrib_loop.simps [of m start])
    ultimately show ?thesis using "1.prems" "1.IH"(1) [OF c _ _ _ _ True, of st] read_attrib_gt [of m start err] c l True
      by (cases st) (auto simp: seek_next_attrib_loop.simps [of m start])
  qed
qed

(*@ core/rt/xml_xhtml.cpp 889-893 rt::XMLParser::_search_attrib *)
function search_attrib_loop :: "bytes \<Rightarrow> bytes \<Rightarrow> nat \<Rightarrow> syntax_error \<Rightarrow> ((nat \<times> nat) option \<times> syntax_error) option" where
  "search_attrib_loop m attrib_name start err =
    (case seek_next_attrib_loop m start err of
       None \<Rightarrow> None
     | Some (None, err) \<Rightarrow> Some (None, err)
     | Some (Some (q, name, val), err) \<Rightarrow>
         if Str_equal (view m name) attrib_name then Some (Some val, err)
         else search_attrib_loop m attrib_name q err)"
  by pat_completeness auto
termination
  by (relation "measure (\<lambda>(m, n, p, e). length m - p)") (auto dest!: seek_next_attrib_loop_gt)

declare search_attrib_loop.simps [simp del]

(*@ core/rt/xml_xhtml.cpp 885-897 rt::XMLParser::_search_attrib *)
definition search_attrib :: "bytes \<Rightarrow> nat \<Rightarrow> bytes \<Rightarrow> ((nat \<times> nat) option \<times> syntax_error) option" where
  "search_attrib m start attrib_name = search_attrib_loop m attrib_name start None"

subsection \<open>From XML to plain text\<close>

text \<open>The characters of the view from \<open>p\<close> to \<open>pend\<close> are written into \<open>t\<close> at \<open>d\<close>. A character above \<^verbatim>\<open>' '\<close> is copied, a space when no space or separator was written
  before it, everything else, the bytes above 127 included, is dropped. \<^verbatim>\<open>d[-1]\<close> at the beginning of the text is outside: \<open>None\<close>.\<close>

definition rd_behind :: "bytes \<Rightarrow> nat \<Rightarrow> byte option" where
  "rd_behind t d = (if d = 0 then None else rd t (d - 1))"

(*@ core/rt/xml_xhtml.cpp 581-588 rt::XMLParser::_convert_xml_to_text *)
function copy_plain :: "bytes \<Rightarrow> nat \<Rightarrow> bool \<Rightarrow> byte \<Rightarrow> nat \<Rightarrow> bytes \<Rightarrow> nat \<Rightarrow> (nat \<times> bytes \<times> nat) option" where
  "copy_plain m pend trim sep s t d =
    (if s < pend then
       (case rd m s of
          None \<Rightarrow> None
        | Some c \<Rightarrow>
            if c = 38 \<or> trim \<and> c = 60 then Some (s, t, d)
            else if c_int c > 32 then
              (case put d [c] t of None \<Rightarrow> None | Some t \<Rightarrow> copy_plain m pend trim sep (s + 1) t (d + 1))
            else if c = 32 then
              (case rd_behind t d of
                 None \<Rightarrow> None
               | Some b \<Rightarrow>
                   if b \<noteq> 32 \<and> b \<noteq> sep then
                     (case put d [c] t of None \<Rightarrow> None | Some t \<Rightarrow> copy_plain m pend trim sep (s + 1) t (d + 1))
                   else copy_plain m pend trim sep (s + 1) t d)
            else copy_plain m pend trim sep (s + 1) t d)
     else Some (s, t, d))"
  by pat_completeness auto
termination by (relation "measure (\<lambda>(m, e, x, y, s, t, d). e - s)") auto

declare copy_plain.simps [simp del]

text \<open>A numeric reference at \<open>s\<close>. A value beyond \<^verbatim>\<open>int\<close> is undefined. Only the two-byte case moves \<open>d\<close>.\<close>

definition is_decimal :: "byte \<Rightarrow> bool" where
  "is_decimal c \<longleftrightarrow> 48 \<le> c_int c \<and> c_int c \<le> 57"

(*@ core/rt/xml_xhtml.cpp 597-616 rt::XMLParser::_convert_xml_to_text *)
definition numeric_reference :: "bytes \<Rightarrow> nat \<Rightarrow> bytes \<Rightarrow> nat \<Rightarrow> (nat \<times> bytes \<times> nat) option" where
  "numeric_reference m s t d =
    do { e \<leftarrow> scan_while is_decimal m (s + 2);
         let a = foldl (\<lambda>a c. a * 10 + (c_int c - 48)) 0 (view m (s + 2, e));
         if a \<ge> 2 ^ 31 then None
         else do {
           let s = (if m ! e = 59 then e + 1 else e);
           let w = (word_of_int a :: u32);
           if a \<le> 0x7f then do { t \<leftarrow> put d [word_of_int a] t; Some (s, t, d) }
           else if a > 0x7ff then
             do { t \<leftarrow> put d (le_store 4 (0x8080e0 OR (drop_bit 12 w AND 0xf) OR (push_bit 2 w AND 0x3f00) OR push_bit 16 (0x3f AND w))) t;
                  Some (s, t, d) }
           else
             do { t \<leftarrow> put d (le_store 2 (0x80c0 OR (drop_bit 6 w AND 0x1f) OR push_bit 8 (0x3f AND w))) t;
                  Some (s, t, d + 2) } } }"

(*@ core/rt/xml_xhtml.cpp 626-634 rt::XMLParser::_convert_xml_to_text *)
definition entity :: "u32 \<Rightarrow> byte \<times> nat" where
  "entity w =
    (if w = 0x3b746c26 then (60, 4)
     else if w = 0x706d6126 then (38, 5)
     else if w = 0x3b746726 then (62, 4)
     else if w = 0x6f757126 then (34, 6)
     else if w = 0x6f706126 then (39, 6)
     else (38, 1))"

(*@ core/rt/xml_xhtml.cpp 592-636 rt::XMLParser::_convert_xml_to_text *)
definition reference :: "bytes \<Rightarrow> nat \<Rightarrow> bytes \<Rightarrow> nat \<Rightarrow> (nat \<times> bytes \<times> nat) option" where
  "reference m s t d =
    do { c \<leftarrow> rd m (s + 1);
         if c = 35 then
           do { c \<leftarrow> rd m (s + 2);
                if is_decimal c then numeric_reference m s t d
                else do { t \<leftarrow> put d [38, 35] t; Some (s + 2, t, d + 2) } }
         else
           do { w \<leftarrow> load_word 4 m s;
                t \<leftarrow> put d [fst (entity w)] t;
                Some (s + snd (entity w), t, d + 1) } }"

(*@ core/rt/xml_xhtml.cpp 639-639 rt::XMLParser::_convert_xml_to_text *)
fun drop_spaces :: "bytes \<Rightarrow> nat \<Rightarrow> nat option" where
  "drop_spaces t 0 = None"
| "drop_spaces t (Suc d) = (case rd t d of None \<Rightarrow> None | Some c \<Rightarrow> if c = 32 then drop_spaces t d else Some (Suc d))"

definition is_break_tag :: "bytes \<Rightarrow> nat \<Rightarrow> bool" where
  "is_break_tag m s \<longleftrightarrow>
    (m ! (s + 1) = 98 \<or> m ! (s + 1) = 66) \<and> (m ! (s + 2) = 114 \<or> m ! (s + 2) = 82) \<and> c_int (m ! (s + 3)) < 64 \<or>
    (m ! (s + 1) = 112 \<or> m ! (s + 1) = 80) \<and> c_int (m ! (s + 2)) < 64"

text \<open>A tag at \<open>s\<close>: \<open>None\<close> inside \<open>Some\<close> ends the conversion.\<close>

(*@ core/rt/xml_xhtml.cpp 638-667 rt::XMLParser::_convert_xml_to_text *)
definition convert_tag :: "bytes \<Rightarrow> bool \<Rightarrow> byte \<Rightarrow> nat \<Rightarrow> bytes \<Rightarrow> nat \<Rightarrow> (nat option \<times> bytes \<times> nat) option" where
  "convert_tag m TrimSubnodes sep s t d =
    do { d \<leftarrow> drop_spaces t d;
         close \<leftarrow> seek_tag_close m (s + 1);
         case close of
           None \<Rightarrow> Some (None, t, d)
         | Some close \<Rightarrow>
             do { (t, d) \<leftarrow>
                    (if is_break_tag m s then map_option (\<lambda>t. (t, d + 2)) (put d [13, 10] t)
                     else if t ! (d - 1) \<noteq> sep then map_option (\<lambda>t. (t, d + 1)) (put d [sep] t)
                     else Some (t, d));
                  if TrimSubnodes \<and> m ! (close - 1) \<noteq> 47 then
                    do { tag_end \<leftarrow> seek_symbol_end m (s + 1);
                         (err, close_tag, _) \<leftarrow> search_node_close m close (view m (s + 1, tag_end));
                         Some (Some (if err = ERR_XML_OK then close_tag + 1 else close + 1), t, d) }
                  else Some (Some (close + 1), t, d) } }"

(*@ core/rt/xml_xhtml.cpp 577-672 rt::XMLParser::_convert_xml_to_text *)
definition convert_step :: "bytes \<Rightarrow> nat \<Rightarrow> bool \<Rightarrow> bool \<Rightarrow> byte \<Rightarrow> nat \<Rightarrow> bytes \<Rightarrow> nat \<Rightarrow> (nat option \<times> bytes \<times> nat) option" where
  "convert_step m pend TrimXMLCode TrimSubnodes sep p t d =
    do { (s, t, d) \<leftarrow> copy_plain m pend TrimXMLCode sep p t d;
         if s = pend then Some (None, t, d)
         else if m ! s = 38 then do { (s, t, d) \<leftarrow> reference m s t d; Some (Some s, t, d) }
         else convert_tag m TrimSubnodes sep s t d }"

lemma search_node_close_loop_ge: "search_node_close_loop m tag i e start = Some (ERR_XML_OK, q, x) \<Longrightarrow> start \<le> q"
proof (induction m tag i e start rule: search_node_close_loop.induct)
  case (1 m tag i e start)
  then obtain st where st: "search_node_step m tag i e start = Some st"
    by (cases "search_node_step m tag i e start") (simp_all add: search_node_close_loop.simps [of m tag i e start])
  show ?case
  proof (cases st)
    case (Closed e' q' x')
    then show ?thesis using st "1.prems" search_node_step_gt(2) [of m tag i e start q' x'] by (simp add: search_node_close_loop.simps [of m tag i e start])
  next
    case (Inside e' q')
    then show ?thesis using st "1.prems" "1.IH" [OF st Inside] search_node_step_gt(1) [of m tag i e start e' q']
      by (simp add: search_node_close_loop.simps [of m tag i e start])
  qed
qed

lemma copy_plain_ge: "copy_plain m pend trim sep s t d = Some (s', t', d') \<Longrightarrow> s \<le> pend \<Longrightarrow> s \<le> s' \<and> s' \<le> pend \<and> (s' < pend \<longrightarrow> s' < length m \<and> (m ! s' = 38 \<or> m ! s' = 60))"
proof (induction m pend trim sep s t d rule: copy_plain.induct)
  case (1 m pend trim sep s t d)
  then show ?case
    by (subst (asm) (5) copy_plain.simps) (auto simp: rd_def Suc_le_eq intro: less_imp_le split: if_splits option.splits)
qed

lemma numeric_reference_gt: "numeric_reference m s t d = Some (s', t', d') \<Longrightarrow> s < s'"
proof -
  assume a: "numeric_reference m s t d = Some (s', t', d')"
  then obtain e where e: "scan_while is_decimal m (s + 2) = Some e" by (auto simp: numeric_reference_def split: Option.bind_splits)
  have "s' = (if m ! e = 59 then e + 1 else e)"
    using a e by (simp add: numeric_reference_def Let_def del: le_store.simps put_def split: Option.bind_split_asm if_split_asm)
  then show ?thesis using scan_while_ge [OF e] by (simp split: if_splits)
qed

lemma entity_gt: "0 < snd (entity w)"
  by (simp add: entity_def)

lemma reference_gt: "reference m s t d = Some (s', t', d') \<Longrightarrow> s < s'"
  using entity_gt unfolding reference_def by (auto dest: numeric_reference_gt split: Option.bind_splits if_splits)

lemma convert_tag_gt: "convert_tag m sub sep s t d = Some (Some s', t', d') \<Longrightarrow> s < s'"
  unfolding convert_tag_def seek_tag_close_def search_node_close_def
  by (auto dest!: strchr_at_ge search_node_close_loop_ge split: Option.bind_splits if_splits option.splits)

lemma convert_step_gt: "convert_step m pend trim sub sep p t d = Some (Some p', t', d') \<Longrightarrow> p \<le> pend \<Longrightarrow> p < p'"
  unfolding convert_step_def
  by (auto dest!: copy_plain_ge convert_tag_gt reference_gt split: Option.bind_splits if_splits)

(*@ core/rt/xml_xhtml.cpp 577-672 rt::XMLParser::_convert_xml_to_text *)
function convert_loop :: "bytes \<Rightarrow> nat \<Rightarrow> bool \<Rightarrow> bool \<Rightarrow> byte \<Rightarrow> nat \<Rightarrow> bytes \<Rightarrow> nat \<Rightarrow> (bytes \<times> nat) option" where
  "convert_loop m pend TrimXMLCode TrimSubnodes sep p t d =
    (if p < pend then
       (case convert_step m pend TrimXMLCode TrimSubnodes sep p t d of
          None \<Rightarrow> None
        | Some (None, t, d) \<Rightarrow> Some (t, d)
        | Some (Some p, t, d) \<Rightarrow> convert_loop m pend TrimXMLCode TrimSubnodes sep p t d)
     else Some (t, d))"
  by pat_completeness auto
termination by (relation "measure (\<lambda>(m, e, x, y, z, p, t, d). e - p)") (auto dest!: convert_step_gt)

declare convert_loop.simps [simp del]

(*@ core/rt/xml_xhtml.cpp 566-678 rt::XMLParser::_convert_xml_to_text *)
definition convert_xml_to_text :: "allocator \<Rightarrow> bytes \<Rightarrow> nat \<times> nat \<Rightarrow> bool \<Rightarrow> bool \<Rightarrow> byte \<Rightarrow> String \<Rightarrow> String option" where
  "convert_xml_to_text alloc m str TrimXMLCode TrimSubnodes sep text =
    do { let TrimXMLCode = (TrimXMLCode \<or> TrimSubnodes);
         (_, text) \<leftarrow> String_SetLength alloc (snd str - fst str) text;
         if snd str = fst str then Some text
         else do {
           (t, d) \<leftarrow> convert_loop m (snd str) TrimXMLCode TrimSubnodes sep (fst str) (s_p text) 0;
           (_, text) \<leftarrow> String_SetLength alloc d (text\<lparr> s_p := t \<rparr>);
           if TrimXMLCode then String_assign alloc (TrimSpace (s_text text)) text else Some text } }"

section \<open>Plain text and back\<close>

text \<open>A text that survives: characters above the space, and single spaces behind one of them.\<close>

fun spaced :: "byte option \<Rightarrow> bytes \<Rightarrow> bool" where
  "spaced b [] \<longleftrightarrow> True"
| "spaced b (c # s) \<longleftrightarrow> (c_int c > 32 \<or> c = 32 \<and> b \<noteq> None \<and> b \<noteq> Some 32) \<and> spaced (Some c) s"

lemma load_word_text: "text_at m e p x \<Longrightarrow> n \<le> length x \<Longrightarrow> load_word n m p = Some (le_load (take n x))"
proof -
  assume t: "text_at m e p x" and n: "n \<le> length x"
  have "take n (drop p m) = take n x"
    using text_at_nth [OF t] text_at_bound [OF t] n by (intro nth_equalityI) auto
  then show ?thesis using text_at_bound [OF t] n by (simp add: load_word_def)
qed

lemma reference_text:
  assumes "text_at m e p (escape_xml c)" "c \<in> {60, 38, 62, 34, 39}" "d < length t"
  shows "reference m p t d = Some (p + length (escape_xml c), t[d := c], d + 1)"
proof -
  have l: "4 \<le> length (escape_xml c)" using assms(2) by (auto simp: escape_xml_def)
  have w: "load_word 4 m p = Some (le_load (take 4 (escape_xml c)))" using load_word_text [OF assms(1) l] .
  have e: "entity (le_load (take 4 (escape_xml c))) = (c, length (escape_xml c))" using assms(2) by (auto simp: escape_xml_def entity_def)
  have "rd m (p + 1) = Some (escape_xml c ! 1)"
    using text_at_nth [OF assms(1), of 1] text_at_bound [OF assms(1)] l by (simp add: rd_def)
  moreover have "escape_xml c ! 1 \<noteq> 35" using assms(2) by (auto simp: escape_xml_def)
  moreover have "put d [c] t = Some (t[d := c])" using assms(3) by (simp add: put_Some write_at_single)
  ultimately show ?thesis using w e by (simp add: reference_def)
qed

text \<open>The conversion character by character.\<close>

lemma convert_loop_char:
  assumes "p < pend" "rd m p = Some c" "c \<noteq> 38" "c \<noteq> 60 \<or> \<not> trim" "d < length t"
    "c_int c > 32 \<or> c = 32 \<and> 0 < d \<and> t ! (d - 1) \<noteq> 32 \<and> t ! (d - 1) \<noteq> sep"
  shows "convert_loop m pend trim sub sep p t d = convert_loop m pend trim sub sep (p + 1) (t[d := c]) (d + 1)"
proof -
  have "put d [c] t = Some (t[d := c])" using assms(5) by (simp add: put_Some write_at_single)
  then have c: "copy_plain m pend trim sep p t d = copy_plain m pend trim sep (p + 1) (t[d := c]) (d + 1)"
    using assms by (subst copy_plain.simps) (auto simp: rd_behind_def rd_def split: if_splits)
  show ?thesis
  proof (cases "p + 1 < pend")
    case True
    then show ?thesis using c assms(1) by (simp add: convert_loop.simps [of m pend trim sub sep p] convert_loop.simps [of m pend trim sub sep "Suc p"] convert_step_def)
  next
    case False
    then have "copy_plain m pend trim sep (p + 1) (t[d := c]) (d + 1) = Some (pend, t[d := c], d + 1)"
      using assms(1) by (subst copy_plain.simps) simp
    then show ?thesis using c assms(1) False
      by (simp add: convert_loop.simps [of m pend trim sub sep p] convert_loop.simps [of m pend trim sub sep "Suc p"] convert_step_def)
  qed
qed

lemma convert_loop_reference:
  assumes "p < pend" "rd m p = Some 38" "reference m p t d = Some (s, t', d')"
  shows "convert_loop m pend trim sub sep p t d = convert_loop m pend trim sub sep s t' d'"
proof -
  have "copy_plain m pend trim sep p t d = Some (p, t, d)" using assms by (subst copy_plain.simps) simp
  moreover have "m ! p = 38" using assms(2) by (auto simp: rd_def split: if_splits)
  ultimately show ?thesis using assms by (subst convert_loop.simps) (simp add: convert_step_def)
qed

lemma convert_loop_plain:
  assumes "text_at m e p (plain_text v)" "pend = p + length (plain_text v)" "d + length v \<le> length t"
    "spaced (if d = 0 then None else Some (t ! (d - 1))) v" "sep = 32 \<or> sep \<notin> set v \<and> (d = 0 \<or> t ! (d - 1) \<noteq> sep)"
  shows "convert_loop m pend trim sub sep p t d = Some (write_at d v t, d + length v)"
  using assms
proof (induction v arbitrary: p t d)
  case Nil
  then show ?case by (subst convert_loop.simps) (simp add: plain_text_def)
next
  case (Cons c v)
  have tx: "text_at m e p (escape_xml c)" "text_at m e (p + length (escape_xml c)) (plain_text v)"
    "pend = p + length (escape_xml c) + length (plain_text v)" using Cons.prems(1,2) by (simp_all add: plain_text_def)
  have d: "d < length t" "t[d := c] ! d = c" using Cons.prems(3) by simp_all
  have l: "0 < length (escape_xml c)" by (simp add: escape_xml_def)
  have step: "convert_loop m pend trim sub sep p t d = convert_loop m pend trim sub sep (p + length (escape_xml c)) (t[d := c]) (d + 1)"
  proof (cases "c \<in> {60, 38, 62, 34, 39}")
    case True
    then have "escape_xml c ! 0 = 38" by (auto simp: escape_xml_def)
    then have "rd m p = Some 38" using text_at_rd [of m e p 38 "tl (escape_xml c)"] tx(1) l by (cases "escape_xml c") auto
    then show ?thesis using convert_loop_reference [OF _ _ reference_text [OF tx(1) True d(1)]] tx(3) l by simp
  next
    case False
    then have e: "escape_xml c = [c]" by (auto simp: escape_xml_def)
    then have "rd m p = Some c" using tx(1) by (auto simp: rd_def)
    moreover have "c_int c > 32 \<or> c = 32 \<and> 0 < d \<and> t ! (d - 1) \<noteq> 32 \<and> t ! (d - 1) \<noteq> sep"
      using Cons.prems(4,5) by (auto split: if_splits)
    ultimately show ?thesis using convert_loop_char [of p pend m c trim d t sep sub] d(1) False tx(3) e by simp
  qed
  have "write_at (d + 1) v (t[d := c]) = write_at d (c # v) t"
    using write_at_append [of d "[c]" v t "d + 1"] Cons.prems(3) d(1) by (simp add: write_at_single)
  moreover have "convert_loop m pend trim sub sep (p + length (escape_xml c)) (t[d := c]) (d + 1) = Some (write_at (d + 1) v (t[d := c]), d + 1 + length v)"
    using Cons.prems d by (intro Cons.IH [OF tx(2,3)]) auto
  ultimately show ?case using step by simp
qed

lemma length_plain_text: "length v \<le> length (plain_text v)"
  by (induction v) (auto simp: plain_text_def escape_xml_def)

lemma convert_plain:
  assumes "total_alloc alloc" "String_inv text" "text_at m e p (plain_text v)" "spaced None v"
  shows "\<exists>S. convert_xml_to_text alloc m (p, p + length (plain_text v)) False False 32 text = Some S \<and> String_inv S \<and> s_text S = v"
proof -
  define n where "n = length (plain_text v)"
  have v: "length v \<le> n" by (simp add: n_def length_plain_text)
  obtain S1 where S1: "String_SetLength alloc n text = Some (True, S1)" "String_inv S1" "s_GetLength S1 = n"
    by (rule String_SetLength_total [OF assms(1,2)])
  show ?thesis
  proof (cases "v = []")
    case True
    then have "s_text S1 = []" using S1(3) by (simp add: s_text_def n_def plain_text_def)
    then show ?thesis using S1 True by (simp add: convert_xml_to_text_def n_def [symmetric]) (simp add: n_def plain_text_def)
  next
    case False
    then have n: "0 < n" using v by (cases v) auto
    have l: "length v \<le> length (s_p S1)" using S1(2,3) v by (auto simp: String_inv_def s_GetLength_def split: if_splits)
    have c: "convert_loop m (p + n) False False 32 p (s_p S1) 0 = Some (write_at 0 v (s_p S1), length v)"
      using convert_loop_plain [OF assms(3), of "p + n" 0 "s_p S1" 32 False False] assms(4) l by (simp add: n_def)
    define S2 where "S2 = S1\<lparr> s_p := write_at 0 v (s_p S1) \<rparr>"
    obtain S2' where "s_put 0 v S1 = Some S2'" "String_inv S2'" "s_text S2' = write_at 0 v (s_text S1)" "s_len S2' = s_len S1"
      using s_put_text [OF S1(2), of 0 v] v S1(3) by auto
    then have S2: "String_inv S2" "s_text S2 = write_at 0 v (s_text S1)" "s_GetLength S2 = n"
      using l S1(3) by (auto simp: S2_def s_put_def put_Some s_GetLength_def)
    obtain S3 where S3: "String_SetLength alloc (length v) S2 = Some (True, S3)" "String_inv S3" "s_GetLength S3 = length v"
        "take (min (length v) (s_GetLength S2)) (s_text S3) = take (min (length v) (s_GetLength S2)) (s_text S2)"
      by (rule String_SetLength_total [OF assms(1) S2(1)])
    have "s_text S3 = v" using S3(3,4) v length_s_text [OF S3(2)] by (simp add: S2(2,3) write_at_def)
    then show ?thesis using S1 S3 c n by (simp add: convert_xml_to_text_def n_def [symmetric] S2_def)
  qed
qed

section \<open>Tags and elements\<close>

lemma text_at_mono: "text_at m e p x \<Longrightarrow> text_at m (length m) p x"
  by (induction x arbitrary: p) (fastforce dest: text_at_bound)+

lemma skip_while_text: "text_at m e p (x @ c # y) \<Longrightarrow> \<forall>d\<in>set x. P d \<Longrightarrow> \<not> P c \<Longrightarrow> skip_while P m p = p + length x"
  using skip_text [of m "length m" p x c y P] text_at_mono [of m e p "x @ c # y"] by simp

lemma text_at_end: "text_at m e p (x @ c # y) \<Longrightarrow> p + length x < length m \<and> m ! (p + length x) = c"
  using text_at_nth [of m e p "x @ c # y" "length x"] text_at_bound [of m e p "x @ c # y"] by simp

lemma strchr_text: "text_at m e p (x @ c # y) \<Longrightarrow> \<forall>d\<in>set x. d \<noteq> c \<and> d \<noteq> 0 \<Longrightarrow> strchr_at m p c = Some (Some (p + length x))"
proof -
  assume t: "text_at m e p (x @ c # y)" and x: "\<forall>d\<in>set x. d \<noteq> c \<and> d \<noteq> 0"
  have "skip_while (\<lambda>d. d \<noteq> c \<and> d \<noteq> 0) m p = p + length x" by (rule skip_while_text [OF t x]) simp
  moreover have "rd m (p + length x) = Some c" using text_at_end [OF t] by (auto simp: rd_def)
  ultimately show ?thesis by (simp add: strchr_at_def)
qed

lemma scan_text_end: "text_at m e p (x @ c # y) \<Longrightarrow> \<forall>d\<in>set x. P d \<Longrightarrow> \<not> P c \<Longrightarrow> scan_while P m p = Some (p + length x)"
  using skip_while_text [of m e p x c y P] text_at_end [of m e p x c y] by (simp add: scan_while_def)

lemma strchr_skip: "text_at m e p x \<Longrightarrow> \<forall>d\<in>set x. d \<noteq> c \<and> d \<noteq> 0 \<Longrightarrow> strchr_at m p c = strchr_at m (p + length x) c"
proof (induction x arbitrary: p)
  case (Cons d x)
  then have "skip_while (\<lambda>x. x \<noteq> c \<and> x \<noteq> 0) m p = skip_while (\<lambda>x. x \<noteq> c \<and> x \<noteq> 0) m (p + 1)"
    using text_at_bound [of m e p "d # x"] by (subst skip_while.simps) auto
  then show ?case using Cons by (simp add: strchr_at_def)
qed simp

text \<open>What names, texts and CDATA sections may hold for the document to be read back.\<close>

definition tag_ok :: "bytes \<Rightarrow> bool" where
  "tag_ok s \<longleftrightarrow> s \<noteq> [] \<and> list_all is_symbol s \<and> hd s \<noteq> 63"

definition attribute_ok :: "bytes \<times> bytes option \<Rightarrow> bool" where
  "attribute_ok a \<longleftrightarrow> fst a \<noteq> [] \<and> list_all is_symbol (fst a) \<and> hd (fst a) \<noteq> 35 \<and> 0 \<notin> set (case snd a of Some v \<Rightarrow> v | None \<Rightarrow> [])"

definition cdata_ok :: "bytes \<Rightarrow> bool" where
  "cdata_ok s \<longleftrightarrow> 0 \<notin> set s \<and> list_all (\<lambda>k. \<not> occurs_at (lit '']]>'') (s @ lit '']]>'') k) [0..<length s]"

fun xml_ok :: "xml \<Rightarrow> bool" and xmls_ok :: "xml list \<Rightarrow> bool" where
  "xml_ok (XText s) \<longleftrightarrow> 0 \<notin> set s"
| "xml_ok (XCData s) \<longleftrightarrow> cdata_ok s"
| "xml_ok (XEmpty tag as) \<longleftrightarrow> tag_ok tag \<and> list_all attribute_ok as"
| "xml_ok (XElem tag as ks) \<longleftrightarrow> tag_ok tag \<and> list_all attribute_ok as \<and> xmls_ok ks"
| "xmls_ok [] \<longleftrightarrow> True"
| "xmls_ok (x # xs) \<longleftrightarrow> xml_ok x \<and> xmls_ok xs"

definition quiet :: "bytes \<Rightarrow> bool" where
  "quiet x \<longleftrightarrow> (\<forall>c\<in>set x. c \<noteq> 60 \<and> c \<noteq> 62 \<and> c \<noteq> 0)"

lemma is_symbol_not: "is_symbol c \<Longrightarrow> c \<noteq> 0 \<and> c \<noteq> 60 \<and> c \<noteq> 62 \<and> c \<noteq> 47 \<and> c \<noteq> 33 \<and> c \<noteq> 61 \<and> c \<noteq> 32 \<and> c \<noteq> 34 \<and> c \<noteq> 39"
proof -
  have "\<not> is_symbol 0" "\<not> is_symbol 60" "\<not> is_symbol 62" "\<not> is_symbol 47" "\<not> is_symbol 33" "\<not> is_symbol 61" "\<not> is_symbol 32"
    "\<not> is_symbol 34" "\<not> is_symbol 39" by code_simp+
  then show "is_symbol c \<Longrightarrow> ?thesis" by metis
qed

lemma quiet_symbols: "list_all is_symbol s \<Longrightarrow> quiet s"
  unfolding quiet_def list_all_iff using is_symbol_not by blast

lemma plain_text_chars: "c \<in> set (plain_text v) \<Longrightarrow> 0 \<notin> set v \<Longrightarrow> c \<noteq> 0 \<and> c \<noteq> 60 \<and> c \<noteq> 62 \<and> c \<noteq> 34 \<and> c \<noteq> 39"
proof -
  have e: "c \<in> set (escape_xml d) \<Longrightarrow> d \<noteq> 0 \<Longrightarrow> c \<noteq> 0 \<and> c \<noteq> 60 \<and> c \<noteq> 62 \<and> c \<noteq> 34 \<and> c \<noteq> 39" for d
    unfolding escape_xml_def by (simp split: if_split_asm) (elim disjE; simp)+
  assume "c \<in> set (plain_text v)" "0 \<notin> set v"
  then obtain d where "d \<in> set v" "c \<in> set (escape_xml d)" "d \<noteq> 0" by (auto simp: plain_text_def)
  then show ?thesis using e by blast
qed

lemma quiet_app [simp]: "quiet (a @ b) \<longleftrightarrow> quiet a \<and> quiet b" "quiet (c # s) \<longleftrightarrow> c \<noteq> 60 \<and> c \<noteq> 62 \<and> c \<noteq> 0 \<and> quiet s" "quiet []"
  unfolding quiet_def by auto

lemma quiet_plain: "0 \<notin> set v \<Longrightarrow> quiet (plain_text v)"
  unfolding quiet_def using plain_text_chars by blast

lemma quiet_attribute: "attribute_ok a \<Longrightarrow> quiet (attribute_text a)"
  by (simp add: attribute_ok_def attribute_text_def quiet_symbols quiet_plain)

lemma quiet_attributes: "list_all attribute_ok as \<Longrightarrow> quiet (concat (map attribute_text as))"
  by (induction as) (simp_all add: quiet_attribute)

lemma quiet_nl: "quiet (nl d)"
  by (auto simp: quiet_def nl_def)

lemma last_tag:
  assumes "tag_ok tag" "list_all attribute_ok as"
  shows "last (tag @ concat (map attribute_text as)) \<noteq> 47"
proof (cases "as" rule: rev_cases)
  case Nil
  then show ?thesis using assms(1) is_symbol_not [of "last tag"] by (auto simp: tag_ok_def list_all_iff)
next
  case (snoc bs b)
  then show ?thesis by (simp add: attribute_text_def last_append)
qed

end
