(* ===== verification/XmlTags.thy ===== *)
theory XmlTags
  imports XmlParse
begin

text \<open>
  The searches of \<^verbatim>\<open>rt::XMLParser\<close> over text that \<^verbatim>\<open>rt::XMLComposer\<close> wrote: every element ends where its closing tag stands, and the attributes of a tag are found one
  after the other with their names and values.
\<close>

section \<open>Elements\<close>

text \<open>A text over which the search for a closing tag passes without a change of depth.\<close>

definition zero_behind :: "bytes \<Rightarrow> nat \<Rightarrow> bool" where
  "zero_behind m p \<longleftrightarrow> 0 \<in> set (drop p m)"

lemma zero_behind_mono: "zero_behind m q \<Longrightarrow> p \<le> q \<Longrightarrow> zero_behind m p"
  unfolding zero_behind_def using set_drop_subset_set_drop [of p q m] by blast

definition passes :: "bytes \<Rightarrow> bytes \<Rightarrow> bool" where
  "passes tag x \<longleftrightarrow> (\<forall>m e p i k. text_at m e p x \<longrightarrow> zero_behind m (p + length x) \<longrightarrow> 0 \<le> k \<longrightarrow>
    search_node_close_loop m tag i k p = search_node_close_loop m tag i k (p + length x))"

lemma passesD: "passes tag x \<Longrightarrow> text_at m e p x \<Longrightarrow> zero_behind m (p + length x) \<Longrightarrow> 0 \<le> k \<Longrightarrow>
  search_node_close_loop m tag i k p = search_node_close_loop m tag i k (p + length x)"
  unfolding passes_def by blast

lemma passes_Nil [simp]: "passes tag []"
  by (simp add: passes_def)

lemma passes_append: "passes tag x \<Longrightarrow> passes tag y \<Longrightarrow> passes tag (x @ y)"
proof -
  assume a: "passes tag x" "passes tag y"
  have "search_node_close_loop m tag i k p = search_node_close_loop m tag i k (p + length (x @ y))"
    if t: "text_at m e p (x @ y)" and z: "zero_behind m (p + length (x @ y))" and k: "0 \<le> k" for m e p i k
  proof -
    have "search_node_close_loop m tag i k p = search_node_close_loop m tag i k (p + length x)"
      using t zero_behind_mono [OF z, of "p + length x"] by (intro passesD [OF a(1), of m e] k) simp_all
    also have "\<dots> = search_node_close_loop m tag i k (p + length x + length y)"
      using t z by (intro passesD [OF a(2), of m e] k) (simp_all add: add.assoc)
    finally show ?thesis by (simp add: add.assoc)
  qed
  then show ?thesis unfolding passes_def by blast
qed

lemma passes_quiet: "quiet x \<Longrightarrow> passes tag x"
proof -
  assume "quiet x"
  then have q: "\<forall>d\<in>set x. d \<noteq> 60 \<and> d \<noteq> 0" by (auto simp: quiet_def)
  have "search_node_close_loop m tag i k p = search_node_close_loop m tag i k (p + length x)" if "text_at m e p x" for m e p i k
  proof -
    have "search_node_step m tag i k p = search_node_step m tag i k (p + length x)"
      using strchr_skip [OF that q] by (simp add: search_node_step_def seek_tag_open_def)
    then show ?thesis by (subst (1 2) search_node_close_loop.simps) simp
  qed
  then show ?thesis unfolding passes_def by blast
qed

text \<open>A tag \<open>< u >\<close> moves the depth by what its characters say.\<close>

lemma seek_open_here: "text_at m e p (60 # x) \<Longrightarrow> seek_tag_open m p = Some (Some p)"
  using strchr_text [of m e p "[]" 60 x] by (simp add: seek_tag_open_def)

lemma seek_close_text: "text_at m e p (u @ 62 # x) \<Longrightarrow> quiet u \<Longrightarrow> seek_tag_close m p = Some (Some (p + length u))"
  using strchr_text [of m e p u 62 x] by (auto simp: seek_tag_close_def quiet_def)

lemma open_tag_step:
  assumes "text_at m e p (60 # u @ [62])" "u \<noteq> []" "quiet u" "hd u \<noteq> 33" "hd u \<noteq> 63" "hd u \<noteq> 47"
  shows "search_node_close_loop m tag i k p = search_node_close_loop m tag i (if last u \<noteq> 47 then k + 1 else k) (p + length u + 2)"
proof -
  have t: "text_at m e (p + 1) (u @ 62 # [])" using assms(1) by simp
  have s: "seek_tag_close m (p + 1) = Some (Some (p + 1 + length u))" by (rule seek_close_text [OF t assms(3)])
  have h: "rd m (p + 1) = Some (hd u)" "m ! (p + 1) = hd u"
    using text_at_rd [of m e "p + 1" "hd u" "tl u @ [62]"] t assms(2) by (cases u; auto simp: rd_def)+
  have l: "m ! (p + length u) = last u"
  proof -
    obtain k where k: "length u = Suc k" using assms(2) by (cases u) auto
    then show ?thesis using text_at_nth [OF t, of k] assms(2) by (simp add: last_conv_nth nth_append)
  qed
  have "search_node_step m tag i k p = Some (Inside (if last u \<noteq> 47 then k + 1 else k) (p + length u + 2))"
    using seek_open_here [OF assms(1)] s h l assms(4-6) by (simp add: search_node_step_def close_tag_step_def)
  then show ?thesis by (subst search_node_close_loop.simps) simp
qed

lemma close_tag_text:
  assumes "text_at m e p (lit ''</'' @ t @ [62])" "tag_ok t"
  shows "close_tag_step m tag k p = (if k = 0 then
      (if length m < p + 2 + length tag then None
       else if memcmp tag (take (length tag) (drop (p + 2) m)) = 0 then Some (Closed ERR_XML_OK (p + length t + 2) (Some p))
       else Some (Inside (k - 1) (p + length t + 3)))
    else Some (Inside (k - 1) (p + length t + 3)))"
proof -
  have q: "quiet (47 # t)" using assms(2) quiet_symbols by (simp add: tag_ok_def)
  have tx: "text_at m e (p + 1) ((47 # t) @ 62 # [])" using assms(1) by simp
  have s: "seek_tag_close m (p + 1) = Some (Some (p + 1 + length (47 # t)))" by (rule seek_close_text [OF tx q])
  have "m ! (p + 1) = 47" using tx by simp
  moreover have "m ! (p + length t + 1) \<noteq> 47"
    using text_at_nth [OF tx, of "length t"] assms(2) is_symbol_not [of "last t"] by (auto simp: tag_ok_def list_all_iff last_conv_nth nth_append nth_Cons')
  ultimately show ?thesis using s by (simp add: close_tag_step_def add.assoc eval_nat_numeral)
qed

lemma close_step_text:
  assumes "text_at m e p (lit ''</'' @ t @ [62])" "tag_ok t"
  shows "search_node_step m tag i k p = close_tag_step m tag k p"
proof -
  have "rd m (p + 1) = Some 47" using text_at_rd [of m e "p + 1" 47 "t @ [62]"] assms(1) by simp
  then show ?thesis using seek_open_here [of m e p "47 # t @ [62]"] assms(1) by (simp add: search_node_step_def)
qed

lemma close_tag_inside:
  assumes "text_at m e p (lit ''</'' @ t @ [62])" "tag_ok t" "0 < k"
  shows "search_node_close_loop m tag i k p = search_node_close_loop m tag i (k - 1) (p + length t + 3)"
  using close_step_text [OF assms(1,2)] close_tag_text [OF assms(1,2)] assms(3) by (subst search_node_close_loop.simps) simp

lemma close_tag_found:
  assumes "text_at m e p (lit ''</'' @ t @ [62])" "tag_ok t"
  shows "search_node_close_loop m t i 0 p = Some (ERR_XML_OK, p + length t + 2, Some p)"
proof -
  have tx: "text_at m e (p + 2) t" using assms(1) by simp
  have "take (length t) (drop (p + 2) m) = t" using text_at_view [OF tx] by (simp add: view_def)
  moreover have "p + 2 + length t \<le> length m" using text_at_bound [OF tx] by simp
  ultimately show ?thesis using close_step_text [OF assms] close_tag_text [OF assms, of t 0]
    by (subst search_node_close_loop.simps) (simp add: memcmp_eq_0)
qed

text \<open>Finding the end of a comment, of a declaration or of a CDATA section.\<close>

lemma strstr_text:
  assumes "list_all (\<lambda>k. \<not> occurs_at x (s @ x) k) [0..<length s]" "x \<noteq> []" "0 \<notin> set (s @ x)" "text_at m e p (s @ x)" "zero_behind m p"
  shows "strstr_at m p x = Some (Some (p + length s))"
proof -
  obtain r where r: "drop p m = s @ x @ r" using text_at_drop [OF text_at_mono [OF assms(4)]] by auto
  define c where "c = takeWhile (\<lambda>x. x \<noteq> 0) (drop p m)"
  have c: "c = (s @ x) @ takeWhile (\<lambda>x. x \<noteq> 0) r" unfolding c_def r using assms(3) by (simp add: takeWhile_append)
  have cs: "cstr_at m p = Some c" using assms(5) by (simp add: cstr_at_def c_def zero_behind_def)
  have "0 \<notin> set c" by (auto simp: c_def dest: set_takeWhileD)
  then have st: "strstr c x = FindString_loop x c 0" using assms(2,3) by (intro strstr_loop) simp_all
  have o: "occurs_at x c (length s)" by (simp add: occurs_at_def c)
  have n: "\<not> occurs_at x c j" if "j < length s" for j
  proof -
    have "\<not> occurs_at x (s @ x) j" using assms(1) that by (auto simp: list_all_iff)
    moreover have "take (length x) (drop j c) = take (length x) (drop j (s @ x))" using that by (simp add: c del: append_assoc)
    ultimately show ?thesis using that unfolding occurs_at_def by (metis add_le_mono1 length_append less_imp_le)
  qed
  have "FindString_loop x c 0 = int (length s)"
    using FindString_loop_spec [OF assms(2), of c 0] o n by (metis (no_types, lifting) le0 nat_neq_iff)
  then show ?thesis by (simp add: strstr_at_def cs st)
qed

lemma strstr_cdata:
  assumes "cdata_ok s" "text_at m e p (s @ lit '']]>'')" "zero_behind m p"
  shows "strstr_at m p (lit '']]>'') = Some (Some (p + length s))"
  using assms by (intro strstr_text [OF _ _ _ assms(2)]) (simp_all add: cdata_ok_def)

lemma text_at_from: "text_at m e p x \<Longrightarrow> k \<le> length x \<Longrightarrow> text_at m e (p + k) (drop k x)"
  using text_at_append [of m e p "take k x" "drop k x"] by (simp del: text_at_append add: min.absorb2)

lemma text_at_head: "text_at m e p (x @ y) \<Longrightarrow> text_at m e p x"
  by simp

lemma cdata_close:
  assumes "cdata_ok s" "text_at m e p (lit ''<![CDATA['' @ s @ lit '']]>'')" "zero_behind m p"
  shows "search_special_node_close m p = Some (ERR_XML_OK, p + 9 + length s + 2)"
proof -
  let ?x = "lit ''<![CDATA[''"
  have t: "text_at m e p ?x" "text_at m e (p + 9) (s @ lit '']]>'')"
    using text_at_head [OF assms(2)] text_at_from [OF assms(2), of 9] by (simp_all del: text_at.simps text_at_append)
  obtain a where a: "drop p m = ?x @ a" using text_at_drop [OF text_at_mono [OF t(1)]] by auto
  have z: "zero_behind m (p + 9)"
  proof -
    have "drop (p + 9) m = drop 9 (drop p m)" by (simp add: add.commute)
    then show ?thesis using assms(3) unfolding zero_behind_def a by auto
  qed
  have w0: "load_word 4 m p = Some (le_load (take 4 ?x))" "load_word 2 m p = Some (le_load (take 2 ?x))"
    by (rule load_word_text [OF t(1)], simp)+
  have t1: "text_at m e (p + 1) (tl ?x)" "text_at m e (p + 5) (drop 5 ?x)"
    using text_at_from [OF t(1), of 1] text_at_from [OF t(1), of 5] by (simp_all del: text_at.simps)
  have w1: "load_word 4 m (p + 1) = Some (le_load (take 4 (tl ?x)))" "load_word 4 m (p + 5) = Some (le_load (take 4 (drop 5 ?x)))"
    by (rule load_word_text [OF t1(1)], simp, rule load_word_text [OF t1(2)], simp)
  have "search_special_node_close m p = search_ending m p (p + 9) (lit '']]>'') ERR_CDATA_CLOSURE_NOT_MATCHED"
    unfolding search_special_node_close_def w0 w1 by simp
  also have "\<dots> = Some (ERR_XML_OK, p + 9 + length s + 2)"
    using strstr_cdata [OF assms(1) t(2) z] by (simp add: search_ending_def)
  finally show ?thesis .
qed

lemma passes_cdata: "cdata_ok s \<Longrightarrow> passes tag (lit ''<![CDATA['' @ s @ lit '']]>'')"
proof -
  assume s: "cdata_ok s"
  let ?x = "lit ''<![CDATA['' @ s @ lit '']]>''"
  have "search_node_close_loop m tag i k p = search_node_close_loop m tag i k (p + length ?x)" if "text_at m e p ?x" "zero_behind m (p + length ?x)" for m e p i k
  proof -
    have z: "zero_behind m p" by (rule zero_behind_mono [OF that(2)]) simp
    have "text_at m e p (60 # tl ?x)" "text_at m e (p + 1) (33 # tl (tl ?x))"
      using that(1) text_at_from [OF that(1), of 1] by (simp_all del: text_at.simps text_at_append)
    then have "seek_tag_open m p = Some (Some p)" "rd m (p + 1) = Some 33" using seek_open_here text_at_rd by blast+
    then have "search_node_step m tag i k p = Some (Inside k (p + length ?x))"
      using cdata_close [OF s that(1) z] by (simp add: search_node_step_def)
    then show ?thesis by (subst search_node_close_loop.simps) simp
  qed
  then show ?thesis unfolding passes_def by blast
qed

lemma tag_ok_start:
  assumes "tag_ok tag"
  shows "tag @ x \<noteq> []" "hd (tag @ x) \<noteq> 33" "hd (tag @ x) \<noteq> 63" "hd (tag @ x) \<noteq> 47"
  using assms is_symbol_not [of "hd tag"] by (auto simp: tag_ok_def list_all_iff)

lemma quiet_tag: "tag_ok tag \<Longrightarrow> quiet tag"
  by (simp add: tag_ok_def quiet_symbols)

lemma passes_xml: "xml_ok x \<Longrightarrow> passes tag (xml_text d x)" "xmls_ok xs \<Longrightarrow> passes tag (xmls_text d xs)"
proof (induction d x and d xs rule: xml_text_xmls_text.induct)
  case (1 d s)
  then show ?case by (simp add: passes_quiet quiet_plain)
next
  case (2 d s)
  then show ?case by (simp add: passes_append passes_quiet quiet_nl passes_cdata del: lit_Cons)
next
  case (3 d t as)
  let ?u = "(t @ concat (map attribute_text as)) @ [32, 47]"
  have u: "?u \<noteq> []" "quiet ?u" "hd ?u \<noteq> 33" "hd ?u \<noteq> 63" "hd ?u \<noteq> 47" "last ?u = 47"
    using 3 tag_ok_start [of t "concat (map attribute_text as) @ [32, 47]"] quiet_attributes [of as] quiet_tag [of t] by simp_all
  have "passes tag (60 # ?u @ [62])" 
    unfolding passes_def using open_tag_step [OF _ u(1-5)] u(6) by (simp del: text_at_append text_at.simps append_assoc)
  moreover have "xml_text d (XEmpty t as) = nl d @ (60 # ?u @ [62])" by (simp add: open_text_def)
  ultimately show ?case by (simp only: passes_append passes_quiet quiet_nl)
next
  case (4 d t as ks)
  let ?u = "t @ concat (map attribute_text as)" and ?e = "if list_ex is_element ks then nl d else []"
  define B where "B = xmls_text (d + 1) ks @ ?e"
  have u: "?u \<noteq> []" "quiet ?u" "hd ?u \<noteq> 33" "hd ?u \<noteq> 63" "hd ?u \<noteq> 47" "last ?u \<noteq> 47"
    using "4.prems" tag_ok_start [of t "concat (map attribute_text as)"] quiet_attributes [of as] last_tag [of t as] quiet_tag [of t] by simp_all
  have B: "passes tag B" unfolding B_def using 4 by (intro passes_append) (simp_all add: passes_quiet quiet_nl)
  have "search_node_close_loop m tag i k p = search_node_close_loop m tag i k (p + length ((60 # ?u @ [62]) @ B @ lit ''</'' @ t @ [62]))"
    if t: "text_at m e p ((60 # ?u @ [62]) @ B @ lit ''</'' @ t @ [62])" and z: "zero_behind m (p + length ((60 # ?u @ [62]) @ B @ lit ''</'' @ t @ [62]))"
      and k: "0 \<le> k" for m e p i k
  proof -
    let ?p = "p + length ?u + 2"
    have l: "p + length (60 # ?u @ [62]) = ?p" by simp
    have t1: "text_at m e p (60 # ?u @ [62])" "text_at m e ?p B" "text_at m e (?p + length B) (lit ''</'' @ t @ [62])"
      using t unfolding text_at_append l by blast+
    have "search_node_close_loop m tag i k p = search_node_close_loop m tag i (k + 1) ?p" using open_tag_step [OF t1(1) u(1-5)] u(6) by simp
    also have "\<dots> = search_node_close_loop m tag i (k + 1) (?p + length B)"
      by (rule passesD [OF B t1(2)]) (use k in \<open>auto intro: zero_behind_mono [OF z]\<close>)
    also have "\<dots> = search_node_close_loop m tag i k (?p + length B + length t + 3)" using close_tag_inside [OF t1(3)] "4.prems" k by simp
    moreover have "p + length ((60 # ?u @ [62]) @ B @ lit ''</'' @ t @ [62]) = ?p + length B + length t + 3" by simp
    ultimately show ?thesis by (simp only:)
  qed
  then have "passes tag ((60 # ?u @ [62]) @ B @ lit ''</'' @ t @ [62])" unfolding passes_def by blast
  moreover have "xml_text d (XElem t as ks) = nl d @ (60 # ?u @ [62]) @ B @ lit ''</'' @ t @ [62]" by (simp add: open_text_def B_def)
  ultimately show ?case by (simp only: passes_append passes_quiet quiet_nl)
next
  case (6 d x xs)
  then show ?case by (simp add: passes_append)
qed simp

text \<open>The end of an element is its closing tag.\<close>

lemma search_node_close_elem:
  assumes "xmls_ok ks" "tag_ok tag" "quiet w" "text_at m e p (xmls_text d ks @ w @ lit ''</'' @ tag @ [62])"
    "zero_behind m (p + length (xmls_text d ks @ w @ lit ''</'' @ tag @ [62]))"
  shows "search_node_close m p tag = Some (ERR_XML_OK, p + length (xmls_text d ks @ w) + length tag + 2, Some (p + length (xmls_text d ks @ w)))"
proof -
  define B where "B = xmls_text d ks @ w"
  have t: "text_at m e p B" "text_at m e (p + length B) (lit ''</'' @ tag @ [62])" using assms(4) by (simp_all add: B_def add.assoc)
  have z: "zero_behind m (p + length B)" by (rule zero_behind_mono [OF assms(5)]) (simp add: B_def)
  have "passes tag B" unfolding B_def using assms(1,3) by (intro passes_append passes_quiet passes_xml(2))
  then have "search_node_close_loop m tag p 0 p = search_node_close_loop m tag p 0 (p + length B)" using t(1) z by (intro passesD) simp_all
  then show ?thesis using close_tag_found [OF t(2) assms(2)] by (simp add: search_node_close_def B_def)
qed

section \<open>Attributes\<close>

definition attribute_value :: "bytes \<times> bytes option \<Rightarrow> bytes" where
  "attribute_value a = (case snd a of Some v \<Rightarrow> v | None \<Rightarrow> [])"

lemma attribute_text_value: "attribute_text a = 32 # fst a @ 61 # 34 # plain_text (attribute_value a) @ [34]"
  by (simp add: attribute_text_def attribute_value_def)

lemma read_attrib_text:
  assumes "attribute_ok a" "text_at m e p (fst a @ 61 # 34 # plain_text (attribute_value a) @ [34])"
  shows "read_attrib m p err = Some (Found (p + length (fst a) + 2 + length (plain_text (attribute_value a)) + 1) (p, p + length (fst a))
    (p + length (fst a) + 2, p + length (fst a) + 2 + length (plain_text (attribute_value a))))"
proof -
  let ?n = "fst a" and ?v = "plain_text (attribute_value a)"
  have n: "?n \<noteq> []" "\<forall>c\<in>set ?n. is_symbol c" "0 \<notin> set (attribute_value a)"
    using assms(1) by (auto simp: attribute_ok_def list_all_iff attribute_value_def)
  have s: "seek_symbol_end m p = Some (p + length ?n)"
    unfolding seek_symbol_end_def by (rule scan_text_end [OF assms(2) n(2)]) (simp add: is_symbol_def)
  have t1: "text_at m e (p + length ?n) ([] @ 61 # 34 # ?v @ [34])" using assms(2) by simp
  have c: "strchr_at m (p + length ?n) 61 = Some (Some (p + length ?n))" using strchr_text [OF t1] by simp
  have t2: "text_at m e (p + length ?n + 1) ([] @ 34 # ?v @ [34])" using t1 by simp
  have q: "scan_while (\<lambda>c. c \<noteq> 0 \<and> c \<noteq> 62 \<and> c \<noteq> 34 \<and> c \<noteq> 39) m (p + length ?n + 1) = Some (p + length ?n + 1)"
    using scan_text_end [OF t2, of "\<lambda>c. c \<noteq> 0 \<and> c \<noteq> 62 \<and> c \<noteq> 34 \<and> c \<noteq> 39"] by simp
  have t3: "text_at m e (p + length ?n + 2) (?v @ 34 # [])" using t2 by simp
  have "\<forall>c\<in>set ?v. c \<noteq> 34 \<and> c \<noteq> 0" using plain_text_chars [OF _ n(3)] by blast
  then have r: "strchr_at m (p + length ?n + 2) 34 = Some (Some (p + length ?n + 2 + length ?v))" by (rule strchr_text [OF t3])
  have "m ! (p + length ?n + 1) = 34" using t2 by simp
  then show ?thesis using s c q r n(1) by (simp add: read_attrib_def)
qed

text \<open>A tag ends with \<^verbatim>\<open>>\<close> or \<^verbatim>\<open> />\<close>.\<close>

definition tag_end :: "bytes \<Rightarrow> bool" where
  "tag_end w \<longleftrightarrow> w = [62] \<or> w = lit '' />''"

lemma attribute_name_start:
  assumes "attribute_ok a"
  obtains c n where "fst a = c # n" "c \<noteq> 0" "c \<noteq> 62" "c \<noteq> 47" "c_int c \<ge> 0x2d \<or> c_int c < 0"
proof -
  obtain c n where a: "fst a = c # n" using assms by (cases "fst a") (auto simp: attribute_ok_def)
  then have "is_symbol c" "c \<noteq> 35" using assms by (auto simp: attribute_ok_def)
  moreover from this have "c_int c \<ge> 0x2d \<or> c_int c < 0" unfolding is_symbol_def by blast
  ultimately show ?thesis using that [OF a] is_symbol_not [of c] by blast
qed

lemma seek_skip_space: "rd m p = Some 32 \<Longrightarrow> 0 < p \<Longrightarrow> seek_next_attrib_loop m p err = seek_next_attrib_loop m (p + 1) err"
  by (subst seek_next_attrib_loop.simps) simp

definition attribute_view :: "nat \<Rightarrow> bytes \<times> bytes option \<Rightarrow> (nat \<times> nat) \<times> (nat \<times> nat)" where
  "attribute_view p a = ((p, p + length (fst a)), (p + length (fst a) + 2, p + length (fst a) + 2 + length (plain_text (attribute_value a))))"

lemma seek_attribute_name:
  assumes "attribute_ok a" "text_at m e p (fst a @ 61 # 34 # plain_text (attribute_value a) @ [34])" "0 < p" "m ! (p - 1) = 32"
  shows "seek_next_attrib_loop m p err = Some (Some (p + length (attribute_text a) - 1, attribute_view p a), err)"
proof -
  obtain c n where c: "fst a = c # n" "c \<noteq> 0" "c \<noteq> 62" "c \<noteq> 47" "c_int c \<ge> 0x2d \<or> c_int c < 0" by (rule attribute_name_start [OF assms(1)])
  have "rd m p = Some c" using assms(2) text_at_rd [of m e p c] unfolding c(1) append_Cons by blast
  then show ?thesis using read_attrib_text [OF assms(1,2), of err] c assms(3,4)
    by (subst seek_next_attrib_loop.simps) (simp add: attribute_view_def attribute_text_value)
qed

text \<open>The search may start at the space before the first attribute, or at its name.\<close>

lemma seek_attribute:
  assumes "attribute_ok a" "text_at m e p (attribute_text a)" "0 < p" "start = p \<or> start = p + 1"
  shows "seek_next_attrib_loop m start err = Some (Some (p + length (attribute_text a), attribute_view (p + 1) a), err)"
proof -
  have s: "rd m p = Some 32" "m ! p = 32" using assms(2) text_at_rd [of m e p 32] unfolding attribute_text_value by auto
  have t: "text_at m e (p + 1) (fst a @ 61 # 34 # plain_text (attribute_value a) @ [34])" using assms(2) by (simp add: attribute_text_value)
  show ?thesis using seek_attribute_name [OF assms(1) t, of err] seek_skip_space [OF s(1) assms(3), of err] s(2) assms(4) by auto
qed

lemma seek_tag_end:
  assumes "tag_end w" "text_at m e p w" "0 < p"
  shows "seek_next_attrib_loop m p err = Some (None, err)"
proof -
  consider "w = [62]" | "w = [32, 47, 62]" using assms(1) by (auto simp: tag_end_def)
  then show ?thesis
  proof cases
    case 1
    then have "rd m p = Some 62" using assms(2) by (auto simp: rd_def)
    then show ?thesis by (subst seek_next_attrib_loop.simps) simp
  next
    case 2
    have "rd m p = Some 32" "rd m (p + 1) = Some 47" "rd m (p + 1 + 1) = Some 62" using assms(2) text_at_bound [OF assms(2)] by (simp_all add: 2 rd_def)
    moreover from this have "seek_next_attrib_loop m (p + 1) err = Some (None, err)" by (subst seek_next_attrib_loop.simps) simp
    ultimately show ?thesis using seek_skip_space [of m p err] assms(3) by simp
  qed
qed

fun attribute_views :: "nat \<Rightarrow> attributes \<Rightarrow> ((nat \<times> nat) \<times> (nat \<times> nat)) list" where
  "attribute_views p [] = []"
| "attribute_views p (a # as) = attribute_view (p + 1) a # attribute_views (p + length (attribute_text a)) as"

lemma search_attrib_text:
  assumes "list_all attribute_ok as" "text_at m e p (concat (map attribute_text as) @ w)" "tag_end w" "0 < p" "start = p \<or> start = p + 1 \<and> as \<noteq> []"
  shows "search_attrib_loop m name start err = Some (map_of (zip (map fst as) (map snd (attribute_views p as))) name, err)"
  using assms
proof (induction as arbitrary: p start)
  case Nil
  then show ?case using seek_tag_end [of w m e p err] by (subst search_attrib_loop.simps) simp
next
  case (Cons a as)
  have t: "text_at m e p (attribute_text a)" "text_at m e (p + length (attribute_text a)) (concat (map attribute_text as) @ w)"
    using Cons.prems(2) by (simp_all add: add.assoc)
  have s: "seek_next_attrib_loop m start err = Some (Some (p + length (attribute_text a), attribute_view (p + 1) a), err)"
    using Cons.prems by (intro seek_attribute [OF _ t(1)]) auto
  have "text_at m e (p + 1) (fst a)" using t(1) by (simp add: attribute_text_value)
  then have n: "view m (fst (attribute_view (p + 1) a)) = fst a" unfolding attribute_view_def fst_conv by (rule text_at_view)
  have "search_attrib_loop m name (p + length (attribute_text a)) err =
      Some (map_of (zip (map fst as) (map snd (attribute_views (p + length (attribute_text a)) as))) name, err)"
    using Cons.prems by (intro Cons.IH [OF _ t(2)]) auto
  then show ?case using s n by (subst search_attrib_loop.simps) (auto simp: Str_equal_eq split: prod.splits)
qed

end
