(* ===== verification/XmlPath.thy ===== *)
theory XmlPath
  imports XmlTags
begin

text \<open>
  The state of \<^verbatim>\<open>rt::XMLParser\<close> and the XPath filter \<^verbatim>\<open>rt::XPathParser\<close>, \<^verbatim>\<open>core/rt/xml_xhtml.h\<close> and \<^verbatim>\<open>core/rt/xml_xhtml.cpp\<close>. A path is cut at its slashes into qualifiers; every
  qualifier tests the name, an attribute or the ordinal of an element. The tag filter of a user (\<^verbatim>\<open>_XML_Tag_Filter\<close>) is a parameter: a function of the tag name, the pointer to
  the attributes and the level, with a state of its own. Texts that are only kept (\<^verbatim>\<open>TagName\<close>, \<^verbatim>\<open>Attribute\<close>) are their characters; \<^verbatim>\<open>Value\<close> and the buffer for conversions are
  heap strings. The position of an XPath error is the distance of two pointers into different strings and is left out.
\<close>

section \<open>Definitions\<close>

(*@ core/rt/xml_xhtml.h 119-132 rt::XPathParseError *)
datatype XPathParseError =
  ERR_XPATH_OK | ERR_XPATH_DESCENDANT_IN_HALFWAY | ERR_SELECTOR_ATTRIBUTE_SET_NOT_SUPPORTED | ERR_SELECTOR_NODENAME_NOT_FOUND
  | ERR_SELECTOR_UNEXPECTED_SYMBOL | ERR_QUALIFIER_CONDITION_CLOSURE_NOT_MATCHED | ERR_QUALIFIER_CONDITION_NOT_SUPPORTED
  | ERR_QUALIFIER_VALUE_NOT_SUPPORTED | ERR_QUALIFIER_BAD_ORDINAL | ERR_QUALIFIER_QUOTATION_NOT_MATCHED | ERR_QUALIFIER_OPERATOR_NOT_SUPPORTED

(*@ core/rt/xml_xhtml.h 185-199 rt::XPathParser::_QualifierType *)
datatype QualifierType =
  QT_NAME_NOT_PARSED | QT_NAME_ANY | QT_NAME_EXACT
  | QT_ATTRIBUTE_ANY | QT_ATTRIBUTE_HAVE | QT_ATTRIBUTE_EQUAL | QT_ATTRIBUTE_NOTEQUAL | QT_ATTRIBUTE_STARTWITH | QT_ATTRIBUTE_ENDWITH
  | QT_ATTRIBUTE_CONTAIN | QT_ATTRIBUTE_HAVE_WORD | QT_ATTRIBUTE_EXPRESSION | QT_ORDINAL

(*@ core/rt/xml_xhtml.h 201-216 rt::XPathParser::_Qualifier *)
record Qualifier =
  qt_TagName :: QualifierType
  TagName :: bytes
  qt_Attribute :: QualifierType
  Attribute :: bytes
  Value :: String
  qt_Ordinal :: int
  LastOrdinalTestPast :: int

(*@ core/rt/xml_xhtml.h 173-224 rt::XPathParser *)
record XPathParser =
  conv_value_temp :: String
  LastNodeSatificated :: bool
  m_XPathParseError :: XPathParseError
  m_Qualifiers :: "Qualifier list"
  m_bRelativePath :: bool
  m_bIncludeDescendants :: bool
  m_FinalQualifier :: Qualifier
  m_UpLevelCount :: int
  m_QualifierShifts :: int

(*@ core/rt/xml_xhtml.h 280-287 rt::XMLParser::_node *)
record node =
  n_TagName :: "nat \<times> nat"
  n_Attributes :: "nat \<times> nat"
  OuterXML_Start :: nat
  InnerXML_Start :: nat
  IsCompactNode :: bool

(*@ core/rt/xml_xhtml.h 136-138 rt::_details::_XML_Tag_Filter *)
type_synonym 'u tag_filter = "bytes \<Rightarrow> nat \<Rightarrow> int \<Rightarrow> 'u \<Rightarrow> bool \<times> 'u"

datatype 'u cur_filter = NullFilter | UserFilter "'u tag_filter" | XPathFilter

(*@ core/rt/xml_xhtml.h 243-291 rt::XMLParser *)
record 'u XMLParser =
  attribute_cursor :: "nat option"
  root_node_xml_start :: "nat option"
  root_node_xml_end :: "int option"
  m_XMLParseError :: XMLParseError
  m_XMLParseErrorPosition :: nat
  m_pUserTagFilter :: "'u tag_filter option"
  m_pCurTagFilter :: "'u cur_filter"
  m_pDocument :: nat
  m_NodePath :: "node list"
  m_XPathParser :: XPathParser
  user_state :: 'u

(*@ core/rt/xml_xhtml.cpp 430-445 rt::XMLParser::SetLastSyntaxError *)
definition SetLastSyntaxError :: "XMLParseError \<Rightarrow> nat \<Rightarrow> 'u XMLParser \<Rightarrow> 'u XMLParser" where
  "SetLastSyntaxError errnum pos s = s\<lparr> m_XMLParseError := errnum, m_XMLParseErrorPosition := pos - m_pDocument s \<rparr>"

definition note_error :: "syntax_error \<Rightarrow> 'u XMLParser \<Rightarrow> 'u XMLParser" where
  "note_error err s = (case err of None \<Rightarrow> s | Some (errnum, pos) \<Rightarrow> SetLastSyntaxError errnum pos s)"

(*@ core/rt/xml_xhtml.cpp 287-291 rt::XMLParser::ClearSyntaxError *)
definition ClearSyntaxError :: "'u XMLParser \<Rightarrow> 'u XMLParser" where
  "ClearSyntaxError s = s\<lparr> m_XMLParseError := ERR_XML_OK, m_XMLParseErrorPosition := 0 \<rparr>"

subsection \<open>Reading a path\<close>

(*@ core/rt/xml_xhtml.cpp 2552-2556 rt::XPathParser::_Qualifier::Load *)
definition Qualifier_Load :: "bytes \<Rightarrow> Qualifier \<Rightarrow> Qualifier" where
  "Qualifier_Load qualify q = q\<lparr> qt_TagName := QT_NAME_NOT_PARSED, TagName := qualify \<rparr>"

text \<open>A qualifier is read from a copy \<open>m\<close> of its text, with the terminating zero. The result is the error, \<open>ERR_XPATH_OK\<close> when it is read, and the qualifier so far.\<close>

(*@ core/rt/xml_xhtml.cpp 2632-2666 rt::XPathParser::ParseQualifier *)
definition parse_operator :: "bytes \<Rightarrow> nat \<Rightarrow> Qualifier \<Rightarrow> ((XPathParseError + nat option) \<times> Qualifier) option" where
  "parse_operator m patt q =
    do { c \<leftarrow> rd m patt;
         if c = 61 then
           do { b \<leftarrow> rd_behind m patt;
                let cut = take (length (Attribute q) - 1) (Attribute q);
                Some (Inr (Some (patt + 1)),
                  if b = 58 then q\<lparr> qt_Attribute := QT_ATTRIBUTE_STARTWITH, Attribute := cut \<rparr>
                  else if b = 63 then q\<lparr> qt_Attribute := QT_ATTRIBUTE_ENDWITH, Attribute := cut \<rparr>
                  else if b = 126 then q\<lparr> qt_Attribute := QT_ATTRIBUTE_CONTAIN, Attribute := cut \<rparr>
                  else if b = 94 then q\<lparr> qt_Attribute := QT_ATTRIBUTE_HAVE_WORD, Attribute := cut \<rparr>
                  else q\<lparr> qt_Attribute := QT_ATTRIBUTE_EQUAL \<rparr>) }
         else if c = 33 \<and> rd m (patt + 1) = Some 61 then Some (Inr (Some (patt + 2)), q\<lparr> qt_Attribute := QT_ATTRIBUTE_NOTEQUAL \<rparr>)
         else if c = 93 then Some (Inr None, q)
         else Some (Inl ERR_QUALIFIER_OPERATOR_NOT_SUPPORTED, q) }"

(*@ core/rt/xml_xhtml.cpp 2668-2694 rt::XPathParser::ParseQualifier *)
definition parse_value :: "allocator \<Rightarrow> bytes \<Rightarrow> nat \<Rightarrow> Qualifier \<Rightarrow> (XPathParseError \<times> Qualifier) option" where
  "parse_value alloc m patt q =
    do { patt \<leftarrow> xml_skip_whitespace m patt;
         if m ! patt = 39 \<or> m ! patt = 34 then
           do { pend \<leftarrow> strchr_at m (patt + 1) (m ! patt);
                case pend of
                  None \<Rightarrow> Some (ERR_QUALIFIER_QUOTATION_NOT_MATCHED, q)
                | Some pend \<Rightarrow>
                    do { v \<leftarrow> convert_xml_to_text alloc m (patt + 1, pend) False False 32 (Value q);
                         patt \<leftarrow> xml_skip_whitespace m (pend + 1);
                         Some (if m ! patt = 93 then ERR_XPATH_OK else ERR_QUALIFIER_CONDITION_NOT_SUPPORTED, q\<lparr> Value := v \<rparr>) } }
         else Some (ERR_QUALIFIER_VALUE_NOT_SUPPORTED, q) }"

(*@ core/rt/xml_xhtml.cpp 2602-2701 rt::XPathParser::ParseQualifier *)
definition parse_condition :: "allocator \<Rightarrow> bytes \<Rightarrow> nat \<Rightarrow> Qualifier \<Rightarrow> (XPathParseError \<times> Qualifier) option" where
  "parse_condition alloc m patt q =
    do { patt \<leftarrow> xml_skip_whitespace m (patt + 1);
         if is_decimal (m ! patt) then
           do { let q = q\<lparr> qt_Attribute := QT_ATTRIBUTE_ANY \<rparr>;
                tail \<leftarrow> seek_symbol_end m patt;
                if m ! tail = 93 then
                  Some (ERR_XPATH_OK, q\<lparr> qt_Ordinal := sint (snd (ToNumber_default 10 True (view m (patt, tail)) :: int \<times> 32 word)) \<rparr>)
                else Some (ERR_QUALIFIER_BAD_ORDINAL, q) }
         else if m ! patt = 64 then
           do { let q = q\<lparr> qt_Ordinal := - 1, qt_Attribute := QT_ATTRIBUTE_HAVE \<rparr>;
                patt \<leftarrow> xml_skip_whitespace m (patt + 1);
                pend \<leftarrow> seek_symbol_end m patt;
                let q = q\<lparr> Attribute := view m (patt, pend) \<rparr>;
                patt \<leftarrow> xml_skip_whitespace m pend;
                (r, q) \<leftarrow> parse_operator m patt q;
                case r of
                  Inl e \<Rightarrow> Some (e, q)
                | Inr None \<Rightarrow> Some (ERR_XPATH_OK, q)
                | Inr (Some patt) \<Rightarrow> parse_value alloc m patt q }
         else Some (ERR_QUALIFIER_CONDITION_NOT_SUPPORTED, q) }"

(*@ core/rt/xml_xhtml.cpp 2558-2716 rt::XPathParser::ParseQualifier *)
definition ParseQualifier :: "allocator \<Rightarrow> Qualifier \<Rightarrow> (XPathParseError \<times> Qualifier) option" where
  "ParseQualifier alloc q =
    do { let q = q\<lparr> LastOrdinalTestPast := 0 \<rparr>;
         let m = TagName q @ [0];
         if TagName q = [] then Some (ERR_SELECTOR_NODENAME_NOT_FOUND, q)
         else do {
           qualify \<leftarrow> xml_skip_whitespace m 0;
           if m ! qualify = 64 then Some (ERR_SELECTOR_ATTRIBUTE_SET_NOT_SUPPORTED, q)
           else do {
             patt \<leftarrow> (if m ! qualify = 42 then Some (qualify + 1) else seek_symbol_end m qualify);
             if patt = qualify then Some (ERR_SELECTOR_NODENAME_NOT_FOUND, q)
             else do {
               let q = (if m ! qualify = 42 then q\<lparr> qt_TagName := QT_NAME_ANY \<rparr>
                        else q\<lparr> qt_TagName := QT_NAME_EXACT, TagName := view m (qualify, patt) \<rparr>);
               patt \<leftarrow> xml_skip_whitespace m patt;
               if m ! patt = 91 then parse_condition alloc m patt q
               else if m ! patt = 0 then Some (ERR_XPATH_OK, q\<lparr> qt_Attribute := QT_ATTRIBUTE_ANY, qt_Ordinal := - 1 \<rparr>)
               else Some (ERR_SELECTOR_UNEXPECTED_SYMBOL, q) } } } }"

(*@ core/rt/xml_xhtml.cpp 2718-2727 rt::XPathParser::Clear *)
definition XPath_Clear :: "XPathParser \<Rightarrow> XPathParser" where
  "XPath_Clear x = x\<lparr> m_bRelativePath := False, m_bIncludeDescendants := False,
    m_FinalQualifier := (m_FinalQualifier x)\<lparr> qt_TagName := QT_NAME_NOT_PARSED \<rparr>, LastNodeSatificated := True,
    m_UpLevelCount := 0, m_QualifierShifts := 0, m_Qualifiers := [] \<rparr>"

definition note_xpath_error :: "XPathParseError \<Rightarrow> XPathParser \<Rightarrow> XPathParser" where
  "note_xpath_error e x = (if e = ERR_XPATH_OK then x else x\<lparr> m_XPathParseError := e \<rparr>)"

text \<open>The steps of the path before \<open>pend\<close>. A fresh qualifier of \<^verbatim>\<open>push_back()\<close> holds what its memory held: \<open>blank\<close>.\<close>

(*@ core/rt/xml_xhtml.cpp 2766-2789 rt::XPathParser::Load *)
function load_steps :: "Qualifier \<Rightarrow> bytes \<Rightarrow> nat \<Rightarrow> nat \<Rightarrow> XPathParser \<Rightarrow> (bool \<times> XPathParser) option" where
  "load_steps blank m pend xpath x =
    (if xpath < pend then
       (case strchr_at m xpath 47 of
          None \<Rightarrow> None
        | Some None \<Rightarrow> None
        | Some (Some next) \<Rightarrow>
            if next = xpath then Some (False, note_xpath_error ERR_XPATH_DESCENDANT_IN_HALFWAY x)
            else
              load_steps blank m pend (next + 1)
                (if view m (xpath, next) = [46] then x
                 else if view m (xpath, next) = [46, 46] then
                   (if m_Qualifiers x \<noteq> [] then x\<lparr> m_Qualifiers := butlast (m_Qualifiers x) \<rparr>
                    else x\<lparr> m_UpLevelCount := m_UpLevelCount x + 1 \<rparr>)
                 else x\<lparr> m_Qualifiers := m_Qualifiers x @ [Qualifier_Load (view m (xpath, next)) blank] \<rparr>))
     else Some (True, x))"
  by pat_completeness auto
termination by (relation "measure (\<lambda>(f, m, e, p, x). e - p)") (auto dest!: strchr_at_ge)

declare load_steps.simps [simp del]

(*@ core/rt/xml_xhtml.cpp 2792-2793 rt::XPathParser::Load *)
fun parse_steps :: "allocator \<Rightarrow> Qualifier list \<Rightarrow> Qualifier list \<Rightarrow> (XPathParseError \<times> Qualifier list) option" where
  "parse_steps alloc ps [] = Some (ERR_XPATH_OK, ps)"
| "parse_steps alloc ps (q # qs) =
    do { (e, q) \<leftarrow> ParseQualifier alloc q;
         if e \<noteq> ERR_XPATH_OK then Some (e, ps @ q # qs) else parse_steps alloc (ps @ [q]) qs }"

text \<open>The path is at \<open>b\<close> in the memory \<open>m\<close>: the character before a leading slash is read. When the last qualifier cannot be read, the error is only recorded.\<close>

(*@ core/rt/xml_xhtml.cpp 2729-2799 rt::XPathParser::Load *)
definition XPath_Load :: "allocator \<Rightarrow> Qualifier \<Rightarrow> bytes \<Rightarrow> nat \<Rightarrow> XPathParser \<Rightarrow> (bool \<times> XPathParser) option" where
  "XPath_Load alloc blank m b x =
    do { let x = x\<lparr> m_Qualifiers := [], m_UpLevelCount := 0, LastNodeSatificated := True \<rparr>;
         xpath \<leftarrow> xml_skip_whitespace m b;
         s \<leftarrow> cstr_at m xpath;
         case find_back (\<lambda>c. c = 47) s (length s) of
           None \<Rightarrow>
             do { (e, q) \<leftarrow> ParseQualifier alloc (Qualifier_Load s (m_FinalQualifier x));
                  let x = x\<lparr> m_bRelativePath := True, m_bIncludeDescendants := False, m_FinalQualifier := q \<rparr>;
                  Some (e = ERR_XPATH_OK, note_xpath_error e x) }
         | Some k \<Rightarrow>
             do { c \<leftarrow> rd_behind m (xpath + k);
                  let pend = (if c = 47 then xpath + k - 1 else xpath + k);
                  let x = x\<lparr> m_bIncludeDescendants := (c = 47) \<rparr>;
                  (e, q) \<leftarrow> ParseQualifier alloc (Qualifier_Load (drop (k + 1) s) (m_FinalQualifier x));
                  let x = note_xpath_error e (x\<lparr> m_FinalQualifier := q \<rparr>);
                  (ok, x) \<leftarrow>
                    (if e = ERR_XPATH_OK then
                       load_steps blank m pend (if m ! xpath = 47 then xpath + 1 else xpath) (x\<lparr> m_bRelativePath := (m ! xpath \<noteq> 47) \<rparr>)
                     else Some (True, x));
                  if \<not> ok then Some (False, x)
                  else do {
                    (e, qs) \<leftarrow> parse_steps alloc [] (m_Qualifiers x);
                    Some (e = ERR_XPATH_OK, note_xpath_error e (x\<lparr> m_Qualifiers := qs \<rparr>)) } } }"

subsection \<open>Testing an element\<close>

text \<open>The first attribute with the name of the qualifier and a value that is not shorter than \<open>n\<close>.\<close>

(*@ core/rt/xml_xhtml.cpp 1843-1856 rt::XPathParser::QualifierTest *)
function find_attrib :: "bytes \<Rightarrow> bytes \<Rightarrow> nat \<Rightarrow> nat \<Rightarrow> syntax_error \<Rightarrow> ((nat \<times> nat) option \<times> syntax_error) option" where
  "find_attrib m name n attributes err =
    (case seek_next_attrib_loop m attributes err of
       None \<Rightarrow> None
     | Some (None, err) \<Rightarrow> Some (None, err)
     | Some (Some (q, nm, val), err) \<Rightarrow>
         if Str_equal (view m nm) name \<and> n \<le> snd val - fst val then Some (Some val, err)
         else find_attrib m name n q err)"
  by pat_completeness auto
termination by (relation "measure (\<lambda>(m, x, n, p, e). length m - p)") (auto dest!: seek_next_attrib_loop_gt)

declare find_attrib.simps [simp del]

text \<open>The comparison of the converted value with that of the qualifier. \<^verbatim>\<open>strstr\<close> with a null pointer is \<open>None\<close>.\<close>

(*@ core/rt/xml_xhtml.cpp 1930-1936 rt::XPathParser::QualifierTest *)
definition has_word :: "bytes \<Rightarrow> bytes \<Rightarrow> bool option" where
  "has_word s w =
    do { sep \<leftarrow> CharacterSet_ControlChar_with [32];
         (f, co) \<leftarrow> Split_default sep s (replicate 256 []);
         Some (list_ex (\<lambda>x. Str_equal x w) (take co f)) }"

(*@ core/rt/xml_xhtml.cpp 1849-1936 rt::XPathParser::QualifierTest *)
definition compare_value :: "QualifierType \<Rightarrow> String \<Rightarrow> String \<Rightarrow> bool option" where
  "compare_value qt temp val =
    (case qt of
       QT_ATTRIBUTE_EQUAL \<Rightarrow> Some (Str_equal (s_text temp) (s_text val))
     | QT_ATTRIBUTE_NOTEQUAL \<Rightarrow> Some (\<not> Str_equal (s_text temp) (s_text val))
     | QT_ATTRIBUTE_STARTWITH \<Rightarrow> Some (StartsWith (s_text val) (s_text temp))
     | QT_ATTRIBUTE_ENDWITH \<Rightarrow> Some (EndsWith (s_text val) (s_text temp))
     | QT_ATTRIBUTE_CONTAIN \<Rightarrow>
         if s_GetLength val \<le> s_GetLength temp then
           (if s_p temp = [] \<or> s_p val = [] then None else Some (strstr (s_text temp) (s_text val) \<ge> 0))
         else Some False
     | QT_ATTRIBUTE_HAVE_WORD \<Rightarrow> has_word (s_text temp) (s_text val)
     | _ \<Rightarrow> Some False)"

definition upd_xpath :: "(XPathParser \<Rightarrow> XPathParser) \<Rightarrow> 'u XMLParser \<Rightarrow> 'u XMLParser" where
  "upd_xpath f s = s\<lparr> m_XPathParser := f (m_XPathParser s) \<rparr>"

(*@ core/rt/xml_xhtml.cpp 1820-1948 rt::XPathParser::QualifierTest *)
definition QualifierTest :: "allocator \<Rightarrow> bytes \<Rightarrow> Qualifier \<Rightarrow> bytes \<Rightarrow> nat \<Rightarrow> 'u XMLParser \<Rightarrow> (bool \<times> 'u XMLParser) option" where
  "QualifierTest alloc m q tag_name attributes s =
    (if qt_TagName q = QT_NAME_EXACT \<and> \<not> Str_equal tag_name (TagName q) then Some (False, s)
     else if qt_Attribute q = QT_ATTRIBUTE_ANY then Some (True, s)
     else if qt_Attribute q = QT_ATTRIBUTE_HAVE then
       do { (r, err) \<leftarrow> find_attrib m (Attribute q) 0 attributes None; Some (r \<noteq> None, note_error err s) }
     else if qt_Attribute q \<in> {QT_ATTRIBUTE_EQUAL, QT_ATTRIBUTE_NOTEQUAL, QT_ATTRIBUTE_STARTWITH, QT_ATTRIBUTE_ENDWITH, QT_ATTRIBUTE_CONTAIN, QT_ATTRIBUTE_HAVE_WORD} then
       do { (r, err) \<leftarrow> find_attrib m (Attribute q) (if qt_Attribute q = QT_ATTRIBUTE_NOTEQUAL then 0 else s_GetLength (Value q)) attributes None;
            let s = note_error err s;
            case r of
              None \<Rightarrow> Some (qt_Attribute q = QT_ATTRIBUTE_NOTEQUAL \<and> m_XPathParseError (m_XPathParser s) = ERR_XPATH_OK, s)
            | Some val \<Rightarrow>
                do { temp \<leftarrow> convert_xml_to_text alloc m val False False 32 (conv_value_temp (m_XPathParser s));
                     b \<leftarrow> compare_value (qt_Attribute q) temp (Value q);
                     Some (b, upd_xpath (\<lambda>x. x\<lparr> conv_value_temp := temp \<rparr>) s) } }
     else Some (False, s))"

(*@ core/rt/xml_xhtml.cpp 1754-1760 rt::XPathParser::_ClearLastOrdinalTestPast *)
definition ClearLastOrdinalTestPast :: "int \<Rightarrow> XPathParser \<Rightarrow> XPathParser option" where
  "ClearLastOrdinalTestPast level x =
    (if level < int (length (m_Qualifiers x)) then
       (if level < 0 then None
        else Some (x\<lparr> m_Qualifiers := (m_Qualifiers x)[nat level := (m_Qualifiers x ! nat level)\<lparr> LastOrdinalTestPast := 0 \<rparr>] \<rparr>))
     else Some (x\<lparr> m_FinalQualifier := (m_FinalQualifier x)\<lparr> LastOrdinalTestPast := 0 \<rparr> \<rparr>))"

definition user_test :: "bytes \<Rightarrow> nat \<Rightarrow> int \<Rightarrow> 'u XMLParser \<Rightarrow> bool \<times> 'u XMLParser" where
  "user_test tag_name attributes level s =
    (case m_pUserTagFilter s of
       None \<Rightarrow> (True, s)
     | Some f \<Rightarrow> (case f tag_name attributes level (user_state s) of (b, u) \<Rightarrow> (b, s\<lparr> user_state := u \<rparr>)))"

definition qualifier_and_user :: "allocator \<Rightarrow> bytes \<Rightarrow> Qualifier \<Rightarrow> bytes \<Rightarrow> nat \<Rightarrow> int \<Rightarrow> 'u XMLParser \<Rightarrow> (bool \<times> 'u XMLParser) option" where
  "qualifier_and_user alloc m q tag_name attributes level s =
    do { (b, s) \<leftarrow> QualifierTest alloc m q tag_name attributes s; Some (if b then user_test tag_name attributes level s else (False, s)) }"

text \<open>The count of the elements that passed a qualifier with an ordinal: only the one with this ordinal passes.\<close>

(*@ core/rt/xml_xhtml.cpp 1799-1802 rt::XPathParser::_TagTest *)
definition ordinal_test :: "bool \<Rightarrow> Qualifier \<Rightarrow> bool \<times> Qualifier" where
  "ordinal_test ret q =
    (if ret \<and> qt_Ordinal q \<ge> 0 then (LastOrdinalTestPast q = qt_Ordinal q, q\<lparr> LastOrdinalTestPast := LastOrdinalTestPast q + 1 \<rparr>) else (ret, q))"

(*@ core/rt/xml_xhtml.cpp 1762-1805 rt::XPathParser::_TagTest *)
definition TagTest :: "allocator \<Rightarrow> bytes \<Rightarrow> bytes \<Rightarrow> nat \<Rightarrow> int \<Rightarrow> 'u XMLParser \<Rightarrow> (bool \<times> 'u XMLParser) option" where
  "TagTest alloc m tag_name attributes level s =
    do { let x = m_XPathParser s;
         let n = m_QualifierShifts x + int (length (m_Qualifiers x));
         if level \<le> n then
           do { x \<leftarrow> ClearLastOrdinalTestPast (level - m_QualifierShifts x) x;
                let i = level - m_QualifierShifts x - 1;
                if i < 0 then None
                else do {
                  let qu = m_Qualifiers x ! nat i;
                  let s = s\<lparr> m_XPathParser := x \<rparr>;
                  if qt_Ordinal qu \<ge> 0 \<and> qt_Ordinal qu < LastOrdinalTestPast qu then Some (False, s)
                  else do {
                    (ret, s) \<leftarrow> qualifier_and_user alloc m qu tag_name attributes level (upd_xpath (\<lambda>x. x\<lparr> LastNodeSatificated := False \<rparr>) s);
                    let (ret, qu) = ordinal_test ret qu;
                    Some (ret, upd_xpath (\<lambda>x. x\<lparr> m_Qualifiers := (m_Qualifiers x)[nat i := qu] \<rparr>) s) } } }
         else if \<not> m_bIncludeDescendants x \<and> level > n + 1 then Some (False, upd_xpath (\<lambda>x. x\<lparr> LastNodeSatificated := False \<rparr>) s)
         else if qt_Ordinal (m_FinalQualifier x) \<ge> 0 \<and> qt_Ordinal (m_FinalQualifier x) < LastOrdinalTestPast (m_FinalQualifier x) then Some (False, s)
         else do {
           (sat, s) \<leftarrow> qualifier_and_user alloc m (m_FinalQualifier x) tag_name attributes level s;
           let (ret, qu) = ordinal_test (m_bIncludeDescendants x \<or> sat) (m_FinalQualifier x);
           Some (ret, upd_xpath (\<lambda>x. x\<lparr> LastNodeSatificated := sat, m_FinalQualifier := qu \<rparr>) s) } }"

end
