(* ===== verification/XmlNode.thy ===== *)
theory XmlNode
  imports XmlPath
begin

text \<open>
  Walking over the elements of a document with \<^verbatim>\<open>rt::XMLParser\<close>, \<^verbatim>\<open>core/rt/xml_xhtml.cpp\<close>: loading, entering the root, a child, the next sibling, the parent and the element
  that follows in document order, with and without an XPath, and reading names, attributes and contents of the current element. The document lies in the memory \<open>m\<close>; nothing of
  it is changed.
\<close>

section \<open>Definitions\<close>

subsection \<open>Entering an element\<close>

type_synonym 'u filter_fun = "nat \<times> nat \<Rightarrow> nat \<Rightarrow> int \<Rightarrow> 'u XMLParser \<Rightarrow> (bool \<times> 'u XMLParser) option"

(*@ core/rt/xml_xhtml.h 308-308 rt::XMLParser::GetDescendantLevel *)
definition GetDescendantLevel :: "'u XMLParser \<Rightarrow> nat" where
  "GetDescendantLevel s = length (m_NodePath s)"

(*@ core/rt/xml_xhtml.h 295-295 rt::XMLParser::_CurNode *)
definition CurNode :: "'u XMLParser \<Rightarrow> node option" where
  "CurNode s = (if m_NodePath s = [] then None else Some (last (m_NodePath s)))"

(*@ core/rt/xml_xhtml.h 305-305 rt::XMLParser::IsLoaded *)
definition IsLoaded :: "'u XMLParser \<Rightarrow> bool" where
  "IsLoaded s \<longleftrightarrow> m_NodePath s \<noteq> []"

(*@ core/rt/xml_xhtml.h 307-307 rt::XMLParser::SetUserTagFilter *)
definition SetUserTagFilter :: "'u tag_filter option \<Rightarrow> 'u XMLParser \<Rightarrow> 'u XMLParser" where
  "SetUserTagFilter pFilter s = s\<lparr> m_pUserTagFilter := pFilter \<rparr>"

text \<open>The constructors. What they leave uninitialised is taken from \<open>x0\<close> and \<open>junk_end\<close>; \<open>u\<close> is the state of the code that makes the filters.\<close>

(*@ core/rt/xml_xhtml.cpp 1809-1818 rt::XPathParser::XPathParser *)
definition XPathParser_new :: "XPathParser \<Rightarrow> XPathParser" where
  "XPathParser_new x0 = x0\<lparr> conv_value_temp := String_new, LastNodeSatificated := True, m_XPathParseError := ERR_XPATH_OK, m_Qualifiers := [],
    m_FinalQualifier := (m_FinalQualifier x0)\<lparr> TagName := [], Attribute := [], Value := String_new \<rparr>, m_UpLevelCount := 0, m_QualifierShifts := 0 \<rparr>"

(*@ core/rt/xml_xhtml.cpp 295-304 rt::XMLParser::XMLParser *)
definition XMLParser_new :: "XPathParser \<Rightarrow> int option \<Rightarrow> 'u \<Rightarrow> 'u XMLParser" where
  "XMLParser_new x0 junk_end u = ClearSyntaxError (SetUserTagFilter None
    \<lparr> attribute_cursor = None, root_node_xml_start = None, root_node_xml_end = junk_end, m_XMLParseError = ERR_XML_OK, m_XMLParseErrorPosition = 0,
      m_pUserTagFilter = None, m_pCurTagFilter = NullFilter, m_pDocument = 0, m_NodePath = [], m_XPathParser = XPathParser_new x0, user_state = u \<rparr>)"

(*@ core/rt/xml_xhtml.cpp 2354-2363 rt::XMLParser::_search_node_close *)
definition node_close :: "bytes \<Rightarrow> nat \<Rightarrow> bytes \<Rightarrow> 'u XMLParser \<Rightarrow> ((nat \<times> nat option) option \<times> 'u XMLParser) option" where
  "node_close m start_inner tag_name s =
    do { (err, ret, inner_end) \<leftarrow> search_node_close m start_inner tag_name;
         Some (if err \<noteq> ERR_XML_OK then (None, SetLastSyntaxError err ret s) else (Some (ret, inner_end), s)) }"

(*@ core/rt/xml_xhtml.cpp 2365-2374 rt::XMLParser::_search_special_node_close *)
definition special_close :: "bytes \<Rightarrow> nat \<Rightarrow> 'u XMLParser \<Rightarrow> (nat option \<times> 'u XMLParser) option" where
  "special_close m start_outer s =
    do { (err, ret) \<leftarrow> search_special_node_close m start_outer;
         Some (if err \<noteq> ERR_XML_OK then (None, SetLastSyntaxError err ret s) else (Some ret, s)) }"

text \<open>The characters of a view without surrounding spaces.\<close>

definition trim_view :: "bytes \<Rightarrow> nat \<times> nat \<Rightarrow> nat \<times> nat" where
  "trim_view m r = (let b = snd r - length (TrimLeftSpace (view m r)) in (b, b + length (TrimSpace (view m r))))"

(*@ core/rt/xml_xhtml.cpp 961-974 rt::XMLParser::_EnterNextNode *)
definition make_node :: "bytes \<Rightarrow> nat \<Rightarrow> nat \<Rightarrow> nat \<Rightarrow> node" where
  "make_node m ptag patt pend =
    \<lparr> n_TagName = (ptag + 1, patt),
      n_Attributes = trim_view m (patt, if m ! (pend - 1) = 47 then pend - 1 else pend),
      OuterXML_Start = ptag, InnerXML_Start = pend + 1, IsCompactNode = (m ! (pend - 1) = 47) \<rparr>"

definition beyond_root :: "nat \<Rightarrow> 'u XMLParser \<Rightarrow> bool" where
  "beyond_root p s = (case root_node_xml_end s of None \<Rightarrow> True | Some e \<Rightarrow> e \<le> int p)"

text \<open>One markup: the search ends, or goes on behind it.\<close>

datatype 'u enter_step = Entered bool "'u XMLParser" | Skip nat "'u XMLParser"

(*@ core/rt/xml_xhtml.cpp 944-976 rt::XMLParser::_EnterNextNode *)
definition enter_or_skip :: "bytes \<Rightarrow> 'u filter_fun option \<Rightarrow> bool \<Rightarrow> nat \<Rightarrow> nat \<Rightarrow> nat \<Rightarrow> 'u XMLParser \<Rightarrow> 'u enter_step option" where
  "enter_or_skip m pFilter replace_node ptag patt pend s =
    do { (pass, s) \<leftarrow> (case pFilter of None \<Rightarrow> Some (True, s)
                       | Some f \<Rightarrow> f (ptag + 1, patt) patt (int (GetDescendantLevel s) + (if replace_node then 0 else 1)) s);
         if \<not> pass then
           (if m ! (pend - 1) = 47 then Some (Skip (pend + 1) s)
            else do { (r, s) \<leftarrow> node_close m (pend + 1) (view m (ptag + 1, patt)) s;
                      Some (case r of
                          Some (q, _) \<Rightarrow> Skip (q + 1) s
                        | None \<Rightarrow> Entered False (SetLastSyntaxError ERR_NODE_CLOSURE_NOT_MATCHED ptag s)) })
         else if replace_node then
           (if m_NodePath s = [] then None
            else Some (Entered True (s\<lparr> m_NodePath := butlast (m_NodePath s) @ [make_node m ptag patt pend] \<rparr>)))
         else Some (Entered True (s\<lparr> m_NodePath := m_NodePath s @ [make_node m ptag patt pend] \<rparr>)) }"

(*@ core/rt/xml_xhtml.cpp 912-942 rt::XMLParser::_EnterNextNode *)
definition next_markup :: "bytes \<Rightarrow> 'u filter_fun option \<Rightarrow> bool \<Rightarrow> nat \<Rightarrow> 'u XMLParser \<Rightarrow> 'u enter_step option" where
  "next_markup m pFilter replace_node start s =
    do { lt \<leftarrow> seek_tag_open m start;
         case lt of
           None \<Rightarrow> Some (Entered False s)
         | Some ptag \<Rightarrow>
             do { c \<leftarrow> rd m (ptag + 1);
                  if c = 47 \<or> beyond_root ptag s then Some (Entered False s)
                  else if c = 33 \<or> c = 63 then
                    do { (r, s) \<leftarrow> special_close m ptag s;
                         Some (case r of None \<Rightarrow> Entered False s | Some q \<Rightarrow> Skip (q + 1) s) }
                  else do {
                    patt \<leftarrow> seek_symbol_end m (ptag + 1);
                    if patt = ptag + 1 then Some (Entered False (SetLastSyntaxError ERR_TAG_NAME_NOT_FOUND (ptag + 1) s))
                    else do {
                      gt \<leftarrow> seek_tag_close m patt;
                      case gt of
                        None \<Rightarrow> Some (Entered False (SetLastSyntaxError ERR_TAG_CLOSURE_NOT_MATCHED ptag s))
                      | Some pend \<Rightarrow> enter_or_skip m pFilter replace_node ptag patt pend s } } } }"

lemma enter_or_skip_gt: "enter_or_skip m f r ptag patt pend s = Some (Skip q s') \<Longrightarrow> pend < q"
  unfolding enter_or_skip_def node_close_def search_node_close_def
  by (auto dest!: search_node_close_loop_ge split: Option.bind_splits if_splits option.splits)

lemma next_markup_gt: "next_markup m f r start s = Some (Skip q s') \<Longrightarrow> start < q \<and> start < length m"
  unfolding next_markup_def special_close_def seek_tag_open_def seek_tag_close_def seek_symbol_end_def
  by (fastforce dest!: strchr_at_ge search_special_gt enter_or_skip_gt scan_while_ge split: Option.bind_splits if_splits option.splits)

(*@ core/rt/xml_xhtml.cpp 912-979 rt::XMLParser::_EnterNextNode *)
function EnterNextNode_loop :: "bytes \<Rightarrow> 'u filter_fun option \<Rightarrow> bool \<Rightarrow> nat \<Rightarrow> 'u XMLParser \<Rightarrow> (bool \<times> 'u XMLParser) option" where
  "EnterNextNode_loop m pFilter replace_node start s =
    (case next_markup m pFilter replace_node start s of
       None \<Rightarrow> None
     | Some (Entered b s) \<Rightarrow> Some (b, s)
     | Some (Skip q s) \<Rightarrow> EnterNextNode_loop m pFilter replace_node q s)"
  by pat_completeness auto
termination by (relation "measure (\<lambda>(m, f, r, p, s). length m - p)") (auto dest!: next_markup_gt)

declare EnterNextNode_loop.simps [simp del]

(*@ core/rt/xml_xhtml.cpp 904-980 rt::XMLParser::_EnterNextNode *)
definition EnterNextNode :: "bytes \<Rightarrow> 'u filter_fun option \<Rightarrow> bool \<Rightarrow> nat \<Rightarrow> 'u XMLParser \<Rightarrow> (bool \<times> 'u XMLParser) option" where
  "EnterNextNode m pFilter replace_node start s =
    (if beyond_root start s then Some (False, s) else EnterNextNode_loop m pFilter replace_node start s)"

subsection \<open>Loading and walking\<close>

text \<open>The document starts at index 0 of \<open>m\<close>, which is the memory of the caller when \<^verbatim>\<open>Keep_referring\<close> and a copy otherwise; then \<open>shift\<close> is the distance from the copy to
  the text of the caller. The end of the document is computed from the text of the caller when no length is given.\<close>

(*@ core/rt/xml_xhtml.cpp 1470-1480 rt::XMLParser::Load *)
function find_root :: "bytes \<Rightarrow> nat \<Rightarrow> 'u XMLParser \<Rightarrow> (nat option \<times> 'u XMLParser) option" where
  "find_root m start s =
    (case seek_tag_open m start of
       None \<Rightarrow> None
     | Some None \<Rightarrow> Some (None, s)
     | Some (Some lt) \<Rightarrow>
         (case rd m (lt + 1) of
            None \<Rightarrow> None
          | Some c \<Rightarrow>
              if c = 33 \<or> c = 63 then
                (case special_close m lt s of
                   None \<Rightarrow> None
                 | Some (None, s) \<Rightarrow> Some (None, s)
                 | Some (Some q, s) \<Rightarrow> find_root m (q + 1) s)
              else Some (Some lt, s)))"
  by pat_completeness auto
termination
  by (relation "measure (\<lambda>(m, p, s). length m - p)")
    (fastforce simp: seek_tag_open_def special_close_def dest!: strchr_at_ge search_special_gt split: Option.bind_splits if_splits)+

declare find_root.simps [simp del]

(*@ core/rt/xml_xhtml.cpp 1438-1491 rt::XMLParser::Load *)
definition Load :: "bytes \<Rightarrow> bool \<Rightarrow> int \<Rightarrow> int \<Rightarrow> 'u XMLParser \<Rightarrow> (bool \<times> 'u XMLParser) option" where
  "Load m Keep_referring shift len s =
    do { text \<leftarrow> cstr_at m 0;
         let root_end = (if len < 0 then (if Keep_referring then 0 else shift) + int (length text) else len);
         let doc = (if take 3 m = [0xef, 0xbb, 0xbf] then 3 else 0);
         let s = (ClearSyntaxError s)\<lparr> root_node_xml_end := Some root_end, attribute_cursor := None, m_pCurTagFilter := NullFilter,
                    m_NodePath := [], m_pDocument := doc \<rparr>;
         (r, s) \<leftarrow> find_root m doc s;
         case r of
           None \<Rightarrow> Some (False, s)
         | Some start \<Rightarrow> EnterNextNode m None False start (s\<lparr> root_node_xml_start := Some start \<rparr>) }"

definition user_filter :: "'u XMLParser \<Rightarrow> 'u cur_filter" where
  "user_filter s = (case m_pUserTagFilter s of None \<Rightarrow> NullFilter | Some f \<Rightarrow> UserFilter f)"

(*@ core/rt/xml_xhtml.cpp 1493-1499 rt::XMLParser::EnterRootNode *)
definition EnterRootNode :: "'u XMLParser \<Rightarrow> 'u XMLParser option" where
  "EnterRootNode s =
    (if m_NodePath s = [] then None
     else Some (s\<lparr> attribute_cursor := None, m_NodePath := take 1 (m_NodePath s), m_pCurTagFilter := user_filter s \<rparr>))"

(*@ core/rt/xml_xhtml.cpp 1501-1511 rt::XMLParser::EnterParentNode *)
definition EnterParentNode :: "'u XMLParser \<Rightarrow> bool \<times> 'u XMLParser" where
  "EnterParentNode s =
    (let s = s\<lparr> attribute_cursor := None \<rparr> in
     if GetDescendantLevel s > 1 then (True, s\<lparr> m_NodePath := butlast (m_NodePath s) \<rparr>) else (False, s))"

definition cur_filter_fun :: "allocator \<Rightarrow> bytes \<Rightarrow> 'u XMLParser \<Rightarrow> 'u filter_fun option" where
  "cur_filter_fun alloc m s =
    (case m_pCurTagFilter s of
       NullFilter \<Rightarrow> None
     | UserFilter f \<Rightarrow>
         Some (\<lambda>tag attributes level s. case f (view m tag) attributes level (user_state s) of (b, u) \<Rightarrow> Some (b, s\<lparr> user_state := u \<rparr>))
     | XPathFilter \<Rightarrow> Some (\<lambda>tag attributes level s. TagTest alloc m (view m tag) attributes level s))"

(*@ core/rt/xml_xhtml.cpp 1513-1524 rt::XMLParser::EnterNextSiblingNode *)
definition EnterNextSiblingNode :: "allocator \<Rightarrow> bytes \<Rightarrow> 'u XMLParser \<Rightarrow> (bool \<times> 'u XMLParser) option" where
  "EnterNextSiblingNode alloc m s =
    (case CurNode s of
       None \<Rightarrow> Some (False, s)
     | Some n \<Rightarrow>
         do { let s = s\<lparr> attribute_cursor := None \<rparr>;
              (close, s) \<leftarrow> (if IsCompactNode n then Some (Some (InnerXML_Start n - 1), s)
                             else map_option (\<lambda>(r, s). (map_option fst r, s)) (node_close m (InnerXML_Start n) (view m (n_TagName n)) s));
              case close of
                None \<Rightarrow> Some (False, s)
              | Some close \<Rightarrow> EnterNextNode m (cur_filter_fun alloc m s) True (close + 1) s })"

(*@ core/rt/xml_xhtml.cpp 1533-1544 rt::XMLParser::EnterFirstChildNode *)
definition name_filter :: "bytes \<Rightarrow> bytes \<Rightarrow> 'u filter_fun option \<Rightarrow> 'u filter_fun" where
  "name_filter m name CurFilter tag attributes level s =
    (if \<not> Str_equal (view m tag) name then Some (False, s)
     else case CurFilter of Some f \<Rightarrow> f tag attributes level s | None \<Rightarrow> Some (True, s))"

(*@ core/rt/xml_xhtml.cpp 1526-1562 rt::XMLParser::EnterFirstChildNode *)
definition EnterFirstChildNode :: "allocator \<Rightarrow> bytes \<Rightarrow> bytes option \<Rightarrow> 'u XMLParser \<Rightarrow> (bool \<times> 'u XMLParser) option" where
  "EnterFirstChildNode alloc m tag_name s =
    (if (case CurNode s of Some n \<Rightarrow> IsCompactNode n | None \<Rightarrow> False) then Some (False, s)
     else
       let s = s\<lparr> attribute_cursor := None \<rparr>;
           pfilter = (case tag_name of Some name \<Rightarrow> Some (name_filter m name (cur_filter_fun alloc m s)) | None \<Rightarrow> cur_filter_fun alloc m s) in
       case CurNode s of
         Some n \<Rightarrow> EnterNextNode m pfilter False (InnerXML_Start n) s
       | None \<Rightarrow>
           (case root_node_xml_start s of
              Some start \<Rightarrow> EnterNextNode m pfilter False start s
            | None \<Rightarrow> if root_node_xml_end s = None then Some (False, s) else None))"

(*@ core/rt/xml_xhtml.cpp 1573-1581 rt::XMLParser::EnterNextSiblingNode(UINT) *)
fun EnterNextSiblingNode_nth :: "allocator \<Rightarrow> bytes \<Rightarrow> nat \<Rightarrow> 'u XMLParser \<Rightarrow> (bool \<times> 'u XMLParser) option" where
  "EnterNextSiblingNode_nth alloc m 0 s = Some (True, s)"
| "EnterNextSiblingNode_nth alloc m (Suc n) s =
    do { (b, s) \<leftarrow> EnterNextSiblingNode alloc m s; if b then EnterNextSiblingNode_nth alloc m n s else Some (False, s) }"

(*@ core/rt/xml_xhtml.cpp 1564-1571 rt::XMLParser::EnterChildNode *)
definition EnterChildNode :: "allocator \<Rightarrow> bytes \<Rightarrow> u32 \<Rightarrow> bytes option \<Rightarrow> 'u XMLParser \<Rightarrow> (bool \<times> 'u XMLParser) option" where
  "EnterChildNode alloc m n_th tag_name s =
    do { (b, s) \<leftarrow> EnterFirstChildNode alloc m tag_name s;
         if b then EnterNextSiblingNode_nth alloc m (unat (n_th - 1)) s else Some (False, s) }"

text \<open>The element that follows in document order. The loops over the ancestors and over the elements that an XPath does not select are partial functions.\<close>

(*@ core/rt/xml_xhtml.cpp 1961-1964 rt::XMLParser::EnterSucceedNode *)
partial_function (option) climb :: "allocator \<Rightarrow> bytes \<Rightarrow> 'u XMLParser \<Rightarrow> (bool \<times> 'u XMLParser) option" where
  "climb alloc m s =
    (if m_XMLParseError s \<noteq> ERR_XML_OK then Some (False, s)
     else if \<not> fst (EnterParentNode s) then Some (False, snd (EnterParentNode s))
     else do { (b, s) \<leftarrow> EnterNextSiblingNode alloc m (snd (EnterParentNode s));
               if b then Some (True, s) else climb alloc m s })"

(*@ core/rt/xml_xhtml.cpp 1954-1967 rt::XMLParser::EnterSucceedNode *)
definition succeed_plain :: "allocator \<Rightarrow> bytes \<Rightarrow> 'u XMLParser \<Rightarrow> (bool \<times> 'u XMLParser) option" where
  "succeed_plain alloc m s =
    do { (b, s) \<leftarrow> EnterFirstChildNode alloc m None s;
         if b then Some (True, s)
         else if m_XMLParseError s \<noteq> ERR_XML_OK then Some (False, s)
         else do { (b, s) \<leftarrow> EnterNextSiblingNode alloc m s; if b then Some (True, s) else climb alloc m s } }"

(*@ core/rt/xml_xhtml.cpp 1982-1987 rt::XMLParser::EnterSucceedNode *)
partial_function (option) xpath_climb :: "allocator \<Rightarrow> bytes \<Rightarrow> 'u XMLParser \<Rightarrow> (bool \<times> 'u XMLParser) option" where
  "xpath_climb alloc m s =
    (if int (GetDescendantLevel s) > m_QualifierShifts (m_XPathParser s) + 1 then
       (if m_XMLParseError s \<noteq> ERR_XML_OK then Some (False, s)
        else if \<not> fst (EnterParentNode s) then Some (False, snd (EnterParentNode s))
        else do { (b, s) \<leftarrow> EnterNextSiblingNode alloc m (snd (EnterParentNode s));
                  if b then Some (True, s) else xpath_climb alloc m s })
     else Some (False, s))"

(*@ core/rt/xml_xhtml.cpp 1972-1990 rt::XMLParser::EnterSucceedNode *)
definition xpath_step :: "allocator \<Rightarrow> bytes \<Rightarrow> 'u XMLParser \<Rightarrow> (bool \<times> 'u XMLParser) option" where
  "xpath_step alloc m s =
    do { let x = m_XPathParser s;
         let inside = (m_bIncludeDescendants x \<or> int (length (m_NodePath s)) < m_QualifierShifts x + int (length (m_Qualifiers x)) + 1);
         (b, s) \<leftarrow> (if inside then EnterFirstChildNode alloc m None s else Some (False, s));
         if b then Some (True, s)
         else if inside \<and> m_XMLParseError s \<noteq> ERR_XML_OK then Some (False, s)
         else do { (b, s) \<leftarrow> EnterNextSiblingNode alloc m s; if b then Some (True, s) else xpath_climb alloc m s } }"

(*@ core/rt/xml_xhtml.cpp 1970-1996 rt::XMLParser::EnterSucceedNode *)
partial_function (option) succeed_xpath :: "allocator \<Rightarrow> bytes \<Rightarrow> 'u XMLParser \<Rightarrow> (bool \<times> 'u XMLParser) option" where
  "succeed_xpath alloc m s =
    do { (b, s) \<leftarrow> xpath_step alloc m s;
         if \<not> b then Some (False, s)
         else if LastNodeSatificated (m_XPathParser s) then Some (True, s)
         else succeed_xpath alloc m s }"

(*@ core/rt/xml_xhtml.cpp 1950-2000 rt::XMLParser::EnterSucceedNode *)
definition EnterSucceedNode :: "allocator \<Rightarrow> bytes \<Rightarrow> 'u XMLParser \<Rightarrow> (bool \<times> 'u XMLParser) option" where
  "EnterSucceedNode alloc m s =
    (let s = s\<lparr> attribute_cursor := None \<rparr> in
     case m_pCurTagFilter s of XPathFilter \<Rightarrow> succeed_xpath alloc m s | _ \<Rightarrow> succeed_plain alloc m s)"

subsection \<open>XPath\<close>

(*@ core/rt/xml_xhtml.cpp 1583-1587 rt::XMLParser::ClearXPathFilter *)
definition ClearXPathFilter :: "'u XMLParser \<Rightarrow> 'u XMLParser" where
  "ClearXPathFilter s = upd_xpath XPath_Clear (s\<lparr> m_pCurTagFilter := user_filter s \<rparr>)"

(*@ core/rt/xml_xhtml.cpp 1589-1592 rt::XMLParser::EscapeXPath *)
definition EscapeXPath :: "'u XMLParser \<Rightarrow> 'u XMLParser" where
  "EscapeXPath s = ClearXPathFilter s"

(*@ core/rt/xml_xhtml.cpp 983-992 rt::XMLParser::Clear *)
definition XML_Clear :: "'u XMLParser \<Rightarrow> 'u XMLParser" where
  "XML_Clear s = (ClearXPathFilter (s\<lparr> attribute_cursor := None, root_node_xml_start := None, root_node_xml_end := None,
    m_XMLParseError := ERR_XML_OK, m_XMLParseErrorPosition := 0 \<rparr>))\<lparr> m_pDocument := 0, m_NodePath := [] \<rparr>"

(*@ core/rt/xml_xhtml.cpp 1730-1733 rt::XMLParser::EnterXPath *)
fun up_levels :: "nat \<Rightarrow> 'u XMLParser \<Rightarrow> bool \<times> 'u XMLParser" where
  "up_levels 0 s = (True, s)"
| "up_levels (Suc n) s =
    (let s = upd_xpath (\<lambda>x. x\<lparr> m_UpLevelCount := int n \<rparr>) s in
     case EnterParentNode s of (b, s) \<Rightarrow> if b then up_levels n s else (False, s))"

text \<open>The path is at \<open>b\<close> in the memory \<open>xm\<close>.\<close>

(*@ core/rt/xml_xhtml.cpp 1710-1752 rt::XMLParser::EnterXPath *)
definition EnterXPath :: "allocator \<Rightarrow> bytes \<Rightarrow> Qualifier \<Rightarrow> bytes \<Rightarrow> nat option \<Rightarrow> 'u XMLParser \<Rightarrow> (bool \<times> 'u XMLParser) option" where
  "EnterXPath alloc m blank xm xpath s =
    (case xpath of
       None \<Rightarrow> Some (False, s)
     | Some b \<Rightarrow>
         do { let s = ClearSyntaxError (ClearXPathFilter (s\<lparr> attribute_cursor := None \<rparr>));
              (ok, x) \<leftarrow> XPath_Load alloc blank xm b (m_XPathParser s);
              let s = s\<lparr> m_XPathParser := x \<rparr>;
              if \<not> ok then Some (False, s)
              else if \<not> m_bRelativePath x then
                EnterSucceedNode alloc m (upd_xpath (\<lambda>x. x\<lparr> m_QualifierShifts := 0 \<rparr>) (s\<lparr> m_NodePath := [], m_pCurTagFilter := XPathFilter \<rparr>))
              else if m_UpLevelCount x = int (GetDescendantLevel s) then
                EnterSucceedNode alloc m (upd_xpath (\<lambda>x. x\<lparr> m_UpLevelCount := 0, m_QualifierShifts := 0, m_bRelativePath := False \<rparr>)
                  (s\<lparr> m_NodePath := [], m_pCurTagFilter := XPathFilter \<rparr>))
              else
                (case up_levels (nat (m_UpLevelCount x)) s of
                   (False, s) \<Rightarrow> map_option (Pair False) (EnterRootNode s)
                 | (True, s) \<Rightarrow>
                     do { n \<leftarrow> CurNode s;
                          EnterSucceedNode alloc m (upd_xpath (\<lambda>x. x\<lparr> m_QualifierShifts := int (GetDescendantLevel s) \<rparr>)
                            (s\<lparr> root_node_xml_start := Some (OuterXML_Start n), m_pCurTagFilter := XPathFilter \<rparr>)) }) })"

subsection \<open>The current element\<close>

text \<open>A member function that may set a syntax error returns the new state too. Without a current element nothing is defined: \<open>None\<close>.\<close>

(*@ core/rt/xml_xhtml.cpp 2801-2804 rt::XMLParser::GetNodeName *)
definition GetNodeName :: "'u XMLParser \<Rightarrow> (nat \<times> nat) option" where
  "GetNodeName s = map_option n_TagName (CurNode s)"

(*@ core/rt/xml_xhtml.cpp 2806-2809 rt::XMLParser::GetNodeName(String) *)
definition GetNodeName_String :: "allocator \<Rightarrow> bytes \<Rightarrow> String \<Rightarrow> 'u XMLParser \<Rightarrow> String option" where
  "GetNodeName_String alloc m name s = do { v \<leftarrow> GetNodeName s; String_assign alloc (view m v) name }"

(*@ core/rt/xml_xhtml.cpp 899-902 rt::XMLParser::GetNodeDocumentOffset *)
definition GetNodeDocumentOffset :: "'u XMLParser \<Rightarrow> nat option" where
  "GetNodeDocumentOffset s = map_option (\<lambda>n. OuterXML_Start n - m_pDocument s) (CurNode s)"

(*@ core/rt/xml_xhtml.cpp 2143-2155 rt::XMLParser::GetInnerXML *)
definition GetInnerXML :: "bytes \<Rightarrow> 'u XMLParser \<Rightarrow> ((nat \<times> nat) option \<times> 'u XMLParser) option" where
  "GetInnerXML m s =
    do { n \<leftarrow> CurNode s;
         if IsCompactNode n then Some (None, s)
         else do { (r, s) \<leftarrow> node_close m (InnerXML_Start n) (view m (n_TagName n)) s;
                   Some (case r of Some (_, Some e) \<Rightarrow> Some (trim_view m (InnerXML_Start n, e)) | _ \<Rightarrow> None, s) } }"

(*@ core/rt/xml_xhtml.cpp 2028-2044 rt::XMLParser::GetInnerXML(String) *)
definition GetInnerXML_String :: "allocator \<Rightarrow> bytes \<Rightarrow> String \<Rightarrow> 'u XMLParser \<Rightarrow> (bool \<times> String \<times> 'u XMLParser) option" where
  "GetInnerXML_String alloc m text s =
    do { n \<leftarrow> CurNode s;
         if IsCompactNode n then map_option (\<lambda>t. (True, t, s)) (String_Empty alloc text)
         else do { (r, s) \<leftarrow> node_close m (InnerXML_Start n) (view m (n_TagName n)) s;
                   case r of
                     Some (_, Some e) \<Rightarrow> map_option (\<lambda>t. (True, t, s)) (String_assign alloc (TrimSpace (view m (InnerXML_Start n, e))) text)
                   | _ \<Rightarrow> map_option (\<lambda>t. (False, t, s)) (String_Empty alloc text) } }"

(*@ core/rt/xml_xhtml.cpp 2255-2269 rt::XMLParser::GetOuterXML *)
definition GetOuterXML :: "bytes \<Rightarrow> 'u XMLParser \<Rightarrow> ((nat \<times> nat) option \<times> 'u XMLParser) option" where
  "GetOuterXML m s =
    do { n \<leftarrow> CurNode s;
         if IsCompactNode n then Some (Some (OuterXML_Start n, InnerXML_Start n), s)
         else do { (r, s) \<leftarrow> node_close m (InnerXML_Start n) (view m (n_TagName n)) s;
                   Some (map_option (\<lambda>r. (OuterXML_Start n, fst r + 1)) r, s) } }"

(*@ core/rt/xml_xhtml.cpp 2230-2253 rt::XMLParser::GetOuterXML(String) *)
definition GetOuterXML_String :: "allocator \<Rightarrow> bytes \<Rightarrow> String \<Rightarrow> 'u XMLParser \<Rightarrow> (bool \<times> String \<times> 'u XMLParser) option" where
  "GetOuterXML_String alloc m text s =
    do { n \<leftarrow> CurNode s;
         (r, s) \<leftarrow> GetOuterXML m s;
         case r of
           None \<Rightarrow> map_option (\<lambda>t. (False, t, s)) (String_Empty alloc text)
         | Some v \<Rightarrow>
             do { (ok, t) \<leftarrow> String_SetLength alloc (snd v - fst v) text;
                  if \<not> ok then map_option (\<lambda>t. (False, t, SetLastSyntaxError ERR_XML_OUT_OF_MEMORY (OuterXML_Start n) s)) (String_Empty alloc t)
                  else map_option (\<lambda>t. (True, t, s)) (s_put 0 (view m v) t) } }"

(*@ core/rt/xml_xhtml.cpp 2157-2183 rt::XMLParser::GetInnerText *)
definition GetInnerText :: "allocator \<Rightarrow> bytes \<Rightarrow> bool \<Rightarrow> String \<Rightarrow> 'u XMLParser \<Rightarrow> (bool \<times> String \<times> 'u XMLParser) option" where
  "GetInnerText alloc m no_text_from_subnodes text s =
    do { n \<leftarrow> CurNode s;
         if IsCompactNode n then map_option (\<lambda>t. (True, t, s)) (String_Empty alloc text)
         else do { (r, s) \<leftarrow> node_close m (InnerXML_Start n) (view m (n_TagName n)) s;
                   case r of
                     Some (_, Some e) \<Rightarrow>
                       do { let out = TrimSpace (view m (InnerXML_Start n, e));
                            if out \<noteq> [] then
                              do { (_, t) \<leftarrow> String_SetLength alloc (length out) text;
                                   t \<leftarrow> convert_xml_to_text alloc m (InnerXML_Start n, e) True no_text_from_subnodes 32 t;
                                   Some (True, t, s) }
                            else map_option (\<lambda>t. (True, t, s)) (String_Empty alloc text) }
                   | _ \<Rightarrow> map_option (\<lambda>t. (False, t, s)) (String_Empty alloc text) } }"

(*@ core/rt/xml_xhtml.cpp 2185-2188 rt::XMLParser::ExtractInnerText *)
definition ExtractInnerText :: "allocator \<Rightarrow> bytes \<Rightarrow> nat \<times> nat \<Rightarrow> byte \<Rightarrow> String \<Rightarrow> String option" where
  "ExtractInnerText alloc m doc sep out = convert_xml_to_text alloc m doc True False sep out"

(*@ core/rt/xml_xhtml.cpp 2191-2212 rt::XMLParser::GetInnerCDATA *)
definition GetInnerCDATA :: "bytes \<Rightarrow> 'u XMLParser \<Rightarrow> (bytes option \<times> 'u XMLParser) option" where
  "GetInnerCDATA m s =
    do { n \<leftarrow> CurNode s;
         if IsCompactNode n then Some (None, s)
         else do { (r, s) \<leftarrow> node_close m (InnerXML_Start n) (view m (n_TagName n)) s;
                   Some (case r of
                       Some (_, Some e) \<Rightarrow>
                         (let a = TrimSpace (view m (InnerXML_Start n, e)) in
                          if StartsWith (lit ''<![CDATA['') a \<and> EndsWith (lit '']]>'') a then Some (TrimRight 3 (TrimLeft 9 a)) else None)
                     | _ \<Rightarrow> None, s) } }"

(*@ core/rt/xml_xhtml.cpp 2215-2227 rt::XMLParser::GetAttributesXML *)
definition GetAttributesXML :: "allocator \<Rightarrow> bytes \<Rightarrow> String \<Rightarrow> 'u XMLParser \<Rightarrow> (bool \<times> String) option" where
  "GetAttributesXML alloc m text s =
    do { n \<leftarrow> CurNode s;
         if snd (n_Attributes n) \<noteq> fst (n_Attributes n) then
           do { (_, t) \<leftarrow> String_SetLength alloc (snd (n_Attributes n) - fst (n_Attributes n)) text;
                map_option (Pair True) (s_put 0 (view m (n_Attributes n)) t) }
         else map_option (Pair False) (String_Empty alloc text) }"

subsection \<open>Attributes\<close>

definition cur_attribute :: "bytes \<Rightarrow> bytes \<Rightarrow> 'u XMLParser \<Rightarrow> ((nat \<times> nat) option \<times> 'u XMLParser) option" where
  "cur_attribute m name s =
    do { n \<leftarrow> CurNode s;
         if snd (n_Attributes n) = fst (n_Attributes n) then Some (None, s)
         else do { (r, err) \<leftarrow> search_attrib m (fst (n_Attributes n)) name; Some (r, note_error err s) } }"

(*@ core/rt/xml_xhtml.cpp 2271-2280 rt::XMLParser::HasAttribute *)
definition HasAttribute :: "bytes \<Rightarrow> bytes \<Rightarrow> 'u XMLParser \<Rightarrow> (bool \<times> 'u XMLParser) option" where
  "HasAttribute m name s = map_option (\<lambda>(r, s). (r \<noteq> None, s)) (cur_attribute m name s)"

(*@ core/rt/xml_xhtml.cpp 2282-2293 rt::XMLParser::GetAttribute *)
definition GetAttribute :: "allocator \<Rightarrow> bytes \<Rightarrow> bytes \<Rightarrow> String \<Rightarrow> 'u XMLParser \<Rightarrow> (bool \<times> String \<times> 'u XMLParser) option" where
  "GetAttribute alloc m name val s =
    do { (r, s) \<leftarrow> cur_attribute m name s;
         case r of
           Some v \<Rightarrow> map_option (\<lambda>t. (True, t, s)) (convert_xml_to_text alloc m v False False 32 val)
         | None \<Rightarrow> map_option (\<lambda>t. (False, t, s)) (String_Empty alloc val) }"

(*@ core/rt/xml_xhtml.cpp 2295-2306 rt::XMLParser::GetAttribute *)
definition GetAttribute_default :: "allocator \<Rightarrow> bytes \<Rightarrow> bytes \<Rightarrow> bytes \<Rightarrow> String \<Rightarrow> 'u XMLParser \<Rightarrow> (bool \<times> String \<times> 'u XMLParser) option" where
  "GetAttribute_default alloc m name default_value val s =
    do { (r, s) \<leftarrow> cur_attribute m name s;
         case r of
           Some v \<Rightarrow> map_option (\<lambda>t. (True, t, s)) (convert_xml_to_text alloc m v False False 32 val)
         | None \<Rightarrow> map_option (\<lambda>t. (False, t, s)) (String_assign alloc default_value val) }"

(*@ core/rt/xml_xhtml.cpp 2309-2318 rt::XMLParser::GetAttribute_Path *)
definition GetAttribute_Path :: "allocator \<Rightarrow> bytes \<Rightarrow> bytes \<Rightarrow> String \<Rightarrow> 'u XMLParser \<Rightarrow> (bool \<times> String \<times> 'u XMLParser) option" where
  "GetAttribute_Path alloc m name val s =
    do { (b, t, s) \<leftarrow> GetAttribute alloc m name val s;
         if b then
           do { c \<leftarrow> rd_behind (s_p t) (s_GetLength t);
                t \<leftarrow> (if c = 92 \<or> c = 47 then map_option snd (String_SetLength alloc (s_GetLength t - 1) t) else Some t);
                Some (True, t, s) }
         else Some (False, t, s) }"

text \<open>\<^verbatim>\<open>atoi\<close> of a C string: white space, a sign and digits. A value outside of \<^verbatim>\<open>int\<close> is undefined.\<close>

definition is_c_space :: "byte \<Rightarrow> bool" where
  "is_c_space c \<longleftrightarrow> c = 32 \<or> 9 \<le> c_int c \<and> c_int c \<le> 13"

definition atoi :: "bytes \<Rightarrow> int option" where
  "atoi t =
    (let u = dropWhile is_c_space (takeWhile (\<lambda>c. c \<noteq> 0) t);
         neg = (u \<noteq> [] \<and> hd u = 45);
         ds = takeWhile is_decimal (if u \<noteq> [] \<and> (hd u = 45 \<or> hd u = 43) then tl u else u);
         a = foldl (\<lambda>a c. a * 10 + (c_int c - 48)) 0 ds;
         v = (if neg then - a else a) in
     if - (2 ^ 31) \<le> v \<and> v < 2 ^ 31 then Some v else None)"

text \<open>The getters read the attribute into a fresh string. An empty value has a null pointer when nothing was allocated: \<^verbatim>\<open>atoi\<close> of it is \<open>None\<close>.\<close>

definition string_atoi :: "String \<Rightarrow> int option" where
  "string_atoi t = (if s_p t = [] then None else atoi (s_p t))"

(*@ core/rt/xml_xhtml.cpp 2321-2329 rt::XMLParser::GetAttribute_Int *)
definition GetAttribute_Int :: "allocator \<Rightarrow> bytes \<Rightarrow> bytes \<Rightarrow> int \<Rightarrow> 'u XMLParser \<Rightarrow> (int \<times> 'u XMLParser) option" where
  "GetAttribute_Int alloc m name dd s =
    do { (b, t, s) \<leftarrow> GetAttribute alloc m name String_new s;
         if b then do { v \<leftarrow> string_atoi t; Some (v, s) } else Some (dd, s) }"

(*@ core/rt/xml_xhtml.cpp 2331-2340 rt::XMLParser::GetAttribute_Bool *)
definition GetAttribute_Bool :: "allocator \<Rightarrow> bytes \<Rightarrow> bytes \<Rightarrow> bool \<Rightarrow> 'u XMLParser \<Rightarrow> (bool \<times> 'u XMLParser) option" where
  "GetAttribute_Bool alloc m name default_value s =
    do { (b, t, s) \<leftarrow> GetAttribute alloc m name String_new s;
         if b then
           do { v \<leftarrow> string_atoi t;
                c \<leftarrow> rd (s_p t) 0;
                Some (v \<noteq> 0 \<or> c = 116 \<or> c = 84 \<or> c = 121 \<or> c = 89, s) }
         else Some (default_value, s) }"

(*@ core/rt/xml_xhtml.cpp 2342-2352 rt::XMLParser::GetAttribute_Int64 *)
definition GetAttribute_Int64 :: "allocator \<Rightarrow> bytes \<Rightarrow> bytes \<Rightarrow> 64 word \<Rightarrow> 'u XMLParser \<Rightarrow> (64 word \<times> 'u XMLParser) option" where
  "GetAttribute_Int64 alloc m name dd s =
    do { (b, t, s) \<leftarrow> GetAttribute alloc m name String_new s;
         Some (if b then snd (ToNumber_default 10 True (s_text t) :: int \<times> 64 word) else dd, s) }"

(*@ core/rt/xml_xhtml.cpp 2417-2424 rt::XMLParser::GetAttribute_FileSize *)
definition size_unit :: "byte \<Rightarrow> u64" where
  "size_unit c =
    (if c = 107 \<or> c = 75 then 2 ^ 10 else if c = 109 \<or> c = 77 then 2 ^ 20 else if c = 103 \<or> c = 71 then 2 ^ 30
     else if c = 116 \<or> c = 84 then 2 ^ 40 else 1)"

text \<open>\<^verbatim>\<open>UINT i\<close> is \<open>2^32 - 1\<close> when \<^verbatim>\<open>ToNumber\<close> finds no digit, and \<^verbatim>\<open>value[i]\<close> is then outside: \<open>None\<close>.\<close>

(*@ core/rt/xml_xhtml.cpp 2406-2429 rt::XMLParser::GetAttribute_FileSize *)
definition GetAttribute_FileSize :: "allocator \<Rightarrow> bytes \<Rightarrow> bytes \<Rightarrow> u64 \<Rightarrow> 'u XMLParser \<Rightarrow> (u64 \<times> 'u XMLParser) option" where
  "GetAttribute_FileSize alloc m name dd s =
    do { (b, t, s) \<leftarrow> GetAttribute alloc m name String_new s;
         if \<not> b then Some (dd, s)
         else
           (case ToNumber_default 10 False (s_text t) of
              (r, sz) \<Rightarrow>
                if r < 0 then None
                else do { c \<leftarrow> rd (s_p t) (skip_while (\<lambda>c. c_int c \<le> 32) (s_text t) (nat r)); Some (sz * size_unit c, s) }) }"

(*@ core/rt/xml_xhtml.cpp 2469-2492 rt::XMLParser::GetAttribute_IntRef *)
definition GetAttribute_IntRef :: "allocator \<Rightarrow> bytes \<Rightarrow> bytes \<Rightarrow> int option \<Rightarrow> int \<Rightarrow> 'u XMLParser \<Rightarrow> (bool \<times> int \<times> 'u XMLParser) option" where
  "GetAttribute_IntRef alloc m name default_value val s =
    do { (b, t, s) \<leftarrow> GetAttribute alloc m name String_new s;
         if b then do { v \<leftarrow> string_atoi t; Some (True, v, s) }
         else Some (False, case default_value of Some d \<Rightarrow> d | None \<Rightarrow> val, s) }"

(*@ core/rt/xml_xhtml.cpp 2444-2467 rt::XMLParser::GetAttribute_BoolRef *)
definition GetAttribute_BoolRef :: "allocator \<Rightarrow> bytes \<Rightarrow> bytes \<Rightarrow> bool option \<Rightarrow> bool \<Rightarrow> 'u XMLParser \<Rightarrow> (bool \<times> bool \<times> 'u XMLParser) option" where
  "GetAttribute_BoolRef alloc m name default_value val s =
    do { (b, t, s) \<leftarrow> GetAttribute alloc m name String_new s;
         if b then do { v \<leftarrow> string_atoi t; Some (True, v \<noteq> 0, s) }
         else Some (False, case default_value of Some d \<Rightarrow> d | None \<Rightarrow> val, s) }"

(*@ core/rt/xml_xhtml.cpp 2527-2538 rt::XMLParser::GetNextAttribute *)
definition GetNextAttribute :: "bytes \<Rightarrow> 'u XMLParser \<Rightarrow> ((bytes \<times> bytes) option \<times> 'u XMLParser) option" where
  "GetNextAttribute m s =
    do { c \<leftarrow> attribute_cursor s;
         (r, err) \<leftarrow> seek_next_attrib m c;
         let s = note_error err s;
         Some (case r of None \<Rightarrow> (None, s) | Some (p, n, v) \<Rightarrow> (Some (view m n, view m v), s\<lparr> attribute_cursor := Some p \<rparr>)) }"

(*@ core/rt/xml_xhtml.cpp 2520-2525 rt::XMLParser::GetFirstAttribute *)
definition GetFirstAttribute :: "bytes \<Rightarrow> 'u XMLParser \<Rightarrow> ((bytes \<times> bytes) option \<times> 'u XMLParser) option" where
  "GetFirstAttribute m s =
    do { n \<leftarrow> CurNode s;
         if snd (n_Attributes n) = fst (n_Attributes n) then Some (None, s)
         else GetNextAttribute m (s\<lparr> attribute_cursor := Some (fst (n_Attributes n)) \<rparr>) }"

subsection \<open>Whole documents\<close>

(*@ core/rt/xml_xhtml.cpp 319-319 rt::XMLParser::GetNodeDocument *)
fun back_blanks :: "bytes \<Rightarrow> nat \<Rightarrow> nat \<Rightarrow> nat" where
  "back_blanks m doc 0 = 0"
| "back_blanks m doc (Suc p) = (if doc < Suc p \<and> (m ! p = 9 \<or> m ! p = 32) then back_blanks m doc p else Suc p)"

(*@ core/rt/xml_xhtml.cpp 316-338 rt::XMLParser::GetNodeDocument *)
definition GetNodeDocument :: "allocator \<Rightarrow> bytes \<Rightarrow> String \<Rightarrow> 'u XMLParser \<Rightarrow> (bool \<times> String \<times> 'u XMLParser) option" where
  "GetNodeDocument alloc m doc_out s =
    do { n \<leftarrow> CurNode s;
         let p = back_blanks m (m_pDocument s) (OuterXML_Start n);
         (pend, s) \<leftarrow> (if IsCompactNode n then map_option (\<lambda>r. (r, s)) (seek_tag_close m (OuterXML_Start n))
                       else map_option (\<lambda>(r, s). (map_option fst r, s)) (node_close m (InnerXML_Start n) (view m (n_TagName n)) s));
         case pend of
           Some pend \<Rightarrow>
             map_option (\<lambda>t. (True, t, s))
               (String_assign_expr alloc (AddExpr (AddExpr (Ref g_XML_Header) (Ref [13, 10])) (Ref (view m (p, pend + 1)))) doc_out)
         | None \<Rightarrow>
             do { r \<leftarrow> root_node_xml_start s;
                  Some (False, doc_out, s\<lparr> m_XMLParseError := ERR_NODE_CLOSURE_NOT_MATCHED, m_XMLParseErrorPosition := p - r \<rparr>) } }"

text \<open>The document of an element as a parser of its own. The end may be null.\<close>

(*@ core/rt/xml_xhtml.cpp 345-365 rt::XMLParser::GetNodeDocument(int) *)
definition GetNodeDocument_parser :: "bytes \<Rightarrow> nat \<Rightarrow> 'u XMLParser \<Rightarrow> 'u XMLParser \<Rightarrow> ('u XMLParser \<times> 'u XMLParser) option" where
  "GetNodeDocument_parser m nth_parent fresh_parser s =
    (if nth_parent < length (m_NodePath s) then
       do { let out = m_NodePath s ! (length (m_NodePath s) - 1 - nth_parent);
            (e, s) \<leftarrow> (if IsCompactNode out then map_option (\<lambda>r. (r, s)) (seek_tag_close m (OuterXML_Start out))
                       else map_option (\<lambda>(r, s). (map_option fst r, s)) (node_close m (InnerXML_Start out) (view m (n_TagName out)) s));
            Some (fresh_parser\<lparr> m_pUserTagFilter := m_pUserTagFilter s, m_pCurTagFilter := user_filter s, user_state := user_state s,
              root_node_xml_start := Some (OuterXML_Start out), root_node_xml_end := map_option int e,
              m_pDocument := OuterXML_Start out, m_NodePath := [out] \<rparr>, s) }
     else None)"

text \<open>A listing of the elements from the current one on. The blanks of the indentation are an array of 256 characters.\<close>

datatype dump_line = DumpError XMLParseError | DumpLine bytes

definition blanks :: "nat \<Rightarrow> bytes option" where
  "blanks n = (if n \<le> 256 then Some (replicate n 32) else None)"

(*@ core/rt/xml_xhtml.cpp 2016-2024 rt::XMLParser::TextDump *)
definition dump_node :: "allocator \<Rightarrow> bytes \<Rightarrow> String \<Rightarrow> 'u XMLParser \<Rightarrow> (bytes \<times> String) option" where
  "dump_node alloc m att s =
    do { name \<leftarrow> GetNodeName s;
         (b, att) \<leftarrow> GetAttributesXML alloc m att s;
         sp \<leftarrow> blanks (if b then (GetDescendantLevel s - 1) * 2 else GetDescendantLevel s * 2);
         Some (sp @ 60 # view m name @ 62 # (if b then lit '' [ '' @ s_text att @ lit '' ]'' else []), att) }"

(*@ core/rt/xml_xhtml.cpp 2010-2025 rt::XMLParser::TextDump *)
partial_function (option) TextDump_loop :: "allocator \<Rightarrow> bytes \<Rightarrow> String \<Rightarrow> 'u XMLParser \<Rightarrow> dump_line list option" where
  "TextDump_loop alloc m att s =
    (if m_XMLParseError s \<noteq> ERR_XML_OK then Some [DumpError (m_XMLParseError s)]
     else do { (line, att) \<leftarrow> dump_node alloc m att s;
               (b, s) \<leftarrow> EnterSucceedNode alloc m s;
               if b then do { rest \<leftarrow> TextDump_loop alloc m att s; Some (DumpLine line # rest) } else Some [DumpLine line] })"

(*@ core/rt/xml_xhtml.cpp 2002-2026 rt::XMLParser::TextDump *)
definition TextDump :: "allocator \<Rightarrow> bytes \<Rightarrow> 'u XMLParser \<Rightarrow> dump_line list option" where
  "TextDump alloc m s = (if GetDescendantLevel s = 0 then Some [] else TextDump_loop alloc m String_new s)"

end
