(* ===== verification/XmlText.thy ===== *)
theory XmlText
  imports XmlNode
begin

text \<open>
  \<^verbatim>\<open>rt::XMLParser\<close> on the documents of \<^verbatim>\<open>rt::XMLComposer\<close>: loading enters the root, \<^verbatim>\<open>EnterSucceedNode\<close> visits every element in document order and stops behind the last one,
  and the names, attributes and contents that were composed are read back.
\<close>

section \<open>Trimmed views\<close>

lemma trim_right_run: "v \<noteq> [] \<Longrightarrow> \<not> is_space (last v) \<Longrightarrow> list_all is_space w \<Longrightarrow> trim_right_loop (v @ w) (length v + length w) = length v"
proof (induction w rule: rev_induct)
  case Nil
  then obtain k where k: "length v = Suc k" by (cases v) auto
  then have "v ! k = last v" using Nil(1) by (simp add: last_conv_nth)
  then show ?case using k Nil(2) by simp
next
  case (snoc c w)
  have "trim_right_loop ((v @ w) @ [c]) n = trim_right_loop (v @ w) n" if "n \<le> length (v @ w)" for n
    using that by (induction n) (simp_all add: nth_append [of "v @ w"] del: append_assoc)
  then show ?case using snoc by (simp add: nth_append)
qed

lemma TrimSpace_text:
  assumes "list_all is_space u" "list_all is_space w" "v \<noteq> []" "\<not> is_space (hd v)" "\<not> is_space (last v)"
  shows "TrimLeftSpace (u @ v @ w) = v @ w" "TrimSpace (u @ v @ w) = v"
proof -
  have "dropWhile is_space (u @ v @ w) = v @ w" using assms by (induction u) (cases v; auto)+
  then show l: "TrimLeftSpace (u @ v @ w) = v @ w" using assms(3) by (simp add: TrimLeftSpace_def)
  then show "TrimSpace (u @ v @ w) = v" using trim_right_run [OF assms(3,5,2)] assms(3) by (simp add: TrimSpace_def TrimRightSpace_def)
qed

lemma TrimSpace_blank: "list_all is_space w \<Longrightarrow> TrimLeftSpace w = [] \<and> TrimSpace w = []"
  by (auto simp: TrimSpace_def TrimLeftSpace_def TrimRightSpace_def list_all_iff)

lemma trim_view_text:
  assumes "text_at m e p (u @ v @ w)" "list_all is_space u" "list_all is_space w" "v \<noteq> []" "\<not> is_space (hd v)" "\<not> is_space (last v)"
  shows "trim_view m (p, p + length (u @ v @ w)) = (p + length u, p + length u + length v)"
  unfolding trim_view_def text_at_view [OF assms(1)] TrimSpace_text [OF assms(2-6)] by (simp add: Let_def)

lemma trim_view_blank:
  assumes "text_at m e p w" "list_all is_space w"
  shows "trim_view m (p, p + length w) = (p + length w, p + length w)"
  unfolding trim_view_def text_at_view [OF assms(1)] using TrimSpace_blank [OF assms(2)] by (simp add: Let_def)

section \<open>The node of an element\<close>

fun elem_tag :: "xml \<Rightarrow> bytes" where
  "elem_tag (XEmpty tag as) = tag" | "elem_tag (XElem tag as ks) = tag" | "elem_tag x = []"

fun elem_attributes :: "xml \<Rightarrow> attributes" where
  "elem_attributes (XEmpty tag as) = as" | "elem_attributes (XElem tag as ks) = as" | "elem_attributes x = []"

fun elem_content :: "xml \<Rightarrow> xml list" where
  "elem_content (XElem tag as ks) = ks" | "elem_content x = []"

fun elem_compact :: "xml \<Rightarrow> bool" where
  "elem_compact (XEmpty tag as) \<longleftrightarrow> True" | "elem_compact x \<longleftrightarrow> False"

definition attributes_text :: "attributes \<Rightarrow> bytes" where
  "attributes_text as = concat (map attribute_text as)"

text \<open>The pointers of the element \<open>x\<close> whose text, at depth \<open>d\<close>, starts at \<open>p\<close>.\<close>

definition node_at :: "nat \<Rightarrow> nat \<Rightarrow> xml \<Rightarrow> node" where
  "node_at d p x =
    (let q = p + 2 + 4 * d; patt = q + 1 + length (elem_tag x); n = length (attributes_text (elem_attributes x));
         pend = patt + n + (if elem_compact x then 2 else 0) in
     \<lparr> n_TagName = (q + 1, patt),
       n_Attributes = (if n = 0 then let r = (if elem_compact x then pend - 1 else pend) in (r, r) else (patt + 1, patt + n)),
       OuterXML_Start = q, InnerXML_Start = pend + 1, IsCompactNode = elem_compact x \<rparr>)"

text \<open>An opening tag behind its line break, and how it ends.\<close>

definition tag_tail :: "xml \<Rightarrow> bytes" where
  "tag_tail x = (if elem_compact x then lit '' />'' else [62])"

definition elem_rest :: "nat \<Rightarrow> xml \<Rightarrow> bytes" where
  "elem_rest d x =
    (case x of XElem tag as ks \<Rightarrow> xmls_text (d + 1) ks @ (if list_ex is_element ks then nl d else []) @ lit ''</'' @ tag @ [62] | _ \<Rightarrow> [])"

lemma xml_text_elem: "is_element x \<Longrightarrow> xml_text d x = nl d @ 60 # elem_tag x @ attributes_text (elem_attributes x) @ tag_tail x @ elem_rest d x"
  by (cases x) (simp_all add: is_element_def open_text_def attributes_text_def tag_tail_def elem_rest_def)

lemma length_nl [simp]: "length (nl d) = 2 + 4 * d"
  by (simp add: nl_def)

lemma attributes_text_ends:
  assumes "as \<noteq> []" "list_all attribute_ok as"
  obtains c u where "attributes_text as = 32 # c # u" "\<not> is_space c" "u \<noteq> []" "last u = 34"
proof -
  obtain a bs where a: "as = a # bs" using assms(1) by (cases as) auto
  have "attribute_ok a" using a assms(2) by simp
  then obtain c n where n: "fst a = c # n" "c_int c \<ge> 0x2d \<or> c_int c < 0" by (rule attribute_name_start)
  obtain cs b where b: "as = cs @ [b]" using assms(1) by (cases as rule: rev_cases) auto
  define u where "u = n @ 61 # 34 # plain_text (attribute_value a) @ [34] @ attributes_text bs"
  define v where "v = attributes_text cs @ 32 # fst b @ 61 # 34 # plain_text (attribute_value b)"
  have 1: "attributes_text as = 32 # c # u" by (simp add: a n(1) attributes_text_def attribute_text_value u_def)
  have 2: "attributes_text as = v @ [34]" by (simp add: b attributes_text_def attribute_text_value v_def)
  have 3: "\<not> is_space c" using n(2) by (auto simp: is_space_def)
  have 4: "u \<noteq> []" by (simp add: u_def)
  have "last (32 # c # u) = last (v @ [34])" using 1 2 by simp
  then have "last u = 34" using 4 by simp
  then show ?thesis by (rule that [OF 1 3 4])
qed

text \<open>The node that the parser makes of an element.\<close>

lemma make_node_text:
  assumes "is_element x" "xml_ok x" "text_at m e p (xml_text d x)"
  defines "q \<equiv> p + 2 + 4 * d" and "patt \<equiv> p + 2 + 4 * d + 1 + length (elem_tag x)"
    and "pend \<equiv> p + 2 + 4 * d + 1 + length (elem_tag x) + length (attributes_text (elem_attributes x)) + (if elem_compact x then 2 else 0)"
  shows "make_node m q patt pend = node_at d p x" "view m (n_TagName (node_at d p x)) = elem_tag x"
proof -
  let ?A = "attributes_text (elem_attributes x)" and ?t = "elem_tag x"
  have ok: "tag_ok ?t" "list_all attribute_ok (elem_attributes x)" using assms(1,2) by (cases x; simp add: is_element_def)+
  have t0: "text_at m e q (60 # ?t @ ?A @ tag_tail x @ elem_rest d x)" using assms(3) unfolding xml_text_elem [OF assms(1)] text_at_append q_def by (simp add: add.assoc)
  have t1: "text_at m e (q + 1) ?t" "text_at m e patt (?A @ tag_tail x @ elem_rest d x)" using t0 by (simp_all add: patt_def q_def)
  show "view m (n_TagName (node_at d p x)) = ?t" using text_at_view [OF t1(1)] by (simp add: node_at_def Let_def q_def patt_def add.assoc)
  define w where "w = (if elem_compact x then [32 :: byte] else [])"
  have t2: "text_at m e patt (?A @ w)" using t1(2) by (auto simp: w_def tag_tail_def)
  have l: "m ! (pend - 1) = 47 \<longleftrightarrow> elem_compact x"
  proof (cases "elem_compact x")
    case True
    then have "text_at m e (patt + length ?A) (32 # 47 # 62 # elem_rest d x)" using t1(2) by (simp add: tag_tail_def)
    then have "m ! (patt + length ?A + 1) = 47" by simp
    then show ?thesis using True by (simp add: pend_def patt_def q_def)
  next
    case False
    have "?t @ ?A \<noteq> []" "last (?t @ ?A) \<noteq> 47" using last_tag [OF ok] ok(1) by (simp_all add: attributes_text_def tag_ok_def)
    moreover have "text_at m e (q + 1) (?t @ ?A)" using t0 by simp
    moreover obtain k where "length (?t @ ?A) = Suc k" using calculation(1) by (cases "?t @ ?A") auto
    ultimately have "m ! (q + 1 + k) \<noteq> 47" "pend - 1 = q + 1 + k"
      using text_at_nth [of m e "q + 1" "?t @ ?A" k] False by (simp_all add: last_conv_nth pend_def patt_def q_def)
    then show ?thesis using False by simp
  qed
  have "trim_view m (patt, patt + length (?A @ w)) = n_Attributes (node_at d p x)"
  proof (cases "elem_attributes x = []")
    case True
    then show ?thesis using trim_view_blank [OF t2] by (simp add: attributes_text_def w_def is_space_def node_at_def Let_def patt_def)
  next
    case False
    obtain c u where A: "?A = 32 # c # u" "\<not> is_space c" "u \<noteq> []" "last u = 34" by (rule attributes_text_ends [OF False ok(2)])
    have "text_at m e patt ([32] @ (c # u) @ w)" using t2 unfolding A(1) by simp
    then have "trim_view m (patt, patt + length ([32] @ (c # u) @ w)) = (patt + length [32 :: byte], patt + length [32 :: byte] + length (c # u))"
      by (rule trim_view_text) (use A(2-4) in \<open>simp_all add: is_space_def w_def\<close>)
    then show ?thesis using A by (simp add: node_at_def Let_def patt_def add.assoc)
  qed
  moreover have "(if m ! (pend - 1) = 47 then pend - 1 else pend) = patt + length (?A @ w)" using l by (auto simp: pend_def patt_def w_def)
  moreover have "node_at d p x = \<lparr> n_TagName = (q + 1, patt), n_Attributes = n_Attributes (node_at d p x), OuterXML_Start = q, InnerXML_Start = pend + 1,
      IsCompactNode = elem_compact x \<rparr>" by (simp add: node_at_def Let_def q_def patt_def pend_def add.assoc)
  ultimately show "make_node m q patt pend = node_at d p x" unfolding make_node_def l by simp
qed

section \<open>Entering\<close>

definition put_node :: "bool \<Rightarrow> node \<Rightarrow> 'u XMLParser \<Rightarrow> 'u XMLParser" where
  "put_node replace n s = s\<lparr> m_NodePath := (if replace then butlast (m_NodePath s) else m_NodePath s) @ [n] \<rparr>"

lemma next_markup_quiet: "text_at m e p u \<Longrightarrow> quiet u \<Longrightarrow> next_markup m f r p s = next_markup m f r (p + length u) s"
  using strchr_skip [of m e p u 60] by (simp add: next_markup_def seek_tag_open_def quiet_def)

lemma enter_quiet: "text_at m e p u \<Longrightarrow> quiet u \<Longrightarrow> EnterNextNode_loop m f r p s = EnterNextNode_loop m f r (p + length u) s"
  using next_markup_quiet [of m e p u f r s] by (subst (1 2) EnterNextNode_loop.simps) simp

lemma enter_stop:
  assumes "text_at m e p (u @ 60 # 47 # y)" "quiet u"
  shows "EnterNextNode_loop m f r p s = Some (False, s)"
proof -
  let ?q = "p + length u"
  have t: "text_at m e p u" "text_at m e ?q (60 # 47 # y)" "text_at m e (?q + 1) (47 # y)" using assms(1) by simp_all
  have "next_markup m f r ?q s = Some (Entered False s)" using seek_open_here [OF t(2)] text_at_rd [OF t(3)] by (simp add: next_markup_def)
  then show ?thesis using enter_quiet [OF t(1) assms(2), of f r s] by (simp add: EnterNextNode_loop.simps [of m f r ?q])
qed

lemma enter_skip_item:
  assumes "\<not> is_element x" "xml_ok x" "text_at m e p (xml_text d x)" "zero_behind m (p + length (xml_text d x))" "root_node_xml_end s = Some (int e)"
  shows "EnterNextNode_loop m f r p s = EnterNextNode_loop m f r (p + length (xml_text d x)) s"
proof (cases x)
  case (XText t)
  then show ?thesis using enter_quiet [OF assms(3)] assms(2) by (simp add: quiet_plain)
next
  case (XCData t)
  let ?q = "p + length (nl d)" and ?x = "lit ''<![CDATA['' @ t @ lit '']]>''"
  have t: "text_at m e p (nl d)" "text_at m e ?q ?x" using assms(3) XCData by (simp_all del: lit_Cons length_nl)
  have z: "zero_behind m ?q" by (rule zero_behind_mono [OF assms(4)]) (simp add: XCData)
  have c: "cdata_ok t" using assms(2) XCData by simp
  have "text_at m e ?q (60 # tl ?x)" "text_at m e (?q + 1) (33 # tl (tl ?x))"
    using t(2) text_at_from [OF t(2), of 1] by (simp_all del: text_at.simps text_at_append length_nl)
  then have o: "seek_tag_open m ?q = Some (Some ?q)" "rd m (?q + 1) = Some 33" using seek_open_here text_at_rd by blast+
  have "\<not> beyond_root ?q s" using text_at_bound [OF t(2)] assms(5) by (simp add: beyond_root_def)
  then have "next_markup m f r ?q s = Some (Skip (?q + length ?x) s)"
    using o cdata_close [OF c t(2) z] by (simp add: next_markup_def special_close_def)
  then have "EnterNextNode_loop m f r ?q s = EnterNextNode_loop m f r (?q + length ?x) s"
    by (simp only: EnterNextNode_loop.simps [of m f r ?q] option.case enter_step.case)
  then show ?thesis using enter_quiet [OF t(1) quiet_nl, of f r s] XCData by (simp add: add.assoc)
qed (use assms(1) in \<open>simp_all add: is_element_def\<close>)

text \<open>The opening tag of an element is found: its name ends at \<open>tag_name_end\<close>, and \<open>tag_gt\<close> is its \<^verbatim>\<open>'>'\<close>.\<close>

definition tag_name_end :: "nat \<Rightarrow> nat \<Rightarrow> xml \<Rightarrow> nat" where
  "tag_name_end d p x = p + length (nl d) + 1 + length (elem_tag x)"

definition tag_gt :: "nat \<Rightarrow> nat \<Rightarrow> xml \<Rightarrow> nat" where
  "tag_gt d p x = tag_name_end d p x + length (attributes_text (elem_attributes x)) + (if elem_compact x then 2 else 0)"

lemma next_markup_elem:
  assumes "is_element x" "xml_ok x" "text_at m e p (xml_text d x)" "root_node_xml_end s = Some (int e)"
  shows "next_markup m f r p s = enter_or_skip m f r (p + length (nl d)) (tag_name_end d p x) (tag_gt d p x) s"
proof -
  let ?A = "attributes_text (elem_attributes x)" and ?t = "elem_tag x" and ?q = "p + length (nl d)"
  let ?patt = "?q + 1 + length ?t"
  let ?pend = "?patt + length ?A + (if elem_compact x then 2 else 0)"
  have ok: "tag_ok ?t" "list_all attribute_ok (elem_attributes x)" using assms(1,2) by (cases x; simp add: is_element_def)+
  have t: "text_at m e p (nl d)" "text_at m e ?q (60 # ?t @ ?A @ tag_tail x @ elem_rest d x)"
    using assms(3) unfolding xml_text_elem [OF assms(1)] text_at_append by blast+
  have t1: "text_at m e (?q + 1) (?t @ ?A @ tag_tail x @ elem_rest d x)" "text_at m e ?patt (?A @ tag_tail x @ elem_rest d x)"
    using t(2) by (simp_all add: add.assoc del: length_nl)
  have h: "rd m (?q + 1) = Some (hd ?t)" "hd ?t \<noteq> 33" "hd ?t \<noteq> 63" "hd ?t \<noteq> 47"
    using ok(1) tag_ok_start [OF ok(1), of "[]"] text_at_rd [of m e "?q + 1" "hd ?t"] t1(1) by (cases ?t; auto simp: tag_ok_def)+
  obtain c y where cy: "?A @ tag_tail x @ elem_rest d x = c # y" "\<not> is_symbol c"
  proof (cases "elem_attributes x = []")
    case True
    then have "?A = []" by (simp add: attributes_text_def)
    moreover have "\<not> is_symbol 32" "\<not> is_symbol 62" by code_simp+
    ultimately show ?thesis using that [of 32] that [of 62] by (cases "elem_compact x") (simp_all add: tag_tail_def)
  next
    case False
    moreover have "\<not> is_symbol 32" by code_simp
    ultimately show ?thesis using that attributes_text_ends [OF False ok(2)] by (metis append_Cons)
  qed
  have sy: "seek_symbol_end m (?q + 1) = Some ?patt"
    unfolding seek_symbol_end_def using ok(1) cy t1(1) by (intro scan_text_end [of m e _ _ c y]) (auto simp: tag_ok_def list_all_iff)
  have cl: "seek_tag_close m ?patt = Some (Some ?pend)"
  proof (cases "elem_compact x")
    case True
    then have tt: "text_at m e ?patt ((?A @ [32, 47]) @ 62 # elem_rest d x)" using t1(2) by (simp add: tag_tail_def)
    have "quiet (?A @ [32, 47])" using quiet_attributes [OF ok(2)] by (simp add: attributes_text_def)
    from seek_close_text [OF tt this] show ?thesis using True by simp
  next
    case False
    then have tt: "text_at m e ?patt (?A @ 62 # elem_rest d x)" using t1(2) by (simp add: tag_tail_def)
    have "quiet ?A" using quiet_attributes [OF ok(2)] by (simp add: attributes_text_def)
    from seek_close_text [OF tt this] show ?thesis using False by simp
  qed
  have "\<not> beyond_root ?q s" using text_at_bound [OF t(2)] assms(4) by (simp add: beyond_root_def)
  moreover have "?patt \<noteq> ?q + 1" using ok(1) by (simp add: tag_ok_def)
  ultimately have "next_markup m f r ?q s = enter_or_skip m f r ?q ?patt ?pend s"
    using seek_open_here [OF t(2)] h sy cl by (simp add: next_markup_def del: length_nl)
  then show ?thesis unfolding tag_gt_def tag_name_end_def next_markup_quiet [OF t(1) quiet_nl] .
qed

lemma enter_element:
  assumes "is_element x" "xml_ok x" "text_at m e p (xml_text d x)" "root_node_xml_end s = Some (int e)" "r \<longrightarrow> m_NodePath s \<noteq> []"
  shows "EnterNextNode_loop m None r p s = Some (True, put_node r (node_at d p x) s)"
proof -
  have "enter_or_skip m None r (p + length (nl d)) (tag_name_end d p x) (tag_gt d p x) s = Some (Entered True (put_node r (node_at d p x) s))"
    using make_node_text(1) [OF assms(1-3)] assms(5) by (simp add: enter_or_skip_def put_node_def tag_gt_def tag_name_end_def add.assoc)
  then show ?thesis using next_markup_elem [OF assms(1-4), of None r] by (simp add: EnterNextNode_loop.simps [of m None r p])
qed

section \<open>Document order\<close>

text \<open>The parser at work without a filter and without an error, in a document that ends at \<open>e\<close>.\<close>

definition ready :: "nat \<Rightarrow> 'u XMLParser \<Rightarrow> bool" where
  "ready e s \<longleftrightarrow> root_node_xml_end s = Some (int e) \<and> m_XMLParseError s = ERR_XML_OK \<and> m_pCurTagFilter s = NullFilter \<and> attribute_cursor s = None"

lemma ready_path [simp]: "ready e (s\<lparr> m_NodePath := P \<rparr>) = ready e s"
  by (simp add: ready_def)

lemma ready_error: "ready e s \<Longrightarrow> m_XMLParseError s = ERR_XML_OK"
  by (simp add: ready_def)

lemma cursor_None: "attribute_cursor s = None \<Longrightarrow> s\<lparr> attribute_cursor := None \<rparr> = s"
  by (cases s) simp

lemma path_same: "m_NodePath s = P \<Longrightarrow> s\<lparr> m_NodePath := P \<rparr> = s"
  by (cases s) simp

lemma ready_cursor: "ready e s \<Longrightarrow> s\<lparr> attribute_cursor := None \<rparr> = s"
  by (simp add: ready_def cursor_None)

lemma ready_filter: "ready e s \<Longrightarrow> cur_filter_fun alloc m s = None"
  by (simp add: ready_def cur_filter_fun_def)

text \<open>Behind an element.\<close>

lemma InnerXML_end: "elem_compact x \<Longrightarrow> is_element x \<Longrightarrow> InnerXML_Start (node_at d p x) = p + length (xml_text d x)"
  by (cases x) (simp_all add: node_at_def Let_def open_text_def attributes_text_def is_element_def)

lemma node_close_elem:
  assumes "x = XElem tag as ks" "xml_ok x" "text_at m e p (xml_text d x)" "zero_behind m (p + length (xml_text d x))"
  shows "node_close m (InnerXML_Start (node_at d p x)) tag s =
    Some (Some (p + length (xml_text d x) - 1, Some (p + length (xml_text d x) - length tag - 3)), s)"
proof -
  let ?i = "InnerXML_Start (node_at d p x)" and ?w = "if list_ex is_element ks then nl d else []"
  let ?B = "xmls_text (d + 1) ks @ ?w" and ?o = "open_text d tag as @ [62]"
  have i: "?i = p + length ?o" by (simp add: assms(1) node_at_def Let_def open_text_def attributes_text_def)
  have x: "xml_text d x = ?o @ ?B @ lit ''</'' @ tag @ [62]" by (simp add: assms(1))
  have t: "text_at m e ?i (?B @ lit ''</'' @ tag @ [62])" using assms(3) unfolding x i by (simp only: text_at_append [of m e p ?o])
  have l: "p + length (xml_text d x) = ?i + length (?B @ lit ''</'' @ tag @ [62])" unfolding x i by (simp only: length_append add.assoc)
  have "search_node_close m ?i tag = Some (ERR_XML_OK, ?i + length ?B + length tag + 2, Some (?i + length ?B))"
    using assms(1,2,4) t unfolding l by (intro search_node_close_elem) (auto simp: quiet_nl append.assoc)
  then show ?thesis unfolding node_close_def l by simp
qed

lemma next_sibling_filtered:
  assumes "is_element x" "xml_ok x" "text_at m e p (xml_text d x)" "zero_behind m (p + length (xml_text d x))" "attribute_cursor s = None" "m_NodePath s = P @ [node_at d p x]"
  shows "EnterNextSiblingNode alloc m s = EnterNextNode m (cur_filter_fun alloc m s) True (p + length (xml_text d x)) s"
proof -
  let ?n = "node_at d p x"
  have c: "CurNode s = Some ?n" using assms(6) by (simp add: CurNode_def)
  have cc: "IsCompactNode ?n = elem_compact x" by (simp add: node_at_def Let_def)
  show ?thesis
  proof (cases x)
    case (XEmpty tag as)
    then show ?thesis using c cc InnerXML_end [of x d p] assms(1) cursor_None [OF assms(5)]
      by (simp add: EnterNextSiblingNode_def xml_text_elem nl_def del: xml_text.simps)
  next
    case (XElem tag as ks)
    have "view m (n_TagName ?n) = tag" using make_node_text(2) [OF assms(1-3)] XElem by simp
    moreover have "0 < length (xml_text d x)" using XElem by simp
    ultimately show ?thesis using c cc XElem node_close_elem [OF XElem assms(2-4), of s] cursor_None [OF assms(5)]
      by (simp add: EnterNextSiblingNode_def del: xml_text.simps)
  qed (use assms(1) in \<open>simp_all add: is_element_def\<close>)
qed

lemma next_sibling:
  assumes "is_element x" "xml_ok x" "text_at m e p (xml_text d x)" "zero_behind m (p + length (xml_text d x))" "ready e s" "m_NodePath s = P @ [node_at d p x]"
  shows "EnterNextSiblingNode alloc m s = EnterNextNode m None True (p + length (xml_text d x)) s"
  using next_sibling_filtered [OF assms(1-4) _ assms(6)] assms(5) ready_filter [OF assms(5)] by (simp add: ready_def)

text \<open>The elements of a tree in document order, with their depths and positions.\<close>

fun elements :: "nat \<Rightarrow> nat \<Rightarrow> xml \<Rightarrow> (nat \<times> nat \<times> xml) list" and elements_list :: "nat \<Rightarrow> nat \<Rightarrow> xml list \<Rightarrow> (nat \<times> nat \<times> xml) list" where
  "elements d p (XText t) = []"
| "elements d p (XCData t) = []"
| "elements d p (XEmpty tag as) = [(d, p, XEmpty tag as)]"
| "elements d p (XElem tag as ks) = (d, p, XElem tag as ks) # elements_list (d + 1) (InnerXML_Start (node_at d p (XElem tag as ks))) ks"
| "elements_list d p [] = []"
| "elements_list d p (x # xs) = elements d p x @ elements_list d (p + length (xml_text d x)) xs"

text \<open>A walk over the elements with \<^verbatim>\<open>EnterSucceedNode\<close> that makes an observation at each of them, with a state \<open>a\<close> of the observer.\<close>

partial_function (option) walk ::
  "allocator \<Rightarrow> bytes \<Rightarrow> ('a \<Rightarrow> 'u XMLParser \<Rightarrow> ('b \<times> 'a) option) \<Rightarrow> 'a \<Rightarrow> 'u XMLParser \<Rightarrow> 'b list option" where
  "walk alloc m obs a s =
    do { (x, a) \<leftarrow> obs a s;
         (b, s) \<leftarrow> EnterSucceedNode alloc m s;
         if b then do { rest \<leftarrow> walk alloc m obs a s; Some (x # rest) } else Some [x] }"

text \<open>Leaving an element: to its next sibling or to that of an ancestor. The walk from there on is \<open>resume\<close>, the one from the ancestors on \<open>resume_above\<close>.\<close>

definition resume_above :: "allocator \<Rightarrow> bytes \<Rightarrow> ('a \<Rightarrow> 'u XMLParser \<Rightarrow> ('b \<times> 'a) option) \<Rightarrow> 'a \<Rightarrow> 'u XMLParser \<Rightarrow> 'b list option" where
  "resume_above alloc m obs a s = do { (b, s) \<leftarrow> climb alloc m s; if b then walk alloc m obs a s else Some [] }"

definition resume :: "allocator \<Rightarrow> bytes \<Rightarrow> ('a \<Rightarrow> 'u XMLParser \<Rightarrow> ('b \<times> 'a) option) \<Rightarrow> 'a \<Rightarrow> 'u XMLParser \<Rightarrow> 'b list option" where
  "resume alloc m obs a s =
    do { (b, s) \<leftarrow> EnterNextSiblingNode alloc m s; if b then walk alloc m obs a s else resume_above alloc m obs a s }"

lemma resume_above_child:
  assumes "ready e s" "m_NodePath s = P @ [n, k]" "s' = s\<lparr> m_NodePath := P @ [n] \<rparr>"
  shows "resume_above alloc m obs a s = resume alloc m obs a s'"
proof -
  have "EnterParentNode s = (True, s')" using assms ready_cursor [OF assms(1)] by (simp add: EnterParentNode_def GetDescendantLevel_def butlast_append)
  moreover have "m_XMLParseError s = ERR_XML_OK" using assms(1) by (simp add: ready_def)
  ultimately have "climb alloc m s = do { (b, s) \<leftarrow> EnterNextSiblingNode alloc m s'; if b then Some (True, s) else climb alloc m s }"
    by (subst climb.simps) simp
  then show ?thesis unfolding resume_above_def resume_def
    by (cases "EnterNextSiblingNode alloc m s'") (auto simp: resume_above_def split: prod.splits)
qed

text \<open>A step of the walk: the observation, then the first child or, without one, \<open>resume\<close>.\<close>

lemma walk_step:
  assumes "ready e s" "obs a s = Some (x, a')" "resume alloc m obs a' s = Some R"
    "EnterFirstChildNode alloc m None s = Some (b, s')" "\<not> b \<longrightarrow> s' = s"
  shows "walk alloc m obs a s = map_option (Cons x) (if b then walk alloc m obs a' s' else Some R)"
proof -
  have ok: "m_XMLParseError s = ERR_XML_OK" "m_pCurTagFilter s = NullFilter" using assms(1) by (simp_all add: ready_def)
  have E: "EnterSucceedNode alloc m s = (if b then Some (True, s') else
      do { (b, s) \<leftarrow> EnterNextSiblingNode alloc m s; if b then Some (True, s) else climb alloc m s })"
    using assms(4,5) ok ready_cursor [OF assms(1)] by (auto simp: EnterSucceedNode_def succeed_plain_def)
  show ?thesis
  proof (cases b)
    case True
    then show ?thesis using E assms(2) ok by (subst walk.simps) (cases "walk alloc m obs a' s'", simp_all)
  next
    case False
    have "walk alloc m obs a s = map_option (Cons x) (resume alloc m obs a' s)"
    proof (cases "EnterNextSiblingNode alloc m s")
      case None
      then show ?thesis using E False assms(2) ok by (subst walk.simps) (simp add: resume_def)
    next
      case (Some bs)
      then show ?thesis using E False assms(2) ok
        by (subst walk.simps) (auto simp: resume_def resume_above_def map_option_bind split: prod.splits Option.bind_splits)
    qed
    then show ?thesis using False assms(3) by simp
  qed
qed

lemma elem_rest_stop:
  assumes "x = XElem tag as ks" "text_at m e p (xml_text d x)"
  obtains u y where "quiet u" "text_at m e (InnerXML_Start (node_at d p x)) (xmls_text (d + 1) ks @ u @ 60 # 47 # y)"
    "InnerXML_Start (node_at d p x) + length (xmls_text (d + 1) ks) \<le> p + length (xml_text d x)"
proof -
  let ?w = "if list_ex is_element ks then nl d else []" and ?o = "open_text d tag as @ [62]"
  have x: "xml_text d x = ?o @ xmls_text (d + 1) ks @ ?w @ 60 # 47 # tag @ [62]" by (simp add: assms(1))
  have i: "InnerXML_Start (node_at d p x) = p + length ?o" by (simp add: assms(1) node_at_def Let_def open_text_def attributes_text_def)
  have "text_at m e (p + length ?o) (xmls_text (d + 1) ks @ ?w @ 60 # 47 # tag @ [62])"
    using assms(2) unfolding x by (simp only: text_at_append [of m e p ?o])
  then show ?thesis using that [of ?w "tag @ [62]"] i x by (simp add: quiet_nl del: text_at_append)
qed

text \<open>What an observer promises: at the node of an element it sees what belongs to the element.\<close>

locale observer =
  fixes alloc :: allocator and m :: bytes and e :: nat and obs :: "'a \<Rightarrow> 'u XMLParser \<Rightarrow> ('b \<times> 'a) option" and keeps :: "'a \<Rightarrow> bool"
    and fits :: "nat \<Rightarrow> nat \<Rightarrow> xml \<Rightarrow> bool" and seen :: "nat \<Rightarrow> nat \<Rightarrow> xml \<Rightarrow> 'b"
  assumes sees: "keeps a \<Longrightarrow> is_element x \<Longrightarrow> xml_ok x \<Longrightarrow> text_at m e p (xml_text d x) \<Longrightarrow> zero_behind m (p + length (xml_text d x)) \<Longrightarrow> m_XMLParseError s = ERR_XML_OK \<Longrightarrow>
    m_NodePath s = P @ [node_at d p x] \<Longrightarrow> length P = d \<Longrightarrow> fits d p x \<Longrightarrow> \<exists>a'. obs a s = Some (seen d p x, a') \<and> keeps a'"
begin

lemma walk_tree:
  shows "is_element x \<Longrightarrow> xml_ok x \<Longrightarrow> list_all (\<lambda>(d, p, x). fits d p x) (elements d p x) \<Longrightarrow> text_at m e p (xml_text d x) \<Longrightarrow>
      zero_behind m (p + length (xml_text d x)) \<Longrightarrow> ready e s \<Longrightarrow>
      m_NodePath s = P @ [node_at d p x] \<Longrightarrow> length P = d \<Longrightarrow> (\<And>a. keeps a \<Longrightarrow> resume alloc m obs a s = Some R) \<Longrightarrow> keeps a \<Longrightarrow>
      walk alloc m obs a s = Some (map (\<lambda>(d, p, x). seen d p x) (elements d p x) @ R)"
    "xmls_ok xs \<Longrightarrow> list_all (\<lambda>(d, p, x). fits d p x) (elements_list d p xs) \<Longrightarrow> text_at m e p (xmls_text d xs @ u @ 60 # 47 # y) \<Longrightarrow> quiet u \<Longrightarrow>
      zero_behind m (p + length (xmls_text d xs)) \<Longrightarrow> ready e s \<Longrightarrow>
      P = (if r then butlast (m_NodePath s) else m_NodePath s) \<Longrightarrow> length P = d \<Longrightarrow> r \<longrightarrow> m_NodePath s \<noteq> [] \<Longrightarrow>
      (\<And>n a. keeps a \<Longrightarrow> resume_above alloc m obs a (s\<lparr> m_NodePath := P @ [n] \<rparr>) = Some R) \<Longrightarrow> keeps a \<Longrightarrow>
      \<exists>b s'. EnterNextNode_loop m None r p s = Some (b, s') \<and> (\<not> b \<longrightarrow> s' = s) \<and>
        (if b then walk alloc m obs a s' else Some R) = Some (map (\<lambda>(d, p, x). seen d p x) (elements_list d p xs) @ R)"
proof (induction d x and d xs arbitrary: p s P R a and p s P R a r u y rule: xml_text_xmls_text.induct)
  case (3 d tag as)
  let ?x = "XEmpty tag as"
  obtain a' where l: "obs a s = Some (seen d p ?x, a')" "keeps a'" using sees [OF 3(10) 3(1,2,4,5) ready_error [OF 3(6)] 3(7,8)] 3(3) by auto
  have "CurNode s = Some (node_at d p ?x)" "IsCompactNode (node_at d p ?x)" using 3(7) by (simp_all add: CurNode_def node_at_def Let_def)
  then have "EnterFirstChildNode alloc m None s = Some (False, s)" by (simp add: EnterFirstChildNode_def)
  from walk_step [OF 3(6) l(1) 3(9) [OF l(2)] this] show ?case by simp
next
  case (4 d tag as ks)
  let ?x = "XElem tag as ks" and ?n = "node_at d p (XElem tag as ks)"
  obtain a' where l: "obs a s = Some (seen d p ?x, a')" "keeps a'" using sees [OF "4.prems"(10,1,2,4,5) ready_error [OF "4.prems"(6)] "4.prems"(7,8)] "4.prems"(3) by auto
  obtain u y where u: "quiet u" "text_at m e (InnerXML_Start ?n) (xmls_text (d + 1) ks @ u @ 60 # 47 # y)"
      "InnerXML_Start ?n + length (xmls_text (d + 1) ks) \<le> p + length (xml_text d ?x)"
    by (rule elem_rest_stop [OF refl "4.prems"(4)])
  have R: "resume_above alloc m obs a (s\<lparr> m_NodePath := m_NodePath s @ [n] \<rparr>) = Some R" if "keeps a" for a n
  proof -
    have "resume_above alloc m obs a (s\<lparr> m_NodePath := m_NodePath s @ [n] \<rparr>) = resume alloc m obs a s"
    proof (rule resume_above_child)
      show "ready e (s\<lparr> m_NodePath := m_NodePath s @ [n] \<rparr>)" using "4.prems"(6) by simp
      show "m_NodePath (s\<lparr> m_NodePath := m_NodePath s @ [n] \<rparr>) = P @ [?n, n]" using "4.prems"(7) by simp
      have "(s\<lparr> m_NodePath := m_NodePath s @ [n] \<rparr>)\<lparr> m_NodePath := P @ [?n] \<rparr> = s\<lparr> m_NodePath := P @ [?n] \<rparr>" by simp
      then show "s = (s\<lparr> m_NodePath := m_NodePath s @ [n] \<rparr>)\<lparr> m_NodePath := P @ [?n] \<rparr>" unfolding path_same [OF "4.prems"(7)] by (rule sym)
    qed
    then show ?thesis using "4.prems"(9) [OF that] by simp
  qed
  have "\<exists>b s'. EnterNextNode_loop m None False (InnerXML_Start ?n) s = Some (b, s') \<and> (\<not> b \<longrightarrow> s' = s) \<and>
        (if b then walk alloc m obs a' s' else Some R) = Some (map (\<lambda>(d, p, x). seen d p x) (elements_list (d + 1) (InnerXML_Start ?n) ks) @ R)"
    using "4.prems" R l(2) zero_behind_mono [OF "4.prems"(5) u(3)] by (intro "4.IH" [OF _ _ u(2,1)]) auto
  then obtain b s' where b: "EnterNextNode_loop m None False (InnerXML_Start ?n) s = Some (b, s')" "\<not> b \<longrightarrow> s' = s"
      "(if b then walk alloc m obs a' s' else Some R) = Some (map (\<lambda>(d, p, x). seen d p x) (elements_list (d + 1) (InnerXML_Start ?n) ks) @ R)" by blast
  have c: "CurNode s = Some ?n" "\<not> IsCompactNode ?n" using "4.prems"(7) by (simp_all add: CurNode_def node_at_def Let_def)
  have "\<not> beyond_root (InnerXML_Start ?n) s" using text_at_bound [OF u(2)] "4.prems"(6) by (simp add: beyond_root_def ready_def)
  then have "EnterFirstChildNode alloc m None s = Some (b, s')"
    using b(1) c ready_cursor [OF "4.prems"(6)] ready_filter [OF "4.prems"(6)] by (simp add: EnterFirstChildNode_def EnterNextNode_def)
  from walk_step [OF "4.prems"(6) l(1) "4.prems"(9) [OF l(2)] this b(2)] show ?case using b(3) by simp
next
  case (5 d)
  then have "EnterNextNode_loop m None r p s = Some (False, s)" using enter_stop [of m e p u y None r s] by simp
  then show ?case by auto
next
  case (6 d x xs)
  have t: "text_at m e p (xml_text d x)" "text_at m e (p + length (xml_text d x)) (xmls_text d xs @ u @ 60 # 47 # y)"
    using "6.prems"(3) by (simp_all add: add.assoc)
  have z: "zero_behind m (p + length (xml_text d x))" "zero_behind m (p + length (xml_text d x) + length (xmls_text d xs))"
    using zero_behind_mono [OF "6.prems"(5)] "6.prems"(5) by (simp_all add: add.assoc)
  have e: "root_node_xml_end s = Some (int e)" using "6.prems"(6) by (simp add: ready_def)
  show ?case
  proof (cases "is_element x")
    case False
    have "elements d p x = []" using False by (cases x) (simp_all add: is_element_def)
    moreover have "EnterNextNode_loop m None r p s = EnterNextNode_loop m None r (p + length (xml_text d x)) s"
      using False "6.prems"(1) t(1) z(1) e by (intro enter_skip_item) auto
    ultimately show ?thesis using "6.prems" t(2) z(2) "6.IH"(2) [of "p + length (xml_text d x)" u y s P r R a] by simp
  next
    case True
    define s1 where "s1 = put_node r (node_at d p x) s"
    have E: "EnterNextNode_loop m None r p s = Some (True, s1)"
      unfolding s1_def using True "6.prems"(1,9) t(1) e by (intro enter_element) auto
    have p1: "m_NodePath s1 = P @ [node_at d p x]" "ready e s1" "s1 = s\<lparr> m_NodePath := P @ [node_at d p x] \<rparr>"
      using "6.prems"(6,7) by (simp_all add: s1_def put_node_def)
    have "resume alloc m obs a s1 = Some (map (\<lambda>(d, p, x). seen d p x) (elements_list d (p + length (xml_text d x)) xs) @ R)" if att: "keeps a" for a
    proof -
      have "\<exists>b s'. EnterNextNode_loop m None True (p + length (xml_text d x)) s1 = Some (b, s') \<and> (\<not> b \<longrightarrow> s' = s1) \<and>
          (if b then walk alloc m obs a s' else Some R) = Some (map (\<lambda>(d, p, x). seen d p x) (elements_list d (p + length (xml_text d x)) xs) @ R)"
        using "6.prems" t(2) z(2) p1 att by (intro "6.IH"(2) [where P = P]) auto
      then obtain b s' where b: "EnterNextNode_loop m None True (p + length (xml_text d x)) s1 = Some (b, s')" "\<not> b \<longrightarrow> s' = s1"
          "(if b then walk alloc m obs a s' else Some R) = Some (map (\<lambda>(d, p, x). seen d p x) (elements_list d (p + length (xml_text d x)) xs) @ R)" by blast
      have "\<not> beyond_root (p + length (xml_text d x)) s1" using text_at_bound [OF t(2)] p1(2) by (simp add: beyond_root_def ready_def)
      then have "EnterNextSiblingNode alloc m s1 = Some (b, s')"
        using next_sibling [OF True _ t(1) z(1) p1(2,1)] "6.prems"(1) b(1) by (simp add: EnterNextNode_def)
      then show ?thesis using b "6.prems"(10) [OF att] p1(3) by (auto simp: resume_def)
    qed
    then have "walk alloc m obs a s1 = Some (map (\<lambda>(d, p, x). seen d p x) (elements d p x) @ map (\<lambda>(d, p, x). seen d p x) (elements_list d (p + length (xml_text d x)) xs) @ R)"
      using True "6.prems" t(1) z(1) p1 by (intro "6.IH"(1) [where P = P]) auto
    then show ?thesis using E by auto
  qed
qed (simp_all add: is_element_def)

text \<open>Behind the root nothing is left.\<close>

lemma walk_document:
  assumes "is_element x" "xml_ok x" "list_all (\<lambda>(d, p, x). fits d p x) (elements 0 p x)" "text_at m e p (xml_text 0 x)" "e = p + length (xml_text 0 x)"
    "zero_behind m e" "ready e s" "m_NodePath s = [node_at 0 p x]" "keeps a"
  shows "walk alloc m obs a s = Some (map (\<lambda>(d, p, x). seen d p x) (elements 0 p x))"
proof -
  have "resume alloc m obs a s = Some []" for a
  proof -
    have "beyond_root e s" using assms(7) by (simp add: beyond_root_def ready_def)
    moreover have "EnterNextSiblingNode alloc m s = EnterNextNode m None True e s"
      using next_sibling [OF assms(1,2,4), of s "[]" alloc] assms(5-8) by simp
    moreover have "EnterParentNode s = (False, s)" using assms(8) ready_cursor [OF assms(7)] by (simp add: EnterParentNode_def GetDescendantLevel_def)
    then have "climb alloc m s = Some (False, s)" using assms(7) by (subst climb.simps) (simp add: ready_def)
    ultimately show ?thesis by (simp add: resume_def resume_above_def EnterNextNode_def)
  qed
  then show ?thesis using walk_tree(1) [OF assms(1-4) _ assms(7), of "[]" "[]" a] assms(5,6,8,9) by simp
qed

end

section \<open>Loading\<close>

definition header_inside :: bytes where
  "header_inside = take 35 (drop 2 g_XML_Header)"

lemma header_parts: "g_XML_Header = lit ''<?'' @ header_inside @ lit ''?>''" "length header_inside = 35" "length g_XML_Header = 39" "take 2 header_inside = lit ''xm''"
  "0 \<notin> set g_XML_Header" "list_all (\<lambda>k. \<not> occurs_at (lit ''?>'') (header_inside @ lit ''?>'') k) [0..<35]"
  by code_simp+

lemma header_close:
  assumes "text_at m e 0 g_XML_Header" "zero_behind m 39"
  shows "search_special_node_close m 0 = Some (ERR_XML_OK, 38)"
proof -
  obtain y where y: "header_inside = lit ''xm'' @ y" using header_parts(4) append_take_drop_id [of 2 header_inside] by metis
  have t: "text_at m e 0 (lit ''<?'' @ header_inside @ lit ''?>'')" using assms(1) by (simp only: header_parts(1))
  have t2: "text_at m e 2 (header_inside @ lit ''?>'')" using text_at_from [OF t, of 2] by (simp del: text_at.simps text_at_append add: numeral_2_eq_2)
  have "load_word 4 m 0 = Some (le_load (take 4 (lit ''<?'' @ header_inside @ lit ''?>'')))" by (rule load_word_text [OF t]) (simp add: y)
  then have w4: "load_word 4 m 0 = Some (le_load [60, 63, 120, 109])" by (simp add: y)
  have "load_word 2 m 0 = Some (le_load (take 2 (lit ''<?'' @ header_inside @ lit ''?>'')))" by (rule load_word_text [OF t]) simp
  then have w2: "load_word 2 m 0 = Some (le_load [60, 63])" by simp
  have "0 \<notin> set (header_inside @ lit ''?>'')" using header_parts(5) unfolding header_parts(1) by simp
  then have "strstr_at m 2 (lit ''?>'') = Some (Some (2 + length header_inside))"
    using header_parts(2,6) zero_behind_mono [OF assms(2), of 2] by (intro strstr_text [OF _ _ _ t2]) simp_all
  then show ?thesis unfolding search_special_node_close_def w4 w2 by (simp add: search_ending_def header_parts(2) numeral_2_eq_2 [symmetric])
qed

lemma Load_text:
  assumes "is_element x" "xml_ok x" "m = g_XML_Header @ xml_text 0 x @ 0 # post" "0 \<notin> set (xml_text 0 x)" "e = 39 + length (xml_text 0 x)"
  shows "\<exists>s'. Load m True shift (- 1) s = Some (True, s') \<and> ready e s' \<and> m_NodePath s' = [node_at 0 39 x] \<and> m_pDocument s' = 0 \<and>
    root_node_xml_start s' = Some (39 + length (nl 0)) \<and> m_XPathParser s' = m_XPathParser s \<and> m_pUserTagFilter s' = m_pUserTagFilter s"
proof -
  have cs: "cstr_at m 0 = Some (g_XML_Header @ xml_text 0 x)"
    using cstr_at_app [of "g_XML_Header @ xml_text 0 x" m "[]" post] assms(3,4) header_parts(5) by simp
  have t: "text_at m e 0 (g_XML_Header @ xml_text 0 x)"
    using text_at_prefix [of e "[]" "g_XML_Header @ xml_text 0 x" m "0 # post"] assms(3,5) header_parts(3) by simp
  then have t1: "text_at m e 0 g_XML_Header" "text_at m e 39 (xml_text 0 x)" by (simp_all add: header_parts(3))
  have z: "zero_behind m e" using assms(3,5) header_parts(3) by (simp add: zero_behind_def)
  have zh: "zero_behind m 39" by (rule zero_behind_mono [OF z]) (simp add: assms(5))
  have "m ! 0 = 60" using t1(1) unfolding header_parts(1) by simp
  then have b: "take 3 m \<noteq> [0xef, 0xbb, 0xbf]" by (cases m) auto
  let ?s = "(ClearSyntaxError s)\<lparr> root_node_xml_end := Some (int e), attribute_cursor := None, m_pCurTagFilter := NullFilter, m_NodePath := [], m_pDocument := 0 \<rparr>"
  let ?q = "39 + length (nl 0)"
  let ?s1 = "?s\<lparr> root_node_xml_start := Some ?q \<rparr>"
  have o: "seek_tag_open m 0 = Some (Some 0)" "rd m 1 = Some 63"
    using seek_open_here [of m e 0 "tl g_XML_Header"] text_at_rd [of m e 1 63 "drop 2 g_XML_Header"] t1(1) by (simp_all add: header_parts(1) del: length_nl)
  have tt: "text_at m e 39 (nl 0)" "text_at m e ?q (60 # elem_tag x @ attributes_text (elem_attributes x) @ tag_tail x @ elem_rest 0 x)"
    using t1(2) unfolding xml_text_elem [OF assms(1)] text_at_append by blast+
  have ok: "tag_ok (elem_tag x)" using assms(1,2) by (cases x; simp add: is_element_def)
  have "seek_tag_open m 39 = seek_tag_open m ?q" using strchr_skip [OF tt(1), of 60] quiet_nl [of 0] by (simp add: seek_tag_open_def quiet_def)
  then have o2: "seek_tag_open m 39 = Some (Some ?q)" using seek_open_here [OF tt(2)] by simp
  have h: "rd m (?q + 1) = Some (hd (elem_tag x))" "hd (elem_tag x) \<noteq> 33" "hd (elem_tag x) \<noteq> 63"
    using ok tag_ok_start [OF ok, of "[]"] text_at_rd [of m e "?q + 1" "hd (elem_tag x)"] tt(2) by (cases "elem_tag x"; auto simp: tag_ok_def)+
  have r2: "find_root m 39 ?s = Some (Some ?q, ?s)" using o2 h by (subst find_root.simps) (simp del: length_nl)
  have "special_close m 0 ?s = Some (Some 38, ?s)" using header_close [OF t1(1) zh] by (simp add: special_close_def)
  then have r: "find_root m 0 ?s = Some (Some ?q, ?s)" using o r2 by (subst find_root.simps) (simp del: length_nl)
  have E: "EnterNextNode_loop m None False 39 ?s1 = Some (True, put_node False (node_at 0 39 x) ?s1)"
    using assms(1,2) t1(2) by (intro enter_element [where e = e]) simp_all
  have "\<not> beyond_root ?q ?s1" using text_at_bound [OF tt(2)] by (simp add: beyond_root_def)
  then have "EnterNextNode m None False ?q ?s1 = Some (True, put_node False (node_at 0 39 x) ?s1)"
    using E enter_quiet [OF tt(1) quiet_nl, of None False ?s1] by (simp add: EnterNextNode_def del: length_nl)
  moreover have "int (length (g_XML_Header @ xml_text 0 x)) = int e" by (simp add: assms(5) header_parts(3))
  ultimately have "Load m True shift (- 1) s = Some (True, put_node False (node_at 0 39 x) ?s1)"
    unfolding Load_def cs using b r by (simp add: Let_def del: length_nl)
  then show ?thesis by (simp add: put_node_def ready_def ClearSyntaxError_def del: length_nl)
qed

end
