(* ===== verification/XmlRead.thy ===== *)
theory XmlRead
  imports XmlText
begin

text \<open>
  Reading a composed document back: the listing of \<^verbatim>\<open>TextDump\<close>, the names and attributes of the elements in document order, the text of an element. The observers of
  \<open>XmlText\<close> are interpreted on the operations of \<^verbatim>\<open>rt::XMLParser\<close>, and the walk starts from the memory of a \<^verbatim>\<open>rt::XMLComposer\<close>.
\<close>

section \<open>The listing\<close>

lemma attributes_view:
  assumes "is_element x" "xml_ok x" "text_at m e p (xml_text d x)"
  shows "elem_attributes x = [] \<Longrightarrow> snd (n_Attributes (node_at d p x)) = fst (n_Attributes (node_at d p x))"
    "elem_attributes x \<noteq> [] \<Longrightarrow> snd (n_Attributes (node_at d p x)) \<noteq> fst (n_Attributes (node_at d p x)) \<and>
      view m (n_Attributes (node_at d p x)) = tl (attributes_text (elem_attributes x))"
proof -
  show "elem_attributes x = [] \<Longrightarrow> snd (n_Attributes (node_at d p x)) = fst (n_Attributes (node_at d p x))"
    by (simp add: node_at_def Let_def attributes_text_def)
  assume a: "elem_attributes x \<noteq> []"
  let ?A = "attributes_text (elem_attributes x)"
  define q where "q = p + length (nl d) + 1 + length (elem_tag x)"
  have "list_all attribute_ok (elem_attributes x)" using assms(1,2) by (cases x; simp add: is_element_def)
  then obtain c u where A: "?A = 32 # c # u" "u \<noteq> []" by (rule attributes_text_ends [OF a])
  have "text_at m e q ?A" using assms(3) unfolding xml_text_elem [OF assms(1)] by (simp add: q_def add.assoc)
  then have t: "text_at m e (q + 1) (c # u)" unfolding A(1) by simp
  have n: "n_Attributes (node_at d p x) = (q + 1, q + 1 + length (c # u))" using A(1) by (simp add: node_at_def Let_def q_def add.assoc)
  show "snd (n_Attributes (node_at d p x)) \<noteq> fst (n_Attributes (node_at d p x)) \<and> view m (n_Attributes (node_at d p x)) = tl ?A"
    unfolding n using text_at_view [OF t] A(1) by simp
qed

lemma store_view:
  assumes "total_alloc alloc" "String_inv S"
  shows "\<exists>S'. Option.bind (String_SetLength alloc (length v) S) (\<lambda>(_, t). s_put 0 v t) = Some S' \<and> String_inv S' \<and> s_text S' = v"
proof -
  obtain S1 where S1: "String_SetLength alloc (length v) S = Some (True, S1)" "String_inv S1" "s_GetLength S1 = length v"
    by (rule String_SetLength_total [OF assms])
  obtain S2 where "s_put 0 v S1 = Some S2" "String_inv S2" "s_text S2 = write_at 0 v (s_text S1)" using s_put_text [OF S1(2), of 0 v] S1(3) by auto
  then show ?thesis using S1 length_s_text [OF S1(2)] by (simp add: write_at_0)
qed

text \<open>The line of an element at depth \<open>d\<close> in a listing.\<close>

definition elem_line :: "nat \<Rightarrow> xml \<Rightarrow> bytes" where
  "elem_line d x =
    (let as = elem_attributes x in
     if as = [] then replicate ((d + 1) * 2) 32 @ 60 # elem_tag x @ [62]
     else replicate (d * 2) 32 @ 60 # elem_tag x @ 62 # lit '' [ '' @ tl (attributes_text as) @ lit '' ]'')"

lemma dump_node_text:
  assumes "total_alloc alloc" "String_inv att" "is_element x" "xml_ok x" "text_at m e p (xml_text d x)"
    "m_NodePath s = P @ [node_at d p x]" "length P = d" "d + 1 \<le> 128"
  shows "\<exists>att'. dump_node alloc m att s = Some (elem_line d x, att') \<and> String_inv att'"
proof -
  let ?n = "node_at d p x"
  have c: "CurNode s = Some ?n" "GetDescendantLevel s = d + 1" using assms(6,7) by (simp_all add: CurNode_def GetDescendantLevel_def)
  have nm: "GetNodeName s = Some (n_TagName ?n)" "view m (n_TagName ?n) = elem_tag x" using c(1) make_node_text(2) [OF assms(3-5)] by (simp_all add: GetNodeName_def)
  show ?thesis
  proof (cases "elem_attributes x = []")
    case True
    obtain S where "String_Empty alloc att = Some S" "String_inv S" using String_Empty_total [OF assms(1,2)] by auto
    then show ?thesis using True c nm attributes_view(1) [OF assms(3-5) True] assms(8)
      by (simp add: dump_node_def GetAttributesXML_def blanks_def elem_line_def Let_def)
  next
    case False
    let ?v = "n_Attributes ?n"
    note v = attributes_view(2) [OF assms(3-5) False]
    have lv: "snd ?v - fst ?v = length (view m ?v)"
    proof -
      have "view m ?v = take (snd ?v - fst ?v) (drop (fst ?v) m)" by (simp add: view_def)
      moreover have "attributes_text (elem_attributes x) \<noteq> []" using False by (cases "elem_attributes x") (auto simp: attributes_text_def attribute_text_def)
      then have "snd ?v \<le> length m"
        using text_at_bound [OF assms(5)] unfolding xml_text_elem [OF assms(3)] by (simp add: node_at_def Let_def tag_tail_def)
      ultimately show ?thesis by simp
    qed
    obtain S where S: "Option.bind (String_SetLength alloc (length (view m ?v)) att) (\<lambda>(_, t). s_put 0 (view m ?v) t) = Some S" "String_inv S" "s_text S = view m ?v"
      using store_view [OF assms(1,2)] by blast
    have "GetAttributesXML alloc m att s = Some (True, S)"
      using c(1) v S(1) unfolding GetAttributesXML_def by (simp add: lv split: Option.bind_split_asm prod.splits)
    then show ?thesis using c nm v S(2,3) False assms(8) by (simp add: dump_node_def blanks_def elem_line_def Let_def)
  qed
qed

definition dump_observation :: "allocator \<Rightarrow> bytes \<Rightarrow> String \<Rightarrow> 'u XMLParser \<Rightarrow> (bytes \<times> String) option" where
  "dump_observation alloc m att s = (if m_XMLParseError s = ERR_XML_OK then dump_node alloc m att s else None)"

interpretation dump: observer alloc m e "dump_observation alloc m" "\<lambda>att. total_alloc alloc \<and> String_inv att" "\<lambda>d p x. d < 128" "\<lambda>d p x. elem_line d x"
  for alloc m e
proof
  fix a x p d and s :: "'u XMLParser" and P
  assume "total_alloc alloc \<and> String_inv a" "is_element x" "xml_ok x" "text_at m e p (xml_text d x)" "m_XMLParseError s = ERR_XML_OK" "m_NodePath s = P @ [node_at d p x]" "length P = d" "d < 128"
  then show "\<exists>a'. dump_observation alloc m a s = Some (elem_line d x, a') \<and> total_alloc alloc \<and> String_inv a'"
    using dump_node_text [of alloc a x m e p d s P] by (auto simp: dump_observation_def)
qed

lemma walk_dump: "walk alloc m (dump_observation alloc m) att s = Some xs \<Longrightarrow> TextDump_loop alloc m att s = Some (map DumpLine xs)"
proof (induction xs arbitrary: att s)
  case Nil
  then show ?case by (subst (asm) walk.simps) (auto split: Option.bind_splits if_splits)
next
  case (Cons x xs)
  obtain a' b s' where o: "dump_observation alloc m att s = Some (x, a')" "EnterSucceedNode alloc m s = Some (b, s')"
      "if b then walk alloc m (dump_observation alloc m) a' s' = Some xs else xs = []"
    using Cons.prems by (subst (asm) walk.simps) (auto split: Option.bind_splits if_splits)
  then have "m_XMLParseError s = ERR_XML_OK" "dump_node alloc m att s = Some (x, a')" by (auto simp: dump_observation_def split: if_splits)
  then show ?case using o(2,3) Cons.IH [of a' s'] by (subst TextDump_loop.simps) (auto split: if_splits)
qed

text \<open>The listing of a tree and its depth.\<close>

fun outline :: "nat \<Rightarrow> xml \<Rightarrow> bytes list" and outlines :: "nat \<Rightarrow> xml list \<Rightarrow> bytes list" where
  "outline d (XText t) = []"
| "outline d (XCData t) = []"
| "outline d (XEmpty tag as) = [elem_line d (XEmpty tag as)]"
| "outline d (XElem tag as ks) = elem_line d (XElem tag as ks) # outlines (d + 1) ks"
| "outlines d [] = []"
| "outlines d (x # xs) = outline d x @ outlines d xs"

fun levels :: "xml \<Rightarrow> nat" and levels_list :: "xml list \<Rightarrow> nat" where
  "levels (XText t) = 0"
| "levels (XCData t) = 0"
| "levels (XEmpty tag as) = 1"
| "levels (XElem tag as ks) = 1 + levels_list ks"
| "levels_list [] = 0"
| "levels_list (x # xs) = max (levels x) (levels_list xs)"

lemma elements_outline:
  "map (\<lambda>(d, p, x). elem_line d x) (elements d p x) = outline d x"
  "map (\<lambda>(d, p, x). elem_line d x) (elements_list d p xs) = outlines d xs"
  by (induction d p x and d p xs rule: elements_elements_list.induct) simp_all

lemma elements_levels:
  "d + levels x \<le> n \<Longrightarrow> list_all (\<lambda>(d, p, x). d < n) (elements d p x)"
  "d + levels_list xs \<le> n \<Longrightarrow> list_all (\<lambda>(d, p, x). d < n) (elements_list d p xs)"
  by (induction d p x and d p xs rule: elements_elements_list.induct) simp_all

section \<open>Names and attributes\<close>

definition attributes_map :: "attributes \<Rightarrow> bytes \<rightharpoonup> bytes" where
  "attributes_map as = map_of (map (\<lambda>a. (fst a, attribute_value a)) as)"

text \<open>The result \<open>r\<close> of a search for \<open>name\<close> among the attributes \<open>as\<close>: the escaped text of the value, if there is one.\<close>

definition found_value :: "bytes \<Rightarrow> nat \<Rightarrow> attributes \<Rightarrow> bytes \<Rightarrow> (nat \<times> nat) option \<Rightarrow> bool" where
  "found_value m e as name r \<longleftrightarrow>
    (case r of None \<Rightarrow> attributes_map as name = None
     | Some (p, q) \<Rightarrow> \<exists>a\<in>set as. attributes_map as name = Some (attribute_value a) \<and> text_at m e p (plain_text (attribute_value a)) \<and> q = p + length (plain_text (attribute_value a)))"

lemma attribute_found: "text_at m e p (attributes_text as) \<Longrightarrow> found_value m e as name (map_of (zip (map fst as) (map snd (attribute_views p as))) name)"
proof (induction as arbitrary: p)
  case (Cons a as)
  have t: "text_at m e p (attribute_text a)" "text_at m e (p + length (attribute_text a)) (attributes_text as)" using Cons.prems by (simp_all add: attributes_text_def)
  show ?case
  proof (cases "name = fst a")
    case True
    have "text_at m e (p + 1 + length (fst a) + 2) (plain_text (attribute_value a))" using t(1) by (simp add: attribute_text_value add.assoc)
    then show ?thesis using True by (auto simp: attribute_view_def found_value_def attributes_map_def)
  next
    case False
    then show ?thesis using Cons.IH [OF t(2)] by (auto simp: found_value_def attributes_map_def split: option.splits)
  qed
qed (simp add: found_value_def attributes_map_def)

text \<open>Attribute values are read back when they hold printable characters and single blanks between them: what \<^verbatim>\<open>_convert_xml_to_text\<close> keeps.\<close>

definition readable :: "xml \<Rightarrow> bool" where
  "readable x \<longleftrightarrow> list_all (\<lambda>a. spaced None (attribute_value a)) (elem_attributes x)"

lemma cur_attribute_text:
  assumes "is_element x" "xml_ok x" "text_at m e p (xml_text d x)" "CurNode s = Some (node_at d p x)"
  shows "\<exists>r. cur_attribute m name s = Some (r, s) \<and> found_value m e (elem_attributes x) name r"
proof (cases "elem_attributes x = []")
  case True
  then show ?thesis using assms(4) attributes_view(1) [OF assms(1-3) True] by (simp add: cur_attribute_def found_value_def attributes_map_def)
next
  case False
  let ?A = "attributes_text (elem_attributes x)"
  define q where "q = p + length (nl d) + 1 + length (elem_tag x)"
  have ok: "list_all attribute_ok (elem_attributes x)" using assms(1,2) by (cases x; simp add: is_element_def)
  have A: "?A \<noteq> []" using False by (cases "elem_attributes x") (auto simp: attributes_text_def attribute_text_def)
  have t: "text_at m e q (?A @ tag_tail x)" using assms(3) unfolding xml_text_elem [OF assms(1)] by (simp add: q_def add.assoc)
  have n: "fst (n_Attributes (node_at d p x)) = q + 1" using A by (simp add: node_at_def Let_def q_def)
  have "tag_end (tag_tail x)" by (simp add: tag_end_def tag_tail_def)
  then have "search_attrib m (q + 1) name = Some (map_of (zip (map fst (elem_attributes x)) (map snd (attribute_views q (elem_attributes x)))) name, None)"
    unfolding search_attrib_def using ok t False by (intro search_attrib_text [of _ m e q "tag_tail x"]) (simp_all add: attributes_text_def q_def)
  then have "cur_attribute m name s = Some (map_of (zip (map fst (elem_attributes x)) (map snd (attribute_views q (elem_attributes x)))) name, s)"
    using assms(4) attributes_view(2) [OF assms(1-3) False] by (simp add: cur_attribute_def n note_error_def)
  then show ?thesis using attribute_found [of m e q "elem_attributes x" name] t by auto
qed

lemma GetAttribute_text:
  assumes "total_alloc alloc" "String_inv val" "is_element x" "xml_ok x" "text_at m e p (xml_text d x)" "CurNode s = Some (node_at d p x)" "readable x"
  shows "\<exists>b t. GetAttribute alloc m name val s = Some (b, t, s) \<and> String_inv t \<and> (if b then Some (s_text t) else None) = attributes_map (elem_attributes x) name"
proof -
  obtain r where r: "cur_attribute m name s = Some (r, s)" "found_value m e (elem_attributes x) name r"
    using cur_attribute_text [OF assms(3-6)] by blast
  show ?thesis
  proof (cases r)
    case None
    then show ?thesis using r String_Empty_total [OF assms(1,2)] by (auto simp: GetAttribute_def found_value_def)
  next
    case (Some v)
    obtain q q' where v: "v = (q, q')" by (cases v)
    obtain a where a: "a \<in> set (elem_attributes x)" "attributes_map (elem_attributes x) name = Some (attribute_value a)"
        "text_at m e q (plain_text (attribute_value a))" "q' = q + length (plain_text (attribute_value a))"
      using r(2) Some v by (auto simp: found_value_def)
    have "spaced None (attribute_value a)" using assms(7) a(1) by (simp add: readable_def list_all_iff)
    then obtain S where S: "convert_xml_to_text alloc m v False False 32 val = Some S" "String_inv S" "s_text S = attribute_value a"
      using convert_plain [OF assms(1,2) a(3)] unfolding v a(4) by blast
    show ?thesis unfolding GetAttribute_def r(1) Some using S a(2) by auto
  qed
qed

definition attribute_observation ::
  "allocator \<Rightarrow> bytes \<Rightarrow> bytes \<Rightarrow> String \<Rightarrow> 'u XMLParser \<Rightarrow> ((bytes \<times> bytes option) \<times> String) option" where
  "attribute_observation alloc m name val s =
    do { v \<leftarrow> GetNodeName s;
         (b, t, s) \<leftarrow> GetAttribute alloc m name val s;
         Some ((view m v, if b then Some (s_text t) else None), t) }"

interpretation reader: observer alloc m e "attribute_observation alloc m name" "\<lambda>t. total_alloc alloc \<and> String_inv t" "\<lambda>d p x. readable x"
  "\<lambda>d p x. (elem_tag x, attributes_map (elem_attributes x) name)" for alloc m e name
proof
  fix a x p d and s :: "'u XMLParser" and P
  assume A: "total_alloc alloc \<and> String_inv a" "is_element x" "xml_ok x" "text_at m e p (xml_text d x)" "m_NodePath s = P @ [node_at d p x]" "readable x"
  then have c: "CurNode s = Some (node_at d p x)" by (simp add: CurNode_def)
  then have "GetNodeName s = Some (n_TagName (node_at d p x))" by (simp add: GetNodeName_def)
  then show "\<exists>a'. attribute_observation alloc m name a s = Some ((elem_tag x, attributes_map (elem_attributes x) name), a') \<and> total_alloc alloc \<and> String_inv a'"
    using GetAttribute_text [of alloc a x m e p d s name] make_node_text(2) [OF A(2-4)] A c by (auto simp: attribute_observation_def)
qed

section \<open>The text of an element\<close>

lemma GetOuterXML_text:
  assumes "is_element x" "xml_ok x" "text_at m e p (xml_text d x)" "zero_behind m (p + length (xml_text d x))" "CurNode s = Some (node_at d p x)"
  shows "GetOuterXML m s = Some (Some (p + length (nl d), p + length (xml_text d x)), s)"
proof (cases x)
  case (XEmpty tag as)
  then show ?thesis using assms(1,5) InnerXML_end [of x d p] by (simp add: GetOuterXML_def node_at_def Let_def)
next
  case (XElem tag as ks)
  have "view m (n_TagName (node_at d p x)) = tag" using make_node_text(2) [OF assms(1-3)] XElem by simp
  moreover have "0 < length (xml_text d x)" using XElem by simp
  moreover have "\<not> IsCompactNode (node_at d p x)" "OuterXML_Start (node_at d p x) = p + length (nl d)" by (simp_all add: XElem node_at_def Let_def)
  ultimately show ?thesis using assms(5) node_close_elem [OF XElem assms(2-4), of s] by (simp add: GetOuterXML_def del: xml_text.simps length_nl)
qed (use assms(1) in \<open>simp_all add: is_element_def\<close>)

definition outer_text :: "nat \<Rightarrow> xml \<Rightarrow> bytes" where
  "outer_text d x = drop (length (nl d)) (xml_text d x)"

lemma GetOuterXML_String_text:
  assumes "total_alloc alloc" "String_inv text" "is_element x" "xml_ok x" "text_at m e p (xml_text d x)" "zero_behind m (p + length (xml_text d x))" "CurNode s = Some (node_at d p x)"
  shows "\<exists>t. GetOuterXML_String alloc m text s = Some (True, t, s) \<and> String_inv t \<and> s_text t = outer_text d x"
proof -
  let ?q = "p + length (nl d)"
  have o: "length (nl d) + length (outer_text d x) = length (xml_text d x)" using xml_text_elem [OF assms(3)] by (simp add: outer_text_def del: length_nl)
  have "text_at m e ?q (outer_text d x)" using text_at_from [OF assms(5), of "length (nl d)"] o unfolding outer_text_def by (simp del: text_at.simps length_nl)
  then have v: "view m (?q, p + length (xml_text d x)) = outer_text d x" using text_at_view o by (metis add.assoc)
  obtain S1 where S1: "String_SetLength alloc (length (outer_text d x)) text = Some (True, S1)" "String_inv S1" "s_GetLength S1 = length (outer_text d x)"
    by (rule String_SetLength_total [OF assms(1,2)])
  obtain S2 where S2: "s_put 0 (outer_text d x) S1 = Some S2" "String_inv S2" "s_text S2 = outer_text d x"
    using s_put_text [OF S1(2), of 0 "outer_text d x"] S1(3) length_s_text [OF S1(2)] by (auto simp: write_at_0)
  have l: "p + length (xml_text d x) - ?q = length (outer_text d x)" using o by simp
  show ?thesis unfolding GetOuterXML_String_def GetOuterXML_text [OF assms(3-7)]
    using assms(7) S1(1) S2 v l by (simp del: length_nl)
qed

definition outer_observation :: "allocator \<Rightarrow> bytes \<Rightarrow> String \<Rightarrow> 'u XMLParser \<Rightarrow> (bytes option \<times> String) option" where
  "outer_observation alloc m text s = do { (b, t, s) \<leftarrow> GetOuterXML_String alloc m text s; Some (if b then Some (s_text t) else None, t) }"

interpretation outer: observer alloc m e "outer_observation alloc m" "\<lambda>t. total_alloc alloc \<and> String_inv t" "\<lambda>d p x. True" "\<lambda>d p x. Some (outer_text d x)"
  for alloc m e
proof
  fix a x p d and s :: "'u XMLParser" and P
  assume A: "total_alloc alloc \<and> String_inv a" "is_element x" "xml_ok x" "text_at m e p (xml_text d x)" "zero_behind m (p + length (xml_text d x))" "m_NodePath s = P @ [node_at d p x]"
  then have "CurNode s = Some (node_at d p x)" by (simp add: CurNode_def)
  then show "\<exists>a'. outer_observation alloc m a s = Some (Some (outer_text d x), a') \<and> total_alloc alloc \<and> String_inv a'"
    using GetOuterXML_String_text [of alloc a x m e p d s] A by (auto simp: outer_observation_def)
qed

section \<open>From the composer to the parser\<close>

lemma attributes_no_zero: "list_all attribute_ok as \<Longrightarrow> 0 \<notin> set (concat (map attribute_text as))"
  using quiet_attributes [of as] by (auto simp: quiet_def)

lemma xml_text_no_zero:
  "xml_ok x \<Longrightarrow> 0 \<notin> set (xml_text d x)"
  "xmls_ok xs \<Longrightarrow> 0 \<notin> set (xmls_text d xs)"
proof (induction d x and d xs rule: xml_text_xmls_text.induct)
  case (1 d t)
  then show ?case using quiet_plain [of t] by (auto simp: quiet_def)
next
  case (2 d t)
  then show ?case by (auto simp: cdata_ok_def nl_def)
next
  case (3 d tag as)
  then have "0 \<notin> set tag" using is_symbol_not by (auto simp: tag_ok_def list_all_iff)
  then show ?case using attributes_no_zero [of as] 3 by (simp add: open_text_def nl_def)
next
  case (4 d tag as ks)
  then have "0 \<notin> set tag" using is_symbol_not by (auto simp: tag_ok_def list_all_iff)
  then show ?case using attributes_no_zero [of as] 4 by (simp add: open_text_def nl_def)
qed simp_all

lemma composed_memory:
  assumes "total_alloc alloc"
  shows "\<exists>c post. Option.bind (XMLComposer_new alloc junk) (compose_list alloc [x]) = Some c \<and> s_p (m_Output c) = g_XML_Header @ xml_text 0 x @ 0 # post"
proof -
  obtain c r where c: "Option.bind (XMLComposer_new alloc junk) (compose_list alloc [x]) = Some c" "represents c (g_XML_Header @ xmls_text 0 [x], r)"
    using composed_represents [OF assms] by blast
  have "String_inv (m_Output c)" "s_text (m_Output c) = g_XML_Header @ xmls_text 0 [x]" using represents_fields [OF c(2)] by simp_all
  then show ?thesis using c(1) s_p_text [of "m_Output c"] header_parts(3) by fastforce
qed

text \<open>A composed document, loaded: the parser is at the root, ready to walk.\<close>

definition loaded :: "nat \<Rightarrow> bytes \<Rightarrow> xml \<Rightarrow> 'u XMLParser \<Rightarrow> bool" where
  "loaded e m x s \<longleftrightarrow> text_at m e 39 (xml_text 0 x) \<and> e = 39 + length (xml_text 0 x) \<and> rd m e = Some 0 \<and> ready e s \<and> m_NodePath s = [node_at 0 39 x] \<and>
    root_node_xml_start s = Some (39 + length (nl 0))"

lemma loaded_zero: "loaded e m x s \<Longrightarrow> zero_behind m e"
  by (auto simp: loaded_def zero_behind_def rd_def Cons_nth_drop_Suc [symmetric] split: if_splits)

lemma composed_loaded:
  assumes "total_alloc alloc" "is_element x" "xml_ok x"
  obtains c e s' where "Option.bind (XMLComposer_new alloc junk) (compose_list alloc [x]) = Some c" "Load (s_p (m_Output c)) True shift (- 1) s = Some (True, s')"
    "loaded e (s_p (m_Output c)) x s'" "m_XPathParser s' = m_XPathParser s" "m_pUserTagFilter s' = m_pUserTagFilter s"
proof -
  obtain c post where c: "Option.bind (XMLComposer_new alloc junk) (compose_list alloc [x]) = Some c" "s_p (m_Output c) = g_XML_Header @ xml_text 0 x @ 0 # post"
    using composed_memory [OF assms(1)] by blast
  let ?m = "s_p (m_Output c)" and ?e = "39 + length (xml_text 0 x)"
  obtain s' where s': "Load ?m True shift (- 1) s = Some (True, s')" "ready ?e s'" "m_NodePath s' = [node_at 0 39 x]"
      "root_node_xml_start s' = Some (39 + length (nl 0))" "m_XPathParser s' = m_XPathParser s" "m_pUserTagFilter s' = m_pUserTagFilter s"
    using Load_text [OF assms(2,3) c(2) xml_text_no_zero(1) [OF assms(3)] refl] by blast
  have "text_at ?m ?e 39 (xml_text 0 x)" using text_at_prefix [of ?e g_XML_Header "xml_text 0 x" ?m "0 # post"] c(2) header_parts(3) by simp
  moreover have "rd ?m ?e = Some 0" by (simp add: c(2) rd_def header_parts(3) nth_append)
  ultimately show ?thesis using that [OF c(1) s'(1) _ s'(5,6)] s'(2-4) unfolding loaded_def by blast
qed

context observer
begin

lemma walk_loaded:
  assumes "is_element x" "xml_ok x" "list_all (\<lambda>(d, p, x). fits d p x) (elements 0 39 x)" "loaded e m x s" "keeps a"
  shows "walk alloc m obs a s = Some (map (\<lambda>(d, p, x). seen d p x) (elements 0 39 x))"
  using assms(4,5) loaded_zero [OF assms(4)] unfolding loaded_def by (intro walk_document [OF assms(1-3)]) auto

end

text \<open>The elements of a tree in document order, and what their values hold.\<close>

fun descendants :: "xml \<Rightarrow> xml list" and descendants_list :: "xml list \<Rightarrow> xml list" where
  "descendants (XText t) = []"
| "descendants (XCData t) = []"
| "descendants (XEmpty tag as) = [XEmpty tag as]"
| "descendants (XElem tag as ks) = XElem tag as ks # descendants_list ks"
| "descendants_list [] = []"
| "descendants_list (x # xs) = descendants x @ descendants_list xs"

lemma elements_descendants:
  "map (\<lambda>(d, p, x). x) (elements d p x) = descendants x"
  "map (\<lambda>(d, p, x). x) (elements_list d p xs) = descendants_list xs"
  by (induction d p x and d p xs rule: elements_elements_list.induct) simp_all

lemma map_elements: "map (\<lambda>(d, p, x). g x) (elements d p x) = map g (descendants x)" "list_all (\<lambda>(d, p, x). g' x) (elements d p x) = list_all g' (descendants x)"
  unfolding elements_descendants(1) [of d p x, symmetric] by (simp_all add: case_prod_unfold comp_def list.pred_map)

fun outer_texts :: "nat \<Rightarrow> xml \<Rightarrow> bytes list" and outer_texts_list :: "nat \<Rightarrow> xml list \<Rightarrow> bytes list" where
  "outer_texts d (XText t) = []"
| "outer_texts d (XCData t) = []"
| "outer_texts d (XEmpty tag as) = [outer_text d (XEmpty tag as)]"
| "outer_texts d (XElem tag as ks) = outer_text d (XElem tag as ks) # outer_texts_list (d + 1) ks"
| "outer_texts_list d [] = []"
| "outer_texts_list d (x # xs) = outer_texts d x @ outer_texts_list d xs"

lemma elements_outer:
  "map (\<lambda>(d, p, x). Some (outer_text d x)) (elements d p x) = map Some (outer_texts d x)"
  "map (\<lambda>(d, p, x). Some (outer_text d x)) (elements_list d p xs) = map Some (outer_texts_list d xs)"
  by (induction d p x and d p xs rule: elements_elements_list.induct) simp_all

text \<open>A document and a new parser to evaluate the properties on.\<close>

definition sample_xml :: xml where
  "sample_xml = XElem (lit ''a'') [(lit ''k'', Some (lit ''x<y''))] [XText (lit ''hi''), XEmpty (lit ''b'') [(lit ''n'', Some (lit ''1''))], XCData (lit ''</a>''), XElem (lit ''a'') [] []]"

definition sample_parser :: "unit XMLParser" where
  "sample_parser = XMLParser_new
    \<lparr> conv_value_temp = String_new, LastNodeSatificated = False, m_XPathParseError = ERR_XPATH_OK, m_Qualifiers = [], m_bRelativePath = True, m_bIncludeDescendants = True,
      m_FinalQualifier = \<lparr> qt_TagName = QT_NAME_ANY, TagName = [], qt_Attribute = QT_ATTRIBUTE_ANY, Attribute = [], Value = String_new, qt_Ordinal = 3, LastOrdinalTestPast = 4 \<rparr>,
      m_UpLevelCount = 5, m_QualifierShifts = 6 \<rparr> (Some 7) ()"

lemma sample_xml_ok: "is_element sample_xml" "xml_ok sample_xml" "list_all readable (descendants sample_xml)" "levels sample_xml \<le> 128"
  by code_simp+

section \<open>Properties\<close>

text \<open>C6: Composing and parsing are inverse on names and attributes: a document composed from a tree of elements, texts and CDATA sections with well-formed names is loaded, and stepping
  through it with \<^verbatim>\<open>EnterSucceedNode\<close> visits exactly its elements in document order and ends; at each of them \<^verbatim>\<open>GetNodeName\<close> gives the name and \<^verbatim>\<open>GetAttribute\<close> the
  unescaped value, or that there is none, provided that the values are printable ASCII with single inner blanks.\<close>

theorem XML_attributes_roundtrip:
  assumes "total_alloc alloc" "is_element x" "xml_ok x" "list_all readable (descendants x)"
  shows "\<exists>c s'. Option.bind (XMLComposer_new alloc junk) (compose_list alloc [x]) = Some c \<and> Load (s_p (m_Output c)) True shift (- 1) s = Some (True, s') \<and>
    walk alloc (s_p (m_Output c)) (attribute_observation alloc (s_p (m_Output c)) name) String_new s' =
      Some (map (\<lambda>y. (elem_tag y, attributes_map (elem_attributes y) name)) (descendants x))"
proof -
  obtain c e s' where L: "Option.bind (XMLComposer_new alloc junk) (compose_list alloc [x]) = Some c" "Load (s_p (m_Output c)) True shift (- 1) s = Some (True, s')"
      "loaded e (s_p (m_Output c)) x s'" by (rule composed_loaded [OF assms(1-3)])
  let ?m = "s_p (m_Output c)"
  have "walk alloc ?m (attribute_observation alloc ?m name) String_new s' =
      Some (map (\<lambda>(d, p, y). (elem_tag y, attributes_map (elem_attributes y) name)) (elements 0 39 x))"
    using assms(1,4) by (intro reader.walk_loaded [OF assms(2,3) _ L(3)]) (simp_all add: map_elements)
  then show ?thesis using L(1,2) unfolding map_elements by blast
qed

theorem XML_attributes_roundtrip_witness:
  "\<exists>c s'. Option.bind (XMLComposer_new zero_alloc 7) (compose_list zero_alloc [sample_xml]) = Some c \<and> Load (s_p (m_Output c)) True 0 (- 1) sample_parser = Some (True, s') \<and>
    walk zero_alloc (s_p (m_Output c)) (attribute_observation zero_alloc (s_p (m_Output c)) (lit ''k'')) String_new s' =
      Some [(lit ''a'', Some (lit ''x<y'')), (lit ''b'', None), (lit ''a'', None)]"
proof -
  have "map (\<lambda>y. (elem_tag y, attributes_map (elem_attributes y) (lit ''k''))) (descendants sample_xml) = [(lit ''a'', Some (lit ''x<y'')), (lit ''b'', None), (lit ''a'', None)]"
    by code_simp
  then show ?thesis
    using XML_attributes_roundtrip [OF total_zero_alloc sample_xml_ok(1-3), of 7 0 sample_parser "lit ''k''"] by (simp only:)
qed

text \<open>C24: \<^verbatim>\<open>TextDump\<close> of a composed document lists every element in document order, indented by its depth, with its attributes as they were written, and comes to an end, as long as
  the document is at most 128 levels deep: for more the array of blanks is too short.\<close>

theorem XML_TextDump_lists:
  assumes "total_alloc alloc" "is_element x" "xml_ok x" "levels x \<le> 128"
  shows "\<exists>c s'. Option.bind (XMLComposer_new alloc junk) (compose_list alloc [x]) = Some c \<and> Load (s_p (m_Output c)) True shift (- 1) s = Some (True, s') \<and>
    TextDump alloc (s_p (m_Output c)) s' = Some (map DumpLine (outline 0 x))"
proof -
  obtain c e s' where L: "Option.bind (XMLComposer_new alloc junk) (compose_list alloc [x]) = Some c" "Load (s_p (m_Output c)) True shift (- 1) s = Some (True, s')"
      "loaded e (s_p (m_Output c)) x s'" by (rule composed_loaded [OF assms(1-3)])
  let ?m = "s_p (m_Output c)"
  have "walk alloc ?m (dump_observation alloc ?m) String_new s' = Some (map (\<lambda>(d, p, y). elem_line d y) (elements 0 39 x))"
    using assms(1,4) by (intro dump.walk_loaded [OF assms(2,3) _ L(3)] elements_levels(1)) simp_all
  then have "TextDump alloc ?m s' = Some (map DumpLine (outline 0 x))"
    using walk_dump L(3) unfolding elements_outline by (fastforce simp: TextDump_def loaded_def GetDescendantLevel_def)
  then show ?thesis using L(1,2) by blast
qed

theorem XML_TextDump_lists_witness:
  "\<exists>c s'. Option.bind (XMLComposer_new zero_alloc 7) (compose_list zero_alloc [sample_xml]) = Some c \<and> Load (s_p (m_Output c)) True 0 (- 1) sample_parser = Some (True, s') \<and>
    TextDump zero_alloc (s_p (m_Output c)) s' =
      Some [DumpLine (lit ''<a> [ k='' @ [34] @ lit ''x&lt;y'' @ [34] @ lit '' ]''), DumpLine (lit ''  <b> [ n='' @ [34, 49, 34] @ lit '' ]''), DumpLine (lit ''    <a>'')]"
proof -
  have "map DumpLine (outline 0 sample_xml) =
      [DumpLine (lit ''<a> [ k='' @ [34] @ lit ''x&lt;y'' @ [34] @ lit '' ]''), DumpLine (lit ''  <b> [ n='' @ [34, 49, 34] @ lit '' ]''), DumpLine (lit ''    <a>'')]"
    by code_simp
  then show ?thesis using XML_TextDump_lists [OF total_zero_alloc sample_xml_ok(1,2,4), of 7 0 sample_parser] by (simp only:)
qed

text \<open>C15: \<^verbatim>\<open>GetOuterXML\<close> at each element of a composed document gives exactly the text that was composed for the element, from its opening to its closing tag, also when elements of the same
  name are nested in it or CDATA sections hold markup.\<close>

theorem XML_outer_texts:
  assumes "total_alloc alloc" "is_element x" "xml_ok x"
  shows "\<exists>c s'. Option.bind (XMLComposer_new alloc junk) (compose_list alloc [x]) = Some c \<and> Load (s_p (m_Output c)) True shift (- 1) s = Some (True, s') \<and>
    walk alloc (s_p (m_Output c)) (outer_observation alloc (s_p (m_Output c))) String_new s' = Some (map Some (outer_texts 0 x))"
proof -
  obtain c e s' where L: "Option.bind (XMLComposer_new alloc junk) (compose_list alloc [x]) = Some c" "Load (s_p (m_Output c)) True shift (- 1) s = Some (True, s')"
      "loaded e (s_p (m_Output c)) x s'" by (rule composed_loaded [OF assms(1-3)])
  let ?m = "s_p (m_Output c)"
  have "walk alloc ?m (outer_observation alloc ?m) String_new s' = Some (map (\<lambda>(d, p, y). Some (outer_text d y)) (elements 0 39 x))"
    using assms(1) by (intro outer.walk_loaded [OF assms(2,3) _ L(3)]) (simp_all add: list_all_iff)
  then show ?thesis using L(1,2) unfolding elements_outer by blast
qed

theorem XML_outer_texts_witness:
  "\<exists>c s'. Option.bind (XMLComposer_new zero_alloc 7) (compose_list zero_alloc [sample_xml]) = Some c \<and> Load (s_p (m_Output c)) True 0 (- 1) sample_parser = Some (True, s') \<and>
    walk zero_alloc (s_p (m_Output c)) (outer_observation zero_alloc (s_p (m_Output c))) String_new s' =
      Some [Some (lit ''<a k='' @ [34] @ lit ''x&lt;y'' @ [34] @ lit ''>hi'' @ nl 1 @ lit ''<b n='' @ [34, 49, 34] @ lit '' />'' @ nl 1 @ lit ''<![CDATA[</a>]]>'' @ nl 1 @ lit ''<a></a>'' @ nl 0 @ lit ''</a>''),
        Some (lit ''<b n='' @ [34, 49, 34] @ lit '' />''), Some (lit ''<a></a>'')]"
proof -
  have "map Some (outer_texts 0 sample_xml) =
      [Some (lit ''<a k='' @ [34] @ lit ''x&lt;y'' @ [34] @ lit ''>hi'' @ nl 1 @ lit ''<b n='' @ [34, 49, 34] @ lit '' />'' @ nl 1 @ lit ''<![CDATA[</a>]]>'' @ nl 1 @ lit ''<a></a>'' @ nl 0 @ lit ''</a>''),
        Some (lit ''<b n='' @ [34, 49, 34] @ lit '' />''), Some (lit ''<a></a>'')]"
    by code_simp
  then show ?thesis using XML_outer_texts [OF total_zero_alloc sample_xml_ok(1,2), of 7 0 sample_parser] by (simp only:)
qed

end
