(* ===== verification/XmlSelect.thy ===== *)
theory XmlSelect
  imports XmlRead "HOL-Library.Sublist"
begin

text \<open>
  The elements that \<^verbatim>\<open>rt::XPathParser\<close> selects in a composed document: the tests of a tag against the qualifiers of a path, and stepping through a document with a path.
\<close>

section \<open>Qualifiers\<close>

text \<open>What a condition on an attribute means, for the value \<open>v\<close> of the attribute, if there is one, and the value \<open>w\<close> of the condition.\<close>

definition value_matches :: "QualifierType \<Rightarrow> bytes option \<Rightarrow> bytes \<Rightarrow> bool" where
  "value_matches qt v w =
    (case qt of
       QT_ATTRIBUTE_ANY \<Rightarrow> True
     | QT_ATTRIBUTE_HAVE \<Rightarrow> v \<noteq> None
     | QT_ATTRIBUTE_EQUAL \<Rightarrow> v = Some w
     | QT_ATTRIBUTE_NOTEQUAL \<Rightarrow> v \<noteq> Some w
     | QT_ATTRIBUTE_STARTWITH \<Rightarrow> (case v of Some v \<Rightarrow> prefix w v | None \<Rightarrow> False)
     | QT_ATTRIBUTE_ENDWITH \<Rightarrow> (case v of Some v \<Rightarrow> suffix w v | None \<Rightarrow> False)
     | QT_ATTRIBUTE_CONTAIN \<Rightarrow> (case v of Some v \<Rightarrow> sublist w v | None \<Rightarrow> False)
     | _ \<Rightarrow> False)"

definition qualifier_matches :: "Qualifier \<Rightarrow> xml \<Rightarrow> bool" where
  "qualifier_matches q x \<longleftrightarrow> (qt_TagName q = QT_NAME_EXACT \<longrightarrow> elem_tag x = TagName q) \<and>
    value_matches (qt_Attribute q) (attributes_map (elem_attributes x) (Attribute q)) (s_text (Value q))"

text \<open>Qualifiers without an ordinal and without a condition on a word.\<close>

definition qualifier_ok :: "Qualifier \<Rightarrow> bool" where
  "qualifier_ok q \<longleftrightarrow> qt_Ordinal q < 0 \<and> String_inv (Value q) \<and> qt_Attribute q \<noteq> QT_ATTRIBUTE_HAVE_WORD \<and>
    (qt_Attribute q = QT_ATTRIBUTE_CONTAIN \<longrightarrow> s_text (Value q) \<noteq> [] \<and> 0 \<notin> set (s_text (Value q)))"

lemma map_of_filter: "distinct (map fst xs) \<Longrightarrow> map_of (filter P xs) k = (case map_of xs k of None \<Rightarrow> None | Some v \<Rightarrow> if P (k, v) then Some v else None)"
  by (induction xs) (auto simp: map_of_eq_None_iff dest!: map_of_SomeD split: option.splits)

lemma length_attribute_views [simp]: "length (attribute_views p as) = length as"
  by (induction as arbitrary: p) simp_all

lemma find_attrib_text:
  assumes "list_all attribute_ok as" "text_at m e p (attributes_text as @ w)" "tag_end w" "0 < p"
  shows "find_attrib m name n p err = Some (map_of (filter (\<lambda>(_, v). n \<le> snd v - fst v) (zip (map fst as) (map snd (attribute_views p as)))) name, err)"
  using assms
proof (induction as arbitrary: p)
  case Nil
  then show ?case using seek_tag_end [of w m e p err] by (subst find_attrib.simps) (simp add: attributes_text_def)
next
  case (Cons a as)
  have t: "text_at m e p (attribute_text a)" "text_at m e (p + length (attribute_text a)) (attributes_text as @ w)"
    using Cons.prems(2) by (simp_all add: add.assoc attributes_text_def)
  have s: "seek_next_attrib_loop m p err = Some (Some (p + length (attribute_text a), attribute_view (p + 1) a), err)"
    using Cons.prems by (intro seek_attribute [OF _ t(1)]) auto
  have "text_at m e (p + 1) (fst a)" using t(1) by (simp add: attribute_text_value)
  then have v: "view m (fst (attribute_view (p + 1) a)) = fst a" unfolding attribute_view_def fst_conv by (rule text_at_view)
  have "find_attrib m name n (p + length (attribute_text a)) err =
      Some (map_of (filter (\<lambda>(_, v). n \<le> snd v - fst v) (zip (map fst as) (map snd (attribute_views (p + length (attribute_text a)) as)))) name, err)"
    using Cons.prems by (intro Cons.IH [OF _ t(2)]) auto
  then show ?case using s v by (subst find_attrib.simps) (auto simp: Str_equal_eq split: prod.splits)
qed

text \<open>The attribute of a composed element that a condition is tested on: a value that is too short for it counts as missing.\<close>

lemma find_attrib_element:
  assumes "is_element x" "xml_ok x" "text_at m e p (xml_text d x)" "distinct (map fst (elem_attributes x))"
  shows "\<exists>r. find_attrib m name n (tag_name_end d p x) err = Some (r, err) \<and>
    (case r of None \<Rightarrow> \<forall>v. attributes_map (elem_attributes x) name = Some v \<longrightarrow> length (plain_text v) < n
     | Some _ \<Rightarrow> found_value m e (elem_attributes x) name r)"
proof -
  define patt where "patt = tag_name_end d p x"
  let ?as = "elem_attributes x" and ?z = "zip (map fst (elem_attributes x)) (map snd (attribute_views patt (elem_attributes x)))"
  have ok: "list_all attribute_ok ?as" using assms(1,2) by (cases x; simp add: is_element_def)
  have t: "text_at m e patt (attributes_text ?as @ tag_tail x)" using assms(3) unfolding xml_text_elem [OF assms(1)] by (simp add: patt_def tag_name_end_def add.assoc)
  have f: "find_attrib m name n patt err = Some (map_of (filter (\<lambda>(_, v). n \<le> snd v - fst v) ?z) name, err)"
    by (rule find_attrib_text [OF ok t]) (simp_all add: tag_end_def tag_tail_def patt_def tag_name_end_def)
  have "distinct (map fst ?z)" using assms(4) by simp
  note F = map_of_filter [OF this, of "\<lambda>(_, v). n \<le> snd v - fst v" name]
  define z where "z = map_of ?z name"
  have g: "find_attrib m name n patt err = Some (case z of None \<Rightarrow> None | Some v \<Rightarrow> if n \<le> snd v - fst v then Some v else None, err)"
    unfolding f F z_def [symmetric] by (simp split: option.split)
  have V: "found_value m e ?as name z" using attribute_found [of m e patt ?as name] t unfolding z_def by simp
  show ?thesis unfolding patt_def [symmetric] g using V by (cases z) (auto simp: found_value_def)
qed

lemma StartsWith_prefix: "StartsWith w v \<longleftrightarrow> prefix w v"
  by (auto simp: StartsWith_def SubStr_def Str_equal_eq prefix_def) (metis append_take_drop_id)

lemma EndsWith_suffix: "EndsWith w v \<longleftrightarrow> suffix w v"
  by (auto simp: EndsWith_def SubStr_def Str_equal_eq suffix_def) (metis append_take_drop_id)

lemma sublist_occurs: "sublist w v \<longleftrightarrow> (\<exists>k. occurs_at w v k)"
proof
  assume "sublist w v"
  then obtain u y where "v = u @ w @ y" by (auto simp: sublist_def)
  then have "occurs_at w v (length u)" by (simp add: occurs_at_def)
  then show "\<exists>k. occurs_at w v k" ..
next
  assume "\<exists>k. occurs_at w v k"
  then obtain k where "take (length w) (drop k v) = w" by (auto simp: occurs_at_def)
  then have "v = take k v @ w @ drop (length w) (drop k v)" by (metis append_take_drop_id)
  then show "sublist w v" unfolding sublist_def by blast
qed

lemma strstr_sublist: "w \<noteq> [] \<Longrightarrow> 0 \<notin> set w \<Longrightarrow> 0 \<notin> set v \<Longrightarrow> strstr v w \<ge> 0 \<longleftrightarrow> sublist w v"
  using FindString_loop_spec [of w v 0] by (auto simp: strstr_loop sublist_occurs)

lemma compare_value_text:
  assumes "String_inv temp" "String_inv val" "0 \<notin> set (s_text temp)" "qt = QT_ATTRIBUTE_CONTAIN \<longrightarrow> s_text val \<noteq> [] \<and> 0 \<notin> set (s_text val)"
    "qt \<in> {QT_ATTRIBUTE_EQUAL, QT_ATTRIBUTE_NOTEQUAL, QT_ATTRIBUTE_STARTWITH, QT_ATTRIBUTE_ENDWITH, QT_ATTRIBUTE_CONTAIN}"
  shows "compare_value qt temp val = Some (value_matches qt (Some (s_text temp)) (s_text val))"
proof (cases "qt = QT_ATTRIBUTE_CONTAIN")
  case True
  have l: "s_GetLength val = length (s_text val)" "s_GetLength temp = length (s_text temp)" using assms(1,2) by (simp_all add: length_s_text)
  have "length (s_text val) \<le> length (s_text temp)" if "sublist (s_text val) (s_text temp)" using that by (auto simp: sublist_def)
  moreover have "s_p val \<noteq> []" "s_text temp \<noteq> [] \<Longrightarrow> s_p temp \<noteq> []" using s_p_text [OF assms(2)] s_p_text [OF assms(1)] assms(4) True by auto
  moreover have "length (s_text val) \<le> length (s_text temp) \<Longrightarrow> s_text temp \<noteq> []" using assms(4) True by auto
  ultimately show ?thesis using True assms(3,4) strstr_sublist [of "s_text val" "s_text temp"] unfolding compare_value_def value_matches_def l by auto
next
  case False
  then show ?thesis using assms(5) by (auto simp: compare_value_def value_matches_def Str_equal_eq StartsWith_prefix EndsWith_suffix)
qed

text \<open>Without an attribute that is long enough only \<^verbatim>\<open>!=\<close> holds.\<close>

lemma value_matches_short:
  assumes "\<forall>v. r = Some v \<longrightarrow> length (plain_text v) < n" "qt \<in> {QT_ATTRIBUTE_EQUAL, QT_ATTRIBUTE_NOTEQUAL, QT_ATTRIBUTE_STARTWITH, QT_ATTRIBUTE_ENDWITH, QT_ATTRIBUTE_CONTAIN}"
    "n = (if qt = QT_ATTRIBUTE_NOTEQUAL then 0 else length w)"
  shows "value_matches qt r w = (qt = QT_ATTRIBUTE_NOTEQUAL)"
proof (cases r)
  case None
  then show ?thesis using assms(2) by (auto simp: value_matches_def)
next
  case (Some v)
  then have "length v < n" using assms(1) length_plain_text [of v] by auto
  then show ?thesis using Some assms(2,3) by (auto simp: value_matches_def prefix_def suffix_def sublist_def)
qed

definition selectable :: "xml \<Rightarrow> bool" where
  "selectable x \<longleftrightarrow> readable x \<and> distinct (map fst (elem_attributes x))"

lemma set_temp_same: "upd_xpath (\<lambda>x. x\<lparr> conv_value_temp := conv_value_temp (m_XPathParser s) \<rparr>) s = s"
  by (simp add: upd_xpath_def)

abbreviation compared :: "QualifierType \<Rightarrow> bool" where
  "compared qt \<equiv> qt \<in> {QT_ATTRIBUTE_EQUAL, QT_ATTRIBUTE_NOTEQUAL, QT_ATTRIBUTE_STARTWITH, QT_ATTRIBUTE_ENDWITH, QT_ATTRIBUTE_CONTAIN}"

lemma QualifierTest_compared:
  assumes "total_alloc alloc" "is_element x" "xml_ok x" "text_at m e p (xml_text d x)" "selectable x" "qualifier_ok q"
    "m_XPathParseError (m_XPathParser s) = ERR_XPATH_OK" "String_inv (conv_value_temp (m_XPathParser s))"
    "qt_TagName q = QT_NAME_EXACT \<longrightarrow> elem_tag x = TagName q" "compared (qt_Attribute q)"
  shows "\<exists>t. QualifierTest alloc m q (elem_tag x) (tag_name_end d p x) s =
    Some (value_matches (qt_Attribute q) (attributes_map (elem_attributes x) (Attribute q)) (s_text (Value q)), upd_xpath (\<lambda>y. y\<lparr> conv_value_temp := t \<rparr>) s) \<and> String_inv t"
proof -
  let ?as = "elem_attributes x" and ?patt = "tag_name_end d p x" and ?t0 = "conv_value_temp (m_XPathParser s)" and ?qt = "qt_Attribute q"
  define n where "n = (if ?qt = QT_ATTRIBUTE_NOTEQUAL then 0 else s_GetLength (Value q))"
  obtain r where r: "find_attrib m (Attribute q) n ?patt None = Some (r, None)"
      "case r of None \<Rightarrow> \<forall>v. attributes_map ?as (Attribute q) = Some v \<longrightarrow> length (plain_text v) < n | Some _ \<Rightarrow> found_value m e ?as (Attribute q) r"
    using find_attrib_element [OF assms(2-4)] assms(5) unfolding selectable_def by blast
  have N: "?qt \<noteq> QT_ATTRIBUTE_ANY" "?qt \<noteq> QT_ATTRIBUTE_HAVE" using assms(10) by auto
  have Q: "QualifierTest alloc m q (elem_tag x) ?patt s =
      (case r of None \<Rightarrow> Some (?qt = QT_ATTRIBUTE_NOTEQUAL, s)
       | Some val \<Rightarrow> do { temp \<leftarrow> convert_xml_to_text alloc m val False False 32 ?t0;
                          b \<leftarrow> compare_value ?qt temp (Value q);
                          Some (b, upd_xpath (\<lambda>x. x\<lparr> conv_value_temp := temp \<rparr>) s) })"
    using assms(9,10) N r(1) assms(7) unfolding QualifierTest_def n_def by (auto simp: Str_equal_eq note_error_def split: option.splits)
  show ?thesis
  proof (cases r)
    case None
    have "value_matches ?qt (attributes_map ?as (Attribute q)) (s_text (Value q)) = (?qt = QT_ATTRIBUTE_NOTEQUAL)"
      using r(2) None assms(6,10) by (intro value_matches_short) (auto simp: n_def length_s_text qualifier_ok_def)
    then show ?thesis using Q None assms(8) set_temp_same [of s] by (intro exI [of _ ?t0]) simp
  next
    case (Some v)
    obtain i j where v: "v = (i, j)" by (cases v)
    obtain a where a: "a \<in> set ?as" "attributes_map ?as (Attribute q) = Some (attribute_value a)" "text_at m e i (plain_text (attribute_value a))" "j = i + length (plain_text (attribute_value a))"
      using r(2) Some v by (auto simp: found_value_def)
    have "spaced None (attribute_value a)" using assms(5) a(1) by (simp add: selectable_def readable_def list_all_iff)
    then obtain S where S: "convert_xml_to_text alloc m v False False 32 ?t0 = Some S" "String_inv S" "s_text S = attribute_value a"
      using convert_plain [OF assms(1,8) a(3)] unfolding v a(4) by blast
    have "0 \<notin> set (attribute_value a)" using assms(2,3) a(1) by (cases x) (auto simp: is_element_def list_all_iff attribute_ok_def attribute_value_def)
    then have "compare_value ?qt S (Value q) = Some (value_matches ?qt (Some (s_text S)) (s_text (Value q)))"
      using assms(6,10) S by (intro compare_value_text) (simp_all add: qualifier_ok_def)
    then show ?thesis using Q Some S a(2) by (intro exI [of _ S]) simp
  qed
qed

lemma QualifierTest_text:
  assumes "total_alloc alloc" "is_element x" "xml_ok x" "text_at m e p (xml_text d x)" "selectable x" "qualifier_ok q"
    "m_XPathParseError (m_XPathParser s) = ERR_XPATH_OK" "String_inv (conv_value_temp (m_XPathParser s))"
  shows "\<exists>t. QualifierTest alloc m q (elem_tag x) (tag_name_end d p x) s = Some (qualifier_matches q x, upd_xpath (\<lambda>y. y\<lparr> conv_value_temp := t \<rparr>) s) \<and> String_inv t"
proof -
  let ?as = "elem_attributes x" and ?t0 = "conv_value_temp (m_XPathParser s)" and ?qt = "qt_Attribute q"
  let ?N = "qt_TagName q = QT_NAME_EXACT \<longrightarrow> elem_tag x = TagName q"
  consider "\<not> ?N" | ?N "?qt = QT_ATTRIBUTE_ANY" | ?N "?qt = QT_ATTRIBUTE_HAVE" | ?N "compared ?qt"
    | ?N "\<not> compared ?qt" "?qt \<notin> {QT_ATTRIBUTE_ANY, QT_ATTRIBUTE_HAVE, QT_ATTRIBUTE_HAVE_WORD}"
    using assms(6) unfolding qualifier_ok_def by blast
  then show ?thesis
  proof cases
    case 1
    then show ?thesis using assms(8) set_temp_same [of s] by (intro exI [of _ ?t0]) (auto simp: QualifierTest_def qualifier_matches_def Str_equal_eq)
  next
    case 2
    then show ?thesis using assms(8) set_temp_same [of s] by (intro exI [of _ ?t0]) (auto simp: QualifierTest_def qualifier_matches_def Str_equal_eq value_matches_def)
  next
    case 3
    obtain r where "find_attrib m (Attribute q) 0 (tag_name_end d p x) None = Some (r, None)"
        "case r of None \<Rightarrow> \<forall>v. attributes_map ?as (Attribute q) = Some v \<longrightarrow> length (plain_text v) < 0 | Some _ \<Rightarrow> found_value m e ?as (Attribute q) r"
      using find_attrib_element [OF assms(2-4)] assms(5) unfolding selectable_def by blast
    moreover from this(2) have "attributes_map ?as (Attribute q) \<noteq> None \<longleftrightarrow> r \<noteq> None" by (auto simp: found_value_def split: option.splits)
    ultimately show ?thesis using 3 assms(8) set_temp_same [of s]
      by (intro exI [of _ ?t0]) (auto simp: QualifierTest_def qualifier_matches_def Str_equal_eq value_matches_def note_error_def)
  next
    case 4
    then show ?thesis using QualifierTest_compared [OF assms] by (simp add: qualifier_matches_def)
  next
    case 5
    then have "\<not> value_matches ?qt v w" for v w by (cases ?qt) (auto simp: value_matches_def)
    then show ?thesis using 5 assms(8) set_temp_same [of s] by (intro exI [of _ ?t0]) (auto simp: QualifierTest_def qualifier_matches_def Str_equal_eq)
  qed
qed

section \<open>Tests on the way\<close>

text \<open>A parser at work with the steps \<open>qs\<close> and the final step \<open>fin\<close> of an absolute path; \<open>desc\<close> when the final step selects at any depth. The counters of ordinals do not matter.\<close>

definition uncounted :: "Qualifier \<Rightarrow> Qualifier" where
  "uncounted q = q\<lparr> LastOrdinalTestPast := 0 \<rparr>"

definition xpath_state :: "Qualifier list \<Rightarrow> Qualifier \<Rightarrow> bool \<Rightarrow> XPathParser \<Rightarrow> bool" where
  "xpath_state qs fin desc x \<longleftrightarrow> m_QualifierShifts x = 0 \<and> map uncounted (m_Qualifiers x) = map uncounted qs \<and> uncounted (m_FinalQualifier x) = uncounted fin \<and>
    m_bIncludeDescendants x = desc \<and> String_inv (conv_value_temp x) \<and> m_XPathParseError x = ERR_XPATH_OK"

definition selecting :: "nat \<Rightarrow> Qualifier list \<Rightarrow> Qualifier \<Rightarrow> bool \<Rightarrow> 'u XMLParser \<Rightarrow> bool" where
  "selecting e qs fin desc s \<longleftrightarrow> root_node_xml_end s = Some (int e) \<and> m_XMLParseError s = ERR_XML_OK \<and> m_pCurTagFilter s = XPathFilter \<and> attribute_cursor s = None \<and>
    m_pUserTagFilter s = None \<and> xpath_state qs fin desc (m_XPathParser s)"

text \<open>Which elements are entered, and which of them are selected.\<close>

definition enters :: "Qualifier list \<Rightarrow> Qualifier \<Rightarrow> bool \<Rightarrow> nat \<Rightarrow> xml \<Rightarrow> bool" where
  "enters qs fin desc d x = (if d < length qs then qualifier_matches (qs ! d) x else desc \<or> d = length qs \<and> qualifier_matches fin x)"

definition hits :: "Qualifier list \<Rightarrow> Qualifier \<Rightarrow> nat \<Rightarrow> xml \<Rightarrow> bool" where
  "hits qs fin d x \<longleftrightarrow> length qs \<le> d \<and> qualifier_matches fin x"

lemma uncounted_eq:
  assumes "uncounted q = uncounted q'"
  shows "qualifier_matches q x = qualifier_matches q' x" "qualifier_ok q = qualifier_ok q'" "qt_Ordinal q = qt_Ordinal q'"
  using assms by (cases q; cases q'; simp add: uncounted_def qualifier_matches_def qualifier_ok_def)+

lemma uncounted_upd [simp]: "uncounted (q\<lparr> LastOrdinalTestPast := n \<rparr>) = uncounted q"
  by (simp add: uncounted_def)

lemma map_uncounted_upd: "i < length qs \<Longrightarrow> uncounted q = uncounted (qs ! i) \<Longrightarrow> map uncounted (qs[i := q]) = map uncounted qs"
  by (simp add: map_update list_update_same_conv)

lemma qualifier_and_user_text:
  assumes "total_alloc alloc" "is_element x" "xml_ok x" "text_at m e p (xml_text d x)" "selectable x" "qualifier_ok q" "selecting e qs fin desc s"
  shows "\<exists>t. qualifier_and_user alloc m q (elem_tag x) (tag_name_end d p x) level s =
    Some (qualifier_matches q x, upd_xpath (\<lambda>y. y\<lparr> conv_value_temp := t \<rparr>) s) \<and> String_inv t"
proof -
  have "m_XPathParseError (m_XPathParser s) = ERR_XPATH_OK" "String_inv (conv_value_temp (m_XPathParser s))" "m_pUserTagFilter s = None"
    using assms(7) by (simp_all add: selecting_def xpath_state_def)
  then show ?thesis using QualifierTest_text [OF assms(1-6), of s] by (auto simp: qualifier_and_user_def user_test_def upd_xpath_def)
qed

lemma clear_counts:
  assumes "xpath_state qs fin desc x" "0 < k"
  shows "\<exists>x'. ClearLastOrdinalTestPast (int k) x = Some x' \<and> xpath_state qs fin desc x'"
proof (cases "k < length (m_Qualifiers x)")
  case True
  then have "map uncounted ((m_Qualifiers x)[k := (m_Qualifiers x ! k)\<lparr> LastOrdinalTestPast := 0 \<rparr>]) = map uncounted (m_Qualifiers x)" by (intro map_uncounted_upd) simp_all
  then show ?thesis using True assms(1) by (simp add: ClearLastOrdinalTestPast_def xpath_state_def)
next
  case False
  then show ?thesis using assms(1) by (simp add: ClearLastOrdinalTestPast_def xpath_state_def)
qed

lemma selecting_xpath: "selecting e qs fin desc s \<Longrightarrow> xpath_state qs fin desc y \<Longrightarrow> selecting e qs fin desc (s\<lparr> m_XPathParser := y \<rparr>)"
  by (simp add: selecting_def)

lemma TagTest_text:
  assumes "total_alloc alloc" "is_element x" "xml_ok x" "text_at m e p (xml_text d x)" "selectable x" "list_all qualifier_ok qs" "qualifier_ok fin" "selecting e qs fin desc s"
  shows "\<exists>y. TagTest alloc m (elem_tag x) (tag_name_end d p x) (int d + 1) s = Some (enters qs fin desc d x, s\<lparr> m_XPathParser := y \<rparr>) \<and>
    xpath_state qs fin desc y \<and> (enters qs fin desc d x \<longrightarrow> LastNodeSatificated y = hits qs fin d x)"
proof -
  let ?x = "m_XPathParser s" and ?patt = "tag_name_end d p x"
  have X: "xpath_state qs fin desc ?x" using assms(8) by (simp add: selecting_def)
  have l: "length (m_Qualifiers y) = length qs" if "xpath_state qs fin desc y" for y using that map_eq_imp_length_eq by (auto simp: xpath_state_def)
  consider "d < length qs" | "\<not> desc" "length qs < d" | "length qs \<le> d" "desc \<or> d = length qs" by linarith
  then show ?thesis
  proof cases
    case 1
    obtain y where y: "ClearLastOrdinalTestPast (int d + 1) ?x = Some y" "xpath_state qs fin desc y" using clear_counts [OF X, of "d + 1"] by (auto simp: add.commute)
    define z where "z = y\<lparr> LastNodeSatificated := False \<rparr>"
    have z: "xpath_state qs fin desc z" using y(2) by (simp add: z_def xpath_state_def)
    let ?qu = "m_Qualifiers y ! d"
    have d: "d < length (m_Qualifiers y)" using 1 l [OF y(2)] by simp
    have "map uncounted (m_Qualifiers y) ! d = map uncounted qs ! d" using y(2) by (simp add: xpath_state_def)
    then have u: "uncounted ?qu = uncounted (qs ! d)" using 1 d by simp
    have ok: "qualifier_ok (qs ! d)" using 1 assms(6) by (simp add: list_all_length)
    obtain t where t: "qualifier_and_user alloc m ?qu (elem_tag x) ?patt (int d + 1) (s\<lparr> m_XPathParser := z \<rparr>) =
        Some (qualifier_matches (qs ! d) x, s\<lparr> m_XPathParser := z\<lparr> conv_value_temp := t \<rparr> \<rparr>)" "String_inv t"
      using qualifier_and_user_text [OF assms(1-5) _ selecting_xpath [OF assms(8) z], of ?qu] uncounted_eq [OF u] ok by (auto simp: upd_xpath_def)
    have o: "qt_Ordinal ?qu < 0" using ok uncounted_eq(3) [OF u] by (simp add: qualifier_ok_def)
    have k: "m_QualifierShifts ?x = 0" "int d + 1 \<le> int (length (m_Qualifiers ?x))" "m_QualifierShifts y = 0" using X y(2) 1 l [OF X] by (simp_all add: xpath_state_def)
    have T: "TagTest alloc m (elem_tag x) ?patt (int d + 1) s = Some (qualifier_matches (qs ! d) x, s\<lparr> m_XPathParser := z\<lparr> conv_value_temp := t, m_Qualifiers := (m_Qualifiers z)[d := ?qu] \<rparr> \<rparr>)"
      using k y(1) o t(1) unfolding TagTest_def z_def by (simp add: upd_xpath_def ordinal_test_def Let_def)
    have "map uncounted ((m_Qualifiers z)[d := ?qu]) = map uncounted (m_Qualifiers z)" using d by (intro map_uncounted_upd) (simp_all add: z_def)
    then show ?thesis using T z t(2) 1 by (intro exI [of _ "z\<lparr> conv_value_temp := t, m_Qualifiers := (m_Qualifiers z)[d := ?qu] \<rparr>"]) (simp add: xpath_state_def enters_def hits_def z_def)
  next
    case 2
    then show ?thesis using X l [OF X] by (intro exI [of _ "?x\<lparr> LastNodeSatificated := False \<rparr>"]) (simp add: TagTest_def xpath_state_def enters_def upd_xpath_def)
  next
    case 3
    have u: "uncounted (m_FinalQualifier ?x) = uncounted fin" using X by (simp add: xpath_state_def)
    obtain t where t: "qualifier_and_user alloc m (m_FinalQualifier ?x) (elem_tag x) ?patt (int d + 1) s =
        Some (qualifier_matches fin x, s\<lparr> m_XPathParser := ?x\<lparr> conv_value_temp := t \<rparr> \<rparr>)" "String_inv t"
      using qualifier_and_user_text [OF assms(1-5) _ assms(8), of "m_FinalQualifier ?x"] uncounted_eq [OF u] assms(7) by (auto simp: upd_xpath_def)
    have o: "qt_Ordinal (m_FinalQualifier ?x) < 0" using assms(7) uncounted_eq(3) [OF u] by (simp add: qualifier_ok_def)
    let ?y = "?x\<lparr> conv_value_temp := t, LastNodeSatificated := qualifier_matches fin x \<rparr>"
    have "TagTest alloc m (elem_tag x) ?patt (int d + 1) s = Some (desc \<or> qualifier_matches fin x, s\<lparr> m_XPathParser := ?y \<rparr>)"
      using X l [OF X] 3 o t(1) unfolding TagTest_def xpath_state_def by (cases desc) (simp_all add: upd_xpath_def ordinal_test_def Let_def)
    then show ?thesis using X t(2) 3 by (intro exI [of _ ?y]) (auto simp: xpath_state_def enters_def hits_def)
  qed
qed

section \<open>Stepping\<close>

definition xpath_filter :: "allocator \<Rightarrow> bytes \<Rightarrow> 'u filter_fun" where
  "xpath_filter alloc m = (\<lambda>tag attributes level s. TagTest alloc m (view m tag) attributes level s)"

lemma selecting_filter: "selecting e qs fin desc s \<Longrightarrow> cur_filter_fun alloc m s = Some (xpath_filter alloc m)"
  by (simp add: selecting_def cur_filter_fun_def xpath_filter_def)

text \<open>An element is entered, or skipped with everything in it.\<close>

lemma enter_filtered:
  assumes "total_alloc alloc" "is_element x" "xml_ok x" "text_at m e p (xml_text d x)" "zero_behind m (p + length (xml_text d x))" "selectable x"
    "list_all qualifier_ok qs" "qualifier_ok fin" "selecting e qs fin desc s" "r \<longrightarrow> m_NodePath s \<noteq> []" "GetDescendantLevel s + (if r then 0 else 1) = d + 1"
  shows "\<exists>y. xpath_state qs fin desc y \<and> (enters qs fin desc d x \<longrightarrow> LastNodeSatificated y = hits qs fin d x) \<and>
    EnterNextNode_loop m (Some (xpath_filter alloc m)) r p s =
      (if enters qs fin desc d x then Some (True, put_node r (node_at d p x) (s\<lparr> m_XPathParser := y \<rparr>))
       else EnterNextNode_loop m (Some (xpath_filter alloc m)) r (p + length (xml_text d x)) (s\<lparr> m_XPathParser := y \<rparr>))"
proof -
  let ?f = "xpath_filter alloc m" and ?q = "p + length (nl d)" and ?patt = "tag_name_end d p x" and ?pend = "tag_gt d p x" and ?E = "enters qs fin desc d x"
  obtain y where y: "TagTest alloc m (elem_tag x) ?patt (int d + 1) s = Some (?E, s\<lparr> m_XPathParser := y \<rparr>)" "xpath_state qs fin desc y"
      "?E \<longrightarrow> LastNodeSatificated y = hits qs fin d x"
    using TagTest_text [OF assms(1-4,6-9)] by blast
  let ?s = "s\<lparr> m_XPathParser := y \<rparr>" and ?n = "node_at d p x"
  have n: "make_node m ?q ?patt ?pend = ?n" "view m (?q + 1, ?patt) = elem_tag x" "InnerXML_Start ?n = ?pend + 1"
    using make_node_text [OF assms(2-4)] by (simp_all add: tag_name_end_def tag_gt_def node_at_def Let_def add.assoc)
  have c: "m ! (?pend - 1) = 47 \<longleftrightarrow> elem_compact x" using arg_cong [OF n(1), of IsCompactNode] by (simp add: make_node_def node_at_def Let_def)
  have L: "int (GetDescendantLevel s) + (if r then 0 else 1) = int d + 1" using assms(11) by (simp split: if_splits)
  have F: "?f (?q + 1, ?patt) ?patt (int (GetDescendantLevel s) + (if r then 0 else 1)) s = Some (?E, ?s)"
    unfolding L xpath_filter_def n(2) by (rule y(1))
  have S: "enter_or_skip m (Some ?f) r ?q ?patt ?pend s = Some (if ?E then Entered True (put_node r ?n ?s) else Skip (p + length (xml_text d x)) ?s)"
  proof (cases ?E)
    case True
    then show ?thesis using F assms(10) by (simp add: enter_or_skip_def n(1) put_node_def del: length_nl)
  next
    case False
    show ?thesis
    proof (cases "elem_compact x")
      case True
      then show ?thesis using False F c InnerXML_end [OF True assms(2), of d p] n(3) by (simp add: enter_or_skip_def)
    next
      case nc: False
      then obtain tag as ks where x: "x = XElem tag as ks" using assms(2) by (cases x) (auto simp: is_element_def)
      have "0 < length (xml_text d x)" "view m (Suc ?q, ?patt) = tag" using x n(2) by simp_all
      then show ?thesis using False F c nc node_close_elem [OF x assms(3-5), of ?s] n(3) x by (simp add: enter_or_skip_def del: xml_text.simps length_nl)
    qed
  qed
  have "root_node_xml_end s = Some (int e)" using assms(9) by (simp add: selecting_def)
  note N = next_markup_elem [OF assms(2-4) this, of "Some ?f" r]
  show ?thesis using y(2,3) unfolding EnterNextNode_loop.simps [of m "Some ?f" r p s] N S by (intro exI [of _ y]) simp
qed

text \<open>Leaving the current element for the next one that is selected, entering an element, and leaving it without looking into it, as continuations of a walk.\<close>

definition depart :: "allocator \<Rightarrow> bytes \<Rightarrow> ('a \<Rightarrow> 'u XMLParser \<Rightarrow> ('b \<times> 'a) option) \<Rightarrow> 'a \<Rightarrow> 'u XMLParser \<Rightarrow> 'b list option" where
  "depart alloc m obs a s = do { (b, s) \<leftarrow> succeed_xpath alloc m s; if b then walk alloc m obs a s else Some [] }"

definition arrive :: "allocator \<Rightarrow> bytes \<Rightarrow> ('a \<Rightarrow> 'u XMLParser \<Rightarrow> ('b \<times> 'a) option) \<Rightarrow> 'a \<Rightarrow> 'u XMLParser \<Rightarrow> 'b list option" where
  "arrive alloc m obs a s = (if LastNodeSatificated (m_XPathParser s) then walk alloc m obs a s else depart alloc m obs a s)"

definition skip_above :: "allocator \<Rightarrow> bytes \<Rightarrow> ('a \<Rightarrow> 'u XMLParser \<Rightarrow> ('b \<times> 'a) option) \<Rightarrow> 'a \<Rightarrow> 'u XMLParser \<Rightarrow> 'b list option" where
  "skip_above alloc m obs a s = do { (b, s) \<leftarrow> xpath_climb alloc m s; if b then arrive alloc m obs a s else Some [] }"

definition skip :: "allocator \<Rightarrow> bytes \<Rightarrow> ('a \<Rightarrow> 'u XMLParser \<Rightarrow> ('b \<times> 'a) option) \<Rightarrow> 'a \<Rightarrow> 'u XMLParser \<Rightarrow> 'b list option" where
  "skip alloc m obs a s = do { (b, s) \<leftarrow> EnterNextSiblingNode alloc m s; if b then arrive alloc m obs a s else skip_above alloc m obs a s }"

lemma depart_step: "depart alloc m obs a s = do { (b, s) \<leftarrow> xpath_step alloc m s; if b then arrive alloc m obs a s else Some [] }"
  unfolding depart_def by (subst succeed_xpath.simps) (auto simp: arrive_def depart_def split: Option.bind_splits)

lemma depart_outside:
  assumes "selecting e qs fin desc s" "m_NodePath s = P @ [n]" "\<not> desc" "length qs \<le> length P"
  shows "depart alloc m obs a s = skip alloc m obs a s"
proof -
  have "length (m_Qualifiers (m_XPathParser s)) = length qs" using assms(1) map_eq_imp_length_eq by (auto simp: selecting_def xpath_state_def)
  then have "xpath_step alloc m s = do { (b, s) \<leftarrow> EnterNextSiblingNode alloc m s; if b then Some (True, s) else xpath_climb alloc m s }"
    using assms by (simp add: xpath_step_def selecting_def xpath_state_def)
  then show ?thesis unfolding depart_step skip_def by (auto simp: skip_above_def split: Option.bind_splits)
qed

lemma depart_inside:
  assumes "selecting e qs fin desc s" "m_NodePath s = P @ [n]" "desc \<or> length P < length qs" "EnterFirstChildNode alloc m None s = Some (b, s')" "selecting e qs fin desc s'"
  shows "depart alloc m obs a s = (if b then arrive alloc m obs a s' else skip alloc m obs a s')"
proof -
  have "length (m_Qualifiers (m_XPathParser s)) = length qs" using assms(1) map_eq_imp_length_eq by (auto simp: selecting_def xpath_state_def)
  then have "desc \<or> int (length (m_NodePath s)) < m_QualifierShifts (m_XPathParser s) + int (length (m_Qualifiers (m_XPathParser s))) + 1"
    using assms(1-3) by (auto simp: selecting_def xpath_state_def)
  then have "xpath_step alloc m s =
      (if b then Some (True, s') else do { (b, s) \<leftarrow> EnterNextSiblingNode alloc m s'; if b then Some (True, s) else xpath_climb alloc m s })"
    using assms by (auto simp: xpath_step_def selecting_def xpath_state_def)
  then show ?thesis unfolding depart_step skip_def by (auto simp: skip_above_def split: Option.bind_splits)
qed

lemma walk_selecting:
  assumes "selecting e qs fin desc s" "obs a s = Some (x, a')"
  shows "walk alloc m obs a s = map_option (Cons x) (depart alloc m obs a' s)"
proof -
  have "EnterSucceedNode alloc m s = succeed_xpath alloc m s" using assms(1) by (simp add: selecting_def EnterSucceedNode_def cursor_None)
  then show ?thesis using assms(2) by (subst walk.simps) (auto simp: depart_def map_option_bind split: Option.bind_splits)
qed

lemma skip_above_child:
  assumes "selecting e qs fin desc s" "m_NodePath s = P @ [n, k]" "s' = s\<lparr> m_NodePath := P @ [n] \<rparr>"
  shows "skip_above alloc m obs a s = skip alloc m obs a s'"
proof -
  have "EnterParentNode s = (True, s')" using assms by (simp add: EnterParentNode_def GetDescendantLevel_def butlast_append selecting_def cursor_None)
  moreover have "m_XMLParseError s = ERR_XML_OK" "int (GetDescendantLevel s) > m_QualifierShifts (m_XPathParser s) + 1"
    using assms(1,2) by (simp_all add: selecting_def xpath_state_def GetDescendantLevel_def)
  ultimately have "xpath_climb alloc m s = do { (b, s) \<leftarrow> EnterNextSiblingNode alloc m s'; if b then Some (True, s) else xpath_climb alloc m s }"
    by (subst xpath_climb.simps) simp
  then show ?thesis unfolding skip_above_def skip_def by (auto simp: skip_above_def split: Option.bind_splits)
qed

section \<open>Selection\<close>

text \<open>The selected elements of a tree with their depths and positions.\<close>

fun selected :: "Qualifier list \<Rightarrow> Qualifier \<Rightarrow> bool \<Rightarrow> nat \<Rightarrow> nat \<Rightarrow> xml \<Rightarrow> (nat \<times> nat \<times> xml) list"
  and selected_list :: "Qualifier list \<Rightarrow> Qualifier \<Rightarrow> bool \<Rightarrow> nat \<Rightarrow> nat \<Rightarrow> xml list \<Rightarrow> (nat \<times> nat \<times> xml) list" where
  "selected qs fin desc d p (XText t) = []"
| "selected qs fin desc d p (XCData t) = []"
| "selected qs fin desc d p (XEmpty tag as) = (if hits qs fin d (XEmpty tag as) then [(d, p, XEmpty tag as)] else [])"
| "selected qs fin desc d p (XElem tag as ks) = (if hits qs fin d (XElem tag as ks) then [(d, p, XElem tag as ks)] else []) @
    (if desc \<or> d < length qs then selected_list qs fin desc (d + 1) (InnerXML_Start (node_at d p (XElem tag as ks))) ks else [])"
| "selected_list qs fin desc d p [] = []"
| "selected_list qs fin desc d p (x # xs) = (if is_element x \<and> enters qs fin desc d x then selected qs fin desc d p x else []) @
    selected_list qs fin desc d (p + length (xml_text d x)) xs"

context observer
begin

lemma arrive_observe:
  assumes "keeps a" "is_element x" "xml_ok x" "text_at m e p (xml_text d x)" "zero_behind m (p + length (xml_text d x))" "selecting e qs fin desc s"
    "m_NodePath s = P @ [node_at d p x]" "length P = d" "fits d p x" "LastNodeSatificated (m_XPathParser s) = h" "\<And>a. keeps a \<Longrightarrow> depart alloc m obs a s = Some R"
  shows "arrive alloc m obs a s = Some ((if h then [seen d p x] else []) @ R)"
proof -
  have "m_XMLParseError s = ERR_XML_OK" using assms(6) by (simp add: selecting_def)
  then obtain a' where "obs a s = Some (seen d p x, a')" "keeps a'" using sees [OF assms(1-5) _ assms(7-9)] by blast
  then show ?thesis using walk_selecting [OF assms(6), of obs a "seen d p x" a' alloc m] assms(1,10,11) by (simp add: arrive_def)
qed

text \<open>What \<^verbatim>\<open>_EnterNextNode\<close> does at \<open>p\<close>: it enters an element from which the walk gives \<open>X\<close>, or there is none and \<open>X\<close> is what follows above, \<open>R\<close>.\<close>

definition finds :: "bool \<Rightarrow> nat \<Rightarrow> Qualifier list \<Rightarrow> Qualifier \<Rightarrow> bool \<Rightarrow> 'b list \<Rightarrow> 'b list \<Rightarrow> 'a \<Rightarrow> 'u XMLParser \<Rightarrow> bool" where
  "finds r p qs fin desc R X a s \<longleftrightarrow>
    (\<exists>b s'. EnterNextNode_loop m (Some (xpath_filter alloc m)) r p s = Some (b, s') \<and> selecting e qs fin desc s' \<and> (\<not> b \<longrightarrow> m_NodePath s' = m_NodePath s) \<and>
      (if b then arrive alloc m obs a s' else Some R) = Some X)"

lemma depart_children:
  assumes "selecting e qs fin desc s" "m_NodePath s = P @ [n]" "\<not> IsCompactNode n" "InnerXML_Start n < e" "desc \<or> length P < length qs" "finds False (InnerXML_Start n) qs fin desc R X a s"
    "\<And>s. selecting e qs fin desc s \<Longrightarrow> m_NodePath s = P @ [n] \<Longrightarrow> skip alloc m obs a s = Some R"
  shows "depart alloc m obs a s = Some X"
proof -
  obtain b s' where b: "EnterNextNode_loop m (Some (xpath_filter alloc m)) False (InnerXML_Start n) s = Some (b, s')" "selecting e qs fin desc s'"
      "\<not> b \<longrightarrow> m_NodePath s' = m_NodePath s" "(if b then arrive alloc m obs a s' else Some R) = Some X"
    using assms(6) unfolding finds_def by blast
  have "\<not> beyond_root (InnerXML_Start n) s" "s\<lparr> attribute_cursor := None \<rparr> = s" using assms(1,4) by (simp_all add: beyond_root_def selecting_def cursor_None)
  then have "EnterFirstChildNode alloc m None s = Some (b, s')"
    using b(1) assms(2,3) selecting_filter [OF assms(1)] by (simp add: EnterFirstChildNode_def EnterNextNode_def CurNode_def)
  from depart_inside [OF assms(1,2,5) this b(2), of obs a] show ?thesis using b(2-4) assms(7) [OF b(2)] assms(2) by (auto split: if_splits)
qed

lemma skip_sibling:
  assumes "is_element x" "xml_ok x" "text_at m e p (xml_text d x)" "zero_behind m (p + length (xml_text d x))" "selecting e qs fin desc s" "m_NodePath s = P @ [node_at d p x]"
    "p + length (xml_text d x) < e" "finds True (p + length (xml_text d x)) qs fin desc R X a s"
    "\<And>n s. selecting e qs fin desc s \<Longrightarrow> m_NodePath s = P @ [n] \<Longrightarrow> skip_above alloc m obs a s = Some R"
  shows "skip alloc m obs a s = Some X"
proof -
  obtain b s' where b: "EnterNextNode_loop m (Some (xpath_filter alloc m)) True (p + length (xml_text d x)) s = Some (b, s')" "selecting e qs fin desc s'"
      "\<not> b \<longrightarrow> m_NodePath s' = m_NodePath s" "(if b then arrive alloc m obs a s' else Some R) = Some X"
    using assms(8) unfolding finds_def by blast
  have "\<not> beyond_root (p + length (xml_text d x)) s" "attribute_cursor s = None" using assms(5,7) by (simp_all add: beyond_root_def selecting_def)
  then have "EnterNextSiblingNode alloc m s = Some (b, s')"
    using next_sibling_filtered [OF assms(1-4) _ assms(6)] b(1) selecting_filter [OF assms(5)] by (simp add: EnterNextNode_def)
  then show ?thesis using b assms(9) [OF b(2)] assms(6) by (auto simp: skip_def split: if_splits)
qed

lemma finds_here:
  assumes "EnterNextNode_loop m (Some (xpath_filter alloc m)) r p s = Some (True, s')" "selecting e qs fin desc s'" "arrive alloc m obs a s' = Some X"
  shows "finds r p qs fin desc R X a s"
  using assms unfolding finds_def by auto

lemma finds_later:
  assumes "EnterNextNode_loop m (Some (xpath_filter alloc m)) r p s = EnterNextNode_loop m (Some (xpath_filter alloc m)) r p' s'" "m_NodePath s' = m_NodePath s"
    "finds r p' qs fin desc R X a s'"
  shows "finds r p qs fin desc R X a s"
  using assms unfolding finds_def by simp

lemma select_tree:
  assumes T: "total_alloc alloc" "list_all qualifier_ok qs" "qualifier_ok fin"
  shows "is_element x \<Longrightarrow> xml_ok x \<Longrightarrow> list_all (\<lambda>(d, p, x). fits d p x) (elements d p x) \<Longrightarrow> list_all selectable (descendants x) \<Longrightarrow> text_at m e p (xml_text d x) \<Longrightarrow>
      zero_behind m (p + length (xml_text d x)) \<Longrightarrow> selecting e qs fin desc s \<Longrightarrow> m_NodePath s = P @ [node_at d p x] \<Longrightarrow> length P = d \<Longrightarrow>
      LastNodeSatificated (m_XPathParser s) = hits qs fin d x \<Longrightarrow>
      (\<And>a s. keeps a \<Longrightarrow> selecting e qs fin desc s \<Longrightarrow> m_NodePath s = P @ [node_at d p x] \<Longrightarrow> skip alloc m obs a s = Some R) \<Longrightarrow> keeps a \<Longrightarrow>
      arrive alloc m obs a s = Some (map (\<lambda>(d, p, x). seen d p x) (selected qs fin desc d p x) @ R)"
    "xmls_ok xs \<Longrightarrow> list_all (\<lambda>(d, p, x). fits d p x) (elements_list d p xs) \<Longrightarrow> list_all selectable (descendants_list xs) \<Longrightarrow>
      text_at m e p (xmls_text d xs @ u @ 60 # 47 # y) \<Longrightarrow> quiet u \<Longrightarrow> zero_behind m (p + length (xmls_text d xs)) \<Longrightarrow> selecting e qs fin desc s \<Longrightarrow>
      P = (if r then butlast (m_NodePath s) else m_NodePath s) \<Longrightarrow> length P = d \<Longrightarrow> r \<longrightarrow> m_NodePath s \<noteq> [] \<Longrightarrow>
      (\<And>n a s. keeps a \<Longrightarrow> selecting e qs fin desc s \<Longrightarrow> m_NodePath s = P @ [n] \<Longrightarrow> skip_above alloc m obs a s = Some R) \<Longrightarrow> keeps a \<Longrightarrow>
      finds r p qs fin desc R (map (\<lambda>(d, p, x). seen d p x) (selected_list qs fin desc d p xs) @ R) a s"
proof (induction d x and d xs arbitrary: p s P R a and p s P R a r u y rule: xml_text_xmls_text.induct)
  case (3 d tag as)
  let ?x = "XEmpty tag as"
  have "CurNode s = Some (node_at d p ?x)" "IsCompactNode (node_at d p ?x)" using 3(8) by (simp_all add: CurNode_def node_at_def Let_def)
  then have "EnterFirstChildNode alloc m None s = Some (False, s)" by (simp add: EnterFirstChildNode_def)
  then have "depart alloc m obs a s = Some R" if k: "keeps a" for a
    using depart_inside [OF 3(7,8) _ _ 3(7), of alloc m False obs a] depart_outside [OF 3(7,8), of alloc m obs a] 3(9) 3(11) [OF k 3(7,8)] by (cases "desc \<or> d < length qs") auto
  then show ?case using arrive_observe [OF 3(12,1,2,5-9) _ 3(10)] 3(3) by simp
next
  case (4 d tag as ks)
  let ?x = "XElem tag as ks" and ?n = "node_at d p (XElem tag as ks)"
  let ?K = "if desc \<or> d < length qs then selected_list qs fin desc (d + 1) (InnerXML_Start ?n) ks else []"
  note sel = "4.prems"(7) and path = "4.prems"(8) and R = "4.prems"(11)
  have "depart alloc m obs a s = Some (map (\<lambda>(d, p, x). seen d p x) ?K @ R)" if k: "keeps a" for a
  proof (cases "desc \<or> d < length qs")
    case True
    obtain u y where u: "quiet u" "text_at m e (InnerXML_Start ?n) (xmls_text (d + 1) ks @ u @ 60 # 47 # y)"
        "InnerXML_Start ?n + length (xmls_text (d + 1) ks) \<le> p + length (xml_text d ?x)"
      by (rule elem_rest_stop [OF refl "4.prems"(5)])
    have A: "skip_above alloc m obs a s' = Some R" if "keeps a" "selecting e qs fin desc s'" "m_NodePath s' = m_NodePath s @ [n]" for n a s'
      using skip_above_child [OF that(2), of P ?n n "s'\<lparr> m_NodePath := P @ [?n] \<rparr>" alloc m obs a] that R [OF that(1), of "s'\<lparr> m_NodePath := P @ [?n] \<rparr>"] path
      by (simp add: selecting_def)
    have "finds False (InnerXML_Start ?n) qs fin desc R (map (\<lambda>(d, p, x). seen d p x) (selected_list qs fin desc (d + 1) (InnerXML_Start ?n) ks) @ R) a s"
      using "4.prems" A k zero_behind_mono [OF "4.prems"(6) u(3)] by (intro "4.IH" [OF _ _ _ u(2,1)]) auto
    moreover have "InnerXML_Start ?n < e" "\<not> IsCompactNode ?n" using text_at_bound [OF u(2)] by (simp_all add: node_at_def Let_def)
    ultimately show ?thesis using True R [OF k] "4.prems"(9) by (intro depart_children [OF sel path]) auto
  next
    case False
    then show ?thesis using depart_outside [OF sel path, of alloc m obs a] "4.prems"(9) R [OF k sel path] by simp
  qed
  then show ?case using arrive_observe [OF "4.prems"(12,1,2,5-9) _ "4.prems"(10)] "4.prems"(3) by simp
next
  case (5 d)
  then have "EnterNextNode_loop m (Some (xpath_filter alloc m)) r p s = Some (False, s)" using enter_stop [of m e p u y _ r s] by simp
  then show ?case using 5 by (auto simp: finds_def)
next
  case (6 d x xs)
  let ?f = "xpath_filter alloc m" and ?p = "p + length (xml_text d x)" and ?X = "map (\<lambda>(d, p, x). seen d p x) (selected_list qs fin desc d (p + length (xml_text d x)) xs) @ R"
  note sel = "6.prems"(7)
  have t: "text_at m e p (xml_text d x)" "text_at m e ?p (xmls_text d xs @ u @ 60 # 47 # y)" using "6.prems"(4) by (simp_all add: add.assoc)
  have z: "zero_behind m ?p" "zero_behind m (?p + length (xmls_text d xs))" using zero_behind_mono [OF "6.prems"(6)] "6.prems"(6) by (simp_all add: add.assoc)
  have rest: "finds r ?p qs fin desc R ?X a s1"
    if "selecting e qs fin desc s1" "P = (if r then butlast (m_NodePath s1) else m_NodePath s1)" "r \<longrightarrow> m_NodePath s1 \<noteq> []" "keeps a" for s1 r a
    using "6.prems" t(2) z(2) that by (intro "6.IH"(2) [where P = P]) auto
  show ?case
  proof (cases "is_element x")
    case False
    then have "EnterNextNode_loop m (Some ?f) r p s = EnterNextNode_loop m (Some ?f) r ?p s"
      using "6.prems"(1) t(1) z(1) sel by (intro enter_skip_item) (auto simp: selecting_def)
    then show ?thesis using finds_later [OF _ refl rest [OF sel "6.prems"(8,10,12)]] False by simp
  next
    case True
    have ok: "xml_ok x" "selectable x" using "6.prems"(1,3) True by (cases x; simp add: is_element_def)+
    have l: "GetDescendantLevel s + (if r then 0 else 1) = d + 1" using "6.prems"(8-10) by (auto simp: GetDescendantLevel_def)
    obtain v where v: "xpath_state qs fin desc v" "enters qs fin desc d x \<longrightarrow> LastNodeSatificated v = hits qs fin d x"
      "EnterNextNode_loop m (Some ?f) r p s = (if enters qs fin desc d x then Some (True, put_node r (node_at d p x) (s\<lparr> m_XPathParser := v \<rparr>))
         else EnterNextNode_loop m (Some ?f) r ?p (s\<lparr> m_XPathParser := v \<rparr>))"
      using enter_filtered [OF T(1) True ok(1) t(1) z(1) ok(2) T(2,3) sel "6.prems"(10) l] by blast
    have sv: "selecting e qs fin desc (s\<lparr> m_XPathParser := v \<rparr>)" by (rule selecting_xpath [OF sel v(1)])
    show ?thesis
    proof (cases "enters qs fin desc d x")
      case False
      then show ?thesis using finds_later [OF _ _ rest [OF sv _ _ "6.prems"(12)], of r p s] "6.prems"(8,10) v(3) by simp
    next
      case E: True
      define s1 where "s1 = put_node r (node_at d p x) (s\<lparr> m_XPathParser := v \<rparr>)"
      have s1: "selecting e qs fin desc s1" "m_NodePath s1 = P @ [node_at d p x]" "LastNodeSatificated (m_XPathParser s1) = hits qs fin d x"
        using sv v(2) E "6.prems"(8) by (simp_all add: s1_def put_node_def selecting_def)
      have "skip alloc m obs a s2 = Some ?X" if k: "keeps a" "selecting e qs fin desc s2" "m_NodePath s2 = P @ [node_at d p x]" for a s2
        using rest [OF k(2) _ _ k(1), of True] k(3) text_at_bound [OF t(2)] "6.prems"(11) [OF k(1)] by (intro skip_sibling [OF True ok(1) t(1) z(1) k(2,3)]) auto
      then have "arrive alloc m obs a s1 = Some (map (\<lambda>(d, p, x). seen d p x) (selected qs fin desc d p x) @ ?X)"
        using True "6.prems" t(1) z(1) s1 by (intro "6.IH"(1) [where P = P]) auto
      then show ?thesis using v(3) E True s1(1) by (auto simp: s1_def [symmetric] intro: finds_here)
    qed
  qed
qed (simp_all add: is_element_def)

text \<open>From the beginning of a document: what is selected starts at the root, if the root is entered, and behind it nothing is left.\<close>

lemma skip_root:
  assumes "is_element x" "xml_ok x" "text_at m e p (xml_text 0 x)" "e = p + length (xml_text 0 x)" "zero_behind m e" "selecting e qs fin desc s" "m_NodePath s = [node_at 0 p x]"
  shows "skip alloc m obs a s = Some []"
proof -
  have "beyond_root e s" "attribute_cursor s = None" using assms(6) by (simp_all add: beyond_root_def selecting_def)
  then have "EnterNextSiblingNode alloc m s = Some (False, s)"
    using next_sibling_filtered [OF assms(1-3), of s "[]" alloc] assms(4,5,7) by (simp add: EnterNextNode_def)
  moreover have "xpath_climb alloc m s = Some (False, s)" using assms(6,7) by (subst xpath_climb.simps) (simp add: GetDescendantLevel_def selecting_def xpath_state_def)
  ultimately show ?thesis by (simp add: skip_def skip_above_def)
qed

lemma depart_start:
  assumes "selecting e qs fin desc s" "m_NodePath s = []" "root_node_xml_start s = Some q" "EnterNextNode m (Some (xpath_filter alloc m)) False q s = Some (b, s')"
    "selecting e qs fin desc s'" "\<not> b \<longrightarrow> m_NodePath s' = []"
  shows "depart alloc m obs a s = (if b then arrive alloc m obs a s' else Some [])"
proof -
  have "length (m_Qualifiers (m_XPathParser s)) = length qs" using assms(1) map_eq_imp_length_eq by (auto simp: selecting_def xpath_state_def)
  moreover have "EnterFirstChildNode alloc m None s = Some (b, s')"
    using assms(1-4) selecting_filter [OF assms(1)] by (simp add: EnterFirstChildNode_def CurNode_def selecting_def cursor_None)
  moreover have "xpath_climb alloc m s' = Some (False, s')" if "\<not> b"
    using assms(5,6) that by (subst xpath_climb.simps) (simp add: GetDescendantLevel_def selecting_def xpath_state_def)
  ultimately have "xpath_step alloc m s = Some (b, s')"
    using assms(1,2,5,6) by (auto simp: xpath_step_def selecting_def xpath_state_def EnterNextSiblingNode_def CurNode_def)
  then show ?thesis by (simp add: depart_step)
qed

lemma select_document:
  assumes "total_alloc alloc" "list_all qualifier_ok qs" "qualifier_ok fin" "is_element x" "xml_ok x" "list_all (\<lambda>(d, p, x). fits d p x) (elements 0 p x)"
    "list_all selectable (descendants x)" "text_at m e p (xml_text 0 x)" "e = p + length (xml_text 0 x)" "rd m e = Some 0" "selecting e qs fin desc s" "m_NodePath s = []"
    "root_node_xml_start s = Some (p + length (nl 0))" "keeps a"
  shows "depart alloc m obs a s = Some (if enters qs fin desc 0 x then map (\<lambda>(d, p, x). seen d p x) (selected qs fin desc 0 p x) else [])"
proof -
  let ?f = "xpath_filter alloc m" and ?E = "enters qs fin desc 0 x"
  have z: "zero_behind m e" using assms(10) by (auto simp: zero_behind_def rd_def Cons_nth_drop_Suc [symmetric] split: if_splits)
  have sx: "selectable x" using assms(4,7) by (cases x) (simp_all add: is_element_def)
  obtain v where v: "xpath_state qs fin desc v" "?E \<longrightarrow> LastNodeSatificated v = hits qs fin 0 x"
    "EnterNextNode_loop m (Some ?f) False p s = (if ?E then Some (True, put_node False (node_at 0 p x) (s\<lparr> m_XPathParser := v \<rparr>))
       else EnterNextNode_loop m (Some ?f) False e (s\<lparr> m_XPathParser := v \<rparr>))"
    using enter_filtered [OF assms(1,4,5,8) _ sx assms(2,3,11), of False] z assms(9,12) by (auto simp: GetDescendantLevel_def)
  let ?s = "s\<lparr> m_XPathParser := v \<rparr>"
  have sv: "selecting e qs fin desc ?s" by (rule selecting_xpath [OF assms(11) v(1)])
  have t: "text_at m e p (nl 0)" "text_at m e (p + length (nl 0)) (60 # elem_tag x @ attributes_text (elem_attributes x) @ tag_tail x @ elem_rest 0 x)"
    using assms(8) unfolding xml_text_elem [OF assms(4)] text_at_append by blast+
  have "\<not> beyond_root (p + length (nl 0)) s" using text_at_bound [OF t(2)] assms(11) by (simp add: beyond_root_def selecting_def)
  then have E: "EnterNextNode m (Some ?f) False (p + length (nl 0)) s = EnterNextNode_loop m (Some ?f) False p s"
    using enter_quiet [OF t(1) quiet_nl, of "Some ?f" False s] by (simp add: EnterNextNode_def del: length_nl)
  show ?thesis
  proof (cases ?E)
    case True
    let ?s1 = "put_node False (node_at 0 p x) ?s"
    have s1: "selecting e qs fin desc ?s1" "m_NodePath ?s1 = [node_at 0 p x]" "LastNodeSatificated (m_XPathParser ?s1) = hits qs fin 0 x"
      using sv v(2) True assms(12) by (simp_all add: put_node_def selecting_def)
    have "arrive alloc m obs a ?s1 = Some (map (\<lambda>(d, p, x). seen d p x) (selected qs fin desc 0 p x) @ [])"
      using s1 assms(9,14) z skip_root [OF assms(4,5,8,9)] by (intro select_tree(1) [OF assms(1-8), where P = "[]"]) simp_all
    moreover have "EnterNextNode m (Some ?f) False (p + length (nl 0)) s = Some (True, ?s1)" using E v(3) True by simp
    ultimately show ?thesis using depart_start [OF assms(11-13) _ s1(1), where b = True and a = a] True by simp
  next
    case False
    have "skip_while (\<lambda>x. x \<noteq> 60 \<and> x \<noteq> 0) m e = e" using assms(10) by (subst skip_while.simps) (auto simp: rd_def split: if_splits)
    then have "strchr_at m e 60 = Some None" using assms(10) by (simp add: strchr_at_def)
    then have "EnterNextNode_loop m (Some ?f) False e ?s = Some (False, ?s)" by (subst EnterNextNode_loop.simps) (simp add: next_markup_def seek_tag_open_def)
    then have "EnterNextNode m (Some ?f) False (p + length (nl 0)) s = Some (False, ?s)" using E v(3) False by simp
    then show ?thesis using depart_start [OF assms(11-13) _ sv, where b = False and a = a] False assms(12) by simp
  qed
qed

end

end
