(* ===== verification/Spec2Isabelle.thy ===== *)
theory Spec2Isabelle
  imports Bits Pod Hashing Search BufferRef Buffers CircularBuf BoolArray TopValues Streams CharSet
    StrNum Encode64 Encode32 Tos Utf8Url DateTime StrEdit JsonText XmlSelect
begin

text \<open>
  Verification of the runtime core of CPCF: the containers, strings and codecs of \<^verbatim>\<open>core/rt\<close> and the encodings and
  calendar of \<^verbatim>\<open>core/os\<close>, on which the rest of the repository (files, threads, networking, graphics, tools) is built.

  \<^bold>\<open>The program.\<close> The core is a header library in C++ templates. \<^verbatim>\<open>core/rt/runtime_base.h\<close> has the scalar and memory primitives, hashing and
  ordered search; \<^verbatim>\<open>core/rt/buffer_type.h\<close> the arrays (borrowed, owning, growing), the ring buffer, bit arrays, a frequency counter and
  memory streams; \<^verbatim>\<open>core/rt/string_type.h\<close> character sets, string views, owning strings, concatenation expressions and conversion to text;
  \<^verbatim>\<open>core/os/kernal_encode.cpp\<close> the Base64, Base16, Base32, UTF-8 and URL codecs; \<^verbatim>\<open>core/os/kernel.h\<close> and \<^verbatim>\<open>core/os/kernel.cpp\<close> dates and times. The
  strings use character sets and the primitives, the searches use the order of the strings, the codecs and the formatted values use
  the number conversions. \<^verbatim>\<open>core/rt/json.h\<close> and \<^verbatim>\<open>core/rt/json.cpp\<close> compose JSON text into strings and read it in place,
  \<^verbatim>\<open>core/rt/xml_xhtml.h\<close> and \<^verbatim>\<open>core/rt/xml_xhtml.cpp\<close> do the same for XML, with a subset of XPath.

  \<^bold>\<open>Conventions.\<close> The model is the 64-bit little-endian release build. Machine integers are words where their width matters and naturals or
  integers where the code cannot leave the range; \<^verbatim>\<open>char\<close> is a signed byte. A C++ object is a record, memory is a list of bytes or of
  cells. An access outside the memory an operation was given makes it \<open>None\<close>; a failing call returns what the code returns. An allocator is a
  parameter of the operations that allocate. \<^verbatim>\<open>ASSERT\<close> expands to nothing and \<^verbatim>\<open>VERIFY\<close> only logs, as in the release build. The line above a
  definition names the file, the lines and the symbol it models. Loops are recursive functions with a measure; none needs fuel. The loops over JSON text that need not end (the enumeration of an object, the size of an
  array, the search for a name), the replacement of texts and those over XML (leaving nested elements, stepping along an XPath) are partial functions, and the theorems on them show that they return on
  the texts they are about.

  \<^bold>\<open>Theories.\<close>
  \<^item> \<open>Base\<close>: machine types, C characters, little-endian loads and stores, shared lemmas on words and lists.
  \<^item> \<open>Bits\<close>, \<open>Pod\<close>, \<open>Hashing\<close>: \<^verbatim>\<open>rt::PopCount\<close>, \<^verbatim>\<open>rt::NonzeroBits\<close>, \<^verbatim>\<open>rt::MaxPower2Within\<close>, \<^verbatim>\<open>rt::EnlargeTo32AL\<close> and their kin against their
    mathematical meaning; fills, copies and byte swaps; the hash functions and the bytes they depend on.
  \<^item> \<open>Search\<close>: \<^verbatim>\<open>rt::LowerBound\<close> and \<^verbatim>\<open>rt::BinarySearch\<close>, proved for every order that satisfies the locale \<open>strict_weak_order\<close>.
  \<^item> \<open>BufferRef\<close>, \<open>Buffers\<close>: \<^verbatim>\<open>rt::Buffer_Ref\<close> with quick-select and sorted insertion, \<^verbatim>\<open>rt::Buffer\<close> and \<^verbatim>\<open>rt::BufferEx\<close> refining lists, and what a
    failed allocation leaves behind.
  \<^item> \<open>CircularBuf\<close>: \<^verbatim>\<open>rt::CircularBuffer\<close>; in every state its clients reach it is a ring of disjoint blocks that the writes of the clients do not touch, and it is a queue; requests
    near the top of the address space break it.
  \<^item> \<open>BoolArray\<close>, \<open>TopValues\<close>, \<open>Streams\<close>: \<^verbatim>\<open>rt::BooleanArray\<close> against functions from positions to bits, \<^verbatim>\<open>rt::TopFrequentValues\<close>, memory streams.
  \<^item> \<open>CharSet\<close>, \<open>StrNum\<close>, \<open>Tos\<close>: \<^verbatim>\<open>rt::CharacterSet\<close>, \<^verbatim>\<open>_details::itoa\<close> and \<^verbatim>\<open>String_Base::ToNumber\<close> as inverses, the buffers of \<^verbatim>\<open>rt::tos\<close>.
  \<^item> \<open>Encode64\<close>, \<open>Encode32\<close>, \<open>Utf8Url\<close>: the codecs of \<^verbatim>\<open>core/os/kernal_encode.cpp\<close>; round trips (in the locales \<open>codec\<close> and \<open>base32_table\<close>), the
    buffer sizes that suffice and the inputs that overrun.
  \<^item> \<open>Calendar\<close>, \<open>DateTime\<close>: \<^verbatim>\<open>os::Timestamp\<close> and \<^verbatim>\<open>os::Date32\<close> against the day number of the Gregorian calendar.
  \<^item> \<open>StrView\<close>: the reading operations of \<^verbatim>\<open>rt::String_Base\<close>. Search against first occurrences, lines, tokens and fields against reference
    splittings (the locale \<open>part_reader\<close> is the contract of the two readers), the order of texts as an instance of \<open>strict_weak_order\<close>.
  \<^item> \<open>StrHeap\<close>: \<^verbatim>\<open>rt::String\<close>, \<^verbatim>\<open>rt::StringFixed\<close> and \<^verbatim>\<open>String_AddExpr\<close>; the locale \<open>copy_source\<close> is what an assignment needs of its right-hand
    side, and sequences of operations refine operations on texts.
  \<^item> \<open>StrEdit\<close>: edits in place against filters and copying loops, escaping and its inverse, replacement of texts, removal of code comments.

  \<^item> \<open>JsonCompose\<close>: \<^verbatim>\<open>rt::_JVar\<close>, \<^verbatim>\<open>_JObj\<close>, \<^verbatim>\<open>_JArray\<close>, \<^verbatim>\<open>_JObject\<close>. \<^verbatim>\<open>GetLength\<close> and \<^verbatim>\<open>CopyTo\<close> against the text of a value; a chain is a \<open>copy_source\<close>.
  \<^item> \<open>JsonParse\<close>: the scanners of \<^verbatim>\<open>rt::JsonObject\<close> and \<^verbatim>\<open>GetNextKeyValuePair\<close>. Texts that leave the bracket depth unchanged (\<open>neutral\<close>) carry the proof that what was
    composed, nested to any depth, reads back member by member.
  \<^item> \<open>JsonGet\<close>: \<^verbatim>\<open>rt::JsonArray\<close>, \<^verbatim>\<open>_LocateValue\<close> and \<^verbatim>\<open>GetValue\<close> on composed texts, with the path split from its text; malformed and empty values that the code does not handle.
  \<^item> \<open>JsonText\<close>: escaping and unescaping, and the round trip of a string through composing and reading.

  \<^item> \<open>XmlCompose\<close>: \<^verbatim>\<open>rt::XMLComposer\<close>. The text of a tree of elements is the specification; the calls for a tree write it, and \<^verbatim>\<open>AddXML\<close> indents a document again.
  \<^item> \<open>XmlParse\<close>, \<open>XmlTags\<close>: the scanners of \<^verbatim>\<open>rt::XMLParser\<close> (ends of tags and elements, attributes, entities) and what they find in the text of a tree.
  \<^item> \<open>XmlPath\<close>: \<^verbatim>\<open>rt::XPathParser\<close>, the parsing of a path and the test of a tag against it.
  \<^item> \<open>XmlNode\<close>: the state of \<^verbatim>\<open>rt::XMLParser\<close> and its operations; the document is a memory that no operation changes.
  \<^item> \<open>XmlText\<close>, \<open>XmlRead\<close>: a composed document is loaded and visited in document order. The locale \<open>observer\<close> is the contract of what is read at an element; the listing, the
    attributes and the text of an element are its interpretations, and give the round trips from the composer to the parser.
  \<^item> \<open>XmlSelect\<close>: the tests of an element against the qualifiers of a path, and the elements a loaded path selects in a composed document.

  \<^bold>\<open>Not modelled.\<close> Floating-point code (parsing and printing of reals, \<^verbatim>\<open>core/rt/small_math.h\<close>); the conversions that ask the C library for the
  calendar and the free-form date parser; \<^verbatim>\<open>String_Base::ResolveRelativePath\<close>, which keeps references into the text it rewrites; the rewriting of JSON
  (\<^verbatim>\<open>Override\<close> writes in the order of a hash map, \<^verbatim>\<open>RemoveKeys\<close> and \<^verbatim>\<open>JsonBeautified\<close> lay text out again); the conversion of HTML pages to XHTML, of CSS
  selectors to XPath and back, and the composer's output to a stream; and what only passes calls to the operating system or to third-party code (files, threads, archives,
  logging, graphics, networking, everything under \<^verbatim>\<open>core/ext\<close>).
\<close>

section \<open>JSON escapes and UTF-8\<close>

text \<open>The text of a code unit as \<^verbatim>\<open>\uXXXX\<close>, with upper- or lower-case digits.\<close>

definition hex_digit :: "bool \<Rightarrow> nat \<Rightarrow> byte" where
  "hex_digit up k = of_nat (if k < 10 then 48 + k else if up then 55 + k else 87 + k)"

definition u_escape :: "bool \<Rightarrow> u16 \<Rightarrow> bytes" where
  "u_escape up x = [92, 117] @ map (\<lambda>i. hex_digit up (unat x div 16 ^ i mod 16)) [3, 2, 1, 0]"

lemma hex_value_digit: "k < 16 \<Longrightarrow> hex_value (hex_digit up k) = int k"
proof -
  have "list_all (\<lambda>k. hex_value (hex_digit True k) = int k) [0..<16]" by code_simp
  moreover have "list_all (\<lambda>k. hex_value (hex_digit False k) = int k) [0..<16]" by code_simp
  ultimately show "k < 16 \<Longrightarrow> hex_value (hex_digit up k) = int k" by (cases up) (simp_all add: list_all_iff)
qed

lemma hex_digits_value:
  assumes "n < 65536"
  shows "int (n div 16 ^ 3 mod 16) * 2 ^ 12 + int (n div 16 ^ 2 mod 16) * 2 ^ 8 + int (n div 16 ^ 1 mod 16) * 2 ^ 4 +
    int (n div 16 ^ 0 mod 16) = int n"
proof -
  have *: "a = b * 16 + p \<Longrightarrow> b = c * 16 + q \<Longrightarrow> c = d * 16 + r \<Longrightarrow> a = d * 4096 + r * 256 + q * 16 + p" for a b c d p q r :: nat
    by simp
  have a: "n = n div 16 div 16 div 16 * 4096 + n div 16 div 16 mod 16 * 256 + n div 16 mod 16 * 16 + n mod 16"
    by (rule *) simp_all
  have e: "n div 16 div 16 = n div 256" "n div 256 div 16 = n div 4096 mod 16"
    using assms by (simp_all flip: div_mult2_eq)
  have "n = n div 4096 mod 16 * 4096 + n div 256 mod 16 * 256 + n div 16 mod 16 * 16 + n mod 16" using a unfolding e .
  then have "int n = int (n div 4096 mod 16 * 4096 + n div 256 mod 16 * 256 + n div 16 mod 16 * 16 + n mod 16)" by (rule arg_cong)
  then show ?thesis by (simp only: of_nat_add of_nat_mult) simp
qed

lemma code_small:
  "uint (x :: u16) \<le> 0x7f \<longleftrightarrow> x \<le> 0x7f" "0x7ff < uint (x :: u16) \<longleftrightarrow> 0x7ff < x"
  by (simp_all add: word_le_def word_less_def)

lemma le_store_2_low: "le_store 2 (ucast (w :: u32) :: u16) = le_store 2 w"
  unfolding le_store_2 list.inject by (intro conjI; (rule byte_eqI; simp add: bit_simps)?) simp

lemma code_bytes_utf8: "code_bytes (uint x) = (utf8_store x, length (utf8 x))"
proof -
  have w: "(word_of_int (uint x) :: u32) = ucast x" "(word_of_int (uint x) :: byte) = ucast x" by (simp_all add: unsigned_of_int)
  show ?thesis
  proof (cases x rule: utf8_cases)
    case one
    then show ?thesis by (simp add: code_bytes_def code_small utf8_store_def utf8_def w)
  next
    case three
    then show ?thesis unfolding code_bytes_def Let_def w utf8_store3 by (simp add: code_small utf8_store_def utf8_def numeral_3_eq_3)
  next
    case two
    then show ?thesis unfolding code_bytes_def Let_def w le_store_2_low utf8_store2 [OF two(1)] by (simp add: code_small utf8_store_def utf8_def)
  qed
qed

text \<open>The two codecs store through the same primitive, which the string theories also allow to store nothing.\<close>

lemma put_utf8: "StrHeap.put p (utf8_store x) m = Utf8Url.put p (utf8_store x) m"
proof -
  have "utf8_store x \<noteq> []" by (auto simp: utf8_store_def utf8_def)
  then show ?thesis by (simp add: StrHeap.put_def Utf8Url.put_def)
qed

lemma unescape_unit:
  assumes "inn = pre @ u_escape up x @ post"
  shows "json_unescape_loop inn (length pre) m p =
    Option.bind (Utf8Url.put p (utf8_store x) m) (\<lambda>m. json_unescape_loop inn (length (pre @ u_escape up x)) m (p + length (utf8 x)))"
proof -
  have n: "inn ! length pre = 92" "inn ! (length pre + 1) = 117" "length pre + 5 < length inn"
    "length (pre @ u_escape up x) = length pre + 6" "length pre + 1 < length inn"
    by (auto simp: assms u_escape_def nth_append)
  have q: "inn ! (length pre + 2) = hex_digit up (unat x div 16 ^ 3 mod 16)" "inn ! (length pre + 3) = hex_digit up (unat x div 16 ^ 2 mod 16)"
    "inn ! (length pre + 4) = hex_digit up (unat x div 16 ^ 1 mod 16)" "inn ! (length pre + 5) = hex_digit up (unat x div 16 ^ 0 mod 16)"
    by (simp_all add: assms u_escape_def nth_append)
  have d: "hex_value (inn ! (length pre + 2)) = int (unat x div 16 ^ 3 mod 16)"
    "hex_value (inn ! (length pre + 3)) = int (unat x div 16 ^ 2 mod 16)"
    "hex_value (inn ! (length pre + 4)) = int (unat x div 16 ^ 1 mod 16)"
    "hex_value (inn ! (length pre + 5)) = int (unat x div 16 ^ 0 mod 16)"
    unfolding q by (rule hex_value_digit; simp)+
  have x: "unat x < 65536" using unsigned_less [of x, where 'a = nat] by simp
  have v: "hex_value (inn ! (length pre + 2)) * 2 ^ 12 + hex_value (inn ! (length pre + 3)) * 2 ^ 8 +
      hex_value (inn ! (length pre + 4)) * 2 ^ 4 + hex_value (inn ! (length pre + 5)) = uint x"
    unfolding d hex_digits_value [OF x] by simp
  have "json_unescape_loop inn (length pre) m p =
    (case Utf8Url.put p (utf8_store x) m of None \<Rightarrow> None | Some m \<Rightarrow> json_unescape_loop inn (length pre + 6) m (p + length (utf8 x)))"
    by (subst json_unescape_loop.simps) (simp only: n v code_bytes_utf8 put_utf8 Let_def prod.case if_True simp_thms)
  then show ?thesis unfolding n(4) by (simp split: option.splits)
qed

lemma unescape_units:
  "inn = pre @ concat (map (\<lambda>(up, x). u_escape up x) ys) \<Longrightarrow>
   json_unescape_loop inn (length pre) m p = map_option (\<lambda>(n, m). (m, n)) (UTF8Encode_loop (map snd ys) p m)"
proof (induction ys arbitrary: pre m p)
  case Nil
  then show ?case by (subst json_unescape_loop.simps) simp
next
  case (Cons y ys)
  obtain up x where y: "y = (up, x)" by (cases y)
  have i: "inn = pre @ u_escape up x @ concat (map (\<lambda>(up, x). u_escape up x) ys)"
    "inn = (pre @ u_escape up x) @ concat (map (\<lambda>(up, x). u_escape up x) ys)"
    using Cons.prems by (simp_all add: y)
  show ?case unfolding unescape_unit [OF i(1)] Cons.IH [OF i(2)]
    by (simp add: y UTF8Encode_loop_Cons map_option_bind o_def split: option.splits)
qed

text \<open>C28: Unescaping a text of \<^verbatim>\<open>\uXXXX\<close> escapes, whatever the 16-bit code units and the case of the hex digits, leaves the output
  memory as \<^verbatim>\<open>os::UTF8Encode\<close> of those code units leaves it, with the same number of bytes written, and runs past the end of the memory exactly when that does.\<close>

theorem json_unicode_utf8:
  "json_unescape_loop (concat (map (\<lambda>(up, x). u_escape up x) ys)) 0 m 0 = map_option (\<lambda>(n, m). (m, n)) (UTF8Encode (map snd ys) m)"
  using unescape_units [of _ "[]" ys m 0] by (simp add: UTF8Encode_def)

end
